(* ===== verification/Addon_Prelude.thy ===== *)
theory Addon_Prelude
  imports Main "HOL-Library.Word"
begin

text \<open>
  The prelude of the development: the machine integer types of the C++ code, the byte
  splitting and joining the wire formats share, and the generic lemmas on lists and
  options the component theories rest on.  \<open>std::size_t\<close> values are \<open>nat\<close>: most are lengths of containers; the
  offsets and counts of Modbus registers, which are not, are added and compared only, and
  their sums wrap at \<open>2 ^ 64\<close> while every address on the wire is below 65536.  Every other
  fixed-width integer keeps its width.
\<close>

unbundle bit_operations_syntax

type_synonym u8 = "8 word"
type_synonym u16 = "16 word"
type_synonym u32 = "32 word"
type_synonym u64 = "64 word"
type_synonym bytes = "u8 list"

named_theorems byte_simps "splitting words into bytes and joining bytes into words"

section \<open>Bytes of words\<close>

text \<open>\<open>static_cast<uint8_t>((value >> 8) & 0xFF)\<close> and \<open>static_cast<uint8_t>(value & 0xFF)\<close>.\<close>

definition hi8 :: "u16 \<Rightarrow> u8" where
  "hi8 w = ucast (drop_bit 8 w AND 0xFF)"

definition lo8 :: "u16 \<Rightarrow> u8" where
  "lo8 w = ucast (w AND 0xFF)"

text \<open>\<open>static_cast<uint16_t>((hi << 8) | lo)\<close>.\<close>

definition be16 :: "u8 \<Rightarrow> u8 \<Rightarrow> u16" where
  "be16 hi lo = push_bit 8 (ucast hi) OR ucast lo"

lemma u16_0xFF: "(0xFF :: u16) = mask 8"
  by (simp add: mask_eq_exp_minus_1)

lemma bit_0xFF_u16: "bit (0xFF :: u16) n \<longleftrightarrow> n < 8"
  unfolding u16_0xFF by (auto simp: bit_mask_iff)

lemma u8_0xFF: "(0xFF :: u8) = mask 8"
  by (simp add: mask_eq_exp_minus_1)

lemma bit_0xFF_u8: "bit (0xFF :: u8) n \<longleftrightarrow> n < 8"
  unfolding u8_0xFF by (auto simp: bit_mask_iff)

lemma bit_0xFF_int: "bit (0xFF :: int) n \<longleftrightarrow> n < 8"
proof -
  have e: "(0xFF :: int) = mask 8" by (simp add: mask_eq_exp_minus_1)
  show ?thesis unfolding e by (auto simp: bit_mask_iff)
qed

lemmas bit_0xFF = bit_0xFF_u8 bit_0xFF_u16 bit_0xFF_int

lemma unat_ucast_8_16 [simp]: "unat (ucast (b :: u8) :: u16) = unat b"
  by transfer auto

lemma ucast_8_16_eq_iff [simp]: "(ucast (a :: u8) :: u16) = ucast b \<longleftrightarrow> a = b"
  by transfer auto

lemma word_xor_right_cancel [simp]: "(a :: 'a::len word) XOR c = b XOR c \<longleftrightarrow> a = b"
  by (metis xor.assoc xor.right_neutral xor_self_eq)

lemma word_xor_left_cancel [simp]: "(c :: 'a::len word) XOR a = c XOR b \<longleftrightarrow> a = b"
  by (metis xor.commute word_xor_right_cancel)

lemma word_xor_common: "(c XOR p) XOR (c XOR q) = p XOR (q :: 'a::len word)"
  by (rule bit_word_eqI) (auto simp: bit_simps)

lemma word_xor_transpose:
  assumes "x XOR p = y XOR (q :: 'a::len word)"
  shows "x XOR y = p XOR q"
proof -
  have "x XOR y = (x XOR p) XOR (p XOR y)" by (rule bit_word_eqI) (auto simp: bit_simps)
  also have "\<dots> = (y XOR q) XOR (p XOR y)" by (simp only: assms)
  also have "\<dots> = p XOR q" by (rule bit_word_eqI) (auto simp: bit_simps)
  finally show ?thesis .
qed

lemma unat_u8_less [simp]: "unat (b :: u8) < 256"
proof -
  have "unat b < 2 ^ LENGTH(8)" by (rule unsigned_less)
  then show ?thesis by simp
qed

lemma unat_u16_less [simp]: "unat (w :: u16) < 65536"
proof -
  have "unat w < 2 ^ LENGTH(16)" by (rule unsigned_less)
  then show ?thesis by simp
qed

lemma hi8_be16 [simp, byte_simps]: "hi8 (be16 h l) = h"
  by (rule bit_word_eqI) (auto simp: hi8_def be16_def bit_simps bit_0xFF dest: bit_imp_le_length)

lemma lo8_be16 [simp, byte_simps]: "lo8 (be16 h l) = l"
  by (rule bit_word_eqI) (auto simp: lo8_def be16_def bit_simps bit_0xFF)

lemma be16_hi8_lo8 [simp, byte_simps]: "be16 (hi8 w) (lo8 w) = w"
proof (rule bit_word_eqI)
  fix n assume "n < LENGTH(16)"
  then show "bit (be16 (hi8 w) (lo8 w)) n = bit w n"
    by (cases "n < 8") (auto simp: hi8_def lo8_def be16_def bit_simps bit_0xFF)
qed

lemma be16_eq_iff [simp]: "be16 h l = be16 h' l' \<longleftrightarrow> h = h' \<and> l = l'"
  by (metis hi8_be16 lo8_be16)

lemma be16_eq_word_iff: "be16 h l = w \<longleftrightarrow> h = hi8 w \<and> l = lo8 w"
  by (metis be16_hi8_lo8 hi8_be16 lo8_be16)

lemma unat_be16: "unat (be16 h l) = unat h * 256 + unat l"
proof -
  have d: "push_bit 8 (ucast h :: u16) AND ucast l = 0"
    by (rule bit_word_eqI) (auto simp: bit_simps dest: bit_imp_le_length)
  have "be16 h l = push_bit 8 (ucast h) + ucast l"
    unfolding be16_def using d by (simp add: disjunctive_add_eq_or)
  moreover have "unat h * 256 + unat l < 65536"
    using unat_u8_less [of h] unat_u8_less [of l] by linarith
  ultimately show ?thesis
    by (simp add: push_bit_eq_mult unat_word_ariths)
qed

text \<open>A 32-bit value in little-endian byte order, byte \<open>i\<close> being bits \<open>8i .. 8i+7\<close>.\<close>

definition byte_of32 :: "u32 \<Rightarrow> nat \<Rightarrow> u8" where
  "byte_of32 w i = ucast (drop_bit (8 * i) w)"

section \<open>Lists and options\<close>

lemma nth_take_Suc_append: "i < length xs \<Longrightarrow> take (Suc i) xs = take i xs @ [xs ! i]"
  by (rule take_Suc_conv_app_nth)

lemma length_ge_5E:
  assumes "5 \<le> length xs"
  obtains a b c d e ys where "xs = a # b # c # d # e # ys"
  using assms by (cases xs; cases "tl xs"; cases "tl (tl xs)"; cases "tl (tl (tl xs))";
    cases "tl (tl (tl (tl xs)))") auto

lemma list_last2E:
  assumes "2 \<le> length xs"
  obtains ys a b where "xs = ys @ [a, b]"
proof -
  from assms obtain zs b where 1: "xs = zs @ [b]" by (cases xs rule: rev_cases) auto
  with assms obtain ys a where "zs = ys @ [a]" by (cases zs rule: rev_cases) auto
  with 1 that show thesis by simp
qed

end
