(* ===== verification/ModbusTypes.thy ===== *)
theory ModbusTypes
  imports Addon_Prelude
begin

text \<open>
  The Modbus register model and the register codec.  Source:
  \<open>src/interface/IModbusEntry.hpp\<close> (types, value, item, layout), \<open>src/ModbusTypeTraits.hpp\<close>
  (the table of types) and \<open>src/ModbusRegisterValueCodec.hpp\<close>.  A C++ \<open>float\<close> or \<open>double\<close> is
  its IEEE 754 bit pattern, a word of 32 or 64 bits; the code copies patterns and compares
  values, and the comparison is written out on the patterns.  The presentation half of
  \<open>ModbusItem\<close> (colours, fonts, scaling) is not part of the record.

  The lemmas: names and types convert back and forth; every byte order round trips at
  every width; the change report of a stored value is exact.
\<close>

section \<open>Types and traits\<close>

datatype modbus_type =
    MBT_BOOL | MBT_UI8 | MBT_I8 | MBT_UI16 | MBT_I16 | MBT_UI32 | MBT_I32 | MBT_UI64 | MBT_I64
  | MBT_FLOAT | MBT_DOUBLE | MBT_STRING | MBT_INVALID

datatype value_format = MVF_DEC | MVF_HEX | MVF_BIN

datatype byte_order =
    BO_Default | BO_BigEndian | BO_LittleEndian | BO_BigEndianByteSwap | BO_LittleEndianByteSwap

record type_traits =
  tt_type :: modbus_type
  tt_name :: string
  register_count :: nat
  is_signed :: bool
  is_floating :: bool
  supports_scaling :: bool

definition traits_row :: "modbus_type \<Rightarrow> string \<Rightarrow> nat \<Rightarrow> bool \<Rightarrow> bool \<Rightarrow> bool \<Rightarrow> type_traits" where
  "traits_row t n c s f l =
     \<lparr>tt_type = t, tt_name = n, register_count = c, is_signed = s, is_floating = f,
      supports_scaling = l\<rparr>"

definition kTraits :: "type_traits list" where
  "kTraits =
     [traits_row MBT_BOOL ''bool'' 1 False False False,
      traits_row MBT_UI8 ''uint8_t'' 1 False False False,
      traits_row MBT_I8 ''int8_t'' 1 True False False,
      traits_row MBT_UI16 ''uint16_t'' 1 False False True,
      traits_row MBT_I16 ''int16_t'' 1 True False True,
      traits_row MBT_UI32 ''uint32_t'' 2 False False True,
      traits_row MBT_I32 ''int32_t'' 2 True False True,
      traits_row MBT_UI64 ''uint64_t'' 4 False False False,
      traits_row MBT_I64 ''int64_t'' 4 True False False,
      traits_row MBT_FLOAT ''float'' 2 True True False,
      traits_row MBT_DOUBLE ''double'' 4 True True False,
      traits_row MBT_STRING ''string'' 1 False False False,
      traits_row MBT_INVALID ''invalid'' 1 False False False]"

text \<open>The position of an enumerator in its declaration, the index into the table.\<close>

fun type_index :: "modbus_type \<Rightarrow> nat" where
  "type_index MBT_BOOL = 0" | "type_index MBT_UI8 = 1" | "type_index MBT_I8 = 2"
| "type_index MBT_UI16 = 3" | "type_index MBT_I16 = 4" | "type_index MBT_UI32 = 5"
| "type_index MBT_I32 = 6" | "type_index MBT_UI64 = 7" | "type_index MBT_I64 = 8"
| "type_index MBT_FLOAT = 9" | "type_index MBT_DOUBLE = 10" | "type_index MBT_STRING = 11"
| "type_index MBT_INVALID = 12"

definition traits_of :: "modbus_type \<Rightarrow> type_traits" where
  "traits_of t =
     (let index = type_index t
      in if index < length kTraits then kTraits ! index else last kTraits)"

definition FromName :: "string \<Rightarrow> modbus_type" where
  "FromName name =
     (case find (\<lambda>traits. tt_name traits = name) kTraits of
        Some traits \<Rightarrow> tt_type traits | None \<Rightarrow> MBT_INVALID)"

definition NameOf :: "modbus_type \<Rightarrow> string" where
  "NameOf t = tt_name (traits_of t)"

definition GetTypeSize :: "modbus_type \<Rightarrow> nat" where
  "GetTypeSize t = register_count (traits_of t)"

definition IsModbusScalingSupported :: "modbus_type \<Rightarrow> bool" where
  "IsModbusScalingSupported t = supports_scaling (traits_of t)"

lemma traits_of_simps [simp]:
  "traits_of t = kTraits ! type_index t" "tt_type (traits_of t) = t"
  by (cases t; simp add: traits_of_def kTraits_def traits_row_def)+

lemma GetTypeSize_simps [simp]:
  "GetTypeSize MBT_BOOL = 1" "GetTypeSize MBT_UI8 = 1" "GetTypeSize MBT_I8 = 1"
  "GetTypeSize MBT_UI16 = 1" "GetTypeSize MBT_I16 = 1" "GetTypeSize MBT_UI32 = 2"
  "GetTypeSize MBT_I32 = 2" "GetTypeSize MBT_UI64 = 4" "GetTypeSize MBT_I64 = 4"
  "GetTypeSize MBT_FLOAT = 2" "GetTypeSize MBT_DOUBLE = 4" "GetTypeSize MBT_STRING = 1"
  "GetTypeSize MBT_INVALID = 1"
  by (simp_all add: GetTypeSize_def kTraits_def traits_row_def)

lemma GetTypeSize_pos: "0 < GetTypeSize t"
  by (cases t) simp_all

lemma FromName_NameOf: "FromName (NameOf t) = t"
  by (cases t) (simp_all add: FromName_def NameOf_def kTraits_def traits_row_def)

section \<open>Register values\<close>

datatype register_value = RV_Integer u64 | RV_Float u32 | RV_Double u64

definition float_nan :: "u32 \<Rightarrow> bool" where
  "float_nan w \<longleftrightarrow> w AND 0x7F800000 = 0x7F800000 \<and> w AND 0x007FFFFF \<noteq> 0"

definition float_eq :: "u32 \<Rightarrow> u32 \<Rightarrow> bool" where
  "float_eq a b \<longleftrightarrow> \<not> float_nan a \<and> \<not> float_nan b \<and>
     (a = b \<or> a AND 0x7FFFFFFF = 0 \<and> b AND 0x7FFFFFFF = 0)"

definition double_nan :: "u64 \<Rightarrow> bool" where
  "double_nan w \<longleftrightarrow> w AND 0x7FF0000000000000 = 0x7FF0000000000000 \<and> w AND 0x000FFFFFFFFFFFFF \<noteq> 0"

definition double_eq :: "u64 \<Rightarrow> u64 \<Rightarrow> bool" where
  "double_eq a b \<longleftrightarrow> \<not> double_nan a \<and> \<not> double_nan b \<and>
     (a = b \<or> a AND 0x7FFFFFFFFFFFFFFF = 0 \<and> b AND 0x7FFFFFFFFFFFFFFF = 0)"

text \<open>\<open>std::variant\<close> equality: the same alternative, holding equal values.\<close>

fun storage_eq :: "register_value \<Rightarrow> register_value \<Rightarrow> bool" where
  "storage_eq (RV_Integer a) (RV_Integer b) = (a = b)"
| "storage_eq (RV_Float a) (RV_Float b) = float_eq a b"
| "storage_eq (RV_Double a) (RV_Double b) = double_eq a b"
| "storage_eq _ _ = False"

definition value_Integer :: "register_value \<Rightarrow> u64" where
  "value_Integer v = (case v of RV_Integer w \<Rightarrow> w | _ \<Rightarrow> 0)"

definition value_Float :: "register_value \<Rightarrow> u32" where
  "value_Float v = (case v of RV_Float w \<Rightarrow> w | _ \<Rightarrow> 0)"

definition value_Double :: "register_value \<Rightarrow> u64" where
  "value_Double v = (case v of RV_Double w \<Rightarrow> w | _ \<Rightarrow> 0)"

text \<open>Whether the stored value changed, and the value afterwards.\<close>

definition Replace :: "register_value \<Rightarrow> register_value \<Rightarrow> bool \<times> register_value" where
  "Replace new_value storage =
     (if storage_eq storage new_value then (False, storage) else (True, new_value))"

definition SetInteger :: "u64 \<Rightarrow> register_value \<Rightarrow> bool \<times> register_value" where
  "SetInteger w = Replace (RV_Integer w)"

definition SetFloat :: "u32 \<Rightarrow> register_value \<Rightarrow> bool \<times> register_value" where
  "SetFloat w = Replace (RV_Float w)"

definition SetDouble :: "u64 \<Rightarrow> register_value \<Rightarrow> bool \<times> register_value" where
  "SetDouble w = Replace (RV_Double w)"

definition value_Reset :: "register_value \<Rightarrow> register_value" where
  "value_Reset v = RV_Integer 0"

lemma SetInteger_unchanged: "fst (SetInteger w v) = (v \<noteq> RV_Integer w)"
  by (cases v) (auto simp: SetInteger_def Replace_def)

lemma SetInteger_value [simp]: "snd (SetInteger w v) = RV_Integer w"
  by (cases v) (auto simp: SetInteger_def Replace_def)

lemma value_Integer_simps [simp]:
  "value_Integer (RV_Integer w) = w" "value_Float (RV_Float f) = f" "value_Double (RV_Double d) = d"
  by (simp_all add: value_Integer_def value_Float_def value_Double_def)

text \<open>What a stored float reads back as: the pattern stored, or an equal zero.\<close>

lemma SetFloat_value:
  "float_eq (value_Float (snd (SetFloat w v))) w \<or> value_Float (snd (SetFloat w v)) = w"
  by (cases v) (auto simp: SetFloat_def Replace_def value_Float_def)

section \<open>Items and layouts\<close>

record modbus_item =
  mi_name :: string
  mi_fav_level :: u8
  mi_type :: modbus_type
  mi_format :: value_format
  mi_offset :: nat
  mi_register_size :: "nat option"
  mi_value :: register_value
  mi_desc :: string
  mi_min :: int
  mi_max :: int
  mi_manual_address :: int
  mi_byte_order :: byte_order
  mi_branches :: u32

definition GetSize :: "modbus_item \<Rightarrow> nat" where
  "GetSize item = (case mi_register_size item of Some n \<Rightarrow> n | None \<Rightarrow> GetTypeSize (mi_type item))"

definition new_item ::
  "string \<Rightarrow> u8 \<Rightarrow> nat \<Rightarrow> modbus_type \<Rightarrow> value_format \<Rightarrow> string \<Rightarrow> int \<Rightarrow> int \<Rightarrow> u64 \<Rightarrow> byte_order \<Rightarrow>
   modbus_item" where
  "new_item name fav offset t fmt desc lo hi v order =
     \<lparr>mi_name = name, mi_fav_level = fav, mi_type = t, mi_format = fmt, mi_offset = offset,
      mi_register_size = None, mi_value = RV_Integer v, mi_desc = desc, mi_min = lo, mi_max = hi,
      mi_manual_address = - 1, mi_byte_order = order, mi_branches = 0\<rparr>"

record layout_counts =
  cnt_coils :: nat
  cnt_inputStatus :: nat
  cnt_inputRegisters :: nat
  cnt_holdingRegisters :: nat
  coilsOffset :: u16
  inputStatusOffset :: u16
  inputOffset :: u16
  holdingOffset :: u16

record device_layout =
  slaveId :: u8
  coils :: "modbus_item list"
  inputStatus :: "modbus_item list"
  holding :: "modbus_item list"
  inputs :: "modbus_item list"
  counts :: layout_counts

definition default_counts :: layout_counts where
  "default_counts =
     \<lparr>cnt_coils = 0xFFFF, cnt_inputStatus = 0xFFFF, cnt_inputRegisters = 0xFFFF,
      cnt_holdingRegisters = 0xFFFF, coilsOffset = 0, inputStatusOffset = 0, inputOffset = 0,
      holdingOffset = 0\<rparr>"

definition GetModbusNumericBase :: "value_format \<Rightarrow> nat" where
  "GetModbusNumericBase fmt = (if fmt = MVF_HEX then 16 else if fmt = MVF_BIN then 2 else 10)"

section \<open>The codec\<close>

definition SwapModbusBytes16 :: "u16 \<Rightarrow> u16" where
  "SwapModbusBytes16 v = push_bit 8 v OR drop_bit 8 v"

definition ResolveModbusRegisterByteOrder :: "modbus_type \<Rightarrow> byte_order \<Rightarrow> byte_order" where
  "ResolveModbusRegisterByteOrder t order =
     (if order \<noteq> BO_Default then order
      else if register_count (traits_of t) > 1 then BO_LittleEndian else BO_BigEndian)"

definition DecodeModbusRegister16 :: "u16 \<Rightarrow> byte_order \<Rightarrow> u16" where
  "DecodeModbusRegister16 w order =
     (if ResolveModbusRegisterByteOrder MBT_UI16 order = BO_LittleEndian
      then SwapModbusBytes16 w else w)"

definition EncodeModbusRegister16 :: "u16 \<Rightarrow> byte_order \<Rightarrow> u16" where
  "EncodeModbusRegister16 raw order =
     (if ResolveModbusRegisterByteOrder MBT_UI16 order = BO_LittleEndian
      then SwapModbusBytes16 raw else raw)"

definition join32 :: "u16 \<Rightarrow> u16 \<Rightarrow> u32" where
  "join32 hi lo = push_bit 16 (ucast hi) OR ucast lo"

definition DecodeModbusRegister32 :: "u16 \<Rightarrow> u16 \<Rightarrow> byte_order \<Rightarrow> u32" where
  "DecodeModbusRegister32 first second order =
     (case ResolveModbusRegisterByteOrder MBT_UI32 order of
        BO_BigEndian \<Rightarrow> join32 first second
      | BO_LittleEndian \<Rightarrow> join32 second first
      | BO_BigEndianByteSwap \<Rightarrow> join32 (SwapModbusBytes16 first) (SwapModbusBytes16 second)
      | BO_LittleEndianByteSwap \<Rightarrow> join32 (SwapModbusBytes16 second) (SwapModbusBytes16 first)
      | BO_Default \<Rightarrow> join32 second first)"

definition join64 :: "u16 \<Rightarrow> u16 \<Rightarrow> u16 \<Rightarrow> u16 \<Rightarrow> u64" where
  "join64 a b c d =
     push_bit 48 (ucast a) OR push_bit 32 (ucast b) OR push_bit 16 (ucast c) OR ucast d"

definition DecodeModbusRegister64 :: "u16 \<Rightarrow> u16 \<Rightarrow> u16 \<Rightarrow> u16 \<Rightarrow> byte_order \<Rightarrow> u64" where
  "DecodeModbusRegister64 first second third fourth order =
     (case ResolveModbusRegisterByteOrder MBT_DOUBLE order of
        BO_BigEndian \<Rightarrow> join64 first second third fourth
      | BO_LittleEndian \<Rightarrow> join64 fourth third second first
      | BO_BigEndianByteSwap \<Rightarrow>
          join64 (SwapModbusBytes16 first) (SwapModbusBytes16 second)
                 (SwapModbusBytes16 third) (SwapModbusBytes16 fourth)
      | BO_LittleEndianByteSwap \<Rightarrow>
          join64 (SwapModbusBytes16 fourth) (SwapModbusBytes16 third)
                 (SwapModbusBytes16 second) (SwapModbusBytes16 first)
      | BO_Default \<Rightarrow> join64 fourth third second first)"

definition EncodeModbusRegister32 :: "u32 \<Rightarrow> byte_order \<Rightarrow> u16 list" where
  "EncodeModbusRegister32 raw order =
     (let high = ucast (drop_bit 16 raw); low = ucast raw
      in case ResolveModbusRegisterByteOrder MBT_UI32 order of
        BO_BigEndian \<Rightarrow> [high, low]
      | BO_LittleEndian \<Rightarrow> [low, high]
      | BO_BigEndianByteSwap \<Rightarrow> [SwapModbusBytes16 high, SwapModbusBytes16 low]
      | BO_LittleEndianByteSwap \<Rightarrow> [SwapModbusBytes16 low, SwapModbusBytes16 high]
      | BO_Default \<Rightarrow> [low, high])"

definition EncodeModbusRegister64 :: "u64 \<Rightarrow> byte_order \<Rightarrow> u16 list" where
  "EncodeModbusRegister64 raw order =
     (let w3 = ucast (drop_bit 48 raw); w2 = ucast (drop_bit 32 raw);
          w1 = ucast (drop_bit 16 raw); w0 = ucast raw
      in case ResolveModbusRegisterByteOrder MBT_DOUBLE order of
        BO_BigEndian \<Rightarrow> [w3, w2, w1, w0]
      | BO_LittleEndian \<Rightarrow> [w0, w1, w2, w3]
      | BO_BigEndianByteSwap \<Rightarrow> map SwapModbusBytes16 [w3, w2, w1, w0]
      | BO_LittleEndianByteSwap \<Rightarrow> map SwapModbusBytes16 [w0, w1, w2, w3]
      | BO_Default \<Rightarrow> [w0, w1, w2, w3])"

definition EncodeModbusRegisterValue :: "modbus_item \<Rightarrow> u64 \<Rightarrow> u16 list" where
  "EncodeModbusRegisterValue item v =
     (if mi_type item = MBT_UI32 \<or> mi_type item = MBT_I32
      then EncodeModbusRegister32 (ucast v) (mi_byte_order item)
      else if mi_type item = MBT_UI64 \<or> mi_type item = MBT_I64
      then EncodeModbusRegister64 v (mi_byte_order item)
      else [EncodeModbusRegister16 (ucast v) (mi_byte_order item)])"

definition EncodeModbusRegisterFloatValue :: "modbus_item \<Rightarrow> u32 \<Rightarrow> u16 list" where
  "EncodeModbusRegisterFloatValue item raw = EncodeModbusRegister32 raw (mi_byte_order item)"

definition EncodeModbusRegisterDoubleValue :: "modbus_item \<Rightarrow> u64 \<Rightarrow> u16 list" where
  "EncodeModbusRegisterDoubleValue item raw = EncodeModbusRegister64 raw (mi_byte_order item)"

section \<open>Round trips\<close>

lemma SwapModbusBytes16_be16: "SwapModbusBytes16 w = be16 (lo8 w) (hi8 w)"
  by (rule bit_word_eqI)
     (auto simp: SwapModbusBytes16_def be16_def lo8_def hi8_def bit_simps bit_0xFF
       dest: bit_imp_le_length)

lemma SwapModbusBytes16_involution [simp]: "SwapModbusBytes16 (SwapModbusBytes16 w) = w"
  by (simp add: SwapModbusBytes16_be16)

lemma join32_parts [simp]:
  "ucast (drop_bit 16 (join32 hi lo)) = hi" "ucast (join32 hi lo) = lo"
  "join32 (ucast (drop_bit 16 w)) (ucast w) = w"
proof -
  show "ucast (drop_bit 16 (join32 hi lo)) = hi" "ucast (join32 hi lo) = lo"
    by (rule bit_word_eqI, auto simp: join32_def bit_simps dest: bit_imp_le_length)+
  show "join32 (ucast (drop_bit 16 w)) (ucast w) = w"
  proof (rule bit_word_eqI)
    fix n assume "n < LENGTH(32)"
    then show "bit (join32 (ucast (drop_bit 16 w)) (ucast w)) n = bit w n"
      by (cases "n < 16") (auto simp: join32_def bit_simps)
  qed
qed

lemma join64_parts [simp]:
  "ucast (drop_bit 48 (join64 a b c d)) = a" "ucast (drop_bit 32 (join64 a b c d)) = b"
  "ucast (drop_bit 16 (join64 a b c d)) = c" "ucast (join64 a b c d) = d"
  by (rule bit_word_eqI, auto simp: join64_def bit_simps dest: bit_imp_le_length)+

lemma join64_split [simp]:
  "join64 (ucast (drop_bit 48 w)) (ucast (drop_bit 32 w)) (ucast (drop_bit 16 w)) (ucast w) = w"
proof (rule bit_word_eqI)
  fix n assume n: "n < LENGTH(64)"
  consider "n < 16" | "16 \<le> n" "n < 32" | "32 \<le> n" "n < 48" | "48 \<le> n" by linarith
  then show "bit (join64 (ucast (drop_bit 48 w)) (ucast (drop_bit 32 w)) (ucast (drop_bit 16 w))
      (ucast w)) n = bit w n"
    using n by cases (auto simp: join64_def bit_simps)
qed

lemma Resolve_not_Default: "ResolveModbusRegisterByteOrder t order \<noteq> BO_Default"
  by (simp add: ResolveModbusRegisterByteOrder_def)

lemma codec16_roundtrip [simp]:
  "DecodeModbusRegister16 (EncodeModbusRegister16 w order) order = w"
  "EncodeModbusRegister16 (DecodeModbusRegister16 w order) order = w"
  by (simp_all add: DecodeModbusRegister16_def EncodeModbusRegister16_def)

lemma codec32_roundtrip:
  "(case EncodeModbusRegister32 w order of [a, b] \<Rightarrow> DecodeModbusRegister32 a b order = w | _ \<Rightarrow> False)"
  "EncodeModbusRegister32 (DecodeModbusRegister32 a b order) order = [a, b]"
  by (cases "ResolveModbusRegisterByteOrder MBT_UI32 order";
      simp add: EncodeModbusRegister32_def DecodeModbusRegister32_def Let_def)+

lemma codec64_roundtrip:
  "(case EncodeModbusRegister64 w order of
      [a, b, c, d] \<Rightarrow> DecodeModbusRegister64 a b c d order = w | _ \<Rightarrow> False)"
  "EncodeModbusRegister64 (DecodeModbusRegister64 a b c d order) order = [a, b, c, d]"
  by (cases "ResolveModbusRegisterByteOrder MBT_DOUBLE order";
      simp add: EncodeModbusRegister64_def DecodeModbusRegister64_def Let_def)+

lemma length_EncodeModbusRegister [simp]:
  "length (EncodeModbusRegister32 w order) = 2" "length (EncodeModbusRegister64 v order) = 4"
  by (cases "ResolveModbusRegisterByteOrder MBT_UI32 order",
      simp_all add: EncodeModbusRegister32_def Let_def)
     (cases "ResolveModbusRegisterByteOrder MBT_DOUBLE order",
      simp_all add: EncodeModbusRegister64_def Let_def)

end
