(* ===== verification/ModbusRegisterEditor.thy ===== *)
theory ModbusRegisterEditor
  imports ModbusTypes "HOL-Library.Multiset"
begin

text \<open>
  The register layout editor.  Source: \<open>src/ModbusRegisterEditor.hpp\<close>.  An edit acts on
  the contiguous address group around the selected row and gives its members new
  addresses.  The item pointers are never null in a loaded layout, so a layout is a list of
  items.

  The lemmas: a group search finds exactly the maximal contiguous group; a failed edit
  leaves the layout as it was; a successful edit re-addresses only the group, and keeps the
  layout free of overlaps; moving a row up and then down is the identity.
\<close>

section \<open>The editor\<close>

datatype edit_action = MoveUp | MoveDown | Delete | InsertAfter

record edit_result =
  er_success :: bool
  er_error :: string
  er_selected_index :: nat

definition edit_ok :: "nat \<Rightarrow> edit_result" where
  "edit_ok i = \<lparr>er_success = True, er_error = [], er_selected_index = i\<rparr>"

definition edit_fail :: "string \<Rightarrow> nat \<Rightarrow> edit_result" where
  "edit_fail e i = \<lparr>er_success = False, er_error = e, er_selected_index = i\<rparr>"

lemma edit_result_simps [simp]:
  "er_success (edit_ok i)" "\<not> er_success (edit_fail e i)"
  "er_selected_index (edit_ok i) = i" "er_selected_index (edit_fail e i) = i"
  by (simp_all add: edit_ok_def edit_fail_def)

definition ModbusRegisterEnd :: "modbus_item \<Rightarrow> nat" where
  "ModbusRegisterEnd item = mi_offset item + GetSize item"

definition GetModbusRegisterCount :: "modbus_item list \<Rightarrow> nat" where
  "GetModbusRegisterCount items = fold (\<lambda>item count. max count (ModbusRegisterEnd item)) items 0"

definition CreateDefaultInsertedModbusRegister :: "modbus_item \<Rightarrow> modbus_item" where
  "CreateDefaultInsertedModbusRegister previous =
     (new_item ''new_register'' (mi_fav_level previous) (ModbusRegisterEnd previous) MBT_UI16
        (mi_format previous) '''' 0 0 0 BO_Default)\<lparr>mi_branches := mi_branches previous\<rparr>"

text \<open>The two searches of \<open>FindContiguousModbusGroup\<close>; \<open>None\<close> is an overlap.\<close>

fun group_down :: "modbus_item list \<Rightarrow> nat \<Rightarrow> nat option" where
  "group_down items 0 = Some 0"
| "group_down items (Suc g) =
     (let previous_end = ModbusRegisterEnd (items ! g); current_start = mi_offset (items ! Suc g)
      in if previous_end < current_start then Some (Suc g)
         else if previous_end > current_start then None
         else group_down items g)"

function group_up :: "modbus_item list \<Rightarrow> nat \<Rightarrow> nat option" where
  "group_up items g =
     (if g + 1 < length items then
        let current_end = ModbusRegisterEnd (items ! g); next_start = mi_offset (items ! (g + 1))
        in if current_end < next_start then Some g
           else if current_end > next_start then None
           else group_up items (g + 1)
      else Some g)"
  by pat_completeness auto
termination by (relation "measure (\<lambda>(items, g). length items - g)") auto

declare group_up.simps [simp del]

definition FindContiguousModbusGroup ::
  "modbus_item list \<Rightarrow> nat \<Rightarrow> edit_result + nat \<times> nat" where
  "FindContiguousModbusGroup items index =
     (if index \<ge> length items then Inl (edit_fail ''No register is selected.'' index)
      else case group_down items index of
        None \<Rightarrow> Inl (edit_fail ''Register addresses overlap before the selected row.'' index)
      | Some group_start \<Rightarrow>
          (case group_up items index of
             None \<Rightarrow> Inl (edit_fail ''Register addresses overlap after the selected row.'' index)
           | Some group_end \<Rightarrow> Inr (group_start, group_end)))"

function reflow_from :: "modbus_item list \<Rightarrow> nat \<Rightarrow> nat \<Rightarrow> nat \<Rightarrow> modbus_item list" where
  "reflow_from items i group_end offset =
     (if i \<le> group_end
      then reflow_from (items[i := (items ! i)\<lparr>mi_offset := offset\<rparr>]) (i + 1) group_end
             (offset + GetSize (items ! i))
      else items)"
  by pat_completeness auto
termination by (relation "measure (\<lambda>(items, i, e, off). Suc e - i)") auto

declare reflow_from.simps [simp del]

definition ReflowModbusRegisterGroup :: "modbus_item list \<Rightarrow> nat \<Rightarrow> nat \<Rightarrow> nat \<Rightarrow> modbus_item list" where
  "ReflowModbusRegisterGroup items group_start group_end start_offset =
     reflow_from items group_start group_end start_offset"

definition WouldOverlapNextModbusGroup :: "modbus_item list \<Rightarrow> nat \<Rightarrow> bool" where
  "WouldOverlapNextModbusGroup items group_end \<longleftrightarrow>
     group_end + 1 < length items \<and>
     ModbusRegisterEnd (items ! group_end) \<ge> mi_offset (items ! (group_end + 1))"

definition swap_items :: "'a list \<Rightarrow> nat \<Rightarrow> nat \<Rightarrow> 'a list" where
  "swap_items xs i j = xs[i := xs ! j, j := xs ! i]"

definition erase_at :: "'a list \<Rightarrow> nat \<Rightarrow> 'a list" where
  "erase_at xs i = take i xs @ drop (Suc i) xs"

definition insert_at :: "'a list \<Rightarrow> nat \<Rightarrow> 'a \<Rightarrow> 'a list" where
  "insert_at xs i x = take i xs @ x # drop i xs"

definition EditModbusRegisterLayout ::
  "modbus_item list \<Rightarrow> nat \<Rightarrow> edit_action \<Rightarrow> edit_result \<times> modbus_item list" where
  "EditModbusRegisterLayout items index action =
     (case FindContiguousModbusGroup items index of
        Inl failed \<Rightarrow> (failed, items)
      | Inr (group_start, group_end) \<Rightarrow>
         let group_offset = mi_offset (items ! group_start)
         in case action of
           MoveUp \<Rightarrow>
             if index = group_start
             then (edit_fail ''The selected register is already at the top of this address group.'' index,
                   items)
             else (edit_ok (index - 1),
                   ReflowModbusRegisterGroup (swap_items items (index - 1) index)
                     group_start group_end group_offset)
         | MoveDown \<Rightarrow>
             if index = group_end
             then (edit_fail ''The selected register is already at the bottom of this address group.'' index,
                   items)
             else (edit_ok (index + 1),
                   ReflowModbusRegisterGroup (swap_items items index (index + 1))
                     group_start group_end group_offset)
         | Delete \<Rightarrow>
             let items' = erase_at items index;
                 items' = (if group_start < group_end \<and> group_start < length items'
                           then ReflowModbusRegisterGroup items' group_start (group_end - 1) group_offset
                           else items')
             in (edit_ok (min index (if items' = [] then 0 else length items' - 1)), items')
         | InsertAfter \<Rightarrow>
             let insert_index = index + 1;
                 items' = insert_at items insert_index
                            (CreateDefaultInsertedModbusRegister (items ! index));
                 items' = ReflowModbusRegisterGroup items' group_start (group_end + 1) group_offset
             in if WouldOverlapNextModbusGroup items' (group_end + 1)
                then (edit_fail ''Inserting here would overlap the next address group.'' index,
                      ReflowModbusRegisterGroup (erase_at items' insert_index) group_start group_end
                        group_offset)
                else (edit_ok insert_index, items'))"

definition IsSizedModbusRegisterType :: "modbus_type \<Rightarrow> bool" where
  "IsSizedModbusRegisterType t \<longleftrightarrow>
     t = MBT_UI16 \<or> t = MBT_I16 \<or> t = MBT_UI32 \<or> t = MBT_I32 \<or>
     t = MBT_UI64 \<or> t = MBT_I64 \<or> t = MBT_FLOAT \<or> t = MBT_DOUBLE"

definition ChangeModbusRegisterType ::
  "modbus_item list \<Rightarrow> nat \<Rightarrow> modbus_type \<Rightarrow> edit_result \<times> modbus_item list" where
  "ChangeModbusRegisterType items index new_type =
     (if index \<ge> length items then (edit_fail ''No register is selected.'' index, items)
      else if mi_type (items ! index) = MBT_BOOL
        then (edit_fail ''Bit field types cannot be changed.'' index, items)
      else if \<not> IsSizedModbusRegisterType new_type
        then (edit_fail ''This register type is not supported for live Modbus register editing.'' index,
              items)
      else case FindContiguousModbusGroup items index of
        Inl failed \<Rightarrow> (failed, items)
      | Inr (group_start, group_end) \<Rightarrow>
         let group_offset = mi_offset (items ! group_start);
             old_item = items ! index;
             items' = items[index := (items ! index)\<lparr>mi_type := new_type, mi_register_size := None,
                                       mi_value := value_Reset (mi_value (items ! index))\<rparr>];
             items' = ReflowModbusRegisterGroup items' group_start group_end group_offset
         in if WouldOverlapNextModbusGroup items' group_end
            then (edit_fail ''Changing this register type would overlap the next address group.'' index,
                  ReflowModbusRegisterGroup
                    (items'[index := (items' ! index)\<lparr>mi_type := mi_type old_item,
                               mi_register_size := mi_register_size old_item,
                               mi_value := mi_value old_item\<rparr>])
                    group_start group_end group_offset)
            else (edit_ok index, items'))"

section \<open>Contiguous runs\<close>

text \<open>Members placed one after the other from an address.\<close>

fun place :: "nat \<Rightarrow> modbus_item list \<Rightarrow> modbus_item list" where
  "place off [] = []"
| "place off (x # xs) = x\<lparr>mi_offset := off\<rparr> # place (off + GetSize x) xs"

definition total_size :: "modbus_item list \<Rightarrow> nat" where
  "total_size xs = sum_list (map GetSize xs)"

lemma GetSize_offset [simp]: "GetSize (x\<lparr>mi_offset := off\<rparr>) = GetSize x"
  by (simp add: GetSize_def split: option.split)

lemma total_size_simps [simp]:
  "total_size [] = 0" "total_size (x # xs) = GetSize x + total_size xs"
  "total_size (xs @ ys) = total_size xs + total_size ys"
  by (simp_all add: total_size_def)

lemma length_place [simp]: "length (place off xs) = length xs"
  by (induction off xs rule: place.induct) simp_all

lemma place_Nil_iff [simp]: "place off xs = [] \<longleftrightarrow> xs = []"
  by (cases xs) simp_all

lemma place_append: "place off (xs @ ys) = place off xs @ place (off + total_size xs) ys"
  by (induction off xs rule: place.induct) (simp_all add: add.assoc)

lemma place_place [simp]: "place off (place off' xs) = place off xs"
  by (induction xs arbitrary: off off') simp_all

lemma total_size_place [simp]: "total_size (place off xs) = total_size xs"
  by (induction off xs rule: place.induct) simp_all

lemma place_nth: "i < length xs \<Longrightarrow>
    place off xs ! i = (xs ! i)\<lparr>mi_offset := off + total_size (take i xs)\<rparr>"
  by (induction xs arbitrary: off i) (auto simp: nth_Cons' add.assoc take_Cons')

lemma hd_place: "xs \<noteq> [] \<Longrightarrow> mi_offset (hd (place off xs)) = off"
  by (cases xs) simp_all

lemma End_last_place: "xs \<noteq> [] \<Longrightarrow> ModbusRegisterEnd (last (place off xs)) = off + total_size xs"
  by (induction off xs rule: place.induct) (auto simp: ModbusRegisterEnd_def)

text \<open>A re-addressing that only changes offsets.\<close>

lemma place_item_update:
  "i < length xs \<Longrightarrow> place off (xs[i := (xs ! i)\<lparr>mi_offset := o'\<rparr>]) = place off xs"
  by (induction xs arbitrary: off i) (auto simp: nth_Cons' split: nat.splits)

lemma reflow_from_place:
  "i = length pre \<Longrightarrow> Suc e = length pre + length grp \<Longrightarrow>
   reflow_from (pre @ grp @ post) i e off = pre @ place off grp @ post"
proof (induction grp arbitrary: pre i off)
  case Nil
  then show ?case by (simp add: reflow_from.simps)
next
  case (Cons x grp)
  have "reflow_from (pre @ (x # grp) @ post) i e off =
      reflow_from ((pre @ [x\<lparr>mi_offset := off\<rparr>]) @ grp @ post) (i + 1) e (off + GetSize x)"
    using Cons.prems by (subst reflow_from.simps) (simp add: nth_append list_update_append)
  also have "\<dots> = (pre @ [x\<lparr>mi_offset := off\<rparr>]) @ place (off + GetSize x) grp @ post"
    using Cons.prems by (intro Cons.IH) simp_all
  finally show ?case by simp
qed

section \<open>The group search\<close>

definition contiguous :: "modbus_item list \<Rightarrow> bool" where
  "contiguous xs \<longleftrightarrow> (xs \<noteq> [] \<longrightarrow> place (mi_offset (hd xs)) xs = xs)"

definition gap :: "modbus_item list \<Rightarrow> modbus_item list \<Rightarrow> bool" where
  "gap xs ys \<longleftrightarrow>
     (xs \<noteq> [] \<longrightarrow> ys \<noteq> [] \<longrightarrow> ModbusRegisterEnd (last xs) < mi_offset (hd ys))"

lemma contiguous_Cons:
  "contiguous (x # y # ys) \<longleftrightarrow> ModbusRegisterEnd x = mi_offset y \<and> contiguous (y # ys)"
proof -
  have "x\<lparr>mi_offset := mi_offset x\<rparr> = x" by simp
  moreover have "y\<lparr>mi_offset := o'\<rparr> = y \<longleftrightarrow> o' = mi_offset y" for o'
    by (metis modbus_item.surjective modbus_item.update_convs(5) modbus_item.select_convs(5))
  ultimately show ?thesis by (auto simp: contiguous_def ModbusRegisterEnd_def)
qed

lemma contiguous_singleton [simp]: "contiguous [x]" "contiguous []"
  by (simp_all add: contiguous_def)

lemma contiguous_nth_iff:
  "contiguous xs \<longleftrightarrow> (\<forall>i. Suc i < length xs \<longrightarrow> ModbusRegisterEnd (xs ! i) = mi_offset (xs ! Suc i))"
proof (induction xs rule: induct_list012)
  case (3 x y ys)
  show ?case
    unfolding contiguous_Cons 3 by (auto simp: nth_Cons' less_Suc_eq_0_disj)
qed simp_all

lemma group_down_spec:
  "group_down items i = Some g \<longleftrightarrow>
     g \<le> i \<and> (\<forall>j. g \<le> j \<longrightarrow> j < i \<longrightarrow> ModbusRegisterEnd (items ! j) = mi_offset (items ! Suc j)) \<and>
     (0 < g \<longrightarrow> ModbusRegisterEnd (items ! (g - 1)) < mi_offset (items ! g))"
proof (induction i arbitrary: g)
  case 0
  then show ?case by auto
next
  case (Suc i)
  consider (lt) "ModbusRegisterEnd (items ! i) < mi_offset (items ! Suc i)"
    | (gt) "ModbusRegisterEnd (items ! i) > mi_offset (items ! Suc i)"
    | (eq) "ModbusRegisterEnd (items ! i) = mi_offset (items ! Suc i)" by linarith
  then show ?case
  proof cases
    case lt
    then have "group_down items (Suc i) = Some (Suc i)" by (simp add: Let_def)
    with lt show ?thesis by (auto simp: less_Suc_eq_le) (metis le_Suc_eq less_irrefl not_less_eq_eq)+
  next
    case gt
    then have "group_down items (Suc i) = None" by (simp add: Let_def)
    with gt show ?thesis by (auto simp: le_Suc_eq)
  next
    case eq
    then have "group_down items (Suc i) = group_down items i" by (simp add: Let_def)
    with eq Suc.IH [of g] show ?thesis by (auto simp: less_Suc_eq le_Suc_eq)
  qed
qed

lemma group_up_spec:
  "i < length items \<Longrightarrow>
   group_up items i = Some g \<longleftrightarrow>
     i \<le> g \<and> g < length items \<and>
     (\<forall>j. i \<le> j \<longrightarrow> j < g \<longrightarrow> ModbusRegisterEnd (items ! j) = mi_offset (items ! Suc j)) \<and>
     (g + 1 < length items \<longrightarrow> ModbusRegisterEnd (items ! g) < mi_offset (items ! (g + 1)))"
proof (induction items i rule: group_up.induct)
  case (1 items i)
  show ?case
  proof (cases "i + 1 < length items")
    case False
    then show ?thesis using 1(2) by (subst group_up.simps) auto
  next
    case True
    consider (lt) "ModbusRegisterEnd (items ! i) < mi_offset (items ! (i + 1))"
      | (gt) "ModbusRegisterEnd (items ! i) > mi_offset (items ! (i + 1))"
      | (eq) "ModbusRegisterEnd (items ! i) = mi_offset (items ! (i + 1))" by linarith
    then show ?thesis
    proof cases
      case lt
      with True have "group_up items i = Some i" by (subst group_up.simps) (simp add: Let_def)
      with lt True show ?thesis by auto
    next
      case gt
      with True have "group_up items i = None" by (subst group_up.simps) (simp add: Let_def)
      with gt True show ?thesis by auto (metis le_less less_asym order_refl)
    next
      case eq
      with True have "group_up items i = group_up items (i + 1)"
        by (subst group_up.simps) (simp add: Let_def)
      moreover have "group_up items (i + 1) = Some g \<longleftrightarrow>
         i + 1 \<le> g \<and> g < length items \<and>
         (\<forall>j. i + 1 \<le> j \<longrightarrow> j < g \<longrightarrow> ModbusRegisterEnd (items ! j) = mi_offset (items ! Suc j)) \<and>
         (g + 1 < length items \<longrightarrow> ModbusRegisterEnd (items ! g) < mi_offset (items ! (g + 1)))"
        using 1(1) [OF True refl refl] eq True by simp
      ultimately have up: "group_up items i = Some g \<longleftrightarrow>
         i + 1 \<le> g \<and> g < length items \<and>
         (\<forall>j. i + 1 \<le> j \<longrightarrow> j < g \<longrightarrow> ModbusRegisterEnd (items ! j) = mi_offset (items ! Suc j)) \<and>
         (g + 1 < length items \<longrightarrow> ModbusRegisterEnd (items ! g) < mi_offset (items ! (g + 1)))"
        by simp
      show ?thesis
      proof (cases "g = i")
        case True
        with up eq \<open>i + 1 < length items\<close> show ?thesis by simp
      next
        case False
        have "(\<forall>j. i \<le> j \<longrightarrow> j < g \<longrightarrow> P j) \<longleftrightarrow> P i \<and> (\<forall>j. i + 1 \<le> j \<longrightarrow> j < g \<longrightarrow> P j)"
          if "i < g" for P
        proof (intro iffI conjI allI impI)
          fix j assume "P i \<and> (\<forall>j. i + 1 \<le> j \<longrightarrow> j < g \<longrightarrow> P j)" "i \<le> j" "j < g"
          then show "P j" by (cases "j = i") auto
        qed (use that in auto)
        with up eq False show ?thesis by (cases "i < g") auto
      qed
    qed
  qed
qed

lemma last_take_nth: "0 < k \<Longrightarrow> k \<le> length xs \<Longrightarrow> last (take k xs) = xs ! (k - 1)"
  by (cases k) (simp_all add: take_Suc_conv_app_nth)

lemma FindContiguousModbusGroup_iff:
  "FindContiguousModbusGroup items i = Inr (gs, ge) \<longleftrightarrow>
     (\<exists>pre grp post. items = pre @ grp @ post \<and> gs = length pre \<and>
        Suc ge = length pre + length grp \<and> gs \<le> i \<and> i \<le> ge \<and> contiguous grp \<and>
        gap pre grp \<and> gap grp post)" (is "?L \<longleftrightarrow> ?R")
proof
  assume ?L
  then have i: "i < length items" and d: "group_down items i = Some gs"
    and u: "group_up items i = Some ge"
    by (auto simp: FindContiguousModbusGroup_def split: if_splits option.splits)
  note d = d [unfolded group_down_spec] and u = u [unfolded group_up_spec [OF i]]
  let ?pre = "take gs items" and ?grp = "take (Suc ge - gs) (drop gs items)"
    and ?post = "drop (Suc ge) items"
  have len: "gs \<le> i" "i \<le> ge" "ge < length items" using d u by auto
  have grp_nth: "?grp ! j = items ! (gs + j)" if "j \<le> ge - gs" for j using that len by simp
  have "items = ?pre @ ?grp @ ?post"
    using len by (metis append_take_drop_id drop_drop le_SucI le_add_diff_inverse2 le_trans)
  moreover have "contiguous ?grp"
    unfolding contiguous_nth_iff
  proof (intro allI impI)
    fix j assume "Suc j < length ?grp"
    then have j: "Suc j \<le> ge - gs" using len by simp
    then have "ModbusRegisterEnd (items ! (gs + j)) = mi_offset (items ! Suc (gs + j))"
      using d u by (cases "gs + j < i") auto
    then show "ModbusRegisterEnd (?grp ! j) = mi_offset (?grp ! Suc j)"
      using j grp_nth by simp
  qed
  moreover have "gap ?pre ?grp"
    using d len by (auto simp: gap_def last_take_nth hd_conv_nth hd_drop_conv_nth)
  moreover have "gap ?grp ?post"
  proof -
    have "last ?grp = items ! ge"
    proof -
      have "last ?grp = ?grp ! (length ?grp - 1)" using len by (intro last_conv_nth) simp
      also have "\<dots> = items ! ge" using len grp_nth [of "ge - gs"] by simp
      finally show ?thesis .
    qed
    with u len show ?thesis by (auto simp: gap_def hd_drop_conv_nth)
  qed
  ultimately show ?R
    using len by (intro exI [of _ ?pre] exI [of _ ?grp] exI [of _ ?post]) simp
next
  assume ?R
  then obtain pre grp post where it: "items = pre @ grp @ post" "gs = length pre"
    "Suc ge = length pre + length grp" "gs \<le> i" "i \<le> ge" and c: "contiguous grp"
    and g: "gap pre grp" "gap grp post" by blast
  have i: "i < length items" using it by simp
  have grp: "items ! (gs + j) = grp ! j" if "j < length grp" for j
    using that it by (simp add: nth_append)
  have cont: "ModbusRegisterEnd (items ! j) = mi_offset (items ! Suc j)" if "gs \<le> j" "j < ge" for j
  proof -
    have "Suc (j - gs) < length grp" using that it by linarith
    then show ?thesis
      using c [unfolded contiguous_nth_iff, rule_format, of "j - gs"]
        grp [of "j - gs"] grp [of "Suc (j - gs)"] that by simp
  qed
  have ne: "grp \<noteq> []" using it by auto
  have "0 < gs \<longrightarrow> ModbusRegisterEnd (items ! (gs - 1)) < mi_offset (items ! gs)"
    using g(1) ne it grp [of 0]
    by (auto simp: gap_def nth_append last_conv_nth hd_conv_nth)
  then have "group_down items i = Some gs"
    unfolding group_down_spec using it cont by auto
  moreover have "ge + 1 < length items \<longrightarrow> ModbusRegisterEnd (items ! ge) < mi_offset (items ! (ge + 1))"
  proof
    assume "ge + 1 < length items"
    then have "post \<noteq> []" using it by auto
    moreover have "items ! (ge + 1) = hd post" using it \<open>post \<noteq> []\<close> by (simp add: nth_append hd_conv_nth)
    moreover have "items ! ge = last grp"
    proof -
      have "ge = length pre + (length grp - 1)" "length grp - 1 < length grp" using it ne by simp_all
      with grp [of "length grp - 1"] it(2) last_conv_nth [OF ne] show ?thesis by simp
    qed
    ultimately show "ModbusRegisterEnd (items ! ge) < mi_offset (items ! (ge + 1))"
      using g(2) ne by (simp add: gap_def)
  qed
  then have "group_up items i = Some ge"
    unfolding group_up_spec [OF i] using it cont by auto
  ultimately show ?L using i by (simp add: FindContiguousModbusGroup_def)
qed

section \<open>What an edit does\<close>

definition layout_ok :: "modbus_item list \<Rightarrow> bool" where
  "layout_ok items \<longleftrightarrow> successively (\<lambda>a b. ModbusRegisterEnd a \<le> mi_offset b) items"

fun edited_group :: "edit_action \<Rightarrow> nat \<Rightarrow> modbus_item list \<Rightarrow> modbus_item list" where
  "edited_group MoveUp k grp = swap_items grp (k - 1) k"
| "edited_group MoveDown k grp = swap_items grp k (Suc k)"
| "edited_group Delete k grp = erase_at grp k"
| "edited_group InsertAfter k grp = insert_at grp (Suc k) (CreateDefaultInsertedModbusRegister (grp ! k))"

lemma length_edits [simp]:
  "length (swap_items xs i j) = length xs"
  "k < length xs \<Longrightarrow> length (erase_at xs k) = length xs - 1"
  "k \<le> length xs \<Longrightarrow> length (insert_at xs k x) = Suc (length xs)"
  by (simp_all add: swap_items_def erase_at_def insert_at_def)

lemma swap_items_mid:
  "i < length grp \<Longrightarrow> j < length grp \<Longrightarrow>
   swap_items (pre @ grp @ post) (length pre + i) (length pre + j) = pre @ swap_items grp i j @ post"
  by (simp add: swap_items_def list_update_append nth_append)

lemma erase_at_mid:
  "k < length grp \<Longrightarrow> erase_at (pre @ grp @ post) (length pre + k) = pre @ erase_at grp k @ post"
  by (simp add: erase_at_def)

lemma insert_at_mid:
  "k \<le> length grp \<Longrightarrow>
   insert_at (pre @ grp @ post) (length pre + k) x = pre @ insert_at grp k x @ post"
  by (simp add: insert_at_def)

lemma reflow_mid:
  "Suc e = length pre + length grp \<Longrightarrow>
   ReflowModbusRegisterGroup (pre @ grp @ post) (length pre) e off = pre @ place off grp @ post"
  by (simp add: ReflowModbusRegisterGroup_def reflow_from_place)

lemma WouldOverlap_mid:
  assumes "Suc e = length pre + length grp" "grp \<noteq> []"
  shows "WouldOverlapNextModbusGroup (pre @ grp @ post) e \<longleftrightarrow> \<not> gap grp post"
proof -
  have e: "e = length pre + (length grp - 1)" using assms by (cases grp) auto
  have "(pre @ grp @ post) ! e = last grp" using assms e by (simp add: nth_append last_conv_nth)
  moreover have "post \<noteq> [] \<Longrightarrow> (pre @ grp @ post) ! (e + 1) = hd post"
    using assms by (simp add: nth_append hd_conv_nth)
  moreover have "e + 1 < length (pre @ grp @ post) \<longleftrightarrow> post \<noteq> []" using assms by (cases post) auto
  ultimately show ?thesis
    using assms by (auto simp: WouldOverlapNextModbusGroup_def gap_def)
qed

lemma erase_insert [simp]: "k \<le> length xs \<Longrightarrow> erase_at (insert_at xs k x) k = xs"
  by (simp add: erase_at_def insert_at_def min_absorb1)

lemma erase_at_place_group:
  "k < length xs \<Longrightarrow> place off (erase_at (place off' xs) k) = place off (erase_at xs k)"
proof -
  have t: "place o1 (take k (place o2 xs)) = place o1 (take k xs)" for o1 o2
    by (induction xs arbitrary: k o1 o2) (auto simp: take_Cons' )
  have d: "\<exists>o3. drop m (place o2 xs) = place o3 (drop m xs)" for m o2
    by (induction xs arbitrary: m o2) (auto simp: drop_Cons')
  have ts: "total_size (take k (place o2 xs)) = total_size (take k xs)" for o2
    by (induction xs arbitrary: k o2) (auto simp: take_Cons')
  obtain o3 where "drop (Suc k) (place off' xs) = place o3 (drop (Suc k) xs)" using d by blast
  then show ?thesis unfolding erase_at_def place_append t ts by simp
qed

lemma contiguous_place: "grp \<noteq> [] \<Longrightarrow> contiguous grp \<Longrightarrow> place (mi_offset (hd grp)) grp = grp"
  by (simp add: contiguous_def)

text \<open>One statement for all four actions.\<close>

lemma EditModbusRegisterLayout_cases:
  obtains (failed) r where "EditModbusRegisterLayout items i a = (r, items)" "\<not> er_success r"
  | (edited) r pre grp post k where "items = pre @ grp @ post" "i = length pre + k" "k < length grp"
      "contiguous grp" "gap pre grp" "gap grp post"
      "a = MoveUp \<Longrightarrow> 0 < k" "a = MoveDown \<Longrightarrow> Suc k < length grp"
      "a = InsertAfter \<Longrightarrow> gap (place (mi_offset (hd grp)) (edited_group a k grp)) post"
      "EditModbusRegisterLayout items i a =
         (r, pre @ place (mi_offset (hd grp)) (edited_group a k grp) @ post)" "er_success r"
      "a = MoveUp \<Longrightarrow> er_selected_index r = i - 1" "a = MoveDown \<Longrightarrow> er_selected_index r = i + 1"
proof (cases "FindContiguousModbusGroup items i")
  case (Inl r)
  then have "\<not> er_success r"
    by (auto simp: FindContiguousModbusGroup_def split: if_splits option.splits)
  with Inl failed show thesis by (simp add: EditModbusRegisterLayout_def)
next
  case (Inr be)
  then obtain gs ge where f: "FindContiguousModbusGroup items i = Inr (gs, ge)" by (cases be) auto
  from f [unfolded FindContiguousModbusGroup_iff] obtain pre grp post
    where it: "items = pre @ grp @ post" and gs: "gs = length pre"
    and ge: "Suc ge = length pre + length grp" and r: "gs \<le> i" "i \<le> ge"
    and c: "contiguous grp" and g: "gap pre grp" "gap grp post" by blast
  define k where "k = i - gs"
  have k: "i = length pre + k" "k < length grp" using r gs ge by (auto simp: k_def)
  have ne: "grp \<noteq> []" using k by auto
  have hd: "items ! length pre = hd grp" "items ! (length pre + k) = grp ! k"
    using ne it k by (simp_all add: nth_append hd_conv_nth)
  let ?off = "mi_offset (hd grp)"
  note keep = contiguous_place [OF ne c]
  show thesis
  proof (cases a)
    case MoveUp
    show thesis
    proof (cases "k = 0")
      case True
      then show thesis
        using MoveUp f gs k by (rule_tac failed, simp add: EditModbusRegisterLayout_def, simp)
    next
      case False
      then have "EditModbusRegisterLayout items i a =
          (edit_ok (i - 1), pre @ place ?off (edited_group a k grp) @ post)"
        using MoveUp f gs k hd swap_items_mid [of "k - 1" grp k pre post] ge
        by (simp add: EditModbusRegisterLayout_def it reflow_mid Let_def)
      with False MoveUp it k c g show thesis by (intro edited) auto
    qed
  next
    case MoveDown
    show thesis
    proof (cases "Suc k = length grp")
      case True
      then show thesis
        using MoveDown f gs ge k by (rule_tac failed, simp add: EditModbusRegisterLayout_def, simp)
    next
      case False
      then have "EditModbusRegisterLayout items i a =
          (edit_ok (i + 1), pre @ place ?off (edited_group a k grp) @ post)"
        using MoveDown f gs k hd swap_items_mid [of k grp "Suc k" pre post] ge
        by (simp add: EditModbusRegisterLayout_def it reflow_mid Let_def)
      with False MoveDown it k c g show thesis by (intro edited) auto
    qed
  next
    case Delete
    let ?items' = "pre @ erase_at grp k @ post"
    have red: "(if gs < ge \<and> gs < length ?items'
           then ReflowModbusRegisterGroup ?items' gs (ge - 1) ?off else ?items') =
        pre @ place ?off (erase_at grp k) @ post"
    proof (cases "gs < ge")
      case True
      then have "Suc (ge - 1) = length pre + length (erase_at grp k)" "gs < length ?items'"
        using ge gs k by (auto simp: erase_at_def)
      with True show ?thesis by (simp add: gs reflow_mid)
    next
      case False
      then have "erase_at grp k = []" using ge gs k by (cases grp) (auto simp: erase_at_def)
      with False show ?thesis by simp
    qed
    have "\<exists>n. EditModbusRegisterLayout items i a =
        (edit_ok n, pre @ place ?off (edited_group a k grp) @ post)"
    proof -
      have "erase_at items i = ?items'" using erase_at_mid [OF k(2), of pre post] it k(1) by simp
      moreover have "mi_offset (items ! gs) = ?off" using hd(1) gs by simp
      ultimately show ?thesis
        unfolding EditModbusRegisterLayout_def f Delete Let_def by (simp only: sum.case prod.case
            edit_action.case edited_group.simps red) blast
    qed
    with Delete it k c g show thesis by (elim exE) (rule edited, auto)
  next
    case InsertAfter
    let ?x = "CreateDefaultInsertedModbusRegister (grp ! k)"
    let ?grp' = "insert_at grp (Suc k) ?x"
    have ins: "insert_at items (i + 1) ?x = pre @ ?grp' @ post"
      using insert_at_mid [of "Suc k" grp pre post ?x] k it by simp
    have ge': "Suc (ge + 1) = length pre + length ?grp'" using ge k by simp
    then have ge'': "Suc (ge + 1) = length pre + length (place ?off ?grp')" by simp
    have ne': "place ?off ?grp' \<noteq> []" by (simp add: insert_at_def)
    have re: "ReflowModbusRegisterGroup (pre @ ?grp' @ post) (length pre) (ge + 1) ?off =
        pre @ place ?off ?grp' @ post" by (rule reflow_mid [OF ge'])
    note ov = WouldOverlap_mid [OF ge'' ne', of post]
    have edit: "EditModbusRegisterLayout items i a =
       (if \<not> gap (place ?off ?grp') post
        then (edit_fail ''Inserting here would overlap the next address group.'' i,
              ReflowModbusRegisterGroup (erase_at (pre @ place ?off ?grp' @ post) (i + 1)) gs ge ?off)
        else (edit_ok (i + 1), pre @ place ?off ?grp' @ post))"
      using InsertAfter f hd k(1) gs ins re ov by (simp add: EditModbusRegisterLayout_def Let_def it)
    show thesis
    proof (cases "gap (place ?off ?grp') post")
      case True
      with edit InsertAfter it k c g show thesis by (intro edited) auto
    next
      case False
      have "erase_at (pre @ place ?off ?grp' @ post) (i + 1) =
          pre @ erase_at (place ?off ?grp') (Suc k) @ post"
        using erase_at_mid [of "Suc k" "place ?off ?grp'" pre post] k by simp
      moreover have "place ?off (erase_at (place ?off ?grp') (Suc k)) = grp"
        using k keep by (subst erase_at_place_group) simp_all
      ultimately have "ReflowModbusRegisterGroup (erase_at (pre @ place ?off ?grp' @ post) (i + 1)) gs ge ?off =
          items"
        using ge gs k it by (simp add: reflow_mid)
      with edit False show thesis by (rule_tac failed, simp, simp)
    qed
  qed
qed

section \<open>Changing a type\<close>

text \<open>Placement does not look at the addresses it replaces.\<close>

definition unplaced :: "modbus_item \<Rightarrow> modbus_item" where
  "unplaced x = x\<lparr>mi_offset := 0\<rparr>"

lemma unplaced_simps [simp]: "unplaced (x\<lparr>mi_offset := off\<rparr>) = unplaced x"
  by (simp add: unplaced_def)

lemma place_unplaced [simp]: "map unplaced (place off xs) = map unplaced xs"
  by (induction off xs rule: place.induct) simp_all

lemma place_cong:
  "map unplaced xs = map unplaced ys \<Longrightarrow> place off xs = place off ys"
proof (induction xs arbitrary: ys off)
  case Nil
  then show ?case by simp
next
  case (Cons x xs)
  then obtain y ys' where ys: "ys = y # ys'" "unplaced x = unplaced y"
    "map unplaced xs = map unplaced ys'" by (cases ys) auto
  have "GetSize x = GetSize y" using ys(2) by (metis GetSize_offset unplaced_def)
  moreover have "x\<lparr>mi_offset := off\<rparr> = y\<lparr>mi_offset := off\<rparr>"
  proof -
    have "(unplaced x)\<lparr>mi_offset := off\<rparr> = (unplaced y)\<lparr>mi_offset := off\<rparr>" by (simp only: ys(2))
    then show ?thesis by (simp add: unplaced_def)
  qed
  ultimately show ?case using ys Cons.IH [OF ys(3)] by simp
qed

definition retyped :: "modbus_type \<Rightarrow> modbus_item \<Rightarrow> modbus_item" where
  "retyped t x = x\<lparr>mi_type := t, mi_register_size := None, mi_value := value_Reset (mi_value x)\<rparr>"

lemma ChangeModbusRegisterType_cases:
  obtains (failed) r where "ChangeModbusRegisterType items i t = (r, items)" "\<not> er_success r"
  | (edited) pre grp post k where "items = pre @ grp @ post" "i = length pre + k" "k < length grp"
      "contiguous grp" "gap pre grp" "gap grp post" "IsSizedModbusRegisterType t"
      "gap (place (mi_offset (hd grp)) (grp[k := retyped t (grp ! k)])) post"
      "ChangeModbusRegisterType items i t =
         (edit_ok i, pre @ place (mi_offset (hd grp)) (grp[k := retyped t (grp ! k)]) @ post)"
proof (cases "i \<ge> length items \<or> mi_type (items ! i) = MBT_BOOL \<or> \<not> IsSizedModbusRegisterType t \<or>
    (\<exists>r. FindContiguousModbusGroup items i = Inl r)")
  case True
  moreover have "\<not> er_success r" if "FindContiguousModbusGroup items i = Inl r" for r
    using that by (auto simp: FindContiguousModbusGroup_def split: if_splits option.splits)
  ultimately have "\<exists>r. ChangeModbusRegisterType items i t = (r, items) \<and> \<not> er_success r"
    by (auto simp: ChangeModbusRegisterType_def)
  with failed show thesis by blast
next
  case False
  then obtain gs ge where f: "FindContiguousModbusGroup items i = Inr (gs, ge)"
    by (cases "FindContiguousModbusGroup items i") auto
  from f [unfolded FindContiguousModbusGroup_iff] obtain pre grp post
    where it: "items = pre @ grp @ post" and gs: "gs = length pre"
    and ge: "Suc ge = length pre + length grp" and r: "gs \<le> i" "i \<le> ge"
    and c: "contiguous grp" and g: "gap pre grp" "gap grp post" by blast
  define k where "k = i - gs"
  have k: "i = length pre + k" "k < length grp" using r gs ge by (auto simp: k_def)
  have ne: "grp \<noteq> []" using k by auto
  have hd: "items ! gs = hd grp" "items ! i = grp ! k"
    using ne it k gs by (simp_all add: nth_append hd_conv_nth)
  let ?off = "mi_offset (hd grp)" and ?x = "retyped t (grp ! k)"
  let ?grp' = "place ?off (grp[k := ?x])"
  have upd: "items[i := ?x] = pre @ grp[k := ?x] @ post" using it k by (simp add: list_update_append)
  have re: "ReflowModbusRegisterGroup (pre @ grp[k := ?x] @ post) gs ge ?off = pre @ ?grp' @ post"
    using ge gs by (simp add: reflow_mid)
  have ov: "WouldOverlapNextModbusGroup (pre @ ?grp' @ post) ge \<longleftrightarrow> \<not> gap ?grp' post"
    using ge ne by (intro WouldOverlap_mid) simp_all
  have nth: "(pre @ ?grp' @ post) ! i = ?grp' ! k" using k by (simp add: nth_append)
  let ?old = "(?grp' ! k)\<lparr>mi_type := mi_type (grp ! k), mi_register_size := mi_register_size (grp ! k),
                mi_value := mi_value (grp ! k)\<rparr>"
  have change: "ChangeModbusRegisterType items i t =
     (if \<not> gap ?grp' post
      then (edit_fail ''Changing this register type would overlap the next address group.'' i,
            ReflowModbusRegisterGroup ((pre @ ?grp' @ post)[i := ?old]) gs ge ?off)
      else (edit_ok i, pre @ ?grp' @ post))"
    using False f by (simp add: ChangeModbusRegisterType_def hd Let_def flip: retyped_def)
      (simp add: upd re ov nth)
  show thesis
  proof (cases "gap ?grp' post")
    case True
    with change False it k c g show thesis by (intro edited) auto
  next
    case no: False
    have "unplaced ?old = unplaced (grp ! k)"
      using k by (simp add: place_nth unplaced_def retyped_def)
    then have "map unplaced (?grp'[k := ?old]) = map unplaced grp"
      by (simp add: map_update list_update_beyond) (metis (no_types, lifting) k(2) list_update_id
          list_update_overwrite map_update nth_map)
    then have "place ?off (?grp'[k := ?old]) = grp"
      using place_cong contiguous_place [OF ne c] by metis
    then have "ReflowModbusRegisterGroup ((pre @ ?grp' @ post)[i := ?old]) gs ge ?off = items"
      using it k ge gs by (simp add: list_update_append reflow_mid)
    with change no show thesis by (rule_tac failed, simp, simp)
  qed
qed

section \<open>Overlap freedom\<close>

lemma layout_ok_Nil [simp]: "layout_ok []" "layout_ok [x]"
  by (simp_all add: layout_ok_def)

lemma layout_ok_append:
  "layout_ok (xs @ ys) \<longleftrightarrow> layout_ok xs \<and> layout_ok ys \<and>
     (xs = [] \<or> ys = [] \<or> ModbusRegisterEnd (last xs) \<le> mi_offset (hd ys))"
  by (auto simp: layout_ok_def successively_append_iff)

lemma layout_ok_place: "layout_ok (place off xs)"
proof (induction off xs rule: place.induct)
  case (2 off x xs)
  then show ?case
    by (cases xs) (simp_all add: layout_ok_def ModbusRegisterEnd_def)
qed simp

lemma contiguous_End:
  "grp \<noteq> [] \<Longrightarrow> contiguous grp \<Longrightarrow>
   ModbusRegisterEnd (last grp) = mi_offset (hd grp) + total_size grp"
  by (metis End_last_place contiguous_place)

lemma layout_ok_replace:
  assumes "layout_ok (pre @ grp @ post)" "grp \<noteq> []" "contiguous grp" "gap pre grp" "gap grp post"
    "total_size grp' \<le> total_size grp \<or> gap (place (mi_offset (hd grp)) grp') post"
  shows "layout_ok (pre @ place (mi_offset (hd grp)) grp' @ post)"
proof -
  let ?off = "mi_offset (hd grp)"
  have p: "layout_ok pre" "layout_ok post" using assms(1) by (simp_all add: layout_ok_append)
  have left: "pre \<noteq> [] \<Longrightarrow> ModbusRegisterEnd (last pre) < ?off"
    using assms(2,4) by (simp add: gap_def)
  have right: "post \<noteq> [] \<Longrightarrow> ?off + total_size grp < mi_offset (hd post)"
    using assms(2,3,5) contiguous_End by (simp add: gap_def)
  show ?thesis
  proof (cases "grp' = []")
    case True
    have "pre \<noteq> [] \<Longrightarrow> post \<noteq> [] \<Longrightarrow> ModbusRegisterEnd (last pre) \<le> mi_offset (hd post)"
      using left right by linarith
    with True p show ?thesis by (auto simp: layout_ok_append)
  next
    case False
    have "post \<noteq> [] \<Longrightarrow> ?off + total_size grp' \<le> mi_offset (hd post)"
      using assms(6) right False End_last_place [OF False, of ?off] by (auto simp: gap_def)
    moreover have "pre \<noteq> [] \<Longrightarrow> ModbusRegisterEnd (last pre) \<le> ?off" using left by simp
    ultimately show ?thesis
      using False p by (auto simp: layout_ok_append layout_ok_place hd_place End_last_place)
  qed
qed

lemma total_size_mset: "mset xs = mset ys \<Longrightarrow> total_size xs = total_size ys"
  unfolding total_size_def by (metis mset_map sum_mset_sum_list)

lemma mset_swap_items:
  "i < length xs \<Longrightarrow> j < length xs \<Longrightarrow> mset (swap_items xs i j) = mset xs"
  unfolding swap_items_def by (rule mset_swap)

lemma total_size_swap [simp]:
  "i < length xs \<Longrightarrow> j < length xs \<Longrightarrow> total_size (swap_items xs i j) = total_size xs"
  by (rule total_size_mset) (rule mset_swap_items)

lemma total_size_erase: "total_size (erase_at xs k) \<le> total_size xs"
proof -
  have "total_size xs = total_size (take k xs) + total_size (drop k xs)"
    by (simp flip: total_size_simps(3))
  moreover have "total_size (drop (Suc k) xs) \<le> total_size (drop k xs)"
    by (cases "k < length xs") (simp_all flip: Cons_nth_drop_Suc)
  ultimately show ?thesis by (simp add: erase_at_def)
qed

lemma EditModbusRegisterLayout_ok:
  assumes "layout_ok items"
  shows "layout_ok (snd (EditModbusRegisterLayout items i a))"
proof (cases rule: EditModbusRegisterLayout_cases [of items i a])
  case failed
  with assms show ?thesis by simp
next
  case (edited r pre grp post k)
  have "total_size (edited_group a k grp) \<le> total_size grp \<or>
      gap (place (mi_offset (hd grp)) (edited_group a k grp)) post"
    using edited(3,7-9) total_size_erase by (cases a) auto
  moreover have "grp \<noteq> []" using edited(3) by auto
  ultimately show ?thesis
    using layout_ok_replace edited assms by simp
qed

lemma ChangeModbusRegisterType_ok:
  assumes "layout_ok items"
  shows "layout_ok (snd (ChangeModbusRegisterType items i t))"
proof (cases rule: ChangeModbusRegisterType_cases [of items i t])
  case failed
  with assms show ?thesis by simp
next
  case (edited pre grp post k)
  moreover have "grp \<noteq> []" using edited(3) by auto
  ultimately show ?thesis using layout_ok_replace assms by simp
qed

section \<open>Up and down\<close>

lemma swap_items_twice [simp]:
  "i < length xs \<Longrightarrow> j < length xs \<Longrightarrow> swap_items (swap_items xs i j) i j = xs"
  by (auto simp: swap_items_def nth_list_update list_update_swap intro!: nth_equalityI)

lemma swap_items_unplaced:
  "i < length xs \<Longrightarrow> j < length xs \<Longrightarrow>
   map unplaced (swap_items (place off xs) i j) = map unplaced (swap_items xs i j)"
  unfolding swap_items_def map_update by (metis length_place nth_map place_unplaced)

lemma MoveDown_after_MoveUp:
  assumes "EditModbusRegisterLayout items i MoveUp = (r, items')" "er_success r"
  shows "EditModbusRegisterLayout items' (i - 1) MoveDown = (edit_ok i, items)"
proof (cases rule: EditModbusRegisterLayout_cases [of items i MoveUp])
  case (failed r')
  with assms show ?thesis by simp
next
  case (edited r' pre grp post k)
  note e = this
  let ?off = "mi_offset (hd grp)"
  let ?grp' = "place ?off (swap_items grp (k - 1) k)"
  have k: "0 < k" "k - 1 < length grp" "k < length grp" using edited(3,7) by auto
  have ne: "grp \<noteq> []" "swap_items grp (k - 1) k \<noteq> []" using k by (auto simp: swap_items_def)
  have items': "items' = pre @ ?grp' @ post" using edited(10) assms(1) by simp
  have hd': "mi_offset (hd ?grp') = ?off" using hd_place [OF ne(2)] by simp
  have "contiguous ?grp'" unfolding contiguous_def hd' by simp
  moreover have "gap pre ?grp'" using edited(5) ne hd' by (simp add: gap_def)
  moreover have "gap ?grp' post"
    using edited(6) ne k contiguous_End [OF ne(1) edited(4)] End_last_place [OF ne(2), of ?off]
    by (simp add: gap_def)
  moreover define ge where "ge = length pre + length grp - 1"
  have "Suc ge = length pre + length ?grp'" using k by (simp add: ge_def)
  ultimately have find: "FindContiguousModbusGroup items' (i - 1) = Inr (length pre, ge)"
    unfolding FindContiguousModbusGroup_iff items'
    using edited(2) k
    by (rule_tac exI [of _ pre], rule_tac exI [of _ ?grp'], rule_tac exI [of _ post])
       (simp add: ge_def, arith)
  have i: "i - 1 = length pre + (k - 1)" "i - 1 + 1 = length pre + k" "i - 1 \<noteq> ge"
    using edited(2) k by (auto simp: ge_def)
  have "swap_items items' (i - 1) (i - 1 + 1) = pre @ swap_items ?grp' (k - 1) k @ post"
  proof -
    have "swap_items items' (length pre + (k - 1)) (length pre + k) =
        pre @ swap_items ?grp' (k - 1) k @ post"
      unfolding items' using k by (intro swap_items_mid) simp_all
    then show ?thesis by (metis i(1,2))
  qed
  moreover have "place ?off (swap_items ?grp' (k - 1) k) = grp"
  proof -
    have "map unplaced (swap_items ?grp' (k - 1) k) = map unplaced grp"
      using k swap_items_unplaced [of "k - 1" "swap_items grp (k - 1) k" k ?off] by simp
    then show ?thesis using place_cong contiguous_place [OF ne(1) edited(4)] by metis
  qed
  moreover have "items' ! length pre = hd ?grp'"
    using ne by (simp add: items' nth_append hd_conv_nth)
  ultimately show ?thesis
    using find i hd' edited(1) k ge_def edited(2)
    by (simp add: EditModbusRegisterLayout_def Let_def reflow_mid)
qed

section \<open>Properties\<close>

definition sample_layout :: "modbus_item list" where
  "sample_layout =
     [new_item ''a'' 0 0 MBT_UI16 MVF_DEC '''' 0 0 5 BO_Default,
      new_item ''b'' 0 1 MBT_FLOAT MVF_DEC '''' 0 0 6 BO_Default,
      new_item ''c'' 0 4 MBT_UI16 MVF_DEC '''' 0 0 7 BO_Default]"

text \<open>
  an edit of the register layout, or a change of a register's type, that reports failure
  leaves the layout exactly as it was: type, size, value and all addresses of the group,
  including the insertion that is tried, found to overlap the next group and rolled back.
\<close>

theorem register_edit_failure_unchanged:
  "(\<not> er_success (fst (EditModbusRegisterLayout items i a)) \<longrightarrow> snd (EditModbusRegisterLayout items i a) = items) \<and>
   (\<not> er_success (fst (ChangeModbusRegisterType items j t)) \<longrightarrow> snd (ChangeModbusRegisterType items j t) = items)"
proof (intro conjI impI)
  assume "\<not> er_success (fst (EditModbusRegisterLayout items i a))"
  then show "snd (EditModbusRegisterLayout items i a) = items"
    by (cases rule: EditModbusRegisterLayout_cases [of items i a]) auto
next
  assume "\<not> er_success (fst (ChangeModbusRegisterType items j t))"
  then show "snd (ChangeModbusRegisterType items j t) = items"
    by (cases rule: ChangeModbusRegisterType_cases [of items j t]) auto
qed

theorem register_edit_failure_unchanged_witness:
  "snd (EditModbusRegisterLayout sample_layout 1 InsertAfter) = sample_layout \<and>
   snd (ChangeModbusRegisterType sample_layout 0 MBT_DOUBLE) = sample_layout"
proof -
  have "\<not> er_success (fst (EditModbusRegisterLayout sample_layout 1 InsertAfter))"
    by (simp add: EditModbusRegisterLayout_def FindContiguousModbusGroup_def sample_layout_def
       group_up.simps new_item_def ModbusRegisterEnd_def GetSize_def insert_at_def
       ReflowModbusRegisterGroup_def reflow_from.simps CreateDefaultInsertedModbusRegister_def
       WouldOverlapNextModbusGroup_def Let_def del: traits_of_simps(1))
  moreover have "\<not> er_success (fst (ChangeModbusRegisterType sample_layout 0 MBT_DOUBLE))"
    by (simp add: ChangeModbusRegisterType_def FindContiguousModbusGroup_def sample_layout_def
       group_up.simps new_item_def ModbusRegisterEnd_def GetSize_def IsSizedModbusRegisterType_def
       ReflowModbusRegisterGroup_def reflow_from.simps
       WouldOverlapNextModbusGroup_def Let_def del: traits_of_simps(1))
  ultimately show ?thesis
    using register_edit_failure_unchanged [of sample_layout 1 InsertAfter 0 MBT_DOUBLE] by simp
qed

text \<open>
  C9: every edit and every type change keeps a layout without overlapping registers free of
  overlaps.
\<close>

theorem register_edits_keep_layout_ok:
  assumes "layout_ok items"
  shows "layout_ok (snd (EditModbusRegisterLayout items i a)) \<and>
         layout_ok (snd (ChangeModbusRegisterType items j t))"
  using EditModbusRegisterLayout_ok [OF assms] ChangeModbusRegisterType_ok [OF assms] by simp

theorem register_edits_keep_layout_ok_witness:
  "layout_ok (snd (EditModbusRegisterLayout sample_layout 1 Delete)) \<and>
   layout_ok (snd (ChangeModbusRegisterType sample_layout 2 MBT_I64))"
  by (rule register_edits_keep_layout_ok)
     (simp add: layout_ok_def sample_layout_def new_item_def ModbusRegisterEnd_def GetSize_def)

text \<open>
  A successful edit touches only the maximal contiguous group around the row: the items
  before and after it are unchanged, and the edited group starts where the group started.
\<close>

theorem EditModbusRegisterLayout_local:
  assumes "er_success (fst (EditModbusRegisterLayout items i a))"
  shows "\<exists>pre grp post k. items = pre @ grp @ post \<and> i = length pre + k \<and> k < length grp \<and>
     contiguous grp \<and> gap pre grp \<and> gap grp post \<and>
     snd (EditModbusRegisterLayout items i a) =
       pre @ place (mi_offset (hd grp)) (edited_group a k grp) @ post"
  using assms by (cases rule: EditModbusRegisterLayout_cases [of items i a]) (simp, fastforce)

theorem EditModbusRegisterLayout_local_witness:
  "\<exists>pre grp post k. sample_layout = pre @ grp @ post \<and> 0 = length pre + k \<and> k < length grp \<and>
     contiguous grp \<and> gap pre grp \<and> gap grp post \<and>
     snd (EditModbusRegisterLayout sample_layout 0 MoveDown) =
       pre @ place (mi_offset (hd grp)) (edited_group MoveDown k grp) @ post"
  by (rule EditModbusRegisterLayout_local)
     (simp add: EditModbusRegisterLayout_def FindContiguousModbusGroup_def sample_layout_def
       group_up.simps new_item_def ModbusRegisterEnd_def GetSize_def Let_def del: traits_of_simps(1))

text \<open>
  moving a row up and then down restores the whole layout, addresses included.
\<close>

theorem MoveUp_MoveDown_identity:
  assumes "EditModbusRegisterLayout items i MoveUp = (r, items')" "er_success r"
  shows "EditModbusRegisterLayout items' (i - 1) MoveDown = (edit_ok i, items)"
  using assms by (rule MoveDown_after_MoveUp)

theorem MoveUp_MoveDown_identity_witness:
  "EditModbusRegisterLayout (snd (EditModbusRegisterLayout sample_layout 1 MoveUp)) (1 - 1) MoveDown =
     (edit_ok 1, sample_layout)"
proof (rule MoveUp_MoveDown_identity)
  show "EditModbusRegisterLayout sample_layout 1 MoveUp =
     (fst (EditModbusRegisterLayout sample_layout 1 MoveUp),
      snd (EditModbusRegisterLayout sample_layout 1 MoveUp))" by simp
  show "er_success (fst (EditModbusRegisterLayout sample_layout 1 MoveUp))"
    by (simp add: EditModbusRegisterLayout_def FindContiguousModbusGroup_def sample_layout_def
       group_up.simps new_item_def ModbusRegisterEnd_def GetSize_def Let_def del: traits_of_simps(1))
qed

end
