(* ===== verification/Crc16.thy ===== *)
theory Crc16
  imports Addon_Prelude
begin

text \<open>
  The Modbus CRC-16.  Source: \<open>src/utils/Crc16Modbus.hpp\<close> (\<open>utils::Crc16Modbus\<close>, the copy
  the Modbus port and the macro keypad use) and \<open>src/CanCodecs.cpp\<close>
  (\<open>can_codec::ModbusCrc\<close>, the copy the STM32 framing and \<open>modbus::Client\<close> use).  The
  lemmas: both compute the same function; a frame followed by its CRC has residue 0; the
  CRC separates any two messages of the same length that differ in one byte or in two
  adjacent bytes.
\<close>

section \<open>The two implementations\<close>

definition crc_bit :: "u16 \<Rightarrow> u16" where
  "crc_bit crc =
     (let lsb = (crc AND 1 \<noteq> 0); crc' = drop_bit 1 crc
      in if lsb then crc' XOR 0xA001 else crc')"

definition crc_byte :: "u16 \<Rightarrow> u8 \<Rightarrow> u16" where
  "crc_byte crc b = (crc_bit ^^ 8) (crc XOR ucast b)"

definition Crc16Modbus :: "bytes \<Rightarrow> u16" where
  "Crc16Modbus data = foldl crc_byte 0xFFFF data"

definition ModbusCrc :: "bytes \<Rightarrow> u16" where
  "ModbusCrc data =
     foldl (\<lambda>crc b. ((\<lambda>c. if c AND 1 \<noteq> 0 then drop_bit 1 c XOR 0xA001 else drop_bit 1 c) ^^ 8)
                     (crc XOR ucast b)) 0xFFFF data"

lemma ModbusCrc_eq_Crc16Modbus: "ModbusCrc data = Crc16Modbus data"
proof -
  have "(\<lambda>c. if c AND 1 \<noteq> 0 then drop_bit 1 c XOR 0xA001 else drop_bit 1 c) = crc_bit"
    by (simp add: fun_eq_iff crc_bit_def Let_def)
  then show ?thesis by (simp add: ModbusCrc_def Crc16Modbus_def crc_byte_def [abs_def])
qed

section \<open>Injectivity\<close>

lemma lsb_iff: "(c :: u16) AND 1 \<noteq> 0 \<longleftrightarrow> bit c 0"
  by (simp add: and_one_eq odd_iff_mod_2_eq_one bit_0)

lemma bit_A001: "bit (0xA001 :: u16) n \<longleftrightarrow> n = 0 \<or> n = 13 \<or> n = 15"
proof -
  have e: "(0xA001 :: u16) = push_bit 15 1 OR push_bit 13 1 OR 1" by simp
  show ?thesis unfolding e by (auto simp: bit_simps simp del: push_bit_of_1 push_bit_numeral)
qed

lemma bit15_crc_bit: "bit (crc_bit c) 15 \<longleftrightarrow> bit c 0"
  by (auto simp: crc_bit_def lsb_iff bit_simps bit_A001 Let_def dest: bit_imp_le_length)

lemma crc_bit_inj: "inj crc_bit"
proof (rule injI)
  fix x y assume eq: "crc_bit x = crc_bit y"
  then have b0: "bit x 0 = bit y 0" by (metis bit15_crc_bit)
  then have d: "drop_bit 1 x = drop_bit 1 y"
    using eq unfolding crc_bit_def Let_def lsb_iff by (cases "bit y 0") simp_all
  show "x = y"
  proof (rule bit_word_eqI)
    fix n assume "n < LENGTH(16)"
    show "bit x n = bit y n"
    proof (cases n)
      case 0
      with b0 show ?thesis by simp
    next
      case (Suc m)
      have "bit (drop_bit 1 x) m = bit (drop_bit 1 y) m" by (simp only: d)
      with Suc show ?thesis by (simp add: bit_drop_bit_eq)
    qed
  qed
qed

lemma crc_bits_inj: "inj (crc_bit ^^ n)"
  by (rule inj_fn [OF crc_bit_inj])

lemma crc_byte_state_inj: "crc_byte c b = crc_byte d b \<longleftrightarrow> c = d"
  by (simp add: crc_byte_def inj_eq [OF crc_bits_inj])

lemma crc_fold_state_inj: "foldl crc_byte c xs = foldl crc_byte d xs \<longleftrightarrow> c = d"
  by (induction xs arbitrary: c d) (simp_all add: crc_byte_state_inj)

lemma crc_byte_data_inj: "crc_byte c a = crc_byte c b \<longleftrightarrow> a = b"
  by (simp add: crc_byte_def inj_eq [OF crc_bits_inj])

lemma Crc16Modbus_single_byte:
  "Crc16Modbus (xs @ a # zs) = Crc16Modbus (xs @ b # zs) \<longleftrightarrow> a = b"
  by (simp add: Crc16Modbus_def crc_fold_state_inj crc_byte_data_inj)

section \<open>Adjacent bytes\<close>

lemma crc_bit_xor: "crc_bit x XOR crc_bit y = crc_bit (x XOR y)"
  by (rule bit_word_eqI)
     (auto simp: crc_bit_def lsb_iff Let_def bit_simps split: if_splits)

lemma crc_bits_xor: "(crc_bit ^^ n) x XOR (crc_bit ^^ n) y = (crc_bit ^^ n) (x XOR y)"
  by (induction n) (simp_all add: crc_bit_xor)

lemma crc_bits_back:
  "(\<And>i. 16 - n \<le> i \<Longrightarrow> i < 16 \<Longrightarrow> \<not> bit ((crc_bit ^^ n) x) i) \<Longrightarrow> n \<le> 16 \<Longrightarrow>
   x = push_bit n ((crc_bit ^^ n) x)"
proof (induction n)
  case 0
  then show ?case by simp
next
  case (Suc n)
  define z where "z = (crc_bit ^^ n) x"
  have nb: "\<not> bit (crc_bit z) i" if "15 - n \<le> i" "i < 16" for i
    using Suc.prems(1) [of i] that by (simp add: z_def)
  have "\<not> bit z 0" using nb [of 15] by (simp add: bit15_crc_bit)
  then have cz: "crc_bit z = drop_bit 1 z" by (simp add: crc_bit_def lsb_iff Let_def)
  have "z = push_bit 1 (crc_bit z)"
  proof (rule bit_word_eqI)
    fix i :: nat assume "i < LENGTH(16)"
    show "bit z i = bit (push_bit 1 (crc_bit z)) i"
      using \<open>\<not> bit z 0\<close> \<open>i < LENGTH(16)\<close>
      by (cases i) (simp_all only: cz bit_push_bit_iff bit_drop_bit_eq, simp_all)
  qed
  moreover have "x = push_bit n z"
    unfolding z_def
  proof (rule Suc.IH)
    fix i assume i: "16 - n \<le> i" "i < 16"
    have "bit z i = bit (drop_bit 1 z) (i - 1)" using i Suc.prems(2) by (simp add: bit_simps)
    with nb [of "i - 1"] i show "\<not> bit ((crc_bit ^^ n) x) i"
      by (simp add: cz flip: z_def)
  next
    show "n \<le> 16" using Suc.prems(2) by simp
  qed
  ultimately have "x = push_bit n (push_bit 1 (crc_bit z))" by simp
  then show ?case by (simp add: z_def)
qed

lemma Crc16Modbus_two_bytes:
  "Crc16Modbus (xs @ a # b # zs) = Crc16Modbus (xs @ a' # b' # zs) \<longleftrightarrow> a = a' \<and> b = b'"
proof
  define c where "c = foldl crc_byte 0xFFFF xs"
  define T where "T = crc_bit ^^ 8"
  assume "Crc16Modbus (xs @ a # b # zs) = Crc16Modbus (xs @ a' # b' # zs)"
  then have "T (crc_byte c a XOR ucast b) = T (crc_byte c a' XOR ucast b')"
    by (simp add: Crc16Modbus_def crc_fold_state_inj c_def T_def) (simp add: crc_byte_def)
  then have eq: "crc_byte c a XOR ucast b = crc_byte c a' XOR ucast b'"
    unfolding T_def by (simp add: inj_eq [OF crc_bits_inj])
  have "crc_byte c a XOR crc_byte c a' = T (ucast a XOR ucast a')"
    unfolding crc_byte_def T_def by (simp only: crc_bits_xor word_xor_common)
  moreover have "crc_byte c a XOR crc_byte c a' = ucast b XOR ucast b'"
    using eq by (rule word_xor_transpose)
  ultimately have T: "T (ucast a XOR ucast a') = ucast b XOR ucast b'" by simp
  have "ucast a XOR ucast a' = push_bit 8 (T (ucast a XOR ucast a'))"
    unfolding T_def
  proof (rule crc_bits_back)
    fix i :: nat assume "16 - 8 \<le> i" "i < 16"
    then have "\<not> bit (ucast b XOR ucast b' :: u16) i"
      by (auto simp: bit_simps dest: bit_imp_le_length)
    then show "\<not> bit ((crc_bit ^^ 8) (ucast a XOR ucast a')) i"
      by (subst T [unfolded T_def])
  qed simp
  then have low: "\<not> bit (ucast a XOR ucast a' :: u16) i" if "i < 8" for i
  proof -
    have "bit (ucast a XOR ucast a' :: u16) i =
          bit (push_bit 8 (T (ucast a XOR ucast a'))) i"
      using \<open>ucast a XOR ucast a' = push_bit 8 (T (ucast a XOR ucast a'))\<close>
      by (rule arg_cong [of _ _ "\<lambda>w. bit w i"])
    then show ?thesis using that by (simp only: bit_push_bit_iff) simp
  qed
  have "a = a'"
  proof (rule bit_word_eqI)
    fix i :: nat assume "i < LENGTH(8)"
    with low [of i] show "bit a i = bit a' i" by (simp add: bit_simps)
  qed
  moreover from this eq have "b = b'" by simp
  ultimately show "a = a' \<and> b = b'" by simp
qed simp

section \<open>The residue\<close>

lemma crc_bits_shift:
  "take_bit n c = 0 \<Longrightarrow> (crc_bit ^^ n) c = drop_bit n c"
proof (induction n arbitrary: c)
  case 0
  then show ?case by simp
next
  case (Suc n)
  have nb: "\<not> bit c i" if "i \<le> n" for i
    using arg_cong [OF Suc.prems, of "\<lambda>w. bit w i"] that by (simp add: bit_take_bit_iff)
  have step: "crc_bit c = drop_bit 1 c"
    using nb [of 0] by (simp add: crc_bit_def lsb_iff Let_def)
  have "take_bit n (drop_bit 1 c) = 0"
    by (rule bit_word_eqI) (auto simp: bit_simps nb)
  then have "(crc_bit ^^ n) (drop_bit 1 c) = drop_bit n (drop_bit 1 c)" by (rule Suc.IH)
  then show ?case by (simp add: funpow_swap1 step)
qed

lemma crc_byte_lo8: "crc_byte c (lo8 c) = ucast (hi8 c)"
proof -
  have "take_bit 8 (c XOR ucast (lo8 c)) = 0"
    by (rule bit_word_eqI) (auto simp: bit_simps lo8_def bit_0xFF)
  then have "crc_byte c (lo8 c) = drop_bit 8 (c XOR ucast (lo8 c))"
    unfolding crc_byte_def by (rule crc_bits_shift)
  also have "\<dots> = ucast (hi8 c)"
    by (rule bit_word_eqI)
       (auto simp: bit_simps lo8_def hi8_def bit_0xFF dest: bit_imp_le_length)
  finally show ?thesis .
qed

lemma crc_byte_hi8: "crc_byte (ucast h) h = 0"
proof -
  have "(crc_bit ^^ 8) (0 :: u16) = 0" by (subst crc_bits_shift) simp_all
  then show ?thesis by (simp add: crc_byte_def)
qed

text \<open>\<open>modbus::AppendCrc\<close>: low byte first.\<close>

definition AppendCrc :: "bytes \<Rightarrow> bytes" where
  "AppendCrc frame = (let crc = Crc16Modbus frame in frame @ [lo8 crc, hi8 crc])"

lemma Crc16Modbus_residue: "Crc16Modbus (AppendCrc frame) = 0"
  by (simp add: AppendCrc_def Let_def Crc16Modbus_def crc_byte_lo8 crc_byte_hi8)

lemma length_AppendCrc [simp]: "length (AppendCrc f) = length f + 2"
  by (simp add: AppendCrc_def Let_def)

end
