(* ===== verification/ModbusWire.thy ===== *)
theory ModbusWire
  imports ModbusProtocol
begin

text \<open>
  The Modbus application protocol as a specification, and the proofs that the code of
  \<open>ModbusProtocol\<close> implements it: the protocol data units of the answers, how a
  transport wraps a unit into a frame, and for every parser the exact set of frames it
  accepts.
\<close>

section \<open>The specification\<close>

definition u16_bytes :: "u16 \<Rightarrow> bytes" where
  "u16_bytes w = [hi8 w, lo8 w]"

definition words_bytes :: "u16 list \<Rightarrow> bytes" where
  "words_bytes ws = concat (map u16_bytes ws)"

definition wrap_response :: "transport \<Rightarrow> bool \<Rightarrow> u16 \<Rightarrow> bytes \<Rightarrow> bytes" where
  "wrap_response transport has_crc tid pdu =
     (if transport = Tcp
      then u16_bytes tid @ [0, 0] @ u16_bytes (word_of_nat (length pdu)) @ pdu
      else if has_crc then AppendCrc pdu else pdu)"

text \<open>\<open>frame\<close> carries \<open>pdu\<close> as the answer to a request with the transaction id \<open>tid\<close>.\<close>

definition answers :: "transport \<Rightarrow> bool \<Rightarrow> u16 option \<Rightarrow> bytes \<Rightarrow> bytes \<Rightarrow> bool" where
  "answers transport has_crc tid frame pdu \<longleftrightarrow>
     3 \<le> length pdu \<and>
     (\<exists>t. frame = wrap_response transport has_crc t pdu \<and>
          (transport = Tcp \<longrightarrow> length pdu < 65536 \<and> (tid = None \<or> tid = Some t)))"

definition registers_pdu :: "u8 \<Rightarrow> u8 \<Rightarrow> u16 list \<Rightarrow> bytes" where
  "registers_pdu unit_id fc regs = [unit_id, fc, word_of_nat (2 * length regs)] @ words_bytes regs"

definition bits_pdu :: "u8 \<Rightarrow> u8 \<Rightarrow> bytes \<Rightarrow> bytes" where
  "bits_pdu unit_id fc packed = [unit_id, fc, word_of_nat (length packed)] @ packed"

definition write_pdu :: "u8 \<Rightarrow> u8 \<Rightarrow> u16 \<Rightarrow> u16 \<Rightarrow> bytes" where
  "write_pdu unit_id fc offset value = [unit_id, fc] @ u16_bytes offset @ u16_bytes value"

definition exception_pdu :: "u8 \<Rightarrow> u8 \<Rightarrow> u8 \<Rightarrow> bytes" where
  "exception_pdu unit_id fc code = [unit_id, fc OR 0x80, code]"

section \<open>Sequences of words\<close>

lemma words_bytes_simps [simp]:
  "words_bytes [] = []"
  "words_bytes (w # ws) = hi8 w # lo8 w # words_bytes ws"
  by (simp_all add: words_bytes_def u16_bytes_def)

lemma length_words_bytes [simp]: "length (words_bytes ws) = 2 * length ws"
  by (induction ws) simp_all

lemma words_of_words_bytes [simp]: "words_of (words_bytes ws) = ws"
  by (induction ws) simp_all

lemma words_bytes_words_of: "even (length bs) \<Longrightarrow> words_bytes (words_of bs) = bs"
  by (induction bs rule: words_of.induct) simp_all

lemma length_words_of: "length (words_of bs) = length bs div 2"
  by (induction bs rule: words_of.induct) simp_all

lemma foldl_AppendUint16: "foldl AppendUint16 acc ws = acc @ words_bytes ws"
  by (induction ws arbitrary: acc) (simp_all add: AppendUint16_def)

section \<open>Wrapping and the frame bounds\<close>

lemma length_wrap_response:
  "length (wrap_response tr crc t pdu) =
     length pdu + (if tr = Tcp then 6 else if crc then 2 else 0)"
  by (simp add: wrap_response_def u16_bytes_def)

definition pdu_base :: "transport \<Rightarrow> nat" where
  "pdu_base tr = (if tr = Tcp then 6 else 0)"

lemma wrap_response_nth:
  "i < length pdu \<Longrightarrow> wrap_response tr crc t pdu ! (pdu_base tr + i) = pdu ! i"
  by (simp add: wrap_response_def u16_bytes_def pdu_base_def AppendCrc_def Let_def nth_append
      numeral_eq_Suc)

lemma wrap_response_slice:
  "k \<le> length pdu \<Longrightarrow>
   take (length pdu - k) (drop (pdu_base tr + k) (wrap_response tr crc t pdu)) = drop k pdu"
  by (simp add: wrap_response_def u16_bytes_def pdu_base_def AppendCrc_def Let_def numeral_eq_Suc)

lemma unat_word_of_nat_u16: "n < 65536 \<Longrightarrow> unat (word_of_nat n :: u16) = n"
  by (simp add: unat_of_nat)

lemma hi8_lo8_0 [simp]: "hi8 0 = 0" "lo8 0 = 0"
  by (simp_all add: hi8_def lo8_def)

lemma bounds_wrap_Tcp:
  assumes "3 \<le> length pdu" "length pdu < 65536" "tid = None \<or> tid = Some t"
  shows "response_bounds Tcp (wrap_response Tcp crc t pdu) c tid = Inr (6, 6 + length pdu)"
  using assms
  by (auto simp: response_bounds_def wrap_response_def u16_bytes_def unat_word_of_nat_u16
      be16_eq_word_iff Let_def)

lemma bounds_wrap_Rtu:
  assumes "3 \<le> length pdu"
  shows "response_bounds Rtu (wrap_response Rtu crc t pdu) crc tid = Inr (0, length pdu)"
  using assms
  by (auto simp: response_bounds_def wrap_response_def AppendCrc_def Let_def nth_append
      be16_eq_word_iff)

lemma bounds_Tcp_D:
  assumes "response_bounds Tcp frame crc tid = Inr (b, e)"
  obtains t pdu where "frame = wrap_response Tcp crc t pdu" "3 \<le> length pdu"
    "length pdu < 65536" "tid = None \<or> tid = Some t" "b = 6" "e = 6 + length pdu"
proof -
  from assms have len: "9 \<le> length frame"
    by (auto simp: response_bounds_def Let_def split: if_splits)
  then obtain f0 f1 f2 f3 f4 f5 pdu where frame: "frame = f0 # f1 # f2 # f3 # f4 # f5 # pdu"
    by (metis Suc_le_length_iff numeral_eq_Suc pred_numeral_simps(2,3) BitM.simps)
  from assms len have n: "unat (be16 f4 f5) = length pdu" and z: "be16 f2 f3 = 0"
    and t: "tid = None \<or> tid = Some (be16 f0 f1)" and be: "b = 6" "e = 6 + length pdu"
    by (cases tid; auto simp: response_bounds_def frame Let_def split: if_splits)+
  have "length pdu < 65536" using n by (metis unat_u16_less)
  moreover have "word_of_nat (length pdu) = be16 f4 f5" by (simp flip: n)
  moreover have "f2 = 0 \<and> f3 = 0" using z by (simp add: be16_eq_word_iff)
  ultimately show thesis
    using that [of "be16 f0 f1" pdu] len t be by (simp add: frame wrap_response_def u16_bytes_def)
qed

lemma bounds_Rtu_D:
  assumes "response_bounds Rtu frame crc tid = Inr (b, e)"
  obtains pdu where "\<And>t. frame = wrap_response Rtu crc t pdu" "3 \<le> length pdu"
    "b = 0" "e = length pdu"
proof (cases crc)
  case True
  with assms have len: "5 \<le> length frame" by (auto simp: response_bounds_def Let_def split: if_splits)
  then obtain pdu l h where frame: "frame = pdu @ [l, h]" by (elim list_last2E [rotated]) auto
  with assms True have "Crc16Modbus pdu = be16 h l" "b = 0" "e = length pdu"
    by (auto simp: response_bounds_def Let_def nth_append split: if_splits)
  then show thesis using that [of pdu] True len
    by (simp add: frame wrap_response_def AppendCrc_def Let_def)
next
  case False
  with assms that [of frame] show thesis
    by (auto simp: response_bounds_def wrap_response_def Let_def split: if_splits)
qed

lemma response_bounds_iff:
  "response_bounds tr frame crc tid = Inr (b, e) \<longleftrightarrow>
     (\<exists>pdu. answers tr crc tid frame pdu \<and> b = pdu_base tr \<and> e = pdu_base tr + length pdu)"
  by (cases tr)
     (auto simp: answers_def pdu_base_def bounds_wrap_Tcp bounds_wrap_Rtu
       elim!: bounds_Tcp_D bounds_Rtu_D)

section \<open>The head of a response\<close>

lemma or_0x80_eq_iff: "fc = fc OR (0x80 :: u8) \<longleftrightarrow> bit fc 7"
proof -
  have e: "(0x80 :: u8) = push_bit 7 1" by simp
  have b: "bit (0x80 :: u8) n \<longleftrightarrow> n = 7" for n
    unfolding e by (auto simp: bit_simps simp del: push_bit_of_1 push_bit_numeral)
  show ?thesis
  proof
    assume "fc = fc OR 0x80"
    then have "bit fc 7 = bit (fc OR 0x80) 7" by simp
    then show "bit fc 7" by (simp add: bit_or_iff b del: bit_numeral_iff)
  next
    assume "bit fc 7"
    show "fc = fc OR 0x80"
    proof (rule bit_word_eqI)
      fix n :: nat
      have "bit (fc OR 0x80) n \<longleftrightarrow> bit fc n \<or> n = 7" by (simp only: bit_or_iff b)
      with \<open>bit fc 7\<close> show "bit fc n = bit (fc OR 0x80) n" by auto
    qed
  qed
qed

lemma answers_nth:
  "answers tr crc tid frame pdu \<Longrightarrow> i < length pdu \<Longrightarrow> frame ! (pdu_base tr + i) = pdu ! i"
  by (auto simp: answers_def wrap_response_nth)

lemma answers_slice:
  "answers tr crc tid frame pdu \<Longrightarrow> k \<le> length pdu \<Longrightarrow>
   take (length pdu - k) (drop (pdu_base tr + k) frame) = drop k pdu"
  by (auto simp: answers_def wrap_response_slice)

lemma answers_length: "answers tr crc tid frame pdu \<Longrightarrow> 3 \<le> length pdu"
  by (simp add: answers_def)

lemma answers_bounds:
  "answers tr crc tid frame pdu \<Longrightarrow>
   response_bounds tr frame crc tid = Inr (pdu_base tr, pdu_base tr + length pdu)"
  by (auto simp: response_bounds_iff)

text \<open>The head of a frame that carries a unit, decided by the unit alone.\<close>

lemma response_head_answers:
  assumes a: "answers tr crc tid frame pdu"
  shows "response_head tr frame u fc crc tid =
     (if pdu ! 0 \<noteq> u then Inl (PE_WrongUnitId, 0)
      else if pdu ! 1 = fc OR 0x80 then Inl (PE_ExceptionResponse, pdu ! 2)
      else if pdu ! 1 \<noteq> fc then Inl (PE_WrongFunction, 0)
      else Inr (pdu_base tr, pdu_base tr + length pdu))"
proof -
  have l: "3 \<le> length pdu" by (rule answers_length [OF a])
  then have "pdu \<noteq> []" by auto
  with l have "frame ! pdu_base tr = pdu ! 0" "frame ! (pdu_base tr + 1) = pdu ! 1"
    "frame ! (pdu_base tr + 2) = pdu ! 2" "\<not> pdu_base tr + length pdu \<le> pdu_base tr + 2"
    using answers_nth [OF a, of 0] answers_nth [OF a, of 1] answers_nth [OF a, of 2] by simp_all
  then show ?thesis
    unfolding response_head_def answers_bounds [OF a] by (simp add: Let_def)
qed

lemma response_head_Inr_answers:
  assumes "response_head tr frame u fc crc tid = Inr be"
  obtains pdu where "answers tr crc tid frame pdu"
  using assms by (auto simp: response_head_def response_bounds_iff split: sum.splits)

lemma response_head_iff:
  "response_head tr frame u fc crc tid = Inr (b, e) \<longleftrightarrow>
     (\<exists>pdu. answers tr crc tid frame pdu \<and> pdu ! 0 = u \<and> pdu ! 1 = fc \<and> \<not> bit fc 7 \<and>
            b = pdu_base tr \<and> e = pdu_base tr + length pdu)"
proof
  assume L: "response_head tr frame u fc crc tid = Inr (b, e)"
  then obtain pdu where "answers tr crc tid frame pdu" by (rule response_head_Inr_answers)
  with L show "\<exists>pdu. answers tr crc tid frame pdu \<and> pdu ! 0 = u \<and> pdu ! 1 = fc \<and> \<not> bit fc 7 \<and>
            b = pdu_base tr \<and> e = pdu_base tr + length pdu"
    by (auto simp: response_head_answers or_0x80_eq_iff split: if_splits)
qed (auto simp: response_head_answers or_0x80_eq_iff)

section \<open>What the parsers accept\<close>

lemma parse_ok_eq_simps [simp]:
  "parse_ok v = parse_ok w \<longleftrightarrow> v = w"
  "pr_error (parse_ok v) = PE_None" "pr_payload (parse_ok v) = v"
  "pr_error (parse_fail d ex) = fst ex" "pr_exception (parse_fail d ex) = snd ex"
  by (simp_all add: parse_ok_def parse_fail_def)

lemma parse_fail_eq_ok: "parse_fail d ex = parse_ok v \<longleftrightarrow> ex = (PE_None, 0) \<and> d = v"
  by (cases ex) (auto simp: parse_ok_def parse_fail_def)

lemma response_bounds_not_None:
  "response_bounds tr frame crc tid = Inl e \<Longrightarrow> e \<noteq> PE_None"
  by (auto simp: response_bounds_def Let_def split: if_splits)

lemma response_head_not_None:
  "response_head tr frame u fc crc tid = Inl (e, x) \<Longrightarrow> e \<noteq> PE_None"
  by (auto simp: response_head_def Let_def split: if_splits sum.splits
      dest: response_bounds_not_None)

lemma registers_pdu_nth [simp]:
  "registers_pdu u fc regs ! 0 = u" "registers_pdu u fc regs ! Suc 0 = fc"
  "registers_pdu u fc regs ! 2 = word_of_nat (2 * length regs)"
  "length (registers_pdu u fc regs) = 3 + 2 * length regs"
  "drop 3 (registers_pdu u fc regs) = words_bytes regs"
  by (simp_all add: registers_pdu_def)

lemma unat_word_of_nat_u8: "n < 256 \<Longrightarrow> unat (word_of_nat n :: u8) = n"
  by (simp add: unat_of_nat)

lemma list3_split:
  "3 \<le> length xs \<Longrightarrow> xs ! 0 = a \<Longrightarrow> xs ! 1 = b \<Longrightarrow> xs ! 2 = c \<Longrightarrow> drop 3 xs = r \<Longrightarrow>
   xs = [a, b, c] @ r"
  by (cases xs; cases "tl xs"; cases "tl (tl xs)") (auto simp: numeral_eq_Suc)

theorem ParseReadRegistersResponse_iff:
  "ParseReadRegistersResponse tr frame u fc count crc tid = parse_ok regs \<longleftrightarrow>
     answers tr crc tid frame (registers_pdu u fc regs) \<and>
     length regs = unat count \<and> length regs < 128 \<and> \<not> bit fc 7"
proof
  assume L: "ParseReadRegistersResponse tr frame u fc count crc tid = parse_ok regs"
  then obtain b e where h: "response_head tr frame u fc crc tid = Inr (b, e)"
    by (auto simp: ParseReadRegistersResponse_def parse_fail_eq_ok dest: response_head_not_None
        split: sum.splits)
  then obtain pdu where a: "answers tr crc tid frame pdu" and p: "pdu ! 0 = u" "pdu ! 1 = fc"
    and fc: "\<not> bit fc 7" and be: "b = pdu_base tr" "e = pdu_base tr + length pdu"
    by (auto simp: response_head_iff)
  have len: "3 \<le> length pdu" by (rule answers_length [OF a])
  from L h len answers_nth [OF a, of 2] answers_slice [OF a, of 3]
  have bc: "even (unat (pdu ! 2))" "3 + unat (pdu ! 2) = length pdu"
      "unat (pdu ! 2) = unat count * 2" and regs: "regs = words_of (drop 3 pdu)"
    by (auto simp: ParseReadRegistersResponse_def be Let_def parse_fail_eq_ok add.commute
        split: if_splits)
  have lr: "2 * length regs = unat (pdu ! 2)" using bc by (simp add: regs length_words_of)
  have "pdu = registers_pdu u fc regs"
  proof -
    have "word_of_nat (2 * length regs) = pdu ! 2" by (simp add: lr)
    moreover have "words_bytes regs = drop 3 pdu"
    proof -
      have "even (length (drop 3 pdu))" using bc(1,2) by (metis add_diff_cancel_left' length_drop)
      then show ?thesis by (simp add: regs words_bytes_words_of)
    qed
    ultimately show ?thesis
      unfolding registers_pdu_def by (intro list3_split len p) simp_all
  qed
  with a have "answers tr crc tid frame (registers_pdu u fc regs)" by (simp only:)
  moreover have "length regs = unat count" using lr bc(3) by linarith
  moreover have "length regs < 128" using lr unat_u8_less [of "pdu ! 2"] by linarith
  ultimately show "answers tr crc tid frame (registers_pdu u fc regs) \<and>
     length regs = unat count \<and> length regs < 128 \<and> \<not> bit fc 7"
    using fc by (intro conjI)
next
  assume R: "answers tr crc tid frame (registers_pdu u fc regs) \<and>
     length regs = unat count \<and> length regs < 128 \<and> \<not> bit fc 7"
  then have a: "answers tr crc tid frame (registers_pdu u fc regs)" by simp
  from R have "length regs < 128" "\<not> bit fc 7" "length regs = unat count" by simp_all
  have "frame ! (pdu_base tr + 2) = word_of_nat (2 * length regs)"
    using answers_nth [OF a, of 2] by simp
  then have "unat (frame ! (pdu_base tr + 2)) = 2 * length regs"
    using \<open>length regs < 128\<close> by (simp only:) (rule unat_word_of_nat_u8, simp)
  then show "ParseReadRegistersResponse tr frame u fc count crc tid = parse_ok regs"
    using \<open>\<not> bit fc 7\<close> \<open>length regs = unat count\<close> answers_slice [OF a, of 3]
    unfolding ParseReadRegistersResponse_def response_head_answers [OF a]
    by (simp add: or_0x80_eq_iff Let_def add.commute)
qed

theorem ParseReadBitsResponse_iff:
  "ParseReadBitsResponse tr frame u fc count crc tid = parse_ok packed \<longleftrightarrow>
     answers tr crc tid frame (bits_pdu u fc packed) \<and>
     length packed = (unat count + 7) div 8 \<and> length packed < 256 \<and> \<not> bit fc 7"
proof
  assume L: "ParseReadBitsResponse tr frame u fc count crc tid = parse_ok packed"
  then obtain b e where h: "response_head tr frame u fc crc tid = Inr (b, e)"
    by (auto simp: ParseReadBitsResponse_def parse_fail_eq_ok dest: response_head_not_None
        split: sum.splits)
  then obtain pdu where a: "answers tr crc tid frame pdu" and p: "pdu ! 0 = u" "pdu ! 1 = fc"
    and fc: "\<not> bit fc 7" and be: "b = pdu_base tr" "e = pdu_base tr + length pdu"
    by (auto simp: response_head_iff)
  have len: "3 \<le> length pdu" by (rule answers_length [OF a])
  from L h len answers_nth [OF a, of 2] answers_slice [OF a, of 3]
  have bc: "3 + unat (pdu ! 2) = length pdu" "unat (pdu ! 2) = (unat count + 7) div 8"
    and packed: "packed = drop 3 pdu"
    by (auto simp: ParseReadBitsResponse_def be Let_def parse_fail_eq_ok add.commute
        split: if_splits)
  have lp: "length packed = unat (pdu ! 2)" using bc(1) unfolding packed length_drop by linarith
  then have "pdu = bits_pdu u fc packed"
    unfolding bits_pdu_def by (intro list3_split len p) (simp_all add: packed)
  with a fc lp bc(2) show "answers tr crc tid frame (bits_pdu u fc packed) \<and>
     length packed = (unat count + 7) div 8 \<and> length packed < 256 \<and> \<not> bit fc 7"
    by (metis unat_u8_less)
next
  assume R: "answers tr crc tid frame (bits_pdu u fc packed) \<and>
     length packed = (unat count + 7) div 8 \<and> length packed < 256 \<and> \<not> bit fc 7"
  then have a: "answers tr crc tid frame (bits_pdu u fc packed)" by simp
  show "ParseReadBitsResponse tr frame u fc count crc tid = parse_ok packed"
    using R answers_nth [OF a, of 2] answers_slice [OF a, of 3]
    by (simp add: ParseReadBitsResponse_def response_head_answers [OF a] or_0x80_eq_iff
        Let_def unat_word_of_nat_u8 add.commute bits_pdu_def)
qed

theorem ParseWriteResponse_iff:
  "ParseWriteResponse tr frame u fc offset value crc tid = parse_ok () \<longleftrightarrow>
     answers tr crc tid frame (write_pdu u fc offset value) \<and> \<not> bit fc 7"
proof
  assume L: "ParseWriteResponse tr frame u fc offset value crc tid = parse_ok ()"
  then obtain b e where h: "response_head tr frame u fc crc tid = Inr (b, e)"
    by (auto simp: ParseWriteResponse_def parse_fail_eq_ok dest: response_head_not_None
        split: sum.splits)
  then obtain pdu where a: "answers tr crc tid frame pdu" and p: "pdu ! 0 = u" "pdu ! 1 = fc"
    and fc: "\<not> bit fc 7" and be: "b = pdu_base tr" "e = pdu_base tr + length pdu"
    by (auto simp: response_head_iff)
  from L h have len: "length pdu = 6"
    by (auto simp: ParseWriteResponse_def be parse_fail_eq_ok split: if_splits)
  then obtain p0 p1 p2 p3 p4 p5 where pdu: "pdu = [p0, p1, p2, p3, p4, p5]"
    by (auto simp: numeral_eq_Suc length_Suc_conv)
  from L h have "be16 p2 p3 = offset" "be16 p4 p5 = value"
    using answers_nth [OF a, of 2] answers_nth [OF a, of 3] answers_nth [OF a, of 4]
      answers_nth [OF a, of 5]
    by (auto simp: ParseWriteResponse_def be Let_def parse_fail_eq_ok pdu split: if_splits)
  then have "pdu = write_pdu u fc offset value"
    using p by (auto simp: pdu write_pdu_def u16_bytes_def)
  with a fc show "answers tr crc tid frame (write_pdu u fc offset value) \<and> \<not> bit fc 7" by simp
next
  assume R: "answers tr crc tid frame (write_pdu u fc offset value) \<and> \<not> bit fc 7"
  then have a: "answers tr crc tid frame (write_pdu u fc offset value)" by simp
  show "ParseWriteResponse tr frame u fc offset value crc tid = parse_ok ()"
    using R answers_nth [OF a, of 2] answers_nth [OF a, of 3] answers_nth [OF a, of 4]
      answers_nth [OF a, of 5]
    by (simp add: ParseWriteResponse_def response_head_answers [OF a] or_0x80_eq_iff Let_def
        write_pdu_def u16_bytes_def numeral_eq_Suc)
qed

text \<open>An exception answer is reported as such, with the code the device sent.\<close>

theorem parse_exception:
  assumes a: "answers tr crc tid frame (exception_pdu u fc code)"
  shows "ParseReadRegistersResponse tr frame u fc count crc tid =
           parse_fail [] (PE_ExceptionResponse, code)"
    and "ParseReadBitsResponse tr frame u fc count crc tid =
           parse_fail [] (PE_ExceptionResponse, code)"
    and "ParseWriteResponse tr frame u fc offset value crc tid =
           parse_fail () (PE_ExceptionResponse, code)"
  by (simp_all add: ParseReadRegistersResponse_def ParseReadBitsResponse_def
      ParseWriteResponse_def response_head_answers [OF a] exception_pdu_def)

section \<open>Requests\<close>

definition request_pdu :: "u8 \<Rightarrow> u8 \<Rightarrow> u16 \<Rightarrow> u16 \<Rightarrow> bytes" where
  "request_pdu unit_id fc offset value = [unit_id, fc] @ u16_bytes offset @ u16_bytes value"

definition write_request_pdu :: "u8 \<Rightarrow> u16 \<Rightarrow> u16 list \<Rightarrow> bytes" where
  "write_request_pdu unit_id offset values =
     (if length values = 1 then request_pdu unit_id FC_WriteSingleRegister offset (hd values)
      else request_pdu unit_id FC_WriteMultipleRegister offset (word_of_nat (length values))
           @ [word_of_nat (2 * length values)] @ words_bytes values)"

text \<open>A request is wrapped the way an answer is; over RTU it always carries the CRC.\<close>

theorem BuildReadRequest_wraps:
  "IsValidReadRange offset count 125 \<Longrightarrow>
   BuildReadRequest tr tid u fc offset count =
     \<lparr>fr_error = PE_None, fr_frame = wrap_response tr True tid (request_pdu u fc offset count)\<rparr>"
  by (cases tr) (simp_all add: BuildReadRequest_def wrap_response_def request_pdu_def
      mbap_header_def finish_frame_def AppendUint16_def u16_bytes_def Let_def)

theorem BuildWriteCoilRequest_wraps:
  "BuildWriteCoilRequest tr tid u offset value =
     \<lparr>fr_error = PE_None,
      fr_frame = wrap_response tr True tid
        (request_pdu u FC_ForceSingleCoil offset (if value then 0xFF00 else 0))\<rparr>"
  by (cases tr) (simp_all add: BuildWriteCoilRequest_def wrap_response_def request_pdu_def
      mbap_header_def finish_frame_def AppendUint16_def u16_bytes_def Let_def)

theorem BuildWriteRegistersRequest_wraps:
  assumes "values \<noteq> []" "length values \<le> 123" "unat offset + length values \<le> 0x10000"
  shows "BuildWriteRegistersRequest tr tid u offset values =
     \<lparr>fr_error = PE_None, fr_frame = wrap_response tr True tid (write_request_pdu u offset values)\<rparr>"
  using assms
  by (cases "values"; cases "tl values"; cases tr)
     (auto simp: BuildWriteRegistersRequest_def wrap_response_def write_request_pdu_def
      request_pdu_def mbap_header_def finish_frame_def AppendUint16_def u16_bytes_def
      foldl_AppendUint16 Let_def algebra_simps)

end
