(* ===== verification/ModbusPort.thy ===== *)
theory ModbusPort
  imports ModbusWire
begin

text \<open>
  The Modbus master port.  Source: \<open>src/ModbusMasterSerialPort.cpp\<close> and \<open>.hpp\<close>.  The
  record \<open>modbus_port\<close> holds the members of the class; the recorder behind
  \<open>IModbusRecorder\<close> is a view with its two flags and the calls made to it.  The device at
  the other end is a parameter: a function from its state and the frame written to the wire
  to the chunks received before the response timeout, and its next state.
  Every operation that talks to the device takes and returns the pair of the port and the
  device's state.
\<close>

section \<open>State\<close>

datatype modbus_error =
    ME_WrongId | ME_WrongTransactionId | ME_InvalidRequest | ME_Crc | ME_InvalidLength
  | ME_ExceptionResponse | ME_UnexpectedResponse

datatype response_status = RS_Ok | RS_Timeout | RS_ModbusException | RS_CrcError

datatype modbus_error_type = MB_ERR_OK | MB_ERR_CRC | MB_ERR_TIMEOUT

datatype log_direction = Dir_TX | Dir_RX

datatype recorder_call =
    RecordFrame log_direction u8 modbus_error_type bytes
  | CheckMaxEntries

record recorder_view =
  rv_ready :: bool
  rv_recording :: bool
  rv_calls :: "recorder_call list"

record modbus_port =
  is_tcp :: bool
  raw_recv :: bytes
  recv_data :: bytes
  last_crc_ok :: bool
  response :: bytes
  response_crc_ok :: bool
  sent_data :: bytes
  last_sent :: bytes
  sequence_id :: u16
  timeout_packets :: nat
  error_count :: "u8 \<Rightarrow> nat"
  recorder :: "recorder_view option"

definition new_modbus_port :: "bool \<Rightarrow> modbus_port" where
  "new_modbus_port tcp =
     \<lparr>is_tcp = tcp, raw_recv = [], recv_data = [], last_crc_ok = True, response = [],
      response_crc_ok = True, sent_data = [], last_sent = [], sequence_id = 0,
      timeout_packets = 0, error_count = (\<lambda>_. 0), recorder = None\<rparr>"

definition ResetTimeoutPackets :: "modbus_port \<Rightarrow> modbus_port" where
  "ResetTimeoutPackets p = p\<lparr>timeout_packets := 0\<rparr>"

type_synonym 'd device = "'d \<Rightarrow> bytes \<Rightarrow> bytes list \<times> 'd"
type_synonym ('a, 'd) port_op = "modbus_port \<times> 'd \<Rightarrow> (modbus_error + 'a) \<times> modbus_port \<times> 'd"

fun ToModbusError :: "protocol_error \<Rightarrow> modbus_error" where
  "ToModbusError PE_InvalidRequestRange = ME_InvalidRequest"
| "ToModbusError PE_Crc = ME_Crc"
| "ToModbusError PE_FrameTooShort = ME_InvalidLength"
| "ToModbusError PE_MbapLength = ME_InvalidLength"
| "ToModbusError PE_ByteCountMismatch = ME_InvalidLength"
| "ToModbusError PE_WrongUnitId = ME_WrongId"
| "ToModbusError PE_WrongTransactionId = ME_WrongTransactionId"
| "ToModbusError PE_ExceptionResponse = ME_ExceptionResponse"
| "ToModbusError PE_WrongFunction = ME_UnexpectedResponse"
| "ToModbusError PE_UnexpectedResponse = ME_UnexpectedResponse"
| "ToModbusError PE_None = ME_UnexpectedResponse"

definition ToTransport :: "bool \<Rightarrow> transport" where
  "ToTransport tcp = (if tcp then Tcp else Rtu)"

section \<open>Receiving and sending\<close>

definition ExtractFunctionCode :: "modbus_port \<Rightarrow> bytes \<Rightarrow> u8" where
  "ExtractFunctionCode p d =
     (if \<not> is_tcp p then (if length d > 1 then d ! 1 else 0xFF)
      else (if length d > 7 then d ! 7 else 0xFF))"

definition TrimmedLen :: "modbus_port \<Rightarrow> nat \<Rightarrow> nat" where
  "TrimmedLen p raw_len = (if is_tcp p \<and> raw_len > 6 then raw_len - 6 else raw_len)"

definition recording :: "modbus_port \<Rightarrow> bool" where
  "recording p = (case recorder p of None \<Rightarrow> False | Some r \<Rightarrow> rv_recording r)"

definition record_calls :: "recorder_call list \<Rightarrow> modbus_port \<Rightarrow> modbus_port" where
  "record_calls cs p =
     (if recording p
      then p\<lparr>recorder := map_option (\<lambda>r. r\<lparr>rv_calls := rv_calls r @ cs\<rparr>) (recorder p)\<rparr>
      else p)"

definition OnUartDataReceived :: "bytes \<Rightarrow> modbus_port \<Rightarrow> modbus_port" where
  "OnUartDataReceived chunk p =
     (if chunk = [] then p
      else let raw = raw_recv p @ chunk;
               expected_size = ExpectedResponseLength (ToTransport (is_tcp p)) raw
           in if expected_size = 0 \<or> length raw < expected_size then p\<lparr>raw_recv := raw\<rparr>
              else let raw = take expected_size raw
              in if is_tcp p
                 then p\<lparr>raw_recv := raw, last_crc_ok := True, recv_data := raw\<rparr>
                 else let actual_crc = be16 (raw ! (expected_size - 1)) (raw ! (expected_size - 2))
                 in p\<lparr>raw_recv := raw,
                      last_crc_ok := (Crc16Modbus (take (length raw - 2) raw) = actual_crc),
                      recv_data := take (length raw - 2) raw\<rparr>)"

text \<open>\<open>OnDataSent\<close> on the transport worker: the bytes written to the wire, and the port.\<close>

definition OnDataSent :: "modbus_port \<Rightarrow> bytes \<times> modbus_port" where
  "OnDataSent p =
     (if sent_data p = [] then ([], p)
      else let q = record_calls
                 [CheckMaxEntries,
                  RecordFrame Dir_TX (ExtractFunctionCode p (sent_data p)) MB_ERR_OK
                    (take (TrimmedLen p (length (sent_data p))) (sent_data p))] p
           in (sent_data q, q\<lparr>last_sent := sent_data q, sent_data := []\<rparr>))"

definition WaitForResponse :: "modbus_port \<Rightarrow> bool \<times> modbus_port" where
  "WaitForResponse p =
     (if recv_data p = [] then (False, p)
      else (True, p\<lparr>response := recv_data p, recv_data := [], response_crc_ok := last_crc_ok p\<rparr>))"

text \<open>What the request thread sets before it waits.\<close>

definition begin_request :: "bytes \<Rightarrow> modbus_port \<Rightarrow> modbus_port" where
  "begin_request vec p =
     p\<lparr>raw_recv := [], recv_data := [], last_crc_ok := True, response := [],
       response_crc_ok := True, sent_data := vec\<rparr>"

text \<open>What it does once the wait is over.\<close>

definition finish_request :: "modbus_port \<Rightarrow> response_status \<times> modbus_port" where
  "finish_request p =
     (let (received, p) = WaitForResponse p in
      if received then
        let p = (if is_tcp p
                 then p\<lparr>response_crc_ok :=
                     (length (response p) \<ge> 6 \<and>
                      unat (be16 (response p ! 4) (response p ! 5)) = length (response p) - 6)\<rparr>
                 else p);
            p = record_calls
                  [RecordFrame Dir_RX (ExtractFunctionCode p (response p))
                     (if response_crc_ok p then MB_ERR_OK else MB_ERR_CRC)
                     (take (TrimmedLen p (length (response p))) (response p))] p;
            p = p\<lparr>timeout_packets := 0\<rparr>
        in if \<not> response_crc_ok p then (RS_CrcError, p)
           else let function_code = ExtractFunctionCode p (response p)
           in if function_code AND 0x80 \<noteq> 0
              then (RS_ModbusException,
                    p\<lparr>error_count := (error_count p)(function_code := error_count p function_code + 1)\<rparr>)
              else (RS_Ok, p)
      else
        let p = (if recorder p \<noteq> None \<and> rv_ready (the (recorder p))
                 then record_calls
                   [RecordFrame Dir_RX (ExtractFunctionCode p (last_sent p)) MB_ERR_TIMEOUT
                      (last_sent p)] p
                 else p)
        in (RS_Timeout, p\<lparr>timeout_packets := timeout_packets p + 1\<rparr>))"

definition NotifyAndWaitForResponse ::
  "'d device \<Rightarrow> bytes \<Rightarrow> modbus_port \<times> 'd \<Rightarrow> response_status \<times> modbus_port \<times> 'd" where
  "NotifyAndWaitForResponse dev vec s =
     (let (p, d) = s;
          (written, p) = OnDataSent (begin_request vec p);
          (chunks, d) = dev d written;
          p = fold OnUartDataReceived chunks p;
          (status, p) = finish_request p
      in (status, p, d))"

section \<open>Requests\<close>

definition TransactionOf :: "modbus_port \<Rightarrow> bytes \<Rightarrow> u16 option" where
  "TransactionOf p frame =
     (if \<not> is_tcp p \<or> length frame < 2 then None else Some (be16 (frame ! 0) (frame ! 1)))"

definition ConsumeSequenceId :: "modbus_port \<Rightarrow> u16 \<times> modbus_port" where
  "ConsumeSequenceId p =
     (sequence_id p, if is_tcp p then p\<lparr>sequence_id := sequence_id p + 1\<rparr> else p)"

definition SendAndAwait :: "'d device \<Rightarrow> bytes \<Rightarrow> (u16 option, 'd) port_op" where
  "SendAndAwait dev frame s =
     (let (status, p, d) = NotifyAndWaitForResponse dev frame s
      in if status \<noteq> RS_Ok
         then (Inl (if status = RS_ModbusException then ME_ExceptionResponse
                    else if status = RS_CrcError then ME_Crc else ME_UnexpectedResponse),
               p\<lparr>recv_data := []\<rparr>, d)
         else (Inr (TransactionOf p frame), p, d))"

definition SendReadRequest ::
  "'d device \<Rightarrow> u8 \<Rightarrow> u8 \<Rightarrow> u16 \<Rightarrow> u16 \<Rightarrow> (u16 option, 'd) port_op" where
  "SendReadRequest dev slave_id function_code read_offset read_count s =
     (let (p, d) = s; (tid, p) = ConsumeSequenceId p;
          frame = BuildReadRequest (ToTransport (is_tcp p)) tid slave_id function_code
                    read_offset read_count
      in if \<not> fr_ok frame then (Inl (ToModbusError (fr_error frame)), p, d)
         else SendAndAwait dev (fr_frame frame) (p, d))"

text \<open>The tail every request shares: parse \<open>m_Response\<close>, clear it, map the error.\<close>

definition finish_parse ::
  "(bytes \<Rightarrow> 'a parse_result) \<Rightarrow> ('a \<Rightarrow> 'b) \<Rightarrow> modbus_port \<times> 'd \<Rightarrow>
   (modbus_error + 'b) \<times> modbus_port \<times> 'd" where
  "finish_parse parse k s =
     (let (p, d) = s; parsed = parse (response p); p = p\<lparr>response := []\<rparr>
      in if \<not> pr_ok parsed then (Inl (ToModbusError (pr_error parsed)), p, d)
         else (Inr (k (pr_payload parsed)), p, d))"

definition ReadBits :: "u8 \<Rightarrow> 'd device \<Rightarrow> u8 \<Rightarrow> u16 \<Rightarrow> u16 \<Rightarrow> (bytes, 'd) port_op" where
  "ReadBits fc dev slave_id read_offset read_count s =
     (case SendReadRequest dev slave_id fc read_offset read_count s of
        (Inl e, s') \<Rightarrow> (Inl e, s')
      | (Inr transaction, p, d) \<Rightarrow>
          finish_parse (\<lambda>r. ParseReadBitsResponse (ToTransport (is_tcp p)) r slave_id fc
                              read_count False transaction) id (p, d))"

definition ReadCoilStatus :: "'d device \<Rightarrow> u8 \<Rightarrow> u16 \<Rightarrow> u16 \<Rightarrow> (bytes, 'd) port_op" where
  "ReadCoilStatus = ReadBits FC_ReadCoilStatus"

definition ReadInputStatus :: "'d device \<Rightarrow> u8 \<Rightarrow> u16 \<Rightarrow> u16 \<Rightarrow> (bytes, 'd) port_op" where
  "ReadInputStatus = ReadBits FC_ReadInputStatus"

definition ReadRegister :: "u8 \<Rightarrow> 'd device \<Rightarrow> u8 \<Rightarrow> u16 \<Rightarrow> u16 \<Rightarrow> (u16 list, 'd) port_op" where
  "ReadRegister fc dev slave_id read_offset read_count s =
     (case SendReadRequest dev slave_id fc read_offset read_count s of
        (Inl e, s') \<Rightarrow> (Inl e, s')
      | (Inr transaction, p, d) \<Rightarrow>
          finish_parse (\<lambda>r. ParseReadRegistersResponse (ToTransport (is_tcp p)) r slave_id fc
                              read_count False transaction) id (p, d))"

definition ReadHoldingRegister :: "'d device \<Rightarrow> u8 \<Rightarrow> u16 \<Rightarrow> u16 \<Rightarrow> (u16 list, 'd) port_op" where
  "ReadHoldingRegister = ReadRegister FC_ReadHoldingRegister"

definition ReadInputRegister :: "'d device \<Rightarrow> u8 \<Rightarrow> u16 \<Rightarrow> u16 \<Rightarrow> (u16 list, 'd) port_op" where
  "ReadInputRegister = ReadRegister FC_ReadInputRegister"

definition ForceSingleCoil :: "'d device \<Rightarrow> u8 \<Rightarrow> u16 \<Rightarrow> bool \<Rightarrow> (bytes, 'd) port_op" where
  "ForceSingleCoil dev slave_id write_offset status s =
     (let (p, d) = s; (tid, p) = ConsumeSequenceId p;
          frame = BuildWriteCoilRequest (ToTransport (is_tcp p)) tid slave_id write_offset status
      in if \<not> fr_ok frame then (Inl (ToModbusError (fr_error frame)), p, d)
         else case SendAndAwait dev (fr_frame frame) (p, d) of
           (Inl e, s') \<Rightarrow> (Inl e, s')
         | (Inr transaction, p, d) \<Rightarrow>
             finish_parse (\<lambda>r. ParseWriteResponse (ToTransport (is_tcp p)) r slave_id
                 FC_ForceSingleCoil write_offset (if status then 0xFF00 else 0) False transaction)
               (\<lambda>_. fr_frame frame) (p, d))"

definition WriteHoldingRegister ::
  "'d device \<Rightarrow> u8 \<Rightarrow> u16 \<Rightarrow> u16 \<Rightarrow> u16 list \<Rightarrow> (bytes, 'd) port_op" where
  "WriteHoldingRegister dev slave_id write_offset write_count buffer s =
     (if unat write_count \<noteq> length buffer then (Inl ME_InvalidRequest, s)
      else let (p, d) = s; (tid, p) = ConsumeSequenceId p;
          frame = BuildWriteRegistersRequest (ToTransport (is_tcp p)) tid slave_id write_offset
                    buffer
      in if \<not> fr_ok frame then (Inl (ToModbusError (fr_error frame)), p, d)
         else case SendAndAwait dev (fr_frame frame) (p, d) of
           (Inl e, s') \<Rightarrow> (Inl e, s')
         | (Inr transaction, p, d) \<Rightarrow>
             finish_parse (\<lambda>r. ParseWriteResponse (ToTransport (is_tcp p)) r slave_id
                 (if write_count = 1 then FC_WriteSingleRegister else FC_WriteMultipleRegister)
                 write_offset (if write_count = 1 then buffer ! 0 else write_count) False
                 transaction)
               (\<lambda>_. fr_frame frame) (p, d))"

record custom_result =
  cr_response :: bytes
  cr_error :: "modbus_error option"

definition SendCustomCommand ::
  "'d device \<Rightarrow> bytes \<Rightarrow> modbus_port \<times> 'd \<Rightarrow> custom_result \<times> modbus_port \<times> 'd" where
  "SendCustomCommand dev frame s =
     (let (status, p, d) = NotifyAndWaitForResponse dev frame s
      in (\<lparr>cr_response = response p,
           cr_error =
             (if status = RS_ModbusException then Some ME_ExceptionResponse
              else if status = RS_CrcError
                then Some (if is_tcp p then ME_InvalidLength else ME_Crc)
              else if status \<noteq> RS_Ok then Some ME_UnexpectedResponse else None)\<rparr>,
          p\<lparr>response := []\<rparr>, d))"

section \<open>Reads longer than one request\<close>

definition kMaxRegistersPerRequest :: nat where
  "kMaxRegistersPerRequest = 120"

function chunked_loop ::
  "(u16 \<Rightarrow> u16 \<Rightarrow> 's \<Rightarrow> (modbus_error + u16 list) \<times> 's) \<Rightarrow>
   u16 \<Rightarrow> nat \<Rightarrow> u16 list \<Rightarrow> 's \<Rightarrow> (modbus_error + u16 list) \<times> 's" where
  "chunked_loop read_one offset remaining result s =
     (if remaining = 0 then (Inr result, s)
      else let step = min remaining kMaxRegistersPerRequest
      in case read_one offset (word_of_nat step) s of
           (Inl e, s') \<Rightarrow> (Inl e, s')
         | (Inr chunk, s') \<Rightarrow>
             if length chunk \<noteq> step then (Inl ME_InvalidLength, s')
             else chunked_loop read_one (offset + word_of_nat step) (remaining - step)
                    (result @ chunk) s')"
  by pat_completeness auto
termination
  by (relation "measure (\<lambda>(r, off, remaining, res, s). remaining)")
     (auto simp: kMaxRegistersPerRequest_def)

declare chunked_loop.simps [simp del]

definition ChunkedRead ::
  "(u16 \<Rightarrow> u16 \<Rightarrow> 's \<Rightarrow> (modbus_error + u16 list) \<times> 's) \<Rightarrow>
   u16 \<Rightarrow> u16 \<Rightarrow> 's \<Rightarrow> (modbus_error + u16 list) \<times> 's" where
  "ChunkedRead read_one read_offset read_count s =
     (if read_count = 0 \<or> unat read_offset + unat read_count > 0x10000
      then (Inl ME_InvalidRequest, s)
      else chunked_loop read_one read_offset (unat read_count) [] s)"

definition ReadHoldingRegisters ::
  "'d device \<Rightarrow> u8 \<Rightarrow> u16 \<Rightarrow> u16 \<Rightarrow> (u16 list, 'd) port_op" where
  "ReadHoldingRegisters dev slave_id = ChunkedRead (ReadHoldingRegister dev slave_id)"

definition ReadInputRegisters ::
  "'d device \<Rightarrow> u8 \<Rightarrow> u16 \<Rightarrow> u16 \<Rightarrow> (u16 list, 'd) port_op" where
  "ReadInputRegisters dev slave_id = ChunkedRead (ReadInputRegister dev slave_id)"

end
