(* ===== verification/ModbusReceive.thy ===== *)
theory ModbusReceive
  imports ModbusPort
begin

text \<open>
  The receive path of the Modbus port: what the length rule makes of the prefixes of an
  answer, that an answer delivered in any chunks reaches the request thread once it is
  complete and not before, and the invariant that ties the delivered bytes to the raw ones.
\<close>

section \<open>The length rule\<close>

text \<open>The units a Modbus device answers a standard request with.\<close>

definition standard_pdu :: "bytes \<Rightarrow> bool" where
  "standard_pdu pdu \<longleftrightarrow>
     (bit (pdu ! 1) 7 \<and> length pdu = 3) \<or>
     (pdu ! 1 \<in> {1, 2, 3, 4} \<and> 3 \<le> length pdu \<and> length pdu = 3 + unat (pdu ! 2)) \<or>
     (pdu ! 1 \<in> {5, 6, 16} \<and> length pdu = 6)"

lemma standard_pdu_length: "standard_pdu pdu \<Longrightarrow> 3 \<le> length pdu \<and> length pdu \<le> 258"
  using unat_u8_less [of "pdu ! 2"] by (auto simp: standard_pdu_def simp del: unat_u8_less)

lemma and_0x80_iff: "fc AND (0x80 :: u8) \<noteq> 0 \<longleftrightarrow> bit fc 7"
proof -
  have e: "(0x80 :: u8) = push_bit 7 1" by simp
  have b: "bit (0x80 :: u8) n \<longleftrightarrow> n = 7" for n
    unfolding e by (auto simp: bit_simps simp del: push_bit_of_1 push_bit_numeral)
  have "fc AND 0x80 = 0 \<longleftrightarrow> \<not> bit fc 7"
  proof
    assume "fc AND 0x80 = 0"
    then have "\<not> bit (fc AND 0x80) 7" by simp
    then show "\<not> bit fc 7" by (simp only: bit_and_iff b) simp
  next
    assume "\<not> bit fc 7"
    have "\<not> bit (fc AND 0x80) n" for n
      using \<open>\<not> bit fc 7\<close> by (simp only: bit_and_iff b) blast
    then show "fc AND 0x80 = 0"
      by (intro bit_word_eqI) (simp del: bit_numeral_iff)
  qed
  then show ?thesis by blast
qed

lemma bit7_cases:
  "\<not> bit (1 :: u8) 7" "\<not> bit (2 :: u8) 7" "\<not> bit (3 :: u8) 7" "\<not> bit (4 :: u8) 7"
  "\<not> bit (5 :: u8) 7" "\<not> bit (6 :: u8) 7" "\<not> bit (16 :: u8) 7"
  by simp_all

lemma fc_read_range: "1 \<le> fc \<and> fc \<le> (4 :: u8) \<longleftrightarrow> fc \<in> {1, 2, 3, 4}"
proof
  assume a: "1 \<le> fc \<and> fc \<le> 4"
  then have "1 \<le> unat fc \<and> unat fc \<le> 4" by (simp add: word_le_nat_alt)
  then have "unat fc \<in> {1, 2, 3, 4}" by auto
  then show "fc \<in> {1, 2, 3, 4}" by (auto simp: word_unat_eq_iff)
qed auto

definition delivers :: "transport \<Rightarrow> bytes \<Rightarrow> bool" where
  "delivers tr f \<longleftrightarrow> ExpectedResponseLength tr f = length f \<and> 2 < length f \<and>
     (\<forall>k < length f. ExpectedResponseLength tr (take k f) = 0 \<or>
                     k < ExpectedResponseLength tr (take k f))"

theorem standard_response_delivers:
  assumes "standard_pdu pdu" and "tr = Tcp \<longrightarrow> length pdu \<le> 254"
  shows "delivers tr (wrap_response tr True t pdu)"
proof (cases tr)
  case Tcp
  have l: "3 \<le> length pdu" "length pdu \<le> 254"
    using assms Tcp standard_pdu_length by auto
  let ?f = "wrap_response Tcp True t pdu"
  have "be16 (take k ?f ! 4) (take k ?f ! 5) = word_of_nat (length pdu)" if "6 \<le> k" for k
    using that by (simp add: wrap_response_def u16_bytes_def be16_eq_word_iff)
  then have e: "ExpectedResponseLength Tcp (take k ?f) = 6 + length pdu" if "6 \<le> k" for k
    using that l by (simp add: ExpectedResponseLength_def length_wrap_response unat_word_of_nat_u16)
  have len: "length ?f = 6 + length pdu" by (simp add: length_wrap_response)
  show ?thesis unfolding delivers_def Tcp
  proof (intro conjI allI impI)
    show "ExpectedResponseLength Tcp ?f = length ?f" using e [of "length ?f"] len by simp
    show "2 < length ?f" using len by simp
    fix k assume "k < length ?f"
    then show "ExpectedResponseLength Tcp (take k ?f) = 0 \<or>
        k < ExpectedResponseLength Tcp (take k ?f)"
      using e [of k] len by (cases "6 \<le> k") (auto simp: ExpectedResponseLength_def)
  qed
next
  case Rtu
  have l: "3 \<le> length pdu" using assms(1) standard_pdu_length by auto
  let ?f = "wrap_response Rtu True t pdu"
  have len: "length ?f = length pdu + 2" by (simp add: length_wrap_response)
  have n: "take k ?f ! 1 = pdu ! 1" if "2 \<le> k" for k
    using that l wrap_response_nth [of 1 pdu Rtu True t] by (simp add: pdu_base_def)
  have n2: "take k ?f ! 2 = pdu ! 2" if "3 \<le> k" for k
  proof -
    have "take k ?f ! 2 = ?f ! (pdu_base Rtu + 2)"
      using that by (simp add: pdu_base_def numeral_2_eq_2)
    also have "\<dots> = pdu ! 2" using l by (intro wrap_response_nth) simp
    finally show ?thesis .
  qed
  have e: "ExpectedResponseLength Rtu (take k ?f) = length pdu + 2 \<or>
      ExpectedResponseLength Rtu (take k ?f) = 0 \<and> k < 3" if "2 \<le> k" "k \<le> length ?f" for k
    using assms(1) that n [of k] n2 [of k] len
    unfolding standard_pdu_def ExpectedResponseLength_def and_0x80_iff Let_def fc_read_range
    by (elim disjE conjE) (auto simp: bit7_cases simp del: bit_numeral_iff)
  show ?thesis unfolding delivers_def Rtu
  proof (intro conjI allI impI)
    show "ExpectedResponseLength Rtu ?f = length ?f" using e [of "length ?f"] len l by auto
    show "2 < length ?f" using len l by (cases pdu) auto
    fix k assume "k < length ?f"
    then show "ExpectedResponseLength Rtu (take k ?f) = 0 \<or>
        k < ExpectedResponseLength Rtu (take k ?f)"
    proof (cases "2 \<le> k")
      case True
      with e [of k] \<open>k < length ?f\<close> len show ?thesis by auto
    qed (simp add: ExpectedResponseLength_def)
  qed
qed

section \<open>Chunked delivery\<close>

definition delivered :: "transport \<Rightarrow> bytes \<Rightarrow> bytes" where
  "delivered tr f = (if tr = Tcp then f else take (length f - 2) f)"

definition frame_crc_ok :: "transport \<Rightarrow> bytes \<Rightarrow> bool" where
  "frame_crc_ok tr f \<longleftrightarrow>
     tr = Tcp \<or>
     Crc16Modbus (take (length f - 2) f) = be16 (f ! (length f - 1)) (f ! (length f - 2))"

lemma ToTransport_simps [simp]: "ToTransport b = Tcp \<longleftrightarrow> b" "ToTransport b = Rtu \<longleftrightarrow> \<not> b"
  by (simp_all add: ToTransport_def)

lemma fold_empty_chunks: "concat cs = [] \<Longrightarrow> fold OnUartDataReceived cs p = p"
  by (induction cs) (simp_all add: OnUartDataReceived_def)

lemma OnUartDataReceived_prefix:
  assumes "delivers (ToTransport (is_tcp p)) f" "raw_recv p @ c @ rest = f" "rest \<noteq> []"
  shows "OnUartDataReceived c p = p\<lparr>raw_recv := raw_recv p @ c\<rparr>"
proof -
  define k where "k = length (raw_recv p @ c)"
  have "k < length f" using assms(2,3) by (auto simp: k_def)
  moreover have "take k f = raw_recv p @ c" using assms(2) by (auto simp: k_def)
  ultimately show ?thesis
    using assms(1) by (auto simp: delivers_def OnUartDataReceived_def Let_def k_def)
qed

lemma OnUartDataReceived_complete:
  assumes "delivers (ToTransport (is_tcp p)) f" "raw_recv p @ c = f" "c \<noteq> []"
  shows "OnUartDataReceived c p =
     p\<lparr>raw_recv := f, last_crc_ok := frame_crc_ok (ToTransport (is_tcp p)) f,
       recv_data := delivered (ToTransport (is_tcp p)) f\<rparr>"
  using assms
  by (auto simp: delivers_def OnUartDataReceived_def Let_def delivered_def frame_crc_ok_def)

theorem chunked_delivery:
  assumes "delivers (ToTransport (is_tcp p)) f" "raw_recv p @ concat cs = f" "raw_recv p \<noteq> f"
  shows "fold OnUartDataReceived cs p =
     p\<lparr>raw_recv := f, last_crc_ok := frame_crc_ok (ToTransport (is_tcp p)) f,
       recv_data := delivered (ToTransport (is_tcp p)) f\<rparr>"
  using assms
proof (induction cs arbitrary: p)
  case Nil
  then show ?case by simp
next
  case (Cons c cs)
  show ?case
  proof (cases "concat cs = []")
    case True
    have "raw_recv p @ c = f"
      using Cons.prems(2) by (simp only: concat.simps True append_Nil2)
    moreover from this have "c \<noteq> []" using Cons.prems(3) by (metis append_Nil2)
    ultimately have c: "raw_recv p @ c = f" "c \<noteq> []" by blast+
    have "fold OnUartDataReceived cs q = q" for q by (rule fold_empty_chunks [OF True])
    with OnUartDataReceived_complete [OF Cons.prems(1) c] show ?thesis by simp
  next
    case False
    let ?q = "p\<lparr>raw_recv := raw_recv p @ c\<rparr>"
    have raw: "raw_recv p @ c @ concat cs = f" using Cons.prems(2) by simp
    have "OnUartDataReceived c p = ?q"
      by (rule OnUartDataReceived_prefix [OF Cons.prems(1) raw False])
    moreover have "raw_recv ?q \<noteq> f" using False by (simp flip: raw del: concat_eq_Nil_conv)
    then have "fold OnUartDataReceived cs ?q =
        ?q\<lparr>raw_recv := f, last_crc_ok := frame_crc_ok (ToTransport (is_tcp p)) f,
          recv_data := delivered (ToTransport (is_tcp p)) f\<rparr>"
      using Cons.IH [of ?q] Cons.prems(1) raw by simp
    ultimately show ?thesis by simp
  qed
qed

section \<open>The invariant of the receive buffers\<close>

text \<open>
  Whatever a device sends, what the request thread finds in \<open>m_RecvData\<close> is a complete
  frame by the length rule, and the CRC flag is the verdict on that frame.
\<close>

definition recv_inv :: "modbus_port \<Rightarrow> bool" where
  "recv_inv p \<longleftrightarrow>
     (let tr = ToTransport (is_tcp p); f = raw_recv p in
      recv_data p = [] \<or>
      (ExpectedResponseLength tr f = length f \<and> 5 \<le> length f \<and>
       recv_data p = delivered tr f \<and> last_crc_ok p = frame_crc_ok tr f))"

lemma ExpectedResponseLength_lower:
  "ExpectedResponseLength tr f \<noteq> 0 \<Longrightarrow> ExpectedResponseLength tr f \<le> length f \<Longrightarrow>
   5 \<le> ExpectedResponseLength tr f"
  by (auto simp: ExpectedResponseLength_def Let_def split: if_splits)

lemma ExpectedResponseLength_take:
  assumes "e = ExpectedResponseLength tr f" "e \<noteq> 0" "e \<le> length f"
  shows "ExpectedResponseLength tr (take e f) = e"
proof -
  have "5 \<le> e" using assms ExpectedResponseLength_lower by blast
  show ?thesis
  proof (cases tr)
    case Tcp
    then have "6 \<le> e"
      using assms by (simp add: ExpectedResponseLength_def Let_def split: if_splits)
    with Tcp assms show ?thesis by (simp add: ExpectedResponseLength_def Let_def split: if_splits)
  next
    case Rtu
    with assms \<open>5 \<le> e\<close> show ?thesis
      by (simp add: ExpectedResponseLength_def Let_def split: if_splits)
  qed
qed

lemma ExpectedResponseLength_extend:
  assumes "ExpectedResponseLength tr f = length f" "5 \<le> length f"
  shows "ExpectedResponseLength tr (f @ c) \<noteq> 0 \<and>
         ExpectedResponseLength tr (f @ c) \<le> length (f @ c)"
  using assms
  by (auto simp: ExpectedResponseLength_def Let_def nth_append split: if_splits)

lemma OnUartDataReceived_inv: "recv_inv p \<Longrightarrow> recv_inv (OnUartDataReceived c p)"
proof (cases "c = []")
  case False
  assume inv: "recv_inv p"
  let ?tr = "ToTransport (is_tcp p)" and ?raw = "raw_recv p @ c"
  let ?e = "ExpectedResponseLength ?tr ?raw"
  show ?thesis
  proof (cases "?e = 0 \<or> length ?raw < ?e")
    case True
    then have "recv_data p = []"
      using inv ExpectedResponseLength_extend [of ?tr "raw_recv p" c]
      by (auto simp: recv_inv_def Let_def)
    with True False show ?thesis by (simp add: OnUartDataReceived_def recv_inv_def Let_def)
  next
    case False
    then have "ExpectedResponseLength ?tr (take ?e ?raw) = ?e" "5 \<le> ?e"
      using ExpectedResponseLength_take ExpectedResponseLength_lower by (metis not_le)+
    moreover have "length (take ?e ?raw) = ?e" using False by (metis length_take min.absorb2 not_le)
    ultimately show ?thesis
      using False \<open>c \<noteq> []\<close>
      by (cases "is_tcp p")
         (simp_all add: OnUartDataReceived_def recv_inv_def Let_def delivered_def frame_crc_ok_def
           del: length_take take_append length_append)
  qed
qed (simp add: OnUartDataReceived_def)

lemma fold_OnUartDataReceived_inv:
  "recv_inv p \<Longrightarrow> recv_inv (fold OnUartDataReceived cs p)"
  by (induction cs arbitrary: p) (simp_all add: OnUartDataReceived_inv)

lemma OnUartDataReceived_frame [simp]:
  "is_tcp (OnUartDataReceived c p) = is_tcp p"
  "sequence_id (OnUartDataReceived c p) = sequence_id p"
  "sent_data (OnUartDataReceived c p) = sent_data p"
  "last_sent (OnUartDataReceived c p) = last_sent p"
  "timeout_packets (OnUartDataReceived c p) = timeout_packets p"
  "recorder (OnUartDataReceived c p) = recorder p"
  by (simp_all add: OnUartDataReceived_def Let_def)

lemma fold_OnUartDataReceived_frame [simp]:
  "is_tcp (fold OnUartDataReceived cs p) = is_tcp p"
  "sequence_id (fold OnUartDataReceived cs p) = sequence_id p"
  "sent_data (fold OnUartDataReceived cs p) = sent_data p"
  "last_sent (fold OnUartDataReceived cs p) = last_sent p"
  "timeout_packets (fold OnUartDataReceived cs p) = timeout_packets p"
  "recorder (fold OnUartDataReceived cs p) = recorder p"
  by (induction cs arbitrary: p) simp_all

end
