(* ===== verification/ModbusReads.thy ===== *)
theory ModbusReads
  imports ModbusReceive
begin

text \<open>
  Register reads end to end.  A Modbus slave is specified on the wire (\<open>register_slave\<close>:
  its memory, its unit id, and any way of cutting its answers into chunks); the port of
  \<open>ModbusPort\<close> exchanges one request with it, and the chunked reads of
  \<open>ModbusPort.ChunkedRead\<close> are proved once over the contract \<open>register_reader\<close> of a single
  read.  For a device that does anything at all, a read that returns registers has
  received a well-formed answer to its own request.
\<close>

section \<open>One exchange\<close>

lemma OnDataSent_begin:
  "vec \<noteq> [] \<Longrightarrow>
   \<exists>q. OnDataSent (begin_request vec p) = (vec, q) \<and> raw_recv q = [] \<and> recv_data q = [] \<and>
       is_tcp q = is_tcp p \<and> sequence_id q = sequence_id p"
  by (auto simp: OnDataSent_def begin_request_def record_calls_def)

lemma record_calls_simps [simp]:
  "response (record_calls cs p) = response p" "is_tcp (record_calls cs p) = is_tcp p"
  "response_crc_ok (record_calls cs p) = response_crc_ok p"
  "sequence_id (record_calls cs p) = sequence_id p"
  "raw_recv (record_calls cs p) = raw_recv p" "recv_data (record_calls cs p) = recv_data p"
  "last_crc_ok (record_calls cs p) = last_crc_ok p" "sent_data (record_calls cs p) = sent_data p"
  by (simp_all add: record_calls_def)

lemma frame_crc_ok_wrap: "frame_crc_ok tr (wrap_response tr True t pdu)"
  by (simp add: frame_crc_ok_def wrap_response_def AppendCrc_def Let_def nth_append)

lemma delivered_wrap:
  "delivered tr (wrap_response tr True t pdu) = wrap_response tr False t pdu"
  by (simp add: delivered_def wrap_response_def AppendCrc_def Let_def)

lemma fc_of_wrap:
  assumes "3 \<le> length pdu"
  shows "ExtractFunctionCode p (wrap_response (ToTransport (is_tcp p)) False t pdu) = pdu ! 1"
  using assms wrap_response_nth [of 1 pdu "ToTransport (is_tcp p)" False t]
  by (cases pdu)
     (auto simp: ExtractFunctionCode_def length_wrap_response pdu_base_def numeral_eq_Suc
       split: if_splits)

lemma finish_request_ok:
  assumes "recv_data p = wrap_response (ToTransport (is_tcp p)) False t pdu"
    "3 \<le> length pdu" "length pdu < 65536" "\<not> bit (pdu ! 1) 7" "last_crc_ok p"
  shows "\<exists>q. finish_request p = (RS_Ok, q) \<and> response q = recv_data p \<and>
             is_tcp q = is_tcp p \<and> sequence_id q = sequence_id p"
proof -
  have ne: "recv_data p \<noteq> []"
    using assms(1,2) length_wrap_response [of "ToTransport (is_tcp p)" False t pdu] by auto
  have tcp: "is_tcp p \<Longrightarrow> 6 \<le> length (recv_data p) \<and>
      unat (be16 (recv_data p ! 4) (recv_data p ! 5)) = length (recv_data p) - 6"
    using assms(1,3) by (simp add: wrap_response_def u16_bytes_def unat_word_of_nat_u16)
  have fc: "ExtractFunctionCode q (recv_data p) = pdu ! 1" if "is_tcp q = is_tcp p" for q
    using fc_of_wrap [OF assms(2), of q t] assms(1) that by simp
  have "pdu ! 1 AND 0x80 = 0" using assms(4) and_0x80_iff by blast
  then show ?thesis
    using ne tcp assms(5)
    by (cases "is_tcp p")
       (simp_all add: finish_request_def WaitForResponse_def Let_def fc)
qed

definition answer_of :: "modbus_port \<Rightarrow> u16 \<Rightarrow> bytes \<Rightarrow> bytes" where
  "answer_of p t pdu = wrap_response (ToTransport (is_tcp p)) True t pdu"

lemma exchange_ok:
  assumes "vec \<noteq> []" "dev d vec = (chunks, d')" "concat chunks = answer_of p t pdu"
    "standard_pdu pdu" "\<not> bit (pdu ! 1) 7" "is_tcp p \<longrightarrow> length pdu \<le> 254"
  shows "\<exists>q. NotifyAndWaitForResponse dev vec (p, d) = (RS_Ok, q, d') \<and>
     response q = wrap_response (ToTransport (is_tcp p)) False t pdu \<and>
     is_tcp q = is_tcp p \<and> sequence_id q = sequence_id p"
proof -
  let ?tr = "ToTransport (is_tcp p)" and ?f = "answer_of p t pdu"
  have len: "3 \<le> length pdu" "length pdu < 65536"
    using standard_pdu_length [OF assms(4)] by auto
  obtain q where q: "OnDataSent (begin_request vec p) = (vec, q)" "raw_recv q = []"
    "is_tcp q = is_tcp p" "sequence_id q = sequence_id p"
    using OnDataSent_begin [OF assms(1)] by blast
  let ?r = "q\<lparr>raw_recv := ?f, last_crc_ok := True,
              recv_data := wrap_response ?tr False t pdu\<rparr>"
  have "delivers ?tr ?f"
    using standard_response_delivers [OF assms(4), of ?tr t] assms(6) by (simp add: answer_of_def)
  moreover have "?f \<noteq> []"
    using len length_wrap_response [of ?tr True t pdu] by (auto simp: answer_of_def)
  ultimately have "fold OnUartDataReceived chunks q = ?r"
    using chunked_delivery [of q ?f chunks] q assms(3)
    by (simp add: answer_of_def frame_crc_ok_wrap delivered_wrap)
  moreover obtain r where "finish_request ?r = (RS_Ok, r)" "response r = recv_data ?r"
    "is_tcp r = is_tcp ?r" "sequence_id r = sequence_id ?r"
    using finish_request_ok [of ?r t pdu] len assms(5) q(3) by auto
  ultimately show ?thesis
    using q assms(2) by (simp add: NotifyAndWaitForResponse_def)
qed

section \<open>A slave on the wire\<close>

definition request_body :: "transport \<Rightarrow> bytes \<Rightarrow> bytes" where
  "request_body tr f = (if tr = Tcp then drop 6 f else take (length f - 2) f)"

definition memory_slice :: "(u16 \<Rightarrow> u16) \<Rightarrow> u16 \<Rightarrow> nat \<Rightarrow> u16 list" where
  "memory_slice mem off n = map (\<lambda>i. mem (off + word_of_nat i)) [0..<n]"

text \<open>
  Any way of cutting a frame into chunks: the sizes of the chunks, the rest being the last.
\<close>

fun cut_by :: "nat list \<Rightarrow> bytes \<Rightarrow> bytes list" where
  "cut_by [] f = [f]"
| "cut_by (k # ks) f = take k f # cut_by ks (drop k f)"

lemma concat_cut_by [simp]: "concat (cut_by ks f) = f"
  by (induction ks f rule: cut_by.induct) simp_all

lemma cut_by_lengths: "concat cs = f \<Longrightarrow> cut_by (map length cs) f = cs @ [[]]"
  by (induction cs arbitrary: f) auto

definition register_slave ::
  "transport \<Rightarrow> (bytes \<Rightarrow> nat list) \<Rightarrow> (u8 \<Rightarrow> u16 \<Rightarrow> u16) \<Rightarrow> u8 \<Rightarrow> nat device" where
  "register_slave tr sizes mem u served f =
     (let pdu = request_body tr f; fc = pdu ! 1;
          off = be16 (pdu ! 2) (pdu ! 3); n = be16 (pdu ! 4) (pdu ! 5);
          t = (if tr = Tcp then be16 (f ! 0) (f ! 1) else 0)
      in if length pdu = 6 \<and> pdu ! 0 = u \<and> (fc = 3 \<or> fc = 4)
         then (let answer = wrap_response tr True t
                 (registers_pdu u fc (memory_slice (mem fc) off (unat n)))
               in cut_by (sizes answer) answer, served + 1)
         else ([], served))"

lemma length_memory_slice [simp]: "length (memory_slice mem off n) = n"
  by (simp add: memory_slice_def)

lemma memory_slice_append:
  "memory_slice mem off (a + b) = memory_slice mem off a @ memory_slice mem (off + word_of_nat a) b"
proof -
  have "[0..<a + b] = [0..<a] @ map (\<lambda>i. i + a) [0..<b]"
    by (simp add: map_add_upt upt_add_eq_append [of 0 a b] add.commute [of b a])
  then show ?thesis by (simp add: memory_slice_def ac_simps)
qed

lemma standard_registers_pdu:
  assumes "fc = 3 \<or> fc = 4" "length regs \<le> 125"
  shows "standard_pdu (registers_pdu u fc regs)" "\<not> bit (registers_pdu u fc regs ! 1) 7"
    "length (registers_pdu u fc regs) \<le> 254"
proof -
  have "unat (word_of_nat (2 * length regs) :: u8) = 2 * length regs"
    using assms(2) by (intro unat_word_of_nat_u8) simp
  then show "standard_pdu (registers_pdu u fc regs)"
    using assms(1) unfolding standard_pdu_def registers_pdu_nth(3) by auto
  show "\<not> bit (registers_pdu u fc regs ! 1) 7" using assms(1) by auto
  show "length (registers_pdu u fc regs) \<le> 254" using assms(2) by simp
qed

lemma request_body_wrap [simp]: "request_body tr (wrap_response tr True t pdu) = pdu"
  by (simp add: request_body_def wrap_response_def u16_bytes_def AppendCrc_def Let_def)

lemma register_slave_answers:
  assumes "fc = 3 \<or> fc = 4"
  shows "register_slave tr sizes mem u served (wrap_response tr True t (request_pdu u fc off n)) =
     (let answer = wrap_response tr True (if tr = Tcp then t else 0)
        (registers_pdu u fc (memory_slice (mem fc) off (unat n)))
      in cut_by (sizes answer) answer, served + 1)"
proof -
  have "tr = Tcp \<Longrightarrow> be16 (wrap_response tr True t pdu ! 0) (wrap_response tr True t pdu ! 1) = t"
    for pdu by (simp add: wrap_response_def u16_bytes_def)
  with assms show ?thesis
    by (auto simp: register_slave_def request_pdu_def u16_bytes_def Let_def)
qed

section \<open>One read\<close>

lemma TransactionOf_wrap:
  "TransactionOf p (wrap_response (ToTransport (is_tcp p)) True t pdu) =
     (if is_tcp p then Some t else None)"
  by (simp add: TransactionOf_def wrap_response_def u16_bytes_def)

lemma request_nonempty [simp]: "wrap_response tr True t (request_pdu u fc off n) \<noteq> []"
  by (simp add: wrap_response_def u16_bytes_def AppendCrc_def Let_def)

text \<open>A read whose request the device answers, in any chunks.\<close>

lemma ReadRegister_answered:
  assumes fc: "fc = 3 \<or> fc = 4" and range: "IsValidReadRange off n 125"
    and len: "length regs = unat n" and tr: "tr = ToTransport (is_tcp p)"
    and dev: "dev d (wrap_response tr True (sequence_id p) (request_pdu u fc off n)) = (chunks, d')"
    and answer: "concat chunks = wrap_response tr True t (registers_pdu u fc regs)"
    and t: "is_tcp p \<longrightarrow> t = sequence_id p"
  shows "\<exists>q. ReadRegister fc dev u off n (p, d) = (Inr regs, q, d') \<and> is_tcp q = is_tcp p"
proof -
  define p1 where "p1 = snd (ConsumeSequenceId p)"
  have p1: "ConsumeSequenceId p = (sequence_id p, p1)" "is_tcp p1 = is_tcp p"
    by (simp_all add: p1_def ConsumeSequenceId_def)
  let ?pdu = "registers_pdu u fc regs"
  let ?req = "wrap_response tr True (sequence_id p) (request_pdu u fc off n)"
  have n: "unat n \<le> 125" using range by (simp add: IsValidReadRange_def word_le_nat_alt)
  obtain q where q: "NotifyAndWaitForResponse dev ?req (p1, d) = (RS_Ok, q, d')"
    "response q = wrap_response tr False t ?pdu" "is_tcp q = is_tcp p"
    using exchange_ok [of ?req dev d chunks d' p1 t ?pdu] dev
      standard_registers_pdu [OF fc, of regs u] n len answer by (auto simp: p1 answer_of_def tr)
  have "ParseReadRegistersResponse tr (response q) u fc n False (TransactionOf q ?req) = parse_ok regs"
  proof (subst ParseReadRegistersResponse_iff, intro conjI)
    have "TransactionOf q ?req = (if is_tcp p then Some (sequence_id p) else None)"
      using TransactionOf_wrap [of q "sequence_id p"] q(3) by (simp add: tr)
    then show "answers tr False (TransactionOf q ?req) (response q) ?pdu"
      using q(2) n len t by (auto simp: answers_def ToTransport_def tr)
    show "\<not> bit fc 7" using fc by auto
  qed (use n len in simp_all)
  then show ?thesis
    using q p1
    by (simp add: ReadRegister_def SendReadRequest_def BuildReadRequest_wraps [OF range]
        SendAndAwait_def finish_parse_def fr_ok_def pr_ok_def Let_def tr)
qed

lemma ReadRegister_slave:
  assumes fc: "fc = 3 \<or> fc = 4" and range: "IsValidReadRange off n 125"
  shows "\<exists>q. ReadRegister fc (register_slave (ToTransport (is_tcp p)) sizes mem u) u off n (p, d) =
     (Inr (memory_slice (mem fc) off (unat n)), q, d + 1) \<and> is_tcp q = is_tcp p"
  using register_slave_answers [OF fc, of "ToTransport (is_tcp p)" sizes mem u d "sequence_id p" off n]
  by (intro ReadRegister_answered [OF assms length_memory_slice refl])
     (auto simp: Let_def concat_cut_by)

text \<open>A write whose request the device echoes.\<close>

lemma write_request_nonempty [simp]:
  "wrap_response tr True t (write_request_pdu u off buf) \<noteq> []"
  by (simp add: wrap_response_def u16_bytes_def AppendCrc_def Let_def)

lemma WriteHoldingRegister_answered:
  assumes buf: "buf \<noteq> []" "length buf \<le> 123" "unat off + length buf \<le> 0x10000"
    and n: "length buf = unat n" and tr: "tr = ToTransport (is_tcp p)"
    and dev: "dev d (wrap_response tr True (sequence_id p) (write_request_pdu u off buf)) = (chunks, d')"
    and answer: "concat chunks = wrap_response tr True t
       (write_pdu u (if n = 1 then 6 else 16) off (if n = 1 then hd buf else n))"
    and t: "is_tcp p \<longrightarrow> t = sequence_id p"
  shows "\<exists>q. WriteHoldingRegister dev u off n buf (p, d) =
    (Inr (wrap_response tr True (sequence_id p) (write_request_pdu u off buf)), q, d') \<and>
    is_tcp q = is_tcp p"
proof -
  define p1 where "p1 = snd (ConsumeSequenceId p)"
  have p1: "ConsumeSequenceId p = (sequence_id p, p1)" "is_tcp p1 = is_tcp p"
    by (simp_all add: p1_def ConsumeSequenceId_def)
  define fc where "fc = (if n = 1 then 6 else 16 :: u8)"
  define v where "v = (if n = 1 then hd buf else n)"
  let ?pdu = "write_pdu u fc off v"
  let ?req = "wrap_response tr True (sequence_id p) (write_request_pdu u off buf)"
  have std: "standard_pdu ?pdu" "\<not> bit (?pdu ! 1) 7" "length ?pdu = 6" "\<not> bit fc 7"
    by (auto simp: write_pdu_def standard_pdu_def u16_bytes_def fc_def)
  obtain q where q: "NotifyAndWaitForResponse dev ?req (p1, d) = (RS_Ok, q, d')"
    "response q = wrap_response tr False t ?pdu" "is_tcp q = is_tcp p"
    using exchange_ok [of ?req dev d chunks d' p1 t ?pdu] dev std answer
    by (auto simp: p1 answer_of_def tr fc_def v_def)
  have "TransactionOf q ?req = (if is_tcp p then Some (sequence_id p) else None)"
    using TransactionOf_wrap [of q "sequence_id p"] q(3) by (simp add: tr)
  then have "ParseWriteResponse tr (response q) u fc off v False (TransactionOf q ?req) = parse_ok ()"
    unfolding ParseWriteResponse_iff using q(2) std t by (auto simp: answers_def ToTransport_def tr)
  moreover have "buf ! 0 = hd buf" using buf(1) by (simp add: hd_conv_nth)
  ultimately show ?thesis
    using q p1 n
    by (simp add: WriteHoldingRegister_def BuildWriteRegistersRequest_wraps [OF buf]
        SendAndAwait_def finish_parse_def fr_ok_def pr_ok_def Let_def tr fc_def v_def
        split: if_splits)
qed

section \<open>The contract of a single read, and the chunked read over it\<close>

locale register_reader =
  fixes read_one :: "u16 \<Rightarrow> u16 \<Rightarrow> 's \<Rightarrow> (modbus_error + u16 list) \<times> 's"
    and mem :: "u16 \<Rightarrow> u16"
    and inv :: "'s \<Rightarrow> bool"
    and requests :: "'s \<Rightarrow> nat"
  assumes read_one_ok:
    "inv s \<Longrightarrow> IsValidReadRange off n 125 \<Longrightarrow>
     \<exists>s'. read_one off n s = (Inr (memory_slice mem off (unat n)), s') \<and> inv s' \<and>
          requests s' = requests s + 1"
begin

lemma loop_ok:
  "inv s \<Longrightarrow> unat off + remaining \<le> 65536 \<Longrightarrow>
   \<exists>s'. chunked_loop read_one off remaining acc s =
          (Inr (acc @ memory_slice mem off remaining), s') \<and> inv s' \<and>
        requests s' = requests s + (remaining + 119) div 120"
proof (induction remaining arbitrary: off acc s rule: less_induct)
  case (less remaining)
  show ?case
  proof (cases "remaining = 0")
    case True
    with less.prems show ?thesis by (simp add: chunked_loop.simps memory_slice_def)
  next
    case False
    define k where "k = min remaining 120"
    have k: "0 < k" "k \<le> 120" "k \<le> remaining" using False by (auto simp: k_def)
    have uk: "unat (word_of_nat k :: u16) = k" using k by (simp add: unat_word_of_nat_u16)
    have "IsValidReadRange off (word_of_nat k) 125"
      using k less.prems(2) uk by (auto simp: IsValidReadRange_def word_le_nat_alt unat_eq_0)
    then obtain s1 where s1: "read_one off (word_of_nat k) s = (Inr (memory_slice mem off k), s1)"
      "inv s1" "requests s1 = requests s + 1"
      using read_one_ok [OF less.prems(1)] uk by fastforce
    let ?off = "off + word_of_nat k" and ?acc = "acc @ memory_slice mem off k"
    have "\<exists>s'. chunked_loop read_one ?off (remaining - k) ?acc s1 =
          (Inr (?acc @ memory_slice mem ?off (remaining - k)), s') \<and> inv s' \<and>
        requests s' = requests s1 + (remaining - k + 119) div 120"
    proof (cases "remaining - k = 0")
      case True
      with s1 show ?thesis by (simp add: chunked_loop.simps memory_slice_def)
    next
      case False
      have "unat ?off = unat off + k"
        using False less.prems(2) k uk by (subst unat_plus_if') simp
      then show ?thesis using less.IH [of "remaining - k" s1 ?off ?acc] less.prems(2) k s1 by simp
    qed
    moreover have "chunked_loop read_one off remaining acc s =
        chunked_loop read_one ?off (remaining - k) ?acc s1"
      using False s1 by (subst chunked_loop.simps)
        (simp add: kMaxRegistersPerRequest_def Let_def flip: k_def)
    moreover have "(remaining + 119) div 120 = (remaining - k + 119) div 120 + 1"
      using k by (auto simp: k_def min_def split: if_splits)
    ultimately show ?thesis
      using s1(3) k memory_slice_append [of mem off k "remaining - k"] by auto
  qed
qed

lemma ChunkedRead_ok:
  assumes "inv s" "n \<noteq> 0" "unat off + unat n \<le> 65536"
  shows "\<exists>s'. ChunkedRead read_one off n s = (Inr (memory_slice mem off (unat n)), s') \<and>
              inv s' \<and> requests s' = requests s + (unat n + 119) div 120"
  using loop_ok [OF assms(1,3), of "[]"] assms(2,3) by (simp add: ChunkedRead_def)

end

lemma reader_laws:
  assumes "fc = 3 \<or> fc = 4" "is_tcp (fst s) = tcp" "IsValidReadRange off n 125"
  shows "\<exists>s'. ReadRegister fc (register_slave (ToTransport tcp) sizes mem u) u off n s =
     (Inr (memory_slice (mem fc) off (unat n)), s') \<and> is_tcp (fst s') = tcp \<and>
     snd s' = snd s + 1"
  using ReadRegister_slave [OF assms(1,3), of "fst s" sizes mem u "snd s"] assms(2)
  by (cases s) auto

interpretation holding: register_reader
  "ReadHoldingRegister (register_slave (ToTransport tcp) sizes mem u) u" "mem 3"
  "\<lambda>s. is_tcp (fst s) = tcp" snd for tcp sizes mem u
  unfolding ReadHoldingRegister_def by unfold_locales (rule reader_laws, simp_all)

interpretation input: register_reader
  "ReadInputRegister (register_slave (ToTransport tcp) sizes mem u) u" "mem 4"
  "\<lambda>s. is_tcp (fst s) = tcp" snd for tcp sizes mem u
  unfolding ReadInputRegister_def by unfold_locales (rule reader_laws, simp_all)

section \<open>A chunked read never returns part of what was asked for\<close>

lemma chunked_loop_length:
  "chunked_loop read_one off remaining acc s = (Inr regs, s') \<Longrightarrow>
   length regs = length acc + remaining"
proof (induction remaining arbitrary: off acc s rule: less_induct)
  case (less remaining)
  show ?case
  proof (cases "remaining = 0")
    case True
    with less.prems show ?thesis by (simp add: chunked_loop.simps)
  next
    case False
    define k where "k = min remaining 120"
    have k: "0 < k" "k \<le> remaining" using False by (auto simp: k_def)
    from less.prems False obtain chunk s1 where "length chunk = k"
      "chunked_loop read_one (off + word_of_nat k) (remaining - k) (acc @ chunk) s1 = (Inr regs, s')"
      by (subst (asm) chunked_loop.simps)
         (auto simp: kMaxRegistersPerRequest_def Let_def k_def split: prod.splits sum.splits if_splits)
    with less.IH [of "remaining - k"] k False show ?thesis by fastforce
  qed
qed

lemma ChunkedRead_length:
  "ChunkedRead read_one off n s = (Inr regs, s') \<Longrightarrow> length regs = unat n"
  by (auto simp: ChunkedRead_def dest: chunked_loop_length split: if_splits)

section \<open>What a port accepts from an arbitrary device\<close>

text \<open>The raw buffer is a prefix of the bytes received, fixed once it has been cut.\<close>

definition raw_prefix :: "bytes \<Rightarrow> modbus_port \<Rightarrow> bool" where
  "raw_prefix all p \<longleftrightarrow>
     (\<exists>rest. all = raw_recv p @ rest \<and>
        (rest \<noteq> [] \<longrightarrow>
           (\<forall>c. ExpectedResponseLength (ToTransport (is_tcp p)) (raw_recv p @ c) =
                length (raw_recv p)) \<and> raw_recv p \<noteq> []))"

lemma ExpectedResponseLength_stable:
  assumes "e = ExpectedResponseLength tr raw" "e \<noteq> 0" "e < length raw"
  shows "ExpectedResponseLength tr (take e raw @ c) = e"
proof -
  have "5 \<le> e" using assms ExpectedResponseLength_lower by (metis less_imp_le)
  show ?thesis
  proof (cases tr)
    case Tcp
    then have "6 \<le> e"
      using assms by (simp add: ExpectedResponseLength_def Let_def split: if_splits)
    with Tcp assms show ?thesis
      by (simp add: ExpectedResponseLength_def Let_def nth_append split: if_splits)
  next
    case Rtu
    with assms \<open>5 \<le> e\<close> show ?thesis
      by (simp add: ExpectedResponseLength_def Let_def nth_append split: if_splits) blast
  qed
qed

lemma raw_prefix_step:
  assumes "raw_prefix all p"
  shows "raw_prefix (all @ c) (OnUartDataReceived c p)"
proof (cases "c = []")
  case True
  then show ?thesis using assms by (simp add: OnUartDataReceived_def)
next
  case False
  from assms obtain rest where all: "all = raw_recv p @ rest"
    and fixed: "rest \<noteq> [] \<Longrightarrow>
      (\<forall>c. ExpectedResponseLength (ToTransport (is_tcp p)) (raw_recv p @ c) =
          length (raw_recv p)) \<and> raw_recv p \<noteq> []"
    by (auto simp: raw_prefix_def)
  let ?tr = "ToTransport (is_tcp p)" and ?raw = "raw_recv p @ c"
  let ?e = "ExpectedResponseLength ?tr ?raw"
  have raw: "raw_recv (OnUartDataReceived c p) =
      (if ?e = 0 \<or> length ?raw < ?e then ?raw else take ?e ?raw)"
    using False by (simp add: OnUartDataReceived_def Let_def)
  show ?thesis
  proof (cases "rest = []")
    case True
    show ?thesis
    proof (cases "?e = 0 \<or> length ?raw \<le> ?e")
      case True
      then have "raw_recv (OnUartDataReceived c p) = ?raw" unfolding raw by auto
      with \<open>rest = []\<close> all show ?thesis by (simp add: raw_prefix_def)
    next
      case False
      then have e: "?e \<noteq> 0" "?e < length ?raw" by auto
      have "ExpectedResponseLength ?tr (take ?e ?raw @ x) = ?e" for x
        by (rule ExpectedResponseLength_stable [OF refl e])
      moreover have "length (take ?e ?raw) = ?e" using e by simp
      moreover have "raw_recv (OnUartDataReceived c p) = take ?e ?raw" unfolding raw using e by auto
      moreover have "all @ c = take ?e ?raw @ drop ?e ?raw"
        unfolding append_take_drop_id using all True by simp
      moreover have "take ?e ?raw \<noteq> []" using e by auto
      ultimately show ?thesis unfolding raw_prefix_def OnUartDataReceived_frame by metis
    qed
  next
    case False
    with fixed have "?e = length (raw_recv p)" "raw_recv p \<noteq> []" by auto
    then have "raw_recv (OnUartDataReceived c p) = raw_recv p" unfolding raw by simp
    with fixed [OF False] all show ?thesis by (auto simp: raw_prefix_def)
  qed
qed

lemma raw_prefix_fold:
  "raw_prefix all p \<Longrightarrow> raw_prefix (all @ concat cs) (fold OnUartDataReceived cs p)"
proof (induction cs arbitrary: all p)
  case (Cons c cs)
  from Cons.IH [OF raw_prefix_step [OF Cons.prems]] show ?case by simp
qed simp

lemma finish_request_Ok_D:
  assumes "finish_request p = (RS_Ok, q)"
  shows "recv_data p \<noteq> []" "response q = recv_data p" "is_tcp q = is_tcp p" "raw_recv q = raw_recv p"
    "\<not> is_tcp p \<Longrightarrow> last_crc_ok p"
  using assms
  by (auto simp: finish_request_def WaitForResponse_def Let_def split: if_splits)

lemma NotifyAndWait_Ok_D:
  assumes "NotifyAndWaitForResponse dev vec (p, d) = (RS_Ok, q, d')" "vec \<noteq> []"
  obtains chunks tail where "dev d vec = (chunks, d')" "concat chunks = raw_recv q @ tail"
    "response q = delivered (ToTransport (is_tcp p)) (raw_recv q)" "is_tcp q = is_tcp p"
    "frame_crc_ok (ToTransport (is_tcp p)) (raw_recv q)" "5 \<le> length (raw_recv q)"
proof -
  obtain r where r: "OnDataSent (begin_request vec p) = (vec, r)" "raw_recv r = []"
    "recv_data r = []" "is_tcp r = is_tcp p"
    using OnDataSent_begin [OF assms(2)] by blast
  obtain chunks where dev: "dev d vec = (chunks, d')"
    and fin: "finish_request (fold OnUartDataReceived chunks r) = (RS_Ok, q)"
    using assms(1) r by (auto simp: NotifyAndWaitForResponse_def Let_def split: prod.splits)
  let ?s = "fold OnUartDataReceived chunks r"
  have "recv_inv ?s" using r by (intro fold_OnUartDataReceived_inv) (simp add: recv_inv_def)
  moreover have "raw_prefix (concat chunks) ?s"
    using raw_prefix_fold [of "[]" r chunks] r by (simp add: raw_prefix_def)
  ultimately show thesis
    using finish_request_Ok_D [OF fin] r dev that
    by (auto simp: recv_inv_def raw_prefix_def Let_def frame_crc_ok_def)
qed

lemma delivered_answers_raw:
  assumes "answers tr False tid (delivered tr f) pdu" "frame_crc_ok tr f" "5 \<le> length f"
  shows "\<exists>t. f = wrap_response tr True t pdu \<and> (tr = Tcp \<longrightarrow> tid = None \<or> tid = Some t)"
proof (cases tr)
  case Rtu
  from assms(3) obtain g l h where f: "f = g @ [l, h]" by (elim list_last2E [rotated]) auto
  with assms Rtu show ?thesis
    by (auto simp: answers_def delivered_def frame_crc_ok_def wrap_response_def AppendCrc_def
        Let_def nth_append)
next
  case Tcp
  with assms show ?thesis by (auto simp: answers_def delivered_def wrap_response_def)
qed

lemma pr_ok_registers:
  "pr_ok (ParseReadRegistersResponse tr f u fc n crc tid) \<Longrightarrow>
   ParseReadRegistersResponse tr f u fc n crc tid =
     parse_ok (pr_payload (ParseReadRegistersResponse tr f u fc n crc tid))"
  by (auto simp: pr_ok_def ParseReadRegistersResponse_def Let_def dest: response_head_not_None
      split: sum.splits)

lemma ReadRegister_Inr_D:
  assumes "ReadRegister fc dev u off n (p, d) = (Inr regs, q, d')"
  shows "\<exists>chunks t tail tr. tr = ToTransport (is_tcp p) \<and>
     dev d (wrap_response tr True (sequence_id p) (request_pdu u fc off n)) = (chunks, d') \<and>
     concat chunks = wrap_response tr True t (registers_pdu u fc regs) @ tail \<and>
     (is_tcp p \<longrightarrow> t = sequence_id p) \<and> length regs = unat n"
proof -
  let ?tr = "ToTransport (is_tcp p)"
  define p1 where "p1 = snd (ConsumeSequenceId p)"
  have p1: "ConsumeSequenceId p = (sequence_id p, p1)" "is_tcp p1 = is_tcp p"
    by (simp_all add: p1_def ConsumeSequenceId_def)
  let ?req = "wrap_response ?tr True (sequence_id p) (request_pdu u fc off n)"
  have range: "IsValidReadRange off n 125"
    using assms p1
    by (rule_tac ccontr) (auto simp: ReadRegister_def SendReadRequest_def BuildReadRequest_def fr_ok_def)
  have req: "?req \<noteq> []" by (simp add: wrap_response_def u16_bytes_def AppendCrc_def Let_def)
  obtain r where wait: "NotifyAndWaitForResponse dev ?req (p1, d) = (RS_Ok, r, d')"
    and parse: "pr_ok (ParseReadRegistersResponse (ToTransport (is_tcp r)) (response r) u fc n
        False (TransactionOf r ?req))"
    and regs: "regs = pr_payload (ParseReadRegistersResponse (ToTransport (is_tcp r)) (response r)
        u fc n False (TransactionOf r ?req))"
    using assms p1
    by (auto simp: ReadRegister_def SendReadRequest_def BuildReadRequest_wraps [OF range] fr_ok_def
        SendAndAwait_def finish_parse_def Let_def split: prod.splits if_splits)
  obtain chunks tail where c: "dev d ?req = (chunks, d')" "concat chunks = raw_recv r @ tail"
    "response r = delivered ?tr (raw_recv r)" "is_tcp r = is_tcp p"
    "frame_crc_ok ?tr (raw_recv r)" "5 \<le> length (raw_recv r)"
    using NotifyAndWait_Ok_D [OF wait req] p1 by metis
  have tid: "TransactionOf r ?req = (if is_tcp p then Some (sequence_id p) else None)"
    using TransactionOf_wrap [of r "sequence_id p"] c(4) by simp
  have "ParseReadRegistersResponse ?tr (response r) u fc n False (TransactionOf r ?req) =
      parse_ok regs"
    using parse regs c(4) pr_ok_registers by metis
  then have a: "answers ?tr False (TransactionOf r ?req) (delivered ?tr (raw_recv r))
      (registers_pdu u fc regs)" and len: "length regs = unat n"
    by (simp_all add: ParseReadRegistersResponse_iff c(3))
  from delivered_answers_raw [OF a c(5,6)] c(1,2) len tid show ?thesis by fastforce
qed

section \<open>Writes\<close>

lemma pr_ok_write:
  "pr_ok (ParseWriteResponse tr f u fc off v crc tid) \<Longrightarrow>
   ParseWriteResponse tr f u fc off v crc tid = parse_ok ()"
  by (auto simp: pr_ok_def ParseWriteResponse_def Let_def dest: response_head_not_None
      split: sum.splits)

lemma WriteHoldingRegister_Inr_D:
  assumes "WriteHoldingRegister dev u off n buf (p, d) = (Inr frame, q, d')"
  shows "\<exists>chunks t tail tr. tr = ToTransport (is_tcp p) \<and>
     frame = wrap_response tr True (sequence_id p) (write_request_pdu u off buf) \<and>
     dev d frame = (chunks, d') \<and>
     concat chunks = wrap_response tr True t
       (write_pdu u (if n = 1 then 6 else 16) off (if n = 1 then hd buf else n)) @ tail \<and>
     (is_tcp p \<longrightarrow> t = sequence_id p) \<and> length buf = unat n"
proof -
  let ?tr = "ToTransport (is_tcp p)"
  define p1 where "p1 = snd (ConsumeSequenceId p)"
  have p1: "ConsumeSequenceId p = (sequence_id p, p1)" "is_tcp p1 = is_tcp p"
    by (simp_all add: p1_def ConsumeSequenceId_def)
  let ?req = "wrap_response ?tr True (sequence_id p) (write_request_pdu u off buf)"
  have len: "length buf = unat n" using assms by (rule_tac ccontr) (simp add: WriteHoldingRegister_def)
  have range: "buf \<noteq> []" "length buf \<le> 123" "unat off + length buf \<le> 0x10000"
    using assms p1 len
    by (auto simp: WriteHoldingRegister_def BuildWriteRegistersRequest_def fr_ok_def
        split: if_splits)
  have req: "?req \<noteq> []" by (simp add: wrap_response_def u16_bytes_def AppendCrc_def Let_def)
  have hd: "buf ! 0 = hd buf" using range(1) by (simp add: hd_conv_nth)
  let ?fc = "if n = 1 then 6 else 16 :: u8" and ?v = "if n = 1 then hd buf else n"
  let ?parse = "\<lambda>r tid. ParseWriteResponse (ToTransport (is_tcp r)) (response r) u ?fc off ?v False tid"
  have unfold: "WriteHoldingRegister dev u off n buf (p, d) =
      (case SendAndAwait dev ?req (p1, d) of
         (Inl e, s') \<Rightarrow> (Inl e, s')
       | (Inr tid, r, d') \<Rightarrow>
           if pr_ok (?parse r tid) then (Inr ?req, r\<lparr>response := []\<rparr>, d')
           else (Inl (ToModbusError (pr_error (?parse r tid))), r\<lparr>response := []\<rparr>, d'))"
  proof -
    obtain x r2 d2 where "SendAndAwait dev ?req (p1, d) = (x, r2, d2)" by (metis prod_cases3)
    with len p1 hd show ?thesis
      by (cases x) (simp_all add: WriteHoldingRegister_def BuildWriteRegistersRequest_wraps [OF range]
          fr_ok_def finish_parse_def Let_def)
  qed
  obtain r tid where sa: "SendAndAwait dev ?req (p1, d) = (Inr tid, r, d')"
    and parse: "pr_ok (?parse r tid)" and frame: "frame = ?req"
    using assms unfolding unfold by (auto split: prod.splits sum.splits if_splits)
  have wait: "NotifyAndWaitForResponse dev ?req (p1, d) = (RS_Ok, r, d')"
    and tid': "tid = TransactionOf r ?req"
    using sa by (auto simp: SendAndAwait_def Let_def split: prod.splits if_splits)
  note parse = parse [unfolded tid']
  obtain chunks tail where c: "dev d ?req = (chunks, d')" "concat chunks = raw_recv r @ tail"
    "response r = delivered ?tr (raw_recv r)" "is_tcp r = is_tcp p"
    "frame_crc_ok ?tr (raw_recv r)" "5 \<le> length (raw_recv r)"
    using NotifyAndWait_Ok_D [OF wait req] p1 by metis
  have tid: "TransactionOf r ?req = (if is_tcp p then Some (sequence_id p) else None)"
    using TransactionOf_wrap [of r "sequence_id p"] c(4) by simp
  have "ParseWriteResponse ?tr (response r) u ?fc off ?v False (TransactionOf r ?req) = parse_ok ()"
    using pr_ok_write [OF parse] c(4) by simp
  then have a: "answers ?tr False (TransactionOf r ?req) (delivered ?tr (raw_recv r))
      (write_pdu u ?fc off ?v)"
    unfolding ParseWriteResponse_iff c(3) by blast
  from delivered_answers_raw [OF a c(5,6)] c(1,2) len tid frame show ?thesis by fastforce
qed

section \<open>Properties\<close>

text \<open>
  C1: a chunked holding register read against a slave returns exactly the slave's memory
  slice, whatever the transport, however the slave's answers are cut into chunks, with one
  request per 120 registers.
\<close>

theorem ReadHoldingRegisters_returns_memory:
  assumes "n \<noteq> 0" "unat off + unat n \<le> 65536"
  shows "\<exists>q. ReadHoldingRegisters (register_slave (ToTransport (is_tcp p)) sizes mem u) u off n
               (p, served) =
             (Inr (memory_slice (mem 3) off (unat n)), q, served + (unat n + 119) div 120)"
  using holding.ChunkedRead_ok [of "(p, served)" "is_tcp p" n off sizes mem u] assms
  by (auto simp: ReadHoldingRegisters_def)

theorem ReadHoldingRegisters_returns_memory_witness:
  "\<exists>q. ReadHoldingRegisters
         (register_slave (ToTransport (is_tcp (new_modbus_port True))) (\<lambda>_. [1, 7, 3])
            (\<lambda>fc a. a * 2 + ucast fc) 17) 17 65000 300 (new_modbus_port True, 0) =
       (Inr (memory_slice (\<lambda>a. a * 2 + 3) 65000 300), q, 3)"
  using ReadHoldingRegisters_returns_memory
    [of 300 65000 "new_modbus_port True" "\<lambda>_. [1, 7, 3]" "\<lambda>fc a. a * 2 + ucast fc" 17 0]
  by simp

text \<open>
  C2: whatever the device sends, a register read that succeeds has put its own request on
  the wire and received, as the first bytes of the answer, a frame with a valid CRC (or
  MBAP header with the request's transaction id) that carries exactly the returned
  registers for the unit, function and count asked for.
\<close>

theorem ReadRegister_only_genuine_answers:
  assumes "ReadRegister fc dev u off n (p, d) = (Inr regs, q, d')"
  shows "\<exists>chunks t tail tr. tr = ToTransport (is_tcp p) \<and>
     dev d (wrap_response tr True (sequence_id p) (request_pdu u fc off n)) = (chunks, d') \<and>
     concat chunks = wrap_response tr True t (registers_pdu u fc regs) @ tail \<and>
     (is_tcp p \<longrightarrow> t = sequence_id p) \<and> length regs = unat n"
  using assms by (rule ReadRegister_Inr_D)

theorem ReadRegister_only_genuine_answers_witness:
  "\<exists>chunks t tail.
     register_slave Rtu (\<lambda>_. [2]) (\<lambda>fc a. a) 9 0
       (wrap_response Rtu True 0 (request_pdu 9 4 100 2)) = (chunks, 1) \<and>
     concat chunks = wrap_response Rtu True t (registers_pdu 9 4 [100, 101]) @ tail"
proof -
  have r: "IsValidReadRange 100 2 125" by (simp add: IsValidReadRange_def)
  have m: "memory_slice (\<lambda>a. a) (100 :: u16) 2 = [100, 101]"
    by (simp add: memory_slice_def upt_rec)
  obtain q where "ReadRegister 4 (register_slave Rtu (\<lambda>_. [2]) (\<lambda>fc a. a) 9) 9 100 2
      (new_modbus_port False, 0) = (Inr [100, 101], q, 1)"
    using ReadRegister_slave [of 4 100 2 "new_modbus_port False" "\<lambda>_. [2]" "\<lambda>fc a. a" 9 0] r
    by (auto simp: m new_modbus_port_def ToTransport_def)
  from ReadRegister_only_genuine_answers [OF this] show ?thesis
    by (auto simp: new_modbus_port_def ToTransport_def)
qed

text \<open>
  C3: a register write that succeeds has sent exactly the frame for the given values and
  received the device's echo of the offset and the value (or count) it wrote.
\<close>

theorem WriteHoldingRegister_only_echoed:
  assumes "WriteHoldingRegister dev u off n buf (p, d) = (Inr frame, q, d')"
  shows "\<exists>chunks t tail tr. tr = ToTransport (is_tcp p) \<and>
     frame = wrap_response tr True (sequence_id p) (write_request_pdu u off buf) \<and>
     dev d frame = (chunks, d') \<and>
     concat chunks = wrap_response tr True t
       (write_pdu u (if n = 1 then 6 else 16) off (if n = 1 then hd buf else n)) @ tail \<and>
     (is_tcp p \<longrightarrow> t = sequence_id p) \<and> length buf = unat n"
  using assms by (rule WriteHoldingRegister_Inr_D)

theorem WriteHoldingRegister_only_echoed_witness:
  "\<exists>chunks t tail.
     (\<lambda>(d :: unit) f. ([f], d)) () (wrap_response Rtu True 0 (write_request_pdu 3 10 [77])) =
       (chunks, ()) \<and>
     concat chunks = wrap_response Rtu True t (write_pdu 3 6 10 77) @ tail"
proof -
  let ?p = "new_modbus_port False"
  let ?f = "wrap_response Rtu True 0 (write_request_pdu 3 10 [77])"
  have std: "standard_pdu (write_request_pdu 3 10 [77])"
      "write_request_pdu 3 10 [77] = write_pdu 3 6 10 77"
    by (simp_all add: write_request_pdu_def request_pdu_def write_pdu_def standard_pdu_def u16_bytes_def)
  have nb: "\<not> bit (write_request_pdu 3 10 [77] ! 1) 7"
    by (simp add: write_request_pdu_def request_pdu_def)
  obtain q where q: "NotifyAndWaitForResponse (\<lambda>d f. ([f], d)) ?f (?p, ()) = (RS_Ok, q, ())"
    "response q = wrap_response Rtu False 0 (write_request_pdu 3 10 [77])" "\<not> is_tcp q"
    using exchange_ok [of ?f "\<lambda>d f. ([f], d)" "()" "[?f]" "()" ?p 0 "write_request_pdu 3 10 [77]"]
      std(1) nb
    by (auto simp: answer_of_def new_modbus_port_def ToTransport_def wrap_response_def AppendCrc_def Let_def)
  have "ParseWriteResponse Rtu (response q) 3 6 10 77 False None = parse_ok ()"
    unfolding ParseWriteResponse_iff q(2) std(2)
    by (auto simp: answers_def write_pdu_def u16_bytes_def)
  then have "\<exists>q. WriteHoldingRegister (\<lambda>d f. ([f], d)) 3 10 1 [77] (?p, ()) = (Inr ?f, q, ())"
    using q BuildWriteRegistersRequest_wraps [of "[77]" 10 Rtu 0 3]
    by (auto simp: WriteHoldingRegister_def ConsumeSequenceId_def new_modbus_port_def ToTransport_def
        SendAndAwait_def finish_parse_def fr_ok_def pr_ok_def TransactionOf_def Let_def)
  then obtain q where "WriteHoldingRegister (\<lambda>d f. ([f], d)) 3 10 1 [77] (?p, ()) = (Inr ?f, q, ())" ..
  from WriteHoldingRegister_only_echoed [OF this] show ?thesis
    by (auto simp: new_modbus_port_def ToTransport_def)
qed

text \<open>
  a chunked read never returns part of what was asked for: whatever the single reads
  return, a successful result has exactly the requested number of registers.
\<close>

theorem ChunkedRead_all_or_nothing:
  "fst (ChunkedRead read_one off n s) = Inr regs \<Longrightarrow> length regs = unat n"
  by (metis ChunkedRead_length prod.collapse)

theorem ChunkedRead_all_or_nothing_witness:
  "length (replicate 130 (7 :: u16)) = unat (130 :: u16)"
proof (rule ChunkedRead_all_or_nothing)
  show "fst (ChunkedRead (\<lambda>off n (s :: unit). (Inr (replicate (unat n) 7), s)) 5 130 ()) =
      Inr (replicate 130 7)"
    by (simp add: ChunkedRead_def chunked_loop.simps kMaxRegistersPerRequest_def unat_word_of_nat_u16
        flip: replicate_add)
qed

end
