(* ===== verification/ModbusGrouping.thy ===== *)
theory ModbusGrouping
  imports ModbusReads ModbusTypes "HOL-Library.Product_Lexorder"
begin

text \<open>
  Grouped reads of the register tables.  Source: \<open>src/ModbusRegisterGrouping.hpp\<close>.  The
  lemmas: the ranges built cover exactly the registers of the selected items and are
  separated by gaps, so no register is read twice and no two ranges could be one; a grouped
  read over a reader that returns memory returns memory for every covered register.
\<close>

section \<open>Ranges\<close>

record register_range =
  rr_offset :: nat
  rr_count :: nat

text \<open>The merge loop over the sorted pairs, from the range that is open.\<close>

fun merge_ranges :: "nat \<Rightarrow> nat \<Rightarrow> (nat \<times> nat) list \<Rightarrow> register_range list" where
  "merge_ranges start stop [] = [\<lparr>rr_offset = start, rr_count = stop - start\<rparr>]"
| "merge_ranges start stop ((next_start, sz) # rest) =
     (let next_end = next_start + sz
      in if next_start \<le> stop then merge_ranges start (max stop next_end) rest
         else \<lparr>rr_offset = start, rr_count = stop - start\<rparr> # merge_ranges next_start next_end rest)"

definition item_selected :: "u32 \<Rightarrow> modbus_item \<Rightarrow> bool" where
  "item_selected branch item \<longleftrightarrow> mi_branches item AND branch \<noteq> 0 \<and> GetSize item \<noteq> 0"

definition BuildContiguousModbusRegisterRanges ::
  "modbus_item list \<Rightarrow> u32 \<Rightarrow> register_range list" where
  "BuildContiguousModbusRegisterRanges items branch =
     (let ranges = map (\<lambda>item. (mi_offset item, GetSize item)) (filter (item_selected branch) items)
      in case sort ranges of
           [] \<Rightarrow> []
         | (first, sz) # rest \<Rightarrow> merge_ranges first (first + sz) rest)"

section \<open>Grouped reads\<close>

record 'v grouped_result =
  gr_values :: "nat \<Rightarrow> 'v option"
  gr_read_count :: nat
  gr_failed_read_count :: nat

definition empty_result :: "'v grouped_result" where
  "empty_result = \<lparr>gr_values = (\<lambda>_. None), gr_read_count = 0, gr_failed_read_count = 0\<rparr>"

text \<open>\<open>for i < count: values[offset + i] = vs[i]\<close>.\<close>

fun put_values :: "nat \<Rightarrow> 'v list \<Rightarrow> (nat \<Rightarrow> 'v option) \<Rightarrow> nat \<Rightarrow> 'v option" where
  "put_values offset [] m = m"
| "put_values offset (v # vs) m = put_values (Suc offset) vs (m(offset \<mapsto> v))"

type_synonym ('v, 's) table_read = "u16 \<Rightarrow> u16 \<Rightarrow> 's \<Rightarrow> (modbus_error + 'v list) \<times> 's"

definition range_unreadable :: "u16 \<Rightarrow> register_range \<Rightarrow> bool" where
  "range_unreadable base r \<longleftrightarrow> rr_offset r > 65535 - unat base \<or> rr_count r > 65535"

fun grouped_registers_loop ::
  "register_range list \<Rightarrow> (u16, 's) table_read \<Rightarrow> u16 \<Rightarrow> u16 grouped_result \<Rightarrow> 's \<Rightarrow>
   u16 grouped_result option \<times> 's" where
  "grouped_registers_loop [] read_registers base result s = (Some result, s)"
| "grouped_registers_loop (r # rs) read_registers base result s =
     (if range_unreadable base r then (None, s)
      else case read_registers (base + word_of_nat (rr_offset r)) (word_of_nat (rr_count r)) s of
        (registers, s') \<Rightarrow>
          let result = result\<lparr>gr_read_count := gr_read_count result + 1\<rparr>
          in case registers of
               Inr regs \<Rightarrow>
                 if length regs < rr_count r
                 then grouped_registers_loop rs read_registers base
                        (result\<lparr>gr_failed_read_count := gr_failed_read_count result + 1\<rparr>) s'
                 else grouped_registers_loop rs read_registers base
                        (result\<lparr>gr_values := put_values (rr_offset r) (take (rr_count r) regs)
                                               (gr_values result)\<rparr>) s'
             | Inl _ \<Rightarrow>
                 grouped_registers_loop rs read_registers base
                   (result\<lparr>gr_failed_read_count := gr_failed_read_count result + 1\<rparr>) s')"

definition ReadGroupedModbusRegisters ::
  "modbus_item list \<Rightarrow> u32 \<Rightarrow> (u16, 's) table_read \<Rightarrow> u16 \<Rightarrow> 's \<Rightarrow> u16 grouped_result option \<times> 's" where
  "ReadGroupedModbusRegisters items branch read_registers base s =
     grouped_registers_loop (BuildContiguousModbusRegisterRanges items branch) read_registers base
       empty_result s"

text \<open>\<open>(packed[i / 8] >> (i % 8)) & 1\<close> for every bit of a range.\<close>

definition unpack_range :: "nat \<Rightarrow> bytes \<Rightarrow> u8 list" where
  "unpack_range n packed = map (\<lambda>i. drop_bit (i mod 8) (packed ! (i div 8)) AND 1) [0..<n]"

fun grouped_bits_loop ::
  "register_range list \<Rightarrow> (u8, 's) table_read \<Rightarrow> u16 \<Rightarrow> u8 grouped_result \<Rightarrow> 's \<Rightarrow>
   u8 grouped_result option \<times> 's" where
  "grouped_bits_loop [] read_bits base result s = (Some result, s)"
| "grouped_bits_loop (r # rs) read_bits base result s =
     (if range_unreadable base r
      then grouped_bits_loop rs read_bits base
             (result\<lparr>gr_failed_read_count := gr_failed_read_count result + 1\<rparr>) s
      else case read_bits (base + word_of_nat (rr_offset r)) (word_of_nat (rr_count r)) s of
        (packed, s') \<Rightarrow>
          let result = result\<lparr>gr_read_count := gr_read_count result + 1\<rparr>
          in case packed of
               Inr bs \<Rightarrow>
                 if length bs < (rr_count r + 7) div 8 then (None, s')
                 else grouped_bits_loop rs read_bits base
                        (result\<lparr>gr_values := put_values (rr_offset r) (unpack_range (rr_count r) bs)
                                               (gr_values result)\<rparr>) s'
             | Inl _ \<Rightarrow> (None, s'))"

definition ReadGroupedModbusBits ::
  "modbus_item list \<Rightarrow> u32 \<Rightarrow> (u8, 's) table_read \<Rightarrow> u16 \<Rightarrow> 's \<Rightarrow> u8 grouped_result option \<times> 's" where
  "ReadGroupedModbusBits items branch read_bits base s =
     grouped_bits_loop (BuildContiguousModbusRegisterRanges items branch) read_bits base
       empty_result s"

section \<open>What the ranges cover\<close>

definition range_set :: "register_range \<Rightarrow> nat set" where
  "range_set r = {rr_offset r ..< rr_offset r + rr_count r}"

definition item_registers :: "modbus_item \<Rightarrow> nat set" where
  "item_registers item = {mi_offset item ..< mi_offset item + GetSize item}"

definition separated :: "register_range list \<Rightarrow> bool" where
  "separated rs \<longleftrightarrow> successively (\<lambda>a b. rr_offset a + rr_count a < rr_offset b) rs"

lemma merge_ranges_nonempty [simp]: "merge_ranges start stop ps \<noteq> []"
  by (induction start stop ps rule: merge_ranges.induct) (simp_all add: Let_def)

lemma merge_ranges_hd: "rr_offset (hd (merge_ranges start stop ps)) = start"
  by (induction start stop ps rule: merge_ranges.induct) (simp_all add: Let_def)

lemma merge_ranges_cover:
  "start \<le> stop \<Longrightarrow> sorted (map fst ps) \<Longrightarrow> (\<And>p. p \<in> set ps \<Longrightarrow> start \<le> fst p) \<Longrightarrow>
   \<Union> (range_set ` set (merge_ranges start stop ps)) =
     {start ..< stop} \<union> (\<Union>(s, n) \<in> set ps. {s ..< s + n})"
proof (induction start stop ps rule: merge_ranges.induct)
  case (1 start stop)
  then show ?case by (simp add: range_set_def)
next
  case (2 start stop s n rest)
  show ?case
  proof (cases "s \<le> stop")
    case True
    have "{start ..< max stop (s + n)} = {start ..< stop} \<union> {s ..< s + n}"
      using True 2(3) 2(5) [of "(s, n)"] by auto
    with True 2 show ?thesis by (auto simp: Let_def)
  next
    case False
    have "\<Union> (range_set ` set (merge_ranges s (s + n) rest)) =
        {s ..< s + n} \<union> (\<Union>(s, n) \<in> set rest. {s ..< s + n})"
      using False 2(4) by (intro 2(2)) auto
    with False 2(3) show ?thesis by (simp add: Let_def range_set_def Un_assoc)
  qed
qed

lemma merge_ranges_separated:
  "sorted (map fst ps) \<Longrightarrow> start \<le> stop \<Longrightarrow> (\<And>p. p \<in> set ps \<Longrightarrow> start \<le> fst p) \<Longrightarrow>
   separated (merge_ranges start stop ps)"
proof (induction start stop ps rule: merge_ranges.induct)
  case (1 start stop)
  then show ?case by (simp add: separated_def)
next
  case (2 start stop s n rest)
  show ?case
  proof (cases "s \<le> stop")
    case True
    with 2 show ?thesis by (auto simp: Let_def)
  next
    case False
    then have "separated (merge_ranges s (s + n) rest)" using 2 by auto
    moreover have "rr_offset (hd (merge_ranges s (s + n) rest)) = s" by (rule merge_ranges_hd)
    ultimately show ?thesis
      using False 2(4) by (simp add: Let_def separated_def successively_Cons)
  qed
qed

lemma merge_ranges_pos:
  "start < stop \<Longrightarrow> (\<And>p. p \<in> set ps \<Longrightarrow> 0 < snd p) \<Longrightarrow>
   r \<in> set (merge_ranges start stop ps) \<Longrightarrow> 0 < rr_count r"
  by (induction start stop ps rule: merge_ranges.induct) (fastforce simp: Let_def split: if_splits)+

lemma sorted_pairs_fst: "sorted (ps :: (nat \<times> nat) list) \<Longrightarrow> sorted (map fst ps)"
  by (induction ps) (auto simp: less_eq_prod_def less_imp_le)

lemma ranges_cases:
  obtains (none) "filter (item_selected branch) items = []"
      "BuildContiguousModbusRegisterRanges items branch = []"
  | (some) first sz rest
    where "sort (map (\<lambda>item. (mi_offset item, GetSize item)) (filter (item_selected branch) items)) =
            (first, sz) # rest"
      "BuildContiguousModbusRegisterRanges items branch = merge_ranges first (first + sz) rest"
      "sorted (map fst rest)" "\<And>p. p \<in> set rest \<Longrightarrow> first \<le> fst p" "0 < sz"
      "\<And>p. p \<in> set rest \<Longrightarrow> 0 < snd p"
proof -
  let ?ps = "map (\<lambda>item. (mi_offset item, GetSize item)) (filter (item_selected branch) items)"
  show thesis
  proof (cases "sort ?ps")
    case Nil
    then have "?ps = []" by (metis length_0_conv length_sort)
    with none Nil show thesis by (auto simp: BuildContiguousModbusRegisterRanges_def)
  next
    case (Cons p rest)
    obtain first sz where p: "p = (first, sz)" by (cases p)
    have "sorted (p # rest)" by (metis Cons sorted_sort)
    then have s: "sorted (map fst rest)" "\<And>q. q \<in> set rest \<Longrightarrow> first \<le> fst q"
      using sorted_pairs_fst [of "p # rest"] by (auto simp: p)
    have "0 < snd q" if "q \<in> set (p # rest)" for q
    proof -
      have "q \<in> set ?ps" using that arg_cong [OF Cons, of set] by (simp only: set_sort)
      then show ?thesis by (auto simp: item_selected_def)
    qed
    note pos = this
    show thesis
    proof (rule some)
      show "sort ?ps = (first, sz) # rest" by (simp only: Cons p)
      then show "BuildContiguousModbusRegisterRanges items branch = merge_ranges first (first + sz) rest"
        by (simp add: BuildContiguousModbusRegisterRanges_def)
      show "0 < sz" using pos [of p] by (simp add: p)
      show "sorted (map fst rest)" by (rule s(1))
      show "first \<le> fst q" if "q \<in> set rest" for q using that by (rule s(2))
      show "0 < snd q" if "q \<in> set rest" for q using that by (intro pos) simp
    qed
  qed
qed

lemma ranges_cover:
  "\<Union> (range_set ` set (BuildContiguousModbusRegisterRanges items branch)) =
   (\<Union>item \<in> set (filter (item_selected branch) items). item_registers item)"
proof (cases rule: ranges_cases [of branch items])
  case none
  then show ?thesis by (simp only:) simp
next
  case (some first sz rest)
  have "\<Union> (range_set ` set (merge_ranges first (first + sz) rest)) =
      {first ..< first + sz} \<union> (\<Union>(s, n) \<in> set rest. {s ..< s + n})"
    using some by (intro merge_ranges_cover) auto
  also have "\<dots> = (\<Union>(s, n) \<in> set ((first, sz) # rest). {s ..< s + n})" by simp
  also have "\<dots> = (\<Union>(s, n) \<in> (\<lambda>item. (mi_offset item, GetSize item)) `
      set (filter (item_selected branch) items). {s ..< s + n})"
  proof -
    have "set ((first, sz) # rest) = (\<lambda>item. (mi_offset item, GetSize item)) `
        set (filter (item_selected branch) items)"
      using arg_cong [OF some(1), of set] by simp
    then show ?thesis by (simp only:)
  qed
  also have "\<dots> = (\<Union>item \<in> set (filter (item_selected branch) items). item_registers item)"
    by (simp add: item_registers_def)
  finally show ?thesis by (simp only: some(2))
qed

lemma ranges_separated: "separated (BuildContiguousModbusRegisterRanges items branch)"
  by (cases rule: ranges_cases [of branch items])
     (simp_all add: separated_def [of "[]"] merge_ranges_separated)

lemma ranges_pos: "r \<in> set (BuildContiguousModbusRegisterRanges items branch) \<Longrightarrow> 0 < rr_count r"
  by (cases rule: ranges_cases [of branch items]) (auto dest: merge_ranges_pos [rotated -1])

section \<open>Grouped reads of a memory\<close>

lemma put_values_apply:
  "put_values off vs m a = (if off \<le> a \<and> a < off + length vs then Some (vs ! (a - off)) else m a)"
  by (induction vs arbitrary: off m) (auto simp: nth_Cons' Suc_le_eq not_less)

lemma memory_slice_nth [simp]: "i < n \<Longrightarrow> memory_slice mem off n ! i = mem (off + word_of_nat i)"
  by (simp add: memory_slice_def)

definition memory_view :: "(u16 \<Rightarrow> u16) \<Rightarrow> u16 \<Rightarrow> nat set \<Rightarrow> nat \<Rightarrow> u16 option" where
  "memory_view mem base A a = (if a \<in> A then Some (mem (base + word_of_nat a)) else None)"

lemma put_values_memory:
  "put_values (rr_offset r) (memory_slice mem (base + word_of_nat (rr_offset r)) (rr_count r)) m a =
   (if a \<in> range_set r then Some (mem (base + word_of_nat a)) else m a)"
proof -
  have "word_of_nat (rr_offset r) + word_of_nat (a - rr_offset r) = (word_of_nat a :: u16)"
    if "rr_offset r \<le> a" using that by (simp flip: of_nat_add)
  then show ?thesis
    by (auto simp: put_values_apply range_set_def add.assoc)
qed

definition range_readable :: "u16 \<Rightarrow> register_range \<Rightarrow> bool" where
  "range_readable base r \<longleftrightarrow>
     0 < rr_count r \<and> rr_count r \<le> 65535 \<and> unat base + rr_offset r + rr_count r \<le> 65536"

lemma range_readable_args:
  assumes "range_readable base r"
  shows "\<not> range_unreadable base r" "unat (word_of_nat (rr_count r) :: u16) = rr_count r"
    "unat (base + word_of_nat (rr_offset r)) = unat base + rr_offset r"
    "word_of_nat (rr_count r) \<noteq> (0 :: u16)"
proof -
  show "\<not> range_unreadable base r"
    using assms unat_u16_less [of base] by (auto simp: range_readable_def range_unreadable_def)
  show c: "unat (word_of_nat (rr_count r) :: u16) = rr_count r"
    using assms by (simp add: range_readable_def unat_word_of_nat_u16)
  have "rr_offset r < 65536" "unat base + rr_offset r < 65536"
    using assms by (auto simp: range_readable_def)
  then show "unat (base + word_of_nat (rr_offset r)) = unat base + rr_offset r"
    by (subst unat_plus_if') (simp add: unat_word_of_nat_u16)
  show "word_of_nat (rr_count r) \<noteq> (0 :: u16)"
    using c assms by (auto simp: range_readable_def)
qed

text \<open>A reader of a whole table: any number of registers at once.\<close>

locale table_reader =
  fixes read_table :: "u16 \<Rightarrow> u16 \<Rightarrow> 's \<Rightarrow> (modbus_error + u16 list) \<times> 's"
    and mem :: "u16 \<Rightarrow> u16"
    and inv :: "'s \<Rightarrow> bool"
  assumes read_table_ok:
    "inv s \<Longrightarrow> n \<noteq> 0 \<Longrightarrow> unat off + unat n \<le> 65536 \<Longrightarrow>
     \<exists>s'. read_table off n s = (Inr (memory_slice mem off (unat n)), s') \<and> inv s'"
begin

lemma grouped_loop_ok:
  "inv s \<Longrightarrow> \<forall>r \<in> set rs. range_readable base r \<Longrightarrow>
   \<exists>s' result'. grouped_registers_loop rs read_table base result s = (Some result', s') \<and> inv s' \<and>
     gr_values result' = (\<lambda>a. if a \<in> \<Union> (range_set ` set rs) then Some (mem (base + word_of_nat a))
                              else gr_values result a) \<and>
     gr_read_count result' = gr_read_count result + length rs \<and>
     gr_failed_read_count result' = gr_failed_read_count result"
proof (induction rs arbitrary: result s)
  case Nil
  then show ?case by simp
next
  case (Cons r rs)
  have r: "range_readable base r" using Cons.prems by simp
  note args = range_readable_args [OF r]
  let ?off = "base + word_of_nat (rr_offset r)" and ?n = "word_of_nat (rr_count r)"
  let ?slice = "memory_slice mem ?off (rr_count r)"
  obtain s1 where s1: "read_table ?off ?n s = (Inr ?slice, s1)" "inv s1"
    using read_table_ok [OF Cons.prems(1) args(4), of ?off] args r by (auto simp: range_readable_def)
  let ?res = "result\<lparr>gr_read_count := gr_read_count result + 1,
                      gr_values := put_values (rr_offset r) ?slice (gr_values result)\<rparr>"
  have "grouped_registers_loop (r # rs) read_table base result s =
      grouped_registers_loop rs read_table base ?res s1"
    using s1 args(1) by simp
  moreover obtain s' result' where "grouped_registers_loop rs read_table base ?res s1 = (Some result', s')"
    "inv s'" "gr_values result' = (\<lambda>a. if a \<in> \<Union> (range_set ` set rs)
        then Some (mem (base + word_of_nat a)) else gr_values ?res a)"
    "gr_read_count result' = gr_read_count ?res + length rs"
    "gr_failed_read_count result' = gr_failed_read_count ?res"
    using Cons.IH [OF s1(2), of ?res] Cons.prems(2) by auto
  ultimately show ?case by (auto simp: put_values_memory)
qed

lemma ReadGrouped_ok:
  assumes "inv s" "\<forall>r \<in> set (BuildContiguousModbusRegisterRanges items branch). range_readable base r"
  shows "\<exists>s' result. ReadGroupedModbusRegisters items branch read_table base s = (Some result, s') \<and>
     inv s' \<and>
     gr_values result = memory_view mem base
       (\<Union>item \<in> set (filter (item_selected branch) items). item_registers item) \<and>
     gr_read_count result = length (BuildContiguousModbusRegisterRanges items branch) \<and>
     gr_failed_read_count result = 0"
proof -
  let ?rs = "BuildContiguousModbusRegisterRanges items branch" and ?e = "empty_result :: u16 grouped_result"
  have "\<exists>s' result. ReadGroupedModbusRegisters items branch read_table base s = (Some result, s') \<and>
     inv s' \<and>
     gr_values result = (\<lambda>a. if a \<in> \<Union> (range_set ` set ?rs) then Some (mem (base + word_of_nat a))
                              else gr_values ?e a) \<and>
     gr_read_count result = gr_read_count ?e + length ?rs \<and>
     gr_failed_read_count result = gr_failed_read_count ?e"
    unfolding ReadGroupedModbusRegisters_def by (rule grouped_loop_ok [OF assms])
  then show ?thesis
    unfolding ranges_cover memory_view_def [abs_def] by (simp add: empty_result_def cong: if_cong)
qed

end

sublocale register_reader \<subseteq> tables: table_reader "ChunkedRead read_one" mem inv
  by unfold_locales (use ChunkedRead_ok in blast)

text \<open>When every selected item ends within the address space, every range can be read.\<close>

lemma range_set_Un:
  "r \<in> set (BuildContiguousModbusRegisterRanges items branch) \<Longrightarrow>
   range_set r \<subseteq> (\<Union>item \<in> set (filter (item_selected branch) items). item_registers item)"
  by (simp only: ranges_cover [symmetric]) blast

lemma ranges_readable:
  assumes "\<And>item. item \<in> set items \<Longrightarrow> item_selected branch item \<Longrightarrow>
      unat base + mi_offset item + GetSize item \<le> 65535"
    and r: "r \<in> set (BuildContiguousModbusRegisterRanges items branch)"
  shows "range_readable base r"
proof -
  have pos: "0 < rr_count r" by (rule ranges_pos [OF r])
  then have "rr_offset r + rr_count r - 1 \<in> range_set r" by (auto simp: range_set_def)
  then obtain item where "item \<in> set items" "item_selected branch item"
    "rr_offset r + rr_count r - 1 \<in> item_registers item"
    using range_set_Un [OF r] by auto
  with assms(1) [of item] pos show ?thesis by (auto simp: item_registers_def range_readable_def)
qed

section \<open>Properties\<close>

text \<open>
  C8: the ranges a grouped read asks for cover exactly the registers of the items of the
  branch, are non-empty and lie apart by at least one register, so no register is asked for
  twice and no two requests could have been one.
\<close>

theorem BuildContiguousModbusRegisterRanges_spec:
  "\<Union> (range_set ` set (BuildContiguousModbusRegisterRanges items branch)) =
     (\<Union>item \<in> set (filter (item_selected branch) items). item_registers item) \<and>
   successively (\<lambda>a b. rr_offset a + rr_count a < rr_offset b)
     (BuildContiguousModbusRegisterRanges items branch) \<and>
   (\<forall>r. r \<in> set (BuildContiguousModbusRegisterRanges items branch) \<longrightarrow> 0 < rr_count r)"
  using ranges_cover [of items branch] ranges_separated [of items branch] ranges_pos
  unfolding separated_def by blast

theorem BuildContiguousModbusRegisterRanges_spec_witness:
  "\<Union> (range_set ` set (BuildContiguousModbusRegisterRanges
      [(new_item ''a'' 0 8 MBT_FLOAT MVF_DEC '''' 0 0 5 BO_Default)\<lparr>mi_branches := 1\<rparr>] 1)) = {8, 9}"
proof -
  let ?item = "(new_item ''a'' 0 8 MBT_FLOAT MVF_DEC '''' 0 0 5 BO_Default)\<lparr>mi_branches := 1\<rparr>"
  have "item_selected 1 ?item" "item_registers ?item = {8, 9}"
    by (auto simp: item_selected_def item_registers_def GetSize_def new_item_def)
  then show ?thesis
    using BuildContiguousModbusRegisterRanges_spec [of "[?item]" 1] by simp
qed

end
