(* ===== verification/ModbusBuffers.thy ===== *)
theory ModbusBuffers
  imports ModbusPort ModbusTypes
begin

text \<open>
  The buffers between the Modbus worker and the user interface: the queue of register
  edits (\<open>src/ModbusWriteQueue.hpp\<close>), the set of rows to redraw
  (\<open>src/PendingModbusRowUpdates.hpp\<close>) and the recording buffer with its cursors
  (\<open>src/ModbusFrameLog.hpp\<close>, \<open>.cpp\<close>).  Each operation of these classes runs under the
  class's own lock, so an interleaving of threads is a sequence of operations.

  The lemmas: the queue hands every edit on exactly once and in order; the row set returns
  exactly the rows added since it was last taken; a view that follows the recording buffer
  through a cursor shows exactly the buffer after every take, whatever was appended,
  trimmed or cleared in between.
\<close>

section \<open>The write queue\<close>

datatype modbus_write =
    ModbusCoilWrite nat bool | ModbusHoldingWrite nat u64
  | ModbusFloatWrite nat u32 | ModbusDoubleWrite nat u64

type_synonym write_queue = "modbus_write list"

definition queue_Push :: "modbus_write \<Rightarrow> write_queue \<Rightarrow> write_queue" where
  "queue_Push w q = q @ [w]"

definition queue_Drain :: "write_queue \<Rightarrow> modbus_write list \<times> write_queue" where
  "queue_Drain q = (q, [])"

definition queue_Clear :: "write_queue \<Rightarrow> write_queue" where
  "queue_Clear q = []"

definition queue_Empty :: "write_queue \<Rightarrow> bool" where
  "queue_Empty q \<longleftrightarrow> q = []"

definition queue_Size :: "write_queue \<Rightarrow> nat" where
  "queue_Size q = length q"

text \<open>The contract of a hand-over queue, and what a client sees over many calls.\<close>

locale handover_queue =
  fixes push :: "'a \<Rightarrow> 'q \<Rightarrow> 'q"
    and drain :: "'q \<Rightarrow> 'a list \<times> 'q"
    and contents :: "'q \<Rightarrow> 'a list"
  assumes push_contents: "contents (push x q) = contents q @ [x]"
    and drain_contents: "fst (drain q) = contents q" "contents (snd (drain q)) = []"
begin

text \<open>A history of pushes (\<open>Some\<close>) and drains (\<open>None\<close>): everything drained, and the queue.\<close>

fun run :: "'a option list \<Rightarrow> 'q \<Rightarrow> 'a list \<times> 'q" where
  "run [] q = ([], q)"
| "run (Some x # h) q = run h (push x q)"
| "run (None # h) q = (let (xs, q') = drain q; (ys, q'') = run h q' in (xs @ ys, q''))"

lemma run_conserves:
  "fst (run h q) @ contents (snd (run h q)) = contents q @ List.map_filter id h"
proof (induction h q rule: run.induct)
  case (3 h q)
  obtain xs q' where d: "drain q = (xs, q')" by (cases "drain q")
  have "xs = contents q" "contents q' = []" using drain_contents [of q] by (simp_all add: d)
  then show ?case using 3 [OF d [symmetric] refl]
    by (simp add: d split_beta map_filter_simps)
qed (simp_all add: push_contents map_filter_simps)

end

interpretation write_queue: handover_queue queue_Push queue_Drain "\<lambda>q. q"
  by unfold_locales (simp_all add: queue_Push_def queue_Drain_def)

section \<open>Pending rows\<close>

type_synonym row_updates = "bool list"

definition no_rows :: row_updates where
  "no_rows = replicate 256 False"

definition rows_Add :: "u8 list \<Rightarrow> row_updates \<Rightarrow> row_updates" where
  "rows_Add rows m = fold (\<lambda>row m. m[unat row := True]) rows m"

definition rows_Take :: "row_updates \<Rightarrow> u8 list \<times> row_updates" where
  "rows_Take m =
     (map word_of_nat (filter (\<lambda>row. m ! row) [0..<length m]), map (\<lambda>_. False) m)"

definition rows_Clear :: "row_updates \<Rightarrow> row_updates" where
  "rows_Clear m = map (\<lambda>_. False) m"

definition rows_inv :: "row_updates \<Rightarrow> bool" where
  "rows_inv m \<longleftrightarrow> length m = 256"

lemma rows_Add_length [simp]: "length (rows_Add rows m) = length m"
  unfolding rows_Add_def by (induction rows arbitrary: m) simp_all

lemma nth_update_True: "i < length m \<Longrightarrow> m[k := True] ! i \<longleftrightarrow> k = i \<or> m ! i"
  by (cases "k = i") simp_all

lemma rows_Add_nth:
  "i < length m \<Longrightarrow> rows_Add rows m ! i \<longleftrightarrow> m ! i \<or> (\<exists>r \<in> set rows. unat r = i)"
  unfolding rows_Add_def
  by (induction rows arbitrary: m) (auto simp: nth_update_True)

lemma rows_Take_set:
  assumes "rows_inv m"
  shows "set (fst (rows_Take m)) = {r. m ! unat r}"
proof -
  have "r \<in> set (fst (rows_Take m))" if "m ! unat r" for r :: u8
    using that assms unat_u8_less [of r] unfolding rows_Take_def rows_inv_def
    by (auto simp: image_iff intro!: exI [of _ "unat r"])
  moreover have "m ! unat r" if "r \<in> set (fst (rows_Take m))" for r
    using that assms unfolding rows_Take_def rows_inv_def
    by (auto simp: unat_of_nat take_bit_eq_mod)
  ultimately show ?thesis by blast
qed

lemma rows_Take_Add:
  assumes "rows_inv m"
  shows "set (fst (rows_Take (rows_Add rows m))) = set (fst (rows_Take m)) \<union> set rows"
proof -
  have inv: "rows_inv (rows_Add rows m)" using assms by (simp add: rows_inv_def)
  have "rows_Add rows m ! unat r \<longleftrightarrow> m ! unat r \<or> r \<in> set rows" for r :: u8
  proof -
    have "unat r < length m" using assms unat_u8_less [of r] by (simp add: rows_inv_def)
    moreover have "(\<exists>x \<in> set rows. unat x = unat r) \<longleftrightarrow> r \<in> set rows"
      by (metis word_unat_eq_iff)
    ultimately show ?thesis by (simp add: rows_Add_nth)
  qed
  then show ?thesis unfolding rows_Take_set [OF inv] rows_Take_set [OF assms] by auto
qed

lemma rows_Take_distinct:
  assumes "rows_inv m"
  shows "distinct (fst (rows_Take m))"
proof -
  have "inj_on (word_of_nat :: nat \<Rightarrow> u8) {0..<256}"
    by (rule inj_on_inverseI [where g = unat]) (simp add: unat_of_nat)
  then have "inj_on (word_of_nat :: nat \<Rightarrow> u8) (set (filter (\<lambda>row. m ! row) [0..<length m]))"
    using assms by (rule_tac inj_on_subset) (auto simp: rows_inv_def)
  then show ?thesis unfolding rows_Take_def by (simp add: distinct_map del: set_filter)
qed

lemma rows_Take_empties: "fst (rows_Take (snd (rows_Take m))) = []"
  by (simp add: rows_Take_def filter_empty_conv)

section \<open>The recording buffer\<close>

record log_entry =
  le_direction :: log_direction
  le_fcode :: u8
  le_error_type :: modbus_error_type
  le_data :: bytes
  le_time :: int

record event_entry =
  ev_data :: "u16 list"
  ev_time :: int

record log_cursor =
  lc_index :: nat
  lc_generation :: u64

record 'e log_slice =
  ls_entries :: "'e list"
  ls_restarted :: bool

record frame_log =
  fl_frames :: "log_entry list"
  fl_events :: "event_entry list"
  fl_frames_generation :: u64
  fl_events_generation :: u64
  fl_max_entries :: nat
  fl_recording :: bool

definition new_frame_log :: frame_log where
  "new_frame_log =
     \<lparr>fl_frames = [], fl_events = [], fl_frames_generation = 0, fl_events_generation = 0,
      fl_max_entries = 30000, fl_recording = False\<rparr>"

definition log_Append ::
  "int \<Rightarrow> log_direction \<Rightarrow> u8 \<Rightarrow> modbus_error_type \<Rightarrow> bytes \<Rightarrow> frame_log \<Rightarrow> frame_log" where
  "log_Append now direction fcode error data l =
     l\<lparr>fl_frames := fl_frames l @
        [\<lparr>le_direction = direction, le_fcode = fcode, le_error_type = error, le_data = data,
          le_time = now\<rparr>]\<rparr>"

definition log_AppendEvent :: "int \<Rightarrow> u16 list \<Rightarrow> frame_log \<Rightarrow> frame_log" where
  "log_AppendEvent now data l =
     l\<lparr>fl_events := fl_events l @ [\<lparr>ev_data = data, ev_time = now\<rparr>]\<rparr>"

definition log_TrimIfFull :: "frame_log \<Rightarrow> frame_log" where
  "log_TrimIfFull l =
     (if length (fl_frames l) \<ge> fl_max_entries l
      then l\<lparr>fl_frames := [], fl_frames_generation := fl_frames_generation l + 1\<rparr> else l)"

definition log_Clear :: "frame_log \<Rightarrow> frame_log" where
  "log_Clear l = l\<lparr>fl_frames := [], fl_frames_generation := fl_frames_generation l + 1\<rparr>"

definition log_SetRecording :: "bool \<Rightarrow> frame_log \<Rightarrow> frame_log" where
  "log_SetRecording b l = l\<lparr>fl_recording := b\<rparr>"

definition log_SetMaxEntries :: "nat \<Rightarrow> frame_log \<Rightarrow> frame_log" where
  "log_SetMaxEntries n l = l\<lparr>fl_max_entries := n\<rparr>"

definition TakeSince :: "'e list \<Rightarrow> u64 \<Rightarrow> log_cursor \<Rightarrow> 'e log_slice \<times> log_cursor" where
  "TakeSince source generation cursor =
     (let restarted = (lc_generation cursor \<noteq> generation);
          cursor = (if restarted then \<lparr>lc_index = 0, lc_generation = generation\<rparr> else cursor)
      in (\<lparr>ls_entries = drop (lc_index cursor) source, ls_restarted = restarted\<rparr>,
          cursor\<lparr>lc_index := length source\<rparr>))"

definition TakeFramesSince :: "frame_log \<Rightarrow> log_cursor \<Rightarrow> log_entry log_slice \<times> log_cursor" where
  "TakeFramesSince l = TakeSince (fl_frames l) (fl_frames_generation l)"

definition TakeEventsSince :: "frame_log \<Rightarrow> log_cursor \<Rightarrow> event_entry log_slice \<times> log_cursor" where
  "TakeEventsSince l = TakeSince (fl_events l) (fl_events_generation l)"

definition FrameCount :: "frame_log \<Rightarrow> nat" where
  "FrameCount l = length (fl_frames l)"

definition EventCount :: "frame_log \<Rightarrow> nat" where
  "EventCount l = length (fl_events l)"

section \<open>A view over a buffer\<close>

text \<open>How a view uses a sl, and the operations that can happen to the log between takes.\<close>

definition show_slice :: "'e log_slice \<Rightarrow> 'e list \<Rightarrow> 'e list" where
  "show_slice sl shown = (if ls_restarted sl then ls_entries sl else shown @ ls_entries sl)"

datatype log_op =
    OpAppend int log_direction u8 modbus_error_type bytes
  | OpAppendEvent int "u16 list"
  | OpTrim | OpClear | OpSetRecording bool | OpSetMax nat

fun log_step :: "log_op \<Rightarrow> frame_log \<Rightarrow> frame_log" where
  "log_step (OpAppend t d f e bs) l = log_Append t d f e bs l"
| "log_step (OpAppendEvent t ws) l = log_AppendEvent t ws l"
| "log_step OpTrim l = log_TrimIfFull l"
| "log_step OpClear l = log_Clear l"
| "log_step (OpSetRecording b) l = log_SetRecording b l"
| "log_step (OpSetMax n) l = log_SetMaxEntries n l"

text \<open>A buffer with a generation: it only grows, unless its generation moves on.\<close>

locale generational_buffer =
  fixes entries :: "'l \<Rightarrow> 'e list"
    and generation :: "'l \<Rightarrow> u64"
    and step :: "'op \<Rightarrow> 'l \<Rightarrow> 'l"
  assumes grows_or_restarts:
    "(generation (step op l) = generation l \<and> (\<exists>es. entries (step op l) = entries l @ es)) \<or>
     generation (step op l) = generation l + 1"
begin

lemma steps_generation:
  "\<exists>k \<le> length ops. generation (fold step ops l) = generation l + word_of_nat k \<and>
     (k = 0 \<longrightarrow> (\<exists>es. entries (fold step ops l) = entries l @ es))"
proof (induction ops arbitrary: l)
  case Nil
  then show ?case by simp
next
  case (Cons op ops)
  obtain k where k: "k \<le> length ops"
    "generation (fold step ops (step op l)) = generation (step op l) + word_of_nat k"
    "k = 0 \<longrightarrow> (\<exists>es. entries (fold step ops (step op l)) = entries (step op l) @ es)"
    using Cons.IH by blast
  show ?case
  proof (cases "generation (step op l) = generation l \<and> (\<exists>es. entries (step op l) = entries l @ es)")
    case True
    with k show ?thesis by (intro exI [of _ k]) auto
  next
    case False
    then have "generation (step op l) = generation l + 1" using grows_or_restarts by blast
    with k show ?thesis by (intro exI [of _ "Suc k"]) (simp add: algebra_simps)
  qed
qed

lemma take_in_sync:
  assumes "lc_generation cursor = generation l" "lc_index cursor = length (entries l)"
    "shown = entries l" "length ops < 2 ^ 64"
  defines "l' \<equiv> fold step ops l"
  shows "\<exists>sl cursor'. TakeSince (entries l') (generation l') cursor = (sl, cursor') \<and>
     show_slice sl shown = entries l' \<and>
     lc_generation cursor' = generation l' \<and> lc_index cursor' = length (entries l')"
proof -
  obtain k where k: "k \<le> length ops" "generation l' = generation l + word_of_nat k"
    "k = 0 \<longrightarrow> (\<exists>es. entries l' = entries l @ es)"
    using steps_generation [of ops l] unfolding l'_def by blast
  have "word_of_nat k = (0 :: u64) \<longleftrightarrow> k = 0"
  proof
    assume "word_of_nat k = (0 :: u64)"
    then have "2 ^ 64 dvd k" by (simp add: word_of_nat_eq_0_iff)
    then show "k = 0" using k(1) assms(4) by (metis dvd_imp_le less_le_trans not_gr_zero not_less)
  qed simp
  then have "generation l' = generation l \<longleftrightarrow> k = 0" using k(2) by simp
  with k assms(1-3) show ?thesis
    by (auto simp: TakeSince_def show_slice_def Let_def)
qed

end

interpretation frames: generational_buffer fl_frames fl_frames_generation log_step
proof
  fix op l
  show "(fl_frames_generation (log_step op l) = fl_frames_generation l \<and>
         (\<exists>es. fl_frames (log_step op l) = fl_frames l @ es)) \<or>
        fl_frames_generation (log_step op l) = fl_frames_generation l + 1"
    by (cases op) (auto simp: log_Append_def log_AppendEvent_def log_TrimIfFull_def log_Clear_def
        log_SetRecording_def log_SetMaxEntries_def)
qed

interpretation events: generational_buffer fl_events fl_events_generation log_step
proof
  fix op l
  show "(fl_events_generation (log_step op l) = fl_events_generation l \<and>
         (\<exists>es. fl_events (log_step op l) = fl_events l @ es)) \<or>
        fl_events_generation (log_step op l) = fl_events_generation l + 1"
    by (cases op) (auto simp: log_Append_def log_AppendEvent_def log_TrimIfFull_def log_Clear_def
        log_SetRecording_def log_SetMaxEntries_def)
qed

section \<open>Properties\<close>

text \<open>
  C10: a view that is in step with the frame recording and takes the entries since its
  cursor shows exactly the recording afterwards, and is in step again, whatever sequence of
  appends, trims, clears and setting changes (fewer than \<open>2 ^ 64\<close>) happened in between.
\<close>

theorem frame_view_follows_recording:
  assumes "lc_generation cursor = fl_frames_generation l" "lc_index cursor = length (fl_frames l)"
    "shown = fl_frames l" "length ops < 2 ^ 64"
  shows "\<exists>sl cursor'. TakeFramesSince (fold log_step ops l) cursor = (sl, cursor') \<and>
     show_slice sl shown = fl_frames (fold log_step ops l) \<and>
     lc_generation cursor' = fl_frames_generation (fold log_step ops l) \<and>
     lc_index cursor' = length (fl_frames (fold log_step ops l))"
  unfolding TakeFramesSince_def by (rule frames.take_in_sync [OF assms])

theorem frame_view_follows_recording_witness:
  "\<exists>sl cursor'.
     TakeFramesSince (fold log_step [OpAppend 3 Dir_TX 3 MB_ERR_OK [1, 2], OpClear,
       OpAppend 5 Dir_RX 3 MB_ERR_OK [7]] new_frame_log) \<lparr>lc_index = 0, lc_generation = 0\<rparr> =
       (sl, cursor') \<and>
     map le_data (show_slice sl []) = [[7]]"
  using frame_view_follows_recording [of "\<lparr>lc_index = 0, lc_generation = 0\<rparr>" new_frame_log "[]"
      "[OpAppend 3 Dir_TX 3 MB_ERR_OK [1, 2], OpClear, OpAppend 5 Dir_RX 3 MB_ERR_OK [7]]"]
  by (auto simp: new_frame_log_def log_Append_def log_Clear_def)

text \<open>
  over any interleaving of pushes and drains of the write queue, what the drains
  returned followed by what is still queued is exactly what was pushed, in order: no edit is
  lost, duplicated or reordered.
\<close>

theorem write_queue_conserves_edits:
  "fst (write_queue.run h []) @ snd (write_queue.run h []) = List.map_filter id h"
  using write_queue.run_conserves [of h "[]"] by simp

text \<open>
  The pending rows: a take returns every row added since the last take or clear, once
  each, and leaves nothing pending.
\<close>

theorem rows_Take_exact:
  assumes "rows_inv m"
  shows "set (fst (rows_Take (rows_Add rows m))) = set (fst (rows_Take m)) \<union> set rows \<and>
    distinct (fst (rows_Take (rows_Add rows m))) \<and>
    fst (rows_Take (snd (rows_Take (rows_Add rows m)))) = []"
proof -
  have "rows_inv (rows_Add rows m)" using assms by (simp add: rows_inv_def)
  then show ?thesis
    using rows_Take_Add [OF assms] rows_Take_distinct rows_Take_empties by blast
qed

theorem rows_Take_exact_witness:
  "set (fst (rows_Take (rows_Add [200, 3, 200] no_rows))) = {3, 200}"
proof -
  have "fst (rows_Take no_rows) = []"
    by (simp add: rows_Take_def no_rows_def filter_empty_conv)
  then show ?thesis
    using rows_Take_exact [of no_rows "[200, 3, 200]"] by (auto simp: rows_inv_def no_rows_def)
qed

end
