(* ===== verification/ModbusHandler.thy ===== *)
theory ModbusHandler
  imports ModbusGrouping ModbusBuffers
begin

text \<open>
  The polling handler.  Source: \<open>src/ModbusHandler.cpp\<close> and \<open>.hpp\<close>.  The handler's state is
  its layout, counters, write queue, recording buffer and the row changes reported to the
  observer; the port and the device behind it are threaded through every operation that
  talks to the wire.  The worker thread's loop body is \<open>worker_pass\<close>; sleeping, the
  condition variable and the opening of the connection are not modelled.
\<close>

section \<open>State\<close>

datatype table = Coils | InputStatus | Holding | Input

record 'd handler =
  h_layout :: device_layout
  h_used_branch :: u16
  h_tx :: nat
  h_rx :: nat
  h_err :: nat
  h_queue :: write_queue
  h_log :: frame_log
  h_changes :: "(table \<times> u8 list) list"
  h_port :: modbus_port
  h_device :: 'd

definition TableRef :: "table \<Rightarrow> device_layout \<Rightarrow> modbus_item list" where
  "TableRef t l = (case t of Coils \<Rightarrow> coils l | InputStatus \<Rightarrow> inputStatus l
                   | Holding \<Rightarrow> holding l | Input \<Rightarrow> inputs l)"

definition set_table :: "table \<Rightarrow> modbus_item list \<Rightarrow> 'd handler \<Rightarrow> 'd handler" where
  "set_table t items h =
     h\<lparr>h_layout := (case t of Coils \<Rightarrow> (h_layout h)\<lparr>coils := items\<rparr>
        | InputStatus \<Rightarrow> (h_layout h)\<lparr>inputStatus := items\<rparr>
        | Holding \<Rightarrow> (h_layout h)\<lparr>holding := items\<rparr>
        | Input \<Rightarrow> (h_layout h)\<lparr>inputs := items\<rparr>)\<rparr>"

definition SetRegisterCount :: "table \<Rightarrow> nat \<Rightarrow> 'd handler \<Rightarrow> 'd handler" where
  "SetRegisterCount t n h =
     (let c = counts (h_layout h);
          c = (case t of Coils \<Rightarrow> c\<lparr>cnt_coils := n\<rparr> | InputStatus \<Rightarrow> c\<lparr>cnt_inputStatus := n\<rparr>
               | Holding \<Rightarrow> c\<lparr>cnt_holdingRegisters := n\<rparr> | Input \<Rightarrow> c\<lparr>cnt_inputRegisters := n\<rparr>)
      in h\<lparr>h_layout := (h_layout h)\<lparr>counts := c\<rparr>\<rparr>)"

definition ItemCount :: "table \<Rightarrow> 'd handler \<Rightarrow> nat" where
  "ItemCount t h = length (TableRef t (h_layout h))"

definition SetSlaveId :: "u8 \<Rightarrow> 'd handler \<Rightarrow> 'd handler" where
  "SetSlaveId u h = h\<lparr>h_layout := (h_layout h)\<lparr>slaveId := u\<rparr>\<rparr>"

definition EditCoil :: "nat \<Rightarrow> bool \<Rightarrow> 'd handler \<Rightarrow> 'd handler" where
  "EditCoil i v h = h\<lparr>h_queue := queue_Push (ModbusCoilWrite i v) (h_queue h)\<rparr>"

definition EditHolding :: "nat \<Rightarrow> u64 \<Rightarrow> 'd handler \<Rightarrow> 'd handler" where
  "EditHolding i v h = h\<lparr>h_queue := queue_Push (ModbusHoldingWrite i v) (h_queue h)\<rparr>"

definition EditHoldingFloat :: "nat \<Rightarrow> u32 \<Rightarrow> 'd handler \<Rightarrow> 'd handler" where
  "EditHoldingFloat i v h = h\<lparr>h_queue := queue_Push (ModbusFloatWrite i v) (h_queue h)\<rparr>"

definition EditHoldingDouble :: "nat \<Rightarrow> u64 \<Rightarrow> 'd handler \<Rightarrow> 'd handler" where
  "EditHoldingDouble i v h = h\<lparr>h_queue := queue_Push (ModbusDoubleWrite i v) (h_queue h)\<rparr>"

definition StartRecording :: "'d handler \<Rightarrow> 'd handler" where
  "StartRecording h = h\<lparr>h_log := log_SetRecording True (h_log h)\<rparr>"

definition PauseRecording :: "'d handler \<Rightarrow> 'd handler" where
  "PauseRecording h = h\<lparr>h_log := log_SetRecording False (h_log h)\<rparr>"

definition ClearRecording :: "'d handler \<Rightarrow> 'd handler" where
  "ClearRecording h = h\<lparr>h_tx := 0, h_rx := 0, h_err := 0, h_log := log_Clear (h_log h)\<rparr>"

definition StopRecording :: "'d handler \<Rightarrow> 'd handler" where
  "StopRecording h =
     h\<lparr>h_tx := 0, h_rx := 0, h_err := 0, h_log := log_Clear (log_SetRecording False (h_log h))\<rparr>"

text \<open>\<open>ChangeDevice\<close> once the loader has produced the new layout (or failed to).\<close>

definition ChangeDevice_layout :: "device_layout option \<Rightarrow> 'd handler \<Rightarrow> bool \<times> 'd handler" where
  "ChangeDevice_layout layout h =
     (case layout of
        None \<Rightarrow> (False, h)
      | Some l \<Rightarrow> (True, h\<lparr>h_layout := l, h_queue := queue_Clear (h_queue h)\<rparr>))"

definition gModbusBranches :: "(u32 \<times> string) list" where
  "gModbusBranches = [(0, ''unknown''), (1, ''default''), (2, ''branch_1''), (4, ''branch_2'')]"

definition getBranchNameByID :: "u32 \<Rightarrow> string" where
  "getBranchNameByID i =
     (case map_of gModbusBranches i of Some n \<Rightarrow> n | None \<Rightarrow> the (map_of gModbusBranches 0))"

definition getBranchIDByName :: "string \<Rightarrow> u32" where
  "getBranchIDByName name =
     (case find (\<lambda>p. snd p = name) gModbusBranches of Some p \<Rightarrow> fst p | None \<Rightarrow> 0)"

section \<open>Applying what was read\<close>

text \<open>Rows with an index above 255 change without being reported.\<close>

definition changed_row :: "nat \<Rightarrow> bool \<Rightarrow> u8 list" where
  "changed_row index changed = (if changed \<and> index \<le> 255 then [word_of_nat index] else [])"

fun update_items ::
  "(modbus_item \<Rightarrow> bool \<times> modbus_item) \<Rightarrow> nat \<Rightarrow> modbus_item list \<Rightarrow> u8 list \<times> modbus_item list" where
  "update_items f index [] = ([], [])"
| "update_items f index (item # items) =
     (let (changed, item') = f item; (rows, items') = update_items f (Suc index) items
      in (changed_row index changed @ rows, item' # items'))"

definition queue_value_changes :: "table \<Rightarrow> u8 list \<Rightarrow> 'd handler \<Rightarrow> 'd handler" where
  "queue_value_changes t rows h =
     (if rows = [] then h else h\<lparr>h_changes := h_changes h @ [(t, rows)]\<rparr>)"

definition in_branch :: "u16 \<Rightarrow> modbus_item \<Rightarrow> bool" where
  "in_branch branch item \<longleftrightarrow> mi_branches item AND ucast branch \<noteq> 0"

definition store_value ::
  "(register_value \<Rightarrow> bool \<times> register_value) \<Rightarrow> modbus_item \<Rightarrow> bool \<times> modbus_item" where
  "store_value set_value item =
     (let (changed, v) = set_value (mi_value item) in (changed, item\<lparr>mi_value := v\<rparr>))"

definition bool_item :: "u16 \<Rightarrow> (nat \<Rightarrow> u8 option) \<Rightarrow> modbus_item \<Rightarrow> bool \<times> modbus_item" where
  "bool_item branch reg item =
     (if \<not> in_branch branch item then (False, item)
      else case reg (mi_offset item) of
             None \<Rightarrow> (False, item)
           | Some v \<Rightarrow> store_value (SetInteger (ucast v)) item)"

definition HandleBoolReadingByOffset :: "(nat \<Rightarrow> u8 option) \<Rightarrow> table \<Rightarrow> 'd handler \<Rightarrow> 'd handler" where
  "HandleBoolReadingByOffset reg t h =
     (let (rows, items) = update_items (bool_item (h_used_branch h) reg) 0 (TableRef t (h_layout h))
      in queue_value_changes t rows (set_table t items h))"

text \<open>The words of a value, or nothing when one of them was not read.\<close>

definition read_words :: "(nat \<Rightarrow> u16 option) \<Rightarrow> nat \<Rightarrow> nat \<Rightarrow> u16 list option" where
  "read_words reg offset n = those (map (\<lambda>i. reg (offset + i)) [0..<n])"

definition decode_item :: "modbus_item \<Rightarrow> u16 list \<Rightarrow> register_value \<Rightarrow> bool \<times> register_value" where
  "decode_item item words =
     (let traits = traits_of (mi_type item); order = mi_byte_order item; w = (\<lambda>i. words ! i)
      in if is_floating traits then
           (if register_count traits = 2
            then SetFloat (DecodeModbusRegister32 (w 0) (w 1) order)
            else SetDouble (DecodeModbusRegister64 (w 0) (w 1) (w 2) (w 3) order))
         else SetInteger
           (if register_count traits = 1 then ucast (DecodeModbusRegister16 (w 0) order)
            else if register_count traits = 2 then ucast (DecodeModbusRegister32 (w 0) (w 1) order)
            else DecodeModbusRegister64 (w 0) (w 1) (w 2) (w 3) order))"

definition register_item :: "u16 \<Rightarrow> (nat \<Rightarrow> u16 option) \<Rightarrow> modbus_item \<Rightarrow> bool \<times> modbus_item" where
  "register_item branch reg item =
     (if \<not> in_branch branch item then (False, item)
      else if reg (mi_offset item) = None then (False, item)
      else if mi_type item = MBT_STRING \<or> mi_type item = MBT_INVALID then (False, item)
      else case read_words reg (mi_offset item) (register_count (traits_of (mi_type item))) of
             None \<Rightarrow> (False, item)
           | Some words \<Rightarrow> store_value (decode_item item words) item)"

definition HandleRegisterReadingByOffset ::
  "(nat \<Rightarrow> u16 option) \<Rightarrow> table \<Rightarrow> 'd handler \<Rightarrow> 'd handler" where
  "HandleRegisterReadingByOffset reg t h =
     (let (rows, items) = update_items (register_item (h_used_branch h) reg) 0 (TableRef t (h_layout h))
      in queue_value_changes t rows (set_table t items h))"

section \<open>Polling\<close>

definition wire :: "'d handler \<Rightarrow> modbus_port \<times> 'd" where
  "wire h = (h_port h, h_device h)"

definition set_wire :: "modbus_port \<times> 'd \<Rightarrow> 'd handler \<Rightarrow> 'd handler" where
  "set_wire s h = h\<lparr>h_port := fst s, h_device := snd s\<rparr>"

definition CountPolledFrames :: "'v grouped_result \<Rightarrow> 'd handler \<Rightarrow> 'd handler" where
  "CountPolledFrames r h =
     h\<lparr>h_tx := h_tx h + gr_read_count r,
       h_rx := h_rx h + (gr_read_count r - gr_failed_read_count r),
       h_err := h_err h + gr_failed_read_count r\<rparr>"

definition ReadBitGroups :: "'d device \<Rightarrow> bool \<Rightarrow> 'd handler \<Rightarrow> u8 grouped_result option \<times> 'd handler" where
  "ReadBitGroups dev input_status h =
     (let l = h_layout h; t = (if input_status then InputStatus else Coils);
          base = (if input_status then inputStatusOffset (counts l) else coilsOffset (counts l));
          rd = (if input_status then ReadInputStatus dev (slaveId l) else ReadCoilStatus dev (slaveId l));
          (result, s) = ReadGroupedModbusBits (TableRef t l) (ucast (h_used_branch h)) rd base (wire h)
      in (result, set_wire s h))"

definition ReadRegisterGroups :: "'d device \<Rightarrow> table \<Rightarrow> 'd handler \<Rightarrow> u16 grouped_result option \<times> 'd handler" where
  "ReadRegisterGroups dev t h =
     (let l = h_layout h;
          base = (if t = Holding then holdingOffset (counts l) else inputOffset (counts l));
          rd = (if t = Holding then ReadHoldingRegisters dev (slaveId l)
                else ReadInputRegisters dev (slaveId l));
          (result, s) = ReadGroupedModbusRegisters (TableRef t l) (ucast (h_used_branch h)) rd base (wire h)
      in (result, set_wire s h))"

definition PollBitTable :: "'d device \<Rightarrow> bool \<Rightarrow> 'd handler \<Rightarrow> 'd handler" where
  "PollBitTable dev input_status h =
     (let t = (if input_status then InputStatus else Coils)
      in if TableRef t (h_layout h) = [] then h
         else case ReadBitGroups dev input_status h of
                (None, h) \<Rightarrow> h
              | (Some result, h) \<Rightarrow>
                  HandleBoolReadingByOffset (gr_values result) t (CountPolledFrames result h))"

definition PollRegisterTable :: "'d device \<Rightarrow> table \<Rightarrow> 'd handler \<Rightarrow> 'd handler" where
  "PollRegisterTable dev t h =
     (if TableRef t (h_layout h) = [] then h
      else case ReadRegisterGroups dev t h of
             (None, h) \<Rightarrow> h
           | (Some result, h) \<Rightarrow>
               HandleRegisterReadingByOffset (gr_values result) t (CountPolledFrames result h))"

definition HandlePolling :: "'d device \<Rightarrow> 'd handler \<Rightarrow> 'd handler" where
  "HandlePolling dev h =
     PollRegisterTable dev Input
       (PollRegisterTable dev Holding (PollBitTable dev True (PollBitTable dev False h)))"

section \<open>Writing\<close>

definition ResolveAddress :: "modbus_item \<Rightarrow> u16 \<Rightarrow> u16 option" where
  "ResolveAddress item table_offset =
     (let offset = (if mi_manual_address item \<ge> 0 then nat (mi_manual_address item) else mi_offset item)
      in if offset > 65535 - unat table_offset then None
         else Some (table_offset + word_of_nat offset))"

definition count_write :: "modbus_error + bytes \<Rightarrow> 'd handler \<Rightarrow> 'd handler" where
  "count_write reg h =
     (case reg of
        Inr frame \<Rightarrow> if frame \<noteq> [] then h\<lparr>h_tx := h_tx h + 1, h_rx := h_rx h + 1\<rparr>
                     else h\<lparr>h_err := h_err h + 1\<rparr>
      | Inl _ \<Rightarrow> h\<lparr>h_err := h_err h + 1\<rparr>)"

definition SendHoldingRegisters ::
  "'d device \<Rightarrow> modbus_item \<Rightarrow> u16 list \<Rightarrow> 'd handler \<Rightarrow> 'd handler" where
  "SendHoldingRegisters dev item values h =
     (case ResolveAddress item (holdingOffset (counts (h_layout h))) of
        None \<Rightarrow> h\<lparr>h_err := h_err h + 1\<rparr>
      | Some address \<Rightarrow>
          let (reg, s) = WriteHoldingRegister dev (slaveId (h_layout h)) address
                           (word_of_nat (length values)) values (wire h)
          in count_write reg (set_wire s h))"

fun ApplyWrite :: "'d device \<Rightarrow> modbus_write \<Rightarrow> 'd handler \<Rightarrow> 'd handler" where
  "ApplyWrite dev (ModbusCoilWrite i v) h =
     (if i \<ge> length (coils (h_layout h)) then h
      else case ResolveAddress (coils (h_layout h) ! i) (coilsOffset (counts (h_layout h))) of
             None \<Rightarrow> h\<lparr>h_err := h_err h + 1\<rparr>
           | Some address \<Rightarrow>
               let (reg, s) = ForceSingleCoil dev (slaveId (h_layout h)) address v (wire h)
               in count_write reg (set_wire s h))"
| "ApplyWrite dev (ModbusHoldingWrite i v) h =
     (if i \<ge> length (holding (h_layout h)) then h
      else let item = holding (h_layout h) ! i
           in SendHoldingRegisters dev item (EncodeModbusRegisterValue item v) h)"
| "ApplyWrite dev (ModbusFloatWrite i v) h =
     (if i \<ge> length (holding (h_layout h)) then h
      else let item = holding (h_layout h) ! i
           in SendHoldingRegisters dev item (EncodeModbusRegisterFloatValue item v) h)"
| "ApplyWrite dev (ModbusDoubleWrite i v) h =
     (if i \<ge> length (holding (h_layout h)) then h
      else let item = holding (h_layout h) ! i
           in SendHoldingRegisters dev item (EncodeModbusRegisterDoubleValue item v) h)"

definition HandleWrites :: "'d device \<Rightarrow> 'd handler \<Rightarrow> 'd handler" where
  "HandleWrites dev h =
     (let (drained, q) = queue_Drain (h_queue h)
      in fold (ApplyWrite dev) drained (h\<lparr>h_queue := q\<rparr>))"

text \<open>
  One pass of the worker on an open connection; it closes the connection (\<open>True\<close>) after too
  many timeouts in a row.
\<close>

definition worker_pass :: "'d device \<Rightarrow> 'd handler \<Rightarrow> bool \<times> 'd handler" where
  "worker_pass dev h =
     (let h = HandleWrites dev (HandlePolling dev h)
      in if timeout_packets (h_port h) > 15
         then (True, h\<lparr>h_port := ResetTimeoutPackets (h_port h)\<rparr>) else (False, h))"

section \<open>What polling stores\<close>

lemma update_items_snd [simp]: "snd (update_items f k items) = map (\<lambda>item. snd (f item)) items"
  by (induction items arbitrary: k) (simp_all add: split_beta Let_def)

lemma update_items_rows:
  "fst (update_items f k items) =
     concat (map (\<lambda>i. changed_row (k + i) (fst (f (items ! i)))) [0..<length items])"
proof (induction items arbitrary: k)
  case (Cons item items)
  have "[0..<length (item # items)] = 0 # map Suc [0..<length items]"
    by (simp add: upt_conv_Cons map_Suc_upt del: upt_Suc)
  with Cons show ?case by (simp add: split_beta Let_def comp_def del: upt_Suc)
qed simp

lemma those_map_Some: "(\<And>x. x \<in> set xs \<Longrightarrow> f x = Some (g x)) \<Longrightarrow> those (map f xs) = Some (map g xs)"
  by (induction xs) simp_all

lemma queue_value_changes_layout [simp]:
  "h_layout (queue_value_changes t rows h) = h_layout h"
  "h_port (queue_value_changes t rows h) = h_port h"
  "h_device (queue_value_changes t rows h) = h_device h"
  by (simp_all add: queue_value_changes_def)

lemma TableRef_set_table [simp]:
  "TableRef t (h_layout (set_table t items h)) = items"
  by (cases t) (simp_all add: TableRef_def set_table_def)

lemma table_after_registers:
  "TableRef t (h_layout (HandleRegisterReadingByOffset reg t h)) =
     map (\<lambda>item. snd (register_item (h_used_branch h) reg item)) (TableRef t (h_layout h))"
  by (simp add: HandleRegisterReadingByOffset_def split_beta Let_def)

text \<open>The value an item shows for the words of its registers.\<close>

definition shown_value :: "modbus_item \<Rightarrow> u16 list \<Rightarrow> register_value" where
  "shown_value item words = snd (decode_item item words (mi_value item))"

lemma register_item_value:
  assumes "in_branch branch item" "mi_type item \<noteq> MBT_STRING" "mi_type item \<noteq> MBT_INVALID"
    "\<And>i. i < GetTypeSize (mi_type item) \<Longrightarrow> reg (mi_offset item + i) = Some (w i)"
  shows "snd (register_item branch reg item) =
    item\<lparr>mi_value := shown_value item (map w [0..<GetTypeSize (mi_type item)])\<rparr>"
proof -
  have "0 < GetTypeSize (mi_type item)" by (rule GetTypeSize_pos)
  then have "reg (mi_offset item) = Some (w 0)" using assms(4) [of 0] by simp
  moreover have "read_words reg (mi_offset item) (GetTypeSize (mi_type item)) =
      Some (map w [0..<GetTypeSize (mi_type item)])"
    unfolding read_words_def by (rule those_map_Some) (simp add: assms(4))
  ultimately show ?thesis
    using assms(1-3)
    by (simp add: register_item_def store_value_def shown_value_def split_beta GetTypeSize_def Let_def
        del: traits_of_simps(1))
qed

end
