(* ===== verification/ModbusEndToEnd.thy ===== *)
theory ModbusEndToEnd
  imports ModbusHandler
begin

text \<open>
  The Modbus stack end to end: polling and editing against a slave whose memory is read and
  written over the wire.  The lemmas join the handler, the grouped and chunked reads, the
  port, the wire format and the codec: what a poll shows is what the slave holds, and an
  edit that is written and polled back shows the edited value.
\<close>

section \<open>A slave with writable memory\<close>

text \<open>Its state is the memory of holding registers and the number of requests answered.\<close>

type_synonym slave_state = "(u16 \<Rightarrow> u16) \<times> nat"

fun put_words :: "u16 \<Rightarrow> u16 list \<Rightarrow> (u16 \<Rightarrow> u16) \<Rightarrow> u16 \<Rightarrow> u16" where
  "put_words a [] mem = mem"
| "put_words a (w # ws) mem = put_words (a + 1) ws (mem(a := w))"

definition memory_slave ::
  "transport \<Rightarrow> (bytes \<Rightarrow> nat list) \<Rightarrow> u8 \<Rightarrow> slave_state device" where
  "memory_slave tr sizes u s f =
     (let (mem, served) = s; pdu = request_body tr f; fc = pdu ! 1;
          off = be16 (pdu ! 2) (pdu ! 3); n = be16 (pdu ! 4) (pdu ! 5);
          t = (if tr = Tcp then be16 (f ! 0) (f ! 1) else 0);
          reply = (\<lambda>answer. let frame = wrap_response tr True t answer in cut_by (sizes frame) frame)
      in if length pdu < 6 \<or> pdu ! 0 \<noteq> u then ([], s)
         else if fc = 3 then (reply (registers_pdu u fc (memory_slice mem off (unat n))), (mem, served + 1))
         else if fc = 6 then (reply (write_pdu u fc off n), (mem(off := n), served + 1))
         else if fc = 16 then (reply (write_pdu u fc off n),
                               (put_words off (words_of (drop 7 pdu)) mem, served + 1))
         else ([], s))"

lemma concat_reply [simp]: "concat (cut_by (sizes f) f) = f"
  by (rule concat_cut_by)

lemma wrap_tid:
  "be16 (wrap_response Tcp True t pdu ! 0) (wrap_response Tcp True t pdu ! Suc 0) = t"
  by (simp add: wrap_response_def u16_bytes_def)

lemma memory_slave_read:
  "\<exists>chunks. memory_slave tr sizes u (mem, d) (wrap_response tr True t (request_pdu u 3 off n)) =
     (chunks, mem, d + 1) \<and>
   concat chunks = wrap_response tr True (if tr = Tcp then t else 0)
     (registers_pdu u 3 (memory_slice mem off (unat n)))"
proof -
  have "length (request_pdu u 3 off n) = 6" "request_pdu u 3 off n ! 0 = u"
    "request_pdu u 3 off n ! 1 = 3"
    "be16 (request_pdu u 3 off n ! 2) (request_pdu u 3 off n ! 3) = off"
    "be16 (request_pdu u 3 off n ! 4) (request_pdu u 3 off n ! 5) = n"
    by (simp_all add: request_pdu_def u16_bytes_def)
  then show ?thesis by (simp add: memory_slave_def wrap_tid Let_def)
qed

lemma memory_slave_write:
  assumes "buf \<noteq> []" "length buf \<le> 123" "length buf = unat n"
  shows "\<exists>chunks. memory_slave tr sizes u (mem, d)
      (wrap_response tr True t (write_request_pdu u off buf)) = (chunks, put_words off buf mem, d + 1) \<and>
    concat chunks = wrap_response tr True (if tr = Tcp then t else 0)
      (write_pdu u (if n = 1 then 6 else 16) off (if n = 1 then hd buf else n))"
proof (cases "n = 1")
  case True
  then obtain w where buf: "buf = [w]" using assms(3) by (cases buf) auto
  let ?pdu = "request_pdu u 6 off w"
  have "length ?pdu = 6" "?pdu ! 0 = u" "?pdu ! 1 = 6"
    "be16 (?pdu ! 2) (?pdu ! 3) = off" "be16 (?pdu ! 4) (?pdu ! 5) = w"
    by (simp_all add: request_pdu_def u16_bytes_def)
  then show ?thesis
    using True buf by (simp add: memory_slave_def write_request_pdu_def wrap_tid Let_def)
next
  case False
  then have "length buf \<noteq> 1" using assms(3) by (metis unsigned_1 word_unat_eq_iff)
  moreover have "word_of_nat (length buf) = n" using assms(3) by simp
  moreover define pdu where
    "pdu = request_pdu u 16 off n @ [word_of_nat (2 * length buf)] @ words_bytes buf"
  ultimately have w: "write_request_pdu u off buf = pdu" by (simp add: write_request_pdu_def)
  have "\<not> length pdu < 6" "pdu ! 0 = u" "pdu ! 1 = 16"
    "be16 (pdu ! 2) (pdu ! 3) = off" "be16 (pdu ! 4) (pdu ! 5) = n" "drop 7 pdu = words_bytes buf"
    by (simp_all add: request_pdu_def u16_bytes_def pdu_def)
  then show ?thesis
    using False unfolding w by (simp add: memory_slave_def wrap_tid Let_def)
qed

lemma put_words_nth:
  "length ws \<le> 65536 \<Longrightarrow> i < length ws \<Longrightarrow> put_words a ws mem (a + word_of_nat i) = ws ! i"
proof (induction ws arbitrary: a i mem)
  case (Cons w ws)
  have other: "put_words b vs m a' = m a'" if "\<And>j. j < length vs \<Longrightarrow> a' \<noteq> b + word_of_nat j" for b vs m a'
    using that
  proof (induction vs arbitrary: b m)
    case (Cons v vs)
    have "a' \<noteq> b + 1 + word_of_nat j" if "j < length vs" for j
      using Cons.prems [of "Suc j"] that by (simp add: add.assoc)
    then have "put_words (b + 1) vs (m(b := v)) a' = (m(b := v)) a'" by (rule Cons.IH)
    then show ?case using Cons.prems [of 0] by simp
  qed simp
  show ?case
  proof (cases i)
    case 0
    have "a \<noteq> a + 1 + word_of_nat j" if "j < length ws" for j
    proof -
      have "unat (1 + word_of_nat j :: u16) = Suc j"
        using that Cons.prems(1) by (simp add: unat_word_of_nat_u16 flip: of_nat_Suc)
      then have "(1 + word_of_nat j :: u16) \<noteq> 0" by (metis unsigned_0 Suc_neq_Zero)
      then show ?thesis by (simp add: add.assoc)
    qed
    with 0 other [of ws a "a + 1" "mem(a := w)"] show ?thesis by simp
  next
    case (Suc k)
    have "put_words (a + 1) ws (mem(a := w)) (a + 1 + word_of_nat k) = ws ! k"
      using Suc Cons.prems by (intro Cons.IH) simp_all
    with Suc show ?thesis by (simp add: add.assoc)
  qed
qed simp

section \<open>Reads and writes through the port\<close>

interpretation slave_memory: register_reader
  "ReadHoldingRegister (memory_slave (ToTransport tcp) sizes u) u" mem
  "\<lambda>s. is_tcp (fst s) = tcp \<and> fst (snd s) = mem" "\<lambda>s. snd (snd s)" for tcp sizes u mem
proof
  fix s :: "modbus_port \<times> slave_state" and off n :: u16
  assume s: "is_tcp (fst s) = tcp \<and> fst (snd s) = mem" and r: "IsValidReadRange off n 125"
  obtain p d where sp: "s = (p, mem, d)" "is_tcp p = tcp" using s by (cases s) auto
  obtain chunks where c: "memory_slave (ToTransport tcp) sizes u (mem, d)
      (wrap_response (ToTransport tcp) True (sequence_id p) (request_pdu u 3 off n)) = (chunks, mem, d + 1)"
    "concat chunks = wrap_response (ToTransport tcp) True
      (if ToTransport tcp = Tcp then sequence_id p else 0)
      (registers_pdu u 3 (memory_slice mem off (unat n)))"
    using memory_slave_read by blast
  have "\<exists>q. ReadRegister 3 (memory_slave (ToTransport tcp) sizes u) u off n (p, mem, d) =
      (Inr (memory_slice mem off (unat n)), q, mem, d + 1) \<and> is_tcp q = is_tcp p"
    by (rule ReadRegister_answered [where dev = "memory_slave (ToTransport tcp) sizes u" and
          d = "(mem, d)", OF _ r _ _ c]) (use sp in auto)
  then show "\<exists>s'. ReadHoldingRegister (memory_slave (ToTransport tcp) sizes u) u off n s =
      (Inr (memory_slice mem off (unat n)), s') \<and>
    (is_tcp (fst s') = tcp \<and> fst (snd s') = mem) \<and> snd (snd s') = snd (snd s) + 1"
    using sp by (auto simp: ReadHoldingRegister_def)
qed

lemma put_words_read:
  assumes "length ws \<le> 123"
  shows "map (\<lambda>k. put_words a ws m (a + word_of_nat k)) [0..<length ws] = ws"
  by (rule nth_equalityI) (use assms in \<open>simp_all add: put_words_nth\<close>)

lemma WriteHoldingRegister_memory:
  assumes "buf \<noteq> []" "length buf \<le> 123" "unat off + length buf \<le> 0x10000"
  shows "\<exists>q frame. WriteHoldingRegister (memory_slave (ToTransport (is_tcp p)) sizes u) u off
      (word_of_nat (length buf)) buf (p, mem, d) = (Inr frame, q, put_words off buf mem, d + 1) \<and>
      frame \<noteq> [] \<and> is_tcp q = is_tcp p"
proof -
  let ?tr = "ToTransport (is_tcp p)" and ?n = "word_of_nat (length buf) :: u16"
  have n: "length buf = unat ?n" using assms(2) by (simp add: unat_word_of_nat_u16)
  obtain chunks where c: "memory_slave ?tr sizes u (mem, d)
      (wrap_response ?tr True (sequence_id p) (write_request_pdu u off buf)) =
        (chunks, put_words off buf mem, d + 1)"
    "concat chunks = wrap_response ?tr True (if ?tr = Tcp then sequence_id p else 0)
      (write_pdu u (if ?n = 1 then 6 else 16) off (if ?n = 1 then hd buf else ?n))"
    using memory_slave_write [OF assms(1,2) n] by blast
  have "\<exists>q. WriteHoldingRegister (memory_slave ?tr sizes u) u off ?n buf (p, mem, d) =
      (Inr (wrap_response ?tr True (sequence_id p) (write_request_pdu u off buf)), q,
        put_words off buf mem, d + 1) \<and> is_tcp q = is_tcp p"
    by (rule WriteHoldingRegister_answered [where dev = "memory_slave ?tr sizes u" and
          d = "(mem, d)", OF assms n refl c]) simp
  then show ?thesis by (auto intro: write_request_nonempty)
qed

section \<open>Polling\<close>

text \<open>An item the handler polls as a number, all of whose registers it reads.\<close>

definition pollable :: "u16 \<Rightarrow> modbus_item \<Rightarrow> bool" where
  "pollable branch item \<longleftrightarrow>
     in_branch branch item \<and> mi_type item \<noteq> MBT_STRING \<and> mi_type item \<noteq> MBT_INVALID \<and>
     GetTypeSize (mi_type item) \<le> GetSize item"

definition layout_readable :: "u16 \<Rightarrow> u16 \<Rightarrow> modbus_item list \<Rightarrow> bool" where
  "layout_readable branch base items \<longleftrightarrow>
     (\<forall>item \<in> set items. item_selected (ucast branch) item \<longrightarrow>
        unat base + mi_offset item + GetSize item \<le> 65535)"

lemma pollable_selected: "pollable branch item \<Longrightarrow> item_selected (ucast branch) item"
  using GetTypeSize_pos [of "mi_type item"]
  by (auto simp: pollable_def item_selected_def in_branch_def)

lemma poll_holding:
  assumes dev: "\<And>s base items. \<lbrakk>is_tcp (fst s) = is_tcp (h_port h); fst (snd s) = fst (h_device h);
        layout_readable (h_used_branch h) base items\<rbrakk> \<Longrightarrow>
      \<exists>s' result. ReadGroupedModbusRegisters items (ucast (h_used_branch h))
         (ReadHoldingRegisters dev (slaveId (h_layout h))) base s = (Some result, s') \<and>
       gr_values result = memory_view (fst (h_device h)) base
         (\<Union>item \<in> set (filter (item_selected (ucast (h_used_branch h))) items). item_registers item)"
    and ok: "layout_readable (h_used_branch h) (holdingOffset (counts (h_layout h))) (holding (h_layout h))"
    and i: "i < length (holding (h_layout h))" "pollable (h_used_branch h) (holding (h_layout h) ! i)"
  shows "holding (h_layout (PollRegisterTable dev Holding h)) ! i =
    (let item = holding (h_layout h) ! i; base = holdingOffset (counts (h_layout h))
     in item\<lparr>mi_value := shown_value item
          (map (\<lambda>k. fst (h_device h) (base + word_of_nat (mi_offset item + k)))
             [0..<GetTypeSize (mi_type item)])\<rparr>)"
proof -
  define base where "base = holdingOffset (counts (h_layout h))"
  let ?items = "holding (h_layout h)" and ?mem = "fst (h_device h)"
  let ?sel = "filter (item_selected (ucast (h_used_branch h))) ?items"
  obtain s' result where r: "ReadGroupedModbusRegisters ?items (ucast (h_used_branch h))
      (ReadHoldingRegisters dev (slaveId (h_layout h))) base (wire h) = (Some result, s')"
    "gr_values result = memory_view ?mem base (\<Union>item \<in> set ?sel. item_registers item)"
    using dev [of "wire h" base ?items] ok by (auto simp: wire_def base_def)
  have T: "TableRef Holding l = holding l" for l by (simp add: TableRef_def)
  have "?items \<noteq> []" using i by auto
  then have "PollRegisterTable dev Holding h =
      HandleRegisterReadingByOffset (gr_values result) Holding (CountPolledFrames result (set_wire s' h))"
    using r(1) by (simp add: PollRegisterTable_def ReadRegisterGroups_def T Let_def flip: base_def)
  then have "holding (h_layout (PollRegisterTable dev Holding h)) =
      map (\<lambda>item. snd (register_item (h_used_branch h) (gr_values result) item)) ?items"
    using table_after_registers [where reg = "gr_values result" and t = Holding and
        h = "CountPolledFrames result (set_wire s' h)"]
    by (simp add: T CountPolledFrames_def set_wire_def)
  moreover have "snd (register_item (h_used_branch h) (gr_values result) (?items ! i)) =
      (?items ! i)\<lparr>mi_value := shown_value (?items ! i)
        (map (\<lambda>k. ?mem (base + word_of_nat (mi_offset (?items ! i) + k)))
          [0..<GetTypeSize (mi_type (?items ! i))])\<rparr>"
  proof (rule register_item_value)
    fix k assume k: "k < GetTypeSize (mi_type (?items ! i))"
    then have "mi_offset (?items ! i) + k \<in> item_registers (?items ! i)"
      using i(2) by (auto simp: item_registers_def pollable_def)
    moreover have "?items ! i \<in> set ?sel" using i pollable_selected by auto
    ultimately show "gr_values result (mi_offset (?items ! i) + k) =
        Some (?mem (base + word_of_nat (mi_offset (?items ! i) + k)))"
      unfolding r(2) memory_view_def by auto
  qed (use i(2) in \<open>simp_all add: pollable_def\<close>)
  ultimately show ?thesis using i(1) by (simp add: base_def Let_def)
qed

lemma grouped_slave:
  assumes "is_tcp (fst s) = tcp" "fst (snd s) = mem" "layout_readable branch base items"
  shows "\<exists>s' result. ReadGroupedModbusRegisters items (ucast branch)
      (ReadHoldingRegisters (memory_slave (ToTransport tcp) sizes u) u) base s = (Some result, s') \<and>
    gr_values result = memory_view mem base
      (\<Union>item \<in> set (filter (item_selected (ucast branch)) items). item_registers item)"
proof -
  have "\<forall>r \<in> set (BuildContiguousModbusRegisterRanges items (ucast branch)). range_readable base r"
    using assms(3) unfolding layout_readable_def by (intro ballI ranges_readable) auto
  with slave_memory.tables.ReadGrouped_ok [of s tcp mem items "ucast branch" base sizes u] assms(1,2)
  show ?thesis unfolding ReadHoldingRegisters_def by blast
qed

section \<open>Editing\<close>

text \<open>What a register of a type keeps of a 64-bit value.\<close>

definition narrow_value :: "modbus_type \<Rightarrow> u64 \<Rightarrow> u64" where
  "narrow_value t v =
     (if GetTypeSize t = 1 then ucast (ucast v :: u16)
      else if GetTypeSize t = 2 then ucast (ucast v :: u32) else v)"

definition integral_type :: "modbus_type \<Rightarrow> bool" where
  "integral_type t \<longleftrightarrow> t \<notin> {MBT_FLOAT, MBT_DOUBLE, MBT_STRING, MBT_INVALID}"

lemma length2E: "length xs = 2 \<Longrightarrow> (\<And>a b. xs = [a, b] \<Longrightarrow> P) \<Longrightarrow> P"
  by (cases xs; cases "tl xs") auto

lemma length4E: "length xs = 4 \<Longrightarrow> (\<And>a b c d. xs = [a, b, c, d] \<Longrightarrow> P) \<Longrightarrow> P"
  by (cases xs; cases "tl xs"; cases "tl (tl xs)"; cases "tl (tl (tl xs))") auto

lemma length_EncodeModbusRegisterValue:
  "integral_type (mi_type item) \<Longrightarrow>
   length (EncodeModbusRegisterValue item v) = GetTypeSize (mi_type item)"
  by (cases "mi_type item") (simp_all add: EncodeModbusRegisterValue_def integral_type_def)

text \<open>Decoding what was encoded, at every type and byte order.\<close>

lemma decode32_encode32: "EncodeModbusRegister32 w order = [a, b] \<Longrightarrow> DecodeModbusRegister32 a b order = w"
  using codec32_roundtrip(1) [where w = w and order = order] by simp

lemma decode64_encode64:
  "EncodeModbusRegister64 w order = [a, b, c, d] \<Longrightarrow> DecodeModbusRegister64 a b c d order = w"
  using codec64_roundtrip(1) [where w = w and order = order] by simp

lemma traits_columns:
  "is_floating (traits_of t) \<longleftrightarrow> t = MBT_FLOAT \<or> t = MBT_DOUBLE"
  "register_count (traits_of t) = GetTypeSize t"
  by (cases t; simp add: kTraits_def traits_row_def) (simp add: GetTypeSize_def)

lemma shown_value_encoded:
  assumes "integral_type (mi_type item)"
  shows "shown_value item (EncodeModbusRegisterValue item v) =
         RV_Integer (narrow_value (mi_type item) v)"
proof -
  consider (one) "GetTypeSize (mi_type item) = 1" | (two) "GetTypeSize (mi_type item) = 2"
    | (four) "GetTypeSize (mi_type item) = 4"
    by (cases "mi_type item") simp_all
  then show ?thesis
  proof cases
    case one
    then have "EncodeModbusRegisterValue item v = [EncodeModbusRegister16 (ucast v) (mi_byte_order item)]"
      by (cases "mi_type item") (simp_all add: EncodeModbusRegisterValue_def)
    with one assms show ?thesis
      by (simp add: shown_value_def decode_item_def traits_columns integral_type_def narrow_value_def
          Let_def del: traits_of_simps(1))
  next
    case two
    then have e: "EncodeModbusRegisterValue item v = EncodeModbusRegister32 (ucast v) (mi_byte_order item)"
      using assms by (cases "mi_type item") (simp_all add: EncodeModbusRegisterValue_def integral_type_def)
    obtain a b where ab: "EncodeModbusRegister32 (ucast v) (mi_byte_order item) = [a, b]"
      by (rule length2E [OF length_EncodeModbusRegister(1)])
    with two assms show ?thesis
      unfolding e using decode32_encode32 [OF ab]
      by (simp add: shown_value_def decode_item_def traits_columns integral_type_def narrow_value_def
          Let_def del: traits_of_simps(1))
  next
    case four
    then have e: "EncodeModbusRegisterValue item v = EncodeModbusRegister64 v (mi_byte_order item)"
      using assms by (cases "mi_type item") (simp_all add: EncodeModbusRegisterValue_def integral_type_def)
    obtain a b c d where ab: "EncodeModbusRegister64 v (mi_byte_order item) = [a, b, c, d]"
      by (rule length4E [OF length_EncodeModbusRegister(2)])
    with four assms show ?thesis
      unfolding e using decode64_encode64 [OF ab]
      by (simp add: shown_value_def decode_item_def traits_columns integral_type_def narrow_value_def
          Let_def del: traits_of_simps(1))
  qed
qed

definition slave_of :: "(bytes \<Rightarrow> nat list) \<Rightarrow> slave_state handler \<Rightarrow> slave_state device" where
  "slave_of sizes h = memory_slave (ToTransport (is_tcp (h_port h))) sizes (slaveId (h_layout h))"

lemma poll_shows_memory:
  assumes "layout_readable (h_used_branch h) (holdingOffset (counts (h_layout h))) (holding (h_layout h))"
    "i < length (holding (h_layout h))" "pollable (h_used_branch h) (holding (h_layout h) ! i)"
  shows "holding (h_layout (PollRegisterTable (slave_of sizes h) Holding h)) ! i =
    (let item = holding (h_layout h) ! i; base = holdingOffset (counts (h_layout h))
     in item\<lparr>mi_value := shown_value item
          (map (\<lambda>k. fst (h_device h) (base + word_of_nat (mi_offset item + k)))
             [0..<GetTypeSize (mi_type item)])\<rparr>)"
  using grouped_slave unfolding slave_of_def by (intro poll_holding assms) blast

lemma SendHoldingRegisters_memory:
  assumes "values \<noteq> []" "length values \<le> 123" "mi_manual_address item < 0"
    "unat (holdingOffset (counts (h_layout h))) + mi_offset item + length values \<le> 65536"
    and h'_def: "h' = SendHoldingRegisters (slave_of sizes h) item values h"
  shows "h_layout h' = h_layout h" "is_tcp (h_port h') = is_tcp (h_port h)"
    "h_used_branch h' = h_used_branch h"
    "fst (h_device h') = put_words (holdingOffset (counts (h_layout h)) + word_of_nat (mi_offset item))
       values (fst (h_device h))"
proof -
  let ?base = "holdingOffset (counts (h_layout h))"
  let ?a = "?base + word_of_nat (mi_offset item)"
  have off: "mi_offset item < 65536" "mi_offset item \<le> 65535 - unat ?base"
    "unat ?base + mi_offset item < 65536"
    using assms(1,4) by (cases "values"; auto)+
  then have addr: "ResolveAddress item ?base = Some ?a"
    using assms(3) by (simp add: ResolveAddress_def)
  have "unat ?a = unat ?base + mi_offset item"
    using off by (subst unat_plus_if') (simp add: unat_word_of_nat_u16)
  then obtain q frame where w: "WriteHoldingRegister (slave_of sizes h) (slaveId (h_layout h)) ?a
      (word_of_nat (length values)) values (wire h) =
      (Inr frame, q, put_words ?a values (fst (h_device h)), snd (h_device h) + 1)" "frame \<noteq> []"
      "is_tcp q = is_tcp (h_port h)"
    using WriteHoldingRegister_memory [OF assms(1,2), of ?a "h_port h" sizes "slaveId (h_layout h)"
        "fst (h_device h)" "snd (h_device h)"] assms(4)
    by (auto simp: slave_of_def wire_def)
  show "h_layout h' = h_layout h" "is_tcp (h_port h') = is_tcp (h_port h)"
    "h_used_branch h' = h_used_branch h"
    "fst (h_device h') = put_words ?a values (fst (h_device h))"
    using w by (simp_all add: h'_def SendHoldingRegisters_def addr count_write_def set_wire_def)
qed

lemma slave_of_cong:
  "is_tcp (h_port h') = is_tcp (h_port h) \<Longrightarrow> h_layout h' = h_layout h \<Longrightarrow>
   slave_of sizes h' = slave_of sizes h"
  by (simp add: slave_of_def)

section \<open>Properties\<close>

text \<open>
  C6: polling the holding register table of a slave with a memory of registers shows, in every
  row of the polled branch whose registers are read completely, the slave's memory at the row's
  address decoded by the row's type and byte order, for any grouping of the rows into requests
  and any chunking of the answers.  The layout is readable: no selected row reaches beyond the
  address 65534 once the table's base address is added.  The other three tables are not part of
  the statement.
\<close>

theorem PollRegisterTable_shows_memory:
  assumes "layout_readable (h_used_branch h) (holdingOffset (counts (h_layout h))) (holding (h_layout h))"
    "i < length (holding (h_layout h))" "pollable (h_used_branch h) (holding (h_layout h) ! i)"
  shows "holding (h_layout (PollRegisterTable (slave_of sizes h) Holding h)) ! i =
    (let item = holding (h_layout h) ! i; base = holdingOffset (counts (h_layout h))
     in item\<lparr>mi_value := shown_value item
          (map (\<lambda>k. fst (h_device h) (base + word_of_nat (mi_offset item + k)))
             [0..<GetTypeSize (mi_type item)])\<rparr>)"
  using assms by (rule poll_shows_memory)

definition sample_handler :: "slave_state handler" where
  "sample_handler =
     \<lparr>h_layout = \<lparr>slaveId = 9, coils = [], inputStatus = [],
        holding = [(new_item ''a'' 0 4 MBT_UI32 MVF_DEC '''' 0 0 0 BO_BigEndian)\<lparr>mi_branches := 1\<rparr>],
        inputs = [], counts = default_counts\<lparr>holdingOffset := 100\<rparr>\<rparr>,
      h_used_branch = 1, h_tx = 0, h_rx = 0, h_err = 0, h_queue = [], h_log = new_frame_log,
      h_changes = [], h_port = new_modbus_port True, h_device = (\<lambda>a. a + 1, 0)\<rparr>"

lemma sample_handler_ok:
  "layout_readable (h_used_branch sample_handler) (holdingOffset (counts (h_layout sample_handler)))
     (holding (h_layout sample_handler))"
  "pollable (h_used_branch sample_handler) (holding (h_layout sample_handler) ! 0)"
  "0 < length (holding (h_layout sample_handler))"
  by (simp_all add: sample_handler_def layout_readable_def pollable_def in_branch_def new_item_def
      GetSize_def)

theorem PollRegisterTable_shows_memory_witness:
  "mi_value (holding (h_layout (PollRegisterTable (slave_of (\<lambda>_. [3, 1]) sample_handler)
     Holding sample_handler)) ! 0) = RV_Integer 0x69006A"
  unfolding PollRegisterTable_shows_memory [OF sample_handler_ok(1,3,2)] Let_def
  by (simp add: sample_handler_def new_item_def shown_value_def decode_item_def default_counts_def
      kTraits_def traits_row_def DecodeModbusRegister32_def ResolveModbusRegisterByteOrder_def
      join32_def upt_rec)

text \<open>
  C7: an edit of a holding register that is written and polled back shows the edited value,
  reduced to the width of the register's type: for every integer type, byte order and
  transport, the queue, the encoder, the write request, the slave's memory, the grouped read
  and the decoder are inverse to each other.  The row is one without a manual address (with
  one, \<open>ResolveAddress\<close> sends the write to that address while the poll reads the row's own
  offset), no other write is queued, and the layout is readable as above.
\<close>

theorem EditHolding_poll_roundtrip:
  assumes "layout_readable (h_used_branch h) (holdingOffset (counts (h_layout h))) (holding (h_layout h))"
    and i: "i < length (holding (h_layout h))" "pollable (h_used_branch h) (holding (h_layout h) ! i)"
    and t: "integral_type (mi_type (holding (h_layout h) ! i))"
    and m: "mi_manual_address (holding (h_layout h) ! i) < 0" and q: "h_queue h = []"
  shows "mi_value (holding (h_layout (PollRegisterTable (slave_of sizes h) Holding
      (HandleWrites (slave_of sizes h) (EditHolding i v h)))) ! i) =
    RV_Integer (narrow_value (mi_type (holding (h_layout h) ! i)) v)"
proof -
  define item where "item = holding (h_layout h) ! i"
  define base where "base = holdingOffset (counts (h_layout h))"
  let ?ws = "EncodeModbusRegisterValue item v"
  define h1 where "h1 = h\<lparr>h_queue := []\<rparr>"
  define h2 where "h2 = SendHoldingRegisters (slave_of sizes h1) item ?ws h1"
  have s1: "slave_of sizes h1 = slave_of sizes h" by (rule slave_of_cong) (simp_all add: h1_def)
  have w: "HandleWrites (slave_of sizes h) (EditHolding i v h) = h2"
    using i(1) q by (simp add: HandleWrites_def EditHolding_def queue_Drain_def queue_Push_def
        item_def h2_def s1 Let_def flip: h1_def)
  have len: "length ?ws = GetTypeSize (mi_type item)" "?ws \<noteq> []" "length ?ws \<le> 123"
    using t GetTypeSize_pos [of "mi_type item"] length_EncodeModbusRegisterValue [of item v]
    by (cases "mi_type item"; auto simp: item_def)+
  have "item_selected (ucast (h_used_branch h)) item" using i(2) pollable_selected by (simp add: item_def)
  then have "unat base + mi_offset item + GetSize item \<le> 65535"
    using assms(1) i(1) by (auto simp: layout_readable_def item_def base_def)
  then have r: "unat base + mi_offset item + length ?ws \<le> 65536"
    using i(2) len(1) by (auto simp: pollable_def item_def)
  note sent = SendHoldingRegisters_memory [OF len(2,3), of item h1 h2 sizes]
  have h2: "h_layout h2 = h_layout h" "is_tcp (h_port h2) = is_tcp (h_port h)"
    "h_used_branch h2 = h_used_branch h"
    "fst (h_device h2) = put_words (base + word_of_nat (mi_offset item)) ?ws (fst (h_device h))"
    using sent m r s1 by (simp_all add: h1_def h2_def item_def base_def)
  have "slave_of sizes h2 = slave_of sizes h" using h2 by (intro slave_of_cong) simp_all
  then have "holding (h_layout (PollRegisterTable (slave_of sizes h) Holding h2)) ! i =
      item\<lparr>mi_value := shown_value item
          (map (\<lambda>k. fst (h_device h2) (base + word_of_nat (mi_offset item + k)))
             [0..<GetTypeSize (mi_type item)])\<rparr>"
    using poll_shows_memory [of h2 i sizes] assms(1) i h2 by (simp add: item_def base_def Let_def)
  moreover have "map (\<lambda>k. fst (h_device h2) (base + word_of_nat (mi_offset item + k)))
      [0..<GetTypeSize (mi_type item)] = ?ws"
    using put_words_read [of ?ws "base + word_of_nat (mi_offset item)"] len h2(4) by (simp add: add.assoc)
  ultimately show ?thesis
    using shown_value_encoded [of item v] t by (simp add: w item_def)
qed

theorem EditHolding_poll_roundtrip_witness:
  "mi_value (holding (h_layout (PollRegisterTable (slave_of (\<lambda>_. [3, 1]) sample_handler) Holding
      (HandleWrites (slave_of (\<lambda>_. [3, 1]) sample_handler)
         (EditHolding 0 0x123456789A sample_handler)))) ! 0) = RV_Integer 0x3456789A"
proof -
  have "integral_type (mi_type (holding (h_layout sample_handler) ! 0))"
    "mi_manual_address (holding (h_layout sample_handler) ! 0) < 0" "h_queue sample_handler = []"
    "narrow_value (mi_type (holding (h_layout sample_handler) ! 0)) 0x123456789A = 0x3456789A"
    by (simp_all add: sample_handler_def new_item_def integral_type_def narrow_value_def)
  with EditHolding_poll_roundtrip [OF sample_handler_ok(1,3,2)] show ?thesis by metis
qed

lemma ReadBits_too_many: "125 < unat n \<Longrightarrow> \<exists>e s'. ReadBits fc dev u off n s = (Inl e, s')"
  by (auto simp: ReadBits_def SendReadRequest_def BuildReadRequest_def IsValidReadRange_def
      word_le_nat_alt fr_ok_def split: prod.splits)

lemma grouped_bits_fails:
  assumes "\<And>off n s. 125 < unat n \<Longrightarrow> \<exists>e s'. rd off n s = (Inl e, s')"
  shows "r \<in> set rs \<Longrightarrow> \<not> range_unreadable base r \<Longrightarrow> 125 < rr_count r \<Longrightarrow>
    fst (grouped_bits_loop rs rd base result s) = None"
proof (induction rs arbitrary: result s)
  case (Cons x rs)
  show ?case
  proof (cases "r = x")
    case True
    with Cons.prems have "rr_count x < 65536" by (simp add: range_unreadable_def)
    then have "125 < unat (word_of_nat (rr_count x) :: u16)"
      using True Cons.prems by (simp add: unat_word_of_nat_u16)
    then obtain e s' where "rd (base + word_of_nat (rr_offset x)) (word_of_nat (rr_count x)) s = (Inl e, s')"
      using assms by blast
    with True Cons.prems show ?thesis by simp
  next
    case False
    with Cons show ?thesis by (auto simp: Let_def split: prod.splits sum.splits)
  qed
qed simp

text \<open>
  A table of coils (or input status bits) with a contiguous group of more than 125 bits
  is never updated by polling, whatever the device answers: the read of the group is refused
  by the request builder, whose limit is the register limit, and one refused group drops
  the values of all groups.
\<close>

theorem PollBitTable_long_group_starves:
  assumes "r \<in> set (BuildContiguousModbusRegisterRanges (TableRef (if inp then InputStatus else Coils) (h_layout h))
                     (ucast (h_used_branch h)))"
    "125 < rr_count r" "rr_count r \<le> 65535"
    "unat (if inp then inputStatusOffset (counts (h_layout h)) else coilsOffset (counts (h_layout h))) +
       rr_offset r \<le> 65535"
  shows "h_layout (PollBitTable dev inp h) = h_layout h"
proof -
  define base where
    "base = (if inp then inputStatusOffset (counts (h_layout h)) else coilsOffset (counts (h_layout h)))"
  define rd where "rd = (if inp then ReadInputStatus dev (slaveId (h_layout h))
                         else ReadCoilStatus dev (slaveId (h_layout h)))"
  let ?items = "TableRef (if inp then InputStatus else Coils) (h_layout h)"
  have "\<exists>e s'. rd off n s = (Inl e, s')" if "125 < unat n" for off n s
    unfolding rd_def ReadInputStatus_def ReadCoilStatus_def
    by (cases inp; simp only: if_True if_False; rule ReadBits_too_many [OF that])
  moreover have "\<not> range_unreadable base r"
    using assms(3,4) unfolding base_def [symmetric] range_unreadable_def by linarith
  ultimately have "fst (grouped_bits_loop (BuildContiguousModbusRegisterRanges ?items (ucast (h_used_branch h)))
      rd base empty_result (wire h)) = None"
    by (intro grouped_bits_fails [OF _ assms(1) _ assms(2)])
  then obtain s' where
    "ReadGroupedModbusBits ?items (ucast (h_used_branch h)) rd base (wire h) = (None, s')"
    unfolding ReadGroupedModbusBits_def by (metis prod.collapse)
  then have "ReadBitGroups dev inp h = (None, set_wire s' h)"
    unfolding ReadBitGroups_def by (simp add: Let_def flip: base_def rd_def)
  then show ?thesis by (simp add: PollBitTable_def Let_def set_wire_def)
qed

definition coil_handler :: "unit handler" where
  "coil_handler =
     \<lparr>h_layout = \<lparr>slaveId = 1,
        coils = [(new_item ''block'' 0 0 MBT_BOOL MVF_DEC '''' 0 0 0 BO_Default)
                   \<lparr>mi_branches := 1, mi_register_size := Some 126\<rparr>],
        inputStatus = [], holding = [], inputs = [], counts = default_counts\<rparr>,
      h_used_branch = 1, h_tx = 0, h_rx = 0, h_err = 0, h_queue = [], h_log = new_frame_log,
      h_changes = [], h_port = new_modbus_port False, h_device = ()\<rparr>"

theorem PollBitTable_long_group_starves_witness:
  "h_layout (PollBitTable (\<lambda>d f. ([f], d)) False coil_handler) = h_layout coil_handler"
proof (rule PollBitTable_long_group_starves)
  have "BuildContiguousModbusRegisterRanges (coils (h_layout coil_handler)) 1 =
      [\<lparr>rr_offset = 0, rr_count = 126\<rparr>]"
    by (simp add: coil_handler_def BuildContiguousModbusRegisterRanges_def item_selected_def GetSize_def
        new_item_def)
  then show "\<lparr>rr_offset = 0, rr_count = 126\<rparr> \<in> set (BuildContiguousModbusRegisterRanges
      (TableRef (if False then InputStatus else Coils) (h_layout coil_handler))
      (ucast (h_used_branch coil_handler)))"
    by (simp add: TableRef_def coil_handler_def)
qed (simp_all add: coil_handler_def default_counts_def)

end
