(* ===== verification/CanCodecs.thy ===== *)
theory CanCodecs
  imports Crc16
begin

text \<open>
  The wire codecs of the two CAN adapters.  Source: \<open>src/CanCodecs.cpp\<close>,
  \<open>src/CanCodecs.hpp\<close>.  A frame is an identifier and its data bytes; the STM32 format is a
  fixed 19 byte record closed by the Modbus CRC, the Lawicel format a text line.  Each
  stream decoder keeps what it has not consumed in a buffer; \<open>Stm32Feed\<close> and
  \<open>LawicelFeed\<close> take the buffer and the new bytes and return the frames found and the new
  buffer.  The lemmas: every chunking of a stream gives the same frames, an encoded frame is
  decoded to itself whatever noise surrounds it, every decoded frame was on the wire, and
  the buffers stay bounded.
\<close>

section \<open>Frames and bytes\<close>

record can_frame =
  frame_id :: u32
  frame_data :: bytes

definition Stm32SendMagic :: u32 where "Stm32SendMagic = 0xAABBCCDD"
definition Stm32ReceiveMagic :: u32 where "Stm32ReceiveMagic = 0xAABBCCDE"
definition Stm32WireSize :: nat where "Stm32WireSize = 19"

definition WriteU32Le :: "u32 \<Rightarrow> bytes" where
  "WriteU32Le value = map (\<lambda>i. ucast (drop_bit (i * 8) value)) [0..<4]"

definition ReadU32Le :: "bytes \<Rightarrow> u32" where
  "ReadU32Le b = ucast (b ! 0) OR push_bit 8 (ucast (b ! 1)) OR push_bit 16 (ucast (b ! 2)) OR
     push_bit 24 (ucast (b ! 3))"

lemma length_WriteU32Le [simp]: "length (WriteU32Le v) = 4"
  by (simp add: WriteU32Le_def)

lemma ReadU32Le_WriteU32Le [simp]: "ReadU32Le (WriteU32Le v @ xs) = v"
proof (rule bit_word_eqI)
  fix n assume "n < LENGTH(32)"
  then have n: "n < 32" by simp
  have u: "[0..<4] = [0, 1, 2, 3 :: nat]" by (simp add: upt_rec)
  have "n < 8 \<or> 8 \<le> n \<and> n < 16 \<or> 16 \<le> n \<and> n < 24 \<or> 24 \<le> n" by linarith
  with n show "bit (ReadU32Le (WriteU32Le v @ xs)) n = bit v n"
    by (elim disjE) (auto simp: ReadU32Le_def WriteU32Le_def u bit_simps)
qed

lemma ReadU32Le_append: "4 \<le> length b \<Longrightarrow> ReadU32Le (b @ c) = ReadU32Le b"
  by (cases "b = []") (simp_all add: ReadU32Le_def nth_append)

lemma WriteU32Le_ReadU32Le:
  assumes "length b = 4"
  shows "WriteU32Le (ReadU32Le b) = b"
proof (rule nth_equalityI)
  show "length (WriteU32Le (ReadU32Le b)) = length b" using assms by simp
next
  fix i assume "i < length (WriteU32Le (ReadU32Le b))"
  then have i: "i < 4" by simp
  then have "i = 0 \<or> i = 1 \<or> i = 2 \<or> i = 3" by linarith
  then show "WriteU32Le (ReadU32Le b) ! i = b ! i"
    by (elim disjE) (simp_all add: WriteU32Le_def ReadU32Le_def,
      (rule bit_word_eqI, auto simp: bit_simps dest: bit_imp_le_length)+)
qed

section \<open>The STM32 format\<close>

definition EncodeStm32 :: "can_frame \<Rightarrow> bytes option" where
  "EncodeStm32 frame =
     (if 8 < length (frame_data frame) \<or> 0x1FFFFFFF < frame_id frame then None
      else
        let body = WriteU32Le Stm32SendMagic @ WriteU32Le (frame_id frame) @
              [word_of_nat (length (frame_data frame))] @ frame_data frame @
              replicate (8 - length (frame_data frame)) 0;
            crc = ModbusCrc (take 17 body)
        in Some (body @ [ucast crc, ucast (drop_bit 8 crc)]))"

text \<open>The loop of \<open>Feed\<close> over what the buffer holds from the cursor on.\<close>

definition stm32_frame_ok :: "bytes \<Rightarrow> bool" where
  "stm32_frame_ok b \<longleftrightarrow>
     \<not> (8 < b ! 8 \<or> (ucast (b ! 17) OR push_bit 8 (ucast (b ! 18))) \<noteq> ModbusCrc (take 17 b))"

definition stm32_frame :: "bytes \<Rightarrow> can_frame" where
  "stm32_frame b =
     \<lparr>frame_id = ReadU32Le (drop 4 b), frame_data = take (unat (b ! 8)) (drop 9 b)\<rparr>"

function stm32_scan :: "bytes \<Rightarrow> can_frame list \<times> bytes" where
  "stm32_scan b =
     (if length b < 4 then ([], b)
      else if ReadU32Le b \<noteq> Stm32ReceiveMagic then stm32_scan (tl b)
      else if length b < Stm32WireSize then ([], b)
      else if \<not> stm32_frame_ok b then stm32_scan (tl b)
      else
        let r = stm32_scan (drop Stm32WireSize b)
        in (stm32_frame b # fst r, snd r))"
  by pat_completeness auto
termination
  by (relation "measure length") (auto simp: Stm32WireSize_def)

declare stm32_scan.simps [simp del]

definition Stm32Feed :: "bytes \<Rightarrow> bytes \<Rightarrow> can_frame list \<times> bytes" where
  "Stm32Feed m_buffer new = stm32_scan (m_buffer @ new)"

definition Stm32BufferedBytes :: "bytes \<Rightarrow> nat" where
  "Stm32BufferedBytes m_buffer = length m_buffer"

text \<open>Feeding the chunks of a stream one after another.\<close>

fun feed_all :: "('b \<Rightarrow> 'c \<Rightarrow> 'f list \<times> 'b) \<Rightarrow> 'b \<Rightarrow> 'c list \<Rightarrow> 'f list \<times> 'b" where
  "feed_all feed b [] = ([], b)"
| "feed_all feed b (c # cs) =
     (let r = feed b c; s = feed_all feed (snd r) cs in (fst r @ fst s, snd s))"

subsection \<open>Chunking\<close>

lemma stm32_frame_ok_append: "19 \<le> length b \<Longrightarrow> stm32_frame_ok (b @ c) = stm32_frame_ok b"
  by (simp add: stm32_frame_ok_def nth_append)

lemma stm32_frame_append:
  assumes "19 \<le> length b" and "stm32_frame_ok b"
  shows "stm32_frame (b @ c) = stm32_frame b"
proof -
  have "b ! 8 \<le> 8" using assms(2) by (auto simp: stm32_frame_ok_def)
  then have "unat (b ! 8) \<le> 8" by (simp add: word_le_nat_alt)
  with assms(1) show ?thesis
    by (simp add: stm32_frame_def nth_append ReadU32Le_append)
qed

lemma tl_append_nonempty: "0 < length b \<Longrightarrow> tl (b @ c) = tl b @ c"
  by (cases b) auto

lemma stm32_scan_append:
  "stm32_scan (a @ c) =
     (fst (stm32_scan a) @ fst (stm32_scan (snd (stm32_scan a) @ c)), snd (stm32_scan (snd (stm32_scan a) @ c)))"
proof (induction a rule: stm32_scan.induct)
  case (1 b)
  show ?case
  proof (cases "length b < 4 \<or> ReadU32Le b = Stm32ReceiveMagic \<and> length b < Stm32WireSize")
    case True
    then have "stm32_scan b = ([], b)" by (auto simp: stm32_scan.simps [of b])
    then show ?thesis by simp
  next
    case False
    then have l4: "\<not> length b < 4" and l: "\<not> length (b @ c) < 4" by auto
    have m: "ReadU32Le (b @ c) = ReadU32Le b" using l4 by (simp add: ReadU32Le_append)
    have t: "tl (b @ c) = tl b @ c" using l4 by (cases b) auto
    show ?thesis
    proof (cases "ReadU32Le b = Stm32ReceiveMagic")
      case no: False
      with 1(1) l4 have ih: "stm32_scan (tl b @ c) = (fst (stm32_scan (tl b)) @
        fst (stm32_scan (snd (stm32_scan (tl b)) @ c)), snd (stm32_scan (snd (stm32_scan (tl b)) @ c)))" by simp
      show ?thesis
        using no l4 l m t ih by (simp add: stm32_scan.simps [of b] stm32_scan.simps [of "b @ c"])
    next
      case yes: True
      with False have w: "\<not> length b < Stm32WireSize" "\<not> length (b @ c) < Stm32WireSize" by auto
      have w19: "19 \<le> length b" using w(1) by (simp add: Stm32WireSize_def)
      show ?thesis
      proof (cases "stm32_frame_ok b")
        case no: False
        with 1(2) l4 yes w have ih: "stm32_scan (tl b @ c) = (fst (stm32_scan (tl b)) @
          fst (stm32_scan (snd (stm32_scan (tl b)) @ c)), snd (stm32_scan (snd (stm32_scan (tl b)) @ c)))" by simp
        show ?thesis
          using no l4 l m t yes w ih w19
          by (simp add: stm32_scan.simps [of b] stm32_scan.simps [of "b @ c"] stm32_frame_ok_append)
      next
        case ok: True
        let ?d = "drop Stm32WireSize b"
        have d: "drop Stm32WireSize (b @ c) = ?d @ c" using w(1) by simp
        from 1(3) l4 yes w ok have ih: "stm32_scan (?d @ c) = (fst (stm32_scan ?d) @
          fst (stm32_scan (snd (stm32_scan ?d) @ c)), snd (stm32_scan (snd (stm32_scan ?d) @ c)))" by simp
        have b: "stm32_scan b = (stm32_frame b # fst (stm32_scan ?d), snd (stm32_scan ?d))"
          using l4 yes w ok by (simp add: stm32_scan.simps [of b] Let_def)
        have "stm32_scan (b @ c) = (stm32_frame b # fst (stm32_scan (?d @ c)), snd (stm32_scan (?d @ c)))"
          using l m yes w ok w19 d
          by (simp add: stm32_scan.simps [of "b @ c"] Let_def stm32_frame_ok_append stm32_frame_append
              del: drop_append length_append)
        with b ih show ?thesis by simp
      qed
    qed
  qed
qed

lemma stm32_scan_rest: "length (snd (stm32_scan b)) < Stm32WireSize"
  by (induction b rule: stm32_scan.induct)
    (subst stm32_scan.simps, auto simp: Let_def Stm32WireSize_def)

lemma stm32_scan_idem: "stm32_scan (snd (stm32_scan b)) = ([], snd (stm32_scan b))"
proof -
  have "stm32_scan (b @ []) = (fst (stm32_scan b) @ fst (stm32_scan (snd (stm32_scan b))),
      snd (stm32_scan (snd (stm32_scan b))))"
    by (subst stm32_scan_append) simp
  then show ?thesis by (metis append_Nil2 append_self_conv fst_conv prod.collapse snd_conv)
qed

lemma Stm32_feed_all:
  "stm32_scan m_buffer = ([], m_buffer) \<Longrightarrow> feed_all Stm32Feed m_buffer chunks = Stm32Feed m_buffer (concat chunks)"
proof (induction chunks arbitrary: m_buffer)
  case Nil
  then show ?case by (simp add: Stm32Feed_def)
next
  case (Cons c cs)
  let ?r = "stm32_scan (m_buffer @ c)"
  have ih: "feed_all Stm32Feed (snd (Stm32Feed m_buffer c)) cs = stm32_scan (snd ?r @ concat cs)"
    by (simp add: Cons.IH stm32_scan_idem Stm32Feed_def [of m_buffer c])
      (simp add: Stm32Feed_def)
  have "stm32_scan ((m_buffer @ c) @ concat cs) = (fst ?r @ fst (stm32_scan (snd ?r @ concat cs)),
     snd (stm32_scan (snd ?r @ concat cs)))"
    by (rule stm32_scan_append)
  then show ?case by (simp only: feed_all.simps Let_def ih) (simp add: Stm32Feed_def)
qed

subsection \<open>Records on the wire\<close>

text \<open>The record of a frame: marker, identifier, length, data, padding to eight bytes, CRC.\<close>

definition stm32_record :: "u32 \<Rightarrow> can_frame \<Rightarrow> bytes \<Rightarrow> bytes" where
  "stm32_record marker f pad =
     (let body = WriteU32Le marker @ WriteU32Le (frame_id f) @ [word_of_nat (length (frame_data f))] @
            frame_data f @ pad
      in body @ [ucast (ModbusCrc body), ucast (drop_bit 8 (ModbusCrc body))])"

definition stm32_genuine :: "bytes \<Rightarrow> can_frame \<Rightarrow> bool" where
  "stm32_genuine r f \<longleftrightarrow>
     (\<exists>pad. length (frame_data f) + length pad = 8 \<and> r = stm32_record Stm32ReceiveMagic f pad)"

lemma length_stm32_record: "length (frame_data f) + length pad = 8 \<Longrightarrow> length (stm32_record m f pad) = 19"
  by (simp add: stm32_record_def Let_def)

lemma EncodeStm32_record:
  "EncodeStm32 f = (if length (frame_data f) \<le> 8 \<and> frame_id f \<le> 0x1FFFFFFF
     then Some (stm32_record Stm32SendMagic f (replicate (8 - length (frame_data f)) 0)) else None)"
  by (auto simp: EncodeStm32_def stm32_record_def Let_def)

lemma crc_bytes_join: "(ucast (ucast (c :: u16) :: u8) OR push_bit 8 (ucast (ucast (drop_bit 8 c) :: u8)) :: u16) = c"
proof (rule bit_word_eqI)
  fix n assume "n < LENGTH(16)"
  then show "bit (ucast (ucast c :: u8) OR push_bit 8 (ucast (ucast (drop_bit 8 c) :: u8)) :: u16) n = bit c n"
    by (cases "n < 8") (auto simp: bit_simps)
qed

lemma crc_bytes_split:
  assumes "(ucast (a :: u8) OR push_bit 8 (ucast (b :: u8)) :: u16) = c"
  shows "a = ucast c" and "b = ucast (drop_bit 8 c)"
proof -
  show "a = ucast c"
    unfolding assms [symmetric] by (rule bit_word_eqI) (auto simp: bit_simps)
  show "b = ucast (drop_bit 8 c)"
    unfolding assms [symmetric] by (rule bit_word_eqI) (auto simp: bit_simps dest: bit_imp_le_length)
qed

lemma stm32_record_parts:
  assumes l: "length (frame_data f) + length pad = 8" and r_def: "r = stm32_record m f pad"
  shows "ReadU32Le (r @ x) = m" and "stm32_frame_ok (r @ x)" and "stm32_frame (r @ x) = f"
proof -
  let ?body = "WriteU32Le m @ WriteU32Le (frame_id f) @ [word_of_nat (length (frame_data f))] @ frame_data f @ pad"
  have lb: "length ?body = 17" using l by simp
  have r: "r @ x = ?body @ ucast (ModbusCrc ?body) # ucast (drop_bit 8 (ModbusCrc ?body)) # x"
    by (simp add: r_def stm32_record_def Let_def)
  show "ReadU32Le (r @ x) = m" by (simp add: r)
  have t: "take 17 (r @ x) = ?body" using lb by (simp only: r take_append) simp
  have n8: "(r @ x) ! 8 = word_of_nat (length (frame_data f))" by (simp add: r nth_append)
  have n17: "(r @ x) ! 17 = ucast (ModbusCrc ?body)" unfolding r nth_append lb by simp
  have n18: "(r @ x) ! 18 = ucast (drop_bit 8 (ModbusCrc ?body))" unfolding r nth_append lb by simp
  have u: "unat (word_of_nat (length (frame_data f)) :: u8) = length (frame_data f)"
    using l by (simp add: unat_of_nat)
  then have "\<not> 8 < (word_of_nat (length (frame_data f)) :: u8)"
    using l by (simp add: word_less_nat_alt)
  then show "stm32_frame_ok (r @ x)"
    by (simp only: stm32_frame_ok_def t n8 n17 n18 crc_bytes_join) simp
  have d4: "drop 4 (r @ x) = WriteU32Le (frame_id f) @ drop 8 (r @ x)" by (simp add: r)
  have d9: "drop 9 (r @ x) = frame_data f @ pad @ drop 17 (r @ x)" using l by (simp add: r)
  show "stm32_frame (r @ x) = f"
    by (simp only: stm32_frame_def d4 d9 n8 u) simp
qed

lemma stm32_scan_record:
  assumes "stm32_genuine r f"
  shows "stm32_scan (r @ x) = (f # fst (stm32_scan x), snd (stm32_scan x))"
proof -
  from assms obtain pad where l: "length (frame_data f) + length pad = 8"
    and r: "r = stm32_record Stm32ReceiveMagic f pad" by (auto simp: stm32_genuine_def)
  have lr: "length r = 19" using l r by (simp add: length_stm32_record)
  then show ?thesis
    using stm32_record_parts [OF l r, of x]
    by (simp add: stm32_scan.simps [of "r @ x"] Stm32WireSize_def Let_def)
qed

lemma drop_Cons_tl: "n < length b \<Longrightarrow> drop n b = b ! n # drop (Suc n) b"
  by (rule Cons_nth_drop_Suc [symmetric])

lemma stm32_accepted_genuine:
  assumes l: "\<not> length b < Stm32WireSize" and m: "ReadU32Le b = Stm32ReceiveMagic" and ok: "stm32_frame_ok b"
  shows "stm32_genuine (take Stm32WireSize b) (stm32_frame b)"
proof -
  let ?n = "unat (b ! 8)"
  have l19: "19 \<le> length b" using l by (simp add: Stm32WireSize_def)
  have n8: "?n \<le> 8" using ok by (auto simp: stm32_frame_ok_def word_le_nat_alt not_less)
  let ?pad = "take (8 - ?n) (drop (9 + ?n) b)"
  have w4: "WriteU32Le Stm32ReceiveMagic = take 4 b"
    using WriteU32Le_ReadU32Le [of "take 4 b"] ReadU32Le_append [of "take 4 b" "drop 4 b"] l19 m by simp
  have w8: "WriteU32Le (frame_id (stm32_frame b)) = take 4 (drop 4 b)"
  proof -
    have e: "take 4 (drop 4 b) @ drop 8 b = drop 4 b"
      using append_take_drop_id [of 4 "drop 4 b"] by simp
    have "ReadU32Le (drop 4 b) = ReadU32Le (take 4 (drop 4 b))"
      using ReadU32Le_append [of "take 4 (drop 4 b)" "drop 8 b"] l19 by (simp add: e)
    then show ?thesis
      using WriteU32Le_ReadU32Le [of "take 4 (drop 4 b)"] l19 by (simp add: stm32_frame_def)
  qed
  have ld: "length (frame_data (stm32_frame b)) = ?n" using l19 n8 by (simp add: stm32_frame_def)
  have d: "frame_data (stm32_frame b) @ ?pad = take 8 (drop 9 b)"
    using n8 take_add [of ?n "8 - ?n" "drop 9 b"] by (simp add: stm32_frame_def add.commute)
  have split: "take 17 b = take 4 b @ take 4 (drop 4 b) @ [b ! 8] @ take 8 (drop 9 b)"
    using l19 take_add [of 4 13 b] take_add [of 4 9 "drop 4 b"] drop_Cons_tl [of 8 b]
    by (simp add: take_Cons')
  have body: "WriteU32Le Stm32ReceiveMagic @ WriteU32Le (frame_id (stm32_frame b)) @
      [word_of_nat (length (frame_data (stm32_frame b)))] @ frame_data (stm32_frame b) @ ?pad = take 17 b"
    by (simp only: w4 w8 ld d split) simp
  have c: "(ucast (b ! 17) OR push_bit 8 (ucast (b ! 18))) = ModbusCrc (take 17 b)"
    using ok by (simp add: stm32_frame_ok_def)
  have "take 19 b = take 17 b @ [b ! 17, b ! 18]"
    using l19 take_add [of 17 2 b] drop_Cons_tl [of 17 b] drop_Cons_tl [of 18 b] by (simp add: take_Cons')
  then have "take Stm32WireSize b = stm32_record Stm32ReceiveMagic (stm32_frame b) ?pad"
    by (simp only: stm32_record_def Let_def body crc_bytes_split [OF c, symmetric] Stm32WireSize_def)
  moreover have "length (frame_data (stm32_frame b)) + length ?pad = 8" using l19 n8 ld by simp
  ultimately show ?thesis unfolding stm32_genuine_def by blast
qed

text \<open>\<open>carved s fs rest\<close>: disjoint records of the frames \<open>fs\<close> follow each other in \<open>s\<close>, with
  anything between them, and \<open>rest\<close> ends \<open>s\<close> after the last one.\<close>

fun carved :: "bytes \<Rightarrow> can_frame list \<Rightarrow> bytes \<Rightarrow> bool" where
  "carved s [] rest \<longleftrightarrow> (\<exists>skip. s = skip @ rest)"
| "carved s (f # fs) rest \<longleftrightarrow> (\<exists>gap r s'. s = gap @ r @ s' \<and> stm32_genuine r f \<and> carved s' fs rest)"

lemma carved_Cons: "carved s fs rest \<Longrightarrow> carved (c # s) fs rest"
proof (cases fs)
  case Nil
  assume "carved s fs rest"
  with Nil obtain skip where "s = skip @ rest" by auto
  then have "c # s = (c # skip) @ rest" by simp
  with Nil show ?thesis by (simp only: carved.simps) blast
next
  case (Cons f fs')
  assume "carved s fs rest"
  with Cons obtain gap r s' where s: "s = gap @ r @ s'" "stm32_genuine r f" "carved s' fs' rest" by auto
  then have "c # s = (c # gap) @ r @ s'" by simp
  with Cons s(2,3) show ?thesis by (simp only: carved.simps) blast
qed

lemma stm32_scan_carved: "carved b (fst (stm32_scan b)) (snd (stm32_scan b))"
proof (induction b rule: stm32_scan.induct)
  case (1 b)
  have skip: "length b \<ge> 4 \<Longrightarrow> carved (tl b) fs rest \<Longrightarrow> carved b fs rest" for fs rest
    using carved_Cons [of "tl b" fs rest "hd b"] by (cases b) auto
  consider (short) "length b < 4"
    | (noise) "\<not> length b < 4" "ReadU32Le b \<noteq> Stm32ReceiveMagic"
    | (wait) "\<not> length b < 4" "ReadU32Le b = Stm32ReceiveMagic" "length b < Stm32WireSize"
    | (bad) "\<not> length b < 4" "ReadU32Le b = Stm32ReceiveMagic" "\<not> length b < Stm32WireSize" "\<not> stm32_frame_ok b"
    | (good) "\<not> length b < 4" "ReadU32Le b = Stm32ReceiveMagic" "\<not> length b < Stm32WireSize" "stm32_frame_ok b"
    by blast
  then show ?case
  proof cases
    case short
    then show ?thesis by (simp add: stm32_scan.simps [of b])
  next
    case noise
    with 1(1) skip show ?thesis by (simp add: stm32_scan.simps [of b])
  next
    case wait
    then show ?thesis by (simp add: stm32_scan.simps [of b])
  next
    case bad
    with 1(2) skip show ?thesis by (simp add: stm32_scan.simps [of b])
  next
    case good
    let ?d = "drop Stm32WireSize b"
    have b: "stm32_scan b = (stm32_frame b # fst (stm32_scan ?d), snd (stm32_scan ?d))"
      using good by (simp add: stm32_scan.simps [of b] Let_def)
    have "b = [] @ take Stm32WireSize b @ ?d" by simp
    moreover have "carved ?d (fst (stm32_scan ?d)) (snd (stm32_scan ?d))" using 1(3) good by blast
    ultimately show ?thesis
      using stm32_accepted_genuine [OF good(3,2,4)] unfolding b fst_conv snd_conv carved.simps by blast
  qed
qed

lemma stm32_scan_noise_byte:
  assumes "c \<noteq> 0xDE"
  shows "fst (stm32_scan (c # y)) = fst (stm32_scan y)"
proof (cases "length y < 3")
  case True
  then show ?thesis by (simp add: stm32_scan.simps [of "c # y"] stm32_scan.simps [of y])
next
  case False
  have "ReadU32Le (c # y) \<noteq> Stm32ReceiveMagic"
  proof
    assume "ReadU32Le (c # y) = Stm32ReceiveMagic"
    then have "WriteU32Le (ReadU32Le (take 4 (c # y))) = WriteU32Le Stm32ReceiveMagic"
      using ReadU32Le_append [of "take 4 (c # y)" "drop 4 (c # y)"] False
      by (simp only: append_take_drop_id) simp
    then have "take 4 (c # y) = WriteU32Le Stm32ReceiveMagic"
      using False by (subst (asm) WriteU32Le_ReadU32Le) auto
    then have "c = WriteU32Le Stm32ReceiveMagic ! 0" by (metis nth_take nth_Cons_0 zero_less_numeral)
    with assms show False by (simp add: WriteU32Le_def Stm32ReceiveMagic_def)
  qed
  with False show ?thesis by (simp add: stm32_scan.simps [of "c # y"])
qed

lemma stm32_scan_noise: "0xDE \<notin> set n \<Longrightarrow> fst (stm32_scan (n @ y)) = fst (stm32_scan y)"
  by (induction n) (auto simp: stm32_scan_noise_byte)

lemma stm32_scan_stream:
  assumes "list_all2 stm32_genuine recs fs" and "length noises = length recs"
    and "\<forall>n \<in> set noises. 0xDE \<notin> set n"
  shows "fst (stm32_scan (concat (map2 (@) noises recs) @ x)) = fs @ fst (stm32_scan x)"
  using assms
proof (induction recs fs arbitrary: noises rule: list_all2_induct)
  case Nil
  then show ?case by simp
next
  case (Cons r recs f fs)
  then obtain n ns where n: "noises = n # ns" "length ns = length recs" by (cases noises) auto
  with Cons.prems have "0xDE \<notin> set n" by simp
  then show ?case using Cons n by (simp add: stm32_scan_noise stm32_scan_record)
qed

text \<open>What the adapter sends for a record it was sent: the receive marker and a fresh CRC.\<close>

definition loopback :: "bytes \<Rightarrow> bytes" where
  "loopback w =
     (let body = WriteU32Le Stm32ReceiveMagic @ take 13 (drop 4 w)
      in body @ [ucast (ModbusCrc body), ucast (drop_bit 8 (ModbusCrc body))])"

lemma loopback_genuine:
  assumes "EncodeStm32 f = Some w"
  shows "stm32_genuine (loopback w) f"
proof -
  let ?pad = "replicate (8 - length (frame_data f)) (0 :: u8)"
  from assms have l: "length (frame_data f) + length ?pad = 8"
    and w: "w = stm32_record Stm32SendMagic f ?pad"
    by (auto simp: EncodeStm32_record split: if_splits)
  have "take 13 (drop 4 w) = WriteU32Le (frame_id f) @ [word_of_nat (length (frame_data f))] @ frame_data f @ ?pad"
    using l by (simp add: w stm32_record_def Let_def)
  then have "loopback w = stm32_record Stm32ReceiveMagic f ?pad"
    by (simp only: loopback_def stm32_record_def)
  with l show ?thesis unfolding stm32_genuine_def by blast
qed

text \<open>
  However the bytes of a stream are split into chunks, the STM32 decoder returns what it
  would return for the whole stream at once; every frame it returns has its own record in
  the stream, with the receive marker, a length of at most 8 and a correct CRC; and it never
  keeps a complete record's worth of bytes.
\<close>

theorem Stm32Feed_exact:
  "feed_all Stm32Feed [] chunks = Stm32Feed [] (concat chunks) \<and>
   carved (concat chunks) (fst (feed_all Stm32Feed [] chunks)) (snd (feed_all Stm32Feed [] chunks)) \<and>
   Stm32BufferedBytes (snd (feed_all Stm32Feed [] chunks)) < Stm32WireSize"
proof -
  have e: "feed_all Stm32Feed [] chunks = Stm32Feed [] (concat chunks)"
    by (rule Stm32_feed_all) (simp add: stm32_scan.simps)
  then show ?thesis
    unfolding e Stm32BufferedBytes_def
    by (simp add: Stm32Feed_def stm32_scan_carved stm32_scan_rest)
qed

text \<open>
  frames that were encoded for the STM32 adapter, looped back by it and received in any
  chunks, with noise before each of them, are returned exactly and in order; a frame is
  refused by the encoder exactly when it has more than 8 bytes or more than 29 identifier
  bits.
\<close>

theorem Stm32_loopback_roundtrip:
  assumes "\<forall>f \<in> set frames. length (frame_data f) \<le> 8 \<and> frame_id f \<le> 0x1FFFFFFF"
    and "length noises = length frames" and "\<forall>n \<in> set noises. 0xDE \<notin> set n"
    and "concat chunks = concat (map2 (\<lambda>n f. n @ loopback (the (EncodeStm32 f))) noises frames)"
  shows "fst (feed_all Stm32Feed [] chunks) = frames \<and> (\<forall>f \<in> set frames. EncodeStm32 f \<noteq> None)"
proof -
  have some: "\<forall>f \<in> set frames. EncodeStm32 f \<noteq> None"
    using assms(1) by (auto simp: EncodeStm32_record)
  let ?recs = "map (\<lambda>f. loopback (the (EncodeStm32 f))) frames"
  have gen: "list_all2 stm32_genuine ?recs frames"
    using some by (auto simp: list_all2_conv_all_nth intro!: loopback_genuine)
  have m: "map2 (\<lambda>n f. n @ loopback (the (EncodeStm32 f))) noises frames = map2 (@) noises ?recs"
    by (simp add: zip_map2 case_prod_unfold comp_def)
  have "fst (stm32_scan (concat (map2 (@) noises ?recs) @ [])) = frames @ fst (stm32_scan [])"
    by (rule stm32_scan_stream [OF gen]) (use assms in simp_all)
  then have "fst (stm32_scan (concat chunks)) = frames"
    by (simp add: assms(4) m stm32_scan.simps [of "[]"])
  moreover have "feed_all Stm32Feed [] chunks = Stm32Feed [] (concat chunks)"
    by (rule Stm32_feed_all) (simp add: stm32_scan.simps)
  ultimately show ?thesis using some by (simp add: Stm32Feed_def)
qed

definition sample_can_frame :: can_frame where
  "sample_can_frame = \<lparr>frame_id = 0x123, frame_data = [1, 2, 3]\<rparr>"

theorem Stm32_loopback_roundtrip_witness:
  "fst (feed_all Stm32Feed [] [[7] @ loopback (the (EncodeStm32 sample_can_frame))]) = [sample_can_frame] \<and>
   EncodeStm32 sample_can_frame \<noteq> None"
proof -
  have "fst (feed_all Stm32Feed [] [[7] @ loopback (the (EncodeStm32 sample_can_frame))]) = [sample_can_frame] \<and>
    (\<forall>f \<in> set [sample_can_frame]. EncodeStm32 f \<noteq> None)"
    by (rule Stm32_loopback_roundtrip [where noises = "[[7]]" and frames = "[sample_can_frame]"])
      (simp_all add: sample_can_frame_def)
  then show ?thesis by simp
qed

section \<open>The Lawicel format\<close>

definition HexValue :: "char \<Rightarrow> int" where
  "HexValue value =
     (let n = int (of_char value) in
      if 48 \<le> n \<and> n \<le> 57 then n - 48
      else if 97 \<le> n \<and> n \<le> 102 then n - 97 + 10
      else if 65 \<le> n \<and> n \<le> 70 then n - 65 + 10
      else -1)"

fun parse_hex_from :: "u32 \<Rightarrow> string \<Rightarrow> u32 option" where
  "parse_hex_from value [] = Some value"
| "parse_hex_from value (ch # text) =
     (let digit = HexValue ch in
      if digit < 0 then None else parse_hex_from (push_bit 4 value OR word_of_int digit) text)"

definition ParseHex :: "string \<Rightarrow> u32 option" where
  "ParseHex text = (if text = [] then None else parse_hex_from 0 text)"

text \<open>\<open>std::to_chars (..., 16)\<close>, then \<open>std::toupper\<close> of each character.\<close>

fun to_chars16 :: "nat \<Rightarrow> string" where
  "to_chars16 n = (if n < 16 then [''0123456789abcdef'' ! n]
     else to_chars16 (n div 16) @ [''0123456789abcdef'' ! (n mod 16)])"

declare to_chars16.simps [simp del]

definition toupper :: "char \<Rightarrow> char" where
  "toupper c = (let n = of_char c :: nat in if 97 \<le> n \<and> n \<le> 122 then char_of (n - 32) else c)"

definition hex_digits :: string where
  "hex_digits = ''0123456789ABCDEF''"

definition CR :: char where
  "CR = CHR 0x0D"

definition EncodeLawicel :: "can_frame \<Rightarrow> string option" where
  "EncodeLawicel frame =
     (if 8 < length (frame_data frame) \<or> 0x1FFFFFFF < frame_id frame then None
      else
        let extended = 0x7FF < frame_id frame;
            id_buffer = to_chars16 (unat (frame_id frame));
            id_width = (if extended then 8 else 3);
            id = replicate (id_width - length id_buffer) CHR ''0'' @ map toupper id_buffer
        in Some ((if extended then CHR ''T'' else CHR ''t'') # id @
             [char_of (48 + length (frame_data frame))] @
             concat (map (\<lambda>b. [hex_digits ! unat (drop_bit 4 b), hex_digits ! unat (b AND 0x0F)]) (frame_data frame)) @
             [CR]))"

fun parse_data :: "nat \<Rightarrow> string \<Rightarrow> bytes option" where
  "parse_data 0 _ = Some []"
| "parse_data (Suc n) text =
     (let high = HexValue (text ! 0); low = HexValue (text ! 1) in
      if high < 0 \<or> low < 0 then None
      else map_option (Cons (word_of_int (push_bit 4 high OR low))) (parse_data n (drop 2 text)))"

definition ParseLine :: "string \<Rightarrow> can_frame option" where
  "ParseLine line =
     (if line = [] \<or> (line ! 0 \<noteq> CHR ''t'' \<and> line ! 0 \<noteq> CHR ''T'') then None
      else
        let id_width = (if line ! 0 = CHR ''t'' then 3 else 8) in
        if length line < 1 + id_width + 1 then None
        else case ParseHex (take id_width (drop 1 line)) of
          None \<Rightarrow> None
        | Some ident \<Rightarrow>
            if (id_width = 3 \<and> 0x7FF < ident) \<or> 0x1FFFFFFF < ident then None
            else
              let length_char = line ! (1 + id_width) in
              if of_char length_char < (48 :: nat) \<or> (56 :: nat) < of_char length_char then None
              else
                let len = of_char length_char - 48 in
                if length line \<noteq> 1 + id_width + 1 + len * 2 then None
                else map_option (\<lambda>d. \<lparr>frame_id = ident, frame_data = d\<rparr>)
                       (parse_data len (drop (1 + id_width + 1) line)))"

definition start_chars :: string where
  "start_chars = ''tTV''"

function lawicel_scan :: "string \<Rightarrow> can_frame list \<times> string" where
  "lawicel_scan buf =
     (let b = dropWhile (\<lambda>c. c \<notin> set start_chars) buf in
      if b = [] then ([], if 64 < length buf then [] else buf)
      else if CR \<notin> set b then
        (if 64 < length b then lawicel_scan (tl b) else ([], b))
      else
        let line = takeWhile (\<lambda>c. c \<noteq> CR) b; r = lawicel_scan (tl (dropWhile (\<lambda>c. c \<noteq> CR) b)) in
        if line \<noteq> [] \<and> line ! 0 = CHR ''V'' then r
        else case ParseLine line of None \<Rightarrow> r | Some f \<Rightarrow> (f # fst r, snd r))"
  by pat_completeness auto
termination
proof (relation "measure length", goal_cases)
  case 1
  then show ?case by simp
next
  case (2 buf b)
  then show ?case
    using length_dropWhile_le [of "\<lambda>c. c \<notin> set start_chars" buf] by (cases b) auto
next
  case (3 buf b line)
  then show ?case
    using length_dropWhile_le [of "\<lambda>c. c \<notin> set start_chars" buf]
      length_dropWhile_le [of "\<lambda>c. c \<noteq> CR" b] by (cases "dropWhile (\<lambda>c. c \<noteq> CR) b") auto
qed

declare lawicel_scan.simps [simp del]

definition LawicelFeed :: "string \<Rightarrow> string \<Rightarrow> can_frame list \<times> string" where
  "LawicelFeed m_buffer new = lawicel_scan (m_buffer @ new)"

definition LawicelBufferedBytes :: "string \<Rightarrow> nat" where
  "LawicelBufferedBytes m_buffer = length m_buffer"

subsection \<open>Hexadecimal text\<close>

lemma less16E:
  assumes "d < (16 :: nat)"
  obtains "d = 0" | "d = 1" | "d = 2" | "d = 3" | "d = 4" | "d = 5" | "d = 6" | "d = 7" | "d = 8"
    | "d = 9" | "d = 10" | "d = 11" | "d = 12" | "d = 13" | "d = 14" | "d = 15"
proof -
  from assms have "d = 0 \<or> d = 1 \<or> d = 2 \<or> d = 3 \<or> d = 4 \<or> d = 5 \<or> d = 6 \<or> d = 7 \<or> d = 8 \<or> d = 9 \<or>
      d = 10 \<or> d = 11 \<or> d = 12 \<or> d = 13 \<or> d = 14 \<or> d = 15" by arith
  then show thesis using that by blast
qed

lemma HexValue_lower: "d < 16 \<Longrightarrow> HexValue (toupper (''0123456789abcdef'' ! d)) = int d"
  by (elim less16E) (simp_all add: HexValue_def toupper_def Let_def)

lemma HexValue_upper: "d < 16 \<Longrightarrow> HexValue (hex_digits ! d) = int d"
  by (elim less16E) (simp_all add: HexValue_def hex_digits_def Let_def)

lemma hex_digits_not_CR: "d < 16 \<Longrightarrow> hex_digits ! d \<noteq> CR"
  by (elim less16E) (simp_all add: CR_def hex_digits_def)

lemma lower_not_CR: "d < 16 \<Longrightarrow> toupper (''0123456789abcdef'' ! d) \<noteq> CR"
  by (elim less16E) (simp_all add: CR_def toupper_def char_of_eq_iff Let_def)

lemma parse_hex_from_append:
  "parse_hex_from v (xs @ ys) = Option.bind (parse_hex_from v xs) (\<lambda>w. parse_hex_from w ys)"
  by (induction xs arbitrary: v) (simp_all add: Let_def)

lemma HexValue_0 [simp]: "HexValue CHR ''0'' = 0"
  by (simp add: HexValue_def)

lemma parse_hex_from_zeros [simp]: "parse_hex_from 0 (replicate k CHR ''0'' @ s) = parse_hex_from 0 s"
  by (induction k) simp_all

lemma shift_digit: "r < 16 \<Longrightarrow> (push_bit 4 (word_of_nat q) OR word_of_nat r :: u32) = word_of_nat (16 * q + r)"
proof -
  assume r: "r < 16"
  then have t: "take_bit 4 r = r" by (simp add: take_bit_nat_eq_self)
  have "(push_bit 4 (word_of_nat q) AND word_of_nat r :: u32) = 0"
  proof (rule bit_word_eqI)
    fix n assume "n < LENGTH(32)"
    have "bit r n \<Longrightarrow> n < 4" by (metis t bit_take_bit_iff)
    then show "bit (push_bit 4 (word_of_nat q) AND word_of_nat r :: u32) n = bit (0 :: u32) n"
      by (auto simp: bit_simps)
  qed
  then have "(push_bit 4 (word_of_nat q) OR word_of_nat r :: u32) = push_bit 4 (word_of_nat q) + word_of_nat r"
    by (simp add: disjunctive_add_eq_or)
  then show ?thesis by (simp add: push_bit_eq_mult)
qed

lemma parse_to_chars16: "parse_hex_from 0 (map toupper (to_chars16 n)) = Some (word_of_nat n)"
proof (induction n rule: less_induct)
  case (less n)
  show ?case
  proof (cases "n < 16")
    case True
    then show ?thesis by (subst to_chars16.simps) (simp add: HexValue_lower Let_def)
  next
    case False
    have "parse_hex_from 0 (map toupper (to_chars16 (n div 16))) = Some (word_of_nat (n div 16))"
      using False by (intro less.IH) simp
    then show ?thesis
      using False shift_digit [of "n mod 16" "n div 16"]
      by (subst to_chars16.simps) (simp add: parse_hex_from_append HexValue_lower Let_def)
  qed
qed

lemma length_to_chars16: "0 < k \<Longrightarrow> n < 16 ^ k \<Longrightarrow> length (to_chars16 n) \<le> k"
proof (induction k arbitrary: n)
  case 0
  then show ?case by simp
next
  case (Suc k)
  show ?case
  proof (cases "n < 16")
    case True
    then show ?thesis by (subst to_chars16.simps) simp
  next
    case False
    with Suc.prems have "0 < k" by (cases k) auto
    moreover from Suc.prems have "n div 16 < 16 ^ k" by (simp add: less_mult_imp_div_less mult.commute)
    ultimately have "length (to_chars16 (n div 16)) \<le> k" by (rule Suc.IH)
    with False show ?thesis by (subst to_chars16.simps) simp
  qed
qed

lemma to_chars16_chars: "c \<in> set (to_chars16 n) \<Longrightarrow> \<exists>d < 16. c = ''0123456789abcdef'' ! d"
proof (induction n rule: less_induct)
  case (less n)
  show ?case
  proof (cases "n < 16")
    case True
    with less.prems show ?thesis by (subst (asm) to_chars16.simps) auto
  next
    case False
    with less.prems have "c \<in> set (to_chars16 (n div 16)) \<or> c = ''0123456789abcdef'' ! (n mod 16)"
      by (subst (asm) to_chars16.simps) auto
    moreover have "n mod 16 < 16" by simp
    ultimately show ?thesis using less.IH [of "n div 16"] False by (elim disjE) (auto simp del: mod_less_divisor)
  qed
qed

lemma nibbles_u8: "(word_of_int (push_bit 4 (int (unat (drop_bit 4 b))) OR int (unat (b AND 0x0F))) :: u8) = b"
proof (rule bit_word_eqI)
  have m: "(0x0F :: u8) = mask 4" by (simp add: mask_eq_exp_minus_1)
  fix n assume "n < LENGTH(8)"
  then show "bit (word_of_int (push_bit 4 (int (unat (drop_bit 4 b))) OR int (unat (b AND 0x0F))) :: u8) n = bit b n"
    by (cases "n < 4") (auto simp: m bit_simps uint_nat [symmetric] dest: bit_imp_le_length)
qed

lemma unat_nibble_high: "unat (drop_bit 4 (b :: u8)) < 16"
proof -
  have "unat (drop_bit 4 b) = unat b div 16"
    by (simp only: unat_drop_bit_eq) (simp add: drop_bit_eq_div)
  then show ?thesis using unat_u8_less [of b] by linarith
qed

lemma unat_nibble_low: "unat (b AND 0x0F :: u8) < 16"
proof -
  have "b AND 0x0F \<le> 0x0F" by (rule word_and_le1)
  then show ?thesis by (simp add: word_le_nat_alt)
qed

lemma parse_data_hex:
  "parse_data (length d)
     (concat (map (\<lambda>b. [hex_digits ! unat (drop_bit 4 b), hex_digits ! unat (b AND 0x0F)]) d) @ rest) = Some d"
  by (induction d)
    (simp_all add: HexValue_upper unat_nibble_high unat_nibble_low nibbles_u8 [simplified] Let_def)

subsection \<open>Lines\<close>

lemma id_fits: "frame_id f \<le> 0x1FFFFFFF \<Longrightarrow> length (to_chars16 (unat (frame_id f))) \<le> 8"
  by (rule length_to_chars16) (simp_all add: word_le_nat_alt)

lemma short_id_fits: "\<not> 0x7FF < frame_id f \<Longrightarrow> length (to_chars16 (unat (frame_id f))) \<le> 3"
  by (rule length_to_chars16) (simp_all add: word_less_nat_alt)

lemma EncodeLawicel_line:
  assumes "EncodeLawicel f = Some w"
  obtains line where "w = line @ [CR]" and "CR \<notin> set line" and "length line \<le> 26"
    and "line \<noteq> []" and "line ! 0 \<in> {CHR ''t'', CHR ''T''}" and "ParseLine line = Some f"
proof -
  let ?ext = "0x7FF < frame_id f"
  let ?w = "if ?ext then 8 else 3 :: nat"
  let ?c = "to_chars16 (unat (frame_id f))"
  let ?id = "replicate (?w - length ?c) CHR ''0'' @ map toupper ?c"
  let ?l = "char_of (48 + length (frame_data f)) :: char"
  let ?d = "concat (map (\<lambda>b. [hex_digits ! unat (drop_bit 4 b), hex_digits ! unat (b AND 0x0F)]) (frame_data f))"
  let ?t = "if ?ext then CHR ''T'' else CHR ''t''"
  let ?line = "?t # ?id @ ?l # ?d"
  from assms have ok: "length (frame_data f) \<le> 8" "frame_id f \<le> 0x1FFFFFFF" and w: "w = ?line @ [CR]"
    by (auto simp: EncodeLawicel_def Let_def split: if_splits)
  have lid: "length ?id = ?w" using id_fits [OF ok(2)] short_id_fits [of f] by simp
  have ld: "length ?d = 2 * length (frame_data f)"
    by (simp add: length_concat comp_def sum_list_triv)
  have oc: "(of_char ?l :: nat) = 48 + length (frame_data f)" using ok(1) by simp
  have lcr: "?l \<noteq> CR"
  proof
    assume "?l = CR"
    then have "(of_char ?l :: nat) = of_char CR" by simp
    then show False unfolding oc by (simp add: CR_def)
  qed
  have "CR \<notin> set ?id"
    using lower_not_CR to_chars16_chars [of _ "unat (frame_id f)"] by (fastforce simp: CR_def)
  moreover have "CR \<notin> set ?d"
    using hex_digits_not_CR unat_nibble_high unat_nibble_low by (auto simp: eq_commute [of CR])
  ultimately have nocr: "CR \<notin> set ?line" using lcr by (auto simp: CR_def)
  have ph: "ParseHex ?id = Some (frame_id f)"
  proof -
    have "length ?id \<noteq> 0" unfolding lid by simp
    then have "?id \<noteq> []" by (simp only: length_0_conv not_False_eq_True)
    moreover have "parse_hex_from 0 ?id = Some (word_of_nat (unat (frame_id f)))"
      by (simp only: parse_hex_from_zeros parse_to_chars16)
    ultimately show ?thesis by (simp only: ParseHex_def if_False) simp
  qed
  have "ParseLine ?line = Some f"
  proof -
    have tw: "take ?w (drop 1 ?line) = ?id" using lid by simp
    have ll: "length ?line = 1 + ?w + 1 + length (frame_data f) * 2" using lid ld by simp
    have nl: "?line ! (1 + ?w) = ?l" using lid by (simp add: nth_append)
    have dd: "drop (1 + ?w + 1) ?line = ?d" using lid by simp
    have pd: "parse_data (length (frame_data f)) ?d = Some (frame_data f)"
      using parse_data_hex [of "frame_data f" "[]"] by simp
    have hd: "?line ! 0 = ?t" by simp
    have iw: "(if ?t = CHR ''t'' then 3 else 8) = ?w" by simp
    show ?thesis
      unfolding ParseLine_def Let_def hd iw tw ph ll nl dd oc using ok pd by auto
  qed
  then show thesis
    by (intro that [of ?line]) (use w nocr lid ld ok(1) in \<open>auto split: if_splits\<close>)
qed

subsection \<open>Chunking\<close>

text \<open>No line of \<open>s\<close>, nor its last unfinished one, is longer than 64 characters.\<close>

fun lines_short :: "nat \<Rightarrow> string \<Rightarrow> bool" where
  "lines_short n [] \<longleftrightarrow> n \<le> 64"
| "lines_short n (c # s) \<longleftrightarrow> (if c = CR then n \<le> 64 \<and> lines_short 0 s else lines_short (Suc n) s)"

lemma lines_short_mono: "lines_short n s \<Longrightarrow> m \<le> n \<Longrightarrow> lines_short m s"
  by (induction s arbitrary: m n) (auto split: if_splits)

lemma lines_short_suffix: "lines_short n (x @ y) \<Longrightarrow> lines_short 0 y"
  by (induction x arbitrary: n) (auto split: if_splits intro: lines_short_mono)

lemma lines_short_length: "CR \<notin> set x \<Longrightarrow> lines_short n (x @ y) \<Longrightarrow> n + length x \<le> 64"
proof (induction x arbitrary: n)
  case Nil
  have "lines_short n y \<Longrightarrow> n \<le> 64" by (induction y arbitrary: n) (auto split: if_splits dest: Suc_leD)
  with Nil show ?case by simp
next
  case (Cons c x)
  then have "Suc n + length x \<le> 64" by (intro Cons.IH) auto
  then show ?case by simp
qed

lemma lines_short_line: "CR \<notin> set x \<Longrightarrow> n + length x \<le> 64 \<Longrightarrow> lines_short n (x @ CR # y) = lines_short 0 y"
  by (induction x arbitrary: n) auto

definition trimmed :: "string \<Rightarrow> string" where
  "trimmed buf = dropWhile (\<lambda>c. c \<notin> set start_chars) buf"

lemma lawicel_scan_trimmed:
  "lawicel_scan buf =
     (let b = trimmed buf in
      if b = [] then ([], if 64 < length buf then [] else buf)
      else if CR \<notin> set b then (if 64 < length b then lawicel_scan (tl b) else ([], b))
      else
        let line = takeWhile (\<lambda>c. c \<noteq> CR) b; r = lawicel_scan (tl (dropWhile (\<lambda>c. c \<noteq> CR) b)) in
        if line \<noteq> [] \<and> line ! 0 = CHR ''V'' then r
        else case ParseLine line of None \<Rightarrow> r | Some f \<Rightarrow> (f # fst r, snd r))"
  unfolding trimmed_def by (rule lawicel_scan.simps)

text \<open>Two buffers the decoder treats alike: they differ only in noise before the first
  start character.\<close>

definition alike :: "can_frame list \<times> string \<Rightarrow> can_frame list \<times> string \<Rightarrow> bool" where
  "alike p q \<longleftrightarrow> fst p = fst q \<and> trimmed (snd p) = trimmed (snd q)"

lemma alike_scan: "trimmed x = trimmed y \<Longrightarrow> alike (lawicel_scan x) (lawicel_scan y)"
proof (cases "trimmed y = []")
  case True
  moreover assume "trimmed x = trimmed y"
  ultimately show ?thesis
    by (simp add: alike_def lawicel_scan_trimmed [of x] lawicel_scan_trimmed [of y]) (simp add: trimmed_def)
next
  case False
  moreover assume "trimmed x = trimmed y"
  ultimately have "lawicel_scan x = lawicel_scan y"
    by (simp only: lawicel_scan_trimmed [of x] lawicel_scan_trimmed [of y] Let_def if_False)
  then show ?thesis by (simp add: alike_def)
qed

lemma trimmed_append: "trimmed (x @ y) = (if trimmed x = [] then trimmed y else trimmed x @ y)"
  by (induction x) (auto simp: trimmed_def)

lemma trimmed_suffix: "\<exists>n. x = n @ trimmed x"
  unfolding trimmed_def by (metis takeWhile_dropWhile_id)

lemma trimmed_idem [simp]: "trimmed (trimmed x) = trimmed x"
  by (simp add: trimmed_def)

lemma alike_trans: "alike p q \<Longrightarrow> alike q r \<Longrightarrow> alike p r"
  by (simp add: alike_def)

definition prefix_frames :: "can_frame list \<Rightarrow> can_frame list \<times> string \<Rightarrow> can_frame list \<times> string" where
  "prefix_frames fs p = (fs @ fst p, snd p)"

lemma prefix_frames_simps [simp]:
  "fst (prefix_frames fs p) = fs @ fst p" "snd (prefix_frames fs p) = snd p"
  "prefix_frames [] p = p" "prefix_frames gs (prefix_frames fs p) = prefix_frames (gs @ fs) p"
  by (simp_all add: prefix_frames_def)

lemma alike_prefix [simp]: "alike (prefix_frames fs p) (prefix_frames fs q) \<longleftrightarrow> alike p q"
  by (simp add: alike_def)

definition line_frames :: "string \<Rightarrow> can_frame list" where
  "line_frames line =
     (if line \<noteq> [] \<and> line ! 0 = CHR ''V'' then []
      else case ParseLine line of None \<Rightarrow> [] | Some f \<Rightarrow> [f])"

lemma lawicel_scan_line:
  assumes "trimmed buf = line @ CR # rest" and "CR \<notin> set line"
  shows "lawicel_scan buf = prefix_frames (line_frames line) (lawicel_scan rest)"
proof -
  have "takeWhile (\<lambda>c. c \<noteq> CR) (line @ CR # rest) = line"
    and "dropWhile (\<lambda>c. c \<noteq> CR) (line @ CR # rest) = CR # rest"
    using assms(2) by (simp_all add: takeWhile_append dropWhile_append)
  then show ?thesis
    by (subst lawicel_scan_trimmed)
      (simp add: assms(1) Let_def line_frames_def prefix_frames_def split: option.split)
qed

lemma lawicel_scan_append:
  "lines_short 0 (a @ c) \<Longrightarrow>
   alike (lawicel_scan (a @ c)) (prefix_frames (fst (lawicel_scan a)) (lawicel_scan (snd (lawicel_scan a) @ c)))"
proof (induction "length a" arbitrary: a rule: less_induct)
  case less
  obtain n where n: "a = n @ trimmed a" using trimmed_suffix by blast
  consider (noise) "trimmed a = []" | (pending) "trimmed a \<noteq> []" "CR \<notin> set (trimmed a)"
    | (line) "CR \<in> set (trimmed a)" by blast
  then show ?case
  proof cases
    case noise
    then have s: "lawicel_scan a = ([], if 64 < length a then [] else a)"
      by (simp add: lawicel_scan_trimmed)
    have "trimmed (a @ c) = trimmed ((if 64 < length a then [] else a) @ c)"
      using noise by (simp add: trimmed_append) (simp add: trimmed_def)
    then show ?thesis by (simp only: s fst_conv snd_conv prefix_frames_simps alike_scan)
  next
    case pending
    have "lines_short 0 (trimmed a @ c)"
      using less.prems n lines_short_suffix [of 0 n "trimmed a @ c"] by (metis append.assoc)
    then have "length (trimmed a) \<le> 64"
      using lines_short_length [OF pending(2)] by force
    then have s: "lawicel_scan a = ([], trimmed a)"
      using pending by (simp add: lawicel_scan_trimmed)
    have "trimmed (a @ c) = trimmed (trimmed a @ c)"
      using pending by (simp add: trimmed_append)
    then show ?thesis by (simp only: s fst_conv snd_conv prefix_frames_simps alike_scan)
  next
    case line
    then obtain l r where l: "trimmed a = l @ CR # r" "CR \<notin> set l"
      by (metis split_list_first)
    have a: "lawicel_scan a = prefix_frames (line_frames l) (lawicel_scan r)"
      by (rule lawicel_scan_line [OF l])
    have "trimmed (a @ c) = l @ CR # (r @ c)" using l by (simp add: trimmed_append)
    then have ac: "lawicel_scan (a @ c) = prefix_frames (line_frames l) (lawicel_scan (r @ c))"
      by (rule lawicel_scan_line) (rule l)
    have len: "length r < length a"
      using arg_cong [OF n, of length] l(1) by simp
    have "a @ c = (n @ l @ [CR]) @ (r @ c)" using n l(1) by simp
    then have "lines_short 0 (r @ c)" using less.prems lines_short_suffix by metis
    from less.hyps [OF len this] show ?thesis
      unfolding a ac by (simp flip: prefix_frames_simps(4))
  qed
qed

lemma lawicel_scan_idem: "lawicel_scan (snd (lawicel_scan a)) = ([], snd (lawicel_scan a))"
proof (induction a rule: lawicel_scan.induct)
  case (1 buf)
  let ?b = "trimmed buf"
  consider (noise) "?b = []" | (long) "?b \<noteq> []" "CR \<notin> set ?b" "64 < length ?b"
    | (short) "?b \<noteq> []" "CR \<notin> set ?b" "\<not> 64 < length ?b" | (line) "?b \<noteq> []" "CR \<in> set ?b" by blast
  then show ?case
  proof cases
    case noise
    then have "lawicel_scan buf = ([], if 64 < length buf then [] else buf)"
      by (simp add: lawicel_scan_trimmed)
    moreover have "trimmed [] = []" by (simp add: trimmed_def)
    ultimately show ?thesis using noise by (simp add: lawicel_scan_trimmed)
  next
    case long
    then have "lawicel_scan buf = lawicel_scan (tl ?b)" by (simp add: lawicel_scan_trimmed [of buf])
    with 1(1) long show ?thesis by (simp add: trimmed_def)
  next
    case short
    then have "lawicel_scan buf = ([], ?b)" by (simp add: lawicel_scan_trimmed [of buf])
    then show ?thesis using short by (simp add: lawicel_scan_trimmed [of ?b])
  next
    case line
    then obtain l r where l: "?b = l @ CR # r" "CR \<notin> set l" by (metis split_list_first)
    have r: "tl (dropWhile (\<lambda>c. c \<noteq> CR) ?b) = r" using l by (simp add: dropWhile_append)
    have "lawicel_scan (snd (lawicel_scan r)) = ([], snd (lawicel_scan r))"
      using 1(2) line r unfolding trimmed_def by metis
    then show ?thesis by (simp add: lawicel_scan_line [OF l])
  qed
qed

lemma lawicel_rest_suffix: "\<exists>x. a = x @ snd (lawicel_scan a)"
proof (induction "length a" arbitrary: a rule: less_induct)
  case less
  let ?b = "trimmed a"
  obtain n where n: "a = n @ ?b" using trimmed_suffix by blast
  show ?case
  proof (cases "CR \<in> set ?b")
    case True
    then obtain l r where l: "?b = l @ CR # r" "CR \<notin> set l" by (metis split_list_first)
    have "length r < length a" using arg_cong [OF n, of length] l(1) by simp
    then obtain x where "r = x @ snd (lawicel_scan r)" using less by blast
    then have "n @ l @ CR # r = (n @ l @ CR # x) @ snd (lawicel_scan a)"
      by (simp add: lawicel_scan_line [OF l])
    moreover have "a = n @ l @ CR # r" using n l(1) by simp
    ultimately show ?thesis by metis
  next
    case False
    show ?thesis
    proof (cases "?b \<noteq> [] \<and> 64 < length ?b")
      case True
      then have s: "lawicel_scan a = lawicel_scan (tl ?b)"
        using False by (simp add: lawicel_scan_trimmed [of a])
      have "length (tl ?b) < length a" using True arg_cong [OF n, of length] by (cases ?b) auto
      then obtain x where "tl ?b = x @ snd (lawicel_scan (tl ?b))" using less by blast
      then have "a = (n @ hd ?b # x) @ snd (lawicel_scan a)"
        using n True by (simp add: s)
      then show ?thesis by blast
    next
      case short: False
      then have "snd (lawicel_scan a) \<in> {[], a, ?b}"
        using False by (subst lawicel_scan_trimmed) (auto simp: Let_def)
      with n show ?thesis by (metis append_Nil append_Nil2 empty_iff insert_iff)
    qed
  qed
qed

lemma lawicel_rest_bounded: "length (snd (lawicel_scan a)) \<le> 64"
proof (induction "length a" arbitrary: a rule: less_induct)
  case less
  let ?b = "trimmed a"
  obtain n where n: "a = n @ ?b" using trimmed_suffix by blast
  show ?case
  proof (cases "CR \<in> set ?b")
    case True
    then obtain l r where l: "?b = l @ CR # r" "CR \<notin> set l" by (metis split_list_first)
    have "length r < length a" using arg_cong [OF n, of length] l(1) by simp
    with less show ?thesis by (simp add: lawicel_scan_line [OF l])
  next
    case False
    have "?b \<noteq> [] \<Longrightarrow> length (tl ?b) < length a"
      using arg_cong [OF n, of length] by (cases ?b) auto
    with False less show ?thesis
      by (subst lawicel_scan_trimmed) (auto simp: Let_def not_less)
  qed
qed

lemma lawicel_feed_all:
  "lines_short 0 (b @ concat chunks) \<Longrightarrow> lawicel_scan b = ([], b) \<Longrightarrow>
   alike (feed_all LawicelFeed b chunks) (lawicel_scan (b @ concat chunks))"
proof (induction chunks arbitrary: b)
  case Nil
  then show ?case by (simp add: alike_def)
next
  case (Cons c cs)
  let ?r = "lawicel_scan (b @ c)"
  have app: "alike (lawicel_scan ((b @ c) @ concat cs))
      (prefix_frames (fst ?r) (lawicel_scan (snd ?r @ concat cs)))"
    using Cons.prems(1) by (intro lawicel_scan_append) simp
  have short: "lines_short 0 (snd ?r @ concat cs)"
    using Cons.prems(1) lawicel_rest_suffix [of "b @ c"] lines_short_suffix [of 0 _ "snd ?r @ concat cs"]
    by (metis append.assoc concat.simps(2))
  have "alike (feed_all LawicelFeed (snd ?r) cs) (lawicel_scan (snd ?r @ concat cs))"
    by (rule Cons.IH [OF short lawicel_scan_idem])
  then have "alike (feed_all LawicelFeed b (c # cs)) (prefix_frames (fst ?r) (lawicel_scan (snd ?r @ concat cs)))"
    by (simp add: alike_def LawicelFeed_def [of b c] Let_def)
  with app show ?case by (simp add: alike_def)
qed

text \<open>Lines of frames with noise that contains no start character before each.\<close>

lemma lawicel_scan_stream:
  assumes "length noises = length frames" and "\<forall>n \<in> set noises. set n \<inter> set start_chars = {}"
    and "\<forall>f \<in> set frames. EncodeLawicel f \<noteq> None"
  shows "fst (lawicel_scan (concat (map2 (\<lambda>n f. n @ the (EncodeLawicel f)) noises frames))) = frames"
  using assms
proof (induction noises frames rule: list_induct2)
  case Nil
  have "trimmed [] = []" by (simp add: trimmed_def)
  then show ?case by (simp add: lawicel_scan_trimmed)
next
  case (Cons n ns f fs)
  let ?rest = "concat (map2 (\<lambda>n f. n @ the (EncodeLawicel f)) ns fs)"
  from Cons.prems obtain w where w: "EncodeLawicel f = Some w" by auto
  obtain line where l: "w = line @ [CR]" "CR \<notin> set line" "line \<noteq> []"
    "line ! 0 \<in> {CHR ''t'', CHR ''T''}" "ParseLine line = Some f"
    using EncodeLawicel_line [OF w] by metis
  have tn: "trimmed n = []" using Cons.prems(1) by (auto simp: trimmed_def dropWhile_eq_Nil_conv)
  have tl: "trimmed (line @ CR # ?rest) = line @ CR # ?rest"
    using l(3,4) by (cases line) (auto simp: trimmed_def start_chars_def)
  have "trimmed (n @ line @ CR # ?rest) = line @ CR # ?rest"
    using tn tl by (simp add: trimmed_append)
  from lawicel_scan_line [OF this l(2)] have
    "lawicel_scan (n @ line @ CR # ?rest) = prefix_frames (line_frames line) (lawicel_scan ?rest)" .
  moreover have "line_frames line = [f]" using l(3-5) by (auto simp: line_frames_def)
  ultimately show ?case using Cons w l(1) by simp
qed

lemma lines_short_stream:
  assumes "length noises = length frames" and "\<forall>n \<in> set noises. length n \<le> 32 \<and> CR \<notin> set n"
    and "\<forall>f \<in> set frames. EncodeLawicel f \<noteq> None"
  shows "lines_short 0 (concat (map2 (\<lambda>n f. n @ the (EncodeLawicel f)) noises frames))"
  using assms
proof (induction noises frames rule: list_induct2)
  case (Cons n ns f fs)
  from Cons.prems obtain w where w: "EncodeLawicel f = Some w" by auto
  obtain line where l: "w = line @ [CR]" "CR \<notin> set line" "length line \<le> 26"
    using EncodeLawicel_line [OF w] by metis
  show ?case
    using Cons w l lines_short_line [of "n @ line" 0] by simp
qed simp

text \<open>
  The Lawicel decoder never keeps more than 64 characters, and as long as no line of the
  stream is longer than 64 characters, the frames it returns do not depend on how the stream
  is split into chunks.
\<close>

theorem LawicelFeed_chunking:
  assumes "lines_short 0 (concat chunks)"
  shows "fst (feed_all LawicelFeed [] chunks) = fst (LawicelFeed [] (concat chunks)) \<and>
    LawicelBufferedBytes (snd (LawicelFeed buf new)) \<le> 64"
proof
  have "lawicel_scan [] = ([], [])" by (simp add: lawicel_scan_trimmed) (simp add: trimmed_def)
  then show "fst (feed_all LawicelFeed [] chunks) = fst (LawicelFeed [] (concat chunks))"
    using lawicel_feed_all [of "[]" chunks] assms by (simp add: alike_def LawicelFeed_def)
  show "LawicelBufferedBytes (snd (LawicelFeed buf new)) \<le> 64"
    by (simp add: LawicelBufferedBytes_def LawicelFeed_def lawicel_rest_bounded)
qed

text \<open>
  C13: frames encoded as Lawicel lines and received in any chunks, with up to 32 characters of
  noise that start no line before each, are returned exactly and in order.
\<close>

theorem Lawicel_roundtrip:
  assumes "\<forall>f \<in> set frames. length (frame_data f) \<le> 8 \<and> frame_id f \<le> 0x1FFFFFFF"
    and "length noises = length frames"
    and "\<forall>n \<in> set noises. set n \<inter> set (CR # start_chars) = {} \<and> length n \<le> 32"
    and "concat chunks = concat (map2 (\<lambda>n f. n @ the (EncodeLawicel f)) noises frames)"
  shows "fst (feed_all LawicelFeed [] chunks) = frames"
proof -
  have some: "\<forall>f \<in> set frames. EncodeLawicel f \<noteq> None"
    using assms(1) by (auto simp: EncodeLawicel_def Let_def not_less)
  have "lines_short 0 (concat chunks)"
    unfolding assms(4) by (rule lines_short_stream) (use assms some in auto)
  moreover have "lawicel_scan [] = ([], [])" by (simp add: lawicel_scan_trimmed) (simp add: trimmed_def)
  ultimately have "fst (feed_all LawicelFeed [] chunks) = fst (lawicel_scan (concat chunks))"
    using lawicel_feed_all [of "[]" chunks] by (simp add: alike_def)
  also have "\<dots> = frames"
    unfolding assms(4) by (rule lawicel_scan_stream) (use assms some in auto)
  finally show ?thesis .
qed

theorem LawicelFeed_chunking_witness:
  "fst (feed_all LawicelFeed [] [''t12'', ''30'' @ [CR]]) = fst (LawicelFeed [] (concat [''t12'', ''30'' @ [CR]])) \<and>
   LawicelBufferedBytes (snd (LawicelFeed ''V'' ''x'')) \<le> 64"
  by (rule LawicelFeed_chunking) (simp add: CR_def)

theorem Lawicel_roundtrip_witness:
  "fst (feed_all LawicelFeed [] [''z'' @ the (EncodeLawicel sample_can_frame)]) = [sample_can_frame]"
  by (rule Lawicel_roundtrip [where noises = "[''z'']"])
    (simp_all add: sample_can_frame_def CR_def start_chars_def)

end
