(* ===== verification/TcpMessages.thy ===== *)
theory TcpMessages
  imports CanCodecs
begin

text \<open>
  Requests of the TCP back end.  Source: \<open>src/TcpMessageParser.cpp\<close>, \<open>src/TcpMessageParser.hpp\<close>,
  \<open>src/TcpMessageExecutor.cpp\<close>: classification of a request, the check of a path received from
  the network, and the executor, whose file system, drive letter and the calls it makes are
  the environment and the effects of the model.
\<close>

section \<open>Routes\<close>

definition MaxMessageSize :: nat where "MaxMessageSize = 1024"
definition MaxExplorerPathLength :: nat where "MaxExplorerPathLength = 255"

datatype tcp_command = Measurements | OpenExplorer | Graph

record parsed_message =
  pm_command :: tcp_command
  pm_argument :: string

definition GraphRoutes :: "(string \<times> string) list" where
  "GraphRoutes =
     [(''GET /graphs'', ''Temperature.html''), (''GET /Temperature'', ''Temperature.html''),
      (''GET /Humidity'', ''Humidity.html''), (''GET /CO2'', ''CO2.html''), (''GET /VOC'', ''VOC.html''),
      (''GET /CO'', ''CO.html''), (''GET /PM25'', ''PM25.html''), (''GET /PM10'', ''PM10.html''),
      (''GET /Pressure'', ''Pressure.html''), (''GET /R'', ''R.html''), (''GET /G'', ''G.html''),
      (''GET /B'', ''B.html''), (''GET /Lux'', ''Lux.html''), (''GET /CCT'', ''CCT.html''),
      (''GET /UV'', ''UV.html''), (''GET /Chart.min.js.download'', ''Chart.min.js.download''),
      (''GET /utils.js.download'', ''utils.js.download'')]"

definition starts_with :: "string \<Rightarrow> string \<Rightarrow> bool" where
  "starts_with message start \<longleftrightarrow> take (length start) message = start"

definition ends_with :: "string \<Rightarrow> string \<Rightarrow> bool" where
  "ends_with message end \<longleftrightarrow> length end \<le> length message \<and> drop (length message - length end) message = end"

definition MatchesHttpRoute :: "string \<Rightarrow> string \<Rightarrow> bool" where
  "MatchesHttpRoute message route \<longleftrightarrow>
     starts_with message route \<and>
     (length message = length route \<or>
      (let delimiter = message ! length route
       in delimiter = CHR '' '' \<or> delimiter = CHR ''?'' \<or> delimiter = CHR 0x0D \<or> delimiter = CHR 0x0A))"

definition BoundedMessage :: "string \<Rightarrow> nat \<Rightarrow> string" where
  "BoundedMessage buffer transferred_bytes = take (min (length buffer) transferred_bytes) buffer"

definition TcpParse :: "string \<Rightarrow> parsed_message option" where
  "TcpParse message =
     (if starts_with message ''MEAS_DATA'' then Some \<lparr>pm_command = Measurements, pm_argument = message\<rparr>
      else if starts_with message ''expw''
      then Some \<lparr>pm_command = OpenExplorer, pm_argument = drop (length ''expw'') message\<rparr>
      else map_option (\<lambda>route. \<lparr>pm_command = Graph, pm_argument = snd route\<rparr>)
             (find (\<lambda>route. MatchesHttpRoute message (fst route)) GraphRoutes))"

section \<open>Explorer paths\<close>

definition IsSeparator :: "char \<Rightarrow> bool" where
  "IsSeparator v \<longleftrightarrow> v = CHR 0x5C \<or> v = CHR ''/''"

definition IsForbiddenPathCharacter :: "char \<Rightarrow> bool" where
  "IsForbiddenPathCharacter v =
     (let byte = of_char v :: nat in
      if byte < 0x20 \<or> 0x7F \<le> byte then True
      else v \<in> {CHR 0x22, CHR ''<'', CHR ''>'', CHR ''|'', CHR ''*'', CHR ''?'', CHR '':''})"

definition strip_line_ending :: "string \<Rightarrow> string" where
  "strip_line_ending path = rev (dropWhile (\<lambda>c. c = CHR 0x0D \<or> c = CHR 0x0A) (rev path))"

lemma component_shorter:
  "path \<noteq> [] \<Longrightarrow> length (dropWhile (\<lambda>c. \<not> IsSeparator c) (dropWhile IsSeparator path)) < length path"
proof (cases path)
  case (Cons c cs)
  then show ?thesis
    by (auto intro: le_less_trans [OF length_dropWhile_le] le_imp_less_Suc order_trans [OF length_dropWhile_le])
qed simp

text \<open>The loop over the components: what is left of the path, and the result so far.\<close>

function normalize :: "string \<Rightarrow> string \<Rightarrow> string option" where
  "normalize path normalized =
     (if path = [] then Some normalized
      else
        let start = dropWhile IsSeparator path;
            component = takeWhile (\<lambda>c. \<not> IsSeparator c) start;
            rest = dropWhile (\<lambda>c. \<not> IsSeparator c) start
        in if component = [] then normalize rest normalized
           else if component = ''.'' then normalize rest normalized
           else if component = ''..'' then None
           else if last component = CHR ''.'' \<or> last component = CHR '' '' then None
           else normalize rest
             ((if 1 < length normalized then normalized @ [CHR 0x5C] else normalized) @ component))"
  by pat_completeness auto

termination by (relation "measure (\<lambda>(path, _). length path)") (auto dest: component_shorter)

declare normalize.simps [simp del]

definition SanitizeExplorerPath :: "string \<Rightarrow> string option" where
  "SanitizeExplorerPath raw_path =
     (let path = strip_line_ending raw_path in
      if path = [] \<or> MaxExplorerPathLength < length path then None
      else if list_ex IsForbiddenPathCharacter path then None
      else if 2 \<le> length path \<and> IsSeparator (path ! 0) \<and> IsSeparator (path ! 1) then None
      else case normalize path [CHR 0x5C] of
        None \<Rightarrow> None
      | Some normalized \<Rightarrow> if length normalized \<le> 1 then None else Some normalized)"

section \<open>The executor\<close>

fun decimal :: "nat \<Rightarrow> string" where
  "decimal n = (if n < 10 then [char_of (48 + n)] else decimal (n div 10) @ [char_of (48 + n mod 10)])"

declare decimal.simps [simp del]

definition CRLF :: string where "CRLF = [CHR 0x0D, CHR 0x0A]"

definition BuildHttpResponse :: "string \<Rightarrow> string \<Rightarrow> string \<Rightarrow> string" where
  "BuildHttpResponse status content_type body =
     ''HTTP/1.1 '' @ status @ CRLF @
     ''Content-Type: '' @ content_type @ CRLF @
     ''Content-Length: '' @ decimal (length body) @ CRLF @
     ''Connection: close'' @ CRLF @ CRLF @ body"

definition ContentTypeFor :: "string \<Rightarrow> string" where
  "ContentTypeFor file_name =
     (if ends_with file_name ''.js'' \<or> ends_with file_name ''.js.download''
      then ''application/javascript; charset=utf-8'' else ''text/html; charset=utf-8'')"

text \<open>The files under \<open>Graphs/\<close>, the configured drive letter and the directories of the machine.\<close>

record tcp_env =
  graph_file :: "string \<Rightarrow> string option"
  shared_drive_letter :: "char option"
  is_directory :: "string \<Rightarrow> bool"

datatype tcp_effect = IncomingMeasurements string | ShellOpen string

record tcp_return =
  should_close :: bool
  recognized :: bool
  response :: string

definition HandleAirQualityData :: "string \<Rightarrow> tcp_effect list \<times> tcp_return" where
  "HandleAirQualityData message =
     ([IncomingMeasurements message], \<lparr>should_close = True, recognized = True, response = []\<rparr>)"

definition isalpha :: "char \<Rightarrow> bool" where
  "isalpha c \<longleftrightarrow> (let n = of_char c :: nat in 65 \<le> n \<and> n \<le> 90 \<or> 97 \<le> n \<and> n \<le> 122)"

definition HandleOpenExplorer :: "tcp_env \<Rightarrow> string \<Rightarrow> tcp_effect list \<times> tcp_return" where
  "HandleOpenExplorer env path =
     (let done = \<lparr>should_close = True, recognized = True, response = []\<rparr> in
      case SanitizeExplorerPath path of
        None \<Rightarrow> ([], done)
      | Some sanitized \<Rightarrow>
          let drive_letter = (case shared_drive_letter env of Some c \<Rightarrow> c | None \<Rightarrow> CHR 0x00);
              full_path = drive_letter # CHR '':'' # sanitized
          in if \<not> isalpha drive_letter then ([], done)
             else if \<not> is_directory env full_path then ([], done)
             else ([ShellOpen full_path], done))"

definition HandleGraphs :: "tcp_env \<Rightarrow> string \<Rightarrow> tcp_effect list \<times> tcp_return" where
  "HandleGraphs env file_on_disk =
     (case graph_file env file_on_disk of
        None \<Rightarrow> ([], \<lparr>should_close = True, recognized = True,
          response = BuildHttpResponse ''404 Not Found'' ''text/plain; charset=utf-8'' (''Graph not available'' @ CRLF)\<rparr>)
      | Some body \<Rightarrow> ([], \<lparr>should_close = True, recognized = True,
          response = BuildHttpResponse ''200 OK'' (ContentTypeFor file_on_disk) body\<rparr>))"

definition TcpProcess :: "tcp_env \<Rightarrow> string \<Rightarrow> tcp_effect list \<times> tcp_return" where
  "TcpProcess env message =
     (case TcpParse message of
        None \<Rightarrow> ([], \<lparr>should_close = True, recognized = False, response = []\<rparr>)
      | Some parsed \<Rightarrow>
          (case pm_command parsed of
             Measurements \<Rightarrow> HandleAirQualityData message
           | OpenExplorer \<Rightarrow> HandleOpenExplorer env (pm_argument parsed)
           | Graph \<Rightarrow> HandleGraphs env (pm_argument parsed)))"

section \<open>Safe paths\<close>

text \<open>A path of components, each after one backslash.\<close>

definition rooted :: "string list \<Rightarrow> string" where
  "rooted components = concat (map (Cons CHR 0x5C) components)"

definition safe_component :: "string \<Rightarrow> bool" where
  "safe_component c \<longleftrightarrow>
     c \<noteq> [] \<and> c \<noteq> ''.'' \<and> c \<noteq> ''..'' \<and> last c \<noteq> CHR ''.'' \<and> last c \<noteq> CHR '' '' \<and>
     (\<forall>ch\<in>set c. \<not> IsSeparator ch \<and> \<not> IsForbiddenPathCharacter ch)"

definition appended :: "string \<Rightarrow> string list \<Rightarrow> string" where
  "appended normalized cs = (if normalized = [CHR 0x5C] \<and> cs \<noteq> [] then rooted cs else normalized @ rooted cs)"

lemma set_dropWhile_subset: "set (dropWhile P xs) \<subseteq> set xs"
  by (auto dest: set_dropWhileD)

lemma normalize_safe:
  assumes "normalize path normalized = Some r" and "\<forall>c\<in>set path. \<not> IsForbiddenPathCharacter c"
    and "normalized = [CHR 0x5C] \<or> 1 < length normalized"
  shows "\<exists>cs. (\<forall>c\<in>set cs. safe_component c) \<and> r = appended normalized cs"
  using assms
proof (induction path normalized rule: normalize.induct)
  case (1 path normalized)
  show ?case
  proof (cases "path = []")
    case True
    with 1 show ?thesis by (intro exI [of _ "[]"]) (simp add: normalize.simps appended_def rooted_def)
  next
    case False
    define start where "start = dropWhile IsSeparator path"
    define component where "component = takeWhile (\<lambda>c. \<not> IsSeparator c) start"
    define rest where "rest = dropWhile (\<lambda>c. \<not> IsSeparator c) start"
    note IH = "1.IH" [OF False start_def component_def rest_def]
    have rest: "\<forall>c\<in>set rest. \<not> IsForbiddenPathCharacter c"
      using "1.prems"(2) by (auto simp: rest_def start_def dest!: set_dropWhileD)
    have comp: "\<forall>c\<in>set component. \<not> IsSeparator c \<and> \<not> IsForbiddenPathCharacter c"
      using "1.prems"(2) by (auto simp: component_def start_def dest!: set_takeWhileD set_dropWhileD)
    have step: "normalize path normalized =
        (if component = [] then normalize rest normalized
         else if component = ''.'' then normalize rest normalized
         else if component = ''..'' then None
         else if last component = CHR ''.'' \<or> last component = CHR '' '' then None
         else normalize rest ((if 1 < length normalized then normalized @ [CHR 0x5C] else normalized) @ component))"
      using False by (subst normalize.simps) (simp add: Let_def start_def component_def rest_def)
    show ?thesis
    proof (cases "component = [] \<or> component = ''.''")
      case True
      with step "1.prems" IH(1,2) rest show ?thesis by auto
    next
      case False
      let ?n = "(if 1 < length normalized then normalized @ [CHR 0x5C] else normalized) @ component"
      from False step "1.prems"(1) have r: "normalize rest ?n = Some r" and safe: "safe_component component"
        using comp by (auto simp: safe_component_def split: if_splits)
      from "1.prems"(3) False have n: "1 < length ?n" by (cases component) auto
      obtain cs where cs: "\<forall>c\<in>set cs. safe_component c" "r = appended ?n cs"
        using IH(3) [OF _ _ _ _ r rest] n False safe by (auto simp: safe_component_def)
      have "?n \<noteq> [CHR 0x5C]" using n by (metis One_nat_def length_Cons less_irrefl list.size(3))
      then have "r = ?n @ rooted cs" using cs(2) by (simp add: appended_def)
      then have "r = appended normalized (component # cs)"
        using "1.prems"(3) by (auto simp: appended_def rooted_def)
      with cs(1) safe show ?thesis by (intro exI [of _ "component # cs"]) simp
    qed
  qed
qed

lemma takeWhile_component:
  assumes "safe_component c" and "rest = [] \<or> IsSeparator (hd rest)"
  shows "takeWhile (\<lambda>ch. \<not> IsSeparator ch) (c @ rest) = c" and "dropWhile (\<lambda>ch. \<not> IsSeparator ch) (c @ rest) = rest"
    and "dropWhile IsSeparator (c @ rest) = c @ rest"
  using assms by (cases rest; cases c; auto simp: safe_component_def takeWhile_append2 dropWhile_append2)+

lemma normalize_rooted:
  "\<forall>c\<in>set cs. safe_component c \<Longrightarrow> normalized = [CHR 0x5C] \<or> 1 < length normalized \<Longrightarrow>
   normalize (rooted cs) normalized = Some (appended normalized cs)"
proof (induction cs arbitrary: normalized)
  case Nil
  then show ?case by (simp add: rooted_def appended_def normalize.simps)
next
  case (Cons c cs)
  let ?n = "(if 1 < length normalized then normalized @ [CHR 0x5C] else normalized) @ c"
  have safe: "safe_component c" using Cons.prems by simp
  have rest: "rooted cs = [] \<or> IsSeparator (hd (rooted cs))" by (cases cs) (auto simp: rooted_def IsSeparator_def)
  have path: "rooted (c # cs) = CHR 0x5C # c @ rooted cs" by (simp add: rooted_def)
  have "normalize (rooted (c # cs)) normalized = normalize (rooted cs) ?n"
    using safe takeWhile_component [OF safe rest]
    by (subst normalize.simps) (auto simp: path IsSeparator_def Let_def safe_component_def)
  also have n: "1 < length ?n" using Cons.prems(2) safe by (cases c) (auto simp: safe_component_def)
  then have "normalize (rooted cs) ?n = Some (appended ?n cs)" using Cons.IH [of ?n] Cons.prems(1) by simp
  also have "?n \<noteq> [CHR 0x5C]" using n by (metis One_nat_def length_Cons less_irrefl list.size(3))
  then have "appended ?n cs = appended normalized (c # cs)"
    using Cons.prems(2) by (auto simp: appended_def rooted_def)
  finally show ?case .
qed

lemma rooted_chars: "set (rooted cs) = (if cs = [] then {} else insert (CHR 0x5C) (\<Union>c\<in>set cs. set c))"
  by (induction cs) (auto simp: rooted_def)

lemma normalize_length:
  "normalize path normalized = Some r \<Longrightarrow> normalized = [CHR 0x5C] \<or> 1 < length normalized \<and> (path = [] \<or> IsSeparator (hd path)) \<Longrightarrow>
   length r \<le> length normalized + length path"
proof (induction path normalized rule: normalize.induct)
  case (1 path normalized)
  show ?case
  proof (cases "path = []")
    case True
    with 1 show ?thesis by (simp add: normalize.simps)
  next
    case False
    define start where "start = dropWhile IsSeparator path"
    define component where "component = takeWhile (\<lambda>c. \<not> IsSeparator c) start"
    define rest where "rest = dropWhile (\<lambda>c. \<not> IsSeparator c) start"
    note IH = "1.IH" [OF False start_def component_def rest_def]
    have rest: "rest = [] \<or> IsSeparator (hd rest)"
      using hd_dropWhile [of "\<lambda>c. \<not> IsSeparator c" start] unfolding rest_def by blast
    have "start = component @ rest" by (simp add: component_def rest_def)
    then have len: "length start = length component + length rest" by simp
    have shorter: "length start \<le> length path" "IsSeparator (hd path) \<Longrightarrow> length start < length path"
      using False by (cases path; simp add: start_def length_dropWhile_le le_SucI less_Suc_eq_le)+
    have step: "normalize path normalized =
        (if component = [] then normalize rest normalized
         else if component = ''.'' then normalize rest normalized
         else if component = ''..'' then None
         else if last component = CHR ''.'' \<or> last component = CHR '' '' then None
         else normalize rest ((if 1 < length normalized then normalized @ [CHR 0x5C] else normalized) @ component))"
      using False by (subst normalize.simps) (simp add: Let_def start_def component_def rest_def)
    show ?thesis
    proof (cases "component = [] \<or> component = ''.''")
      case True
      then have "length r \<le> length normalized + length rest"
        using step "1.prems" IH(1,2) rest by auto
      with len shorter(1) show ?thesis by linarith
    next
      case False
      let ?n = "(if 1 < length normalized then normalized @ [CHR 0x5C] else normalized) @ component"
      from False step "1.prems"(1) have r: "normalize rest ?n = Some r" by (auto split: if_splits)
      have n: "1 < length ?n" using False "1.prems"(2) by (cases component) auto
      have "length r \<le> length ?n + length rest"
        using IH(3) [OF _ _ _ _ r] False step "1.prems"(1) rest n by (auto split: if_splits)
      then show ?thesis using "1.prems"(2) len shorter \<open>path \<noteq> []\<close> by (auto split: if_splits)
    qed
  qed
qed

text \<open>A path accepted from the network is a backslash and components separated by
  backslashes, none of them empty, \<open>.\<close> or \<open>..\<close>, none ending in a dot or a blank, none holding a
  separator, a colon, a quote, a wildcard, a control or a non-ASCII character; it is at most
  one character longer than the limit, and, within the limit, accepted again unchanged.\<close>

theorem SanitizeExplorerPath_safe:
  assumes "SanitizeExplorerPath path = Some r"
  shows "(\<exists>cs. cs \<noteq> [] \<and> (\<forall>c\<in>set cs. safe_component c) \<and> r = rooted cs) \<and> length r \<le> MaxExplorerPathLength + 1 \<and>
    (length r \<le> MaxExplorerPathLength \<longrightarrow> SanitizeExplorerPath r = Some r)"
proof -
  let ?p = "strip_line_ending path"
  from assms have ok: "length ?p \<le> MaxExplorerPathLength" "\<forall>c\<in>set ?p. \<not> IsForbiddenPathCharacter c"
    and r: "normalize ?p [CHR 0x5C] = Some r" "1 < length r"
    by (auto simp: SanitizeExplorerPath_def Let_def list_ex_iff split: if_splits option.splits)
  from normalize_safe [OF r(1) ok(2)] obtain cs where cs: "\<forall>c\<in>set cs. safe_component c" "r = appended [CHR 0x5C] cs"
    by auto
  with r(2) have ne: "cs \<noteq> []" and rooted: "r = rooted cs" by (auto simp: appended_def rooted_def split: if_splits)
  have "length r \<le> MaxExplorerPathLength + 1" using normalize_length [OF r(1)] ok(1) by simp
  moreover have "SanitizeExplorerPath r = Some r" if "length r \<le> MaxExplorerPathLength"
  proof -
    obtain c cs' where c: "cs = c # cs'" using ne by (cases cs) auto
    have chars: "\<not> IsForbiddenPathCharacter ch" if "ch \<in> set r" for ch
    proof -
      have "\<not> IsForbiddenPathCharacter (CHR 0x5C)" by (simp add: IsForbiddenPathCharacter_def)
      moreover have "ch = CHR 0x5C \<or> (\<exists>c\<in>set cs. ch \<in> set c)" using that ne by (auto simp: rooted rooted_chars)
      ultimately show ?thesis using cs(1) unfolding safe_component_def by blast
    qed
    have "last r \<in> set r" using r(2) by (intro last_in_set) auto
    then have last: "last r \<noteq> CHR 0x0D" "last r \<noteq> CHR 0x0A"
      using chars [of "last r"] by (auto simp: IsForbiddenPathCharacter_def)
    have allowed: "\<not> list_ex IsForbiddenPathCharacter r" using chars by (auto simp: list_ex_iff)
    have "strip_line_ending r = r"
      using last r(2) by (cases r rule: rev_cases) (auto simp: strip_line_ending_def)
    moreover have "\<not> (IsSeparator (r ! 0) \<and> IsSeparator (r ! 1))"
      using cs(1) by (cases c) (auto simp: rooted c rooted_def safe_component_def)
    moreover have "normalize r [CHR 0x5C] = Some r"
      using normalize_rooted [OF cs(1)] cs(2) by (simp add: rooted)
    ultimately show ?thesis
      using that allowed r(2) by (auto simp: SanitizeExplorerPath_def)
  qed
  ultimately show ?thesis using cs(1) ne rooted by blast
qed

theorem SanitizeExplorerPath_safe_witness:
  "SanitizeExplorerPath ''share//./docs/a b'' = Some (rooted [''share'', ''docs'', ''a b'']) \<and>
   length (rooted [''share'', ''docs'', ''a b'']) \<le> MaxExplorerPathLength + 1"
proof -
  have "SanitizeExplorerPath ''share//./docs/a b'' = Some (rooted [''share'', ''docs'', ''a b''])"
    by (simp add: SanitizeExplorerPath_def strip_line_ending_def MaxExplorerPathLength_def normalize.simps IsSeparator_def
        IsForbiddenPathCharacter_def rooted_def Let_def)
  from this SanitizeExplorerPath_safe [OF this] show ?thesis by blast
qed

text \<open>A request cut by the network is classified before it is complete: the first segment of a
  request for the CO2 graph is a request for the CO graph.\<close>

lemma TcpParse_cut_request:
  "map_option pm_argument (TcpParse (''GET /CO2 HTTP/1.1'')) = Some ''CO2.html'' \<and>
   map_option pm_argument (TcpParse (take 7 ''GET /CO2 HTTP/1.1'')) = Some ''CO.html''"
  by (simp add: TcpParse_def starts_with_def GraphRoutes_def MatchesHttpRoute_def)

end
