(* ===== verification/NumberText.thy ===== *)
theory NumberText
  imports TcpMessages "HOL-Library.Sublist"
begin

text \<open>
  Numbers as text.  Source: \<open>src/utils/NumberParsing.hpp\<close>: trimming, the non-throwing parse of an
  integer in a base (\<open>TryParse\<close>, on \<open>std::from_chars\<close>) and the throwing \<open>stoi\<close>; and searching a
  string for another (\<open>std::string::find\<close>).  A parse to an integer type is a parse to the
  range of its values.  The parse of floating point numbers is not modelled.
\<close>

section \<open>Searching\<close>

text \<open>\<open>hay.find(needle, pos)\<close>; \<open>npos\<close> is \<open>None\<close>.\<close>

definition str_find :: "string \<Rightarrow> string \<Rightarrow> nat \<Rightarrow> nat option" where
  "str_find hay needle pos =
     find (\<lambda>i. starts_with (drop i hay) needle) [pos..<Suc (length hay) - length needle]"

section \<open>Parsing\<close>

definition is_blank :: "char \<Rightarrow> bool" where
  "is_blank c \<longleftrightarrow> c = CHR '' '' \<or> c = CHR 0x09 \<or> c = CHR 0x0D \<or> c = CHR 0x0A"

definition TrimView :: "string \<Rightarrow> string" where
  "TrimView text = rev (dropWhile is_blank (rev (dropWhile is_blank text)))"

datatype ParseMode = Whole | Prefix

definition char_value :: "char \<Rightarrow> nat" where
  "char_value c =
     (let n = of_char c in
      if 48 \<le> n \<and> n \<le> 57 then n - 48
      else if 97 \<le> n \<and> n \<le> 122 then n - 87
      else if 65 \<le> n \<and> n \<le> 90 then n - 55 else 36)"

definition digits_value :: "nat \<Rightarrow> string \<Rightarrow> nat" where
  "digits_value base ds = foldl (\<lambda>n c. n * base + char_value c) 0 ds"

text \<open>
  \<open>std::from_chars\<close> for an integer type with values \<open>lo .. hi\<close>: a sign only where the type has
  one, then as many digits as there are.  The rest of the text is returned.
\<close>

definition from_chars :: "int \<Rightarrow> int \<Rightarrow> nat \<Rightarrow> string \<Rightarrow> (int \<times> string) option" where
  "from_chars lo hi base text =
     (let negative = lo < 0 \<and> starts_with text ''-'';
          body = if negative then tl text else text;
          digits = takeWhile (\<lambda>c. char_value c < base) body;
          magnitude = int (digits_value base digits);
          parsed = if negative then - magnitude else magnitude
      in if digits = [] \<or> parsed < lo \<or> hi < parsed then None
         else Some (parsed, dropWhile (\<lambda>c. char_value c < base) body))"

definition TryParse :: "int \<Rightarrow> int \<Rightarrow> ParseMode \<Rightarrow> nat \<Rightarrow> string \<Rightarrow> int option" where
  "TryParse lo hi mode base text =
     (let trimmed = TrimView text in
      if trimmed = [] then None
      else case from_chars lo hi base trimmed of
        None \<Rightarrow> None
      | Some (parsed, rest) \<Rightarrow> if mode = Whole \<and> rest \<noteq> [] then None else Some parsed)"

text \<open>\<open>stoi\<close> throws where this is \<open>None\<close>.\<close>

definition stoi :: "int \<Rightarrow> int \<Rightarrow> string \<Rightarrow> int option" where
  "stoi lo hi text = TryParse lo hi Prefix 10 text"

definition stob :: "string \<Rightarrow> bool" where
  "stob text \<longleftrightarrow> \<not> (text = [] \<or> text = ''false'' \<or> hd text = CHR ''0'')"

text \<open>\<open>std::format("{}", n)\<close> of a signed number.\<close>

definition int_decimal :: "int \<Rightarrow> string" where
  "int_decimal n = (if n < 0 then CHR ''-'' # decimal (nat (- n)) else decimal (nat n))"


section \<open>Facts of searching\<close>

lemma starts_with_append [simp]: "starts_with (s @ t) s"
  by (simp add: starts_with_def)

lemma starts_with_prefix: "starts_with s t \<longleftrightarrow> prefix t s"
  by (metis append_eq_conv_conj append_take_drop_id prefixE prefixI starts_with_def)

lemma find_upt_eq_Some:
  "find P [a..<b] = Some i \<longleftrightarrow> a \<le> i \<and> i < b \<and> P i \<and> (\<forall>j. a \<le> j \<and> j < i \<longrightarrow> \<not> P j)"
proof (induction "b - a" arbitrary: a)
  case 0
  then show ?case by auto
next
  case (Suc n)
  then have ab: "[a..<b] = a # [Suc a..<b]" "a < b" by (auto simp: upt_conv_Cons)
  show ?case
  proof (cases "P a")
    case True
    then show ?thesis using ab by (auto simp: dest: le_neq_implies_less)
  next
    case False
    have "n = b - Suc a" using Suc.hyps(2) by simp
    from Suc.hyps(1) [OF this] show ?thesis using False ab
      by (auto simp: Suc_le_eq dest: le_neq_implies_less)
  qed
qed

lemma str_find_eq_Some:
  "str_find hay needle pos = Some i \<longleftrightarrow>
     pos \<le> i \<and> i + length needle \<le> length hay \<and> prefix needle (drop i hay) \<and>
     (\<forall>j. pos \<le> j \<and> j < i \<longrightarrow> \<not> prefix needle (drop j hay))"
  unfolding str_find_def find_upt_eq_Some starts_with_prefix by auto

lemma sublist_iff_prefix_drop: "sublist xs ys \<longleftrightarrow> (\<exists>i \<le> length ys. prefix xs (drop i ys))"
proof
  assume "sublist xs ys"
  then obtain ps ss where "ys = ps @ xs @ ss" by (auto simp: sublist_def)
  then show "\<exists>i \<le> length ys. prefix xs (drop i ys)" by (intro exI [of _ "length ps"]) simp
next
  assume "\<exists>i \<le> length ys. prefix xs (drop i ys)"
  then show "sublist xs ys" by (metis append_take_drop_id prefixE sublist_appendI)
qed

lemma str_find_eq_None:
  assumes "needle \<noteq> []"
  shows "str_find hay needle pos = None \<longleftrightarrow> \<not> sublist needle (drop pos hay)"
proof -
  have "prefix needle (drop i hay) \<Longrightarrow> i + length needle \<le> length hay" for i
    using prefix_length_le [of needle "drop i hay"] assms by (cases needle) auto
  then have "str_find hay needle pos = None \<longleftrightarrow> (\<forall>i \<ge> pos. \<not> prefix needle (drop i hay))"
    unfolding str_find_def find_None_iff starts_with_prefix by force
  also have "\<dots> \<longleftrightarrow> \<not> sublist needle (drop pos hay)"
  proof -
    have "\<exists>k \<le> length hay - pos. prefix needle (drop (k + pos) hay)" if "prefix needle (drop i hay)" "pos \<le> i" for i
    proof -
      have "i < length hay" using that assms by (cases "i < length hay") auto
      then show ?thesis using that by (intro exI [of _ "i - pos"]) simp
    qed
    then show ?thesis unfolding sublist_iff_prefix_drop drop_drop length_drop by (meson le_add2)
  qed
  finally show ?thesis .
qed

lemma str_find_at:
  assumes "pos \<le> length u" and "\<And>j. pos \<le> j \<Longrightarrow> j < length u \<Longrightarrow> \<not> prefix needle (drop j (u @ needle @ v))"
  shows "str_find (u @ needle @ v) needle pos = Some (length u)"
  using assms by (auto simp: str_find_eq_Some)

text \<open>The first place of a character.\<close>

lemma str_find_char:
  assumes "pos \<le> length u" and "c \<notin> set (drop pos u)"
  shows "str_find (u @ c # v) [c] pos = Some (length u)"
proof -
  have "\<not> prefix [c] (drop j (u @ c # v))" if "pos \<le> j" "j < length u" for j
  proof -
    have "j - pos < length (drop pos u)" "drop pos u ! (j - pos) = u ! j" using that by auto
    then have "u ! j \<in> set (drop pos u)" by (metis nth_mem)
    then have "u ! j \<noteq> c" using assms(2) by auto
    then show ?thesis using that by (simp add: Cons_nth_drop_Suc [symmetric])
  qed
  then show ?thesis using str_find_at [of pos u "[c]" v] assms(1) by simp
qed

section \<open>Facts of numbers\<close>

lemma decimal_digits: "\<forall>c \<in> set (decimal n). 48 \<le> (of_char c :: nat) \<and> (of_char c :: nat) \<le> 57"
proof (induction n rule: decimal.induct)
  case (1 n)
  show ?case
  proof (cases "n < 10")
    case True
    then show ?thesis by (subst decimal.simps) simp
  next
    case False
    then have "decimal n = decimal (n div 10) @ [char_of (48 + n mod 10)]" by (subst decimal.simps) simp
    moreover have "48 + n mod 10 < 256" "48 + n mod 10 \<le> 57" by presburger+
    ultimately show ?thesis using 1 False by auto
  qed
qed

lemma decimal_not_Nil [simp]: "decimal n \<noteq> []"
  by (subst decimal.simps) simp

lemma char_value_digit: "d < 10 \<Longrightarrow> char_value (char_of (48 + d)) = d"
  by (simp add: char_value_def)

lemma digits_value_snoc: "digits_value b (ds @ [c]) = digits_value b ds * b + char_value c"
  by (simp add: digits_value_def)

lemma digits_value_decimal [simp]: "digits_value 10 (decimal n) = n"
proof (induction n rule: decimal.induct)
  case (1 n)
  show ?case
  proof (cases "n < 10")
    case True
    then show ?thesis by (subst decimal.simps) (simp add: digits_value_def char_value_digit)
  next
    case False
    then have d: "decimal n = decimal (n div 10) @ [char_of (48 + n mod 10)]" by (subst decimal.simps) simp
    show ?thesis unfolding d digits_value_snoc using 1 False by (simp add: char_value_digit)
  qed
qed

lemma char_value_decimal: "c \<in> set (decimal n) \<Longrightarrow> char_value c < 10"
  using decimal_digits [of n] by (fastforce simp: char_value_def Let_def)

lemma takeWhile_decimal:
  "rest = [] \<or> 10 \<le> char_value (hd rest) \<Longrightarrow>
   takeWhile (\<lambda>c. char_value c < 10) (decimal n @ rest) = decimal n \<and>
   dropWhile (\<lambda>c. char_value c < 10) (decimal n @ rest) = rest"
  using char_value_decimal by (cases rest) (auto simp: takeWhile_append2 dropWhile_append2)

lemma takeWhile_decimal_all [simp]:
  "takeWhile (\<lambda>c. char_value c < 10) (decimal n) = decimal n"
  "dropWhile (\<lambda>c. char_value c < 10) (decimal n) = []"
  using takeWhile_decimal [of "[]" n] by (simp_all only: append_Nil2 simp_thms)

lemma int_decimal_not_Nil [simp]: "int_decimal n \<noteq> []"
  by (simp add: int_decimal_def)

lemma int_decimal_chars: "c \<in> set (int_decimal n) \<Longrightarrow> c = CHR ''-'' \<or> 48 \<le> (of_char c :: nat) \<and> (of_char c :: nat) \<le> 57"
  using decimal_digits by (auto simp: int_decimal_def split: if_splits)

lemma int_decimal_no_blank: "c \<in> set (int_decimal n) \<Longrightarrow> \<not> is_blank c"
  using int_decimal_chars [of c n] by (auto simp: is_blank_def)

lemma TrimView_int_decimal [simp]: "TrimView (int_decimal n) = int_decimal n"
proof -
  have 1: "dropWhile is_blank xs = xs" if "\<forall>c \<in> set xs. \<not> is_blank c" for xs
    using that by (cases xs) auto
  show ?thesis using int_decimal_no_blank [of _ n] by (simp add: TrimView_def 1)
qed

lemma decimal_hd_not_minus: "\<not> starts_with (decimal n @ rest) ''-''"
proof (cases "decimal n")
  case (Cons c cs)
  then have "48 \<le> (of_char c :: nat)" using decimal_digits [of n] by simp
  then have "c \<noteq> CHR ''-''" by auto
  then show ?thesis by (simp add: starts_with_def Cons)
qed simp

lemma from_chars_int_decimal:
  assumes "lo \<le> n" and "n \<le> hi"
  shows "from_chars lo hi 10 (int_decimal n) = Some (n, [])"
proof (cases "n < 0")
  case True
  have "from_chars lo hi 10 (CHR ''-'' # decimal (nat (- n))) = Some (n, [])"
    using True assms by (simp add: from_chars_def starts_with_def Let_def)
  then show ?thesis using True by (simp add: int_decimal_def)
next
  case False
  then show ?thesis using assms decimal_hd_not_minus [of "nat n" "[]"]
    by (simp add: from_chars_def int_decimal_def Let_def)
qed

theorem TryParse_int_decimal:
  "lo \<le> n \<Longrightarrow> n \<le> hi \<Longrightarrow> TryParse lo hi mode 10 (int_decimal n) = Some n"
  by (simp add: TryParse_def from_chars_int_decimal)

lemma TryParse_range: "TryParse lo hi mode base text = Some n \<Longrightarrow> lo \<le> n \<and> n \<le> hi"
  by (auto simp: TryParse_def from_chars_def Let_def split: if_splits option.splits prod.splits)

lemma stoi_int_decimal [simp]: "lo \<le> n \<Longrightarrow> n \<le> hi \<Longrightarrow> stoi lo hi (int_decimal n) = Some n"
  by (simp add: stoi_def TryParse_int_decimal)

end
