(* ===== verification/BitField.thy ===== *)
theory BitField
  imports Addon_Prelude "HOL-Library.Monad_Syntax"
begin

text \<open>
  Bit fields in arrays of bytes.  Source: \<open>libs/bitfield/bitarray.c\<close> (\<open>copy_bits\<close> and its
  helpers) and \<open>libs/bitfield/bitfield.c\<close> (\<open>get_bitfield\<close>, \<open>set_bitfield\<close>), the library the CAN
  field editor writes frames with.  An array is the list of its bytes and its length argument
  is the list's length.  Every access of an array is checked: a read or a write outside of it
  makes the result \<open>None\<close>, so a result is also a proof of memory safety.  The union that
  reinterprets a 64-bit value as bytes, with the byte swap of a little-endian machine, is
  the big-endian list of its bytes.
\<close>

section \<open>Accesses and masks\<close>

definition rd :: "bytes \<Rightarrow> nat \<Rightarrow> u8 option" where
  "rd source i = (if i < length source then Some (source ! i) else None)"

definition wr :: "bytes \<Rightarrow> nat \<Rightarrow> u8 \<Rightarrow> bytes option" where
  "wr destination i b = (if i < length destination then Some (destination[i := b]) else None)"

definition reverse_mask :: bytes where
  "reverse_mask = [0x00, 0x80, 0xc0, 0xe0, 0xf0, 0xf8, 0xfc, 0xfe, 0xff]"

definition reverse_mask_xor :: bytes where
  "reverse_mask_xor = [0xff, 0x7f, 0x3f, 0x1f, 0x0f, 0x07, 0x03, 0x01, 0x00]"

text \<open>\<open>peek_next_source_byte\<close>: nothing is read past the end.\<close>

definition peek_next_source_byte :: "bytes \<Rightarrow> nat \<Rightarrow> u8" where
  "peek_next_source_byte source i = (if i < length source then source ! i else 0)"

section \<open>Copying bits\<close>

text \<open>\<open>PREPARE_FIRST_COPY\<close>: the count that remains, the byte to add and the destination cleared for it.\<close>

definition prepare_first_copy :: "nat \<Rightarrow> nat \<Rightarrow> u8 \<Rightarrow> bytes \<Rightarrow> nat \<Rightarrow> (nat \<times> u8 \<times> bytes) option" where
  "prepare_first_copy dm bit_count c destination d =
     do {
       old \<leftarrow> rd destination d;
       if 8 - dm \<le> bit_count
       then do {
         dest \<leftarrow> wr destination d (old AND reverse_mask ! dm);
         Some (bit_count - (8 - dm), c, dest)
       }
       else do {
         dest \<leftarrow> wr destination d (old AND (reverse_mask ! dm OR reverse_mask_xor ! (dm + bit_count)));
         Some (0, c AND reverse_mask ! (dm + bit_count), dest)
       }
     }"

text \<open>\<open>*destination |= c\<close>\<close>

definition or_byte :: "bytes \<Rightarrow> nat \<Rightarrow> u8 \<Rightarrow> bytes option" where
  "or_byte destination d c = do { old \<leftarrow> rd destination d; wr destination d (old OR c) }"

text \<open>\<open>memcpy(destination, source, n)\<close>\<close>

fun mem_copy :: "nat \<Rightarrow> bytes \<Rightarrow> nat \<Rightarrow> bytes \<Rightarrow> nat \<Rightarrow> bytes option" where
  "mem_copy 0 source s destination d = Some destination"
| "mem_copy (Suc n) source s destination d =
     do { b \<leftarrow> rd source s; dest \<leftarrow> wr destination d b; mem_copy n source (Suc s) dest (Suc d) }"

text \<open>The last bits of the destination's last byte are replaced by those of \<open>c\<close>.\<close>

definition end_byte :: "nat \<Rightarrow> u8 \<Rightarrow> bytes \<Rightarrow> nat \<Rightarrow> bytes option" where
  "end_byte dm c destination d =
     do {
       old \<leftarrow> rd destination d;
       dest \<leftarrow> wr destination d (old AND reverse_mask_xor ! dm);
       or_byte dest d (c AND reverse_mask ! dm)
     }"

text \<open>Source and destination start at the same bit of their bytes.\<close>

definition copy_aligned :: "bytes \<Rightarrow> nat \<Rightarrow> nat \<Rightarrow> bytes \<Rightarrow> nat \<Rightarrow> nat \<Rightarrow> bytes option" where
  "copy_aligned source s bit_count destination d dm =
     do {
       (n, dest, s, d) \<leftarrow>
         (if 0 < dm
          then do {
            b \<leftarrow> rd source s;
            (n, c, dest) \<leftarrow> prepare_first_copy dm bit_count (reverse_mask_xor ! dm AND b) destination d;
            dest \<leftarrow> or_byte dest d c;
            Some (n, dest, Suc s, Suc d)
          }
          else Some (bit_count, destination, s, d));
       dest \<leftarrow> mem_copy (n div 8) source s dest d;
       if 0 < n mod 8
       then do { b \<leftarrow> rd source (s + n div 8); end_byte (n mod 8) b dest (d + n div 8) }
       else Some dest
     }"

text \<open>One byte assembled from two of the source.\<close>

definition shifted_byte :: "nat \<Rightarrow> bytes \<Rightarrow> nat \<Rightarrow> u8 option" where
  "shifted_byte left_shift source s =
     do { b \<leftarrow> rd source s;
          Some (push_bit left_shift b OR drop_bit (8 - left_shift) (peek_next_source_byte source (Suc s))) }"

text \<open>The loop over whole bytes.\<close>

fun copy_middle :: "nat \<Rightarrow> nat \<Rightarrow> bytes \<Rightarrow> nat \<Rightarrow> bytes \<Rightarrow> nat \<Rightarrow> bytes option" where
  "copy_middle left_shift 0 source s destination d = Some destination"
| "copy_middle left_shift (Suc n) source s destination d =
     do {
       c \<leftarrow> shifted_byte left_shift source s;
       dest \<leftarrow> wr destination d c;
       copy_middle left_shift n source (Suc s) dest (Suc d)
     }"

text \<open>They start at different bits.\<close>

definition copy_misaligned :: "bytes \<Rightarrow> nat \<Rightarrow> nat \<Rightarrow> nat \<Rightarrow> bytes \<Rightarrow> nat \<Rightarrow> nat \<Rightarrow> bytes option" where
  "copy_misaligned source s sm bit_count destination d dm =
     do {
       (left_shift, c, s) \<leftarrow>
         (if dm < sm
          then do {
            c \<leftarrow> shifted_byte (sm - dm) source s;
            Some (sm - dm, c AND reverse_mask_xor ! dm, Suc s)
          }
          else do {
            b \<leftarrow> rd source s;
            Some (8 - (dm - sm), drop_bit (dm - sm) b AND reverse_mask_xor ! dm, s)
          });
       (n, c, dest) \<leftarrow> prepare_first_copy dm bit_count c destination d;
       dest \<leftarrow> or_byte dest d c;
       dest \<leftarrow> copy_middle left_shift (n div 8) source s dest (Suc d);
       if 0 < n mod 8
       then do { c \<leftarrow> shifted_byte left_shift source (s + n div 8); end_byte (n mod 8) c dest (Suc d + n div 8) }
       else Some dest
     }"

definition copy_bits :: "bytes \<Rightarrow> nat \<Rightarrow> nat \<Rightarrow> bytes \<Rightarrow> nat \<Rightarrow> (bool \<times> bytes) option" where
  "copy_bits source source_offset bit_count destination destination_offset =
     (if bit_count < 1 then Some (False, destination)
      else if length source * 8 < source_offset + bit_count \<or> length destination * 8 < destination_offset + bit_count
      then Some (False, destination)
      else
        let s = source_offset div 8; d = destination_offset div 8;
            sm = source_offset mod 8; dm = destination_offset mod 8
        in map_option (Pair True)
             (if sm = dm then copy_aligned source s bit_count destination d dm
              else copy_misaligned source s sm bit_count destination d dm))"

definition bits_to_bytes :: "nat \<Rightarrow> nat" where
  "bits_to_bytes bits = (let byte_count = bits div 8 in if bits mod 8 \<noteq> 0 then byte_count + 1 else byte_count)"

definition find_end_bit :: "nat \<Rightarrow> nat" where
  "find_end_bit num_bits = (let end_bit = num_bits mod 8 in if end_bit = 0 then 8 else end_bit)"

definition copy_bits_right_aligned :: "bytes \<Rightarrow> nat \<Rightarrow> nat \<Rightarrow> bytes \<Rightarrow> (bool \<times> bytes) option" where
  "copy_bits_right_aligned source offset bit_count destination =
     copy_bits source offset bit_count destination
       ((length destination - bits_to_bytes bit_count) * 8 + 8 - find_end_bit bit_count)"

section \<open>Fields\<close>

definition bitmask :: "u8 \<Rightarrow> u64" where
  "bitmask bit_count = (if 64 \<le> bit_count then 0xFFFFFFFFFFFFFFFF else push_bit (unat bit_count) 1 - 1)"

text \<open>The union of a 64-bit value and its bytes, after the byte swap.\<close>

definition value_bytes :: "u64 \<Rightarrow> bytes" where
  "value_bytes v = map (\<lambda>i. ucast (drop_bit (8 * (7 - i)) v)) [0..<8]"

definition bytes_value :: "bytes \<Rightarrow> u64" where
  "bytes_value bs = foldl (\<lambda>v b. push_bit 8 v OR ucast b) 0 bs"

definition get_bitfield :: "bytes \<Rightarrow> nat \<Rightarrow> nat \<Rightarrow> u64 option" where
  "get_bitfield source offset bit_count =
     (if 64 < bit_count \<or> bit_count < 1 then Some 0
      else map_option (\<lambda>(copied, combined). bytes_value combined)
             (copy_bits_right_aligned source offset bit_count (replicate 8 0)))"

text \<open>The source offset is a \<open>uint16_t\<close>; for more than 64 bits it wraps around.\<close>

definition set_bitfield :: "u64 \<Rightarrow> nat \<Rightarrow> nat \<Rightarrow> bytes \<Rightarrow> (bool \<times> bytes) option" where
  "set_bitfield v offset bit_count destination =
     (if bitmask (word_of_nat bit_count) < v then Some (False, destination)
      else copy_bits (value_bytes v) ((64 + 65536 - bit_count) mod 65536) bit_count destination offset)"

section \<open>Bits of bytes and of arrays\<close>

text \<open>Bit \<open>q\<close> of a byte counted from the most significant one, and bit \<open>k\<close> of an array.\<close>

definition mbit :: "u8 \<Rightarrow> nat \<Rightarrow> bool" where
  "mbit b q = bit b (7 - q)"

definition bit_at :: "bytes \<Rightarrow> nat \<Rightarrow> bool" where
  "bit_at bs k = mbit (bs ! (k div 8)) (k mod 8)"

lemma mbit_simps [simp]:
  "mbit (x AND y) q = (mbit x q \<and> mbit y q)" "mbit (x OR y) q = (mbit x q \<or> mbit y q)" "mbit 0 q = False"
  by (simp_all add: mbit_def bit_simps)

lemma mbit_push_bit: "q < 8 \<Longrightarrow> mbit (push_bit l x) q = (q + l < 8 \<and> mbit x (q + l))"
  by (auto simp: mbit_def bit_simps algebra_simps intro: arg_cong [of _ _ "bit x"])

lemma mbit_drop_bit: "q < 8 \<Longrightarrow> mbit (drop_bit r x) q = (r \<le> q \<and> mbit x (q - r))"
proof -
  assume q: "q < 8"
  show ?thesis
  proof (cases "r \<le> q")
    case True
    then have "7 - (q - r) = r + (7 - q)" using q by simp
    then show ?thesis using True by (simp add: mbit_def bit_simps)
  next
    case False
    then have "\<not> bit x (r + (7 - q))" using q by (auto dest: bit_imp_le_length)
    then show ?thesis using False by (simp add: mbit_def bit_simps)
  qed
qed

lemma less9_cases: "(i :: nat) \<le> 8 \<Longrightarrow> i \<in> {0, 1, 2, 3, 4, 5, 6, 7, 8}"
  by auto

lemma less8_cases: "(i :: nat) < 8 \<Longrightarrow> i \<in> {0, 1, 2, 3, 4, 5, 6, 7}"
  by auto

lemma mbit_reverse_mask: "i \<le> 8 \<Longrightarrow> q < 8 \<Longrightarrow> mbit (reverse_mask ! i) q = (q < i)"
  by (drule less9_cases, drule less8_cases) (auto simp: mbit_def reverse_mask_def)

lemma mbit_reverse_mask_xor: "i \<le> 8 \<Longrightarrow> q < 8 \<Longrightarrow> mbit (reverse_mask_xor ! i) q = (i \<le> q)"
  by (drule less9_cases, drule less8_cases) (auto simp: mbit_def reverse_mask_xor_def)

lemma bit_at_byte [simp]: "q < 8 \<Longrightarrow> bit_at bs (8 * d + q) = mbit (bs ! d) q"
  by (simp add: bit_at_def)

text \<open>\<open>n\<close> bits of the source, from its bit \<open>so\<close>, are in the destination from its bit \<open>do\<close>.\<close>

definition copied :: "bytes \<Rightarrow> nat \<Rightarrow> bytes \<Rightarrow> nat \<Rightarrow> nat \<Rightarrow> bytes \<Rightarrow> bool" where
  "copied source from destination to n result \<longleftrightarrow>
     length result = length destination \<and>
     (\<forall>k < 8 * length destination.
        bit_at result k = (if to \<le> k \<and> k < to + n then bit_at source (from + (k - to)) else bit_at destination k))"

lemma copied_none [simp]: "copied source from dst to 0 dst"
  by (auto simp: copied_def)

lemma copied_length: "copied source from dst to n dst' \<Longrightarrow> length dst' = length dst"
  by (simp add: copied_def)

lemma copied_trans:
  assumes "copied source from dst to n dst1" "copied source (from + n) dst1 (to + n) m dst2"
  shows "copied source from dst to (n + m) dst2"
  unfolding copied_def
proof (intro conjI allI impI)
  show "length dst2 = length dst" using assms by (simp add: copied_def)
  fix k assume "k < 8 * length dst"
  then have "bit_at dst2 k = (if to + n \<le> k \<and> k < to + n + m then bit_at source (from + n + (k - (to + n))) else bit_at dst1 k)"
      "bit_at dst1 k = (if to \<le> k \<and> k < to + n then bit_at source (from + (k - to)) else bit_at dst k)"
    using assms by (simp_all add: copied_def)
  then show "bit_at dst2 k = (if to \<le> k \<and> k < to + (n + m) then bit_at source (from + (k - to)) else bit_at dst k)"
    by auto
qed

lemma copied_byte:
  assumes "d < length dst" "a + n \<le> 8"
    and "\<And>q. q < 8 \<Longrightarrow> mbit b q = (if a \<le> q \<and> q < a + n then bit_at source (from + (q - a)) else mbit (dst ! d) q)"
  shows "copied source from dst (8 * d + a) n (dst[d := b])"
  unfolding copied_def
proof (intro conjI allI impI)
  fix k assume k: "k < 8 * length dst"
  show "bit_at (dst[d := b]) k =
      (if 8 * d + a \<le> k \<and> k < 8 * d + a + n then bit_at source (from + (k - (8 * d + a))) else bit_at dst k)"
  proof (cases "k div 8 = d")
    case True
    then have "k = 8 * d + k mod 8" using mult_div_mod_eq [of 8 k] by simp
    then obtain q where q: "k = 8 * d + q" "q < 8" by (metis mod_less_divisor zero_less_numeral)
    then have "bit_at (dst[d := b]) k = mbit b q" "bit_at dst k = mbit (dst ! d) q" using assms(1) by simp_all
    moreover have "8 * d + a \<le> k \<and> k < 8 * d + a + n \<longleftrightarrow> a \<le> q \<and> q < a + n" "k - (8 * d + a) = q - a"
      using q by auto
    ultimately show ?thesis using assms(3) [OF q(2)] by simp
  next
    case False
    then have "\<not> (8 * d + a \<le> k \<and> k < 8 * d + a + n)" using assms(2) by auto
    then have "(if 8 * d + a \<le> k \<and> k < 8 * d + a + n then bit_at source (from + (k - (8 * d + a))) else bit_at dst k) = bit_at dst k"
      by (rule if_not_P)
    then show ?thesis using False by (simp only: bit_at_def) simp
  qed
qed simp

section \<open>The phases of a copy\<close>

text \<open>The first bits, up to the end of the destination's byte.\<close>

lemma first_phase:
  assumes "d < length dst" "dm < 8"
    and zero: "\<And>q. q < dm \<Longrightarrow> \<not> mbit c q"
    and bits: "\<And>q. dm \<le> q \<Longrightarrow> q < dm + min n (8 - dm) \<Longrightarrow> mbit c q = bit_at source (from + (q - dm))"
  shows "\<exists>c' dst1 dst'. prepare_first_copy dm n c dst d = Some (n - min n (8 - dm), c', dst1) \<and>
           or_byte dst1 d c' = Some dst' \<and> copied source from dst (8 * d + dm) (min n (8 - dm)) dst'"
proof (cases "8 - dm \<le> n")
  case True
  have "copied source from dst (8 * d + dm) (8 - dm) (dst[d := dst ! d AND reverse_mask ! dm OR c])"
    using assms True by (intro copied_byte) (auto simp: mbit_reverse_mask)
  then show ?thesis using True assms(1) by (simp add: prepare_first_copy_def or_byte_def rd_def wr_def)
next
  case False
  let ?b = "dst ! d AND (reverse_mask ! dm OR reverse_mask_xor ! (dm + n)) OR c AND reverse_mask ! (dm + n)"
  have "copied source from dst (8 * d + dm) n (dst[d := ?b])"
    using assms False by (intro copied_byte) (auto simp: mbit_reverse_mask mbit_reverse_mask_xor)
  then show ?thesis using False assms(1) by (simp add: prepare_first_copy_def or_byte_def rd_def wr_def)
qed

lemma end_byte_copied:
  assumes "d < length dst" "n < 8" "\<And>q. q < n \<Longrightarrow> mbit c q = bit_at source (from + q)"
  shows "\<exists>dst'. end_byte n c dst d = Some dst' \<and> copied source from dst (8 * d) n dst'"
proof -
  let ?b = "dst ! d AND reverse_mask_xor ! n OR c AND reverse_mask ! n"
  have "copied source from dst (8 * d + 0) n (dst[d := ?b])"
    using assms by (intro copied_byte) (auto simp: mbit_reverse_mask mbit_reverse_mask_xor)
  then show ?thesis using assms(1) by (simp add: end_byte_def or_byte_def rd_def wr_def)
qed

lemma shifted_byte_bits:
  assumes "0 < l" "l < 8" "8 * s + l < 8 * length source"
  shows "\<exists>c. shifted_byte l source s = Some c \<and>
    (\<forall>q < 8. 8 * s + l + q < 8 * length source \<longrightarrow> mbit c q = bit_at source (8 * s + l + q))"
proof -
  have s: "s < length source" using assms by simp
  have "mbit (push_bit l (source ! s) OR drop_bit (8 - l) (peek_next_source_byte source (Suc s))) q =
      bit_at source (8 * s + l + q)" if q: "q < 8" "8 * s + l + q < 8 * length source" for q
  proof (cases "q + l < 8")
    case True
    then have "bit_at source (8 * s + l + q) = mbit (source ! s) (q + l)"
      using bit_at_byte [of "l + q" source s] by (simp add: ac_simps)
    moreover have "\<not> 8 - l \<le> q" using True assms(2) by simp
    ultimately show ?thesis using True q by (simp add: mbit_push_bit mbit_drop_bit)
  next
    case False
    then have e: "8 * s + l + q = 8 * Suc s + (q + l - 8)" "q + l - 8 < 8" using q assms by auto
    then have "bit_at source (8 * s + l + q) = mbit (source ! Suc s) (q + l - 8)" by (simp del: mult_Suc_right)
    moreover have "Suc s < length source" "8 - l \<le> q" "q - (8 - l) = q + l - 8" using q(2) False assms(2) by auto
    ultimately show ?thesis using False q assms
      by (simp add: mbit_push_bit mbit_drop_bit peek_next_source_byte_def)
  qed
  then show ?thesis using s by (simp add: shifted_byte_def rd_def)
qed

lemma copy_middle_copied:
  assumes "0 < l" "l < 8" "8 * s + l + 8 * n \<le> 8 * length source" "d + n \<le> length dst"
  shows "\<exists>dst'. copy_middle l n source s dst d = Some dst' \<and> copied source (8 * s + l) dst (8 * d) (8 * n) dst'"
  using assms(3,4)
proof (induction n arbitrary: s d dst)
  case (Suc n)
  then obtain c where c: "shifted_byte l source s = Some c"
      "\<And>q. q < 8 \<Longrightarrow> 8 * s + l + q < 8 * length source \<Longrightarrow> mbit c q = bit_at source (8 * s + l + q)"
    using shifted_byte_bits [of l s source] assms(1,2) by auto
  have one: "copied source (8 * s + l) dst (8 * d + 0) 8 (dst[d := c])"
    using Suc.prems c(2) by (intro copied_byte) auto
  obtain dst' where dst': "copy_middle l n source (Suc s) (dst[d := c]) (Suc d) = Some dst'"
      "copied source (8 * Suc s + l) (dst[d := c]) (8 * Suc d) (8 * n) dst'"
    using Suc.IH [of "Suc s" "Suc d" "dst[d := c]"] Suc.prems by auto
  have "copied source (8 * s + l) dst (8 * d) (8 + 8 * n) dst'"
    using copied_trans [of source "8 * s + l" dst "8 * d" 8 "dst[d := c]" "8 * n" dst'] one dst'(2)
    by (simp add: algebra_simps)
  then show ?case using c(1) dst'(1) Suc.prems by (simp add: wr_def)
qed simp

lemma mem_copy_copied:
  assumes "s + n \<le> length source" "d + n \<le> length dst"
  shows "\<exists>dst'. mem_copy n source s dst d = Some dst' \<and> copied source (8 * s) dst (8 * d) (8 * n) dst'"
  using assms
proof (induction n arbitrary: s d dst)
  case (Suc n)
  have one: "copied source (8 * s) dst (8 * d + 0) 8 (dst[d := source ! s])"
    using Suc.prems by (intro copied_byte) auto
  obtain dst' where dst': "mem_copy n source (Suc s) (dst[d := source ! s]) (Suc d) = Some dst'"
      "copied source (8 * Suc s) (dst[d := source ! s]) (8 * Suc d) (8 * n) dst'"
    using Suc.IH [of "Suc s" "Suc d" "dst[d := source ! s]"] Suc.prems by auto
  have "copied source (8 * s) dst (8 * d) (8 + 8 * n) dst'"
    using copied_trans [of source "8 * s" dst "8 * d" 8 "dst[d := source ! s]" "8 * n" dst'] one dst'(2)
    by (simp add: algebra_simps)
  then show ?case using dst'(1) Suc.prems by (simp add: wr_def rd_def)
qed simp

section \<open>The whole copy\<close>

lemma copy_aligned_copied:
  assumes "dm < 8" "8 * s + dm + n \<le> 8 * length source" "8 * d + dm + n \<le> 8 * length dst" "0 < n"
  shows "\<exists>dst'. copy_aligned source s n dst d dm = Some dst' \<and> copied source (8 * s + dm) dst (8 * d + dm) n dst'"
proof -
  have rest: "\<exists>dst'. (do { dest \<leftarrow> mem_copy (r div 8) source s' dst1 d';
        if 0 < r mod 8 then do { b \<leftarrow> rd source (s' + r div 8); end_byte (r mod 8) b dest (d' + r div 8) } else Some dest }) = Some dst' \<and>
      copied source (8 * s') dst1 (8 * d') r dst'"
    if "8 * s' + r \<le> 8 * length source" "8 * d' + r \<le> 8 * length dst1" for s' d' r dst1
  proof -
    have len: "s' + r div 8 \<le> length source" "d' + r div 8 \<le> length dst1" using that by auto
    obtain dst2 where dst2: "mem_copy (r div 8) source s' dst1 d' = Some dst2"
        "copied source (8 * s') dst1 (8 * d') (8 * (r div 8)) dst2"
      using mem_copy_copied [OF len] by blast
    show ?thesis
    proof (cases "r mod 8 = 0")
      case True
      then have "8 * (r div 8) = r" by auto
      then show ?thesis using dst2 True by simp
    next
      case False
      have in_range: "s' + r div 8 < length source" "d' + r div 8 < length dst2"
        using that False copied_length [OF dst2(2)] mult_div_mod_eq [of 8 r] by linarith+
      have "mbit (source ! (s' + r div 8)) q = bit_at source (8 * (s' + r div 8) + q)" if "q < r mod 8" for q
      proof -
        have "q < 8" using that mod_less_divisor [of 8 r] by linarith
        then show ?thesis by (simp only: bit_at_byte)
      qed
      then obtain dst3 where "end_byte (r mod 8) (source ! (s' + r div 8)) dst2 (d' + r div 8) = Some dst3"
          "copied source (8 * (s' + r div 8)) dst2 (8 * (d' + r div 8)) (r mod 8) dst3"
        using end_byte_copied [OF in_range(2), of "r mod 8" "source ! (s' + r div 8)" source "8 * (s' + r div 8)"] by force
      moreover from this have "copied source (8 * s') dst1 (8 * d') (8 * (r div 8) + r mod 8) dst3"
        using copied_trans [OF dst2(2), of "r mod 8" dst3] by (simp only: distrib_left)
      ultimately show ?thesis using dst2(1) in_range(1) False by (simp add: rd_def)
    qed
  qed
  show ?thesis
  proof (cases "dm = 0")
    case True
    then show ?thesis using rest [of s n d dst] assms by (simp add: copy_aligned_def)
  next
    case False
    have in_range: "s < length source" "d < length dst" using assms by auto
    let ?m = "min n (8 - dm)"
    obtain c' dst1 dst2 where first: "prepare_first_copy dm n (reverse_mask_xor ! dm AND source ! s) dst d = Some (n - ?m, c', dst1)"
        "or_byte dst1 d c' = Some dst2" "copied source (8 * s + dm) dst (8 * d + dm) ?m dst2"
      using first_phase [OF in_range(2) assms(1), of "reverse_mask_xor ! dm AND source ! s" n source "8 * s + dm"] assms(1)
      by (auto simp: mbit_reverse_mask_xor)
    have len: "length dst2 = length dst" using copied_length [OF first(3)] .
    show ?thesis
    proof (cases "n \<le> 8 - dm")
      case True
      then have m: "?m = n" by simp
      show ?thesis using False in_range(1) first unfolding m
        by (simp add: copy_aligned_def rd_def)
    next
      case n: False
      then have m: "?m = 8 - dm" by simp
      have e: "8 * s + dm + (8 - dm) = 8 * Suc s" "8 * d + dm + (8 - dm) = 8 * Suc d" using assms(1) by auto
      obtain dst3 where dst3: "(do { dest \<leftarrow> mem_copy ((n - ?m) div 8) source (Suc s) dst2 (Suc d);
          if 0 < (n - ?m) mod 8 then do { b \<leftarrow> rd source (Suc s + (n - ?m) div 8); end_byte ((n - ?m) mod 8) b dest (Suc d + (n - ?m) div 8) }
          else Some dest }) = Some dst3"
          "copied source (8 * Suc s) dst2 (8 * Suc d) (n - ?m) dst3"
        using rest [of "Suc s" "n - ?m" "Suc d" dst2] assms n len by auto
      have "copied source (8 * s + dm) dst (8 * d + dm) (?m + (n - ?m)) dst3"
        using copied_trans [OF first(3), of "n - ?m" dst3] dst3(2) unfolding m e .
      then show ?thesis using False in_range(1) first(1,2) dst3(1)
        by (simp add: copy_aligned_def rd_def)
    qed
  qed
qed

text \<open>After the first byte, the source is read from its bit \<open>l\<close> on.\<close>

lemma misaligned_rest:
  assumes "0 < l" "l < 8" "8 * s + l + n \<le> 8 * length source" "8 * d + n \<le> 8 * length dst"
  shows "\<exists>dst'. (do { dest \<leftarrow> copy_middle l (n div 8) source s dst d;
            if 0 < n mod 8 then do { c \<leftarrow> shifted_byte l source (s + n div 8); end_byte (n mod 8) c dest (d + n div 8) }
            else Some dest }) = Some dst' \<and> copied source (8 * s + l) dst (8 * d) n dst'"
proof -
  have n: "8 * (n div 8) + n mod 8 = n" by simp
  have len: "8 * s + l + 8 * (n div 8) \<le> 8 * length source" "d + n div 8 \<le> length dst"
    using assms(3,4) by auto
  obtain dst2 where dst2: "copy_middle l (n div 8) source s dst d = Some dst2"
      "copied source (8 * s + l) dst (8 * d) (8 * (n div 8)) dst2"
    using copy_middle_copied [OF assms(1,2) len] by blast
  show ?thesis
  proof (cases "n mod 8 = 0")
    case True
    then have "8 * (n div 8) = n" by auto
    then show ?thesis using dst2 True by simp
  next
    case False
    let ?s = "s + n div 8"
    have in_range: "8 * ?s + l < 8 * length source" "d + n div 8 < length dst2"
    proof -
      have "0 < n mod 8" using False by simp
      then show "8 * ?s + l < 8 * length source" "d + n div 8 < length dst2"
        using assms(3,4) copied_length [OF dst2(2)] n unfolding distrib_left by linarith+
    qed
    obtain c where c: "shifted_byte l source ?s = Some c"
        "\<And>q. q < 8 \<Longrightarrow> 8 * ?s + l + q < 8 * length source \<Longrightarrow> mbit c q = bit_at source (8 * ?s + l + q)"
      using shifted_byte_bits [OF assms(1,2) in_range(1)] by blast
    have "mbit c q = bit_at source (8 * ?s + l + q)" if q: "q < n mod 8" for q
    proof (rule c(2))
      show "q < 8" using q mod_less_divisor [of 8 n] by linarith
      show "8 * ?s + l + q < 8 * length source" using q assms(3) n unfolding distrib_left by linarith
    qed
    then obtain dst3 where "end_byte (n mod 8) c dst2 (d + n div 8) = Some dst3"
        "copied source (8 * ?s + l) dst2 (8 * (d + n div 8)) (n mod 8) dst3"
      using end_byte_copied [OF in_range(2), of "n mod 8" c source "8 * ?s + l"] by force
    moreover from this have "copied source (8 * s + l) dst (8 * d) (8 * (n div 8) + n mod 8) dst3"
      using copied_trans [OF dst2(2), of "n mod 8" dst3] by (simp only: distrib_left ac_simps)
    ultimately show ?thesis using dst2(1) c(1) False by simp
  qed
qed

lemma copy_misaligned_copied:
  assumes "sm < 8" "dm < 8" "sm \<noteq> dm" "0 < n"
    and "8 * s + sm + n \<le> 8 * length source" "8 * d + dm + n \<le> 8 * length dst"
  shows "\<exists>dst'. copy_misaligned source s sm n dst d dm = Some dst' \<and> copied source (8 * s + sm) dst (8 * d + dm) n dst'"
proof -
  have in_range: "s < length source" "d < length dst" using assms by auto
  let ?m = "min n (8 - dm)"
  text \<open>The byte for the destination's first byte, and where the source is read next.\<close>
  obtain l c s' where lc: "0 < l" "l < 8" "8 * s + sm + (8 - dm) = 8 * s' + l"
      "(if dm < sm then do { c \<leftarrow> shifted_byte (sm - dm) source s; Some (sm - dm, c AND reverse_mask_xor ! dm, Suc s) }
        else do { b \<leftarrow> rd source s; Some (8 - (dm - sm), drop_bit (dm - sm) b AND reverse_mask_xor ! dm, s) }) = Some (l, c, s')"
      "\<And>q. q < dm \<Longrightarrow> \<not> mbit c q"
      "\<And>q. dm \<le> q \<Longrightarrow> q < dm + ?m \<Longrightarrow> mbit c q = bit_at source (8 * s + sm + (q - dm))"
  proof (cases "dm < sm")
    case True
    obtain c where c: "shifted_byte (sm - dm) source s = Some c"
        "\<And>q. q < 8 \<Longrightarrow> 8 * s + (sm - dm) + q < 8 * length source \<Longrightarrow> mbit c q = bit_at source (8 * s + (sm - dm) + q)"
    proof -
      have "0 < sm - dm" "sm - dm < 8" "8 * s + (sm - dm) < 8 * length source" using True assms by auto
      from shifted_byte_bits [OF this] that show thesis by blast
    qed
    show thesis
    proof (rule that [of "sm - dm" "Suc s" "c AND reverse_mask_xor ! dm"])
      fix q assume q: "dm \<le> q" "q < dm + ?m"
      have "8 * s + (sm - dm) + q < 8 * length source" using q True assms(5) by linarith
      then have "mbit c q = bit_at source (8 * s + (sm - dm) + q)" using q by (intro c(2)) simp_all
      moreover have "8 * s + (sm - dm) + q = 8 * s + sm + (q - dm)" using True q by simp
      ultimately show "mbit (c AND reverse_mask_xor ! dm) q = bit_at source (8 * s + sm + (q - dm))"
        using q assms(2) by (simp add: mbit_reverse_mask_xor)
    qed (use True assms c(1) in \<open>auto simp: mbit_reverse_mask_xor\<close>)
  next
    case False
    then have less: "sm < dm" using assms(3) by simp
    show thesis
    proof (rule that [of "8 - (dm - sm)" s "drop_bit (dm - sm) (source ! s) AND reverse_mask_xor ! dm"])
      fix q assume q: "dm \<le> q" "q < dm + ?m"
      have "bit_at source (8 * s + (q - (dm - sm))) = mbit (source ! s) (q - (dm - sm))"
        using q assms(2) less by (intro bit_at_byte) auto
      moreover have "8 * s + (q - (dm - sm)) = 8 * s + sm + (q - dm)" "dm - sm \<le> q" using less q by simp_all
      ultimately show "mbit (drop_bit (dm - sm) (source ! s) AND reverse_mask_xor ! dm) q = bit_at source (8 * s + sm + (q - dm))"
        using q assms(2) less by (simp add: mbit_reverse_mask_xor mbit_drop_bit)
    qed (use less assms in_range in \<open>auto simp: mbit_reverse_mask_xor rd_def\<close>)
  qed
  obtain c' dst1 dst2 where first: "prepare_first_copy dm n c dst d = Some (n - ?m, c', dst1)"
      "or_byte dst1 d c' = Some dst2" "copied source (8 * s + sm) dst (8 * d + dm) ?m dst2"
    using first_phase [OF in_range(2) assms(2) lc(5) lc(6)] by blast
  have len: "length dst2 = length dst" using copied_length [OF first(3)] .
  have step: "copy_misaligned source s sm n dst d dm =
      (do { dest \<leftarrow> copy_middle l ((n - ?m) div 8) source s' dst2 (Suc d);
            if 0 < (n - ?m) mod 8 then do { c \<leftarrow> shifted_byte l source (s' + (n - ?m) div 8); end_byte ((n - ?m) mod 8) c dest (Suc d + (n - ?m) div 8) }
            else Some dest })"
    unfolding copy_misaligned_def lc(4) by (simp add: first(1,2))
  show ?thesis
  proof (cases "n \<le> 8 - dm")
    case True
    then show ?thesis using first(3) unfolding step by simp
  next
    case False
    then have m: "?m = 8 - dm" by simp
    have e: "8 * d + dm + (8 - dm) = 8 * Suc d" using assms(2) by auto
    have bounds: "8 * s' + l + (n - ?m) \<le> 8 * length source" "8 * Suc d + (n - ?m) \<le> 8 * length dst2"
      using assms lc(3) False len m by auto
    obtain dst3 where dst3: "copy_misaligned source s sm n dst d dm = Some dst3"
        "copied source (8 * s' + l) dst2 (8 * Suc d) (n - ?m) dst3"
      using misaligned_rest [OF lc(1,2) bounds] unfolding step by blast
    have "copied source (8 * s + sm) dst (8 * d + dm) (?m + (n - ?m)) dst3"
      using copied_trans [OF first(3), of "n - ?m" dst3] dst3(2) unfolding m e lc(3) .
    then show ?thesis using dst3(1) by simp
  qed
qed

text \<open>
  Copying bits.  \<open>copy_bits\<close> never reads or writes outside of its arrays.  It copies
  exactly when the count is positive and both ranges lie within their arrays, and then bit by
  bit: the range of the destination holds the source's bits, every other bit is as before,
  whatever the alignment of the two ranges.
\<close>

theorem copy_bits_reference:
  "(if 0 < n \<and> from + n \<le> 8 * length source \<and> to + n \<le> 8 * length dst
    then \<exists>dst'. copy_bits source from n dst to = Some (True, dst') \<and> copied source from dst to n dst'
    else copy_bits source from n dst to = Some (False, dst))"
proof (cases "0 < n \<and> from + n \<le> 8 * length source \<and> to + n \<le> 8 * length dst")
  case True
  have f: "8 * (from div 8) + from mod 8 = from" "8 * (to div 8) + to mod 8 = to" by simp_all
  have bounds: "8 * (from div 8) + from mod 8 + n \<le> 8 * length source" "8 * (to div 8) + to mod 8 + n \<le> 8 * length dst"
    using True unfolding f by simp_all
  have "\<exists>dst'. (if from mod 8 = to mod 8 then copy_aligned source (from div 8) n dst (to div 8) (to mod 8)
      else copy_misaligned source (from div 8) (from mod 8) n dst (to div 8) (to mod 8)) = Some dst' \<and>
      copied source from dst to n dst'"
  proof (cases "from mod 8 = to mod 8")
    case eq: True
    then show ?thesis
      using copy_aligned_copied [of "to mod 8" "from div 8" n source "to div 8" dst] True bounds f by simp
  next
    case neq: False
    then show ?thesis
      using copy_misaligned_copied [of "from mod 8" "to mod 8" n "from div 8" source "to div 8" dst] True bounds f by simp
  qed
  then show ?thesis using True by (auto simp: copy_bits_def Let_def)
next
  case False
  then show ?thesis unfolding if_not_P [OF False] by (auto simp: copy_bits_def Let_def mult.commute not_le)
qed


section \<open>Fields are stored and read back\<close>

lemma div_mod_bit: "(k :: nat) < 64 \<Longrightarrow> 8 * (7 - k div 8) + (7 - k mod 8) = 63 - k"
  using mult_div_mod_eq [of 8 k] by arith

lemma value_bytes_length [simp]: "length (value_bytes v) = 8"
  by (simp add: value_bytes_def)

lemma bit_at_value_bytes: "k < 64 \<Longrightarrow> bit_at (value_bytes v) k = bit v (63 - k)"
proof -
  assume k: "k < 64"
  then have "k div 8 < 8" by (simp add: less_mult_imp_div_less)
  then have "value_bytes v ! (k div 8) = ucast (drop_bit (8 * (7 - k div 8)) v)"
    by (simp add: value_bytes_def del: upt_rec_numeral)
  then have "bit_at (value_bytes v) k = bit v (8 * (7 - k div 8) + (7 - k mod 8))"
    by (simp add: bit_at_def mbit_def bit_simps less_imp_diff_less)
  then show ?thesis by (simp only: div_mod_bit [OF k])
qed

lemma bit_at_append: "k < 8 * length bs \<Longrightarrow> bit_at (bs @ cs) k = bit_at bs k"
  by (simp add: bit_at_def nth_append less_mult_imp_div_less mult.commute)

lemma bytes_value_snoc: "bytes_value (bs @ [b]) = push_bit 8 (bytes_value bs) OR ucast b"
  by (simp add: bytes_value_def)

lemma bit_bytes_value:
  "j < 64 \<Longrightarrow> bit (bytes_value bs) j = (j < 8 * length bs \<and> bit_at bs (8 * length bs - 1 - j))"
proof (induction bs arbitrary: j rule: rev_induct)
  case Nil
  then show ?case by (simp add: bytes_value_def)
next
  case (snoc b bs)
  show ?case
  proof (cases "j < 8")
    case True
    then have "8 * length (bs @ [b]) - 1 - j = 8 * length bs + (7 - j)" by simp
    moreover have "bit_at (bs @ [b]) (8 * length bs + (7 - j)) = mbit b (7 - j)" by simp
    ultimately show ?thesis using True by (simp add: bytes_value_snoc mbit_def bit_simps)
  next
    case False
    then have "bit (bytes_value (bs @ [b])) j = bit (bytes_value bs) (j - 8)"
      using snoc.prems by (auto simp: bytes_value_snoc bit_simps dest: bit_imp_le_length)
    moreover have "8 * length (bs @ [b]) - 1 - j = 8 * length bs - 1 - (j - 8)" using False by simp
    ultimately show ?thesis using snoc.IH [of "j - 8"] snoc.prems False by (auto simp: bit_at_append)
  qed
qed

lemma right_aligned_offset:
  assumes "0 < n" "n \<le> 64"
  shows "(8 - bits_to_bytes n) * 8 + 8 - find_end_bit n = 64 - n"
proof -
  obtain q r where n: "n = 8 * q + r" "r < 8" by (rule that [of "n div 8" "n mod 8"]) simp_all
  have "n div 8 = q" "n mod 8 = r" using n by auto
  then show ?thesis using assms n by (auto simp: bits_to_bytes_def find_end_bit_def Let_def)
qed

lemma copied_inside:
  "copied source from dst to n dst' \<Longrightarrow> i < n \<Longrightarrow> to + n \<le> 8 * length dst \<Longrightarrow> bit_at dst' (to + i) = bit_at source (from + i)"
  by (simp add: copied_def)

lemma copied_outside:
  "copied source from dst to n dst' \<Longrightarrow> k < 8 * length dst \<Longrightarrow> k < to \<or> to + n \<le> k \<Longrightarrow> bit_at dst' k = bit_at dst k"
  by (auto simp: copied_def)

text \<open>What a read finds: the field's bits, the last one lowest.\<close>

lemma get_bitfield_bits:
  assumes "0 < n" "n \<le> 64" "off + n \<le> 8 * length source"
  shows "\<exists>w. get_bitfield source off n = Some w \<and> (\<forall>j < 64. bit w j = (j < n \<and> bit_at source (off + (n - 1 - j))))"
proof -
  obtain r where r: "copy_bits source off n (replicate 8 0) (64 - n) = Some (True, r)"
      "copied source off (replicate 8 0) (64 - n) n r"
    using copy_bits_reference [of n off source "64 - n" "replicate 8 0"] assms by auto
  have len: "length r = 8" using copied_length [OF r(2)] by simp
  have "bit (bytes_value r) j = (j < n \<and> bit_at source (off + (n - 1 - j)))" if j: "j < 64" for j
  proof (cases "j < n")
    case True
    then have "bit_at r (64 - n + (n - 1 - j)) = bit_at source (off + (n - 1 - j))"
      using assms by (intro copied_inside [OF r(2)]) auto
    moreover have "64 - n + (n - 1 - j) = 63 - j" using True assms(2) by simp
    ultimately show ?thesis using True j by (simp add: bit_bytes_value len)
  next
    case False
    then have "bit_at r (63 - j) = bit_at (replicate 8 0) (63 - j)"
      using assms j by (intro copied_outside [OF r(2)]) auto
    also have "\<dots> = False" using j by (simp add: bit_at_def less_mult_imp_div_less)
    finally show ?thesis using False j by (simp add: bit_bytes_value len)
  qed
  then show ?thesis using assms r(1) right_aligned_offset [OF assms(1,2)]
    by (simp add: get_bitfield_def copy_bits_right_aligned_def)
qed

lemma bitmask_less: "n \<le> 64 \<Longrightarrow> v \<le> bitmask (word_of_nat n) \<Longrightarrow> bit v j \<Longrightarrow> j < n"
proof -
  assume a: "n \<le> 64" "v \<le> bitmask (word_of_nat n)" "bit v j"
  show "j < n"
  proof (cases "n = 64")
    case True
    then show ?thesis using bit_imp_le_length [OF a(3)] by simp
  next
    case False
    then have n: "n < 64" using a(1) by simp
    then have u: "unat (word_of_nat n :: u8) = n" by (simp add: unat_of_nat)
    have "\<not> 64 \<le> (word_of_nat n :: u8)" using n by (simp add: word_le_nat_alt u)
    then have "bitmask (word_of_nat n) = mask n" by (simp add: bitmask_def u mask_eq_exp_minus_1 push_bit_eq_mult)
    moreover have "unat (of_nat (mask n) :: u64) = mask n" using n by (simp only: unsigned_of_nat) simp
    ultimately have "unat v \<le> 2 ^ n - 1" using a(2)
      by (simp add: of_nat_mask_eq word_le_nat_alt mask_eq_exp_minus_1)
    moreover have "0 < (2 :: nat) ^ n" by simp
    ultimately have "unat v < 2 ^ n" by linarith
    then have "unat (take_bit n v) = unat v" by (simp add: unsigned_take_bit_eq take_bit_nat_eq_self)
    then have "take_bit n v = v" by (simp add: word_unat_eq_iff)
    then show ?thesis using a(3) bit_take_bit_iff [of n v j] by simp
  qed
qed

lemma set_bitfield_fits:
  assumes "0 < n" "n \<le> 64" "v \<le> bitmask (word_of_nat n)" "off + n \<le> 8 * length dst"
  shows "\<exists>dst'. set_bitfield v off n dst = Some (True, dst') \<and> copied (value_bytes v) (64 - n) dst off n dst'"
  using copy_bits_reference [of n "64 - n" "value_bytes v" off dst] assms
  by (auto simp: set_bitfield_def not_less mod_less_eq_dividend le_mod_geq)

lemma set_bitfield_refused:
  assumes "n < 65536" "\<not> (0 < n \<and> n \<le> 64 \<and> v \<le> bitmask (word_of_nat n) \<and> off + n \<le> 8 * length dst)"
  shows "set_bitfield v off n dst = Some (False, dst)"
proof (cases "bitmask (word_of_nat n) < v")
  case False
  have "(64 + 65536 - n) mod 65536 + n > 64" if "64 < n"
  proof -
    have "(64 + 65536 - n) mod 65536 = 64 + 65536 - n" using that assms(1) by (intro mod_less) simp
    then show ?thesis using that assms(1) by simp
  qed
  then have "\<not> (0 < n \<and> (64 + 65536 - n) mod 65536 + n \<le> 8 * length (value_bytes v) \<and> off + n \<le> 8 * length dst)"
    using assms(2) False by (auto simp: not_less)
  with copy_bits_reference [of n "(64 + 65536 - n) mod 65536" "value_bytes v" off dst] False show ?thesis
    by (simp only: set_bitfield_def if_False)
qed (simp add: set_bitfield_def)

text \<open>What is read back depends on the field's own bits only.\<close>

lemma get_bitfield_cong:
  assumes "length a = length b" "\<And>k. off \<le> k \<Longrightarrow> k < off + n \<Longrightarrow> bit_at a k = bit_at b k"
    and "0 < n" "n \<le> 64" "off + n \<le> 8 * length a"
  shows "get_bitfield a off n = get_bitfield b off n"
proof -
  obtain v w where "get_bitfield a off n = Some v" "\<forall>j < 64. bit v j = (j < n \<and> bit_at a (off + (n - 1 - j)))"
      "get_bitfield b off n = Some w" "\<forall>j < 64. bit w j = (j < n \<and> bit_at b (off + (n - 1 - j)))"
    using get_bitfield_bits [of n off a] get_bitfield_bits [of n off b] assms by auto
  moreover have "v = w" using calculation assms(2) by (intro bit_word_eqI) auto
  ultimately show ?thesis by simp
qed

lemma get_set_bitfield:
  assumes "0 < n" "n \<le> 64" "v \<le> bitmask (word_of_nat n)" "off + n \<le> 8 * length dst"
    and "copied (value_bytes v) (64 - n) dst off n dst'"
  shows "get_bitfield dst' off n = Some v"
proof -
  obtain w where w: "get_bitfield dst' off n = Some w" "\<forall>j < 64. bit w j = (j < n \<and> bit_at dst' (off + (n - 1 - j)))"
    using get_bitfield_bits [of n off dst'] assms copied_length [OF assms(5)] by auto
  have "bit w j = bit v j" if j: "j < 64" for j
  proof (cases "j < n")
    case True
    then have "bit_at dst' (off + (n - 1 - j)) = bit_at (value_bytes v) (64 - n + (n - 1 - j))"
      using assms by (intro copied_inside) auto
    moreover have "64 - n + (n - 1 - j) = 63 - j" using True assms(2) by simp
    ultimately show ?thesis using w(2) True j by (simp add: bit_at_value_bytes)
  next
    case False
    then show ?thesis using w(2) j bitmask_less [OF assms(2,3), of j] by auto
  qed
  then have "w = v" by (intro bit_word_eqI) simp
  then show ?thesis using w(1) by simp
qed

text \<open>
  C26: A field is stored and read back.  \<open>set_bitfield\<close> never leaves its arrays.  It succeeds
  exactly when the field has 1 to 64 bits, lies within the array and the value fits; then
  \<open>get_bitfield\<close> returns the value, and every other bit of the array, so every field that
  does not overlap, is as before.  In every other case nothing is written.
\<close>

theorem bitfield_roundtrip:
  assumes "n < 65536"
  shows "if 0 < n \<and> n \<le> 64 \<and> v \<le> bitmask (word_of_nat n) \<and> off + n \<le> 8 * length dst
    then \<exists>dst'. set_bitfield v off n dst = Some (True, dst') \<and> length dst' = length dst \<and>
      get_bitfield dst' off n = Some v \<and>
      (\<forall>off' n'. 0 < n' \<and> n' \<le> 64 \<and> off' + n' \<le> 8 * length dst \<and> (off' + n' \<le> off \<or> off + n \<le> off') \<longrightarrow>
         get_bitfield dst' off' n' = get_bitfield dst off' n')
    else set_bitfield v off n dst = Some (False, dst)"
proof (cases "0 < n \<and> n \<le> 64 \<and> v \<le> bitmask (word_of_nat n) \<and> off + n \<le> 8 * length dst")
  case True
  then obtain dst' where dst': "set_bitfield v off n dst = Some (True, dst')"
      "copied (value_bytes v) (64 - n) dst off n dst'"
    using set_bitfield_fits by blast
  have "get_bitfield dst' off' n' = get_bitfield dst off' n'"
    if "0 < n'" "n' \<le> 64" "off' + n' \<le> 8 * length dst" "off' + n' \<le> off \<or> off + n \<le> off'" for off' n'
    using that copied_length [OF dst'(2)]
    by (intro get_bitfield_cong copied_outside [OF dst'(2)]) auto
  then show ?thesis using True dst' get_set_bitfield [of n v off dst dst'] copied_length [OF dst'(2)] by auto
next
  case False
  then show ?thesis unfolding if_not_P [OF False] by (rule set_bitfield_refused [OF assms])
qed

lemma bitfield_roundtrip_witness:
  "(\<exists>dst'. set_bitfield 0x155 3 9 [0xFF, 0xFF] = Some (True, dst') \<and> get_bitfield dst' 3 9 = Some 0x155) \<and>
   set_bitfield 0x200 3 9 [0xFF, 0xFF] = Some (False, [0xFF, 0xFF]) \<and>
   set_bitfield 1 8 9 [0xFF, 0xFF] = Some (False, [0xFF, 0xFF])"
  using bitfield_roundtrip [of 9 "0x155" 3 "[0xFF, 0xFF]"] bitfield_roundtrip [of 9 "0x200" 3 "[0xFF, 0xFF]"]
    bitfield_roundtrip [of 9 1 8 "[0xFF, 0xFF]"]
  by (auto simp: bitmask_def)

end
