(* ===== verification/FieldEditing.thy ===== *)
theory FieldEditing
  imports NumberText BitField
begin

text \<open>
  The text of a bit field, and editing fields by their texts.  Source:
  \<open>src/utils/ScalarTypeDispatch.hpp\<close> and the \<open>HandleBitReading\<close> and \<open>HandleBitWriting\<close>
  templates of \<open>src/CanEntryHandler.cpp\<close>, \<open>src/CanScriptHandler.cpp\<close> and
  \<open>src/ModbusHandler.cpp\<close>, which differ in the base of the numbers only.  A result \<open>None\<close> is
  undefined behaviour: an index outside of a vector, or a number without a value in the type
  it is converted to.
\<close>

section \<open>Scalars\<close>

datatype scalar_type = ST_None | ST_U8 | ST_I8 | ST_U16 | ST_I16 | ST_U32 | ST_I32 | ST_U64 | ST_I64 | ST_Float | ST_Double

text \<open>The value nearest to \<open>n\<close> with \<open>p\<close> significant bits, the even one of two.\<close>

fun bit_count :: "nat \<Rightarrow> nat" where
  "bit_count n = (if n = 0 then 0 else Suc (bit_count (n div 2)))"

declare bit_count.simps [simp del]

definition round_bits :: "nat \<Rightarrow> nat \<Rightarrow> nat" where
  "round_bits p n =
     (let e = bit_count n - p; q = n div 2 ^ e; r = n mod 2 ^ e
      in (if 2 ^ e < 2 * r \<or> 2 ^ e = 2 * r \<and> odd q then q + 1 else q) * 2 ^ e)"

definition round_int :: "nat \<Rightarrow> int \<Rightarrow> int" where
  "round_int p n = (if n < 0 then - int (round_bits p (nat (- n))) else int (round_bits p (nat n)))"

text \<open>A floating point number converted to an unsigned integer.\<close>

definition float_to_u64 :: "int \<Rightarrow> u64 option" where
  "float_to_u64 n = (if 0 \<le> n \<and> n < 2 ^ 64 then Some (word_of_int n) else None)"

text \<open>\<open>static_cast<uint64_t>(static_cast<T>(raw))\<close>\<close>

fun cast_scalar :: "scalar_type \<Rightarrow> int \<Rightarrow> u64 option" where
  "cast_scalar ST_U8 n = Some (ucast (word_of_int n :: u8))"
| "cast_scalar ST_I8 n = Some (scast (word_of_int n :: u8))"
| "cast_scalar ST_U16 n = Some (ucast (word_of_int n :: u16))"
| "cast_scalar ST_I16 n = Some (scast (word_of_int n :: u16))"
| "cast_scalar ST_U32 n = Some (ucast (word_of_int n :: u32))"
| "cast_scalar ST_I32 n = Some (scast (word_of_int n :: u32))"
| "cast_scalar ST_U64 n = Some (word_of_int n)"
| "cast_scalar ST_I64 n = Some (word_of_int n)"
| "cast_scalar ST_Float n = float_to_u64 (round_int 24 n)"
| "cast_scalar ST_Double n = float_to_u64 (round_int 53 n)"
| "cast_scalar ST_None n = None"

text \<open>\<open>std::to_string(static_cast<T>(value))\<close>: a floating point number has six decimals.\<close>

fun show_scalar :: "scalar_type \<Rightarrow> u64 \<Rightarrow> string" where
  "show_scalar ST_U8 v = int_decimal (uint (ucast v :: u8))"
| "show_scalar ST_I8 v = int_decimal (sint (ucast v :: u8))"
| "show_scalar ST_U16 v = int_decimal (uint (ucast v :: u16))"
| "show_scalar ST_I16 v = int_decimal (sint (ucast v :: u16))"
| "show_scalar ST_U32 v = int_decimal (uint (ucast v :: u32))"
| "show_scalar ST_I32 v = int_decimal (sint (ucast v :: u32))"
| "show_scalar ST_U64 v = int_decimal (uint v)"
| "show_scalar ST_I64 v = int_decimal (sint v)"
| "show_scalar ST_Float v = int_decimal (round_int 24 (uint v)) @ ''.000000''"
| "show_scalar ST_Double v = int_decimal (round_int 53 (uint v)) @ ''.000000''"
| "show_scalar ST_None v = []"

section \<open>Fields\<close>

text \<open>An entry of a mapping, as far as its bits go: its offset, its size and its type.\<close>

record bit_field =
  bf_offset :: u8
  bf_size :: u8
  bf_scalar :: scalar_type

text \<open>The value that a row of the editor shows.\<close>

definition HandleBitReading :: "bytes \<Rightarrow> bit_field \<Rightarrow> string option" where
  "HandleBitReading data f =
     map_option (show_scalar (bf_scalar f)) (get_bitfield data (unat (bf_offset f)) (unat (bf_size f)))"

text \<open>A text that is no number is logged and passed over; so is one that does not fit its field.\<close>

definition write_text :: "nat \<Rightarrow> bit_field \<Rightarrow> bytes \<Rightarrow> string \<Rightarrow> bytes option" where
  "write_text base f byte_array text =
     (case TryParse (- (2 ^ 63)) (2 ^ 63 - 1) Whole base text of
        Some raw_data \<Rightarrow>
          do {
            v \<leftarrow> cast_scalar (bf_scalar f) raw_data;
            map_option snd (set_bitfield v (unat (bf_offset f)) (unat (bf_size f)) byte_array)
          }
      | None \<Rightarrow> Some byte_array)"

definition HandleBitWriting :: "bit_field \<Rightarrow> u8 \<Rightarrow> bytes \<Rightarrow> string list \<Rightarrow> (u8 \<times> bytes) option" where
  "HandleBitWriting f pos byte_array new_data =
     (if unat pos < length new_data
      then map_option (Pair (pos + 1)) (write_text 10 f byte_array (new_data ! unat pos))
      else None)"

text \<open>The loops over a mapping; nothing is called for a field that is no scalar.\<close>

definition shown_texts :: "bytes \<Rightarrow> bit_field list \<Rightarrow> string list option" where
  "shown_texts data fs = those (map (HandleBitReading data) (filter (\<lambda>f. bf_scalar f \<noteq> ST_None) fs))"

fun apply_texts :: "bit_field list \<Rightarrow> string list \<Rightarrow> u8 \<Rightarrow> bytes \<Rightarrow> bytes option" where
  "apply_texts [] new_data cnt byte_array = Some byte_array"
| "apply_texts (f # fs) new_data cnt byte_array =
     (if bf_scalar f = ST_None then apply_texts fs new_data cnt byte_array
      else do {
        (cnt, byte_array) \<leftarrow> HandleBitWriting f cnt byte_array new_data;
        apply_texts fs new_data cnt byte_array
      })"

section \<open>Texts and values\<close>

text \<open>The number of bits a number that is not negative has in a type, and in a parsed text.\<close>

fun value_bits :: "scalar_type \<Rightarrow> nat" where
  "value_bits ST_U8 = 8" | "value_bits ST_I8 = 7" | "value_bits ST_U16 = 16" | "value_bits ST_I16 = 15"
| "value_bits ST_U32 = 32" | "value_bits ST_I32 = 31" | "value_bits ST_U64 = 63" | "value_bits ST_I64 = 63"
| "value_bits _ = 0"

fun type_bits :: "scalar_type \<Rightarrow> nat" where
  "type_bits ST_U8 = 8" | "type_bits ST_I8 = 8" | "type_bits ST_U16 = 16" | "type_bits ST_I16 = 16"
| "type_bits ST_U32 = 32" | "type_bits ST_I32 = 32" | "type_bits _ = 64"


text \<open>A number that a field of the type and of \<open>n\<close> bits holds, as it is typed and as it is shown.\<close>

definition representable :: "scalar_type \<Rightarrow> nat \<Rightarrow> int \<Rightarrow> bool" where
  "representable st n k \<longleftrightarrow> 0 < value_bits st \<and> 0 \<le> k \<and> k < 2 ^ min n (value_bits st)"

lemma sint_small: "0 \<le> k \<Longrightarrow> k < 2 ^ (LENGTH('a) - 1) \<Longrightarrow> sint (word_of_int k :: 'a::len word) = k"
  by (simp add: sint_sbintrunc' signed_take_bit_int_eq_self)

lemma word_of_int_small: "0 \<le> k \<Longrightarrow> k < 2 ^ LENGTH('a) \<Longrightarrow> uint (word_of_int k :: 'a::len word) = k"
  by (simp add: uint_word_of_int_eq take_bit_int_eq_self)

lemma representable_less: "representable st n k \<Longrightarrow> 0 < value_bits st \<and> 0 \<le> k \<and> k < 2 ^ value_bits st \<and> k < 2 ^ n"
proof -
  assume "representable st n k"
  then have k: "0 < value_bits st" "0 \<le> k" "k < 2 ^ min n (value_bits st)" by (simp_all add: representable_def)
  have "(2 :: int) ^ min n (value_bits st) \<le> 2 ^ value_bits st" "(2 :: int) ^ min n (value_bits st) \<le> 2 ^ n"
    by (intro power_increasing; simp)+
  then show ?thesis using k by linarith
qed

lemma ucast_word_of_int_small:
  "0 \<le> k \<Longrightarrow> k < 2 ^ LENGTH('a) \<Longrightarrow> ucast (word_of_int k :: 'a::len word) = (word_of_int k :: u64)"
  by (metis word_of_int_small word_of_int_uint ucast_eq)

lemma scast_word_of_int_small:
  "0 \<le> k \<Longrightarrow> k < 2 ^ (LENGTH('a) - 1) \<Longrightarrow> scast (word_of_int k :: 'a::len word) = (word_of_int k :: u64)"
  by (simp add: scast_eq sint_small)

lemma cast_representable: "representable st n k \<Longrightarrow> cast_scalar st k = Some (word_of_int k)"
  using representable_less [of st n k]
  by (cases st) (simp_all add: ucast_word_of_int_small scast_word_of_int_small)

lemma ucast_word_of_int_u64:
  "LENGTH('a) \<le> 64 \<Longrightarrow> ucast (word_of_int k :: u64) = (word_of_int k :: 'a::len word)"
  by (rule bit_word_eqI) (auto simp: bit_simps)

lemma show_representable: "representable st n k \<Longrightarrow> show_scalar st (word_of_int k) = int_decimal k"
  using representable_less [of st n k]
  by (cases st) (simp_all add: ucast_word_of_int_u64 word_of_int_small sint_small)

lemma parse_representable:
  assumes "representable st n k"
  shows "TryParse (- (2 ^ 63)) (2 ^ 63 - 1) Whole 10 (int_decimal k) = Some k"
proof -
  have "value_bits st \<le> 63" by (cases st) simp_all
  then have "(2 :: int) ^ value_bits st \<le> 2 ^ 63" by (intro power_increasing) simp_all
  then have "- (2 ^ 63) \<le> k" "k \<le> 2 ^ 63 - 1" using representable_less [OF assms] by linarith+
  then show ?thesis by (rule TryParse_int_decimal)
qed

lemma representable_bitmask:
  assumes "representable st n k" "n \<le> 64"
  shows "(word_of_int k :: u64) \<le> bitmask (word_of_nat n)"
proof (cases "n = 64")
  case False
  then have n: "n < 64" using assms(2) by simp
  then have u: "unat (word_of_nat n :: u8) = n" by (simp add: unat_of_nat)
  have "\<not> 64 \<le> (word_of_nat n :: u8)" using n by (simp add: word_le_nat_alt u)
  then have e: "bitmask (word_of_nat n) = of_nat (mask n)"
    by (simp add: bitmask_def u mask_eq_exp_minus_1 push_bit_eq_mult of_nat_mask_eq)
  have "unat (of_nat (mask n) :: u64) = mask n" using n by (simp only: unsigned_of_nat) simp
  then have "uint (of_nat (mask n) :: u64) = 2 ^ n - 1"
    by (simp add: uint_nat mask_eq_exp_minus_1 of_nat_diff)
  moreover have "uint (word_of_int k :: u64) = k"
  proof -
    have "(2 :: int) ^ n \<le> 2 ^ 64" using n by (intro power_increasing) simp_all
    then show ?thesis using representable_less [OF assms(1)] by (intro word_of_int_small) simp_all
  qed
  ultimately show ?thesis unfolding e word_le_def using representable_less [OF assms(1)] by simp
next
  case True
  then have "bitmask (word_of_nat n) = 0xFFFFFFFFFFFFFFFF" by (simp add: bitmask_def)
  moreover have "unat (word_of_int k :: u64) < 2 ^ 64" using unsigned_less [of "word_of_int k :: u64"] by simp
  ultimately show ?thesis by (simp add: word_le_nat_alt)
qed

section \<open>What is applied is what is shown\<close>

definition inside :: "nat \<Rightarrow> bit_field \<Rightarrow> bool" where
  "inside len f \<longleftrightarrow> 0 < bf_size f \<and> bf_size f \<le> 64 \<and> unat (bf_offset f) + unat (bf_size f) \<le> 8 * len"

definition apart :: "bit_field \<Rightarrow> bit_field \<Rightarrow> bool" where
  "apart f g \<longleftrightarrow> unat (bf_offset f) + unat (bf_size f) \<le> unat (bf_offset g) \<or>
     unat (bf_offset g) + unat (bf_size g) \<le> unat (bf_offset f)"

definition holds_number :: "bit_field \<Rightarrow> int \<Rightarrow> bool" where
  "holds_number f k \<longleftrightarrow> representable (bf_scalar f) (unat (bf_size f)) k"

lemma inside_size: "inside len f \<Longrightarrow> 0 < unat (bf_size f) \<and> unat (bf_size f) \<le> 64"
  by (auto simp: inside_def word_le_nat_alt unat_gt_0 word_neq_0_conv)

lemma size_less: "unat (bf_size f) < 65536"
  using unsigned_less [of "bf_size f"] by (simp add: order_less_trans [of _ 256])

lemma write_parsed:
  assumes "inside (length dst) f" "holds_number f k"
    and parsed: "TryParse (- (2 ^ 63)) (2 ^ 63 - 1) Whole base t = Some k"
  shows "\<exists>dst'. write_text base f dst t = Some dst' \<and> length dst' = length dst \<and>
    HandleBitReading dst' f = Some (int_decimal k) \<and>
    (\<forall>g. inside (length dst) g \<and> apart f g \<longrightarrow> HandleBitReading dst' g = HandleBitReading dst g)"
proof -
  let ?n = "unat (bf_size f)" and ?off = "unat (bf_offset f)" and ?v = "word_of_int k :: u64"
  have n: "0 < ?n" "?n \<le> 64" "?off + ?n \<le> 8 * length dst" using assms(1) inside_size by (auto simp: inside_def)
  have rep: "representable (bf_scalar f) ?n k" using assms(2) by (simp add: holds_number_def)
  have fits: "?v \<le> bitmask (word_of_nat ?n)" using representable_bitmask [OF rep n(2)] .
  obtain dst' where dst': "set_bitfield ?v ?off ?n dst = Some (True, dst')"
      "copied (value_bytes ?v) (64 - ?n) dst ?off ?n dst'"
    using set_bitfield_fits [OF n(1,2) fits n(3)] by blast
  have "HandleBitReading dst' g = HandleBitReading dst g" if g: "inside (length dst) g" "apart f g" for g
  proof -
    have "get_bitfield dst' (unat (bf_offset g)) (unat (bf_size g)) = get_bitfield dst (unat (bf_offset g)) (unat (bf_size g))"
      using g inside_size [OF g(1)] copied_length [OF dst'(2)]
      by (intro get_bitfield_cong copied_outside [OF dst'(2)]) (auto simp: inside_def apart_def)
    then show ?thesis by (simp add: HandleBitReading_def)
  qed
  moreover have "HandleBitReading dst' f = Some (int_decimal k)"
    using get_set_bitfield [OF n(1,2) fits n(3) dst'(2)] show_representable [OF rep] by (simp add: HandleBitReading_def)
  moreover have "write_text base f dst t = Some dst'"
    unfolding write_text_def parsed by (simp add: cast_representable [OF rep] dst'(1))
  ultimately show ?thesis using copied_length [OF dst'(2)] by blast
qed

lemma write_number:
  assumes "inside (length dst) f" "holds_number f k"
  shows "\<exists>dst'. write_text 10 f dst (int_decimal k) = Some dst' \<and> length dst' = length dst \<and>
    HandleBitReading dst' f = Some (int_decimal k) \<and>
    (\<forall>g. inside (length dst) g \<and> apart f g \<longrightarrow> HandleBitReading dst' g = HandleBitReading dst g)"
  using write_parsed [OF assms parse_representable [OF assms(2) [unfolded holds_number_def]]] .

lemma apply_numbers:
  assumes "list_all2 holds_number fs ks" "\<forall>f \<in> set fs. inside (length dst) f" "sorted_wrt apart fs"
    and "drop (unat cnt) new_data = map int_decimal ks" "unat cnt + length fs < 256"
  shows "\<exists>dst'. apply_texts fs new_data cnt dst = Some dst' \<and> length dst' = length dst \<and>
    map (HandleBitReading dst') fs = map (Some \<circ> int_decimal) ks \<and>
    (\<forall>g. inside (length dst) g \<and> (\<forall>f \<in> set fs. apart f g) \<longrightarrow> HandleBitReading dst' g = HandleBitReading dst g)"
  using assms
proof (induction fs ks arbitrary: cnt dst rule: list_all2_induct)
  case (Cons f fs k ks)
  have scalar: "bf_scalar f \<noteq> ST_None"
    using Cons.hyps(1) by (auto simp: holds_number_def representable_def)
  have cnt: "unat (cnt + 1) = unat cnt + 1" using Cons.prems(4) by (simp add: unat_word_ariths)
  have new: "unat cnt < length new_data" "new_data ! unat cnt = int_decimal k" "drop (unat (cnt + 1)) new_data = map int_decimal ks"
  proof -
    show "unat cnt < length new_data" using Cons.prems(3) by (cases "unat cnt < length new_data") simp_all
    then have "drop (unat cnt) new_data = new_data ! unat cnt # drop (Suc (unat cnt)) new_data" by (simp add: Cons_nth_drop_Suc)
    then show "new_data ! unat cnt = int_decimal k" "drop (unat (cnt + 1)) new_data = map int_decimal ks"
      using Cons.prems(3) by (simp_all add: cnt)
  qed
  obtain dst1 where dst1: "write_text 10 f dst (int_decimal k) = Some dst1" "length dst1 = length dst"
      "HandleBitReading dst1 f = Some (int_decimal k)"
      "\<forall>g. inside (length dst) g \<and> apart f g \<longrightarrow> HandleBitReading dst1 g = HandleBitReading dst g"
    using write_number [of dst f k] Cons by auto
  obtain dst2 where dst2: "apply_texts fs new_data (cnt + 1) dst1 = Some dst2" "length dst2 = length dst1"
      "map (HandleBitReading dst2) fs = map (Some \<circ> int_decimal) ks"
      "\<forall>g. inside (length dst1) g \<and> (\<forall>f \<in> set fs. apart f g) \<longrightarrow> HandleBitReading dst2 g = HandleBitReading dst1 g"
    using Cons.IH [of dst1 "cnt + 1"] Cons.prems dst1(2) new(3) cnt by auto
  have "HandleBitReading dst2 f = Some (int_decimal k)"
  proof -
    have "\<forall>g \<in> set fs. apart g f" using Cons.prems(2) by (auto simp: apart_def)
    then show ?thesis using dst2(4) dst1(2,3) Cons.prems(1) by auto
  qed
  then show ?case using scalar new(1,2) dst1 dst2 by (auto simp: HandleBitWriting_def)
qed simp

section \<open>Applying what is shown changes nothing\<close>

lemma int_decimal_out_of_range:
  assumes "lo < 0" "\<not> (lo \<le> n \<and> n \<le> hi)"
  shows "TryParse lo hi mode 10 (int_decimal n) = None"
proof -
  have "from_chars lo hi 10 (int_decimal n) = None"
  proof (cases "n < 0")
    case True
    have "from_chars lo hi 10 (CHR ''-'' # decimal (nat (- n))) = None"
      using True assms by (auto simp: from_chars_def starts_with_def Let_def)
    then show ?thesis using True by (simp add: int_decimal_def)
  next
    case False
    then show ?thesis using assms decimal_hd_not_minus [of "nat n" "[]"]
      by (auto simp: from_chars_def int_decimal_def Let_def)
  qed
  then show ?thesis by (simp add: TryParse_def)
qed

lemma decimals_are_refused:
  assumes "0 \<le> n"
  shows "TryParse lo hi Whole 10 (int_decimal n @ ''.000000'') = None"
proof -
  have no_blank: "\<not> is_blank c" if "c \<in> set (int_decimal n @ ''.000000'')" for c
    using that int_decimal_no_blank [of c n] by (auto simp: is_blank_def)
  have keep: "dropWhile is_blank xs = xs" if "\<And>c. c \<in> set xs \<Longrightarrow> \<not> is_blank c" for xs
    using that by (cases xs) simp_all
  have a: "dropWhile is_blank (int_decimal n @ ''.000000'') = int_decimal n @ ''.000000''"
    by (rule keep) (rule no_blank)
  have b: "dropWhile is_blank (rev (int_decimal n @ ''.000000'')) = rev (int_decimal n @ ''.000000'')"
    by (rule keep) (simp only: set_rev no_blank not_False_eq_True)
  have trim: "TrimView (int_decimal n @ ''.000000'') = int_decimal n @ ''.000000''"
    unfolding TrimView_def a b by (rule rev_rev_ident)
  have "from_chars lo hi 10 (decimal (nat n) @ ''.000000'') = None \<or>
      (\<exists>m. from_chars lo hi 10 (decimal (nat n) @ ''.000000'') = Some (m, ''.000000''))"
    using takeWhile_decimal [of "''.000000''" "nat n"] decimal_hd_not_minus [of "nat n" "''.000000''"]
    by (simp add: from_chars_def Let_def char_value_def)
  then show ?thesis using assms trim by (auto simp: TryParse_def int_decimal_def split: option.splits)
qed

lemma bytes_eqI:
  assumes "length a = length b" "\<And>k. k < 8 * length a \<Longrightarrow> bit_at a k = bit_at b k"
  shows "a = b"
proof (rule nth_equalityI)
  fix i assume i: "i < length a"
  show "a ! i = b ! i"
  proof (rule bit_word_eqI)
    fix j assume j: "j < LENGTH(8)"
    then have "bit_at a (8 * i + (7 - j)) = bit_at b (8 * i + (7 - j))" using i by (intro assms(2)) simp
    then have "mbit (a ! i) (7 - j) = mbit (b ! i) (7 - j)" using j by (simp only: bit_at_byte less_imp_diff_less)
    then show "bit (a ! i) j = bit (b ! i) j" using j by (simp add: mbit_def)
  qed
qed (rule assms(1))

lemma set_same:
  assumes "0 < n" "n \<le> 64" "off + n \<le> 8 * length dst" "get_bitfield dst off n = Some w"
    and "\<And>j. j < n \<Longrightarrow> bit v j = bit w j"
  shows "map_option snd (set_bitfield v off n dst) = Some dst"
proof (cases "v \<le> bitmask (word_of_nat n)")
  case True
  obtain dst' where dst': "set_bitfield v off n dst = Some (True, dst')" "copied (value_bytes v) (64 - n) dst off n dst'"
    using set_bitfield_fits [OF assms(1,2) True assms(3)] by blast
  have w: "bit w j = (j < n \<and> bit_at dst (off + (n - 1 - j)))" if "j < 64" for j
    using get_bitfield_bits [OF assms(1-3)] assms(4) that by auto
  have "dst' = dst"
  proof (rule bytes_eqI)
    show "length dst' = length dst" using copied_length [OF dst'(2)] .
    fix k assume "k < 8 * length dst'"
    then have k: "k < 8 * length dst" using copied_length [OF dst'(2)] by simp
    show "bit_at dst' k = bit_at dst k"
    proof (cases "off \<le> k \<and> k < off + n")
      case inside: True
      define i where "i = k - off"
      have i: "k = off + i" "i < n" using inside by (auto simp: i_def)
      have "bit_at dst' k = bit_at (value_bytes v) (64 - n + i)"
        using copied_inside [OF dst'(2) i(2) assms(3)] i(1) by simp
      also have "\<dots> = bit v (n - 1 - i)"
        using i assms(2) by (simp add: bit_at_value_bytes)
      also have "\<dots> = bit w (n - 1 - i)" using i by (intro assms(5)) simp
      also have "\<dots> = bit_at dst k" using w [of "n - 1 - i"] i assms(2) by simp
      finally show ?thesis .
    next
      case False
      then show ?thesis using copied_outside [OF dst'(2) k] by auto
    qed
  qed
  then show ?thesis using dst'(1) by simp
next
  case False
  then show ?thesis by (simp add: set_bitfield_def not_le)
qed

lemma parsed_number: "lo < 0 \<Longrightarrow> TryParse lo hi mode 10 (int_decimal n) = Some k \<Longrightarrow> k = n"
  using TryParse_int_decimal [of lo n hi mode] int_decimal_out_of_range [of lo n hi mode]
  by (cases "lo \<le> n \<and> n \<le> hi") auto

lemma round_int_nonneg: "0 \<le> n \<Longrightarrow> 0 \<le> round_int p n"
  by (simp add: round_int_def)

lemma cast_shown:
  assumes "TryParse (- (2 ^ 63)) (2 ^ 63 - 1) Whole 10 (show_scalar st w) = Some k" "st \<noteq> ST_None" "n \<le> type_bits st"
  shows "\<exists>v. cast_scalar st k = Some v \<and> (\<forall>j < n. bit v j = bit w j)"
proof -
  have num: "k = m" if "show_scalar st w = int_decimal m" for m
    using assms(1) unfolding that by (rule parsed_number [rotated]) simp
  have refused: "TryParse lo hi Whole 10 (int_decimal (round_int p (uint w)) @ ''.000000'') = None" for lo hi p
    by (rule decimals_are_refused) (rule round_int_nonneg, simp)
  show ?thesis
  proof (cases st)
    case ST_U8
    have "k = uint (ucast w :: u8)" by (rule num) (simp add: ST_U8)
    then show ?thesis using assms(3) by (simp add: ST_U8 bit_simps)
  next
    case ST_I8
    have "k = sint (ucast w :: u8)" by (rule num) (simp add: ST_I8)
    then show ?thesis using assms(3) by (simp add: ST_I8 bit_simps)
  next
    case ST_U16
    have "k = uint (ucast w :: u16)" by (rule num) (simp add: ST_U16)
    then show ?thesis using assms(3) by (simp add: ST_U16 bit_simps)
  next
    case ST_I16
    have "k = sint (ucast w :: u16)" by (rule num) (simp add: ST_I16)
    then show ?thesis using assms(3) by (simp add: ST_I16 bit_simps)
  next
    case ST_U32
    have "k = uint (ucast w :: u32)" by (rule num) (simp add: ST_U32)
    then show ?thesis using assms(3) by (simp add: ST_U32 bit_simps)
  next
    case ST_I32
    have "k = sint (ucast w :: u32)" by (rule num) (simp add: ST_I32)
    then show ?thesis using assms(3) by (simp add: ST_I32 bit_simps)
  next
    case ST_U64
    have "k = uint w" by (rule num) (simp add: ST_U64)
    then show ?thesis by (simp add: ST_U64)
  next
    case ST_I64
    have "k = sint w" by (rule num) (simp add: ST_I64)
    then show ?thesis by (simp add: ST_I64)
  next
    case ST_Float
    then show ?thesis using assms(1) refused by simp
  next
    case ST_Double
    then show ?thesis using assms(1) refused by simp
  qed (simp add: assms(2))
qed

lemma write_same:
  assumes "get_bitfield dst (unat (bf_offset f)) (unat (bf_size f)) = Some w"
    and "bf_scalar f \<noteq> ST_None" "unat (bf_size f) \<le> type_bits (bf_scalar f)"
  shows "write_text 10 f dst (show_scalar (bf_scalar f) w) = Some dst"
proof (cases "TryParse (- (2 ^ 63)) (2 ^ 63 - 1) Whole 10 (show_scalar (bf_scalar f) w)")
  case (Some k)
  then obtain v where v: "cast_scalar (bf_scalar f) k = Some v" "\<forall>j < unat (bf_size f). bit v j = bit w j"
    using cast_shown [OF Some assms(2,3)] by blast
  have "map_option snd (set_bitfield v (unat (bf_offset f)) (unat (bf_size f)) dst) = Some dst"
  proof (cases "inside (length dst) f")
    case True
    then show ?thesis using inside_size [OF True] assms(1) v(2) by (intro set_same) (auto simp: inside_def)
  next
    case False
    have "type_bits (bf_scalar f) \<le> 64" by (cases "bf_scalar f") simp_all
    then have "bf_size f \<le> 64" using assms(3) by (simp add: word_le_nat_alt)
    then have "set_bitfield v (unat (bf_offset f)) (unat (bf_size f)) dst = Some (False, dst)"
      using False size_less by (intro set_bitfield_refused) (auto simp: inside_def word_less_nat_alt)
    then show ?thesis by simp
  qed
  then show ?thesis using Some v(1) by (simp add: write_text_def)
qed (simp add: write_text_def)

text \<open>Reading a field of data that is padded to a longer array.\<close>

lemma bit_at_padded: "bit_at (data @ replicate n 0) k = (k < 8 * length data \<and> bit_at data k)" if "k < 8 * (length data + n)"
proof (cases "k < 8 * length data")
  case False
  then have "length data \<le> k div 8" "k div 8 - length data < n" using that by auto
  then show ?thesis using False by (simp add: bit_at_def nth_append)
qed (simp add: bit_at_append)

definition whole_or_absent :: "nat \<Rightarrow> bit_field \<Rightarrow> bool" where
  "whole_or_absent len f \<longleftrightarrow>
     unat (bf_offset f) + unat (bf_size f) \<le> 8 * len \<or> 8 * len \<le> unat (bf_offset f)"

lemma bytes_value_zeros [simp]: "bytes_value (replicate n 0) = 0"
  by (induction n) (auto simp: bytes_value_def)

lemma get_bitfield_refused:
  assumes "\<not> (0 < n \<and> n \<le> 64 \<and> off + n \<le> 8 * length source)"
  shows "get_bitfield source off n = Some 0"
proof (cases "0 < n \<and> n \<le> 64")
  case True
  then have "\<not> (0 < n \<and> off + n \<le> 8 * length source \<and> 64 - n + n \<le> 8 * length (replicate 8 (0 :: u8)))"
    using assms by simp
  with copy_bits_reference [of n off source "64 - n" "replicate 8 0"]
  have "copy_bits source off n (replicate 8 0) (64 - n) = Some (False, replicate 8 0)" by (simp only: if_False)
  then show ?thesis using True right_aligned_offset [of n]
    by (simp add: get_bitfield_def copy_bits_right_aligned_def)
qed (auto simp: get_bitfield_def)

lemma get_padded:
  assumes "unat (bf_offset f) + unat (bf_size f) \<le> 8 * length data \<or> 8 * length data \<le> unat (bf_offset f)"
  shows "get_bitfield (data @ replicate m 0) (unat (bf_offset f)) (unat (bf_size f)) =
    get_bitfield data (unat (bf_offset f)) (unat (bf_size f))"
proof -
  let ?off = "unat (bf_offset f)" and ?n = "unat (bf_size f)" and ?padded = "data @ replicate m (0 :: u8)"
  show ?thesis
  proof (cases "0 < ?n \<and> ?n \<le> 64 \<and> ?off + ?n \<le> 8 * length ?padded")
    case True
    obtain v where v: "get_bitfield ?padded ?off ?n = Some v"
        "\<forall>j < 64. bit v j = (j < ?n \<and> bit_at ?padded (?off + (?n - 1 - j)))"
      using get_bitfield_bits [of ?n ?off ?padded] True by auto
    show ?thesis
    proof (cases "?off + ?n \<le> 8 * length data")
      case inside: True
      obtain w where w: "get_bitfield data ?off ?n = Some w"
          "\<forall>j < 64. bit w j = (j < ?n \<and> bit_at data (?off + (?n - 1 - j)))"
        using get_bitfield_bits [of ?n ?off data] True inside by auto
      have "v = w" using v(2) w(2) True inside by (intro bit_word_eqI) (auto simp: bit_at_append)
      then show ?thesis using v(1) w(1) by simp
    next
      case False
      then have "8 * length data \<le> ?off" using assms by simp
      then have "v = 0" using v(2) True by (intro bit_word_eqI) (auto simp: bit_at_padded)
      then show ?thesis using v(1) False get_bitfield_refused [of ?n ?off data] by simp
    qed
  next
    case False
    then have "\<not> (0 < ?n \<and> ?n \<le> 64 \<and> ?off + ?n \<le> 8 * length data)" by auto
    then show ?thesis using get_bitfield_refused [OF False] get_bitfield_refused [of ?n ?off data] by simp
  qed
qed

lemma get_bitfield_total: "\<exists>w. get_bitfield source off n = Some w"
  using get_bitfield_bits [of n off source] get_bitfield_refused [of n off source] by blast

lemma apply_shown:
  assumes "\<forall>f \<in> set fs. unat (bf_size f) \<le> type_bits (bf_scalar f) \<and> whole_or_absent (length data) f"
    and "unat cnt + length fs < 256" "shown_texts data fs = Some texts" "drop (unat cnt) new_data = texts"
  shows "apply_texts fs new_data cnt (data @ replicate m 0) = Some (data @ replicate m 0)"
  using assms
proof (induction fs arbitrary: cnt texts)
  case (Cons f fs)
  show ?case
  proof (cases "bf_scalar f = ST_None")
    case True
    then show ?thesis using Cons.IH [of cnt texts] Cons.prems by (simp add: shown_texts_def)
  next
    case False
    obtain w where w: "get_bitfield data (unat (bf_offset f)) (unat (bf_size f)) = Some w"
      using get_bitfield_total by blast
    then obtain ts where ts: "texts = show_scalar (bf_scalar f) w # ts" "shown_texts data fs = Some ts"
      using Cons.prems(3) False by (auto simp: shown_texts_def HandleBitReading_def)
    have cnt: "unat (cnt + 1) = unat cnt + 1" using Cons.prems(2) by (simp add: unat_word_ariths)
    have in_range: "unat cnt < length new_data"
      using Cons.prems(4) ts(1) by (cases "unat cnt < length new_data") simp_all
    then have "drop (unat cnt) new_data = new_data ! unat cnt # drop (Suc (unat cnt)) new_data" by (simp add: Cons_nth_drop_Suc)
    then have new: "new_data ! unat cnt = show_scalar (bf_scalar f) w" "drop (unat (cnt + 1)) new_data = ts"
      using Cons.prems(4) ts(1) by (simp_all add: cnt)
    have "write_text 10 f (data @ replicate m 0) (show_scalar (bf_scalar f) w) = Some (data @ replicate m 0)"
      using w get_padded [of f data m] Cons.prems(1) False by (intro write_same) (auto simp: whole_or_absent_def)
    then show ?thesis using False in_range new Cons.IH [of "cnt + 1" ts] Cons.prems ts(2) cnt
      by (simp add: HandleBitWriting_def)
  qed
qed simp

lemma those_total: "\<forall>x \<in> set xs. \<exists>y. f x = Some y \<Longrightarrow> \<exists>ys. those (map f xs) = Some ys"
  by (induction xs) auto

lemma shown_texts_total: "\<exists>texts. shown_texts data fs = Some texts"
  unfolding shown_texts_def using get_bitfield_total by (intro those_total) (auto simp: HandleBitReading_def)

section \<open>Fewer texts than fields\<close>

lemma too_few_texts:
  assumes "\<forall>f \<in> set fs. bf_scalar f \<noteq> ST_None"
    and "length new_data < unat cnt + length fs" "unat cnt \<le> length new_data" "unat cnt + length fs < 256"
  shows "apply_texts fs new_data cnt byte_array = None"
  using assms
proof (induction fs arbitrary: cnt byte_array)
  case (Cons f fs)
  have cnt: "unat (cnt + 1) = unat cnt + 1" using Cons.prems(4) by (simp add: unat_word_ariths)
  show ?case
  proof (cases "unat cnt < length new_data")
    case True
    then have "apply_texts fs new_data (cnt + 1) a = None" for a
      using Cons.prems cnt by (intro Cons.IH) auto
    then show ?thesis using Cons.prems(1) True
      by (cases "write_text 10 f byte_array (new_data ! unat cnt)") (simp_all add: HandleBitWriting_def)
  qed (use Cons.prems in \<open>simp add: HandleBitWriting_def\<close>)
qed simp

end
