(* ===== verification/ModbusFields.thy ===== *)
theory ModbusFields
  imports ModbusEndToEnd FieldEditing
begin

text \<open>
  The bit fields of Modbus registers.  Source: the bit field part of \<open>src/ModbusHandler.cpp\<close>
  and \<open>src/interface/IModbusEntry.hpp\<close>.  The mapping of each register, the list of its
  entries in the order of their offsets, is an argument.  A register's integer is taken as its
  eight bytes in the memory of a little-endian machine, the least significant one first.
\<close>

fun ModbusScalarTypeOf :: "modbus_type \<Rightarrow> scalar_type" where
  "ModbusScalarTypeOf MBT_BOOL = ST_U8"
| "ModbusScalarTypeOf MBT_UI8 = ST_U8"
| "ModbusScalarTypeOf MBT_I8 = ST_I8"
| "ModbusScalarTypeOf MBT_UI16 = ST_U16"
| "ModbusScalarTypeOf MBT_I16 = ST_I16"
| "ModbusScalarTypeOf MBT_UI32 = ST_U32"
| "ModbusScalarTypeOf MBT_I32 = ST_I32"
| "ModbusScalarTypeOf MBT_UI64 = ST_U64"
| "ModbusScalarTypeOf MBT_I64 = ST_I64"
| "ModbusScalarTypeOf MBT_FLOAT = ST_Float"
| "ModbusScalarTypeOf MBT_DOUBLE = ST_Double"
| "ModbusScalarTypeOf MBT_STRING = ST_None"
| "ModbusScalarTypeOf MBT_INVALID = ST_None"

record modbus_map =
  mm_type :: modbus_type
  mm_name :: string
  mm_size :: u8
  mm_min :: nat
  mm_max :: nat
  mm_description :: string

type_synonym register_fields = "(u8 \<times> modbus_map) list"

definition bits_of_map :: "u8 \<times> modbus_map \<Rightarrow> bit_field" where
  "bits_of_map = (\<lambda>(off, m). \<lparr>bf_offset = off, bf_size = mm_size m, bf_scalar = ModbusScalarTypeOf (mm_type m)\<rparr>)"

text \<open>\<open>std::bit_cast\<close> between the value and its bytes.\<close>

definition raw_bytes :: "u64 \<Rightarrow> bytes" where
  "raw_bytes v = rev (value_bytes v)"

definition raw_value :: "bytes \<Rightarrow> u64" where
  "raw_value bs = bytes_value (rev bs)"

definition map_label :: "u8 \<times> modbus_map \<Rightarrow> string" where
  "map_label = (\<lambda>(off, m).
     mm_name m @ ''         (offset: '' @ decimal (unat off) @ '', size: '' @ decimal (unat (mm_size m)) @
     '', range: '' @ decimal (mm_min m) @ '' - '' @ decimal (mm_max m) @ '')'')"

fun map_rows :: "u64 \<Rightarrow> register_fields \<Rightarrow> (string \<times> string \<times> modbus_map) list option" where
  "map_rows raw [] = Some []"
| "map_rows raw (f # fs) =
     (if bf_scalar (bits_of_map f) = ST_None then map_rows raw fs
      else do {
        shown \<leftarrow> HandleBitReading (raw_bytes raw) (bits_of_map f);
        rows \<leftarrow> map_rows raw fs;
        Some ((map_label f, shown, snd f) # rows)
      })"

definition GetMapForHolding ::
    "(table \<Rightarrow> nat \<Rightarrow> register_fields) \<Rightarrow> nat \<Rightarrow> bool \<Rightarrow> 'd handler \<Rightarrow>
     (string \<times> string \<times> modbus_map) list option" where
  "GetMapForHolding maps i is_holding h =
     (let t = (if is_holding then Holding else Input); src = TableRef t (h_layout h)
      in if length src \<le> i then Some []
         else map_rows (value_Integer (mi_value (src ! i))) (maps t i))"

definition set_register :: "nat \<Rightarrow> register_value \<Rightarrow> 'd handler \<Rightarrow> 'd handler" where
  "set_register i v h =
     set_table Holding ((TableRef Holding (h_layout h))[i := (TableRef Holding (h_layout h) ! i)\<lparr>mi_value := v\<rparr>]) h"

definition ApplyEditingOnHolding ::
    "(table \<Rightarrow> nat \<Rightarrow> register_fields) \<Rightarrow> nat \<Rightarrow> string list \<Rightarrow> 'd handler \<Rightarrow> 'd handler option" where
  "ApplyEditingOnHolding maps i new_data h =
     (let registers = TableRef Holding (h_layout h)
      in if length registers \<le> i then Some h
         else do {
           byte_array \<leftarrow> apply_texts (map bits_of_map (maps Holding i)) new_data 0
             (raw_bytes (value_Integer (mi_value (registers ! i))));
           let v = raw_value byte_array
           in Some (EditHolding i v (set_register i (snd (SetInteger v (mi_value (registers ! i)))) h))
         })"

section \<open>Lemmas\<close>

lemma value_bytes_bytes_value:
  assumes "length bs = 8"
  shows "value_bytes (bytes_value bs) = bs"
proof (rule bytes_eqI)
  fix k assume k: "k < 8 * length (value_bytes (bytes_value bs))"
  then have "bit_at (value_bytes (bytes_value bs)) k = bit (bytes_value bs) (63 - k)" by (intro bit_at_value_bytes) simp
  also have "\<dots> = bit_at bs (63 - (63 - k))" using k assms by (simp add: bit_bytes_value less_imp_diff_less)
  also have "63 - (63 - k) = k" using k by simp
  finally show "bit_at (value_bytes (bytes_value bs)) k = bit_at bs k" .
qed (simp add: assms)

lemma length_raw_bytes [simp]: "length (raw_bytes v) = 8"
  by (simp add: raw_bytes_def)

lemma raw_bytes_value: "length bs = 8 \<Longrightarrow> raw_bytes (raw_value bs) = bs"
  by (simp add: raw_bytes_def raw_value_def value_bytes_bytes_value)

lemma map_rows_texts:
  "map_option (map (fst \<circ> snd)) (map_rows raw fs) = shown_texts (raw_bytes raw) (map bits_of_map fs)"
proof (induction fs)
  case (Cons f fs)
  note IH = Cons [symmetric, unfolded shown_texts_def]
  show ?case
    by (cases "HandleBitReading (raw_bytes raw) (bits_of_map f)"; cases "map_rows raw fs") (auto simp: shown_texts_def IH)
qed (simp add: shown_texts_def)

text \<open>
  What is typed into the bit editor of a holding register is what it shows next.  For a
  register whose fields lie in the eight bytes of its integer and do not overlap, applying one
  number per field that the field holds stores all of them, shows them, and queues one write of
  the whole integer.  The register then holds an integer, whatever it held before.
\<close>

theorem modbus_edit_is_shown:
  assumes "i < length (TableRef Holding (h_layout h))" "maps Holding i = fs"
    and "\<forall>f \<in> set fs. inside 8 (bits_of_map f)" "sorted_wrt apart (map bits_of_map fs)" "length fs < 256"
    and "list_all2 (\<lambda>f k. holds_number (bits_of_map f) k) fs ks"
  shows "\<exists>v rows h'. ApplyEditingOnHolding maps i (map int_decimal ks) h = Some h' \<and>
    mi_value (TableRef Holding (h_layout h') ! i) = RV_Integer v \<and>
    h_queue h' = h_queue h @ [ModbusHoldingWrite i v] \<and>
    GetMapForHolding maps i True h' = Some rows \<and> map (fst \<circ> snd) rows = map int_decimal ks"
proof -
  let ?raw = "value_Integer (mi_value (TableRef Holding (h_layout h) ! i))"
  have holds: "list_all2 holds_number (map bits_of_map fs) ks" using assms(6) by (simp add: list_all2_map1)
  obtain buffer where buffer: "apply_texts (map bits_of_map fs) (map int_decimal ks) 0 (raw_bytes ?raw) = Some buffer"
      "length buffer = 8" "map (HandleBitReading buffer) (map bits_of_map fs) = map (Some \<circ> int_decimal) ks"
    using apply_numbers [OF holds, of "raw_bytes ?raw" 0 "map int_decimal ks"] assms(3-5) by auto
  have scalar: "filter (\<lambda>f. bf_scalar f \<noteq> ST_None) (map bits_of_map fs) = map bits_of_map fs"
    using holds by (induction rule: list_all2_induct) (auto simp: holds_number_def representable_def)
  have raw: "raw_bytes (raw_value buffer) = buffer" using buffer(2) by (rule raw_bytes_value)
  have texts: "shown_texts (raw_bytes (raw_value buffer)) (map bits_of_map fs) = Some (map int_decimal ks)"
    unfolding shown_texts_def scalar raw buffer(3) by (induction ks) simp_all
  then obtain rows where rows: "map_rows (raw_value buffer) fs = Some rows" "map (fst \<circ> snd) rows = map int_decimal ks"
    using map_rows_texts [of "raw_value buffer" fs] by auto
  show ?thesis using assms(1,2) buffer(1) rows
    by (auto simp: ApplyEditingOnHolding_def GetMapForHolding_def set_register_def EditHolding_def queue_Push_def Let_def
        TableRef_def set_table_def)
qed


definition bits_register :: modbus_item where
  "bits_register = new_item ''Status'' 0 0 MBT_UI16 MVF_DEC [] 0 0 0x1234 BO_BigEndian"

definition bits_fields :: register_fields where
  "bits_fields =
     [(0, \<lparr>mm_type = MBT_UI8, mm_name = ''low'', mm_size = 8, mm_min = 0, mm_max = 255, mm_description = []\<rparr>),
      (12, \<lparr>mm_type = MBT_UI8, mm_name = ''high'', mm_size = 4, mm_min = 0, mm_max = 15, mm_description = []\<rparr>)]"

lemma modbus_edit_is_shown_witness:
  "\<exists>v rows h'. ApplyEditingOnHolding (\<lambda>t i. bits_fields) 0 [int_decimal 9, int_decimal 15] (set_table Holding [bits_register] coil_handler) = Some h' \<and>
    mi_value (TableRef Holding (h_layout h') ! 0) = RV_Integer v \<and>
    GetMapForHolding (\<lambda>t i. bits_fields) 0 True h' = Some rows \<and> map (fst \<circ> snd) rows = [int_decimal 9, int_decimal 15]"
proof -
  have fields: "\<forall>f \<in> set bits_fields. inside 8 (bits_of_map f)" "sorted_wrt apart (map bits_of_map bits_fields)"
      "length bits_fields < 256" "list_all2 (\<lambda>f k. holds_number (bits_of_map f) k) bits_fields [9, 15]"
    by (simp_all add: bits_fields_def bits_of_map_def inside_def apart_def holds_number_def representable_def)
  have "0 < length (TableRef Holding (h_layout (set_table Holding [bits_register] coil_handler)))" by simp
  from modbus_edit_is_shown [OF this, of "\<lambda>t i. bits_fields" bits_fields "[9, 15]"] fields
  show ?thesis by auto
qed

text \<open>The bytes of the integer are those of its memory, so a field of two bytes shows them swapped.\<close>

lemma value_bytes_nth: "m < 8 \<Longrightarrow> value_bytes v ! m = ucast (drop_bit (8 * (7 - m)) v)"
  by (simp add: value_bytes_def del: upt_rec_numeral)

lemma raw_bytes_nth: "i < 8 \<Longrightarrow> raw_bytes v ! i = ucast (drop_bit (8 * i) v)"
  using value_bytes_nth [of "7 - i" v] by (simp add: raw_bytes_def rev_nth less_imp_diff_less)

lemma two_byte_field_is_swapped:
  "get_bitfield (raw_bytes v) 0 16 = Some (push_bit 8 (take_bit 8 v) OR take_bit 8 (drop_bit 8 v))"
proof -
  obtain w where w: "get_bitfield (raw_bytes v) 0 16 = Some w"
      "\<forall>j < 64. bit w j = (j < 16 \<and> bit_at (raw_bytes v) (0 + (16 - 1 - j)))"
    using get_bitfield_bits [of 16 0 "raw_bytes v"] by auto
  have "bit w j = bit (push_bit 8 (take_bit 8 v) OR take_bit 8 (drop_bit 8 v)) j" if j: "j < 64" for j
  proof -
    consider "j < 8" | "8 \<le> j" "j < 16" | "16 \<le> j" by linarith
    then show ?thesis
    proof cases
      case 1
      then have "bit_at (raw_bytes v) (8 * 1 + (7 - j)) = mbit (raw_bytes v ! 1) (7 - j)" by (intro bit_at_byte) simp
      then show ?thesis using w(2) j 1 by (simp add: raw_bytes_nth mbit_def bit_simps)
    next
      case 2
      then have "bit_at (raw_bytes v) (8 * 0 + (15 - j)) = mbit (raw_bytes v ! 0) (15 - j)" by (intro bit_at_byte) simp
      then show ?thesis using w(2) j 2 by (simp add: raw_bytes_nth mbit_def bit_simps)
    next
      case 3
      then have "\<not> j - 8 < 8" "\<not> j < 16" by simp_all
      then show ?thesis using w(2) j by (simp add: bit_simps)
    qed
  qed
  then have "w = push_bit 8 (take_bit 8 v) OR take_bit 8 (drop_bit 8 v)" by (intro bit_word_eqI) simp
  then show ?thesis using w(1) by simp
qed

end
