(* ===== verification/ModbusTyping.thy ===== *)
theory ModbusTyping
  imports ModbusFields ModbusRegisterEditor
begin

text \<open>
  The types of the register values of a running handler.  Whatever the device answers and
  whatever the user edits, an item holds only values of its declared type, and between two
  changes of the layout nothing of an item changes but its value.  Two operations are not
  among the steps because they do store values that a type does not hold: the import of
  values (\<open>ModbusValueIo.cpp\<close>), and bit fields that lie outside of their register.
\<close>

section \<open>Typed values\<close>

text \<open>
  An integer fits the registers of its type, a float is held by float items only and a double
  by double items only.  An item that was never read holds the integer it was made with.
\<close>

definition value_of_type :: "modbus_type \<Rightarrow> register_value \<Rightarrow> bool" where
  "value_of_type t v \<longleftrightarrow>
     (case v of
        RV_Integer w \<Rightarrow> is_floating (traits_of t) \<or> unat w < 2 ^ (16 * GetTypeSize t)
      | RV_Float f \<Rightarrow> t = MBT_FLOAT
      | RV_Double d \<Rightarrow> t = MBT_DOUBLE)"

definition item_typed :: "modbus_item \<Rightarrow> bool" where
  "item_typed item \<longleftrightarrow> value_of_type (mi_type item) (mi_value item)"

definition tables_typed :: "'d handler \<Rightarrow> bool" where
  "tables_typed h \<longleftrightarrow> (\<forall>t. list_all item_typed (TableRef t (h_layout h)))"

text \<open>Everything of an item but its value.\<close>

definition schema :: "modbus_item \<Rightarrow> modbus_item" where
  "schema item = item\<lparr>mi_value := RV_Integer 0\<rparr>"

definition same_schema :: "'d handler \<Rightarrow> 'd handler \<Rightarrow> bool" where
  "same_schema h h' \<longleftrightarrow>
     (\<forall>t. map schema (TableRef t (h_layout h')) = map schema (TableRef t (h_layout h)))"

text \<open>What a step may do to the tables.\<close>

definition keeps_types :: "'d handler \<Rightarrow> 'd handler \<Rightarrow> bool" where
  "keeps_types h h' \<longleftrightarrow> same_schema h h' \<and> (tables_typed h \<longrightarrow> tables_typed h')"

lemma keeps_types_refl [simp]: "keeps_types h h"
  by (simp add: keeps_types_def same_schema_def)

lemma keeps_types_trans: "keeps_types h h' \<Longrightarrow> keeps_types h' h'' \<Longrightarrow> keeps_types h h''"
  by (auto simp: keeps_types_def same_schema_def)

lemma keeps_types_tables:
  assumes "\<And>t. TableRef t (h_layout h') = TableRef t (h_layout h)"
  shows "keeps_types h h'"
  using assms by (simp add: keeps_types_def same_schema_def tables_typed_def)

lemma keeps_types_layout: "h_layout h' = h_layout h \<Longrightarrow> keeps_types h h'"
  by (rule keeps_types_tables) simp

section \<open>Storing one value\<close>

lemma value_of_type_Replace:
  "value_of_type t new_value \<Longrightarrow> value_of_type t old \<Longrightarrow> value_of_type t (snd (Replace new_value old))"
  by (simp add: Replace_def)

lemma unat_ucast_bound:
  "unat (ucast (w :: u16) :: u64) < 65536" "unat (ucast (v :: u32) :: u64) < 4294967296"
  "unat (ucast (b :: u8) :: u64) < 65536" "unat (d :: u64) < 18446744073709551616"
proof -
  have "unat (ucast w :: u64) = unat w" "unat (ucast v :: u64) = unat v" "unat (ucast b :: u64) = unat b"
    by (transfer, simp add: take_bit_int_def)+
  moreover have "unat v < 2 ^ LENGTH(32)" by (rule unsigned_less)
  ultimately show "unat (ucast w :: u64) < 65536" "unat (ucast v :: u64) < 4294967296" "unat (ucast b :: u64) < 65536"
    using unat_u16_less [of w] order.strict_trans2 [OF unat_u8_less [of b]] by simp_all
  have "unat d < 2 ^ LENGTH(64)" by (rule unsigned_less)
  then show "unat d < 18446744073709551616" by simp
qed

lemma decode_item_Replace:
  assumes "mi_type item \<noteq> MBT_STRING" "mi_type item \<noteq> MBT_INVALID"
  shows "\<exists>v. decode_item item words = Replace v \<and> value_of_type (mi_type item) v"
  using assms unat_ucast_bound
  by (cases "mi_type item")
    (auto simp: decode_item_def Let_def SetInteger_def SetFloat_def SetDouble_def value_of_type_def
      GetTypeSize_def kTraits_def traits_row_def)

lemma decode_item_typed:
  assumes "item_typed item" "mi_type item \<noteq> MBT_STRING" "mi_type item \<noteq> MBT_INVALID"
  shows "value_of_type (mi_type item) (snd (decode_item item words (mi_value item)))"
  using decode_item_Replace [OF assms(2,3), of words] assms(1) value_of_type_Replace
  by (auto simp: item_typed_def)

lemma bool_item_typed:
  assumes "item_typed item"
  shows "item_typed (snd (bool_item branch reg item))" "schema (snd (bool_item branch reg item)) = schema item"
proof -
  have "value_of_type t (snd (Replace (RV_Integer (ucast (v :: u8))) x))" if "value_of_type t x" for t v x
    using that unat_ucast_bound(3) [of v]
    by (intro value_of_type_Replace)
      (cases t, auto simp: value_of_type_def intro: order.strict_trans2)
  then show "item_typed (snd (bool_item branch reg item))"
    using assms by (auto simp: bool_item_def item_typed_def store_value_def SetInteger_def split_beta split: option.splits)
  show "schema (snd (bool_item branch reg item)) = schema item"
    by (simp add: bool_item_def schema_def store_value_def split_beta split: option.splits)
qed

lemma register_item_typed:
  assumes "item_typed item"
  shows "item_typed (snd (register_item branch reg item))"
    and "schema (snd (register_item branch reg item)) = schema item"
  using assms decode_item_typed [OF assms]
  by (auto simp: register_item_def item_typed_def schema_def store_value_def split_beta split: option.splits)

section \<open>Steps of the handler\<close>

lemma schema_bool_item [simp]: "schema (snd (bool_item branch reg item)) = schema item"
  by (simp add: bool_item_def schema_def store_value_def split_beta split: option.splits)

lemma schema_register_item [simp]: "schema (snd (register_item branch reg item)) = schema item"
  by (simp add: register_item_def schema_def store_value_def split_beta split: option.splits)

lemma TableRef_set_table_other:
  "TableRef u (h_layout (set_table t items h)) = (if u = t then items else TableRef u (h_layout h))"
  by (cases t; cases u) (simp_all add: TableRef_def set_table_def)

lemma keeps_types_set_table:
  assumes "map schema items = map schema (TableRef t (h_layout h))"
    and "list_all item_typed (TableRef t (h_layout h)) \<Longrightarrow> list_all item_typed items"
  shows "keeps_types h (queue_value_changes t rows (set_table t items h))"
  using assms by (auto simp: keeps_types_def same_schema_def tables_typed_def TableRef_set_table_other)

lemma HandleBoolReading_keeps: "keeps_types h (HandleBoolReadingByOffset reg t h)"
  unfolding HandleBoolReadingByOffset_def split_beta Let_def
  by (rule keeps_types_set_table) (auto simp: list_all_iff bool_item_typed(1))

lemma HandleRegisterReading_keeps: "keeps_types h (HandleRegisterReadingByOffset reg t h)"
  unfolding HandleRegisterReadingByOffset_def split_beta Let_def
  by (rule keeps_types_set_table) (auto simp: list_all_iff register_item_typed(1))

lemma layout_simps [simp]:
  "h_layout (set_wire s h) = h_layout h" "h_layout (CountPolledFrames r h) = h_layout h"
  "h_layout (count_write reg h) = h_layout h"
  by (auto simp: set_wire_def CountPolledFrames_def count_write_def split: sum.splits)

lemma ReadBitGroups_layout: "ReadBitGroups dev b h = (r, h') \<Longrightarrow> h_layout h' = h_layout h"
  by (auto simp: ReadBitGroups_def Let_def split_beta)

lemma ReadRegisterGroups_layout: "ReadRegisterGroups dev t h = (r, h') \<Longrightarrow> h_layout h' = h_layout h"
  by (auto simp: ReadRegisterGroups_def Let_def split_beta)

lemma PollBitTable_keeps: "keeps_types h (PollBitTable dev b h)"
proof (cases "ReadBitGroups dev b h")
  case (Pair r h')
  let ?h = "case r of Some result \<Rightarrow> CountPolledFrames result h' | None \<Rightarrow> h'"
  have "keeps_types h ?h" using ReadBitGroups_layout [OF Pair] by (intro keeps_types_layout) (simp split: option.splits)
  then show ?thesis
    by (auto simp: PollBitTable_def Pair Let_def intro: keeps_types_trans [OF _ HandleBoolReading_keeps] split: option.splits)
qed

lemma PollRegisterTable_keeps: "keeps_types h (PollRegisterTable dev t h)"
proof (cases "ReadRegisterGroups dev t h")
  case (Pair r h')
  let ?h = "case r of Some result \<Rightarrow> CountPolledFrames result h' | None \<Rightarrow> h'"
  have "keeps_types h ?h" using ReadRegisterGroups_layout [OF Pair] by (intro keeps_types_layout) (simp split: option.splits)
  then show ?thesis
    by (auto simp: PollRegisterTable_def Pair intro: keeps_types_trans [OF _ HandleRegisterReading_keeps] split: option.splits)
qed

lemma HandlePolling_keeps: "keeps_types h (HandlePolling dev h)"
  unfolding HandlePolling_def
  by (meson PollBitTable_keeps PollRegisterTable_keeps keeps_types_trans)

lemma SendHoldingRegisters_layout: "h_layout (SendHoldingRegisters dev item values h) = h_layout h"
  by (auto simp: SendHoldingRegisters_def split_beta Let_def split: option.splits)

lemma ApplyWrite_layout: "h_layout (ApplyWrite dev w h) = h_layout h"
  by (cases w) (auto simp: SendHoldingRegisters_layout split_beta Let_def split: option.splits)

lemma fold_ApplyWrite_layout: "h_layout (fold (ApplyWrite dev) ws h) = h_layout h"
  by (induction ws arbitrary: h) (simp_all add: ApplyWrite_layout)

lemma worker_pass_keeps: "keeps_types h (snd (worker_pass dev h))"
proof -
  have "keeps_types (HandlePolling dev h) (HandleWrites dev (HandlePolling dev h))"
    by (rule keeps_types_layout) (simp add: HandleWrites_def split_beta fold_ApplyWrite_layout)
  with HandlePolling_keeps have "keeps_types h (HandleWrites dev (HandlePolling dev h))"
    by (rule keeps_types_trans)
  moreover have "keeps_types k (k\<lparr>h_port := p\<rparr>)" for k p by (rule keeps_types_layout) simp
  ultimately show ?thesis by (auto simp: worker_pass_def Let_def intro: keeps_types_trans)
qed

section \<open>Bit fields\<close>

text \<open>A bit edit changes no byte behind those that hold all the fields.\<close>

lemma write_text_outside:
  assumes "write_text base f bs new_text = Some bs'" "inside n f" "n \<le> length bs"
  shows "length bs' = length bs \<and> (\<forall>k. 8 * n \<le> k \<and> k < 8 * length bs \<longrightarrow> bit_at bs' k = bit_at bs k)"
proof (cases "TryParse (- (2 ^ 63)) (2 ^ 63 - 1) Whole base new_text")
  case None
  then show ?thesis using assms(1) by (simp add: write_text_def)
next
  case (Some raw_data)
  then obtain v where v: "map_option snd (set_bitfield v (unat (bf_offset f)) (unat (bf_size f)) bs) = Some bs'"
    using assms(1) by (auto simp: write_text_def split: bind_splits)
  let ?fits = "0 < unat (bf_size f) \<and> unat (bf_size f) \<le> 64 \<and> v \<le> bitmask (word_of_nat (unat (bf_size f))) \<and>
      unat (bf_offset f) + unat (bf_size f) \<le> 8 * length bs"
  show ?thesis
  proof (cases ?fits)
    case True
    then have "copied (value_bytes v) (64 - unat (bf_size f)) bs (unat (bf_offset f)) (unat (bf_size f)) bs'"
      using set_bitfield_fits [of "unat (bf_size f)" v "unat (bf_offset f)" bs] v by auto
    then show ?thesis using assms(2) by (auto simp: copied_def inside_def)
  next
    case False
    then have "set_bitfield v (unat (bf_offset f)) (unat (bf_size f)) bs = Some (False, bs)"
      using size_less by (intro set_bitfield_refused)
    then show ?thesis using v by simp
  qed
qed

lemma apply_texts_outside:
  assumes "apply_texts fs texts cnt bs = Some bs'" "\<forall>f \<in> set fs. inside n f" "n \<le> length bs"
  shows "length bs' = length bs \<and> (\<forall>k. 8 * n \<le> k \<and> k < 8 * length bs \<longrightarrow> bit_at bs' k = bit_at bs k)"
  using assms
proof (induction fs texts cnt bs rule: apply_texts.induct)
  case (2 f fs texts cnt bs)
  show ?case
  proof (cases "bf_scalar f = ST_None")
    case False
    then obtain c bs1 where step: "HandleBitWriting f cnt bs texts = Some (c, bs1)" "apply_texts fs texts c bs1 = Some bs'"
      using "2.prems"(1) by (auto split: bind_splits)
    from step(1) have "write_text 10 f bs (texts ! unat cnt) = Some bs1"
      by (auto simp: HandleBitWriting_def split: if_splits)
    then have one: "length bs1 = length bs" "\<forall>k. 8 * n \<le> k \<and> k < 8 * length bs \<longrightarrow> bit_at bs1 k = bit_at bs k"
      using write_text_outside "2.prems" by (metis list.set_intros(1))+
    have "length bs' = length bs1 \<and> (\<forall>k. 8 * n \<le> k \<and> k < 8 * length bs1 \<longrightarrow> bit_at bs' k = bit_at bs1 k)"
      using "2.IH"(2) [OF False step(1) refl] step(2) "2.prems" one(1) by simp
    with one show ?thesis by simp
  qed (use 2 in simp)
qed simp

lemma bit_at_raw_bytes: "i < 8 \<Longrightarrow> j < 8 \<Longrightarrow> bit_at (raw_bytes v) (8 * i + (7 - j)) = bit v (8 * i + j)"
  by (subst bit_at_byte) (simp_all add: raw_bytes_nth mbit_def bit_simps)

lemma raw_value_bound:
  assumes "length bs = 8" "\<forall>k. 8 * n \<le> k \<and> k < 64 \<longrightarrow> bit_at bs k = bit_at (raw_bytes w) k" "unat w < 2 ^ (8 * n)"
  shows "unat (raw_value bs) < 2 ^ (8 * n)"
proof -
  have w: "take_bit (8 * n) w = w" using assms(3) by (simp add: word_unat_eq_iff unsigned_take_bit_eq take_bit_nat_eq_self)
  have "\<not> bit (raw_value bs) m" if m: "8 * n \<le> m" "m < 64" for m
  proof -
    define i j where "i = m div 8" and "j = m mod 8"
    have ij: "m = 8 * i + j" "i < 8" "j < 8" using m(2) by (auto simp: i_def j_def)
    have "n \<le> i" using div_le_mono [OF m(1), of 8] by (simp add: i_def)
    then have "8 * n \<le> 8 * i + (7 - j)" "8 * i + (7 - j) < 64" using ij(2) by linarith+
    then have "bit_at bs (8 * i + (7 - j)) = bit_at (raw_bytes w) (8 * i + (7 - j))" using assms(2) by blast
    moreover have "bit_at bs (8 * i + (7 - j)) = bit (raw_value bs) m"
      using bit_at_raw_bytes [OF ij(2,3), of "raw_value bs"] raw_bytes_value [OF assms(1)] ij(1) by simp
    moreover have "\<not> bit w m" using w m(1) by (metis bit_take_bit_iff not_less)
    ultimately show ?thesis using bit_at_raw_bytes [OF ij(2,3), of w] ij(1) by simp
  qed
  then have "bit (take_bit (8 * n) (raw_value bs)) m = bit (raw_value bs) m" if "m < 64" for m
    using that by (metis bit_take_bit_iff not_less)
  then have "take_bit (8 * n) (raw_value bs) = raw_value bs" by (intro bit_word_eqI) simp
  then have "take_bit (8 * n) (unat (raw_value bs)) = unat (raw_value bs)"
    by (metis unsigned_take_bit_eq)
  then show ?thesis by (metis take_bit_nat_less_exp)
qed

text \<open>The fields of a register lie in the bytes of its registers.\<close>

definition fields_in_register :: "register_fields \<Rightarrow> modbus_item \<Rightarrow> bool" where
  "fields_in_register fs item \<longleftrightarrow> (\<forall>f \<in> set fs. inside (2 * GetTypeSize (mi_type item)) (bits_of_map f))"

lemma bit_edit_typed:
  assumes "item_typed item" "fields_in_register fs item"
    and "apply_texts (map bits_of_map fs) texts 0 (raw_bytes (value_Integer (mi_value item))) = Some bs"
  shows "item_typed (item\<lparr>mi_value := RV_Integer (raw_value bs)\<rparr>)"
proof (cases "is_floating (traits_of (mi_type item))")
  case False
  let ?n = "2 * GetTypeSize (mi_type item)" and ?w = "value_Integer (mi_value item)"
  have floats: "is_floating (traits_of MBT_FLOAT)" "is_floating (traits_of MBT_DOUBLE)"
    by (simp_all add: kTraits_def traits_row_def)
  have w: "unat ?w < 2 ^ (8 * ?n)"
    using assms(1) False floats by (auto simp: item_typed_def value_of_type_def split: register_value.splits)
  have "?n \<le> 8" by (cases "mi_type item") (simp_all add: GetTypeSize_def kTraits_def traits_row_def)
  then have "length bs = 8" "\<forall>k. 8 * ?n \<le> k \<and> k < 64 \<longrightarrow> bit_at bs k = bit_at (raw_bytes ?w) k"
    using apply_texts_outside [OF assms(3), of ?n] assms(2) by (auto simp: fields_in_register_def)
  then have "unat (raw_value bs) < 2 ^ (8 * ?n)" using w by (rule raw_value_bound)
  then show ?thesis by (simp add: item_typed_def value_of_type_def)
qed (simp add: item_typed_def value_of_type_def)

lemma ApplyEditing_keeps:
  assumes "ApplyEditingOnHolding maps i texts h = Some h'"
    and "i < length (TableRef Holding (h_layout h)) \<Longrightarrow> fields_in_register (maps Holding i) (TableRef Holding (h_layout h) ! i)"
  shows "keeps_types h h'"
proof (cases "i < length (TableRef Holding (h_layout h))")
  case True
  let ?items = "TableRef Holding (h_layout h)"
  obtain bs where bs: "apply_texts (map bits_of_map (maps Holding i)) texts 0 (raw_bytes (value_Integer (mi_value (?items ! i)))) = Some bs"
      "h' = EditHolding i (raw_value bs) (set_register i (RV_Integer (raw_value bs)) h)"
    using assms(1) True by (auto simp: ApplyEditingOnHolding_def Let_def split: bind_splits)
  let ?items' = "?items[i := (?items ! i)\<lparr>mi_value := RV_Integer (raw_value bs)\<rparr>]"
  have "keeps_types h (queue_value_changes Holding [] (set_table Holding ?items' h))"
  proof (rule keeps_types_set_table)
    show "map schema ?items' = map schema ?items"
      using True by (simp add: map_update schema_def) (metis (no_types, lifting) list_update_id nth_map schema_def)
    assume "list_all item_typed ?items"
    then show "list_all item_typed ?items'"
      using bit_edit_typed [OF _ assms(2) [OF True] bs(1)] True
      by (auto simp: list_all_length nth_list_update)
  qed
  then have "keeps_types h (set_register i (RV_Integer (raw_value bs)) h)"
    by (simp add: set_register_def queue_value_changes_def)
  moreover have "h_layout h' = h_layout (set_register i (RV_Integer (raw_value bs)) h)"
    by (simp add: bs(2) EditHolding_def)
  ultimately show ?thesis by (meson keeps_types_layout keeps_types_trans)
qed (use assms(1) in \<open>simp add: ApplyEditingOnHolding_def\<close>)

section \<open>What the user and the worker do\<close>

text \<open>\<open>modbus_values::Clear\<close> on one table, and \<open>ClearValues\<close> on the four.\<close>

definition clear_items :: "modbus_item list \<Rightarrow> modbus_item list" where
  "clear_items items = map (\<lambda>item. item\<lparr>mi_value := value_Reset (mi_value item)\<rparr>) items"

definition ClearValues :: "'d handler \<Rightarrow> 'd handler" where
  "ClearValues h =
     fold (\<lambda>t h. set_table t (clear_items (TableRef t (h_layout h))) h) [Coils, InputStatus, Holding, Input] h"

definition SetDefaultBranch :: "string \<Rightarrow> 'd handler \<Rightarrow> 'd handler" where
  "SetDefaultBranch branch h = h\<lparr>h_used_branch := ucast (getBranchIDByName branch)\<rparr>"

lemma item_typed_Reset: "item_typed (item\<lparr>mi_value := value_Reset v\<rparr>)"
  by (simp add: item_typed_def value_Reset_def value_of_type_def)

lemma clear_keeps: "keeps_types h (set_table t (clear_items (TableRef t (h_layout h))) h)"
  using keeps_types_set_table [of "clear_items (TableRef t (h_layout h))" t h "[]"] item_typed_Reset
  by (simp add: clear_items_def schema_def list_all_iff comp_def queue_value_changes_def)

lemma ClearValues_keeps: "keeps_types h (ClearValues h)"
  unfolding ClearValues_def fold_simps comp_def id_def
  by (meson clear_keeps keeps_types_trans)

text \<open>
  What happens to a handler between two changes of its layout: the user edits values and bit
  fields, clears the values, chooses the slave, the branch and the counts, starts and stops the
  recording, and the worker makes its passes.
\<close>

inductive handler_step :: "'d device \<Rightarrow> 'd handler \<Rightarrow> 'd handler \<Rightarrow> bool" for dev where
  "handler_step dev h (EditCoil i v h)"
| "handler_step dev h (EditHolding i w h)"
| "handler_step dev h (EditHoldingFloat i f h)"
| "handler_step dev h (EditHoldingDouble i d h)"
| "handler_step dev h (SetSlaveId u h)"
| "handler_step dev h (SetRegisterCount t n h)"
| "handler_step dev h (StartRecording h)"
| "handler_step dev h (PauseRecording h)"
| "handler_step dev h (ClearRecording h)"
| "handler_step dev h (StopRecording h)"
| "handler_step dev h (snd (worker_pass dev h))"
| "handler_step dev h (ClearValues h)"
| "handler_step dev h (SetDefaultBranch branch h)"
| "\<lbrakk>ApplyEditingOnHolding maps i texts h = Some h';
    i < length (TableRef Holding (h_layout h)) \<Longrightarrow>
      fields_in_register (maps Holding i) (TableRef Holding (h_layout h) ! i)\<rbrakk> \<Longrightarrow>
   handler_step dev h h'"

lemma handler_step_keeps: "handler_step dev h h' \<Longrightarrow> keeps_types h h'"
proof (induction rule: handler_step.induct)
  case (14 maps i texts h h')
  then show ?case by (rule ApplyEditing_keeps)
qed (auto simp: worker_pass_keeps ClearValues_keeps EditCoil_def EditHolding_def EditHoldingFloat_def EditHoldingDouble_def
      SetSlaveId_def SetRegisterCount_def StartRecording_def PauseRecording_def ClearRecording_def
      StopRecording_def SetDefaultBranch_def TableRef_def Let_def
      intro!: keeps_types_tables split: table.splits)

text \<open>
  The changes of the layout: the register editor, a register's type, another device, and the
  edits of an item that keep its type and value (name, favourite level, format, scaling, ...).
\<close>

inductive layout_step :: "'d handler \<Rightarrow> 'd handler \<Rightarrow> bool" where
  "layout_step h (set_table t (snd (EditModbusRegisterLayout (TableRef t (h_layout h)) i action)) h)"
| "layout_step h (set_table t (snd (ChangeModbusRegisterType (TableRef t (h_layout h)) i new_type)) h)"
| "\<lbrakk>i < length (TableRef t (h_layout h)); mi_type item = mi_type (TableRef t (h_layout h) ! i);
    mi_value item = mi_value (TableRef t (h_layout h) ! i)\<rbrakk> \<Longrightarrow>
   layout_step h (set_table t ((TableRef t (h_layout h))[i := item]) h)"
| "(\<And>t l. layout = Some l \<Longrightarrow> list_all item_typed (TableRef t l)) \<Longrightarrow>
   layout_step h (snd (ChangeDevice_layout layout h))"

lemma list_all_place [simp]: "list_all item_typed (place off xs) = list_all item_typed xs"
  by (induction off xs rule: place.induct) (simp_all add: item_typed_def)

lemma list_all_updated: "list_all P xs \<Longrightarrow> P x \<Longrightarrow> list_all P (xs[k := x])"
  by (cases "k < length xs") (auto simp: list_all_length nth_list_update list_update_beyond)

lemma edited_group_typed:
  assumes "list_all item_typed grp" "k < length grp" "a = MoveDown \<Longrightarrow> Suc k < length grp"
  shows "list_all item_typed (edited_group a k grp)"
proof -
  have nth: "item_typed (grp ! j)" if "j < length grp" for j using that assms(1) by (simp add: list_all_length)
  have part: "list_all item_typed (take j grp)" "list_all item_typed (drop j grp)" for j
    using assms(1) by (auto simp: list_all_iff dest: in_set_takeD in_set_dropD)
  show ?thesis
  proof (cases a)
    case MoveUp
    then show ?thesis using assms(1,2) nth by (simp add: swap_items_def list_all_updated)
  next
    case MoveDown
    then show ?thesis using assms nth by (simp add: swap_items_def list_all_updated)
  next
    case Delete
    then show ?thesis using part by (simp add: erase_at_def)
  next
    case InsertAfter
    have "item_typed (CreateDefaultInsertedModbusRegister x)" for x
      by (simp add: CreateDefaultInsertedModbusRegister_def new_item_def item_typed_def value_of_type_def)
    then show ?thesis using InsertAfter part by (simp add: insert_at_def)
  qed
qed

lemma EditLayout_typed:
  assumes "list_all item_typed items"
  shows "list_all item_typed (snd (EditModbusRegisterLayout items i a))"
proof (cases rule: EditModbusRegisterLayout_cases [of items i a])
  case (edited r pre grp post k)
  then show ?thesis using assms edited_group_typed [of grp k a] by simp
qed (use assms in simp)

lemma ChangeType_typed:
  assumes "list_all item_typed items"
  shows "list_all item_typed (snd (ChangeModbusRegisterType items i t))"
proof (cases rule: ChangeModbusRegisterType_cases [of items i t])
  case (edited pre grp post k)
  have "item_typed (retyped t x)" for x by (simp add: retyped_def item_typed_def value_Reset_def value_of_type_def)
  then show ?thesis using assms edited by (simp add: list_all_updated)
qed (use assms in simp)

lemma layout_step_typed: "layout_step h h' \<Longrightarrow> tables_typed h \<Longrightarrow> tables_typed h'"
proof (induction rule: layout_step.induct)
  case (4 layout h)
  then show ?case by (cases layout) (auto simp: ChangeDevice_layout_def tables_typed_def)
next
  case (3 i t h item)
  then have "list_all item_typed (TableRef t (h_layout h))" "item_typed item"
    by (auto simp: tables_typed_def item_typed_def list_all_length)
  then have "list_all item_typed ((TableRef t (h_layout h))[i := item])" by (rule list_all_updated)
  with 3 show ?case by (simp add: tables_typed_def TableRef_set_table_other)
qed (simp_all add: tables_typed_def TableRef_set_table_other EditLayout_typed ChangeType_typed)

text \<open>
  C11: Register values stay of their types.  From a handler whose items are typed, any sequence
  of value edits, bit field edits, settings, passes of the worker, whatever the device answers,
  and changes of the layout leaves every item typed; and as long as the layout is not changed,
  every item keeps its name, offset, type, format and limits.  Bit fields are those that lie in
  the bytes of their register, and a device is one whose items are loaded typed; the import of
  values is not a step.
\<close>

theorem handler_values_stay_typed:
  assumes "tables_typed h" and "(\<lambda>k k'. handler_step dev k k' \<or> layout_step k k')\<^sup>*\<^sup>* h h'"
  shows "tables_typed h' \<and> ((handler_step dev)\<^sup>*\<^sup>* h h' \<longrightarrow> same_schema h h')"
proof
  show "tables_typed h'" using assms(2,1)
    by induction (auto dest: handler_step_keeps layout_step_typed simp: keeps_types_def)
  have "(handler_step dev)\<^sup>*\<^sup>* h h' \<Longrightarrow> keeps_types h h'"
    by (induction rule: rtranclp_induct) (auto intro: keeps_types_trans handler_step_keeps)
  then show "(handler_step dev)\<^sup>*\<^sup>* h h' \<longrightarrow> same_schema h h'" by (simp add: keeps_types_def)
qed

theorem handler_values_stay_typed_witness:
  "let dev = slave_of (\<lambda>_. [3, 1]) sample_handler; h = snd (worker_pass dev (EditHolding 0 7 sample_handler))
   in tables_typed (set_table Holding (snd (ChangeModbusRegisterType (TableRef Holding (h_layout h)) 0 MBT_I16)) h)"
proof -
  let ?dev = "slave_of (\<lambda>_. [3, 1]) sample_handler" and ?h1 = "EditHolding 0 7 sample_handler"
  define R where "R = (\<lambda>k k'. handler_step ?dev k k' \<or> layout_step k k')"
  let ?h2 = "snd (worker_pass ?dev ?h1)"
  let ?h3 = "set_table Holding (snd (ChangeModbusRegisterType (TableRef Holding (h_layout ?h2)) 0 MBT_I16)) ?h2"
  have steps: "R sample_handler ?h1" "R ?h1 ?h2" "R ?h2 ?h3"
    unfolding R_def by (blast intro: handler_step.intros(2) handler_step.intros(11) layout_step.intros(2))+
  from steps(1) have "R\<^sup>*\<^sup>* sample_handler ?h1" by (rule r_into_rtranclp)
  also note steps(2)
  also note steps(3)
  finally have "R\<^sup>*\<^sup>* sample_handler ?h3" .
  moreover have "tables_typed sample_handler"
    unfolding tables_typed_def
  proof
    fix t show "list_all item_typed (TableRef t (h_layout sample_handler))"
      by (cases t) (simp_all add: sample_handler_def TableRef_def item_typed_def value_of_type_def new_item_def)
  qed
  ultimately show ?thesis using handler_values_stay_typed [of sample_handler ?dev ?h3] by (simp add: Let_def R_def)
qed

end
