(* ===== verification/ModbusClient.thy ===== *)
theory ModbusClient
  imports ModbusWire
begin

text \<open>
  The transport-independent Modbus client.  Source: \<open>src/ModbusClient.cpp\<close> and \<open>.hpp\<close>.
  \<open>ITransport::Transact\<close> is the parameter \<open>transact\<close>, a function of the transport's state,
  the request and the timeout.  The retry loop compares two C++ \<open>unsigned\<close> values, so it
  is a partial function: with the largest retry count it never ends on a silent line.
\<close>

section \<open>The client\<close>

datatype client_error = CE_Timeout | CE_Crc | CE_Exception | CE_Malformed | CE_WrongSlave | CE_WrongFunction

record failure =
  fl_error :: client_error
  fl_exception_code :: u8

record client =
  m_timeout :: int
  m_retries :: u32

type_synonym 't transact = "'t \<Rightarrow> bytes \<Rightarrow> int \<Rightarrow> bytes option \<times> 't"

definition default_client :: client where
  "default_client = \<lparr>m_timeout = 1000, m_retries = 0\<rparr>"

definition SetTimeout :: "int \<Rightarrow> client \<Rightarrow> client" where
  "SetTimeout t c = c\<lparr>m_timeout := t\<rparr>"

definition SetRetries :: "u32 \<Rightarrow> client \<Rightarrow> client" where
  "SetRetries n c = c\<lparr>m_retries := n\<rparr>"

definition AppendU16 :: "bytes \<Rightarrow> u16 \<Rightarrow> bytes" where
  "AppendU16 bs value = bs @ [ucast (drop_bit 8 value)] @ [ucast value]"

definition ClientAppendCrc :: "bytes \<Rightarrow> bytes" where
  "ClientAppendCrc bs = (let crc = ModbusCrc bs in bs @ [ucast crc] @ [ucast (drop_bit 8 crc)])"

definition client_request :: "u8 \<Rightarrow> u8 \<Rightarrow> u16 \<Rightarrow> u16 \<Rightarrow> bytes" where
  "client_request slave function_code offset count =
     ClientAppendCrc (AppendU16 (AppendU16 [slave, function_code] offset) count)"

text \<open>The body of the loop: an attempt either ends the call or names the failure so far.\<close>

datatype attempt = Done "failure + bytes" | Again failure

definition judge :: "u8 \<Rightarrow> u8 \<Rightarrow> u16 \<Rightarrow> bytes option \<Rightarrow> attempt" where
  "judge slave function_code count response =
     (case response of
        None \<Rightarrow> Again \<lparr>fl_error = CE_Timeout, fl_exception_code = 0\<rparr>
      | Some r \<Rightarrow>
          if length r < 5 then Again \<lparr>fl_error = CE_Malformed, fl_exception_code = 0\<rparr>
          else let wire_crc = be16 (r ! (length r - 1)) (r ! (length r - 2))
          in if ModbusCrc (take (length r - 2) r) \<noteq> wire_crc
             then Again \<lparr>fl_error = CE_Crc, fl_exception_code = 0\<rparr>
          else if r ! 0 \<noteq> slave then Again \<lparr>fl_error = CE_WrongSlave, fl_exception_code = 0\<rparr>
          else if r ! 1 = function_code OR 0x80
             then Done (Inl \<lparr>fl_error = CE_Exception, fl_exception_code = r ! 2\<rparr>)
          else if r ! 1 \<noteq> function_code
             then Again \<lparr>fl_error = CE_WrongFunction, fl_exception_code = 0\<rparr>
          else let byte_count = unat (r ! 2);
                   required = (if function_code \<le> 2 then (unat count + 7) div 8
                               else unat count * 2)
          in if byte_count \<noteq> required \<or> length r \<noteq> byte_count + 5
             then Again \<lparr>fl_error = CE_Malformed, fl_exception_code = 0\<rparr>
             else Done (Inr (take (length r - 5) (drop 3 r))))"

partial_function (option) read_attempts ::
  "'t transact \<Rightarrow> client \<Rightarrow> bytes \<Rightarrow> (bytes option \<Rightarrow> attempt) \<Rightarrow> u32 \<Rightarrow> failure \<Rightarrow> 't \<Rightarrow>
   ((failure + bytes) \<times> 't) option" where
  "read_attempts transact c request judge_response attempt last_failure t =
     (if attempt \<le> m_retries c then
        (case transact t request (m_timeout c) of
           (response, t') \<Rightarrow>
             (case judge_response response of
                Done result \<Rightarrow> Some (result, t')
              | Again failure \<Rightarrow>
                  read_attempts transact c request judge_response (attempt + 1) failure t'))
      else Some (Inl last_failure, t))"

definition ClientRead ::
  "'t transact \<Rightarrow> client \<Rightarrow> u8 \<Rightarrow> u8 \<Rightarrow> u16 \<Rightarrow> u16 \<Rightarrow> 't \<Rightarrow> ((failure + bytes) \<times> 't) option" where
  "ClientRead transact c slave function_code offset count t =
     (if count = 0 then Some (Inl \<lparr>fl_error = CE_Malformed, fl_exception_code = 0\<rparr>, t)
      else read_attempts transact c (client_request slave function_code offset count)
             (judge slave function_code count) 0
             \<lparr>fl_error = CE_Timeout, fl_exception_code = 0\<rparr> t)"

definition unpack_bits :: "u16 \<Rightarrow> bytes \<Rightarrow> bool list" where
  "unpack_bits count response =
     map (\<lambda>index. response ! (index div 8) AND push_bit (index mod 8) 1 \<noteq> 0) [0..<unat count]"

definition ReadCoils ::
  "'t transact \<Rightarrow> client \<Rightarrow> u8 \<Rightarrow> u16 \<Rightarrow> u16 \<Rightarrow> 't \<Rightarrow> ((failure + bool list) \<times> 't) option" where
  "ReadCoils transact c slave offset count t =
     map_option (apfst (map_sum id (unpack_bits count))) (ClientRead transact c slave 1 offset count t)"

definition ReadDiscreteInputs ::
  "'t transact \<Rightarrow> client \<Rightarrow> u8 \<Rightarrow> u16 \<Rightarrow> u16 \<Rightarrow> 't \<Rightarrow> ((failure + bool list) \<times> 't) option" where
  "ReadDiscreteInputs transact c slave offset count t =
     map_option (apfst (map_sum id (unpack_bits count))) (ClientRead transact c slave 2 offset count t)"

definition ClientReadHolding ::
  "'t transact \<Rightarrow> client \<Rightarrow> u8 \<Rightarrow> u16 \<Rightarrow> u16 \<Rightarrow> 't \<Rightarrow> ((failure + u16 list) \<times> 't) option" where
  "ClientReadHolding transact c slave offset count t =
     map_option (apfst (map_sum id words_of)) (ClientRead transact c slave 3 offset count t)"

definition ClientReadInput ::
  "'t transact \<Rightarrow> client \<Rightarrow> u8 \<Rightarrow> u16 \<Rightarrow> u16 \<Rightarrow> 't \<Rightarrow> ((failure + u16 list) \<times> 't) option" where
  "ClientReadInput transact c slave offset count t =
     map_option (apfst (map_sum id words_of)) (ClientRead transact c slave 4 offset count t)"

section \<open>What an attempt accepts\<close>

lemma hi8_ucast: "hi8 w = ucast (drop_bit 8 w)"
  by (rule bit_word_eqI) (auto simp: hi8_def bit_simps bit_0xFF)

lemma lo8_ucast: "lo8 w = ucast w"
  by (rule bit_word_eqI) (auto simp: lo8_def bit_simps bit_0xFF)

lemma ClientAppendCrc_AppendCrc: "ClientAppendCrc = AppendCrc"
  by (simp add: fun_eq_iff ClientAppendCrc_def AppendCrc_def ModbusCrc_eq_Crc16Modbus Let_def
      hi8_ucast lo8_ucast)

lemma client_request_wraps:
  "client_request u fc off n = wrap_response Rtu True t (request_pdu u fc off n)"
  by (simp add: client_request_def ClientAppendCrc_AppendCrc AppendU16_def wrap_response_def
      request_pdu_def u16_bytes_def hi8_ucast lo8_ucast)

lemma length_ge_5_AppendCrc_iff:
  "5 \<le> length r \<and> Crc16Modbus (take (length r - 2) r) = be16 (r ! (length r - 1)) (r ! (length r - 2))
   \<longleftrightarrow> (\<exists>pdu. 3 \<le> length pdu \<and> r = AppendCrc pdu)"
proof
  assume a: "5 \<le> length r \<and>
    Crc16Modbus (take (length r - 2) r) = be16 (r ! (length r - 1)) (r ! (length r - 2))"
  then obtain pdu l h where "r = pdu @ [l, h]" by (elim conjE list_last2E [rotated]) auto
  with a show "\<exists>pdu. 3 \<le> length pdu \<and> r = AppendCrc pdu"
    by (intro exI [of _ pdu]) (auto simp: AppendCrc_def Let_def nth_append)
qed (auto simp: AppendCrc_def Let_def nth_append)

text \<open>The unit that a successful answer carries.\<close>

definition data_pdu :: "u8 \<Rightarrow> u8 \<Rightarrow> bytes \<Rightarrow> bytes" where
  "data_pdu u fc payload = [u, fc, word_of_nat (length payload)] @ payload"

definition payload_size :: "u8 \<Rightarrow> u16 \<Rightarrow> nat" where
  "payload_size fc count = (if fc \<le> 2 then (unat count + 7) div 8 else unat count * 2)"

lemma judge_AppendCrc:
  "3 \<le> length pdu \<Longrightarrow>
   judge u fc count (Some (AppendCrc pdu)) =
     (if pdu ! 0 \<noteq> u then Again \<lparr>fl_error = CE_WrongSlave, fl_exception_code = 0\<rparr>
      else if pdu ! 1 = fc OR 0x80
        then Done (Inl \<lparr>fl_error = CE_Exception, fl_exception_code = pdu ! 2\<rparr>)
      else if pdu ! 1 \<noteq> fc then Again \<lparr>fl_error = CE_WrongFunction, fl_exception_code = 0\<rparr>
      else if unat (pdu ! 2) \<noteq> payload_size fc count \<or> length pdu \<noteq> unat (pdu ! 2) + 3
        then Again \<lparr>fl_error = CE_Malformed, fl_exception_code = 0\<rparr>
      else Done (Inr (drop 3 pdu)))"
  by (cases pdu)
     (auto simp: judge_def AppendCrc_def Let_def nth_append ModbusCrc_eq_Crc16Modbus payload_size_def)

lemma judge_Done_AppendCrc:
  assumes "judge u fc count response = Done x"
  obtains pdu where "response = Some (AppendCrc pdu)" "3 \<le> length pdu"
proof -
  from assms obtain r where "response = Some r" "5 \<le> length r"
    "Crc16Modbus (take (length r - 2) r) = be16 (r ! (length r - 1)) (r ! (length r - 2))"
    by (auto simp: judge_def Let_def ModbusCrc_eq_Crc16Modbus split: option.splits if_splits)
  with length_ge_5_AppendCrc_iff [of r] that show thesis by blast
qed

lemma judge_Inr_iff:
  assumes "\<not> bit fc 7"
  shows "judge u fc count response = Done (Inr payload) \<longleftrightarrow>
     response = Some (AppendCrc (data_pdu u fc payload)) \<and>
     length payload = payload_size fc count \<and> length payload < 256"
proof
  assume L: "judge u fc count response = Done (Inr payload)"
  then obtain pdu where p: "response = Some (AppendCrc pdu)" "3 \<le> length pdu"
    by (rule judge_Done_AppendCrc)
  with L have f: "pdu ! 0 = u" "pdu ! 1 = fc" "unat (pdu ! 2) = payload_size fc count"
    "length pdu = unat (pdu ! 2) + 3" "payload = drop 3 pdu"
    by (auto simp: judge_AppendCrc split: if_splits)
  have "word_of_nat (length payload) = pdu ! 2" using f(4,5) by simp
  then have "pdu = data_pdu u fc payload"
    unfolding data_pdu_def using list3_split [OF p(2) f(1,2) refl f(5) [symmetric]] by simp
  moreover have "length payload = unat (pdu ! 2)" using f(4,5) by simp
  ultimately show "response = Some (AppendCrc (data_pdu u fc payload)) \<and>
     length payload = payload_size fc count \<and> length payload < 256"
    using unat_u8_less [of "pdu ! 2"] p(1) f(3) by (simp only: simp_thms)
next
  assume R: "response = Some (AppendCrc (data_pdu u fc payload)) \<and>
     length payload = payload_size fc count \<and> length payload < 256"
  then have "unat (data_pdu u fc payload ! 2) = length payload"
    by (simp add: data_pdu_def unat_word_of_nat_u8)
  moreover have "data_pdu u fc payload ! 0 = u" "data_pdu u fc payload ! 1 = fc"
    "drop 3 (data_pdu u fc payload) = payload" "length (data_pdu u fc payload) = length payload + 3"
    by (simp_all add: data_pdu_def)
  ultimately show "judge u fc count response = Done (Inr payload)"
    using R assms or_0x80_eq_iff [of fc] by (simp add: judge_AppendCrc)
qed

section \<open>The retry loop\<close>

text \<open>The state of the transport after \<open>k\<close> attempts, and the judgement of attempt \<open>k\<close>.\<close>

definition after_tries :: "'t transact \<Rightarrow> client \<Rightarrow> bytes \<Rightarrow> 't \<Rightarrow> nat \<Rightarrow> 't" where
  "after_tries transact c request t k = ((\<lambda>t. snd (transact t request (m_timeout c))) ^^ k) t"

definition try_result ::
  "'t transact \<Rightarrow> client \<Rightarrow> bytes \<Rightarrow> (bytes option \<Rightarrow> attempt) \<Rightarrow> 't \<Rightarrow> nat \<Rightarrow> attempt" where
  "try_result transact c request jd t k =
     jd (fst (transact (after_tries transact c request t k) request (m_timeout c)))"

lemma after_tries_Suc:
  "after_tries transact c request t (Suc k) =
   after_tries transact c request (snd (transact t request (m_timeout c))) k"
  by (simp add: after_tries_def funpow_Suc_right del: funpow.simps)

lemma try_result_Suc:
  "try_result transact c request jd t (Suc k) =
   try_result transact c request jd (snd (transact t request (m_timeout c))) k"
  by (simp add: try_result_def after_tries_Suc)

lemma unat_u32_less: "unat (w :: u32) < 2 ^ 32"
proof -
  have "unat w < 2 ^ LENGTH(32)" by (rule unsigned_less)
  then show ?thesis by simp
qed

lemma u32_Suc_not_le: "(m :: u32) \<noteq> - 1 \<Longrightarrow> \<not> m + 1 \<le> m"
proof -
  assume "m \<noteq> - 1"
  then have "unat m \<noteq> unat (- 1 :: u32)" by (simp only: word_unat_eq_iff) simp
  moreover have "unat (- 1 :: u32) = 2 ^ 32 - 1" by (simp add: unsigned_minus_1_eq_mask mask_eq_exp_minus_1)
  ultimately have "unat m + unat (1 :: u32) < 2 ^ 32" using unat_u32_less [of m] by simp
  then have "unat (m + 1) = unat m + 1" by (subst unat_plus_if') simp
  then show ?thesis by (simp add: word_le_nat_alt)
qed

lemma unat_Suc_le:
  assumes "unat (a :: u32) + Suc k \<le> unat m"
  shows "a \<le> m" "unat (a + 1) = unat a + 1"
proof -
  show "a \<le> m" using assms by (simp add: word_le_nat_alt)
  have "unat m < 2 ^ 32" by (rule unat_u32_less)
  then have "unat a + unat (1 :: u32) < 2 ^ 32" using assms by simp
  then show "unat (a + 1) = unat a + 1" by (subst unat_plus_if') simp
qed

lemma read_attempts_Again:
  assumes "a \<le> m_retries c" "try_result transact c request jd t 0 = Again f"
  shows "read_attempts transact c request jd a lf t =
     read_attempts transact c request jd (a + 1) f (snd (transact t request (m_timeout c)))"
  using assms
  by (cases "transact t request (m_timeout c)", subst read_attempts.simps)
     (simp add: try_result_def after_tries_def)

lemma read_attempts_Done:
  assumes "a \<le> m_retries c" "try_result transact c request jd t 0 = Done x"
  shows "read_attempts transact c request jd a lf t =
     Some (x, snd (transact t request (m_timeout c)))"
  using assms
  by (cases "transact t request (m_timeout c)", subst read_attempts.simps)
     (simp add: try_result_def after_tries_def)

lemma try_result_shift:
  "try_result transact c request jd (after_tries transact c request t k) 0 =
   try_result transact c request jd t k"
  by (simp add: try_result_def after_tries_def)

lemma after_tries_shift:
  "snd (transact (after_tries transact c request t k) request (m_timeout c)) =
   after_tries transact c request t (Suc k)"
  by (simp add: after_tries_def)

lemma read_attempts_skip:
  assumes "unat a + k \<le> unat (m_retries c)"
    "\<And>j. j < k \<Longrightarrow> \<exists>f. try_result transact c request jd t j = Again f"
  shows "\<exists>f. (k \<noteq> 0 \<longrightarrow> try_result transact c request jd t (k - 1) = Again f) \<and> (k = 0 \<longrightarrow> f = lf) \<and>
     read_attempts transact c request jd a lf t =
     read_attempts transact c request jd (a + word_of_nat k) f (after_tries transact c request t k)"
  using assms
proof (induction k arbitrary: a lf t)
  case 0
  then show ?case by (simp add: after_tries_def)
next
  case (Suc k)
  let ?t = "snd (transact t request (m_timeout c))"
  obtain f where f: "try_result transact c request jd t 0 = Again f" using Suc.prems(2) by blast
  note a = unat_Suc_le [OF Suc.prems(1)]
  have step: "read_attempts transact c request jd a lf t = read_attempts transact c request jd (a + 1) f ?t"
    by (rule read_attempts_Again [OF a(1) f])
  have "unat (a + 1) + k \<le> unat (m_retries c)" using Suc.prems(1) a(2) by simp
  moreover have "\<exists>f. try_result transact c request jd ?t j = Again f" if "j < k" for j
    using Suc.prems(2) [of "Suc j"] that by (simp add: try_result_Suc)
  ultimately obtain g where g: "k \<noteq> 0 \<longrightarrow> try_result transact c request jd ?t (k - 1) = Again g"
    "k = 0 \<longrightarrow> g = f"
    "read_attempts transact c request jd (a + 1) f ?t =
     read_attempts transact c request jd (a + 1 + word_of_nat k) g (after_tries transact c request ?t k)"
    using Suc.IH [of "a + 1" ?t f] by blast
  have "try_result transact c request jd t (Suc k - 1) = Again g"
    using g(1,2) f by (cases k) (simp_all add: try_result_Suc)
  then show ?case
    using g(3) step by (intro exI [of _ g]) (simp add: after_tries_Suc ac_simps)
qed

lemma read_attempts_first_Done:
  assumes "k \<le> unat (m_retries c)" "try_result transact c request jd t k = Done x"
    "\<And>j. j < k \<Longrightarrow> \<exists>f. try_result transact c request jd t j = Again f"
  shows "read_attempts transact c request jd 0 lf t =
         Some (x, after_tries transact c request t (Suc k))"
proof -
  obtain f where "read_attempts transact c request jd 0 lf t =
     read_attempts transact c request jd (0 + word_of_nat k) f (after_tries transact c request t k)"
    using read_attempts_skip [of 0 k c transact request jd t lf] assms(1,3) by auto
  moreover have "k < 2 ^ 32" using assms(1) unat_u32_less [of "m_retries c"] by linarith
  then have "word_of_nat k \<le> m_retries c"
    using assms(1) by (simp add: word_le_nat_alt unat_of_nat)
  ultimately show ?thesis
    using assms(2)
    by (simp add: read_attempts_Done try_result_shift after_tries_shift)
qed

lemma read_attempts_exhausted:
  assumes "m_retries c \<noteq> - 1" "n = unat (m_retries c)"
    "\<And>j. j \<le> n \<Longrightarrow> \<exists>f. try_result transact c request jd t j = Again f"
    "try_result transact c request jd t n = Again f"
  shows "read_attempts transact c request jd 0 lf t =
         Some (Inl f, after_tries transact c request t (Suc n))"
proof -
  let ?t = "after_tries transact c request t n"
  obtain g where "read_attempts transact c request jd 0 lf t =
     read_attempts transact c request jd (0 + word_of_nat n) g ?t"
    using read_attempts_skip [of 0 n c transact request jd t lf] assms(2,3) by auto
  also have "word_of_nat n = m_retries c" using assms(2) by simp
  then have "read_attempts transact c request jd (0 + word_of_nat n) g ?t =
      read_attempts transact c request jd (m_retries c + 1) f (after_tries transact c request t (Suc n))"
    using read_attempts_Again [of "m_retries c" c transact request jd ?t f g] assms(4)
    by (simp add: try_result_shift after_tries_shift)
  also have "\<not> m_retries c + 1 \<le> m_retries c"
    by (rule u32_Suc_not_le [OF assms(1)])
  then have "read_attempts transact c request jd (m_retries c + 1) f
      (after_tries transact c request t (Suc n)) = Some (Inl f, after_tries transact c request t (Suc n))"
    by (subst read_attempts.simps) simp
  finally show ?thesis .
qed

text \<open>Every call ends in one of two ways.\<close>

lemma ClientRead_cases:
  assumes "m_retries c \<noteq> - 1" "n \<noteq> 0"
    and res_def: "res = try_result transact c (client_request u fc off n) (judge u fc n) t"
    and aft_def: "aft = after_tries transact c (client_request u fc off n) t"
  obtains (answered) k x where "k \<le> unat (m_retries c)" "res k = Done x"
      "\<And>j. j < k \<Longrightarrow> \<exists>f. res j = Again f"
      "ClientRead transact c u fc off n t = Some (x, aft (Suc k))"
  | (exhausted) f where "\<And>j. j \<le> unat (m_retries c) \<Longrightarrow> \<exists>f. res j = Again f"
      "res (unat (m_retries c)) = Again f"
      "ClientRead transact c u fc off n t = Some (Inl f, aft (Suc (unat (m_retries c))))"
proof (cases "\<exists>k \<le> unat (m_retries c). \<exists>x. res k = Done x")
  case True
  then obtain m where m: "m \<le> unat (m_retries c)" "\<exists>x. res m = Done x" by blast
  define D where "D k = (\<exists>x. res k = Done x)" for k
  obtain k where k: "D k" "\<And>j. j < k \<Longrightarrow> \<not> D j"
    using m(2) exists_least_iff [of D] unfolding D_def by blast
  then obtain x where x: "res k = Done x" unfolding D_def by blast
  have "k \<le> m" using k(2) [of m] m(2) unfolding D_def by (meson not_less)
  with m(1) have le: "k \<le> unat (m_retries c)" by simp
  have again: "\<exists>f. res j = Again f" if "j < k" for j
    using k(2) [OF that] unfolding D_def by (cases "res j") auto
  have "ClientRead transact c u fc off n t = Some (x, aft (Suc k))"
    using read_attempts_first_Done [OF le x [unfolded res_def] again [unfolded res_def]] assms(2)
    by (simp add: ClientRead_def aft_def)
  with le x again show thesis by (rule answered)
next
  case False
  have again: "\<exists>f. res j = Again f" if "j \<le> unat (m_retries c)" for j
    using that False by (cases "res j") auto
  then obtain f where f: "res (unat (m_retries c)) = Again f" by blast
  have "ClientRead transact c u fc off n t = Some (Inl f, aft (Suc (unat (m_retries c))))"
    using read_attempts_exhausted [OF assms(1) refl again [unfolded res_def] f [unfolded res_def]]
      assms(2) by (simp add: ClientRead_def aft_def)
  with again f show thesis by (rule exhausted)
qed

lemma ClientRead_returns:
  assumes "m_retries c \<noteq> - 1"
  shows "\<exists>result k. ClientRead transact c u fc off n t =
     Some (result, after_tries transact c (client_request u fc off n) t k) \<and>
     k \<le> unat (m_retries c) + 1"
proof (cases "n = 0")
  case True
  then show ?thesis
    by (intro exI [of _ "Inl _"] exI [of _ 0]) (auto simp: ClientRead_def after_tries_def)
next
  case False
  show ?thesis
  proof (rule ClientRead_cases [OF assms False refl refl, where transact = transact and t = t and u = u and
        fc = fc and off = off])
    fix k x
    assume "k \<le> unat (m_retries c)" "ClientRead transact c u fc off n t =
      Some (x, after_tries transact c (client_request u fc off n) t (Suc k))"
    then show ?thesis by (intro exI [of _ x] exI [of _ "Suc k"]) simp
  next
    fix f
    assume "ClientRead transact c u fc off n t =
      Some (Inl f, after_tries transact c (client_request u fc off n) t (Suc (unat (m_retries c))))"
    then show ?thesis by (intro exI [of _ "Inl f"] exI [of _ "Suc (unat (m_retries c))"]) simp
  qed
qed

lemma data_pdu_registers: "words_bytes regs = payload \<Longrightarrow> data_pdu u fc payload = registers_pdu u fc regs"
  by (auto simp: data_pdu_def registers_pdu_def)

lemma ClientRead_Inr_iff:
  assumes "m_retries c \<noteq> - 1" "n \<noteq> 0" "\<not> bit fc 7"
  shows "ClientRead transact c u fc off n t = Some (Inr payload, t') \<longleftrightarrow>
     (\<exists>k \<le> unat (m_retries c).
        (\<forall>j < k. \<exists>f. try_result transact c (client_request u fc off n) (judge u fc n) t j = Again f) \<and>
        try_result transact c (client_request u fc off n) (judge u fc n) t k = Done (Inr payload) \<and>
        t' = after_tries transact c (client_request u fc off n) t (Suc k))"
    (is "?L \<longleftrightarrow> ?R")
proof
  assume ?L
  then show ?R
    by (cases rule: ClientRead_cases [OF assms(1,2) refl refl, where transact = transact and t = t and u = u
          and fc = fc and off = off]) auto
next
  assume ?R
  then show ?L
    using read_attempts_first_Done [where transact = transact and c = c and t = t] assms(2)
    by (fastforce simp: ClientRead_def)
qed

section \<open>The largest retry count\<close>

lemma read_attempts_silent:
  assumes "m_retries c = - 1" "\<And>t. \<exists>t'. transact t request (m_timeout c) = (None, t')"
    "\<exists>f. jd None = Again f"
  shows "read_attempts transact c request jd a f t = None"
proof -
  define P where "P = (\<lambda>(tr :: 'a transact) (c :: client) rq (jd :: bytes option \<Rightarrow> attempt) (a :: u32) (f :: failure) (t :: 'a)
      (y :: (failure + bytes) \<times> 'a).
      m_retries c = - 1 \<longrightarrow> (\<forall>t. \<exists>t'. tr t rq (m_timeout c) = (None, t')) \<longrightarrow>
      (\<exists>f. jd None = Again f) \<longrightarrow> False)"
  have "P transact c request jd a f t x" if "read_attempts transact c request jd a f t = Some x" for x
    using _ that
  proof (rule read_attempts.raw_induct)
    fix rec tr c rq jd a f t y
    assume IH: "\<And>tr c rq jd a f t y. rec tr c rq jd a f t = Some y \<Longrightarrow> P tr c rq jd a f t y"
      and body: "(if a \<le> m_retries c then
        (case tr t rq (m_timeout c) of
           (response, t') \<Rightarrow>
             (case jd response of
                Done result \<Rightarrow> Some (result, t')
              | Again failure \<Rightarrow> rec tr c rq jd (a + 1) failure t'))
      else Some (Inl f, t)) = Some y"
    show "P tr c rq jd a f t y"
      unfolding P_def
    proof (intro impI)
      assume c: "m_retries c = - 1" "\<forall>t. \<exists>t'. tr t rq (m_timeout c) = (None, t')"
        "\<exists>f. jd None = Again f"
      obtain t' where t': "tr t rq (m_timeout c) = (None, t')" using c(2) by blast
      obtain g where g: "jd None = Again g" using c(3) by blast
      have "rec tr c rq jd (a + 1) g t' = Some y" using body c(1) t' g by simp
      from IH [OF this] c show False unfolding P_def by blast
    qed
  qed
  then show ?thesis
    using assms by (cases "read_attempts transact c request jd a f t") (auto simp: P_def)
qed

lemma map_sum_Inr_E:
  assumes "map_sum id f x = Inr y"
  obtains z where "x = Inr z" "y = f z"
  using assms by (cases x) auto

section \<open>Properties\<close>

text \<open>
  C5: a read of the client always returns, after at most one transaction more than the
  configured retries, unless the retry count is the largest unsigned value.
\<close>

theorem ClientRead_terminates:
  assumes "m_retries c \<noteq> - 1"
  shows "\<exists>result k. ClientRead transact c u fc off n t =
     Some (result, after_tries transact c (client_request u fc off n) t k) \<and>
     k \<le> unat (m_retries c) + 1"
  using assms by (rule ClientRead_returns)

theorem ClientRead_terminates_witness:
  "\<exists>result k. ClientRead (\<lambda>n _ _. (None, Suc n)) (SetRetries 2 default_client) 1 3 0 10 (0 :: nat) =
     Some (result, after_tries (\<lambda>n _ _. (None, Suc n)) (SetRetries 2 default_client)
                     (client_request 1 3 0 10) 0 k) \<and> k \<le> 3"
  using ClientRead_terminates [of "SetRetries 2 default_client" "\<lambda>n _ _. (None, Suc n)" 1 3 0 10 0]
  by (simp add: SetRetries_def default_client_def)

text \<open>
  C4: a holding register read of the client succeeds exactly when one of its attempts is
  answered by a frame with a valid CRC that carries the registers for the unit, function
  and count asked for, every earlier attempt having failed in a way that is retried; the
  registers returned are those of the frame and no further transaction is made.
\<close>

theorem ClientReadHolding_iff:
  assumes "m_retries c \<noteq> - 1" "n \<noteq> 0"
  shows "ClientReadHolding transact c u off n t = Some (Inr regs, t') \<longleftrightarrow>
     (let request = client_request u 3 off n in
      \<exists>k \<le> unat (m_retries c).
        (\<forall>j < k. \<exists>f. try_result transact c request (judge u 3 n) t j = Again f) \<and>
        fst (transact (after_tries transact c request t k) request (m_timeout c)) =
          Some (AppendCrc (registers_pdu u 3 regs)) \<and>
        length regs = unat n \<and> length regs < 128 \<and>
        t' = after_tries transact c request t (Suc k))" (is "?L \<longleftrightarrow> ?R")
proof -
  have nb: "\<not> bit (3 :: u8) 7" by simp
  have pay: "try_result transact c (client_request u 3 off n) (judge u 3 n) t k =
        Done (Inr (words_bytes regs)) \<longleftrightarrow>
      fst (transact (after_tries transact c (client_request u 3 off n) t k)
        (client_request u 3 off n) (m_timeout c)) = Some (AppendCrc (registers_pdu u 3 regs)) \<and>
      length regs = unat n \<and> length regs < 128" for k
    unfolding try_result_def judge_Inr_iff [OF nb] data_pdu_registers [OF refl]
    by (auto simp: payload_size_def)
  have "?L \<longleftrightarrow> ClientRead transact c u 3 off n t = Some (Inr (words_bytes regs), t')"
  proof
    assume ?L
    then obtain payload where p: "ClientRead transact c u 3 off n t = Some (Inr payload, t')"
      "regs = words_of payload"
      by (auto simp: ClientReadHolding_def elim!: map_sum_Inr_E)
    then have "length payload = payload_size 3 n"
      unfolding ClientRead_Inr_iff [OF assms nb] try_result_def judge_Inr_iff [OF nb] by blast
    then have "words_bytes regs = payload"
      by (simp add: p(2) words_bytes_words_of payload_size_def)
    with p(1) show "ClientRead transact c u 3 off n t = Some (Inr (words_bytes regs), t')" by simp
  qed (simp add: ClientReadHolding_def)
  then show ?thesis
    unfolding ClientRead_Inr_iff [OF assms nb] pay Let_def by blast
qed

text \<open>A transport that loses the first request and answers the second.\<close>

definition lossy :: "nat transact" where
  "lossy n _ _ = (if n = 0 then None else Some (AppendCrc (registers_pdu 1 3 [0xABCD])), n + 1)"

theorem ClientReadHolding_iff_witness:
  "ClientReadHolding lossy (SetRetries 1 default_client) 1 0 1 0 = Some (Inr [0xABCD], 2)"
proof (subst ClientReadHolding_iff)
  let ?c = "SetRetries 1 default_client"
  have one: "\<exists>f. try_result lossy ?c (client_request 1 3 0 1) (judge 1 3 1) 0 j = Again f" if "j < 1" for j
    using that by (simp add: try_result_def after_tries_def lossy_def judge_def)
  show "let request = client_request 1 3 0 1 in
      \<exists>k \<le> unat (m_retries ?c).
        (\<forall>j < k. \<exists>f. try_result lossy ?c request (judge 1 3 1) 0 j = Again f) \<and>
        fst (lossy (after_tries lossy ?c request 0 k) request (m_timeout ?c)) =
          Some (AppendCrc (registers_pdu 1 3 [0xABCD])) \<and>
        length [0xABCD :: u16] = unat (1 :: u16) \<and> length [0xABCD :: u16] < 128 \<and>
        2 = after_tries lossy ?c request 0 (Suc k)"
    unfolding Let_def
    by (intro exI [of _ 1])
       (use one in \<open>simp add: SetRetries_def after_tries_def lossy_def\<close>)
qed (simp_all add: SetRetries_def default_client_def)

text \<open>
  With the largest unsigned retry count the loop condition can never fail: on a
  transport that never answers, the client never returns.
\<close>

theorem ClientRead_max_retries_diverges:
  assumes "n \<noteq> 0"
  shows "ClientRead (\<lambda>t _ _. (None, t)) (SetRetries (- 1) c) u fc off n t = None"
proof -
  have "read_attempts (\<lambda>t _ _. (None, t)) (SetRetries (- 1) c) (client_request u fc off n)
      (judge u fc n) 0 \<lparr>fl_error = CE_Timeout, fl_exception_code = 0\<rparr> t = None"
    by (rule read_attempts_silent) (simp_all add: SetRetries_def judge_def)
  with assms show ?thesis by (simp add: ClientRead_def)
qed

theorem ClientRead_max_retries_diverges_witness:
  "ClientRead (\<lambda>t _ _. (None, t)) (SetRetries (- 1) default_client) 1 3 0 2 () = None"
  using ClientRead_max_retries_diverges [of 2 default_client 1 3 0 "()"] by simp

end
