(* ===== verification/CanTransport.thy ===== *)
theory CanTransport
  imports CanCodecs
begin

text \<open>
  The CAN transport.  Source: \<open>src/CanSerialPort.cpp\<close>, \<open>src/CanTransportModels.hpp\<close>,
  \<open>src/CanDeviceStm32.cpp\<close>, \<open>src/CanDeviceLawicel.cpp\<close>, \<open>src/CanDeviceFactory.cpp\<close>.
  A port holds the queue of frames to send, the circular buffer of received bytes and the
  adapter; what it writes to the serial port and what it tells its listener are recorded in
  the order they happen.  The locale \<open>can_adapter\<close> is the contract of an adapter: wake-up
  commands first, then one record for each frame it accepts; it is interpreted for the
  STM32 adapter, the Lawicel adapter and the dispatch between them.  The send loop is a
  partial function because the code's loop does not end when a frame is never taken off the
  queue.
\<close>

section \<open>Frames waiting to be sent\<close>

definition MAX_CAN_FRAME_DATA_LEN :: nat where "MAX_CAN_FRAME_DATA_LEN = 8"

record can_data =
  cd_frame_id :: u32
  cd_data :: bytes

definition new_can_data :: "u32 \<Rightarrow> nat \<Rightarrow> bytes \<Rightarrow> can_data" where
  "new_can_data frame_id_value len source =
     \<lparr>cd_frame_id = frame_id_value, cd_data = take (min len MAX_CAN_FRAME_DATA_LEN) source\<rparr>"

definition frame_of :: "can_data \<Rightarrow> can_frame" where
  "frame_of d = \<lparr>frame_id = cd_frame_id d, frame_data = cd_data d\<rparr>"

definition char_byte :: "char \<Rightarrow> u8" where
  "char_byte c = word_of_nat (of_char c)"

definition byte_char :: "u8 \<Rightarrow> char" where
  "byte_char b = char_of (unat b)"

lemma byte_char_char_byte [simp]: "byte_char (char_byte c) = c"
  by (simp add: byte_char_def char_byte_def unat_of_nat)

section \<open>The adapters\<close>

definition Stm32_DecodeReceivedBytes :: "bytes \<Rightarrow> bytes \<Rightarrow> can_frame list \<times> bytes" where
  "Stm32_DecodeReceivedBytes m_Decoder received = Stm32Feed m_Decoder received"

text \<open>The result of \<open>PrepareSendDataFormat\<close>: the bytes written to the output buffer, whether
  the frame is to leave the queue, and the adapter afterwards.\<close>

definition Stm32_PrepareSendDataFormat :: "bytes \<Rightarrow> can_data \<Rightarrow> nat \<Rightarrow> bytes \<times> bool \<times> bytes" where
  "Stm32_PrepareSendDataFormat m_Decoder d max_size =
     (case EncodeStm32 (frame_of d) of
        None \<Rightarrow> ([], False, m_Decoder)
      | Some encoded \<Rightarrow>
          if max_size < length encoded then ([], False, m_Decoder) else (encoded, True, m_Decoder))"

record lawicel_device =
  lw_decoder :: string
  lw_step :: nat

definition kHandshake :: "string list" where
  "kHandshake = [[CR], ''V'' @ [CR], ''S6'' @ [CR], ''O'' @ [CR]]"

definition Lawicel_DecodeReceivedBytes :: "lawicel_device \<Rightarrow> bytes \<Rightarrow> can_frame list \<times> lawicel_device" where
  "Lawicel_DecodeReceivedBytes dev received =
     (let r = LawicelFeed (lw_decoder dev) (map byte_char received)
      in (fst r, dev\<lparr>lw_decoder := snd r\<rparr>))"

definition Lawicel_PrepareSendDataFormat ::
    "lawicel_device \<Rightarrow> can_data \<Rightarrow> nat \<Rightarrow> bytes \<times> bool \<times> lawicel_device" where
  "Lawicel_PrepareSendDataFormat dev d max_size =
     (if lw_step dev < length kHandshake then
        let command = kHandshake ! lw_step dev in
        if max_size < length command then ([], False, dev)
        else (map char_byte command, False, dev\<lparr>lw_step := lw_step dev + 1\<rparr>)
      else
        case EncodeLawicel (frame_of d) of
          None \<Rightarrow> ([], True, dev)
        | Some encoded \<Rightarrow>
            if max_size < length encoded then ([], True, dev) else (map char_byte encoded, True, dev))"

datatype can_device_type = DEV_STM32 | DEV_LAWICEL

datatype can_device = Stm32_device bytes | Lawicel_device lawicel_device

definition CreateDevice :: "can_device_type \<Rightarrow> can_device" where
  "CreateDevice type =
     (case type of
        DEV_STM32 \<Rightarrow> Stm32_device []
      | DEV_LAWICEL \<Rightarrow> Lawicel_device \<lparr>lw_decoder = [], lw_step = 0\<rparr>)"

fun DecodeReceivedBytes :: "can_device \<Rightarrow> bytes \<Rightarrow> can_frame list \<times> can_device" where
  "DecodeReceivedBytes (Stm32_device d) received =
     map_prod (\<lambda>x. x) Stm32_device (Stm32_DecodeReceivedBytes d received)"
| "DecodeReceivedBytes (Lawicel_device d) received =
     map_prod (\<lambda>x. x) Lawicel_device (Lawicel_DecodeReceivedBytes d received)"

fun PrepareSendDataFormat :: "can_device \<Rightarrow> can_data \<Rightarrow> nat \<Rightarrow> bytes \<times> bool \<times> can_device" where
  "PrepareSendDataFormat (Stm32_device d) f n =
     map_prod (\<lambda>x. x) (map_prod (\<lambda>x. x) Stm32_device) (Stm32_PrepareSendDataFormat d f n)"
| "PrepareSendDataFormat (Lawicel_device d) f n =
     map_prod (\<lambda>x. x) (map_prod (\<lambda>x. x) Lawicel_device) (Lawicel_PrepareSendDataFormat d f n)"

section \<open>The port\<close>

definition TX_QUEUE_MAX_SIZE :: nat where "TX_QUEUE_MAX_SIZE = 100"
definition RX_CIRCBUFF_SIZE :: nat where "RX_CIRCBUFF_SIZE = 1024"
definition CAN_SERIAL_TX_BUFFER_SIZE :: nat where "CAN_SERIAL_TX_BUFFER_SIZE = 64"

datatype can_event = FrameSent u32 bytes | FrameReceived u32 bytes

record 'd can_port =
  m_TxQueue :: "can_data list"
  m_CircBuff :: bytes
  m_Device :: 'd
  serial_out :: "bytes list"
  listener_events :: "can_event list"

definition AddToTxQueue :: "u32 \<Rightarrow> nat \<Rightarrow> bytes \<Rightarrow> 'd can_port \<Rightarrow> 'd can_port" where
  "AddToTxQueue fid data_len data port =
     (if data_len = 0 then port
      else
        let q = m_TxQueue port @ [new_can_data fid data_len data]
        in port\<lparr>m_TxQueue := (if TX_QUEUE_MAX_SIZE < length q then tl q else q)\<rparr>)"

definition Send :: "u32 \<Rightarrow> bytes \<Rightarrow> 'd can_port \<Rightarrow> 'd can_port" where
  "Send fid data = AddToTxQueue fid (min (length data) MAX_CAN_FRAME_DATA_LEN) data"

text \<open>\<open>boost::circular_buffer\<close>: inserting at the end overwrites the oldest elements.\<close>

definition circ_append :: "nat \<Rightarrow> 'a list \<Rightarrow> 'a list \<Rightarrow> 'a list" where
  "circ_append capacity buf xs = drop (length buf + length xs - capacity) (buf @ xs)"

definition OnDataReceived :: "bytes \<Rightarrow> 'd can_port \<Rightarrow> 'd can_port" where
  "OnDataReceived data port = port\<lparr>m_CircBuff := circ_append RX_CIRCBUFF_SIZE (m_CircBuff port) data\<rparr>"

text \<open>One turn of the loop of \<open>SendPendingCanFrames\<close>, for the frame at the front.\<close>

definition send_front ::
    "('d \<Rightarrow> can_data \<Rightarrow> nat \<Rightarrow> bytes \<times> bool \<times> 'd) \<Rightarrow> can_data \<Rightarrow> 'd can_port \<Rightarrow> 'd can_port" where
  "send_front prepare d port =
     (let (out, is_remove, dev) = prepare (m_Device port) d CAN_SERIAL_TX_BUFFER_SIZE in
      port\<lparr>m_Device := dev,
           serial_out := serial_out port @ (if out = [] then [] else [out]),
           listener_events := listener_events port @ [FrameSent (cd_frame_id d) (cd_data d)],
           m_TxQueue := (if is_remove then tl (m_TxQueue port) else m_TxQueue port)\<rparr>)"

partial_function (option) send_pending ::
    "('d \<Rightarrow> can_data \<Rightarrow> nat \<Rightarrow> bytes \<times> bool \<times> 'd) \<Rightarrow> 'd can_port \<Rightarrow> 'd can_port option" where
  "send_pending prepare port =
     (case m_TxQueue port of
        [] \<Rightarrow> Some port
      | d # _ \<Rightarrow> send_pending prepare (send_front prepare d port))"

definition SendPendingCanFrames :: "can_device can_port \<Rightarrow> can_device can_port option" where
  "SendPendingCanFrames = send_pending PrepareSendDataFormat"

definition CanOnDataSent :: "can_device can_port \<Rightarrow> can_device can_port option" where
  "CanOnDataSent port =
     (let (frames, dev) = DecodeReceivedBytes (m_Device port) (m_CircBuff port) in
      SendPendingCanFrames
        (port\<lparr>m_CircBuff := [], m_Device := dev,
              listener_events := listener_events port @
                map (\<lambda>f. FrameReceived (frame_id f) (frame_data f)) frames\<rparr>))"

definition new_can_port :: "can_device_type \<Rightarrow> can_device can_port" where
  "new_can_port type = \<lparr>m_TxQueue = [], m_CircBuff = [], m_Device = CreateDevice type,
     serial_out = [], listener_events = []\<rparr>"

section \<open>The contract of an adapter\<close>

locale can_adapter =
  fixes prepare :: "'d \<Rightarrow> can_data \<Rightarrow> nat \<Rightarrow> bytes \<times> bool \<times> 'd"
    and pending :: "'d \<Rightarrow> bytes list"
    and ready :: "'d \<Rightarrow> 'd"
    and accepts :: "'d \<Rightarrow> can_data \<Rightarrow> bool"
    and encode :: "'d \<Rightarrow> can_data \<Rightarrow> bytes"
  assumes wake: "pending d = c # cs \<Longrightarrow>
      \<exists>d'. prepare d f CAN_SERIAL_TX_BUFFER_SIZE = (c, False, d') \<and> pending d' = cs \<and> ready d' = ready d \<and>
        accepts d' = accepts d \<and> encode d' = encode d"
    and idle: "pending d = [] \<Longrightarrow> ready d = d"
    and sends: "pending d = [] \<Longrightarrow> accepts d f \<Longrightarrow> prepare d f CAN_SERIAL_TX_BUFFER_SIZE = (encode d f, True, d)"
    and stuck: "pending d = [] \<Longrightarrow> \<not> accepts d f \<Longrightarrow> prepare d f CAN_SERIAL_TX_BUFFER_SIZE = ([], False, d)"
    and nonempty: "[] \<notin> set (pending d)"
begin

abbreviation written :: "'d \<Rightarrow> can_data list \<Rightarrow> bytes list" where
  "written d q \<equiv> filter (\<lambda>w. w \<noteq> []) (map (encode d) q)"

abbreviation reported :: "can_data list \<Rightarrow> can_event list" where
  "reported q \<equiv> map (\<lambda>f. FrameSent (cd_frame_id f) (cd_data f)) q"

lemma send_accepted:
  assumes "pending (m_Device port) = []" and "\<forall>f \<in> set (m_TxQueue port). accepts (m_Device port) f"
  shows "send_pending prepare port =
    Some (port\<lparr>m_TxQueue := [], serial_out := serial_out port @ written (m_Device port) (m_TxQueue port),
               listener_events := listener_events port @ reported (m_TxQueue port)\<rparr>)"
  using assms
proof (induction "m_TxQueue port" arbitrary: port)
  case Nil
  then show ?case by (subst send_pending.simps) simp
next
  case (Cons f q)
  have front: "send_front prepare f port =
      port\<lparr>m_TxQueue := q, serial_out := serial_out port @ written (m_Device port) [f],
           listener_events := listener_events port @ reported [f]\<rparr>"
    using Cons sends [of "m_Device port" f]
    by (simp add: send_front_def Cons.hyps(2) [symmetric])
  have "send_pending prepare (send_front prepare f port) =
      Some ((send_front prepare f port)\<lparr>m_TxQueue := [],
        serial_out := serial_out (send_front prepare f port) @ written (m_Device port) q,
        listener_events := listener_events (send_front prepare f port) @ reported q\<rparr>)"
    using Cons.hyps(1) [of "send_front prepare f port"] Cons.prems Cons.hyps(2) [symmetric]
    by (simp add: front)
  then show ?case
    by (subst send_pending.simps) (simp add: Cons.hyps(2) [symmetric] front)
qed

lemma send_all:
  assumes "\<forall>f \<in> set (m_TxQueue port). accepts (m_Device port) f" and "m_TxQueue port = first # rest"
  shows "send_pending prepare port =
    Some (port\<lparr>m_TxQueue := [], m_Device := ready (m_Device port),
      serial_out := serial_out port @ pending (m_Device port) @ written (m_Device port) (m_TxQueue port),
      listener_events := listener_events port @
        reported (replicate (length (pending (m_Device port))) first) @ reported (m_TxQueue port)\<rparr>)"
  using assms
proof (induction "pending (m_Device port)" arbitrary: port)
  case Nil
  then show ?case using idle [of "m_Device port"] by (simp add: send_accepted)
next
  case (Cons c cs)
  obtain d' where d': "prepare (m_Device port) first CAN_SERIAL_TX_BUFFER_SIZE = (c, False, d')"
    "pending d' = cs" "ready d' = ready (m_Device port)" "accepts d' = accepts (m_Device port)"
    "encode d' = encode (m_Device port)"
    using wake [OF Cons.hyps(2) [symmetric]] by blast
  have "c \<noteq> []" using nonempty [of "m_Device port"] Cons.hyps(2) by (metis list.set_intros(1))
  then have front: "send_front prepare first port =
      port\<lparr>m_Device := d', serial_out := serial_out port @ [c],
           listener_events := listener_events port @ reported [first]\<rparr>"
    by (simp add: send_front_def d')
  have "send_pending prepare port = send_pending prepare (send_front prepare first port)"
    using Cons.prems by (subst send_pending.simps) simp
  also have "\<dots> = Some (port\<lparr>m_TxQueue := [], m_Device := ready (m_Device port),
      serial_out := serial_out port @ c # cs @ written (m_Device port) (m_TxQueue port),
      listener_events := listener_events port @
        reported (replicate (Suc (length cs)) first) @ reported (m_TxQueue port)\<rparr>)"
    using Cons.hyps(1) [of "send_front prepare first port"] Cons.prems by (simp add: front d')
  finally show ?case by (simp flip: Cons.hyps(2))
qed

lemma returns_accepted_step:
  fixes sp :: "('d \<Rightarrow> can_data \<Rightarrow> nat \<Rightarrow> bytes \<times> bool \<times> 'd) \<Rightarrow> 'd can_port \<Rightarrow> 'd can_port option"
  assumes ih: "\<And>port r f. sp prepare port = Some r \<Longrightarrow> f \<in> set (m_TxQueue port) \<Longrightarrow> accepts (m_Device port) f"
    and body: "(case m_TxQueue port of [] \<Rightarrow> Some port | d # _ \<Rightarrow> sp prepare (send_front prepare d port)) = Some r"
    and f: "f \<in> set (m_TxQueue port)"
  shows "accepts (m_Device port) f"
proof -
  from f obtain d q where q: "m_TxQueue port = d # q" by (cases "m_TxQueue port") auto
  with body have sp: "sp prepare (send_front prepare d port) = Some r" by simp
  note acc = ih [OF sp]
  show "accepts (m_Device port) f"
  proof (cases "pending (m_Device port)")
    case (Cons c cs)
    obtain d' where d': "prepare (m_Device port) d CAN_SERIAL_TX_BUFFER_SIZE = (c, False, d')"
      "accepts d' = accepts (m_Device port)"
      using wake [OF Cons] by blast
    have "m_TxQueue (send_front prepare d port) = m_TxQueue port"
      and "m_Device (send_front prepare d port) = d'"
      by (simp_all add: send_front_def d')
    with acc [of f] f d'(2) show ?thesis by simp
  next
    case Nil
    show ?thesis
    proof (cases "accepts (m_Device port) d")
      case True
      have "m_TxQueue (send_front prepare d port) = q" and "m_Device (send_front prepare d port) = m_Device port"
        using sends [OF Nil True] by (simp_all add: send_front_def q)
      with acc [of f] f q True show ?thesis by auto
    next
      case False
      have "m_TxQueue (send_front prepare d port) = d # q" and "m_Device (send_front prepare d port) = m_Device port"
        using stuck [OF Nil False] by (simp_all add: send_front_def q)
      with acc [of d] False show ?thesis by simp
    qed
  qed
qed

lemma returns_accepted:
  assumes "send_pending prepare port = Some result" and "f \<in> set (m_TxQueue port)"
  shows "accepts (m_Device port) f"
proof -
  define P where "P = (\<lambda>(prep :: 'd \<Rightarrow> can_data \<Rightarrow> nat \<Rightarrow> bytes \<times> bool \<times> 'd) (port :: 'd can_port) (r :: 'd can_port).
      prep = prepare \<longrightarrow> (\<forall>f \<in> set (m_TxQueue port). accepts (m_Device port) f))"
  have "P prepare port result"
    using _ assms(1)
  proof (rule send_pending.raw_induct)
    fix sp :: "('d \<Rightarrow> can_data \<Rightarrow> nat \<Rightarrow> bytes \<times> bool \<times> 'd) \<Rightarrow> 'd can_port \<Rightarrow> 'd can_port option"
      and prep and port r :: "'d can_port"
    assume ih: "\<And>prep port r. sp prep port = Some r \<Longrightarrow> P prep port r"
      and body: "(case m_TxQueue port of [] \<Rightarrow> Some port | d # _ \<Rightarrow> sp prep (send_front prep d port)) = Some r"
    have acc: "\<And>port r f. sp prepare port = Some r \<Longrightarrow> f \<in> set (m_TxQueue port) \<Longrightarrow> accepts (m_Device port) f"
      using ih unfolding P_def by blast
    show "P prep port r"
      unfolding P_def
    proof (intro impI ballI)
      fix f assume prep: "prep = prepare" and f: "f \<in> set (m_TxQueue port)"
      from returns_accepted_step [of sp, OF acc body [unfolded prep] f] show "accepts (m_Device port) f" .
    qed
  qed
  with assms(2) show ?thesis by (simp add: P_def)
qed

lemma returns_iff:
  "send_pending prepare port \<noteq> None \<longleftrightarrow> (\<forall>f \<in> set (m_TxQueue port). accepts (m_Device port) f)"
proof
  assume "send_pending prepare port \<noteq> None"
  then show "\<forall>f \<in> set (m_TxQueue port). accepts (m_Device port) f" using returns_accepted by blast
next
  assume a: "\<forall>f \<in> set (m_TxQueue port). accepts (m_Device port) f"
  show "send_pending prepare port \<noteq> None"
  proof (cases "m_TxQueue port")
    case Nil
    then show ?thesis by (subst send_pending.simps) simp
  next
    case (Cons f q)
    with send_all [OF a Cons] show ?thesis by simp
  qed
qed

end

section \<open>The adapters keep the contract\<close>

fun device_pending :: "can_device \<Rightarrow> bytes list" where
  "device_pending (Stm32_device _) = []"
| "device_pending (Lawicel_device l) = drop (lw_step l) (map (map char_byte) kHandshake)"

fun device_ready :: "can_device \<Rightarrow> can_device" where
  "device_ready (Stm32_device b) = Stm32_device b"
| "device_ready (Lawicel_device l) = Lawicel_device (l\<lparr>lw_step := max (lw_step l) (length kHandshake)\<rparr>)"

fun device_accepts :: "can_device \<Rightarrow> can_data \<Rightarrow> bool" where
  "device_accepts (Stm32_device _) f = (EncodeStm32 (frame_of f) \<noteq> None)"
| "device_accepts (Lawicel_device _) f = True"

fun device_encode :: "can_device \<Rightarrow> can_data \<Rightarrow> bytes" where
  "device_encode (Stm32_device _) f = the (EncodeStm32 (frame_of f))"
| "device_encode (Lawicel_device _) f =
     (case EncodeLawicel (frame_of f) of None \<Rightarrow> [] | Some e \<Rightarrow> map char_byte e)"

lemma length_EncodeStm32: "EncodeStm32 f = Some w \<Longrightarrow> length w = Stm32WireSize"
  by (auto simp: EncodeStm32_record Stm32WireSize_def length_stm32_record split: if_splits)

lemma length_EncodeLawicel: "EncodeLawicel f = Some w \<Longrightarrow> length w \<le> 27"
  by (erule EncodeLawicel_line) simp

lemma length_kHandshake [simp]: "length kHandshake = 4"
  by (simp add: kHandshake_def)

lemma kHandshake_command: "c \<in> set kHandshake \<Longrightarrow> 0 < length c \<and> length c \<le> 3"
  by (auto simp: kHandshake_def)

interpretation adapter: can_adapter PrepareSendDataFormat device_pending device_ready device_accepts device_encode
proof
  fix d and c :: bytes and cs and f :: can_data
  assume p: "device_pending d = c # cs"
  then obtain l where d: "d = Lawicel_device l" by (cases d) auto
  with p have lt: "lw_step l < length kHandshake"
    by (metis device_pending.simps(2) drop_all length_map list.distinct(1) not_less)
  then have c: "c = map char_byte (kHandshake ! lw_step l)" "cs = drop (Suc (lw_step l)) (map (map char_byte) kHandshake)"
    using p d Cons_nth_drop_Suc [of "lw_step l" "map (map char_byte) kHandshake"] by simp_all
  have "length (kHandshake ! lw_step l) \<le> 3" using kHandshake_command lt nth_mem by blast
  then have "PrepareSendDataFormat d f CAN_SERIAL_TX_BUFFER_SIZE =
      (c, False, Lawicel_device (l\<lparr>lw_step := lw_step l + 1\<rparr>))"
    using lt c by (simp add: d Lawicel_PrepareSendDataFormat_def Let_def CAN_SERIAL_TX_BUFFER_SIZE_def)
  moreover have "device_pending (Lawicel_device (l\<lparr>lw_step := lw_step l + 1\<rparr>)) = cs"
    using c by simp
  moreover have "device_ready (Lawicel_device (l\<lparr>lw_step := lw_step l + 1\<rparr>)) = device_ready d"
    using lt by (simp add: d max_def)
  moreover have "device_accepts (Lawicel_device (l\<lparr>lw_step := lw_step l + 1\<rparr>)) = device_accepts d"
    "device_encode (Lawicel_device (l\<lparr>lw_step := lw_step l + 1\<rparr>)) = device_encode d"
    by (simp_all add: d fun_eq_iff)
  ultimately show "\<exists>d'. PrepareSendDataFormat d f CAN_SERIAL_TX_BUFFER_SIZE = (c, False, d') \<and>
      device_pending d' = cs \<and> device_ready d' = device_ready d \<and>
      device_accepts d' = device_accepts d \<and> device_encode d' = device_encode d" by blast
next
  fix d :: can_device assume "device_pending d = []"
  then show "device_ready d = d" by (cases d) (auto simp: max_def)
next
  fix d f assume p: "device_pending d = []" and a: "device_accepts d f"
  then show "PrepareSendDataFormat d f CAN_SERIAL_TX_BUFFER_SIZE = (device_encode d f, True, d)"
    by (cases d) (auto simp: Stm32_PrepareSendDataFormat_def Lawicel_PrepareSendDataFormat_def
        CAN_SERIAL_TX_BUFFER_SIZE_def Stm32WireSize_def split: option.split
        dest: length_EncodeStm32 length_EncodeLawicel)
next
  fix d f assume "device_pending d = []" "\<not> device_accepts d f"
  then show "PrepareSendDataFormat d f CAN_SERIAL_TX_BUFFER_SIZE = ([], False, d)"
    by (cases d) (auto simp: Stm32_PrepareSendDataFormat_def)
next
  fix d
  show "[] \<notin> set (device_pending d)"
    using kHandshake_command by (cases d) (fastforce dest: in_set_dropD)+
qed

lemma device_accepts_iff:
  "device_accepts d f \<longleftrightarrow>
    (case d of Stm32_device _ \<Rightarrow> length (cd_data f) \<le> 8 \<and> cd_frame_id f \<le> 0x1FFFFFFF | Lawicel_device _ \<Rightarrow> True)"
  by (cases d) (auto simp: EncodeStm32_record frame_of_def)

section \<open>Properties of the port\<close>

text \<open>
  The send loop returns exactly when the adapter is a Lawicel adapter or every queued
  frame has an identifier of at most 29 bits and at most 8 bytes: the STM32 adapter neither
  writes nor removes any other frame, so the loop turns on it for ever.
\<close>

theorem SendPendingCanFrames_returns_iff:
  "SendPendingCanFrames port \<noteq> None \<longleftrightarrow>
     (\<forall>f \<in> set (m_TxQueue port). case m_Device port of
        Stm32_device _ \<Rightarrow> length (cd_data f) \<le> 8 \<and> cd_frame_id f \<le> 0x1FFFFFFF
      | Lawicel_device _ \<Rightarrow> True)"
  unfolding SendPendingCanFrames_def adapter.returns_iff device_accepts_iff ..

theorem SendPendingCanFrames_returns_iff_witness:
  "SendPendingCanFrames (Send 0x20000000 [1] (new_can_port DEV_STM32)) = None \<and>
   SendPendingCanFrames (Send 0x1FFFFFFF [1] (new_can_port DEV_STM32)) \<noteq> None"
  using SendPendingCanFrames_returns_iff [of "Send 0x20000000 [1] (new_can_port DEV_STM32)"]
    SendPendingCanFrames_returns_iff [of "Send 0x1FFFFFFF [1] (new_can_port DEV_STM32)"]
  by (simp add: Send_def AddToTxQueue_def new_can_port_def CreateDevice_def new_can_data_def
      MAX_CAN_FRAME_DATA_LEN_def TX_QUEUE_MAX_SIZE_def)

text \<open>
  when the loop returns, the queue is empty and the serial port was written the wake-up
  commands the adapter still owed, then every frame's record once and in queue order; the
  listener is told of every frame in that order, and of the first one once more for every
  wake-up command.
\<close>

theorem SendPendingCanFrames_sends:
  assumes "m_TxQueue port = first # rest" and "SendPendingCanFrames port = Some port'"
  shows "m_TxQueue port' = [] \<and>
    serial_out port' = serial_out port @ device_pending (m_Device port) @
      filter (\<lambda>w. w \<noteq> []) (map (device_encode (m_Device port)) (m_TxQueue port)) \<and>
    listener_events port' = listener_events port @
      map (\<lambda>f. FrameSent (cd_frame_id f) (cd_data f))
        (replicate (length (device_pending (m_Device port))) first @ m_TxQueue port) \<and>
    device_pending (m_Device port') = []"
proof -
  have acc: "\<forall>f \<in> set (m_TxQueue port). device_accepts (m_Device port) f"
    using assms(2) adapter.returns_iff [of port] by (simp add: SendPendingCanFrames_def)
  have "device_pending (device_ready d) = []" for d by (cases d) auto
  with adapter.send_all [OF acc assms(1)] assms(2) show ?thesis
    by (auto simp: SendPendingCanFrames_def)
qed

definition sample_port :: "can_device can_port" where
  "sample_port = Send 0x7FF [1, 2] (new_can_port DEV_LAWICEL)"

theorem SendPendingCanFrames_sends_witness:
  "\<exists>port'. SendPendingCanFrames sample_port = Some port' \<and> m_TxQueue port' = [] \<and>
     length (listener_events port') = 5"
proof -
  have q: "m_TxQueue sample_port = [new_can_data 0x7FF 2 [1, 2]]"
    and d: "m_Device sample_port = Lawicel_device \<lparr>lw_decoder = [], lw_step = 0\<rparr>"
    and e: "listener_events sample_port = []"
    by (simp_all add: sample_port_def Send_def AddToTxQueue_def new_can_port_def CreateDevice_def
        MAX_CAN_FRAME_DATA_LEN_def TX_QUEUE_MAX_SIZE_def numeral_2_eq_2)
  then obtain port' where "SendPendingCanFrames sample_port = Some port'"
    using SendPendingCanFrames_returns_iff [of sample_port] by auto
  with SendPendingCanFrames_sends [OF q this] q d e show ?thesis by simp
qed

subsection \<open>Bounded queues\<close>

definition newest :: "nat \<Rightarrow> 'a list \<Rightarrow> 'a list" where
  "newest n xs = drop (length xs - n) xs"

lemma newest_append: "newest n (newest n xs @ ys) = newest n (xs @ ys)"
proof (cases "length xs \<le> n")
  case True
  then show ?thesis by (simp add: newest_def)
next
  case False
  then have "length (newest n xs) = n" by (simp add: newest_def)
  moreover have "drop (length ys) (newest n xs) = drop (length xs + length ys - n) xs"
    using False by (simp add: newest_def add.commute)
  ultimately show ?thesis using False
    by (simp add: newest_def [of n "newest n xs @ ys"] newest_def [of n "xs @ ys"])
qed

lemma circ_append_newest: "circ_append n buf xs = newest n (buf @ xs)"
  by (simp add: circ_append_def newest_def)

definition queued :: "(u32 \<times> bytes) list \<Rightarrow> can_data list" where
  "queued xs = map (\<lambda>(i, d). \<lparr>cd_frame_id = i, cd_data = take MAX_CAN_FRAME_DATA_LEN d\<rparr>) (filter (\<lambda>(i, d). d \<noteq> []) xs)"

lemma tl_newest: "length q = Suc n \<Longrightarrow> tl q = newest n q"
  by (simp add: newest_def drop_Suc)

lemma newest_short: "length q \<le> n \<Longrightarrow> newest n q = q"
  by (simp add: newest_def)

lemma Send_queue:
  assumes "length (m_TxQueue port) \<le> TX_QUEUE_MAX_SIZE"
  shows "m_TxQueue (Send i d port) = newest TX_QUEUE_MAX_SIZE (m_TxQueue port @ queued [(i, d)])"
proof -
  let ?f = "\<lparr>cd_frame_id = i, cd_data = take MAX_CAN_FRAME_DATA_LEN d\<rparr>"
  have "new_can_data i (min (length d) MAX_CAN_FRAME_DATA_LEN) d = ?f"
    by (simp add: new_can_data_def min_def)
  moreover have "length (m_TxQueue port) = TX_QUEUE_MAX_SIZE \<Longrightarrow>
      tl (m_TxQueue port @ [?f]) = newest TX_QUEUE_MAX_SIZE (m_TxQueue port @ [?f])"
    by (rule tl_newest) simp
  moreover have "length (m_TxQueue port) \<noteq> TX_QUEUE_MAX_SIZE \<Longrightarrow>
      newest TX_QUEUE_MAX_SIZE (m_TxQueue port @ [?f]) = m_TxQueue port @ [?f]"
    using assms by (intro newest_short) simp
  moreover have "\<exists>k. min (length d) MAX_CAN_FRAME_DATA_LEN = Suc k" if "d \<noteq> []"
    using that by (cases d) (auto simp: MAX_CAN_FRAME_DATA_LEN_def min_def)
  ultimately show ?thesis
    using assms by (cases "d = []"; cases "length (m_TxQueue port) = TX_QUEUE_MAX_SIZE")
      (auto simp: Send_def AddToTxQueue_def queued_def newest_short Let_def)
qed

lemma CanSerialPort_newest_queue:
  assumes "length (m_TxQueue port) \<le> TX_QUEUE_MAX_SIZE"
  shows "m_TxQueue (fold (\<lambda>(i, d). Send i d) xs port) = newest TX_QUEUE_MAX_SIZE (m_TxQueue port @ queued xs)"
  using assms
proof (induction xs arbitrary: port)
  case Nil
  then show ?case by (simp add: queued_def newest_short)
next
  case (Cons x xs)
  have len: "length (newest n ys) \<le> n" for n and ys :: "can_data list" by (simp add: newest_def)
  obtain i d where x: "x = (i, d)" by (cases x)
  have q: "queued (x # xs) = queued [x] @ queued xs" by (simp add: queued_def)
  have a: "m_TxQueue port @ queued (x # xs) = (m_TxQueue port @ queued [x]) @ queued xs" by (simp add: q)
  show ?case
    using Cons.IH [of "Send i d port"] Send_queue [OF Cons.prems, of i d] len
    unfolding a by (simp add: x newest_append)
qed

text \<open>
  the port keeps the newest 100 frames and the newest 1024 received bytes: after any
  sends and receptions the transmit queue holds exactly the last 100 of the frames with
  data, cut to 8 bytes, in order, and the receive buffer the last 1024 bytes.
\<close>

theorem CanSerialPort_keeps_newest:
  assumes "length (m_TxQueue port) \<le> TX_QUEUE_MAX_SIZE" and "length (m_CircBuff port) \<le> RX_CIRCBUFF_SIZE"
  shows "m_TxQueue (fold (\<lambda>(i, d). Send i d) xs port) =
      newest TX_QUEUE_MAX_SIZE (m_TxQueue port @ queued xs) \<and>
    m_CircBuff (fold OnDataReceived chunks port) = newest RX_CIRCBUFF_SIZE (m_CircBuff port @ concat chunks)"
proof
  show "m_TxQueue (fold (\<lambda>(i, d). Send i d) xs port) = newest TX_QUEUE_MAX_SIZE (m_TxQueue port @ queued xs)"
    by (rule CanSerialPort_newest_queue) (rule assms(1))
  show "m_CircBuff (fold OnDataReceived chunks port) = newest RX_CIRCBUFF_SIZE (m_CircBuff port @ concat chunks)"
    using assms(2)
  proof (induction chunks arbitrary: port)
    case Nil
    then show ?case by (simp add: newest_short)
  next
    case (Cons c cs)
    have "length (newest n ys) \<le> n" for n and ys :: bytes by (simp add: newest_def)
    with Cons.IH [of "OnDataReceived c port"] show ?case
      by (simp add: OnDataReceived_def circ_append_newest newest_append)
  qed
qed

theorem CanSerialPort_keeps_newest_witness:
  "m_TxQueue (fold (\<lambda>(i, d). Send i d) [(1, [2]), (3, [])] (new_can_port DEV_STM32)) =
      newest TX_QUEUE_MAX_SIZE (m_TxQueue (new_can_port DEV_STM32) @ queued [(1, [2]), (3, [])]) \<and>
    m_CircBuff (fold OnDataReceived [[1], [2]] (new_can_port DEV_STM32)) =
      newest RX_CIRCBUFF_SIZE (m_CircBuff (new_can_port DEV_STM32) @ concat [[1], [2]])"
  by (rule CanSerialPort_keeps_newest) (simp_all add: new_can_port_def)

subsection \<open>Through the adapter and back\<close>

lemma send_nothing: "m_TxQueue port = [] \<Longrightarrow> SendPendingCanFrames port = Some port"
  by (simp add: SendPendingCanFrames_def send_pending.simps)

text \<open>
  The turns of the serial worker, each with the reads that arrived since the one before: the
  reads are collected in the circular buffer, which keeps the newest 1024 bytes of them, and
  taken up together.
\<close>

fun receive_turns :: "bytes list list \<Rightarrow> can_device can_port \<Rightarrow> can_device can_port option" where
  "receive_turns [] port = Some port"
| "receive_turns (reads # turns) port =
     Option.bind (CanOnDataSent (fold OnDataReceived reads port)) (receive_turns turns)"

abbreviation received_events :: "can_frame list \<Rightarrow> can_event list" where
  "received_events fs \<equiv> map (\<lambda>f. FrameReceived (frame_id f) (frame_data f)) fs"

lemma concat_map_concat: "concat (map concat xss) = concat (concat xss)"
  by (induction xss) simp_all

lemma fold_OnDataReceived:
  assumes "m_CircBuff port = []" and "length (concat reads) \<le> RX_CIRCBUFF_SIZE"
  shows "fold OnDataReceived reads port = port\<lparr>m_CircBuff := concat reads\<rparr>"
  using assms(2)
proof (induction reads rule: rev_induct)
  case Nil
  then show ?case using assms(1) by simp
next
  case (snoc r reads)
  then show ?case by (simp add: OnDataReceived_def circ_append_newest newest_short)
qed

lemma receive_turns_Stm32:
  assumes "m_TxQueue port = []" and "m_CircBuff port = []" and "m_Device port = Stm32_device b"
    and "\<forall>reads \<in> set turns. length (concat reads) \<le> RX_CIRCBUFF_SIZE"
  shows "receive_turns turns port =
    Some (port\<lparr>m_Device := Stm32_device (snd (feed_all Stm32Feed b (map concat turns))),
               listener_events := listener_events port @ received_events (fst (feed_all Stm32Feed b (map concat turns)))\<rparr>)"
  using assms
proof (induction turns arbitrary: port b)
  case Nil
  then show ?case by simp
next
  case (Cons reads turns)
  let ?r = "Stm32Feed b (concat reads)"
  let ?p = "port\<lparr>m_Device := Stm32_device (snd ?r),
    listener_events := listener_events port @ received_events (fst ?r)\<rparr>"
  have "CanOnDataSent (fold OnDataReceived reads port) = Some ?p"
    using Cons.prems
    by (simp add: CanOnDataSent_def fold_OnDataReceived send_nothing Stm32_DecodeReceivedBytes_def case_prod_unfold)
  then show ?case
    using Cons.IH [of ?p "snd ?r"] Cons.prems by (simp add: Let_def del: receive_turns.simps) simp
qed

lemma sends_keep_device:
  "m_Device (fold (\<lambda>(i, d). Send i d) xs p) = m_Device p \<and> m_CircBuff (fold (\<lambda>(i, d). Send i d) xs p) = m_CircBuff p \<and>
   serial_out (fold (\<lambda>(i, d). Send i d) xs p) = serial_out p"
  by (induction xs arbitrary: p) (auto simp: Send_def AddToTxQueue_def Let_def)

definition sendable :: "u32 \<times> bytes \<Rightarrow> bool" where
  "sendable x \<longleftrightarrow> snd x \<noteq> [] \<and> length (snd x) \<le> 8 \<and> fst x \<le> 0x1FFFFFFF"

definition to_frame :: "u32 \<times> bytes \<Rightarrow> can_frame" where
  "to_frame x = \<lparr>frame_id = fst x, frame_data = snd x\<rparr>"

lemma sendable_encodes:
  assumes "sendable x"
  shows "EncodeStm32 (to_frame x) \<noteq> None" and "the (EncodeStm32 (to_frame x)) \<noteq> []"
proof -
  from assms obtain w where w: "EncodeStm32 (to_frame x) = Some w"
    by (auto simp: EncodeStm32_record to_frame_def sendable_def)
  with length_EncodeStm32 [OF w] show "EncodeStm32 (to_frame x) \<noteq> None" "the (EncodeStm32 (to_frame x)) \<noteq> []"
    by (auto simp: Stm32WireSize_def)
qed

lemma queued_sendable:
  "\<forall>x \<in> set xs. sendable x \<Longrightarrow> queued xs = map (\<lambda>x. \<lparr>cd_frame_id = fst x, cd_data = snd x\<rparr>) xs"
  by (induction xs) (auto simp: queued_def MAX_CAN_FRAME_DATA_LEN_def sendable_def)

lemma Stm32_idle_OnDataSent:
  assumes "m_Device port = Stm32_device []" and "m_CircBuff port = []"
  shows "CanOnDataSent port = SendPendingCanFrames port"
proof -
  have "port\<lparr>m_CircBuff := [], m_Device := Stm32_device []\<rparr> = port"
    using assms by (metis can_port.surjective can_port.update_convs(2,3))
  moreover have "CanOnDataSent port = SendPendingCanFrames (port\<lparr>m_CircBuff := [], m_Device := Stm32_device []\<rparr>)"
    using assms by (simp add: CanOnDataSent_def Stm32_DecodeReceivedBytes_def Stm32Feed_def stm32_scan.simps)
  ultimately show ?thesis by metis
qed

lemma Stm32_port_sends:
  assumes ok: "\<forall>x \<in> set xs. sendable x" and short: "length xs \<le> 100"
    and port: "port = fold (\<lambda>(i, d). Send i d) xs (new_can_port DEV_STM32)" and sent: "CanOnDataSent port = Some port1"
  shows "serial_out port1 = map (\<lambda>x. the (EncodeStm32 (to_frame x))) xs \<and> m_TxQueue port1 = [] \<and>
    m_CircBuff port1 = [] \<and> m_Device port1 = Stm32_device []"
proof -
  have dev: "m_Device port = Stm32_device []" "m_CircBuff port = []" "serial_out port = []"
    by (simp_all add: sends_keep_device port new_can_port_def CreateDevice_def)
  have q: "m_TxQueue port = map (\<lambda>x. \<lparr>cd_frame_id = fst x, cd_data = snd x\<rparr>) xs"
    unfolding port using short
    by (subst CanSerialPort_newest_queue)
      (simp_all add: new_can_port_def queued_sendable [OF ok] newest_short TX_QUEUE_MAX_SIZE_def)
  have sent': "SendPendingCanFrames port = Some port1"
    using sent Stm32_idle_OnDataSent [OF dev(1,2)] by simp
  show ?thesis
  proof (cases "m_TxQueue port")
    case Nil
    with q sent' dev show ?thesis by (simp add: send_nothing)
  next
    case (Cons g gs)
    have acc: "\<forall>f \<in> set (m_TxQueue port). device_accepts (m_Device port) f"
      using sent' adapter.returns_iff [of port] by (simp add: SendPendingCanFrames_def)
    have "map (device_encode (m_Device port)) (m_TxQueue port) = map (\<lambda>x. the (EncodeStm32 (to_frame x))) xs"
      unfolding dev q by (auto simp: frame_of_def to_frame_def)
    then have "filter (\<lambda>w. w \<noteq> []) (map (device_encode (m_Device port)) (m_TxQueue port)) =
        map (\<lambda>x. the (EncodeStm32 (to_frame x))) xs"
      using ok sendable_encodes(2) by (auto intro!: filter_True)
    with adapter.send_all [OF acc Cons] sent' dev show ?thesis by (auto simp: SendPendingCanFrames_def)
  qed
qed

text \<open>
  C12: up to 100 frames queued on a port with an STM32 adapter, sent, looped back by the
  adapter and read in any portions, reach the listener of the port exactly, once each and in
  order, as long as no more than 1024 bytes arrive between two turns of the serial worker.
  Beyond these bounds the port drops the oldest frames of the queue and the oldest bytes of
  the buffer (\<open>CanSerialPort_keeps_newest\<close>).
\<close>

theorem Stm32_port_loopback:
  assumes "\<forall>x \<in> set xs. sendable x" and "length xs \<le> TX_QUEUE_MAX_SIZE"
    and "port = fold (\<lambda>(i, d). Send i d) xs (new_can_port DEV_STM32)" and "CanOnDataSent port = Some port1"
    and "concat (concat turns) = concat (map loopback (serial_out port1))"
    and "\<forall>reads \<in> set turns. length (concat reads) \<le> RX_CIRCBUFF_SIZE"
  shows "\<exists>port2. receive_turns turns port1 = Some port2 \<and>
    listener_events port2 = listener_events port1 @ map (\<lambda>(i, d). FrameReceived i d) xs"
proof -
  have "length xs \<le> 100" using assms(2) by (simp add: TX_QUEUE_MAX_SIZE_def)
  note out = Stm32_port_sends [OF assms(1) this assms(3,4)]
  let ?recs = "map (\<lambda>x. loopback (the (EncodeStm32 (to_frame x)))) xs"
  have "list_all2 stm32_genuine ?recs (map to_frame xs)"
  proof -
    have "stm32_genuine (loopback (the (EncodeStm32 (to_frame x)))) (to_frame x)" if "x \<in> set xs" for x
      using sendable_encodes(1) [of x] assms(1) that by (intro loopback_genuine) auto
    then show ?thesis by (simp add: list_all2_conv_all_nth)
  qed
  then have "fst (stm32_scan (concat (map2 (@) (replicate (length xs) []) ?recs) @ [])) =
      map to_frame xs @ fst (stm32_scan [])"
    by (rule stm32_scan_stream) simp_all
  moreover have "length ys = n \<Longrightarrow> concat (map2 (@) (replicate n []) ys) = concat ys" for n and ys :: "bytes list"
    by (induction ys arbitrary: n) auto
  moreover have "concat (map concat turns) = concat ?recs" using assms(5) out by (simp add: comp_def concat_map_concat)
  moreover have scan0: "stm32_scan [] = ([], [])" by (simp add: stm32_scan.simps)
  ultimately have "fst (feed_all Stm32Feed [] (map concat turns)) = map to_frame xs"
    using Stm32_feed_all [of "[]" "map concat turns"] by (simp add: Stm32Feed_def)
  moreover have "received_events (map to_frame xs) = map (\<lambda>(i, d). FrameReceived i d) xs"
    by (auto simp: to_frame_def)
  ultimately show ?thesis
    using receive_turns_Stm32 [of port1 "[]" turns] out assms(6) by simp
qed

theorem Stm32_port_loopback_witness:
  "let w = loopback (the (EncodeStm32 (to_frame (1, [7])))) in
   \<exists>port1 port2. CanOnDataSent (fold (\<lambda>(i, d). Send i d) [(1, [7])] (new_can_port DEV_STM32)) = Some port1 \<and>
     receive_turns [[take 5 w, drop 5 w]] port1 = Some port2 \<and>
     listener_events port2 = listener_events port1 @ [FrameReceived 1 [7]]"
proof -
  let ?port = "fold (\<lambda>(i, d). Send i d) [(1, [7])] (new_can_port DEV_STM32)"
  have ok: "\<forall>x \<in> set [(1 :: u32, [7 :: u8])]. sendable x" by (simp add: sendable_def)
  have p: "m_TxQueue ?port = [new_can_data 1 1 [7]]" "m_Device ?port = Stm32_device []" "m_CircBuff ?port = []"
    by (simp_all add: Send_def AddToTxQueue_def new_can_port_def CreateDevice_def MAX_CAN_FRAME_DATA_LEN_def
        TX_QUEUE_MAX_SIZE_def)
  then have "SendPendingCanFrames ?port \<noteq> None"
    unfolding SendPendingCanFrames_returns_iff by (simp add: new_can_data_def)
  then obtain port1 where s: "CanOnDataSent ?port = Some port1"
    using Stm32_idle_OnDataSent [OF p(2,3)] by auto
  have out: "serial_out port1 = [the (EncodeStm32 (to_frame (1, [7])))]"
    using Stm32_port_sends [OF ok _ refl s] by simp
  let ?w = "loopback (the (EncodeStm32 (to_frame (1, [7]))))"
  have "length ?w \<le> 1024" by (simp add: loopback_def Let_def)
  with Stm32_port_loopback [OF ok _ refl s, of "[[take 5 ?w, drop 5 ?w]]"] s out
  show ?thesis
    by (simp add: RX_CIRCBUFF_SIZE_def TX_QUEUE_MAX_SIZE_def Let_def)
qed

end
