(* ===== verification/CanHandler.thy ===== *)
theory CanHandler
  imports CanTransport
begin

text \<open>
  The CAN entry handler: the transmit list and its scheduler, the cache of received frames,
  the frame recording and the observers.  Source: \<open>src/CanEntryHandler.cpp\<close>,
  \<open>src/CanEntryHandler.hpp\<close>, \<open>src/CanModels.hpp\<close>, \<open>src/CanFrameLog.hpp\<close>,
  \<open>src/interface/ICanSubscriber.hpp\<close>.  Time points are integers in nanoseconds.  The ISO-TP
  link is the argument \<open>isotp\<close>, a step function from the link's state and one frame to the
  message completed by it, if any, and the new state; the theory \<open>IsoTpTransfer\<close> instantiates
  it with the program's own endpoint.  What
  the handler tells its transport, its event sink and its observers is recorded in order.
\<close>

section \<open>Entries and the recording\<close>

record tx_entry =
  te_id :: u32
  te_data :: bytes
  te_last :: int
  te_period :: u32
  te_count :: nat
  te_log_level :: u8
  te_favourite_level :: u8
  te_comment :: string
  te_send :: bool
  te_single_shot :: bool

definition new_tx_entry :: tx_entry where
  "new_tx_entry = \<lparr>te_id = 0, te_data = [], te_last = 0, te_period = 0, te_count = 0, te_log_level = 0,
     te_favourite_level = 0, te_comment = [], te_send = False, te_single_shot = False\<rparr>"

definition Duplicate :: "tx_entry \<Rightarrow> tx_entry" where
  "Duplicate e = e\<lparr>te_id := te_id e + 1, te_count := 0, te_last := 0, te_send := False, te_single_shot := False\<rparr>"

record rx_data =
  rx_bytes :: bytes
  rx_last :: int
  rx_period :: u32
  rx_count :: nat
  rx_log_level :: u8

definition CAN_LOG_DIR_TX :: nat where "CAN_LOG_DIR_TX = 0"
definition CAN_LOG_DIR_RX :: nat where "CAN_LOG_DIR_RX = 1"

record can_log_entry =
  cl_frame_id :: u32
  cl_direction :: nat
  cl_data :: bytes
  cl_last :: int

definition new_can_log_entry :: "nat \<Rightarrow> u32 \<Rightarrow> bytes \<Rightarrow> int \<Rightarrow> can_log_entry" where
  "new_can_log_entry dir fid data timepoint =
     \<lparr>cl_frame_id = fid AND 0x1FFFFFFF, cl_direction = dir mod 2, cl_data = data, cl_last = timepoint\<rparr>"

record can_frame_log =
  fl_entries :: "can_log_entry list"
  fl_start :: int
  fl_recording :: bool

definition fl_Append :: "can_log_entry \<Rightarrow> can_frame_log \<Rightarrow> can_frame_log" where
  "fl_Append e l = l\<lparr>fl_entries := fl_entries l @ [e]\<rparr>"

definition fl_Clear :: "can_frame_log \<Rightarrow> can_frame_log" where
  "fl_Clear l = l\<lparr>fl_entries := []\<rparr>"

definition fl_SetRecording :: "bool \<Rightarrow> can_frame_log \<Rightarrow> can_frame_log" where
  "fl_SetRecording r l = l\<lparr>fl_recording := r\<rparr>"

section \<open>The handler\<close>

datatype can_notice =
  Transmitted u32 nat
| OnBus nat u32 bytes
| IsoTpData nat u32 bytes

record 'l can_handler =
  ch_entries :: "tx_entry list"
  ch_rx :: "u32 \<Rightarrow> rx_data option"
  ch_comments :: "u32 \<Rightarrow> string option"
  ch_log_levels :: "u32 \<Rightarrow> u8 option"
  ch_log :: can_frame_log
  ch_tx_count :: u64
  ch_rx_count :: u64
  ch_recording_level :: u8
  ch_auto_send :: bool
  ch_auto_record :: bool
  ch_response_id :: u32
  ch_link :: 'l
  ch_observers :: "nat list"
  ch_notices :: "can_notice list"

subsection \<open>Observers\<close>

definition RegisterObserver :: "nat \<Rightarrow> 'l can_handler \<Rightarrow> 'l can_handler" where
  "RegisterObserver ob h =
     (if ob \<in> set (ch_observers h) then h else h\<lparr>ch_observers := ch_observers h @ [ob]\<rparr>)"

definition UnregisterObserver :: "nat \<Rightarrow> 'l can_handler \<Rightarrow> 'l can_handler" where
  "UnregisterObserver ob h = h\<lparr>ch_observers := filter (\<lambda>x. x \<noteq> ob) (ch_observers h)\<rparr>"

definition NotifyFrameOnBus :: "u32 \<Rightarrow> bytes \<Rightarrow> 'l can_handler \<Rightarrow> 'l can_handler" where
  "NotifyFrameOnBus fid data h =
     h\<lparr>ch_notices := ch_notices h @ map (\<lambda>ob. OnBus ob fid data) (ch_observers h)\<rparr>"

definition NotifyIsoTpData :: "u32 \<Rightarrow> bytes \<Rightarrow> 'l can_handler \<Rightarrow> 'l can_handler" where
  "NotifyIsoTpData fid data h =
     h\<lparr>ch_notices := ch_notices h @ map (\<lambda>ob. IsoTpData ob fid data) (ch_observers h)\<rparr>"

subsection \<open>The transmit side\<close>

text \<open>\<open>std::chrono::duration_cast\<close> truncates towards zero.\<close>

definition trunc_div :: "int \<Rightarrow> int \<Rightarrow> int" where
  "trunc_div a b = (if a < 0 then - ((- a) div b) else a div b)"

definition ms_between :: "int \<Rightarrow> int \<Rightarrow> int" where
  "ms_between later earlier = trunc_div (later - earlier) 1000000"

text \<open>One turn of the worker's loop over the entries.  \<open>time_now\<close> is the clock read before
  it, \<open>stamp i\<close> the reading taken when entry \<open>i\<close> is found due.\<close>

definition wants_service :: "tx_entry \<Rightarrow> bool" where
  "wants_service e \<longleftrightarrow> (te_period e \<noteq> 0 \<and> te_send e) \<or> te_single_shot e"

definition service_entry :: "int \<Rightarrow> int \<Rightarrow> tx_entry \<Rightarrow> (u32 \<times> bytes) list \<times> tx_entry" where
  "service_entry time_now stamp e =
     (if \<not> wants_service e then ([], e)
      else if te_single_shot e then ([(te_id e, te_data e)], e\<lparr>te_single_shot := False\<rparr>)
      else if int (unat (te_period e)) * 1000000 < time_now - te_last e
        then ([(te_id e, te_data e)], e\<lparr>te_last := stamp\<rparr>)
      else ([], e))"

fun collect_due :: "int \<Rightarrow> (nat \<Rightarrow> int) \<Rightarrow> nat \<Rightarrow> tx_entry list \<Rightarrow> (u32 \<times> bytes) list \<times> tx_entry list" where
  "collect_due time_now stamp i [] = ([], [])"
| "collect_due time_now stamp i (e # es) =
     (let (due, e') = service_entry time_now (stamp i) e; (rest, es') = collect_due time_now stamp (Suc i) es
      in (due @ rest, e' # es'))"

definition worker_turn :: "int \<Rightarrow> (nat \<Rightarrow> int) \<Rightarrow> 'l can_handler \<Rightarrow> (u32 \<times> bytes) list \<times> 'l can_handler" where
  "worker_turn time_now stamp h =
     (let (due, es) = collect_due time_now stamp 0 (ch_entries h) in (due, h\<lparr>ch_entries := es\<rparr>))"

fun update_first :: "('a \<Rightarrow> bool) \<Rightarrow> ('a \<Rightarrow> 'a) \<Rightarrow> 'a list \<Rightarrow> 'a list" where
  "update_first P f [] = []"
| "update_first P f (x # xs) = (if P x then f x # xs else x # update_first P f xs)"

definition append_log :: "can_log_entry \<Rightarrow> 'l can_handler \<Rightarrow> 'l can_handler" where
  "append_log e h = h\<lparr>ch_log := fl_Append e (ch_log h)\<rparr>"

definition OnFrameSent :: "int \<Rightarrow> u32 \<Rightarrow> bytes \<Rightarrow> 'l can_handler \<Rightarrow> 'l can_handler" where
  "OnFrameSent time_now fid data h =
     (let recording = fl_recording (ch_log h);
          h1 =
            (case find (\<lambda>e. te_id e = fid) (ch_entries h) of
               None \<Rightarrow>
                 if recording then append_log (new_can_log_entry CAN_LOG_DIR_TX fid data time_now) h else h
             | Some i \<Rightarrow>
                 let i1 = i\<lparr>te_count := te_count i + 1\<rparr>;
                     logged = recording \<and> ch_recording_level h \<le> te_log_level i1;
                     i2 = (if logged \<and> te_period i1 = 0 \<and> \<not> te_single_shot i1
                           then i1\<lparr>te_last := time_now\<rparr> else i1);
                     g = h\<lparr>ch_entries := update_first (\<lambda>e. te_id e = fid) (\<lambda>_. i2) (ch_entries h),
                           ch_notices := ch_notices h @ [Transmitted fid (te_count i1)]\<rparr>
                 in if logged then append_log (new_can_log_entry CAN_LOG_DIR_TX fid data (te_last i2)) g else g);
          h2 = NotifyFrameOnBus fid data h1
      in h2\<lparr>ch_tx_count := ch_tx_count h2 + 1\<rparr>)"

subsection \<open>The receive side\<close>

definition OnFrameReceived ::
    "('l \<Rightarrow> bytes \<Rightarrow> bytes option \<times> 'l) \<Rightarrow> int \<Rightarrow> u32 \<Rightarrow> bytes \<Rightarrow> 'l can_handler \<Rightarrow> 'l can_handler" where
  "OnFrameReceived isotp time_now fid data h =
     (let rx0 =
            (case ch_rx h fid of
               None \<Rightarrow> \<lparr>rx_bytes = data, rx_last = 0, rx_period = 0, rx_count = 1, rx_log_level = 0\<rparr>
             | Some rx \<Rightarrow>
                 rx\<lparr>rx_bytes := data, rx_period := word_of_int (ms_between time_now (rx_last rx)),
                    rx_count := rx_count rx + 1\<rparr>);
          rx = rx0\<lparr>rx_last := time_now,
                   rx_log_level := (case ch_log_levels h fid of Some l \<Rightarrow> l | None \<Rightarrow> 1)\<rparr>;
          h1 = h\<lparr>ch_rx := (ch_rx h)(fid \<mapsto> rx), ch_rx_count := ch_rx_count h + 1\<rparr>;
          h2 = (if fl_recording (ch_log h1) \<and> ch_recording_level h1 \<le> rx_log_level rx
                then append_log (new_can_log_entry CAN_LOG_DIR_RX fid data time_now) h1 else h1);
          h3 = (if fid = ch_response_id h2 then
                  let (message, link) = isotp (ch_link h2) data; g = h2\<lparr>ch_link := link\<rparr>
                  in case message of None \<Rightarrow> g | Some m \<Rightarrow> NotifyIsoTpData fid m g
                else h2)
      in NotifyFrameOnBus fid data h3)"

subsection \<open>Editing the lists\<close>

definition kNewTxEntryDefaultId :: u32 where "kNewTxEntryDefaultId = 0x123"

partial_function (option) free_id :: "u32 list \<Rightarrow> u32 \<Rightarrow> u32 option" where
  "free_id ids x = (if x \<in> set ids then free_id ids (x + 1) else Some x)"

definition InsertDefaultTxEntryAfter :: "nat \<Rightarrow> 'l can_handler \<Rightarrow> (u32 \<times> 'l can_handler) option" where
  "InsertDefaultTxEntryAfter index h =
     map_option (\<lambda>chosen.
       let entry = new_tx_entry\<lparr>te_data := replicate 8 0, te_id := chosen\<rparr>;
           position = min index (length (ch_entries h))
       in (chosen, h\<lparr>ch_entries := take position (ch_entries h) @ [entry] @ drop position (ch_entries h)\<rparr>))
     (free_id (map te_id (ch_entries h)) kNewTxEntryDefaultId)"

definition DuplicateFirstTxEntry :: "u32 \<Rightarrow> 'l can_handler \<Rightarrow> bool \<times> 'l can_handler" where
  "DuplicateFirstTxEntry fid h =
     (case find (\<lambda>e. te_id e = fid) (ch_entries h) of
        None \<Rightarrow> (False, h)
      | Some e \<Rightarrow> (True, h\<lparr>ch_entries := ch_entries h @ [Duplicate e]\<rparr>))"

definition RemoveTxEntries :: "u32 \<Rightarrow> 'l can_handler \<Rightarrow> 'l can_handler" where
  "RemoveTxEntries fid h = h\<lparr>ch_entries := filter (\<lambda>e. te_id e \<noteq> fid) (ch_entries h)\<rparr>"

definition RotateTxFrontToBack :: "'l can_handler \<Rightarrow> 'l can_handler" where
  "RotateTxFrontToBack h =
     (if ch_entries h = [] then h else h\<lparr>ch_entries := tl (ch_entries h) @ [hd (ch_entries h)]\<rparr>)"

definition RotateTxBackToFront :: "'l can_handler \<Rightarrow> 'l can_handler" where
  "RotateTxBackToFront h =
     (if ch_entries h = [] then h else h\<lparr>ch_entries := List.last (ch_entries h) # butlast (ch_entries h)\<rparr>)"

fun find_index :: "('a \<Rightarrow> bool) \<Rightarrow> 'a list \<Rightarrow> nat option" where
  "find_index P [] = None"
| "find_index P (x # xs) = (if P x then Some 0 else map_option Suc (find_index P xs))"

definition SwapTxEntriesById :: "u32 \<Rightarrow> u32 \<Rightarrow> 'l can_handler \<Rightarrow> nat option \<times> 'l can_handler" where
  "SwapTxEntriesById fid other h =
     (let es = ch_entries h in
      case (find_index (\<lambda>e. te_id e = fid) es, find_index (\<lambda>e. te_id e = other) es) of
        (Some i, Some j) \<Rightarrow> (Some j, h\<lparr>ch_entries := es[i := es ! j, j := es ! i]\<rparr>)
      | _ \<Rightarrow> (None, h))"

definition ClearRxData :: "'l can_handler \<Rightarrow> 'l can_handler" where
  "ClearRxData h = h\<lparr>ch_rx := Map.empty\<rparr>"

definition EraseRxData :: "u32 \<Rightarrow> 'l can_handler \<Rightarrow> 'l can_handler" where
  "EraseRxData fid h = h\<lparr>ch_rx := (ch_rx h)(fid := None)\<rparr>"

definition CanToggleAutoSend :: "bool \<Rightarrow> 'l can_handler \<Rightarrow> 'l can_handler" where
  "CanToggleAutoSend t h = h\<lparr>ch_auto_send := t\<rparr>"

definition CanStartRecording :: "'l can_handler \<Rightarrow> 'l can_handler" where
  "CanStartRecording h = h\<lparr>ch_log := fl_SetRecording True (ch_log h)\<rparr>"

definition CanPauseRecording :: "'l can_handler \<Rightarrow> 'l can_handler" where
  "CanPauseRecording h = h\<lparr>ch_log := fl_SetRecording False (ch_log h)\<rparr>"

definition CanStopRecording :: "'l can_handler \<Rightarrow> 'l can_handler" where
  "CanStopRecording h =
     h\<lparr>ch_log := fl_Clear (fl_SetRecording False (ch_log h)), ch_tx_count := 0, ch_rx_count := 0\<rparr>"

definition CanClearRecording :: "'l can_handler \<Rightarrow> 'l can_handler" where
  "CanClearRecording h = h\<lparr>ch_log := fl_Clear (ch_log h), ch_tx_count := 0, ch_rx_count := 0\<rparr>"

text \<open>What the entry loader returns and leaves in the emptied list are the arguments \<open>ret\<close>
  and \<open>es\<close>.\<close>

definition LoadTxList :: "bool \<Rightarrow> tx_entry list \<Rightarrow> 'l can_handler \<Rightarrow> bool \<times> 'l can_handler" where
  "LoadTxList ret es h =
     (ret,
      if ret then
        h\<lparr>ch_entries := (if ch_auto_send h then map (\<lambda>e. e\<lparr>te_single_shot := False, te_send := True\<rparr>) es else es),
          ch_log := fl_SetRecording (ch_auto_record h) (ch_log h)\<rparr>
      else h\<lparr>ch_entries := es\<rparr>)"

definition FindTxCanEntryByFrame :: "u32 \<Rightarrow> 'l can_handler \<Rightarrow> tx_entry option" where
  "FindTxCanEntryByFrame fid h = find (\<lambda>e. te_id e = fid) (ch_entries h)"

definition AssignNewBufferToTxEntry :: "u32 \<Rightarrow> bytes \<Rightarrow> 'l can_handler \<Rightarrow> 'l can_handler" where
  "AssignNewBufferToTxEntry fid buffer h =
     h\<lparr>ch_entries := update_first (\<lambda>e. te_id e = fid) (\<lambda>e. e\<lparr>te_data := buffer\<rparr>) (ch_entries h)\<rparr>"

definition CommentForFrame :: "can_log_entry \<Rightarrow> 'l can_handler \<Rightarrow> string" where
  "CommentForFrame entry h =
     (if cl_direction entry = CAN_LOG_DIR_TX then
        (case FindTxCanEntryByFrame (cl_frame_id entry) h of Some tx \<Rightarrow> te_comment tx | None \<Rightarrow> [])
      else case ch_comments h (cl_frame_id entry) of Some c \<Rightarrow> c | None \<Rightarrow> [])"

section \<open>The scheduler\<close>

fun worker_turns :: "(int \<times> (nat \<Rightarrow> int)) list \<Rightarrow> 'l can_handler \<Rightarrow> (u32 \<times> bytes) list \<times> 'l can_handler" where
  "worker_turns [] h = ([], h)"
| "worker_turns ((t, stamp) # ts) h =
     (let (due, h') = worker_turn t stamp h; (rest, h'') = worker_turns ts h' in (due @ rest, h''))"

text \<open>The clock is read in this order: the turn's reading, then the stamps of the turn, then
  the next turn; \<open>last\<close> bounds the turns' readings.\<close>

fun clock_ordered :: "(int \<times> (nat \<Rightarrow> int)) list \<Rightarrow> int \<Rightarrow> bool" where
  "clock_ordered [] until \<longleftrightarrow> True"
| "clock_ordered ((t, stamp) # ts) until \<longleftrightarrow> t \<le> until \<and> (\<forall>i. t \<le> stamp i) \<and> clock_ordered ts until"

lemma service_entry_fields [simp]:
  "te_id (snd (service_entry t s e)) = te_id e" "te_period (snd (service_entry t s e)) = te_period e"
  "te_single_shot e = False \<Longrightarrow> te_single_shot (snd (service_entry t s e)) = False"
  by (auto simp: service_entry_def)

lemma collect_due_ids: "map te_id (snd (collect_due t s k es)) = map te_id es"
  by (induction es arbitrary: k) (auto simp: case_prod_unfold Let_def)

lemma service_due_id: "x \<in> set (fst (service_entry t s e)) \<Longrightarrow> fst x = te_id e"
  by (auto simp: service_entry_def split: if_splits)

lemma collect_due_id: "x \<in> set (fst (collect_due t s k es)) \<Longrightarrow> fst x \<in> te_id ` set es"
  by (induction es arbitrary: k) (auto simp: case_prod_unfold Let_def dest: service_due_id)

lemma collect_due_at:
  assumes "distinct (map te_id es)" and "i < length es"
  shows "filter (\<lambda>x. fst x = te_id (es ! i)) (fst (collect_due t s k es)) = fst (service_entry t (s (k + i)) (es ! i)) \<and>
    snd (collect_due t s k es) ! i = snd (service_entry t (s (k + i)) (es ! i)) \<and>
    length (snd (collect_due t s k es)) = length es"
  using assms
proof (induction es arbitrary: k i)
  case Nil
  then show ?case by simp
next
  case (Cons e es)
  let ?r = "collect_due t s (Suc k) es"
  have len: "length (snd ?r) = length es" by (metis collect_due_ids length_map)
  have head: "filter (\<lambda>x. fst x = te_id e) (fst (service_entry t (s k) e)) = fst (service_entry t (s k) e)"
    by (rule filter_True) (auto dest: service_due_id)
  have tail: "filter (\<lambda>x. fst x = te_id e) (fst ?r) = []"
    using Cons.prems(1) collect_due_id [of _ t s "Suc k" es] by (force simp: filter_empty_conv)
  show ?case
  proof (cases i)
    case 0
    then show ?thesis using head tail len by (simp add: case_prod_unfold Let_def)
  next
    case (Suc j)
    have j: "j < length es" using Cons.prems(2) Suc by simp
    then have "te_id e \<noteq> te_id (es ! j)" using Cons.prems(1) by (metis distinct.simps(2) image_set list.map(2) nth_mem rev_image_eqI)
    then have "filter (\<lambda>x. fst x = te_id (es ! j)) (fst (service_entry t (s k) e)) = []"
      by (auto simp: filter_empty_conv dest!: service_due_id)
    with Cons.IH [of j "Suc k"] Cons.prems(1) j len Suc show ?thesis by (simp add: case_prod_unfold Let_def)
  qed
qed

lemma worker_turns_at:
  assumes "distinct (map te_id (ch_entries h))" and "i < length (ch_entries h)"
    and "\<not> te_single_shot (ch_entries h ! i)" and "clock_ordered ts until"
    and "n = length (filter (\<lambda>x. fst x = te_id (ch_entries h ! i)) (fst (worker_turns ts h)))" and "0 < n"
  shows "int n * (int (unat (te_period (ch_entries h ! i))) * 1000000) < until - te_last (ch_entries h ! i)"
  using assms
proof (induction ts arbitrary: h n)
  case Nil
  then show ?case by simp
next
  case (Cons a ts)
  obtain t s where a: "a = (t, s)" by (cases a)
  let ?e = "ch_entries h ! i"
  let ?P = "int (unat (te_period ?e)) * 1000000"
  let ?h = "snd (worker_turn t s h)"
  let ?e' = "ch_entries ?h ! i"
  let ?m = "length (filter (\<lambda>x. fst x = te_id ?e) (fst (worker_turns ts ?h)))"
  have turn: "fst (worker_turn t s h) = fst (collect_due t s 0 (ch_entries h))"
    "ch_entries ?h = snd (collect_due t s 0 (ch_entries h))"
    by (simp_all add: worker_turn_def case_prod_unfold Let_def)
  note at = collect_due_at [OF Cons.prems(1,2), of t s 0]
  have e': "?e' = snd (service_entry t (s i) ?e)" and len: "length (ch_entries ?h) = length (ch_entries h)"
    using at turn by simp_all
  have n: "n = length (fst (service_entry t (s i) ?e)) + ?m"
    using Cons.prems(5) at turn by (simp add: a case_prod_unfold Let_def)
  have dist: "distinct (map te_id (ch_entries ?h))"
    unfolding turn(2) collect_due_ids by (rule Cons.prems(1))
  have ord: "clock_ordered ts until" "t \<le> until" "t \<le> s i" using Cons.prems(4) a by auto
  have ih: "0 < ?m \<Longrightarrow> int ?m * ?P < until - te_last ?e'"
    using Cons.IH [OF dist, of ?m] Cons.prems(2,3) ord(1) len by (simp add: e')
  show ?case
  proof (cases "fst (service_entry t (s i) ?e) = []")
    case True
    then have "te_last ?e' = te_last ?e" using Cons.prems(3) e'
      by (auto simp: service_entry_def split: if_splits)
    with True n ih Cons.prems(6) show ?thesis by simp
  next
    case False
    then have due: "?P < t - te_last ?e" "te_last ?e' = s i" "length (fst (service_entry t (s i) ?e)) = 1"
      using Cons.prems(3) e' by (auto simp: service_entry_def split: if_splits)
    show ?thesis
    proof (cases "?m = 0")
      case True
      with due n ord(2) show ?thesis by simp
    next
      case False
      with ih due(2) have "int ?m * ?P < until - s i" by simp
      then have "(int ?m + 1) * ?P < until - te_last ?e"
        using due(1) ord(3) by (simp only: distrib_right mult_1)
      with n due(3) show ?thesis by (simp add: add.commute)
    qed
  qed
qed

text \<open>
  C14: whatever the worker's turns, a periodic entry is never sent faster than its period: if
  it is sent \<open>n\<close> times by the time \<open>until\<close>, then \<open>n\<close> full periods fit between its last
  execution before those turns and \<open>until\<close>.
\<close>

theorem worker_rate_limited:
  assumes "distinct (map te_id (ch_entries h))" and "e \<in> set (ch_entries h)" and "\<not> te_single_shot e"
    and "clock_ordered ts until"
    and "n = length (filter (\<lambda>x. fst x = te_id e) (fst (worker_turns ts h)))" and "0 < n"
  shows "int n * (int (unat (te_period e)) * 1000000) < until - te_last e"
proof -
  from assms(2) obtain i where "i < length (ch_entries h)" "ch_entries h ! i = e"
    by (auto simp: in_set_conv_nth)
  with worker_turns_at [OF assms(1), of i ts until n] assms(3-) show ?thesis by simp
qed

definition empty_can_handler :: "unit can_handler" where
  "empty_can_handler = \<lparr>ch_entries = [], ch_rx = Map.empty, ch_comments = Map.empty, ch_log_levels = Map.empty,
     ch_log = \<lparr>fl_entries = [], fl_start = 0, fl_recording = False\<rparr>, ch_tx_count = 0, ch_rx_count = 0,
     ch_recording_level = 1, ch_auto_send = False, ch_auto_record = False, ch_response_id = 0x7DA, ch_link = (),
     ch_observers = [], ch_notices = []\<rparr>"

theorem worker_rate_limited_witness:
  "let h = empty_can_handler\<lparr>ch_entries := [new_tx_entry\<lparr>te_period := 1, te_send := True\<rparr>]\<rparr>;
       ts = [(1000001, \<lambda>_. 1000002), (3000000, \<lambda>_. 3000000)];
       n = length (filter (\<lambda>x. fst x = 0) (fst (worker_turns ts h)))
   in n = 2 \<and> int n * (int (unat (1 :: u32)) * 1000000) < 3000000 - 0"
proof -
  let ?e = "new_tx_entry\<lparr>te_period := 1, te_send := True\<rparr>"
  let ?h = "empty_can_handler\<lparr>ch_entries := [?e]\<rparr>"
  let ?ts = "[(1000001, \<lambda>_. 1000002), (3000000, \<lambda>_. 3000000)] :: (int \<times> (nat \<Rightarrow> int)) list"
  have n: "2 = length (filter (\<lambda>x. fst x = te_id ?e) (fst (worker_turns ?ts ?h)))"
    by (simp add: worker_turn_def service_entry_def wants_service_def new_tx_entry_def empty_can_handler_def)
  have "int 2 * (int (unat (te_period ?e)) * 1000000) < 3000000 - te_last ?e"
    by (rule worker_rate_limited [OF _ _ _ _ n]) (simp_all add: empty_can_handler_def new_tx_entry_def)
  with n show ?thesis by (simp add: Let_def new_tx_entry_def)
qed

section \<open>The receive cache\<close>

type_synonym rx_event = "int \<times> u32 \<times> bytes"

definition receive_event :: "('l \<Rightarrow> bytes \<Rightarrow> bytes option \<times> 'l) \<Rightarrow> rx_event \<Rightarrow> 'l can_handler \<Rightarrow> 'l can_handler" where
  "receive_event isotp ev h = OnFrameReceived isotp (fst ev) (fst (snd ev)) (snd (snd ev)) h"

definition level_of :: "'l can_handler \<Rightarrow> u32 \<Rightarrow> u8" where
  "level_of h fid = (case ch_log_levels h fid of Some l \<Rightarrow> l | None \<Rightarrow> 1)"

text \<open>What the history of one identifier, newest first, amounts to.\<close>

fun rx_summary :: "u8 \<Rightarrow> rx_event list \<Rightarrow> rx_data option" where
  "rx_summary l [] = None"
| "rx_summary l [(t, i, d)] =
     Some \<lparr>rx_bytes = d, rx_last = t, rx_period = 0, rx_count = 1, rx_log_level = l\<rparr>"
| "rx_summary l ((t, i, d) # (t', i', d') # evs) =
     Some \<lparr>rx_bytes = d, rx_last = t, rx_period = word_of_int (ms_between t t'),
           rx_count = length evs + 2, rx_log_level = l\<rparr>"

lemma rx_summary_step:
  "rx_summary l ((t, i, d) # evs) = Some (case rx_summary l evs of
     None \<Rightarrow> \<lparr>rx_bytes = d, rx_last = t, rx_period = 0, rx_count = 1, rx_log_level = l\<rparr>
   | Some rx \<Rightarrow> \<lparr>rx_bytes = d, rx_last = t, rx_period = word_of_int (ms_between t (rx_last rx)),
       rx_count = rx_count rx + 1, rx_log_level = l\<rparr>)"
proof (cases evs)
  case (Cons e es)
  obtain t' i' d' where e: "e = (t', i', d')" by (cases e)
  show ?thesis by (cases es) (auto simp: Cons e)
qed simp

definition log_of :: "'l can_handler \<Rightarrow> rx_event \<Rightarrow> can_log_entry list" where
  "log_of h ev =
     (if fl_recording (ch_log h) \<and> ch_recording_level h \<le> level_of h (fst (snd ev))
      then [new_can_log_entry CAN_LOG_DIR_RX (fst (snd ev)) (snd (snd ev)) (fst ev)] else [])"

definition on_bus :: "can_notice list \<Rightarrow> can_notice list" where
  "on_bus ns = filter (\<lambda>n. case n of OnBus _ _ _ \<Rightarrow> True | _ \<Rightarrow> False) ns"

lemma on_bus_append [simp]: "on_bus (xs @ ys) = on_bus xs @ on_bus ys"
  by (simp add: on_bus_def)

lemma on_bus_maps [simp]:
  "on_bus (map (\<lambda>ob. OnBus ob i d) obs) = map (\<lambda>ob. OnBus ob i d) obs"
  "on_bus (map (\<lambda>ob. IsoTpData ob i d) obs) = []"
  by (simp_all add: on_bus_def filter_map comp_def)

lemma receive_event_fields:
  "ch_rx (receive_event isotp (t, i, d) h) = (ch_rx h)(i \<mapsto>
     (case ch_rx h i of
        None \<Rightarrow> \<lparr>rx_bytes = d, rx_last = t, rx_period = 0, rx_count = 1, rx_log_level = level_of h i\<rparr>
      | Some rx \<Rightarrow> \<lparr>rx_bytes = d, rx_last = t, rx_period = word_of_int (ms_between t (rx_last rx)),
          rx_count = rx_count rx + 1, rx_log_level = level_of h i\<rparr>))"
  "ch_rx_count (receive_event isotp (t, i, d) h) = ch_rx_count h + 1"
  "fl_entries (ch_log (receive_event isotp (t, i, d) h)) = fl_entries (ch_log h) @ log_of h (t, i, d)"
  "fl_recording (ch_log (receive_event isotp (t, i, d) h)) = fl_recording (ch_log h)"
  "ch_log_levels (receive_event isotp (t, i, d) h) = ch_log_levels h"
  "ch_recording_level (receive_event isotp (t, i, d) h) = ch_recording_level h"
  "ch_observers (receive_event isotp (t, i, d) h) = ch_observers h"
  "on_bus (ch_notices (receive_event isotp (t, i, d) h)) =
     on_bus (ch_notices h) @ map (\<lambda>ob. OnBus ob i d) (ch_observers h)"
  by (auto simp: receive_event_def OnFrameReceived_def NotifyFrameOnBus_def NotifyIsoTpData_def append_log_def
      fl_Append_def log_of_def level_of_def Let_def case_prod_unfold split: option.splits)

text \<open>
  C15: the cache of received frames is exactly the history it summarises: from an empty cache,
  after any receptions, an identifier has an entry if and only if it was received, with the
  newest payload and time, the number of receptions and the milliseconds between the last
  two; meanwhile the frame counter advances by one per reception, the recording takes every
  frame at or above the recording level while it runs, and every observer sees every frame,
  in order.
\<close>

theorem receive_history:
  assumes "ch_rx h = Map.empty" and "h' = fold (receive_event isotp) evs h"
  shows "ch_rx h' fid = rx_summary (level_of h fid) (rev (filter (\<lambda>(t, i, d). i = fid) evs)) \<and>
    ch_rx_count h' = ch_rx_count h + word_of_nat (length evs) \<and>
    fl_entries (ch_log h') = fl_entries (ch_log h) @ concat (map (log_of h) evs) \<and>
    on_bus (ch_notices h') = on_bus (ch_notices h) @
      concat (map (\<lambda>(t, i, d). map (\<lambda>ob. OnBus ob i d) (ch_observers h)) evs)"
proof -
  have "ch_rx h' fid = rx_summary (level_of h fid) (rev (filter (\<lambda>(t, i, d). i = fid) evs)) \<and>
    ch_rx_count h' = ch_rx_count h + word_of_nat (length evs) \<and>
    fl_entries (ch_log h') = fl_entries (ch_log h) @ concat (map (log_of h) evs) \<and>
    on_bus (ch_notices h') = on_bus (ch_notices h) @
      concat (map (\<lambda>(t, i, d). map (\<lambda>ob. OnBus ob i d) (ch_observers h)) evs) \<and>
    fl_recording (ch_log h') = fl_recording (ch_log h) \<and> ch_log_levels h' = ch_log_levels h \<and>
    ch_recording_level h' = ch_recording_level h \<and> ch_observers h' = ch_observers h"
    using assms
  proof (induction evs arbitrary: h' rule: rev_induct)
    case Nil
    then show ?case by simp
  next
    case (snoc ev evs)
    obtain t i d where ev: "ev = (t, i, d)" by (cases ev)
    note ih = snoc.IH [OF snoc.prems(1) refl]
    have h': "h' = receive_event isotp (t, i, d) (fold (receive_event isotp) evs h)"
      using snoc.prems(2) ev by simp
    show ?case
      unfolding h' receive_event_fields using ih
      by (auto simp: ev rx_summary_step level_of_def log_of_def split: option.splits)
  qed
  then show ?thesis by blast
qed

theorem receive_history_witness:
  "let h = fold (receive_event (\<lambda>l d. (None, l))) [(1000000, 5, [1]), (3000000, 5, [2, 3])] empty_can_handler
   in ch_rx h 5 = Some \<lparr>rx_bytes = [2, 3], rx_last = 3000000, rx_period = 2, rx_count = 2, rx_log_level = 1\<rparr>"
proof -
  let ?evs = "[(1000000, 5, [1]), (3000000, 5, [2, 3])] :: rx_event list"
  let ?h = "fold (receive_event (\<lambda>l d. (None, l))) ?evs empty_can_handler"
  have "ch_rx ?h 5 = rx_summary (level_of empty_can_handler 5) (rev (filter (\<lambda>(t, i, d). i = 5) ?evs))"
    using receive_history [of empty_can_handler ?h "\<lambda>l d. (None, l)" ?evs 5]
    by (simp add: empty_can_handler_def)
  then show ?thesis
    by (simp add: Let_def level_of_def empty_can_handler_def ms_between_def trunc_div_def)
qed

section \<open>Fresh identifiers\<close>

lemma free_id_found:
  assumes "\<forall>j < k. x + word_of_nat j \<in> set ids" and "x + word_of_nat k \<notin> set ids"
  shows "free_id ids x = Some (x + word_of_nat k)"
  using assms
proof (induction k arbitrary: x)
  case 0
  then show ?case by (subst free_id.simps) simp
next
  case (Suc k)
  have "\<forall>j < k. (x + 1) + word_of_nat j \<in> set ids"
  proof (intro allI impI)
    fix j assume "j < k"
    then have "x + word_of_nat (Suc j) \<in> set ids" using Suc.prems(1) by blast
    then show "(x + 1) + word_of_nat j \<in> set ids" by (simp add: ac_simps)
  qed
  moreover have "(x + 1) + word_of_nat k \<notin> set ids" using Suc.prems(2) by (simp add: ac_simps)
  ultimately have "free_id ids (x + 1) = Some ((x + 1) + word_of_nat k)" by (rule Suc.IH)
  moreover have "x \<in> set ids" using Suc.prems(1) [rule_format, of 0] by simp
  ultimately show ?case by (subst free_id.simps) (simp add: ac_simps)
qed

lemma free_id_exists:
  assumes "length ids < 2 ^ 32"
  shows "\<exists>k. x + word_of_nat k \<notin> set (ids :: u32 list) \<and> (\<forall>j < k. x + word_of_nat j \<in> set ids)"
proof -
  have "\<exists>k. x + word_of_nat k \<notin> set ids"
  proof (rule ccontr)
    assume "\<nexists>k. x + word_of_nat k \<notin> set ids"
    then have all: "x + word_of_nat k \<in> set ids" for k by blast
    let ?f = "\<lambda>k. x + word_of_nat k :: u32"
    have "inj_on ?f {..< 2 ^ 32}"
      by (rule inj_onI) (auto simp: word_of_nat_eq_iff take_bit_nat_eq_self)
    then have "card (?f ` {..< 2 ^ 32}) = 2 ^ 32" by (simp add: card_image)
    moreover have "?f ` {..< 2 ^ 32} \<subseteq> set ids" using all by blast
    ultimately have "2 ^ 32 \<le> card (set ids)" by (metis List.finite_set card_mono)
    also have "\<dots> \<le> length ids" by (rule card_length)
    finally show False using assms by simp
  qed
  then show ?thesis using exists_least_iff [of "\<lambda>k. x + word_of_nat k \<notin> set ids"] by blast
qed

text \<open>
  inserting a default transmit entry returns as long as the list is shorter than the
  identifier space: it picks the first identifier from 0x123 on that no entry has, keeps the
  other entries in order around the new one, and so keeps the identifiers distinct.
\<close>

theorem InsertDefaultTxEntryAfter_fresh:
  assumes "length (ch_entries h) < 2 ^ 32"
  shows "\<exists>chosen h' k pre post. InsertDefaultTxEntryAfter index h = Some (chosen, h') \<and>
    chosen = kNewTxEntryDefaultId + word_of_nat k \<and> chosen \<notin> te_id ` set (ch_entries h) \<and>
    (\<forall>j < k. kNewTxEntryDefaultId + word_of_nat j \<in> te_id ` set (ch_entries h)) \<and>
    ch_entries h = pre @ post \<and> length pre = min index (length (ch_entries h)) \<and>
    ch_entries h' = pre @ [new_tx_entry\<lparr>te_data := replicate 8 0, te_id := chosen\<rparr>] @ post \<and>
    (distinct (map te_id (ch_entries h)) \<longrightarrow> distinct (map te_id (ch_entries h')))"
proof -
  let ?ids = "map te_id (ch_entries h)"
  obtain k where k: "kNewTxEntryDefaultId + word_of_nat k \<notin> set ?ids"
    "\<forall>j < k. kNewTxEntryDefaultId + word_of_nat j \<in> set ?ids"
    using free_id_exists [of ?ids kNewTxEntryDefaultId] assms by auto
  let ?c = "kNewTxEntryDefaultId + word_of_nat k :: u32"
  let ?pos = "min index (length (ch_entries h))"
  let ?pre = "take ?pos (ch_entries h)"
  let ?post = "drop ?pos (ch_entries h)"
  let ?new = "new_tx_entry\<lparr>te_data := replicate 8 0, te_id := ?c\<rparr>"
  have ins: "InsertDefaultTxEntryAfter index h = Some (?c, h\<lparr>ch_entries := ?pre @ [?new] @ ?post\<rparr>)"
    by (simp add: InsertDefaultTxEntryAfter_def free_id_found [OF k(2,1)] Let_def)
  have split: "ch_entries h = ?pre @ ?post" by simp
  have "distinct (map te_id (?pre @ [?new] @ ?post))" if "distinct ?ids"
  proof -
    have "distinct (map te_id ?pre @ map te_id ?post)" using that split by (metis map_append)
    moreover have "?c \<notin> set (map te_id ?pre) \<union> set (map te_id ?post)"
      using k(1) split by (metis map_append set_append)
    ultimately show ?thesis by auto
  qed
  then show ?thesis
    by (intro exI [of _ ?c] exI [of _ "h\<lparr>ch_entries := ?pre @ [?new] @ ?post\<rparr>"] exI [of _ k]
        exI [of _ ?pre] exI [of _ ?post]) (use ins k in \<open>auto simp: min_def\<close>)
qed

theorem InsertDefaultTxEntryAfter_fresh_witness:
  "\<exists>chosen h'. InsertDefaultTxEntryAfter 3 empty_can_handler = Some (chosen, h') \<and> length (ch_entries h') = 1"
  using InsertDefaultTxEntryAfter_fresh [of empty_can_handler 3] by (auto simp: empty_can_handler_def)

section \<open>Moving entries\<close>

lemma rotate_there_and_back: "RotateTxBackToFront (RotateTxFrontToBack h) = h"
  by (cases "ch_entries h") (simp_all add: RotateTxFrontToBack_def RotateTxBackToFront_def)

end

