(* ===== verification/HexText.thy ===== *)
theory HexText
  imports CanCodecs
begin

text \<open>
  Bytes as hexadecimal text, both ways, and the raw UDS script built on them.  Source:
  \<open>src/utils/HexBytes.hpp\<close>, \<open>utils::separate\<close> in \<open>src/Utils.hpp\<close>,
  \<open>utils::ConvertHexBufferToString\<close> in \<open>src/Utils.cpp\<close>, \<open>src/UdsRawScript.hpp\<close>,
  \<open>src/utils/EnumNameTable.hpp\<close>.  \<open>boost::algorithm::hex\<close> is not part of the repository:
  it is the argument \<open>hex\<close>, and \<open>hex_documented\<close> is what its documentation says of it.
\<close>

section \<open>Parsing hexadecimal text\<close>

definition StripHexSeparators :: "string \<Rightarrow> string" where
  "StripHexSeparators text = filter (\<lambda>c. c \<noteq> CHR '' '' \<and> c \<noteq> CHR ''.'') text"

definition HexDigit :: "char \<Rightarrow> u8 option" where
  "HexDigit c =
     (let n = of_char c :: nat in
      if 48 \<le> n \<and> n \<le> 57 then Some (word_of_nat (n - 48))
      else if 97 \<le> n \<and> n \<le> 102 then Some (word_of_nat (n - 97 + 10))
      else if 65 \<le> n \<and> n \<le> 70 then Some (word_of_nat (n - 65 + 10))
      else None)"

text \<open>The loop reads the digits in pairs; their number is even.\<close>

fun decode_pairs :: "string \<Rightarrow> bytes option" where
  "decode_pairs (a # b # digits) =
     (case (HexDigit a, HexDigit b) of
        (Some high, Some low) \<Rightarrow> map_option (Cons (push_bit 4 high OR low)) (decode_pairs digits)
      | _ \<Rightarrow> None)"
| "decode_pairs _ = Some []"

definition ParseHexBytes :: "string \<Rightarrow> nat \<Rightarrow> bytes option" where
  "ParseHexBytes text max_bytes =
     (let digits = StripHexSeparators text in
      if digits = [] \<or> length digits mod 2 \<noteq> 0 then None
      else decode_pairs (if max_bytes * 2 < length digits then take (max_bytes * 2) digits else digits))"

section \<open>Printing bytes\<close>

function separate :: "nat \<Rightarrow> char \<Rightarrow> string \<Rightarrow> string" where
  "separate num sep input =
     (if num + 1 \<le> length input \<and> 0 < num then take num input @ sep # separate num sep (drop num input) else input)"
  by pat_completeness auto
termination by (relation "measure (\<lambda>(_, _, s). length s)") auto

declare separate.simps [simp del]

definition ConvertHexBufferToString :: "(bytes \<Rightarrow> string) \<Rightarrow> bytes \<Rightarrow> string" where
  "ConvertHexBufferToString hex data = separate 2 CHR '' '' (hex data)"

definition hex_pair :: "u8 \<Rightarrow> string" where
  "hex_pair b = [hex_digits ! unat (drop_bit 4 b), hex_digits ! unat (b AND 0x0F)]"

definition hex_documented :: "(bytes \<Rightarrow> string) \<Rightarrow> bool" where
  "hex_documented hex \<longleftrightarrow> (\<forall>data. hex data = concat (map hex_pair data))"

subsection \<open>Round trip\<close>

lemma HexDigit_upper: "d < 16 \<Longrightarrow> HexDigit (hex_digits ! d) = Some (word_of_nat d)"
  by (elim less16E) (simp_all add: HexDigit_def hex_digits_def Let_def)

lemma hex_digits_not_sep: "d < 16 \<Longrightarrow> hex_digits ! d \<noteq> CHR '' '' \<and> hex_digits ! d \<noteq> CHR ''.''"
  by (elim less16E) (simp_all add: hex_digits_def)

lemma nibbles_join: "(push_bit 4 (word_of_nat (unat (drop_bit 4 b))) OR word_of_nat (unat (b AND 0x0F)) :: u8) = b"
proof (rule bit_word_eqI)
  have m: "(0x0F :: u8) = mask 4" by (simp add: mask_eq_exp_minus_1)
  fix n assume "n < LENGTH(8)"
  then show "bit (push_bit 4 (word_of_nat (unat (drop_bit 4 b))) OR word_of_nat (unat (b AND 0x0F)) :: u8) n = bit b n"
    by (cases "n < 4") (auto simp: m bit_simps dest: bit_imp_le_length)
qed

lemma decode_hex_pairs: "decode_pairs (concat (map hex_pair data)) = Some data"
  by (induction data)
    (simp_all add: hex_pair_def HexDigit_upper unat_nibble_high unat_nibble_low nibbles_join [simplified])

lemma separate_pairs:
  "separate 2 CHR '' '' (concat (map hex_pair data)) =
     (case data of [] \<Rightarrow> [] | b # bs \<Rightarrow> hex_pair b @ concat (map (\<lambda>b. CHR '' '' # hex_pair b) bs))"
proof (induction data)
  case Nil
  then show ?case by (simp add: separate.simps)
next
  case (Cons b bs)
  have step: "separate 2 CHR '' '' (hex_pair b @ rest) =
      (if rest = [] then hex_pair b else hex_pair b @ CHR '' '' # separate 2 CHR '' '' rest)" for rest
    by (subst separate.simps) (cases rest, simp_all add: hex_pair_def)
  have ne: "hex_pair c \<noteq> []" for c by (simp add: hex_pair_def)
  from Cons step [of "[]"] show ?case by (cases bs) (simp_all add: step ne)
qed

lemma strip_pair [simp]: "filter (\<lambda>c. c \<noteq> CHR '' '' \<and> c \<noteq> CHR ''.'') (hex_pair b) = hex_pair b"
  by (simp add: hex_pair_def hex_digits_not_sep unat_nibble_high unat_nibble_low)

lemma strip_separated:
  "StripHexSeparators (separate 2 CHR '' '' (concat (map hex_pair data))) = concat (map hex_pair data)"
  unfolding separate_pairs by (cases data) (simp_all add: StripHexSeparators_def filter_concat comp_def)

lemma length_hex_pairs: "length (concat (map hex_pair data)) = 2 * length data"
  by (induction data) (simp_all add: hex_pair_def)

lemma take_hex_pairs: "take (n * 2) (concat (map hex_pair data)) = concat (map hex_pair (take n data))"
proof (induction data arbitrary: n)
  case (Cons b data)
  then show ?case by (cases n) (simp_all add: hex_pair_def)
qed simp

text \<open>
  the text the program prints for bytes reads back as those bytes, cut to the limit the
  reader was given; only the empty buffer prints as text that is refused.
\<close>

theorem hex_text_roundtrip:
  assumes "hex_documented hex"
  shows "ParseHexBytes (ConvertHexBufferToString hex data) max_bytes =
    (if data = [] then None else Some (take max_bytes data))"
proof -
  let ?h = "concat (map hex_pair data)"
  have strip: "StripHexSeparators (ConvertHexBufferToString hex data) = ?h"
    using assms by (simp add: ConvertHexBufferToString_def hex_documented_def strip_separated)
  have nil: "?h = [] \<longleftrightarrow> data = []" by (cases data) (simp_all add: hex_pair_def)
  have cut: "(if max_bytes * 2 < length ?h then take (max_bytes * 2) ?h else ?h) = concat (map hex_pair (take max_bytes data))"
    using take_hex_pairs [of max_bytes data] by (simp add: length_hex_pairs)
  show ?thesis
    unfolding ParseHexBytes_def strip Let_def cut decode_hex_pairs by (simp add: nil length_hex_pairs del: concat_eq_Nil_conv)
qed

theorem hex_text_roundtrip_witness:
  "ParseHexBytes (ConvertHexBufferToString (\<lambda>data. concat (map hex_pair data)) [0x0A, 0xFF]) 8 = Some [0x0A, 0xFF]"
  using hex_text_roundtrip [of "\<lambda>data. concat (map hex_pair data)" "[0x0A, 0xFF]" 8]
  by (simp add: hex_documented_def)

section \<open>The raw UDS script\<close>

datatype uds_step = Delay nat | Frame bytes

record uds_script =
  us_steps :: "uds_step list"
  us_skipped :: "(string \<times> string) list"

definition line_separators :: string where
  "line_separators = [CHR 0x0A, CHR '';'']"

text \<open>The digits after \<open>DELAY\<close> and one separator character.\<close>

fun delay_digits :: "nat \<Rightarrow> string \<Rightarrow> nat" where
  "delay_digits delay [] = delay"
| "delay_digits delay (c # cs) =
     (let n = of_char c :: nat in
      if n < 48 \<or> 57 < n then delay else delay_digits (delay * 10 + (n - 48)) cs)"

definition is_digit :: "char \<Rightarrow> bool" where
  "is_digit c \<longleftrightarrow> (let n = of_char c :: nat in 48 \<le> n \<and> n \<le> 57)"

definition delay_of :: "string \<Rightarrow> nat option" where
  "delay_of line =
     (if take 5 line = ''DELAY'' \<and> 6 < length line \<and> is_digit (line ! 6) then Some (delay_digits 0 (drop 6 line))
      else None)"

definition parse_line :: "string \<Rightarrow> nat \<Rightarrow> uds_script \<Rightarrow> uds_script" where
  "parse_line line max_frame_len script =
     (if line = [] then script
      else case delay_of line of
        Some delay \<Rightarrow> script\<lparr>us_steps := us_steps script @ [Delay delay]\<rparr>
      | None \<Rightarrow>
          let digits = StripHexSeparators line in
          if digits = [] then script\<lparr>us_skipped := us_skipped script @ [(line, ''empty'')]\<rparr>
          else case ParseHexBytes digits max_frame_len of
            None \<Rightarrow> script\<lparr>us_skipped := us_skipped script @ [(line, ''not hex'')]\<rparr>
          | Some payload \<Rightarrow> script\<lparr>us_steps := us_steps script @ [Frame payload]\<rparr>)"

function parse_script :: "string \<Rightarrow> nat \<Rightarrow> uds_script \<Rightarrow> uds_script" where
  "parse_script text max_frame_len script =
     (let line = takeWhile (\<lambda>c. c \<notin> set line_separators) text;
          rest = dropWhile (\<lambda>c. c \<notin> set line_separators) text;
          script' = parse_line line max_frame_len script
      in if rest = [] then script' else parse_script (tl rest) max_frame_len script')"
  by pat_completeness auto
termination
proof (relation "measure (\<lambda>(t, _). length t)", goal_cases)
  case (2 s n sc line rest sc')
  then have "length rest \<le> length s" "0 < length rest" by (auto simp: length_dropWhile_le)
  then have "length (tl rest) < length s" by (simp only: length_tl)
  then show ?case by simp
qed simp

declare parse_script.simps [simp del]

definition UdsParse :: "string \<Rightarrow> nat \<Rightarrow> uds_script" where
  "UdsParse text max_frame_len = parse_script text max_frame_len \<lparr>us_steps = [], us_skipped = []\<rparr>"

section \<open>Enumerator names\<close>

definition enum_FromName :: "'e \<Rightarrow> ('e \<times> string) list \<Rightarrow> string \<Rightarrow> 'e" where
  "enum_FromName fallback names name =
     (case find (\<lambda>entry. snd entry = name) names of Some entry \<Rightarrow> fst entry | None \<Rightarrow> fallback)"

definition enum_NameOf :: "'e \<Rightarrow> ('e \<times> string) list \<Rightarrow> 'e \<Rightarrow> string" where
  "enum_NameOf fallback names v =
     (case find (\<lambda>entry. fst entry = v) names of
        Some entry \<Rightarrow> snd entry
      | None \<Rightarrow> (case find (\<lambda>entry. fst entry = fallback) names of Some entry \<Rightarrow> snd entry | None \<Rightarrow> []))"

lemma enum_FromName_NameOf:
  assumes "distinct (map snd names)" and "v \<in> fst ` set names"
  shows "enum_FromName fallback names (enum_NameOf fallback names v) = v"
proof -
  from assms(2) obtain e where e: "find (\<lambda>entry. fst entry = v) names = Some e"
    by (cases "find (\<lambda>entry. fst entry = v) names") (auto simp: find_None_iff)
  then have "fst e = v" "e \<in> set names" by (auto simp: find_Some_iff in_set_conv_nth)
  moreover obtain g where g: "find (\<lambda>entry. snd entry = snd e) names = Some g"
    using \<open>e \<in> set names\<close> find_None_iff [of "\<lambda>entry. snd entry = snd e" names] by fastforce
  then have "snd g = snd e" "g \<in> set names" by (auto simp: find_Some_iff in_set_conv_nth)
  then have "g = e" using assms(1) \<open>e \<in> set names\<close> by (meson distinct_map inj_onD)
  ultimately show ?thesis using e g by (simp add: enum_FromName_def enum_NameOf_def)
qed

end
