(* ===== verification/DidHandler.thy ===== *)
theory DidHandler
  imports HexText CanTransport
begin

text \<open>
  Reading and writing data identifiers (DIDs) over UDS.  Source: \<open>src/DidHandler.cpp\<close>,
  \<open>src/DidHandler.hpp\<close>, \<open>src/UdsCodes.hpp\<close>.  The worker's two loops run against an
  environment: \<open>exchange\<close> is one wait for a response, with the frame sent before it if any,
  and gives the calls the GUI made during the wait, the response received before the
  timeout, if any, and the environment's next state; \<open>clock\<close> is the wall clock and \<open>hex\<close> is
  \<open>boost::algorithm::hex\<close>.  The stop request and the sleeps are not modelled.  Both loops are
  partial functions: whether they return depends on the environment.
\<close>

section \<open>UDS bytes\<close>

definition kDiagnosticSessionControl :: u8 where "kDiagnosticSessionControl = 0x10"
definition kReadDataByIdentifier :: u8 where "kReadDataByIdentifier = 0x22"
definition kWriteDataByIdentifier :: u8 where "kWriteDataByIdentifier = 0x2E"
definition kExtendedDiagnosticSession :: u8 where "kExtendedDiagnosticSession = 0x03"
definition kPositiveResponseOffset :: u8 where "kPositiveResponseOffset = 0x40"
definition kReadPositiveResponse :: u8 where
  "kReadPositiveResponse = kReadDataByIdentifier + kPositiveResponseOffset"
definition kWritePositiveResponse :: u8 where
  "kWritePositiveResponse = kWriteDataByIdentifier + kPositiveResponseOffset"
definition kSessionPositiveResponse :: u8 where
  "kSessionPositiveResponse = kDiagnosticSessionControl + kPositiveResponseOffset"
definition kNegativeResponse :: u8 where "kNegativeResponse = 0x7F"
definition kGeneralReject :: u8 where "kGeneralReject = 0x10"
definition kRequestOutOfRange :: u8 where "kRequestOutOfRange = 0x31"
definition kResponsePending :: u8 where "kResponsePending = 0x78"
definition kFirstNrc :: u8 where "kFirstNrc = 0x11"
definition kLastNrc :: u8 where "kLastNrc = 0x93"

lemmas uds_bytes = kDiagnosticSessionControl_def kReadDataByIdentifier_def kWriteDataByIdentifier_def
  kExtendedDiagnosticSession_def kPositiveResponseOffset_def kReadPositiveResponse_def
  kWritePositiveResponse_def kSessionPositiveResponse_def kNegativeResponse_def kGeneralReject_def
  kRequestOutOfRange_def kResponsePending_def kFirstNrc_def kLastNrc_def

definition IsNrc :: "u8 \<Rightarrow> bool" where
  "IsNrc code \<longleftrightarrow> kFirstNrc \<le> code \<and> code \<le> kLastNrc"

datatype response_kind = Positive | Pending | Rejected | NegativeOther | Unexpected

definition ClassifyPendingResponse :: "u8 \<Rightarrow> u8 \<Rightarrow> u8 \<Rightarrow> u8 \<Rightarrow> response_kind" where
  "ClassifyPendingResponse service_id byte0 byte1 byte2 =
     (if byte0 = service_id + kPositiveResponseOffset then Positive
      else if byte1 = service_id \<and> byte2 = kResponsePending then Pending
      else if byte2 = kGeneralReject then Rejected
      else if byte1 = service_id \<and> IsNrc byte2 then NegativeOther
      else Unexpected)"

section \<open>Entries\<close>

datatype did_type = DET_UI8 | DET_UI16 | DET_UI32 | DET_UI64 | DET_STRING | DET_BYTEARRAY | DET_INVALID

definition did_IsInteger :: "did_type \<Rightarrow> bool" where
  "did_IsInteger type \<longleftrightarrow> type = DET_UI8 \<or> type = DET_UI16 \<or> type = DET_UI32 \<or> type = DET_UI64"

definition IntegerWidth :: "did_type \<Rightarrow> nat" where
  "IntegerWidth type =
     (case type of DET_UI8 \<Rightarrow> 1 | DET_UI16 \<Rightarrow> 2 | DET_UI32 \<Rightarrow> 4 | DET_UI64 \<Rightarrow> 8 | _ \<Rightarrow> 0)"

definition m_DidEntryTypeMap :: "(did_type \<times> string) list" where
  "m_DidEntryTypeMap =
     [(DET_INVALID, ''invalid''), (DET_UI8, ''uint8_t''), (DET_UI16, ''uint16_t''), (DET_UI32, ''uint32_t''),
      (DET_UI64, ''uint64_t''), (DET_STRING, ''string''), (DET_BYTEARRAY, ''bytearray'')]"

definition GetTypeFromString :: "string \<Rightarrow> did_type" where
  "GetTypeFromString input = enum_FromName DET_INVALID m_DidEntryTypeMap input"

definition GetStringFromType :: "did_type \<Rightarrow> string" where
  "GetStringFromType type = enum_NameOf DET_INVALID m_DidEntryTypeMap type"

lemma GetTypeFromString_GetStringFromType [simp]: "GetTypeFromString (GetStringFromType t) = t"
  unfolding GetTypeFromString_def GetStringFromType_def
  by (rule enum_FromName_NameOf) (cases t; simp add: m_DidEntryTypeMap_def)+

record did_entry =
  de_id :: u16
  de_type :: did_type
  de_name :: string
  de_value_str :: string
  de_min :: string
  de_max :: string
  de_len :: nat
  de_nrc :: u16
  de_last_update :: "int option"

definition new_did_entry :: "u16 \<Rightarrow> did_type \<Rightarrow> string \<Rightarrow> string \<Rightarrow> string \<Rightarrow> nat \<Rightarrow> did_entry" where
  "new_did_entry ident type name lo hi len =
     \<lparr>de_id = ident, de_type = type, de_name = name, de_value_str = [], de_min = lo, de_max = hi,
      de_len = len, de_nrc = 0, de_last_update = None\<rparr>"

definition FitToDeclaredLength :: "string \<Rightarrow> nat \<Rightarrow> string" where
  "FitToDeclaredLength value declared_length =
     (if value = [] \<or> declared_length = 0 then value
      else
        let padded = value @ replicate (declared_length - length value) (List.last value)
        in if declared_length < length padded
           then take (declared_length - 1) padded @
                drop (declared_length - 1 + (length padded - declared_length)) padded
           else padded)"

section \<open>The handler and its environment\<close>

datatype gui_call = GuiRead u16 | GuiWrite u16 bytes | GuiAbort

record 's did_env =
  exchange :: "bytes option \<Rightarrow> 's \<Rightarrow> gui_call list \<times> bytes option \<times> 's"
  clock :: "'s \<Rightarrow> int"
  hex :: "bytes \<Rightarrow> string"

record 's did_state =
  m_DidList :: "u16 \<Rightarrow> did_entry option"
  m_PendingDidReads :: "u16 list"
  m_PendingDidWrites :: "(u16 \<times> bytes) list"
  m_UpdatedDids :: "u16 list"
  m_IsAborted :: bool
  m_Response :: bytes
  uds_sent :: "bytes list"
  env_state :: 's

definition AddDidToReadQueue :: "u16 \<Rightarrow> 's did_state \<Rightarrow> 's did_state" where
  "AddDidToReadQueue did st = st\<lparr>m_PendingDidReads := m_PendingDidReads st @ [did]\<rparr>"

text \<open>\<open>std::map::operator[]\<close> and assignment, on a list sorted by key.\<close>

fun put_write :: "u16 \<Rightarrow> bytes \<Rightarrow> (u16 \<times> bytes) list \<Rightarrow> (u16 \<times> bytes) list" where
  "put_write did data [] = [(did, data)]"
| "put_write did data ((k, v) # ws) =
     (if did < k then (did, data) # (k, v) # ws
      else if did = k then (k, data) # ws
      else (k, v) # put_write did data ws)"

definition WriteDid :: "u16 \<Rightarrow> bytes \<Rightarrow> 's did_state \<Rightarrow> 's did_state" where
  "WriteDid did data st = st\<lparr>m_PendingDidWrites := put_write did data (m_PendingDidWrites st)\<rparr>"

definition AbortDidUpdate :: "'s did_state \<Rightarrow> 's did_state" where
  "AbortDidUpdate st = st\<lparr>m_PendingDidReads := [], m_PendingDidWrites := [], m_IsAborted := True\<rparr>"

fun apply_gui :: "gui_call \<Rightarrow> 's did_state \<Rightarrow> 's did_state" where
  "apply_gui (GuiRead did) st = AddDidToReadQueue did st"
| "apply_gui (GuiWrite did data) st = WriteDid did data st"
| "apply_gui GuiAbort st = AbortDidUpdate st"

definition kIsoTpBufferSize :: nat where "kIsoTpBufferSize = 4096"

definition DidWaitForResponse :: "'s did_env \<Rightarrow> bytes option \<Rightarrow> 's did_state \<Rightarrow> bool \<times> 's did_state" where
  "DidWaitForResponse env frame st =
     (let (calls, answer, s') = exchange env frame (env_state st);
          st1 = fold apply_gui calls (st\<lparr>env_state := s'\<rparr>)
      in if GuiAbort \<in> set calls then (False, st1\<lparr>m_Response := []\<rparr>)
         else case answer of
           None \<Rightarrow> (False, st1)
         | Some data \<Rightarrow>
             if data = [] then (False, st1) else (True, st1\<lparr>m_Response := take kIsoTpBufferSize data\<rparr>))"

definition SendUdsFrameAndWaitForResponse :: "'s did_env \<Rightarrow> bytes \<Rightarrow> 's did_state \<Rightarrow> bool \<times> 's did_state" where
  "SendUdsFrameAndWaitForResponse env frame st =
     DidWaitForResponse env (Some frame) (st\<lparr>m_Response := [], uds_sent := uds_sent st @ [frame]\<rparr>)"

definition ResponseByte :: "nat \<Rightarrow> 's did_state \<Rightarrow> u8" where
  "ResponseByte index st = (if index < length (m_Response st) then m_Response st ! index else 0)"

definition ResponseInteger :: "nat \<Rightarrow> nat \<Rightarrow> 's did_state \<Rightarrow> u64" where
  "ResponseInteger offset width st =
     fold (\<lambda>i value. value OR push_bit (8 * i) (ucast (ResponseByte (offset + i) st))) [0..<width] 0"

definition ResponsePayload :: "nat \<Rightarrow> 's did_state \<Rightarrow> bytes" where
  "ResponsePayload header_size st =
     (if length (m_Response st) \<le> header_size then [] else drop header_size (m_Response st))"

definition hex_upper :: "u64 \<Rightarrow> string" where
  "hex_upper v = map toupper (to_chars16 (unat v))"

definition update_entry :: "u16 \<Rightarrow> (did_entry \<Rightarrow> did_entry) \<Rightarrow> 's did_state \<Rightarrow> 's did_state" where
  "update_entry did f st = st\<lparr>m_DidList := (m_DidList st)(did := map_option f (m_DidList st did))\<rparr>"

definition response_text :: "'s did_env \<Rightarrow> did_entry \<Rightarrow> 's did_state \<Rightarrow> string" where
  "response_text env e st =
     (if did_IsInteger (de_type e) then hex_upper (ResponseInteger 3 (IntegerWidth (de_type e)) st)
      else case de_type e of
        DET_STRING \<Rightarrow> map byte_char (ResponsePayload 3 st)
      | DET_BYTEARRAY \<Rightarrow> ConvertHexBufferToString (hex env) (ResponsePayload 3 st)
      | _ \<Rightarrow> de_value_str e)"

definition DropCurrentDidRead :: "'s did_state \<Rightarrow> 's did_state" where
  "DropCurrentDidRead st = st\<lparr>m_PendingDidReads := tl (m_PendingDidReads st)\<rparr>"

definition MarkDidUpdated :: "u16 \<Rightarrow> 's did_state \<Rightarrow> 's did_state" where
  "MarkDidUpdated did st = st\<lparr>m_UpdatedDids := m_UpdatedDids st @ [did]\<rparr>"

definition ProcessReadDidResponse :: "'s did_env \<Rightarrow> u16 \<Rightarrow> 's did_state \<Rightarrow> 's did_state" where
  "ProcessReadDidResponse env did st =
     MarkDidUpdated (case m_DidList st did of Some e \<Rightarrow> de_id e | None \<Rightarrow> did)
       (DropCurrentDidRead
         (update_entry did (\<lambda>e. e\<lparr>de_nrc := 0, de_last_update := Some (clock env (env_state st)),
                                  de_value_str := response_text env e st\<rparr>) st))"

definition SetDidNrc :: "u16 \<Rightarrow> u8 \<Rightarrow> 's did_state \<Rightarrow> 's did_state" where
  "SetDidNrc did nrc st = update_entry did (\<lambda>e. e\<lparr>de_nrc := ucast nrc\<rparr>) st"

definition SetDidNrcAndTimestamp :: "'s did_env \<Rightarrow> u16 \<Rightarrow> u8 \<Rightarrow> 's did_state \<Rightarrow> 's did_state" where
  "SetDidNrcAndTimestamp env did nrc st =
     update_entry did (\<lambda>e. e\<lparr>de_nrc := ucast nrc, de_last_update := Some (clock env (env_state st))\<rparr>) st"

definition ProcessRejectedNrc :: "'s did_env \<Rightarrow> u16 \<Rightarrow> 's did_state \<Rightarrow> 's did_state" where
  "ProcessRejectedNrc env did st =
     DropCurrentDidRead (SetDidNrcAndTimestamp env did kGeneralReject st)"

section \<open>Reading\<close>

definition read_request :: "u16 \<Rightarrow> bytes" where
  "read_request did = [kReadDataByIdentifier, hi8 did, lo8 did]"

definition session_request :: bytes where
  "session_request = [kDiagnosticSessionControl, kExtendedDiagnosticSession]"

text \<open>The wait after a ``response pending'' answer to a read.\<close>

partial_function (option) pending_read :: "'s did_env \<Rightarrow> u16 \<Rightarrow> 's did_state \<Rightarrow> 's did_state option" where
  "pending_read env did st =
     (if m_IsAborted st then Some st
      else
        let r = DidWaitForResponse env None st; st1 = snd r in
        if \<not> fst r then Some st1
        else case ClassifyPendingResponse kReadDataByIdentifier (ResponseByte 0 st1) (ResponseByte 1 st1) (ResponseByte 2 st1) of
          Positive \<Rightarrow> Some (ProcessReadDidResponse env did st1)
        | Pending \<Rightarrow> pending_read env did (MarkDidUpdated did (SetDidNrc did kResponsePending st1))
        | Rejected \<Rightarrow> Some (ProcessRejectedNrc env did st1)
        | NegativeOther \<Rightarrow> Some (DropCurrentDidRead (SetDidNrcAndTimestamp env did (ResponseByte 2 st1) st1))
        | Unexpected \<Rightarrow> pending_read env did (MarkDidUpdated did st1))"

text \<open>What is done with the answer to a read request.\<close>

definition read_answer :: "'s did_env \<Rightarrow> u16 \<Rightarrow> 's did_state \<Rightarrow> 's did_state option" where
  "read_answer env did st =
     (if ResponseByte 0 st = kReadPositiveResponse then Some (ProcessReadDidResponse env did st)
      else if ResponseByte 0 st = kNegativeResponse then
        map_option (MarkDidUpdated did)
          (if ResponseByte 1 st = kReadDataByIdentifier \<and> ResponseByte 2 st = kResponsePending
           then pending_read env did st
           else if ResponseByte 2 st = kGeneralReject then Some (ProcessRejectedNrc env did st)
           else if ResponseByte 1 st = kReadDataByIdentifier \<and> IsNrc (ResponseByte 2 st)
           then Some (DropCurrentDidRead (SetDidNrcAndTimestamp env did (ResponseByte 2 st) st))
           else Some (SetDidNrc did (ResponseByte 2 st) (ProcessRejectedNrc env did st)))
      else Some st)"

definition MAX_EXTENDED_SESSION_RETRIES :: nat where "MAX_EXTENDED_SESSION_RETRIES = 5"

text \<open>The outcome of a loop: \<open>Inl\<close> the state at the null dereference of an entry that is not
  in the list, \<open>Inr\<close> the state when the loop ends.\<close>

type_synonym 's did_outcome = "'s did_state + 's did_state"

partial_function (option) read_loop :: "'s did_env \<Rightarrow> nat \<Rightarrow> 's did_state \<Rightarrow> 's did_outcome option" where
  "read_loop env retries st =
     (if m_IsAborted st then Some (Inr st)
      else case m_PendingDidReads st of
        [] \<Rightarrow> Some (Inr st)
      | did # _ \<Rightarrow>
          let r = SendUdsFrameAndWaitForResponse env session_request st; st1 = snd r in
          if \<not> fst r then
            (if MAX_EXTENDED_SESSION_RETRIES < retries + 1 then Some (Inr (st1\<lparr>m_PendingDidReads := []\<rparr>))
             else read_loop env (retries + 1) st1)
          else case m_DidList st1 did of
            None \<Rightarrow> Some (Inl st1)
          | Some e \<Rightarrow>
              let q = SendUdsFrameAndWaitForResponse env (read_request (de_id e)) st1; st2 = snd q in
              if \<not> fst q then read_loop env 0 st2
              else Option.bind (read_answer env did st2) (read_loop env 0))"

definition HandleDidReading :: "'s did_env \<Rightarrow> 's did_state \<Rightarrow> 's did_outcome option" where
  "HandleDidReading env st = read_loop env 0 st"

section \<open>Writing\<close>

definition write_request :: "u16 \<Rightarrow> bytes \<Rightarrow> bytes" where
  "write_request did raw_value = [kWriteDataByIdentifier, hi8 did, lo8 did] @ raw_value"

partial_function (option) pending_write :: "'s did_env \<Rightarrow> 's did_state \<Rightarrow> 's did_state option" where
  "pending_write env st =
     (if m_IsAborted st then Some st
      else
        let r = DidWaitForResponse env None st; st1 = snd r in
        if \<not> fst r then Some st1
        else case ClassifyPendingResponse kWriteDataByIdentifier (ResponseByte 0 st1) (ResponseByte 1 st1) (ResponseByte 2 st1) of
          Positive \<Rightarrow> Some st1
        | Rejected \<Rightarrow> Some st1
        | _ \<Rightarrow> pending_write env st1)"

definition write_one :: "'s did_env \<Rightarrow> u16 \<Rightarrow> bytes \<Rightarrow> 's did_state \<Rightarrow> 's did_state option" where
  "write_one env did raw_value st =
     (let r = SendUdsFrameAndWaitForResponse env session_request st; st1 = snd r in
      if \<not> fst r then Some st1
      else
        let q = SendUdsFrameAndWaitForResponse env (write_request did raw_value) st1; st2 = snd q in
        if fst q \<and> ResponseByte 0 st2 = kNegativeResponse \<and> ResponseByte 1 st2 = kWriteDataByIdentifier \<and>
           ResponseByte 2 st2 = kResponsePending
        then pending_write env st2 else Some st2)"

fun write_all :: "'s did_env \<Rightarrow> (u16 \<times> bytes) list \<Rightarrow> 's did_state \<Rightarrow> 's did_state option" where
  "write_all env [] st = Some st"
| "write_all env ((did, raw_value) # ws) st = Option.bind (write_one env did raw_value st) (write_all env ws)"

definition HandleDidWriting :: "'s did_env \<Rightarrow> 's did_state \<Rightarrow> 's did_state option" where
  "HandleDidWriting env st =
     (let pending_writes = m_PendingDidWrites st in
      map_option (\<lambda>st'. st'\<lparr>m_IsAborted := False\<rparr>)
        (if pending_writes \<noteq> [] \<and> \<not> m_IsAborted st
         then map_option (\<lambda>st'. st'\<lparr>m_PendingDidWrites := []\<rparr>) (write_all env pending_writes st)
         else Some st))"

text \<open>One turn of the worker, after a notification.\<close>

definition did_worker_turn :: "'s did_env \<Rightarrow> 's did_state \<Rightarrow> 's did_outcome option" where
  "did_worker_turn env st =
     Option.bind (HandleDidReading env st) (\<lambda>r. case r of
        Inl crashed \<Rightarrow> Some (Inl crashed)
      | Inr st' \<Rightarrow> map_option Inr (HandleDidWriting env st'))"

section \<open>A responsive ECU\<close>

text \<open>After \<open>k\<close> pending answers the final one.\<close>

fun answers_after :: "'s did_env \<Rightarrow> nat \<Rightarrow> bytes \<Rightarrow> gui_call list \<times> bytes option \<times> 's \<Rightarrow> bool" where
  "answers_after env 0 final x \<longleftrightarrow> (\<exists>s'. x = ([], Some final, s'))"
| "answers_after env (Suc k) final x \<longleftrightarrow>
     (\<exists>s'. x = ([], Some [kNegativeResponse, kReadDataByIdentifier, kResponsePending], s') \<and>
        answers_after env k final (exchange env None s'))"

text \<open>An ECU memory gives for an identifier the two bytes echoed before the value, and the
  value; or nothing.\<close>

type_synonym ecu_memory = "u16 \<Rightarrow> (u8 \<times> u8 \<times> bytes) option"

definition final_answer :: "ecu_memory \<Rightarrow> u16 \<Rightarrow> bytes" where
  "final_answer mem did =
     (case mem did of
        Some (x, y, v) \<Rightarrow> [kReadPositiveResponse, x, y] @ v
      | None \<Rightarrow> [kNegativeResponse, kReadDataByIdentifier, kRequestOutOfRange])"

definition responsive :: "'s did_env \<Rightarrow> ecu_memory \<Rightarrow> bool" where
  "responsive env mem \<longleftrightarrow>
     (\<forall>s. \<exists>r s'. exchange env (Some session_request) s = ([], Some r, s') \<and> r \<noteq> []) \<and>
     (\<forall>s did. \<exists>k. answers_after env k (final_answer mem did) (exchange env (Some (read_request did)) s)) \<and>
     (\<forall>did x y v. mem did = Some (x, y, v) \<longrightarrow> length v + 3 \<le> kIsoTpBufferSize)"

text \<open>What an entry shows after a read.\<close>

definition value_text :: "'s did_env \<Rightarrow> did_type \<Rightarrow> bytes \<Rightarrow> string \<Rightarrow> string" where
  "value_text env type v old =
     (if did_IsInteger type then
        hex_upper (fold (\<lambda>i x. x OR push_bit (8 * i) (ucast (if i < length v then v ! i else 0))) [0..<IntegerWidth type] 0)
      else case type of
        DET_STRING \<Rightarrow> map byte_char v
      | DET_BYTEARRAY \<Rightarrow> ConvertHexBufferToString (hex env) v
      | _ \<Rightarrow> old)"

definition shows_memory :: "'s did_env \<Rightarrow> ecu_memory \<Rightarrow> u16 \<Rightarrow> did_entry \<Rightarrow> did_entry \<Rightarrow> bool" where
  "shows_memory env mem did old new \<longleftrightarrow>
     (\<exists>t. new = (case mem did of
        Some (_, _, v) \<Rightarrow> old\<lparr>de_nrc := 0, de_last_update := Some t, de_value_str := value_text env (de_type old) v (de_value_str old)\<rparr>
      | None \<Rightarrow> old\<lparr>de_nrc := ucast kRequestOutOfRange, de_last_update := Some t\<rparr>))"


subsection \<open>Reads of a responsive ECU\<close>

definition read_done :: "'s did_env \<Rightarrow> ecu_memory \<Rightarrow> u16 \<Rightarrow> did_entry \<Rightarrow> 's did_state \<Rightarrow> 's did_state \<Rightarrow> bool" where
  "read_done env mem did e st st' \<longleftrightarrow>
     (\<exists>e'. m_DidList st' = (m_DidList st)(did \<mapsto> e') \<and> shows_memory env mem did e e') \<and>
     m_PendingDidReads st' = tl (m_PendingDidReads st) \<and> m_PendingDidWrites st' = m_PendingDidWrites st \<and>
     m_IsAborted st' = m_IsAborted st \<and> uds_sent st' = uds_sent st \<and>
     set (m_UpdatedDids st') \<subseteq> insert did (set (m_UpdatedDids st))"

lemma response_text_memory:
  "m_Response st = [kReadPositiveResponse, x, y] @ v \<Longrightarrow> response_text env e st = value_text env (de_type e) v (de_value_str e)"
proof -
  assume r: "m_Response st = [kReadPositiveResponse, x, y] @ v"
  have b: "ResponseByte (3 + i) st = (if i < length v then v ! i else 0)" for i
    by (auto simp: ResponseByte_def r nth_append)
  have p: "ResponsePayload 3 st = v" by (auto simp: ResponsePayload_def r)
  show ?thesis by (cases "de_type e") (simp_all add: response_text_def value_text_def ResponseInteger_def b p)
qed

lemma final_effect:
  assumes "m_Response st = final_answer mem did" and "m_DidList st did = Some (e\<lparr>de_nrc := n\<rparr>)" and "de_id e = did"
  shows "mem did = Some (x, y, v) \<Longrightarrow> read_done env mem did e st (ProcessReadDidResponse env did st)"
    and "mem did = None \<Longrightarrow>
      read_done env mem did e st (DropCurrentDidRead (SetDidNrcAndTimestamp env did kRequestOutOfRange st))"
proof -
  assume m: "mem did = Some (x, y, v)"
  with assms(1) have "m_Response st = [kReadPositiveResponse, x, y] @ v" by (simp add: final_answer_def)
  note t = response_text_memory [OF this]
  show "read_done env mem did e st (ProcessReadDidResponse env did st)"
    using assms(2,3) m
    by (auto simp: read_done_def ProcessReadDidResponse_def MarkDidUpdated_def DropCurrentDidRead_def
        update_entry_def shows_memory_def t)
next
  assume m: "mem did = None"
  show "read_done env mem did e st (DropCurrentDidRead (SetDidNrcAndTimestamp env did kRequestOutOfRange st))"
    using assms(2) m
    by (auto simp: read_done_def SetDidNrcAndTimestamp_def DropCurrentDidRead_def update_entry_def shows_memory_def)
qed

lemma final_bytes:
  assumes "m_Response st = final_answer mem did"
  shows "mem did = Some (x, y, v) \<Longrightarrow> ResponseByte 0 st = kReadPositiveResponse"
    and "mem did = None \<Longrightarrow> ResponseByte 0 st = kNegativeResponse \<and> ResponseByte 1 st = kReadDataByIdentifier \<and>
      ResponseByte 2 st = kRequestOutOfRange"
  using assms by (auto simp: ResponseByte_def final_answer_def)

lemma wait_answer:
  assumes "exchange env frame (env_state st) = ([], Some data, s')" and "data \<noteq> []" and "length data \<le> kIsoTpBufferSize"
  shows "DidWaitForResponse env frame st = (True, st\<lparr>env_state := s', m_Response := data\<rparr>)"
  using assms by (simp add: DidWaitForResponse_def)

lemma final_answer_ok:
  "responsive env mem \<Longrightarrow> final_answer mem did \<noteq> [] \<and> length (final_answer mem did) \<le> kIsoTpBufferSize"
  by (cases "mem did") (auto simp: responsive_def final_answer_def kIsoTpBufferSize_def)

lemma read_done_step:
  assumes "read_done env mem did e st1 st'" and "m_DidList st1 = (m_DidList st)(did \<mapsto> e1)"
    and "m_PendingDidReads st1 = m_PendingDidReads st" and "m_PendingDidWrites st1 = m_PendingDidWrites st"
    and "m_IsAborted st1 = m_IsAborted st" and "uds_sent st1 = uds_sent st"
    and "set (m_UpdatedDids st1) \<subseteq> insert did (set (m_UpdatedDids st))"
  shows "read_done env mem did e st st'"
  using assms by (auto simp: read_done_def)

lemma pending_read_done:
  assumes "responsive env mem"
    and "answers_after env k (final_answer mem did) (exchange env None (env_state st))"
    and "\<not> m_IsAborted st" and "m_DidList st did = Some (e\<lparr>de_nrc := n\<rparr>)" and "de_id e = did"
  shows "\<exists>st'. pending_read env did st = Some st' \<and> read_done env mem did e st st'"
  using assms(2-)
proof (induction k arbitrary: st n)
  case 0
  then obtain s' where x: "exchange env None (env_state st) = ([], Some (final_answer mem did), s')" by auto
  let ?st1 = "st\<lparr>env_state := s', m_Response := final_answer mem did\<rparr>"
  have w: "DidWaitForResponse env None st = (True, ?st1)"
    using wait_answer [OF x] final_answer_ok [OF assms(1), of did] by blast
  have r1: "m_Response ?st1 = final_answer mem did" and d1: "m_DidList ?st1 did = Some (e\<lparr>de_nrc := n\<rparr>)"
    using 0(3) by simp_all
  have keep: "read_done env mem did e ?st1 st' \<Longrightarrow> read_done env mem did e st st'" for st'
    by (simp add: read_done_def)
  show ?case
  proof (cases "mem did")
    case None
    have "pending_read env did st = Some (DropCurrentDidRead (SetDidNrcAndTimestamp env did kRequestOutOfRange ?st1))"
      using 0(2) final_bytes(2) [OF r1 None]
      by (subst pending_read.simps) (simp add: w Let_def ClassifyPendingResponse_def IsNrc_def uds_bytes)
    with final_effect(2) [OF r1 d1 0(4) None] keep show ?thesis by blast
  next
    case (Some xyv)
    obtain x y v where m: "mem did = Some (x, y, v)" using Some by (cases xyv) auto
    have "pending_read env did st = Some (ProcessReadDidResponse env did ?st1)"
      using 0(2) final_bytes(1) [OF r1 m]
      by (subst pending_read.simps) (simp add: w Let_def ClassifyPendingResponse_def kReadPositiveResponse_def)
    with final_effect(1) [OF r1 d1 0(4) m] keep show ?thesis by blast
  qed
next
  case (Suc k)
  let ?p = "[kNegativeResponse, kReadDataByIdentifier, kResponsePending]"
  from Suc.prems(1) obtain s' where x: "exchange env None (env_state st) = ([], Some ?p, s')"
    and more: "answers_after env k (final_answer mem did) (exchange env None s')" by auto
  let ?st1 = "st\<lparr>env_state := s', m_Response := ?p\<rparr>"
  let ?st2 = "MarkDidUpdated did (SetDidNrc did kResponsePending ?st1)"
  have w: "DidWaitForResponse env None st = (True, ?st1)"
    using wait_answer [OF x] by (simp add: kIsoTpBufferSize_def)
  have "pending_read env did st = pending_read env did ?st2"
    using Suc.prems(2)
    by (subst pending_read.simps)
      (simp add: w Let_def ClassifyPendingResponse_def ResponseByte_def uds_bytes)
  moreover have d2: "m_DidList ?st2 = (m_DidList st)(did \<mapsto> e\<lparr>de_nrc := ucast kResponsePending\<rparr>)"
    using Suc.prems(3) by (simp add: MarkDidUpdated_def SetDidNrc_def update_entry_def)
  have s2: "env_state ?st2 = s'" "m_IsAborted ?st2 = m_IsAborted st"
    by (simp_all add: MarkDidUpdated_def SetDidNrc_def update_entry_def)
  moreover obtain st' where "pending_read env did ?st2 = Some st'" "read_done env mem did e ?st2 st'"
    using Suc.IH [of ?st2 "ucast kResponsePending"] more s2 d2 Suc.prems(2,4) by auto
  moreover have "read_done env mem did e ?st2 st' \<Longrightarrow> read_done env mem did e st st'" for st'
    by (erule read_done_step [OF _ d2]) (auto simp: MarkDidUpdated_def SetDidNrc_def update_entry_def)
  ultimately show ?case by auto
qed

lemma read_answer_done:
  assumes "responsive env mem" and "\<not> m_IsAborted st" and "m_DidList st did = Some e" and "de_id e = did"
  shows "\<exists>st1 st'. SendUdsFrameAndWaitForResponse env (read_request did) st = (True, st1) \<and>
    read_answer env did st1 = Some st' \<and>
    read_done env mem did e (st\<lparr>uds_sent := uds_sent st @ [read_request did]\<rparr>) st'"
proof -
  obtain k where k: "answers_after env k (final_answer mem did) (exchange env (Some (read_request did)) (env_state st))"
    using assms(1) unfolding responsive_def by blast
  let ?st0 = "st\<lparr>uds_sent := uds_sent st @ [read_request did]\<rparr>"
  have send: "exchange env (Some (read_request did)) (env_state st) = ([], Some data, s') \<Longrightarrow> data \<noteq> [] \<Longrightarrow>
      length data \<le> kIsoTpBufferSize \<Longrightarrow>
      SendUdsFrameAndWaitForResponse env (read_request did) st = (True, ?st0\<lparr>env_state := s', m_Response := data\<rparr>)"
    for data s' by (simp add: SendUdsFrameAndWaitForResponse_def DidWaitForResponse_def)
  have e: "e = e\<lparr>de_nrc := de_nrc e\<rparr>" by simp
  show ?thesis
  proof (cases k)
    case 0
    with k obtain s' where x: "exchange env (Some (read_request did)) (env_state st) = ([], Some (final_answer mem did), s')"
      by auto
    let ?st1 = "?st0\<lparr>env_state := s', m_Response := final_answer mem did\<rparr>"
    note s = send [OF x] final_answer_ok [OF assms(1), of did]
    have r1: "m_Response ?st1 = final_answer mem did" and d1: "m_DidList ?st1 did = Some (e\<lparr>de_nrc := de_nrc e\<rparr>)"
      using assms(3) by simp_all
    have keep: "read_done env mem did e ?st1 st' \<Longrightarrow> read_done env mem did e ?st0 st'" for st'
      by (simp add: read_done_def)
    show ?thesis
    proof (cases "mem did")
      case None
      let ?f = "DropCurrentDidRead (SetDidNrcAndTimestamp env did kRequestOutOfRange ?st1)"
      have "read_answer env did ?st1 = Some (MarkDidUpdated did ?f)"
        using final_bytes(2) [OF r1 None] by (simp add: read_answer_def IsNrc_def uds_bytes)
      moreover have "read_done env mem did e ?st0 (MarkDidUpdated did ?f)"
        using keep [OF final_effect(2) [OF r1 d1 assms(4) None]] by (auto simp: read_done_def MarkDidUpdated_def)
      ultimately show ?thesis using s by blast
    next
      case (Some xyv)
      obtain x y v where m: "mem did = Some (x, y, v)" using Some by (cases xyv) auto
      have "read_answer env did ?st1 = Some (ProcessReadDidResponse env did ?st1)"
        using final_bytes(1) [OF r1 m] by (simp add: read_answer_def)
      with keep [OF final_effect(1) [OF r1 d1 assms(4) m]] s show ?thesis by blast
    qed
  next
    case (Suc j)
    let ?p = "[kNegativeResponse, kReadDataByIdentifier, kResponsePending]"
    from k Suc obtain s' where x: "exchange env (Some (read_request did)) (env_state st) = ([], Some ?p, s')"
      and more: "answers_after env j (final_answer mem did) (exchange env None s')" by auto
    let ?st1 = "?st0\<lparr>env_state := s', m_Response := ?p\<rparr>"
    have s: "SendUdsFrameAndWaitForResponse env (read_request did) st = (True, ?st1)"
      by (rule send [OF x]) (simp_all add: kIsoTpBufferSize_def)
    obtain st' where st': "pending_read env did ?st1 = Some st'" "read_done env mem did e ?st1 st'"
      using pending_read_done [where k = j and did = did and st = ?st1 and e = e and n = "de_nrc e", OF assms(1)]
        more assms(2-4) by auto
    have "read_answer env did ?st1 = Some (MarkDidUpdated did st')"
      using st'(1) by (simp add: read_answer_def ResponseByte_def uds_bytes)
    moreover have "read_done env mem did e ?st0 (MarkDidUpdated did st')"
      using st'(2) by (auto simp: read_done_def MarkDidUpdated_def)
    ultimately show ?thesis using s by blast
  qed
qed

lemma value_text_again: "value_text env t v (value_text env t v old) = value_text env t v old"
  by (cases t) (simp_all add: value_text_def)

lemma shows_memory_again:
  "shows_memory env mem did e e1 \<Longrightarrow> shows_memory env mem did e1 e2 \<Longrightarrow> shows_memory env mem did e e2"
  by (cases "mem did") (force simp: shows_memory_def value_text_again case_prod_unfold)+

lemma shows_memory_id: "shows_memory env mem did e e' \<Longrightarrow> de_id e' = de_id e"
  by (cases "mem did") (auto simp: shows_memory_def case_prod_unfold)

definition entry_read :: "'s did_env \<Rightarrow> ecu_memory \<Rightarrow> u16 list \<Rightarrow> 's did_state \<Rightarrow> 's did_state \<Rightarrow> u16 \<Rightarrow> bool" where
  "entry_read env mem queue st st' did =
     (if did \<in> set queue
      then (case (m_DidList st did, m_DidList st' did) of
              (Some e, Some e') \<Rightarrow> shows_memory env mem did e e' | _ \<Rightarrow> False)
      else m_DidList st' did = m_DidList st did)"

definition queue_request :: "u16 list \<Rightarrow> bytes list" where
  "queue_request queue = concat (map (\<lambda>did. [session_request, read_request did]) queue)"

lemma session_answered:
  assumes "responsive env mem"
  shows "\<exists>s' r. SendUdsFrameAndWaitForResponse env session_request st =
    (True, st\<lparr>uds_sent := uds_sent st @ [session_request], env_state := s', m_Response := r\<rparr>)"
  using assms[unfolded responsive_def, THEN conjunct1, THEN spec, of "env_state st"]
  by (fastforce simp: SendUdsFrameAndWaitForResponse_def DidWaitForResponse_def)

lemma read_loop_responsive:
  assumes "responsive env mem" and "\<not> m_IsAborted st" and "m_PendingDidReads st = queue"
    and "\<And>did. did \<in> set queue \<Longrightarrow> map_option de_id (m_DidList st did) = Some did"
  shows "\<exists>st'. read_loop env 0 st = Some (Inr st') \<and> m_PendingDidReads st' = [] \<and> \<not> m_IsAborted st' \<and>
    m_PendingDidWrites st' = m_PendingDidWrites st \<and>
    uds_sent st' = uds_sent st @ queue_request queue \<and> (\<forall>did. entry_read env mem queue st st' did)"
  using assms(2-)
proof (induction queue arbitrary: st)
  case Nil
  moreover have "\<forall>did. entry_read env mem [] st st did" by (simp add: entry_read_def)
  ultimately show ?case by (subst read_loop.simps) (simp add: queue_request_def)
next
  case (Cons did queue)
  obtain e where e: "m_DidList st did = Some e" "de_id e = did" using Cons.prems(3) [of did] by auto
  obtain s' r where s: "SendUdsFrameAndWaitForResponse env session_request st =
    (True, st\<lparr>uds_sent := uds_sent st @ [session_request], env_state := s', m_Response := r\<rparr>)"
    (is "_ = (True, ?st1)") using session_answered [OF assms(1)] by blast
  obtain st2 st3 where q: "SendUdsFrameAndWaitForResponse env (read_request did) ?st1 = (True, st2)"
      "read_answer env did st2 = Some st3"
    and rd: "read_done env mem did e (?st1\<lparr>uds_sent := uds_sent ?st1 @ [read_request did]\<rparr>) st3"
    using read_answer_done [OF assms(1), of ?st1 did e] Cons.prems(1) e by auto
  from rd obtain e' where e': "m_DidList st3 = (m_DidList st)(did \<mapsto> e')" "shows_memory env mem did e e'"
    and p3: "m_PendingDidReads st3 = queue" and w3: "m_PendingDidWrites st3 = m_PendingDidWrites st"
    and a3: "\<not> m_IsAborted st3" and u3: "uds_sent st3 = uds_sent st @ [session_request, read_request did]"
    using Cons.prems(1,2) by (auto simp: read_done_def)
  have "map_option de_id (m_DidList st3 d) = Some d" if "d \<in> set queue" for d
    using Cons.prems(3) [of d] that e e' shows_memory_id [OF e'(2)] by (simp add: e'(1))
  from Cons.IH [OF a3 p3 this] obtain st' where st': "read_loop env 0 st3 = Some (Inr st')"
      "m_PendingDidReads st' = []" "\<not> m_IsAborted st'" "m_PendingDidWrites st' = m_PendingDidWrites st3"
      "uds_sent st' = uds_sent st3 @ queue_request queue"
    and each: "\<And>d. entry_read env mem queue st3 st' d" by blast
  have "read_loop env 0 st = Some (Inr st')"
    using Cons.prems(1,2) e st'(1) by (subst read_loop.simps) (simp add: s q Let_def)
  moreover have "entry_read env mem (did # queue) st st' d" for d
    using each [of d] e(1) e' shows_memory_again [OF e'(2)]
    by (auto simp: entry_read_def split: option.splits if_splits)
  ultimately show ?case using st'(2-) w3 u3 by (auto simp: queue_request_def)
qed

subsection \<open>Reads without answers\<close>

lemma read_loop_silent:
  assumes "\<And>s. \<exists>s'. exchange env (Some session_request) s = ([], None, s')"
    and "m_PendingDidReads st \<noteq> []" and "\<not> m_IsAborted st" and "retries \<le> MAX_EXTENDED_SESSION_RETRIES"
  shows "\<exists>st'. read_loop env retries st = Some (Inr st') \<and> m_PendingDidReads st' = [] \<and> m_DidList st' = m_DidList st \<and>
    uds_sent st' = uds_sent st @ replicate (MAX_EXTENDED_SESSION_RETRIES + 1 - retries) session_request"
  using assms(2-)
proof (induction "MAX_EXTENDED_SESSION_RETRIES - retries" arbitrary: st retries rule: less_induct)
  case less
  obtain s' where s': "exchange env (Some session_request) (env_state st) = ([], None, s')" using assms(1) by blast
  let ?st1 = "st\<lparr>m_Response := [], uds_sent := uds_sent st @ [session_request], env_state := s'\<rparr>"
  have s: "SendUdsFrameAndWaitForResponse env session_request st = (False, ?st1)"
    by (simp add: SendUdsFrameAndWaitForResponse_def DidWaitForResponse_def s')
  obtain did rest where p: "m_PendingDidReads st = did # rest" using less.prems(1) by (cases "m_PendingDidReads st") auto
  show ?case
  proof (cases "retries = MAX_EXTENDED_SESSION_RETRIES")
    case True
    then show ?thesis using less.prems(2) p by (subst read_loop.simps) (simp add: s Let_def)
  next
    case False
    then have less': "MAX_EXTENDED_SESSION_RETRIES - (retries + 1) < MAX_EXTENDED_SESSION_RETRIES - retries"
      using less.prems(3) by simp
    have "read_loop env retries st = read_loop env (retries + 1) ?st1"
      using False less.prems p by (subst read_loop.simps) (simp add: s Let_def)
    moreover have "MAX_EXTENDED_SESSION_RETRIES + 1 - retries = Suc (MAX_EXTENDED_SESSION_RETRIES + 1 - (retries + 1))"
      using False less.prems(3) by simp
    ultimately show ?thesis using less.hyps [OF less', of ?st1] less.prems p False by simp
  qed
qed

definition read_unanswered :: "'s did_env \<Rightarrow> bool" where
  "read_unanswered env \<longleftrightarrow>
     (\<forall>s. \<exists>r s'. exchange env (Some session_request) s = ([], Some r, s') \<and> r \<noteq> []) \<and>
     (\<forall>s did. \<exists>s'. exchange env (Some (read_request did)) s = ([], None, s'))"

lemma read_loop_diverges:
  assumes "read_unanswered env" and "read_loop env retries st = Some out"
    and "m_PendingDidReads st = did # rest" and "\<not> m_IsAborted st" and "m_DidList st did = Some e"
  shows False
proof -
  define P where "P = (\<lambda>(env' :: 'a did_env) (retries :: nat) (st :: 'a did_state) (out :: 'a did_outcome).
    env' = env \<longrightarrow> m_PendingDidReads st = did # rest \<longrightarrow> \<not> m_IsAborted st \<longrightarrow> m_DidList st did = Some e \<longrightarrow> False)"
  have "P env retries st out"
    using _ assms(2)
  proof (rule read_loop.raw_induct)
    fix loop :: "'a did_env \<Rightarrow> nat \<Rightarrow> 'a did_state \<Rightarrow> 'a did_outcome option"
    fix env' :: "'a did_env" and retries :: nat and st :: "'a did_state" and out
    assume IH: "\<And>env' retries st out. loop env' retries st = Some out \<Longrightarrow> P env' retries st out"
    assume step: "(if m_IsAborted st then Some (Inr st)
      else case m_PendingDidReads st of
        [] \<Rightarrow> Some (Inr st)
      | did # _ \<Rightarrow>
          let r = SendUdsFrameAndWaitForResponse env' session_request st; st1 = snd r in
          if \<not> fst r then
            (if MAX_EXTENDED_SESSION_RETRIES < retries + 1 then Some (Inr (st1\<lparr>m_PendingDidReads := []\<rparr>))
             else loop env' (retries + 1) st1)
          else case m_DidList st1 did of
            None \<Rightarrow> Some (Inl st1)
          | Some e \<Rightarrow>
              let q = SendUdsFrameAndWaitForResponse env' (read_request (de_id e)) st1; st2 = snd q in
              if \<not> fst q then loop env' 0 st2
              else Option.bind (read_answer env' did st2) (loop env' 0)) = Some out"
    show "P env' retries st out"
      unfolding P_def
    proof (intro impI)
      assume env: "env' = env" and st: "m_PendingDidReads st = did # rest" "\<not> m_IsAborted st" "m_DidList st did = Some e"
      obtain r s' where r: "exchange env (Some session_request) (env_state st) = ([], Some r, s')" "r \<noteq> []"
        using assms(1) unfolding read_unanswered_def by blast
      obtain s'' where q: "exchange env (Some (read_request (de_id e))) s' = ([], None, s'')"
        using assms(1) unfolding read_unanswered_def by blast
      define st2 where "st2 = st\<lparr>m_Response := [], uds_sent := uds_sent st @ [session_request, read_request (de_id e)], env_state := s''\<rparr>"
      have "loop env 0 st2 = Some out"
        using step r st q by (simp add: env SendUdsFrameAndWaitForResponse_def DidWaitForResponse_def Let_def st2_def)
      from IH [OF this] st show False by (simp add: P_def st2_def)
    qed
  qed
  with assms show False by (simp add: P_def)
qed

subsection \<open>The dialogue of a write\<close>

text \<open>What is said in one exchange: the frame that is sent, if any, the calls of the GUI that come
  meanwhile, and the message that arrives.  An environment can keep a record of its exchanges.\<close>

type_synonym spoken = "bytes option \<times> gui_call list \<times> bytes option"

definition heard_env :: "'s did_env \<Rightarrow> ('s \<times> spoken list) did_env" where
  "heard_env env =
     \<lparr>exchange = (\<lambda>frame (s, said). case exchange env frame s of
          (calls, answer, s') \<Rightarrow> (calls, answer, (s', said @ [(frame, calls, answer)]))),
      clock = (\<lambda>(s, said). clock env s), hex = hex env\<rparr>"

text \<open>An exchange is answered by a message that is not empty, unless the GUI aborts it.\<close>

definition aborts :: "spoken \<Rightarrow> bool" where
  "aborts x \<longleftrightarrow> GuiAbort \<in> set (fst (snd x))"

definition heard :: "spoken \<Rightarrow> bytes option" where
  "heard x = (if aborts x then None else case snd (snd x) of
     Some (c # data) \<Rightarrow> Some (take 4096 (c # data)) | _ \<Rightarrow> None)"

definition message_byte :: "nat \<Rightarrow> bytes \<Rightarrow> u8" where
  "message_byte i data = (if i < length data then data ! i else 0)"

text \<open>The answers to a write request: wait (NRC 0x78), and what ends a wait, a positive response
  or a general reject.\<close>

definition asks_to_wait :: "bytes \<Rightarrow> bool" where
  "asks_to_wait data \<longleftrightarrow> message_byte 0 data = 0x7F \<and> message_byte 1 data = 0x2E \<and> message_byte 2 data = 0x78"

definition ends_wait :: "bytes \<Rightarrow> bool" where
  "ends_wait data \<longleftrightarrow> message_byte 0 data = 0x6E \<or> message_byte 2 data = 0x10"

inductive waits :: "bool \<Rightarrow> spoken list \<Rightarrow> bool" where
  "waits True []"
| "fst x = None \<Longrightarrow> heard x = None \<Longrightarrow> waits False [x]"
| "fst x = None \<Longrightarrow> heard x = Some data \<Longrightarrow> ends_wait data \<Longrightarrow> waits False [x]"
| "fst x = None \<Longrightarrow> heard x = Some data \<Longrightarrow> \<not> ends_wait data \<Longrightarrow> waits False xs \<Longrightarrow> waits False (x # xs)"

text \<open>
  What is said when writes are sent: for each of them the session request; when that is
  answered, the write request with the value, and when the answer to that asks to wait, the
  messages up to the one that ends the wait.  After an abort nothing is waited for any more, but
  the remaining writes are still sent.
\<close>

inductive write_dialogue :: "bool \<Rightarrow> (u16 \<times> bytes) list \<Rightarrow> spoken list \<Rightarrow> bool" where
  "write_dialogue aborted [] []"
| "\<lbrakk>fst x = Some [0x10, 0x03]; heard x = None; write_dialogue (aborted \<or> aborts x) ws said\<rbrakk> \<Longrightarrow>
   write_dialogue aborted ((did, v) # ws) (x # said)"
| "\<lbrakk>fst x = Some [0x10, 0x03]; heard x \<noteq> None; fst y = Some ([0x2E, hi8 did, lo8 did] @ v);
    \<And>data. heard y = Some data \<Longrightarrow> \<not> asks_to_wait data; write_dialogue (aborted \<or> aborts y) ws said\<rbrakk> \<Longrightarrow>
   write_dialogue aborted ((did, v) # ws) (x # y # said)"
| "\<lbrakk>fst x = Some [0x10, 0x03]; heard x \<noteq> None; fst y = Some ([0x2E, hi8 did, lo8 did] @ v);
    heard y = Some data; asks_to_wait data; waits aborted zs;
    write_dialogue (aborted \<or> (\<exists>z \<in> set zs. aborts z)) ws said\<rbrakk> \<Longrightarrow>
   write_dialogue aborted ((did, v) # ws) (x # y # zs @ said)"

text \<open>An environment in which every wait comes to an end: after finitely many messages a final
  one, a time-out or an abort.\<close>

inductive settles :: "'s did_env \<Rightarrow> 's \<Rightarrow> bool" for env where
  "\<lbrakk>exchange env None s = (calls, answer, s');
    \<And>data. heard (None, calls, answer) = Some data \<Longrightarrow> ends_wait data\<rbrakk> \<Longrightarrow> settles env s"
| "exchange env None s = (calls, answer, s') \<Longrightarrow> settles env s' \<Longrightarrow> settles env s"

lemma apply_gui_keeps [simp]:
  "uds_sent (fold apply_gui calls st) = uds_sent st" "env_state (fold apply_gui calls st) = env_state st"
  "m_IsAborted (fold apply_gui calls st) = (m_IsAborted st \<or> GuiAbort \<in> set calls)"
proof (induction calls arbitrary: st)
  case (Cons c calls)
  {
    case 1 then show ?case using Cons by (cases c) (simp_all add: AddDidToReadQueue_def WriteDid_def AbortDidUpdate_def)
  next
    case 2 then show ?case using Cons by (cases c) (simp_all add: AddDidToReadQueue_def WriteDid_def AbortDidUpdate_def)
  next
    case 3 then show ?case using Cons by (cases c) (auto simp: AddDidToReadQueue_def WriteDid_def AbortDidUpdate_def)
  }
qed simp_all

lemma wait_recorded:
  assumes "env_state st = (s, said)" "exchange env frame s = (calls, answer, s')" "x = (frame, calls, answer)"
    and "DidWaitForResponse (heard_env env) frame st = (ok, st')"
  shows "ok \<longleftrightarrow> heard x \<noteq> None" "env_state st' = (s', said @ [x])" "uds_sent st' = uds_sent st"
    "m_IsAborted st' \<longleftrightarrow> m_IsAborted st \<or> aborts x" "heard x = Some data \<Longrightarrow> m_Response st' = data"
  using assms
  by (auto simp: DidWaitForResponse_def heard_env_def Let_def heard_def aborts_def kIsoTpBufferSize_def
      split: if_splits option.splits list.splits)

lemma send_recorded:
  assumes "env_state st = (s, said)"
    and "SendUdsFrameAndWaitForResponse (heard_env env) frame st = (ok, st')"
  shows "\<exists>x s'. fst x = Some frame \<and> (ok \<longleftrightarrow> heard x \<noteq> None) \<and> env_state st' = (s', said @ [x]) \<and>
    uds_sent st' = uds_sent st @ [frame] \<and> (m_IsAborted st' \<longleftrightarrow> m_IsAborted st \<or> aborts x) \<and>
    (\<forall>data. heard x = Some data \<longrightarrow> m_Response st' = data)"
proof -
  obtain calls answer s' where e: "exchange env (Some frame) s = (calls, answer, s')" by (cases "exchange env (Some frame) s")
  note w = wait_recorded [OF _ e refl assms(2) [unfolded SendUdsFrameAndWaitForResponse_def], of said]
  show ?thesis by (rule exI [of _ "(Some frame, calls, answer)"], rule exI [of _ s']) (use assms(1) w in simp)
qed

lemma ResponseByte_message: "m_Response st = data \<Longrightarrow> ResponseByte i st = message_byte i data"
  by (simp add: ResponseByte_def message_byte_def)

lemma Classify_write:
  assumes "m_Response st = data"
  shows "ends_wait data \<longleftrightarrow>
    ClassifyPendingResponse kWriteDataByIdentifier (ResponseByte 0 st) (ResponseByte 1 st) (ResponseByte 2 st)
      \<in> {Positive, Rejected}"
  by (auto simp: ResponseByte_message [OF assms] ends_wait_def ClassifyPendingResponse_def uds_bytes)

lemma pending_write_recorded:
  assumes "settles env s" "env_state st = (s, said)"
  shows "\<exists>st' s' zs. pending_write (heard_env env) st = Some st' \<and> env_state st' = (s', said @ zs) \<and>
    waits (m_IsAborted st) zs \<and> uds_sent st' = uds_sent st \<and> List.map_filter fst zs = [] \<and>
    m_IsAborted st' = (m_IsAborted st \<or> (\<exists>z \<in> set zs. aborts z))"
  using assms
proof (induction s arbitrary: st said rule: settles.induct)
  case (1 s calls answer s')
  show ?case
  proof (cases "m_IsAborted st")
    case True
    then have "pending_write (heard_env env) st = Some st" by (subst pending_write.simps) simp
    then show ?thesis using True "1.prems" by (intro exI [of _ st] exI [of _ s] exI [of _ "[]"]) (simp add: waits.intros)
  next
    case False
    let ?x = "(None, calls, answer)"
    obtain ok st1 where w: "DidWaitForResponse (heard_env env) None st = (ok, st1)" by fastforce
    note r = wait_recorded [OF "1.prems" 1(1) refl w]
    have "pending_write (heard_env env) st = Some st1"
      by (subst pending_write.simps)
        (use False w r(1) r(5) 1(2) Classify_write [of st1] in \<open>auto simp: Let_def split: response_kind.splits\<close>)
    moreover have "waits False [?x]"
      using 1(2) by (cases "heard ?x") (auto intro: waits.intros)
    ultimately show ?thesis using False r by (intro exI [of _ st1] exI [of _ s'] exI [of _ "[?x]"]) (simp add: List.map_filter_def)
  qed
next
  case (2 s calls answer s')
  show ?case
  proof (cases "m_IsAborted st")
    case True
    then have "pending_write (heard_env env) st = Some st" by (subst pending_write.simps) simp
    then show ?thesis using True "2.prems" by (intro exI [of _ st] exI [of _ s] exI [of _ "[]"]) (simp add: waits.intros)
  next
    case False
    let ?x = "(None, calls, answer)"
    obtain ok st1 where w: "DidWaitForResponse (heard_env env) None st = (ok, st1)" by fastforce
    note r = wait_recorded [OF "2.prems" 2(1) refl w]
    show ?thesis
    proof (cases "\<exists>data. heard ?x = Some data \<and> \<not> ends_wait data")
      case True
      then obtain data where d: "heard ?x = Some data" "\<not> ends_wait data" by blast
      then have n: "\<not> aborts ?x" by (simp add: heard_def split: if_splits)
      have "pending_write (heard_env env) st = pending_write (heard_env env) st1"
        by (subst pending_write.simps)
          (use False w r(1) r(5) d Classify_write [of st1] in \<open>auto simp: Let_def split: response_kind.splits\<close>)
      then obtain st' s'' zs where "pending_write (heard_env env) st = Some st'" "env_state st' = (s'', (said @ [?x]) @ zs)"
          "waits (m_IsAborted st1) zs" "uds_sent st' = uds_sent st1" "List.map_filter fst zs = []"
          "m_IsAborted st' = (m_IsAborted st1 \<or> (\<exists>z \<in> set zs. aborts z))"
        using "2.IH" [OF r(2)] by metis
      then show ?thesis using False r(3,4) n d
        by (intro exI [of _ st'] exI [of _ s''] exI [of _ "?x # zs"]) (auto simp: List.map_filter_def intro: waits.intros)
    next
      case no: False
      have "pending_write (heard_env env) st = Some st1"
        by (subst pending_write.simps)
          (use False w r(1) r(5) no Classify_write [of st1] in \<open>auto simp: Let_def split: response_kind.splits\<close>)
      moreover have "waits False [?x]" using no by (cases "heard ?x") (auto intro: waits.intros)
      ultimately show ?thesis using False r by (intro exI [of _ st1] exI [of _ s'] exI [of _ "[?x]"]) (simp add: List.map_filter_def)
    qed
  qed
qed

lemma write_one_recorded:
  assumes "\<And>s. settles env s" "env_state st = (s, said)"
  shows "\<exists>st' s' xs. write_one (heard_env env) did v st = Some st' \<and> env_state st' = (s', said @ xs) \<and>
    uds_sent st' = uds_sent st @ List.map_filter fst xs \<and> m_IsAborted st' = (m_IsAborted st \<or> (\<exists>x \<in> set xs. aborts x)) \<and>
    (\<forall>ws later. write_dialogue (m_IsAborted st') ws later \<longrightarrow> write_dialogue (m_IsAborted st) ((did, v) # ws) (xs @ later))"
proof -
  have frames: "session_request = [0x10, 0x03]" "write_request did v = [0x2E, hi8 did, lo8 did] @ v"
    by (simp_all add: session_request_def write_request_def uds_bytes)
  obtain ok st1 where w1: "SendUdsFrameAndWaitForResponse (heard_env env) session_request st = (ok, st1)" by fastforce
  obtain x s1 where x: "fst x = Some session_request" "ok \<longleftrightarrow> heard x \<noteq> None" "env_state st1 = (s1, said @ [x])"
      "uds_sent st1 = uds_sent st @ [session_request]" "m_IsAborted st1 \<longleftrightarrow> m_IsAborted st \<or> aborts x"
    using send_recorded [OF assms(2) w1] by blast
  show ?thesis
  proof (cases ok)
    case False
    then have "write_one (heard_env env) did v st = Some st1" by (simp add: write_one_def w1)
    then show ?thesis using x False
      by (intro exI [of _ st1] exI [of _ s1] exI [of _ "[x]"])
        (auto simp: frames List.map_filter_def intro!: write_dialogue.intros(2))
  next
    case True
    then have quiet: "m_IsAborted st1 = m_IsAborted st" "\<not> aborts x" using x(2,5) by (auto simp: heard_def)
    obtain ok2 st2 where w2: "SendUdsFrameAndWaitForResponse (heard_env env) (write_request did v) st1 = (ok2, st2)" by fastforce
    obtain y s2 where y: "fst y = Some (write_request did v)" "ok2 \<longleftrightarrow> heard y \<noteq> None" "env_state st2 = (s2, (said @ [x]) @ [y])"
        "uds_sent st2 = uds_sent st1 @ [write_request did v]" "m_IsAborted st2 \<longleftrightarrow> m_IsAborted st1 \<or> aborts y"
        "\<And>data. heard y = Some data \<Longrightarrow> m_Response st2 = data"
      using send_recorded [OF x(3) w2] by blast
    have asks: "asks_to_wait data \<longleftrightarrow> ResponseByte 0 st2 = kNegativeResponse \<and> ResponseByte 1 st2 = kWriteDataByIdentifier \<and>
        ResponseByte 2 st2 = kResponsePending" if "heard y = Some data" for data
      by (simp add: ResponseByte_message [OF y(6) [OF that]] asks_to_wait_def uds_bytes)
    show ?thesis
    proof (cases "\<exists>data. heard y = Some data \<and> asks_to_wait data")
      case False
      then have "write_one (heard_env env) did v st = Some st2"
        using True y(2) asks by (auto simp: write_one_def w1 w2)
      then show ?thesis using x y quiet True False
        by (intro exI [of _ st2] exI [of _ s2] exI [of _ "[x, y]"])
          (auto simp: frames List.map_filter_def intro!: write_dialogue.intros(3))
    next
      case pending: True
      then obtain data where d: "heard y = Some data" "asks_to_wait data" by blast
      then have noty: "\<not> aborts y" by (auto simp: heard_def split: if_splits)
      obtain st' s' zs where zs: "pending_write (heard_env env) st2 = Some st'" "env_state st' = (s', ((said @ [x]) @ [y]) @ zs)"
          "waits (m_IsAborted st2) zs" "uds_sent st' = uds_sent st2" "List.map_filter fst zs = []"
          "m_IsAborted st' = (m_IsAborted st2 \<or> (\<exists>z \<in> set zs. aborts z))"
        using pending_write_recorded [OF assms(1) y(3)] by metis
      have "write_one (heard_env env) did v st = Some st'"
        using True y(2) d asks [OF d(1)] zs(1) by (auto simp: write_one_def w1 w2)
      moreover have "write_dialogue (m_IsAborted st) ((did, v) # ws) ((x # y # zs) @ later)"
        if "write_dialogue (m_IsAborted st') ws later" for ws later
        using write_dialogue.intros(4) [of x y did v data "m_IsAborted st" zs ws later] that x y d True zs quiet noty frames by simp
      ultimately show ?thesis using x(4) y(4,5) zs quiet noty x(1) y(1)
        by (intro exI [of _ st'] exI [of _ s'] exI [of _ "x # y # zs"]) (simp add: List.map_filter_def)
    qed
  qed
qed

lemma write_all_recorded:
  assumes "\<And>s. settles env s" "env_state st = (s, said)"
  shows "\<exists>st' s' xs. write_all (heard_env env) ws st = Some st' \<and> env_state st' = (s', said @ xs) \<and>
    uds_sent st' = uds_sent st @ List.map_filter fst xs \<and> write_dialogue (m_IsAborted st) ws xs"
  using assms(2)
proof (induction ws arbitrary: st s said)
  case Nil
  then show ?case by (auto simp: List.map_filter_def intro: write_dialogue.intros)
next
  case (Cons w ws)
  obtain did v where w: "w = (did, v)" by (cases w)
  obtain st1 s1 xs where one: "write_one (heard_env env) did v st = Some st1" "env_state st1 = (s1, said @ xs)"
      "uds_sent st1 = uds_sent st @ List.map_filter fst xs"
      "\<And>later. write_dialogue (m_IsAborted st1) ws later \<Longrightarrow> write_dialogue (m_IsAborted st) ((did, v) # ws) (xs @ later)"
    using write_one_recorded [OF assms(1) Cons.prems] by metis
  obtain st' s' ys where "write_all (heard_env env) ws st1 = Some st'" "env_state st' = (s', (said @ xs) @ ys)"
      "uds_sent st' = uds_sent st1 @ List.map_filter fst ys" "write_dialogue (m_IsAborted st1) ws ys"
    using Cons.IH [OF one(2)] by metis
  then show ?case using one
    by (intro exI [of _ st'] exI [of _ s'] exI [of _ "xs @ ys"]) (simp add: w List.map_filter_def)
qed

text \<open>C17: Writing is the dialogue with the ECU that the pending writes ask for.  In an environment in
  which every wait ends, writing returns.  What was said meanwhile is, for each write pending
  when it started, in the order of the identifiers, the session request, and exactly when the
  ECU answered it the write request with the value, followed by the wait that its answer asks
  for; the frames sent are those of the dialogue.  When it ends no write is pending.  Whatever
  the GUI does meanwhile is not sent: a write queued during one of the waits is dropped.\<close>

theorem HandleDidWriting_frames:
  assumes "\<And>s. settles env s" and "\<not> m_IsAborted st" and "env_state st = (s, [])"
  shows "\<exists>st' s' said. HandleDidWriting (heard_env env) st = Some st' \<and> env_state st' = (s', said) \<and>
    write_dialogue False (m_PendingDidWrites st) said \<and> uds_sent st' = uds_sent st @ List.map_filter fst said \<and>
    m_PendingDidWrites st' = [] \<and> \<not> m_IsAborted st'"
proof (cases "m_PendingDidWrites st = []")
  case True
  then show ?thesis using assms by (auto simp: HandleDidWriting_def Let_def List.map_filter_def intro: write_dialogue.intros)
next
  case False
  from write_all_recorded [OF assms(1,3)] obtain st1 s1 xs where
    "write_all (heard_env env) (m_PendingDidWrites st) st = Some st1" "env_state st1 = (s1, xs)"
    "uds_sent st1 = uds_sent st @ List.map_filter fst xs" "write_dialogue False (m_PendingDidWrites st) xs"
    using assms(2) by (metis append_Nil)
  then show ?thesis using False assms(2) by (auto simp: HandleDidWriting_def Let_def)
qed

text \<open>The ECU of the witness: it answers every session request, asks to wait after the write of
  identifier 2 and answers it then; the GUI queues a write of identifier 9 during the first
  wait.\<close>

definition sample_exchange :: "bytes option \<Rightarrow> nat \<Rightarrow> gui_call list \<times> bytes option \<times> nat" where
  "sample_exchange frame s =
     ((if s = 0 then [GuiWrite 9 [1]] else []),
      Some (case frame of None \<Rightarrow> [0x6E, 0, 0] | Some f \<Rightarrow> (if hd f = 0x2E then [0x7F, 0x2E, 0x78] else [0x50, 3])),
      s + 1)"

definition write_env :: "nat did_env" where
  "write_env = \<lparr>exchange = sample_exchange, clock = (\<lambda>_. 7), hex = (\<lambda>data. concat (map hex_pair data))\<rparr>"

definition write_state :: "(nat \<times> spoken list) did_state" where
  "write_state = \<lparr>m_DidList = (\<lambda>_. None), m_PendingDidReads = [], m_PendingDidWrites = [(2, [0xAA]), (3, [0xBB])],
     m_UpdatedDids = [], m_IsAborted = False, m_Response = [], uds_sent = [], env_state = (0, [])\<rparr>"

lemma write_env_settles: "settles write_env s"
  by (rule settles.intros(1) [where calls = "if s = 0 then [GuiWrite 9 [1]] else []" and answer = "Some [0x6E, 0, 0]" and s' = "s + 1"])
    (auto simp: write_env_def sample_exchange_def heard_def ends_wait_def message_byte_def split: if_splits)

theorem HandleDidWriting_frames_witness:
  "\<exists>st' s' said. HandleDidWriting (heard_env write_env) write_state = Some st' \<and> env_state st' = (s', said) \<and>
     write_dialogue False [(2, [0xAA]), (3, [0xBB])] said \<and> uds_sent st' = List.map_filter fst said \<and>
     m_PendingDidWrites st' = []"
proof -
  have "\<not> m_IsAborted write_state" "env_state write_state = (0, [])" "uds_sent write_state = []"
    "m_PendingDidWrites write_state = [(2, [0xAA]), (3, [0xBB])]" by (simp_all add: write_state_def)
  with HandleDidWriting_frames [OF write_env_settles, of write_state 0] show ?thesis by auto
qed

section \<open>Reading the queue\<close>

text \<open>C16: The read queue of a responsive ECU.  The ECU answers the session request, and answers every
  read request, after any number of ``response pending'' messages, from its memory or with
  ``request out of range''.  Then reading returns, the queue is empty, the frames sent are the
  session request and the read request of each queued identifier in the order of the queue,
  each queued entry shows what the memory holds for it, and no other entry changes.  The two
  identifier bytes \<open>x\<close>, \<open>y\<close> that the answer echoes may be anything: the value of an answer
  to another identifier is shown all the same.\<close>

theorem HandleDidReading_responsive:
  assumes "responsive env mem" and "\<not> m_IsAborted st"
    and "\<And>did. did \<in> set (m_PendingDidReads st) \<Longrightarrow> map_option de_id (m_DidList st did) = Some did"
  shows "\<exists>st'. HandleDidReading env st = Some (Inr st') \<and> m_PendingDidReads st' = [] \<and>
    uds_sent st' = uds_sent st @ queue_request (m_PendingDidReads st) \<and>
    (\<forall>did. entry_read env mem (m_PendingDidReads st) st st' did)"
  using read_loop_responsive [OF assms(1,2) refl assms(3)] by (auto simp: HandleDidReading_def)

text \<open>The ECU of the witness gives one pending answer to each request, and echoes a wrong
  identifier for 0x0100.\<close>

definition read_mem :: ecu_memory where
  "read_mem = [0x0100 \<mapsto> (0, 0, [0x12, 0x34])]"

definition read_exchange :: "bytes option \<Rightarrow> bytes \<Rightarrow> gui_call list \<times> bytes option \<times> bytes" where
  "read_exchange frame s =
     (case frame of
        None \<Rightarrow> ([], Some s, s)
      | Some f \<Rightarrow> if f = session_request then ([], Some [0x50, 3], s)
          else ([], Some [kNegativeResponse, kReadDataByIdentifier, kResponsePending], final_answer read_mem (be16 (f ! 1) (f ! 2))))"

definition read_env :: "bytes did_env" where
  "read_env = \<lparr>exchange = read_exchange, clock = (\<lambda>_. 7), hex = (\<lambda>data. concat (map hex_pair data))\<rparr>"

definition read_state :: "bytes did_state" where
  "read_state = \<lparr>m_DidList = [0x0100 \<mapsto> new_did_entry 0x0100 DET_UI16 ''Speed'' [] [] 2,
       5 \<mapsto> new_did_entry 5 DET_STRING ''VIN'' [] [] 17],
     m_PendingDidReads = [0x0100, 5], m_PendingDidWrites = [],
     m_UpdatedDids = [], m_IsAborted = False, m_Response = [], uds_sent = [], env_state = []\<rparr>"

lemma read_env_responsive: "responsive read_env read_mem"
proof -
  have "answers_after read_env 1 (final_answer read_mem did) (exchange read_env (Some (read_request did)) s)" for s did
    by (simp add: read_env_def read_exchange_def read_request_def session_request_def uds_bytes)
  moreover have "\<exists>r s'. exchange read_env (Some session_request) s = ([], Some r, s') \<and> r \<noteq> []" for s
    by (simp add: read_env_def read_exchange_def)
  moreover have "read_mem did = Some (x, y, v) \<Longrightarrow> length v + 3 \<le> kIsoTpBufferSize" for did x y v
    by (auto simp: read_mem_def kIsoTpBufferSize_def split: if_splits)
  ultimately show ?thesis unfolding responsive_def by blast
qed

theorem HandleDidReading_responsive_witness:
  "\<exists>st'. HandleDidReading read_env read_state = Some (Inr st') \<and>
     uds_sent st' = [[0x10, 3], [0x22, 1, 0], [0x10, 3], [0x22, 0, 5]] \<and>
     map_option de_value_str (m_DidList st' 0x0100) = Some ''3412'' \<and>
     map_option de_nrc (m_DidList st' 5) = Some 0x31"
proof -
  have q: "m_PendingDidReads read_state = [0x0100, 5]" and u: "uds_sent read_state = []" and a: "\<not> m_IsAborted read_state"
    and e: "m_DidList read_state 0x0100 = Some (new_did_entry 0x0100 DET_UI16 ''Speed'' [] [] 2)"
    "m_DidList read_state 5 = Some (new_did_entry 5 DET_STRING ''VIN'' [] [] 17)"
    by (simp_all add: read_state_def)
  have ids: "map_option de_id (m_DidList read_state did) = Some did" if "did \<in> set (m_PendingDidReads read_state)" for did
    using that e by (auto simp: q new_did_entry_def)
  have v: "value_text read_env DET_UI16 [0x12, 0x34] [] = ''3412''"
  proof -
    have "[0..<2] = [0, Suc 0]" by (simp add: upt_rec)
    then show ?thesis
      by (simp add: value_text_def did_IsInteger_def IntegerWidth_def hex_upper_def to_chars16.simps toupper_def Let_def)
  qed
  from HandleDidReading_responsive [OF read_env_responsive a ids] obtain st' where
    st': "HandleDidReading read_env read_state = Some (Inr st')" "uds_sent st' = queue_request [0x0100, 5]"
    and each: "\<And>did. entry_read read_env read_mem [0x0100, 5] read_state st' did" by (auto simp: q u)
  have "map_option de_value_str (m_DidList st' 0x0100) = Some ''3412''"
    using each [of "0x0100"] v by (auto simp: entry_read_def e shows_memory_def read_mem_def new_did_entry_def split: option.splits)
  moreover have "map_option de_nrc (m_DidList st' 5) = Some 0x31"
    using each [of 5] by (auto simp: entry_read_def e shows_memory_def read_mem_def kRequestOutOfRange_def split: option.splits)
  moreover have "queue_request [0x0100, 5] = [[0x10, 3], [0x22, 1, 0], [0x10, 3], [0x22, 0, 5]]"
    by (simp add: queue_request_def session_request_def read_request_def hi8_def lo8_def uds_bytes)
  ultimately show ?thesis using st' by auto
qed

text \<open>Retries.  The retry limit counts unanswered session requests only.  When the ECU never
  answers the session request, reading ends after six of them with the queue emptied and the
  entries unchanged; when it answers the session requests and no read request, reading never
  ends.\<close>

theorem HandleDidReading_unanswered:
  assumes "m_PendingDidReads st = did # rest" and "\<not> m_IsAborted st" and "m_DidList st did = Some e"
  shows "((\<forall>s. \<exists>s'. exchange silent (Some session_request) s = ([], None, s')) \<longrightarrow>
      (\<exists>st'. HandleDidReading silent st = Some (Inr st') \<and> m_PendingDidReads st' = [] \<and> m_DidList st' = m_DidList st \<and>
        uds_sent st' = uds_sent st @ replicate 6 session_request)) \<and>
    (read_unanswered env \<longrightarrow> HandleDidReading env st = None)"
proof (intro conjI impI)
  assume s: "\<forall>s. \<exists>s'. exchange silent (Some session_request) s = ([], None, s')"
  show "\<exists>st'. HandleDidReading silent st = Some (Inr st') \<and> m_PendingDidReads st' = [] \<and> m_DidList st' = m_DidList st \<and>
        uds_sent st' = uds_sent st @ replicate 6 session_request"
    using read_loop_silent [of silent st 0] s assms by (simp add: HandleDidReading_def MAX_EXTENDED_SESSION_RETRIES_def)
next
  assume "read_unanswered env"
  then show "HandleDidReading env st = None"
    using read_loop_diverges [of env 0 st _ did rest e] assms by (cases "HandleDidReading env st") (auto simp: HandleDidReading_def)
qed

theorem HandleDidReading_unanswered_witness:
  "(\<exists>st'. HandleDidReading (read_env\<lparr>exchange := \<lambda>_ s. ([], None, s)\<rparr>) read_state = Some (Inr st') \<and>
      uds_sent st' = replicate 6 session_request) \<and>
    HandleDidReading (read_env\<lparr>exchange := \<lambda>frame s. ([], if frame = Some session_request then Some [0x50, 3] else None, s)\<rparr>)
      read_state = None"
proof -
  have "read_unanswered (read_env\<lparr>exchange := \<lambda>frame s. ([], if frame = Some session_request then Some [0x50, 3] else None, s)\<rparr>)"
    by (simp add: read_unanswered_def read_request_def session_request_def)
  with HandleDidReading_unanswered [of read_state "0x0100" "[5]" "new_did_entry 0x0100 DET_UI16 ''Speed'' [] [] 2"
      "read_env\<lparr>exchange := \<lambda>_ s. ([], None, s)\<rparr>"
      "read_env\<lparr>exchange := \<lambda>frame s. ([], if frame = Some session_request then Some [0x50, 3] else None, s)\<rparr>"]
  show ?thesis by (auto simp: read_state_def)
qed

text \<open>Abort while idle.  \<open>AbortDidUpdate\<close> leaves the abort flag set when no update runs, and
  only the end of a worker turn clears it: the turn notified by the next read or write sends
  nothing, and leaves in the queue what has been queued since.\<close>

theorem AbortDidUpdate_idle:
  "did_worker_turn env (fold apply_gui calls (AbortDidUpdate st)) =
     Some (Inr ((fold apply_gui calls (AbortDidUpdate st))\<lparr>m_IsAborted := False\<rparr>))"
proof -
  have "m_IsAborted (fold apply_gui calls st)" if "m_IsAborted st" for st :: "'a did_state"
    using that
  proof (induction calls arbitrary: st)
    case (Cons c calls)
    then show ?case by (cases c) (simp_all add: AddDidToReadQueue_def WriteDid_def AbortDidUpdate_def)
  qed simp
  then have "m_IsAborted (fold apply_gui calls (AbortDidUpdate st))" by (simp add: AbortDidUpdate_def)
  then show ?thesis
    by (simp add: did_worker_turn_def HandleDidReading_def read_loop.simps HandleDidWriting_def Let_def)
qed

end
