(* ===== verification/TcpSession.thy ===== *)
theory TcpSession
  imports TcpMessages "HOL-Library.Multiset"
begin

text \<open>
  One TCP connection of the back end.  Source: \<open>src/Session.cpp\<close>, \<open>src/Session.hpp\<close>.  A state holds
  the session's fields, which asynchronous operations are outstanding, and as a record of the
  run the messages accepted for sending, the messages written, and the calls the executor
  made.  \<open>session_run\<close> is the step relation: the completions that \<open>boost::asio\<close> may deliver and
  the broadcasts of the server, in any order.
\<close>

section \<open>State and handlers\<close>

record session =
  receivedData :: string
  pendingMessages :: "string list"
  sentData :: string
  writeInProgress :: bool
  is_close_pending :: bool
  socket_open :: bool
  reading :: bool
  timer_armed :: bool
  accepted :: "string list"
  written :: "string list"
  effects :: "tcp_effect list"

text \<open>A session after \<open>StartAsync\<close>.\<close>

definition started_session :: session where
  "started_session =
     \<lparr>receivedData = [], pendingMessages = [], sentData = [], writeInProgress = False, is_close_pending = False,
      socket_open = True, reading = True, timer_armed = False, accepted = [], written = [], effects = []\<rparr>"

definition StopAsync :: "session \<Rightarrow> session" where
  "StopAsync s = (if socket_open s then s\<lparr>socket_open := False\<rparr> else s)"

definition SendAsync :: "string \<Rightarrow> session \<Rightarrow> session" where
  "SendAsync buffer s =
     (if writeInProgress s then s\<lparr>pendingMessages := pendingMessages s @ [buffer], timer_armed := True\<rparr>
      else s\<lparr>sentData := buffer, writeInProgress := True\<rparr>)"

text \<open>The part common to both handlers: the front message is sent again and taken off the
  queue, or the connection closes.\<close>

definition send_front_or_close :: "session \<Rightarrow> session" where
  "send_front_or_close s =
     (if pendingMessages s \<noteq> [] then
        let s1 = SendAsync (hd (pendingMessages s)) s in s1\<lparr>pendingMessages := tl (pendingMessages s1)\<rparr>
      else if is_close_pending s then StopAsync s else s)"

definition HandleWrite :: "bool \<Rightarrow> session \<Rightarrow> session" where
  "HandleWrite error s =
     (let s1 = s\<lparr>writeInProgress := False\<rparr> in
      if \<not> error then send_front_or_close (s1\<lparr>written := written s1 @ [sentData s1]\<rparr>)
      else s1\<lparr>pendingMessages := []\<rparr>)"

definition HandleTransferTimer :: "session \<Rightarrow> session" where
  "HandleTransferTimer s = send_front_or_close (s\<lparr>timer_armed := False\<rparr>)"

text \<open>A message handed to the session, by the executor's answer or by a broadcast.\<close>

definition accept_message :: "string \<Rightarrow> session \<Rightarrow> session" where
  "accept_message buffer s = SendAsync buffer (s\<lparr>accepted := accepted s @ [buffer]\<rparr>)"

definition HandleRead :: "tcp_env \<Rightarrow> string \<Rightarrow> session \<Rightarrow> session" where
  "HandleRead env data s0 =
     (let s = s0\<lparr>reading := False\<rparr> in
      if MaxMessageSize - length (receivedData s) < length data then StopAsync s
      else
        let s1 = s\<lparr>receivedData := receivedData s @ data\<rparr>;
            (calls, ret) = TcpProcess env (BoundedMessage (receivedData s1) (length (receivedData s1)));
            s2 = s1\<lparr>effects := effects s1 @ calls\<rparr>
        in if response ret \<noteq> [] then
             let s3 = accept_message (response ret) s2
             in if should_close ret then s3\<lparr>is_close_pending := True\<rparr> else s3
           else if \<not> recognized ret \<and> length (receivedData s2) < MaxMessageSize \<and> socket_open s2
           then s2\<lparr>reading := True\<rparr>
           else if should_close ret then StopAsync s2 else s2)"

section \<open>Runs\<close>

datatype session_event = ReadDone string | ReadFailed | WriteDone | WriteFailed | TimerFired | Broadcast string

fun event_enabled :: "session_event \<Rightarrow> session \<Rightarrow> bool" where
  "event_enabled (ReadDone data) s \<longleftrightarrow> reading s"
| "event_enabled ReadFailed s \<longleftrightarrow> reading s"
| "event_enabled WriteDone s \<longleftrightarrow> writeInProgress s"
| "event_enabled WriteFailed s \<longleftrightarrow> writeInProgress s"
| "event_enabled TimerFired s \<longleftrightarrow> timer_armed s"
| "event_enabled (Broadcast message) s \<longleftrightarrow> True"

fun handle_event :: "tcp_env \<Rightarrow> session_event \<Rightarrow> session \<Rightarrow> session" where
  "handle_event env (ReadDone data) s = HandleRead env data s"
| "handle_event env ReadFailed s = s\<lparr>reading := False\<rparr>"
| "handle_event env WriteDone s = HandleWrite False s"
| "handle_event env WriteFailed s = HandleWrite True s"
| "handle_event env TimerFired s = HandleTransferTimer s"
| "handle_event env (Broadcast message) s = accept_message message s"

inductive session_run :: "tcp_env \<Rightarrow> session \<Rightarrow> session_event list \<Rightarrow> session \<Rightarrow> bool" for env where
  done_run: "session_run env s [] s"
| event_run: "event_enabled e s \<Longrightarrow> session_run env (handle_event env e s) events s' \<Longrightarrow> session_run env s (e # events) s'"

inductive_simps session_run_Nil: "session_run env s [] s'"
inductive_simps session_run_Cons: "session_run env s (e # events) s'"

code_pred (modes: i \<Rightarrow> i \<Rightarrow> i \<Rightarrow> o \<Rightarrow> bool) session_run .

section \<open>Messages are conserved\<close>

definition in_flight :: "session \<Rightarrow> string multiset" where
  "in_flight s = (if writeInProgress s then {#sentData s#} else {#})"

definition held :: "session \<Rightarrow> string multiset" where
  "held s = mset (written s) + in_flight s + mset (pendingMessages s)"

definition session_ok :: "session \<Rightarrow> bool" where
  "session_ok s \<longleftrightarrow>
     length (receivedData s) \<le> MaxMessageSize \<and> (pendingMessages s \<noteq> [] \<longrightarrow> writeInProgress s)"

lemma StopAsync_fields [simp]:
  "receivedData (StopAsync s) = receivedData s" "pendingMessages (StopAsync s) = pendingMessages s"
  "sentData (StopAsync s) = sentData s" "writeInProgress (StopAsync s) = writeInProgress s"
  "accepted (StopAsync s) = accepted s" "written (StopAsync s) = written s"
  by (simp_all add: StopAsync_def)

lemma held_StopAsync [simp]: "held (StopAsync s) = held s" and session_ok_StopAsync [simp]: "session_ok (StopAsync s) = session_ok s"
  by (simp_all add: held_def in_flight_def session_ok_def)

lemma SendAsync_fields [simp]:
  "receivedData (SendAsync m s) = receivedData s" "accepted (SendAsync m s) = accepted s"
  "written (SendAsync m s) = written s" "writeInProgress (SendAsync m s)"
  by (simp_all add: SendAsync_def)

lemma held_SendAsync: "session_ok s \<Longrightarrow> held (SendAsync m s) = add_mset m (held s)"
  by (auto simp: held_def in_flight_def SendAsync_def)

lemma session_ok_SendAsync [simp]: "session_ok s \<Longrightarrow> session_ok (SendAsync m s)"
  by (auto simp: session_ok_def)

lemma accept_message_effect:
  assumes "session_ok s"
  shows "held (accept_message m s) = add_mset m (held s)" and "accepted (accept_message m s) = accepted s @ [m]"
    and "session_ok (accept_message m s)"
proof -
  have "session_ok (s\<lparr>accepted := accepted s @ [m]\<rparr>)" "held (s\<lparr>accepted := accepted s @ [m]\<rparr>) = held s"
    using assms by (simp_all add: session_ok_def held_def in_flight_def)
  then show "held (accept_message m s) = add_mset m (held s)" "accepted (accept_message m s) = accepted s @ [m]"
    "session_ok (accept_message m s)"
    by (simp_all add: accept_message_def held_SendAsync)
qed

text \<open>While a write is in progress the timer only moves the front message to the back.\<close>

lemma HandleTransferTimer_rotates:
  assumes "session_ok s" and "pendingMessages s \<noteq> []"
  shows "HandleTransferTimer s = s\<lparr>pendingMessages := tl (pendingMessages s) @ [hd (pendingMessages s)], timer_armed := True\<rparr>"
  using assms by (cases "pendingMessages s") (auto simp: HandleTransferTimer_def send_front_or_close_def SendAsync_def session_ok_def Let_def)

lemma HandleTransferTimer_effect:
  assumes "session_ok s"
  shows "held (HandleTransferTimer s) = held s" and "accepted (HandleTransferTimer s) = accepted s"
    and "session_ok (HandleTransferTimer s)" and "receivedData (HandleTransferTimer s) = receivedData s"
    and "written (HandleTransferTimer s) = written s" and "writeInProgress (HandleTransferTimer s) = writeInProgress s"
proof -
  have *: "held (HandleTransferTimer s) = held s \<and> accepted (HandleTransferTimer s) = accepted s \<and>
    session_ok (HandleTransferTimer s) \<and> receivedData (HandleTransferTimer s) = receivedData s \<and>
    written (HandleTransferTimer s) = written s \<and> writeInProgress (HandleTransferTimer s) = writeInProgress s"
  proof (cases "pendingMessages s = []")
    case True
    with assms show ?thesis
      by (simp add: HandleTransferTimer_def send_front_or_close_def held_def in_flight_def session_ok_def)
  next
    case False
    then show ?thesis
      using assms HandleTransferTimer_rotates [OF assms False]
      by (cases "pendingMessages s") (simp_all add: held_def in_flight_def session_ok_def)
  qed
  then show "held (HandleTransferTimer s) = held s" "accepted (HandleTransferTimer s) = accepted s"
    "session_ok (HandleTransferTimer s)" "receivedData (HandleTransferTimer s) = receivedData s"
    "written (HandleTransferTimer s) = written s" "writeInProgress (HandleTransferTimer s) = writeInProgress s"
    by blast+
qed

lemma HandleWrite_effect:
  assumes "session_ok s" and "writeInProgress s"
  shows "held (HandleWrite False s) = held s" and "held (HandleWrite True s) \<subseteq># held s"
    and "accepted (HandleWrite error s) = accepted s" and "session_ok (HandleWrite error s)"
proof -
  show "held (HandleWrite False s) = held s"
    using assms
    by (cases "pendingMessages s")
      (simp_all add: HandleWrite_def send_front_or_close_def SendAsync_def held_def in_flight_def Let_def)
  show "held (HandleWrite True s) \<subseteq># held s"
    by (simp add: HandleWrite_def held_def in_flight_def Let_def)
  show "accepted (HandleWrite error s) = accepted s" "session_ok (HandleWrite error s)"
    using assms
    by (cases "pendingMessages s";
        simp add: HandleWrite_def send_front_or_close_def SendAsync_def session_ok_def Let_def)+
qed

lemma HandleRead_effect:
  assumes "session_ok s"
  shows "session_ok (HandleRead env data s) \<and>
    (\<exists>sent. accepted (HandleRead env data s) = accepted s @ sent \<and> held (HandleRead env data s) = held s + mset sent)"
proof (cases "MaxMessageSize - length (receivedData s) < length data")
  case True
  then show ?thesis
    using assms by (simp add: HandleRead_def) (simp add: session_ok_def held_def in_flight_def)
next
  case False
  obtain calls ret where p: "TcpProcess env (BoundedMessage (receivedData s @ data) (length (receivedData s @ data))) = (calls, ret)"
    by fastforce
  define s2 where "s2 = s\<lparr>reading := False, receivedData := receivedData s @ data, effects := effects s @ calls\<rparr>"
  have s2: "session_ok s2" "held s2 = held s" "accepted s2 = accepted s"
    using assms False by (auto simp: s2_def session_ok_def held_def in_flight_def)
  have h: "HandleRead env data s =
    (if response ret \<noteq> [] then
       if should_close ret then (accept_message (response ret) s2)\<lparr>is_close_pending := True\<rparr> else accept_message (response ret) s2
     else if \<not> recognized ret \<and> length (receivedData s2) < MaxMessageSize \<and> socket_open s2 then s2\<lparr>reading := True\<rparr>
     else if should_close ret then StopAsync s2 else s2)"
    using False p by (simp add: HandleRead_def Let_def s2_def)
  show ?thesis
  proof (cases "response ret = []")
    case True
    have "session_ok (s2\<lparr>reading := True\<rparr>)" "held (s2\<lparr>reading := True\<rparr>) = held s2"
      using s2(1) by (simp_all add: session_ok_def held_def in_flight_def)
    then show ?thesis using True s2 by (simp add: h)
  next
    case False
    note a = accept_message_effect [OF s2(1), of "response ret"]
    have "session_ok ((accept_message (response ret) s2)\<lparr>is_close_pending := True\<rparr>)"
      "held ((accept_message (response ret) s2)\<lparr>is_close_pending := True\<rparr>) = held (accept_message (response ret) s2)"
      using a(3) by (simp_all add: session_ok_def held_def in_flight_def)
    then show ?thesis using False a s2 by (intro conjI exI [of _ "[response ret]"]) (simp_all add: h)
  qed
qed

text \<open>What one event does to the messages held and accepted.\<close>

definition conserved :: "session \<Rightarrow> bool" where
  "conserved s \<longleftrightarrow> held s = mset (accepted s)"

lemma handle_event_conserves:
  assumes "session_ok s" and "event_enabled e s"
  shows "session_ok (handle_event env e s) \<and>
    (held s \<subseteq># mset (accepted s) \<longrightarrow> held (handle_event env e s) \<subseteq># mset (accepted (handle_event env e s))) \<and>
    (e \<noteq> WriteFailed \<and> conserved s \<longrightarrow> conserved (handle_event env e s))"
proof (cases e)
  case (ReadDone data)
  obtain sent where "accepted (HandleRead env data s) = accepted s @ sent" "held (HandleRead env data s) = held s + mset sent"
    using HandleRead_effect [OF assms(1)] by blast
  with ReadDone HandleRead_effect [OF assms(1)] show ?thesis by (auto simp: conserved_def)
next
  case ReadFailed
  with assms show ?thesis by (simp add: held_def in_flight_def session_ok_def conserved_def)
next
  case WriteDone
  with assms show ?thesis using HandleWrite_effect [OF assms(1)] by (simp add: conserved_def)
next
  case WriteFailed
  with assms show ?thesis using HandleWrite_effect [OF assms(1)] by (auto intro: subset_mset.trans)
next
  case TimerFired
  with assms show ?thesis using HandleTransferTimer_effect [OF assms(1)] by (simp add: conserved_def)
next
  case (Broadcast m)
  with assms show ?thesis using accept_message_effect [OF assms(1), of m] by (simp add: conserved_def)
qed

lemma session_run_conserves:
  "session_run env s events s' \<Longrightarrow> session_ok s \<Longrightarrow>
   session_ok s' \<and> (held s \<subseteq># mset (accepted s) \<longrightarrow> held s' \<subseteq># mset (accepted s')) \<and>
   (WriteFailed \<notin> set events \<and> conserved s \<longrightarrow> conserved s')"
proof (induction rule: session_run.induct)
  case (event_run e s events s')
  with handle_event_conserves [OF event_run.prems event_run.hyps(1), of env] show ?case by auto
qed simp

text \<open>C18: Every message a session accepts is written, in flight or queued at most once, and exactly once
  as long as no write fails; at most \<open>MaxMessageSize\<close> characters are buffered, whatever lengths
  the transport reports; and messages wait only while a write is in progress, so that none is
  forgotten: the completion of that write sends the next one.\<close>

theorem session_conserves_messages:
  assumes "session_run env started_session events s"
  shows "held s \<subseteq># mset (accepted s) \<and> (WriteFailed \<notin> set events \<longrightarrow> held s = mset (accepted s)) \<and> session_ok s"
proof -
  have "session_ok started_session" "conserved started_session" "held started_session \<subseteq># mset (accepted started_session)"
    by (simp_all add: started_session_def session_ok_def conserved_def held_def in_flight_def)
  with session_run_conserves [OF assms] show ?thesis by (auto simp: conserved_def)
qed

text \<open>The timer that fires while a message is being written sends nothing and changes the order
  of the messages that wait; with none waiting, it closes the connection under the answer.\<close>

definition sample_tcp_env :: tcp_env where
  "sample_tcp_env = \<lparr>graph_file = (\<lambda>_. Some ''<html>''), shared_drive_letter = None, is_directory = (\<lambda>_. False)\<rparr>"

definition timer_run :: "session_event list" where
  "timer_run = [Broadcast ''A'', Broadcast ''B'', Broadcast ''C'', TimerFired, WriteDone, WriteDone, WriteDone]"

definition timer_end :: session where
  "timer_end = fold (handle_event sample_tcp_env) timer_run started_session"

lemma timer_reorders:
  "session_run sample_tcp_env started_session timer_run timer_end \<and>
   accepted timer_end = [''A'', ''B'', ''C''] \<and> written timer_end = [''A'', ''C'', ''B'']"
  by (simp add: timer_end_def timer_run_def session_run_Cons session_run_Nil started_session_def accept_message_def SendAsync_def
      HandleTransferTimer_def HandleWrite_def send_front_or_close_def Let_def)

theorem session_conserves_messages_witness:
  "held timer_end = {#''A'', ''B'', ''C''#} \<and> session_ok timer_end"
proof -
  have "WriteFailed \<notin> set timer_run" by (simp add: timer_run_def)
  with session_conserves_messages [OF timer_reorders [THEN conjunct1]] timer_reorders show ?thesis by simp
qed

text \<open>An answer in flight is cut: a request arrives while a broadcast is being written, its answer is
  queued and then sent, and the timer armed for it fires before the write completes.\<close>

lemma timer_closes_under_answer:
  "let s = fold (handle_event sample_tcp_env)
        [Broadcast ''A'', ReadDone ''GET /CO2 HTTP/1.1'', WriteDone, TimerFired] started_session
   in session_run sample_tcp_env started_session
        [Broadcast ''A'', ReadDone ''GET /CO2 HTTP/1.1'', WriteDone, TimerFired] s \<and>
      writeInProgress s \<and> \<not> socket_open s \<and> written s = [''A'']"
proof -
  have p: "TcpProcess sample_tcp_env ''GET /CO2 HTTP/1.1'' =
    ([], \<lparr>should_close = True, recognized = True, response = BuildHttpResponse ''200 OK'' (ContentTypeFor ''CO2.html'') ''<html>''\<rparr>)"
    by (simp add: TcpProcess_def TcpParse_def starts_with_def GraphRoutes_def MatchesHttpRoute_def HandleGraphs_def sample_tcp_env_def)
  have ne: "BuildHttpResponse status type body \<noteq> []" for status type body by (simp add: BuildHttpResponse_def)
  show ?thesis
    by (simp add: session_run_Cons session_run_Nil started_session_def accept_message_def SendAsync_def HandleRead_def p ne
        BoundedMessage_def MaxMessageSize_def HandleTransferTimer_def HandleWrite_def send_front_or_close_def StopAsync_def Let_def)
qed

end
