(* ===== verification/TimeLogic.thy ===== *)
theory TimeLogic
  imports Addon_Prelude "HOL-Library.Multiset"
begin

text \<open>
  The pure rules of the time tracker.  Source: \<open>src/TimeTrackerLogic.cpp\<close>,
  \<open>src/TimeTrackerLogic.hpp\<close>.  Times are seconds.  \<open>std::ranges::sort\<close> leaves the order of
  equal starts open, so the loops take the order as an argument, and the flags are shown not
  to depend on it.  The label with floating point hours is not modelled.
\<close>

section \<open>Overlaps\<close>

record interval =
  iv_start :: int
  iv_end :: int

text \<open>The inner loop, over the intervals that start no earlier than the left one.\<close>

fun mark_overlaps :: "interval list \<Rightarrow> nat \<Rightarrow> nat list \<Rightarrow> bool list \<Rightarrow> bool list" where
  "mark_overlaps intervals left [] overlaps = overlaps"
| "mark_overlaps intervals left (right # rest) overlaps =
     (let first = intervals ! left; second = intervals ! right in
      if iv_end first \<le> iv_start second then overlaps
      else mark_overlaps intervals left rest
        (if iv_start second < iv_end second \<and> iv_start first < iv_end second
         then overlaps[left := True, right := True] else overlaps))"

fun detect_overlaps :: "interval list \<Rightarrow> nat list \<Rightarrow> bool list \<Rightarrow> bool list" where
  "detect_overlaps intervals [] overlaps = overlaps"
| "detect_overlaps intervals (left # rest) overlaps =
     (if iv_end (intervals ! left) \<le> iv_start (intervals ! left) then detect_overlaps intervals rest overlaps
      else detect_overlaps intervals rest (mark_overlaps intervals left rest overlaps))"

definition DetectOverlaps_in :: "nat list \<Rightarrow> interval list \<Rightarrow> bool list" where
  "DetectOverlaps_in order intervals = detect_overlaps intervals order (replicate (length intervals) False)"

definition DetectOverlaps :: "interval list \<Rightarrow> bool list" where
  "DetectOverlaps intervals =
     DetectOverlaps_in (sort_key (\<lambda>index. iv_start (intervals ! index)) [0..<length intervals]) intervals"

definition ShouldPersistElapsedMinute :: "int \<Rightarrow> int \<Rightarrow> bool" where
  "ShouldPersistElapsedMinute elapsed_seconds last_persisted_minute =
     (if elapsed_seconds < 0 then False else last_persisted_minute < elapsed_seconds div 60)"

definition ContinuationName :: "string \<Rightarrow> string" where
  "ContinuationName comment = comment @ '' #2''"

subsection \<open>The reference\<close>

text \<open>Two intervals share time: both have some, and each starts before the other ends.\<close>

definition share_time :: "interval \<Rightarrow> interval \<Rightarrow> bool" where
  "share_time a b \<longleftrightarrow>
     iv_start a < iv_end a \<and> iv_start b < iv_end b \<and> iv_start a < iv_end b \<and> iv_start b < iv_end a"

definition overlaps_other :: "interval list \<Rightarrow> nat \<Rightarrow> bool" where
  "overlaps_other intervals i \<longleftrightarrow> list_ex (\<lambda>j. j \<noteq> i \<and> share_time (intervals ! i) (intervals ! j)) [0..<length intervals]"

text \<open>An order of the indices by start.\<close>

definition start_order :: "interval list \<Rightarrow> nat list \<Rightarrow> bool" where
  "start_order intervals order \<longleftrightarrow>
     mset order = mset [0..<length intervals] \<and> sorted_wrt (\<lambda>i j. iv_start (intervals ! i) \<le> iv_start (intervals ! j)) order"

lemma share_time_sym: "share_time a b = share_time b a"
  by (auto simp: share_time_def)

lemma length_mark_overlaps [simp]: "length (mark_overlaps intervals left rest overlaps) = length overlaps"
  by (induction rest arbitrary: overlaps) (simp_all add: Let_def)

lemma mark_overlaps_nth:
  assumes "sorted_wrt (\<lambda>i j. iv_start (intervals ! i) \<le> iv_start (intervals ! j)) (left # rest)"
    and "iv_start (intervals ! left) < iv_end (intervals ! left)"
    and "set (left # rest) \<subseteq> {..<length overlaps}" and "k < length overlaps"
  shows "mark_overlaps intervals left rest overlaps ! k \<longleftrightarrow>
    overlaps ! k \<or> (\<exists>right\<in>set rest. share_time (intervals ! left) (intervals ! right) \<and> (k = left \<or> k = right))"
  using assms
proof (induction rest arbitrary: overlaps)
  case (Cons right rest)
  show ?case
  proof (cases "iv_end (intervals ! left) \<le> iv_start (intervals ! right)")
    case True
    have "\<not> share_time (intervals ! left) (intervals ! r)" if "r \<in> set (right # rest)" for r
    proof -
      have "iv_start (intervals ! right) \<le> iv_start (intervals ! r)" using that Cons.prems(1) by auto
      with True show ?thesis by (auto simp: share_time_def)
    qed
    with True show ?thesis by (auto simp: Let_def)
  next
    case False
    define os where "os = (if iv_start (intervals ! right) < iv_end (intervals ! right) \<and> iv_start (intervals ! left) < iv_end (intervals ! right)
         then overlaps[left := True, right := True] else overlaps)"
    have hit: "share_time (intervals ! left) (intervals ! right) \<longleftrightarrow>
        iv_start (intervals ! right) < iv_end (intervals ! right) \<and> iv_start (intervals ! left) < iv_end (intervals ! right)"
      using False Cons.prems(2) by (auto simp: share_time_def)
    have "mark_overlaps intervals left (right # rest) overlaps = mark_overlaps intervals left rest os"
      using False by (simp add: Let_def os_def)
    moreover have "mark_overlaps intervals left rest os ! k \<longleftrightarrow>
      os ! k \<or> (\<exists>r\<in>set rest. share_time (intervals ! left) (intervals ! r) \<and> (k = left \<or> k = r))"
      using Cons.prems by (intro Cons.IH) (auto simp: os_def)
    moreover have "os ! k \<longleftrightarrow> overlaps ! k \<or> share_time (intervals ! left) (intervals ! right) \<and> (k = left \<or> k = right)"
      using Cons.prems(3,4) by (auto simp: os_def hit nth_list_update)
    ultimately show ?thesis by auto
  qed
qed simp

lemma detect_overlaps_nth:
  assumes "sorted_wrt (\<lambda>i j. iv_start (intervals ! i) \<le> iv_start (intervals ! j)) order" and "distinct order"
    and "set order \<subseteq> {..<length overlaps}" and "k < length overlaps"
  shows "detect_overlaps intervals order overlaps ! k \<longleftrightarrow>
    overlaps ! k \<or> k \<in> set order \<and> (\<exists>j\<in>set order. j \<noteq> k \<and> share_time (intervals ! k) (intervals ! j))"
  using assms
proof (induction order arbitrary: overlaps)
  case (Cons left rest)
  show ?case
  proof (cases "iv_end (intervals ! left) \<le> iv_start (intervals ! left)")
    case True
    then have "\<not> share_time (intervals ! left) a" "\<not> share_time a (intervals ! left)" for a by (auto simp: share_time_def)
    then show ?thesis using True Cons by auto
  next
    case False
    let ?os = "mark_overlaps intervals left rest overlaps"
    have "detect_overlaps intervals (left # rest) overlaps = detect_overlaps intervals rest ?os" using False by simp
    moreover have "detect_overlaps intervals rest ?os ! k \<longleftrightarrow>
      ?os ! k \<or> k \<in> set rest \<and> (\<exists>j\<in>set rest. j \<noteq> k \<and> share_time (intervals ! k) (intervals ! j))"
      using Cons.prems by (intro Cons.IH) auto
    moreover have "?os ! k \<longleftrightarrow>
      overlaps ! k \<or> (\<exists>r\<in>set rest. share_time (intervals ! left) (intervals ! r) \<and> (k = left \<or> k = r))"
      using False Cons.prems by (intro mark_overlaps_nth) auto
    ultimately have flag: "detect_overlaps intervals (left # rest) overlaps ! k \<longleftrightarrow>
      overlaps ! k \<or> (\<exists>r\<in>set rest. share_time (intervals ! left) (intervals ! r) \<and> (k = left \<or> k = r)) \<or>
      k \<in> set rest \<and> (\<exists>j\<in>set rest. j \<noteq> k \<and> share_time (intervals ! k) (intervals ! j))" by simp
    have left: "left \<notin> set rest" using Cons.prems(2) by simp
    show ?thesis
    proof (cases "k = left")
      case True
      with flag left show ?thesis by auto
    next
      case False
      with flag show ?thesis using share_time_sym [of "intervals ! left" "intervals ! k"] by auto
    qed
  qed
qed simp

lemma length_detect_overlaps [simp]: "length (detect_overlaps intervals order overlaps) = length overlaps"
  by (induction order arbitrary: overlaps) simp_all

text \<open>C22: The overlap flags.  Whatever order the sort gives equal starts, each interval's flag says whether it
  shares time with another one; an interval with no time or negative time overlaps nothing,
  and touching ends are no overlap.\<close>

theorem DetectOverlaps_reference:
  assumes "start_order intervals order"
  shows "DetectOverlaps_in order intervals = map (overlaps_other intervals) [0..<length intervals] \<and>
    DetectOverlaps intervals = DetectOverlaps_in order intervals"
proof -
  have ref: "DetectOverlaps_in os intervals = map (overlaps_other intervals) [0..<length intervals]"
    if "start_order intervals os" for os
  proof (rule nth_equalityI)
    show "length (DetectOverlaps_in os intervals) = length (map (overlaps_other intervals) [0..<length intervals])"
      by (simp add: DetectOverlaps_in_def)
    fix k assume "k < length (DetectOverlaps_in os intervals)"
    then have k: "k < length intervals" by (simp add: DetectOverlaps_in_def)
    have m: "mset os = mset [0..<length intervals]" using that by (simp add: start_order_def)
    have "set os = {..<length intervals}" "distinct os"
      using mset_eq_setD [OF m] mset_eq_imp_distinct_iff [OF m] by (auto simp: atLeast_upt)
    with that k show "DetectOverlaps_in os intervals ! k = map (overlaps_other intervals) [0..<length intervals] ! k"
      by (auto simp: DetectOverlaps_in_def detect_overlaps_nth start_order_def overlaps_other_def list_ex_iff)
  qed
  have "start_order intervals (sort_key (\<lambda>index. iv_start (intervals ! index)) [0..<length intervals])"
    unfolding start_order_def using sorted_sort_key [of "\<lambda>index. iv_start (intervals ! index)" "[0..<length intervals]"]
    by (simp add: sorted_map)
  with ref assms show ?thesis by (simp add: DetectOverlaps_def)
qed

theorem DetectOverlaps_reference_witness:
  "DetectOverlaps_in [1, 0, 2] [\<lparr>iv_start = 5, iv_end = 9\<rparr>, \<lparr>iv_start = 5, iv_end = 6\<rparr>, \<lparr>iv_start = 9, iv_end = 12\<rparr>] =
   [True, True, False]"
proof -
  let ?iv = "[\<lparr>iv_start = 5, iv_end = 9\<rparr>, \<lparr>iv_start = 5, iv_end = 6\<rparr>, \<lparr>iv_start = 9, iv_end = 12\<rparr>]"
  have "start_order ?iv [1, 0, 2]" by (simp add: start_order_def upt_rec numeral_3_eq_3 numeral_2_eq_2)
  from DetectOverlaps_reference [OF this, THEN conjunct1]
  show ?thesis by (simp add: overlaps_other_def share_time_def upt_rec numeral_3_eq_3)
qed

end
