(* ===== verification/TimeTracker.thy ===== *)
theory TimeTracker
  imports TimeLogic
begin

text \<open>
  The time tracker's entries and their database.  Source: \<open>src/TimeTracker.cpp\<close>,
  \<open>src/TimeTracker.hpp\<close>, \<open>src/interface/ITimeTrackerStorage.hpp\<close>.  A point in time is its
  second since the epoch; the calendar of \<open>boost::gregorian\<close> and the storage behind
  \<open>ITimeTrackerStorage\<close> are arguments.  The settings are not modelled.
\<close>

section \<open>Calendar and storage\<close>

text \<open>Year, month and day of a day counted from the epoch, the day of a date, and the last day
  of the month of a day.\<close>

record calendar =
  cal_year :: "int \<Rightarrow> int"
  cal_month :: "int \<Rightarrow> int"
  cal_day :: "int \<Rightarrow> int"
  cal_date :: "int \<Rightarrow> int \<Rightarrow> int \<Rightarrow> int"
  cal_end_of_month :: "int \<Rightarrow> int"

record stored_entry =
  st_id :: int
  st_start :: int
  st_end :: int
  st_comment :: string

record 's time_storage =
  ts_is_open :: "'s \<Rightarrow> bool"
  ts_last_error :: "'s \<Rightarrow> string"
  ts_insert :: "int \<Rightarrow> int \<Rightarrow> string \<Rightarrow> 's \<Rightarrow> int option \<times> 's"
  ts_update :: "int \<Rightarrow> int \<Rightarrow> int \<Rightarrow> string \<Rightarrow> 's \<Rightarrow> bool \<times> 's"
  ts_remove :: "int \<Rightarrow> 's \<Rightarrow> bool \<times> 's"
  ts_load_range :: "int \<Rightarrow> int \<Rightarrow> 's \<Rightarrow> stored_entry list \<times> 's"

section \<open>State\<close>

record time_entry =
  te_start :: int
  te_end :: int
  te_desc :: string
  te_sql_id :: int
  te_is_overlap :: bool

text \<open>The entry a line shows is given by its position in the month.\<close>

record time_entry_serialized =
  ser_date :: "int option"
  ser_start :: int
  ser_end :: int
  ser_work_duration :: int
  ser_total_duration_per_day :: int
  ser_entry :: nat
  ser_is_time_bad :: bool
  ser_is_white :: bool

record monthly_entries =
  me_total_worktime :: int
  me_entries :: "time_entry list"
  me_serialized :: "int \<Rightarrow> time_entry_serialized list"

definition new_month :: monthly_entries where
  "new_month = \<lparr>me_total_worktime = 0, me_entries = [], me_serialized = (\<lambda>_. [])\<rparr>"

record 's time_tracker =
  m_Year :: int
  m_Month :: int
  m_Entries :: "(int \<times> monthly_entries) list"
  m_storage :: "'s option"
  m_last_error :: string
  m_LastId :: int
  reported :: "string list"

definition SecondsPerDay :: int where "SecondsPerDay = 86400"

definition date_of :: "int \<Rightarrow> int" where "date_of t = t div SecondsPerDay"
definition time_of_day :: "int \<Rightarrow> int" where "time_of_day t = t mod SecondsPerDay"

definition CalculateMapDateOffset :: "calendar \<Rightarrow> int \<Rightarrow> int" where
  "CalculateMapDateOffset cal start = cal_year cal (date_of start) * 100 + cal_month cal (date_of start)"

definition ReportError :: "string \<Rightarrow> 's time_tracker \<Rightarrow> 's time_tracker" where
  "ReportError message st = st\<lparr>m_last_error := message, reported := reported st @ [message]\<rparr>"

definition storage_open :: "'s time_storage \<Rightarrow> 's time_tracker \<Rightarrow> 's option" where
  "storage_open ops st = (case m_storage st of None \<Rightarrow> None | Some s \<Rightarrow> if ts_is_open ops s then Some s else None)"

section \<open>The map of months\<close>

text \<open>\<open>std::map\<close> as a list in the order of the keys.\<close>

fun month_put :: "int \<Rightarrow> monthly_entries \<Rightarrow> (int \<times> monthly_entries) list \<Rightarrow> (int \<times> monthly_entries) list" where
  "month_put key month [] = [(key, month)]"
| "month_put key month ((k, m) # months) =
     (if key < k then (key, month) # (k, m) # months
      else if key = k then (k, month) # months
      else (k, m) # month_put key month months)"

definition month_append :: "int \<Rightarrow> time_entry \<Rightarrow> (int \<times> monthly_entries) list \<Rightarrow> (int \<times> monthly_entries) list" where
  "month_append key entry months =
     (let month = (case map_of months key of Some m \<Rightarrow> m | None \<Rightarrow> new_month)
      in month_put key (month\<lparr>me_entries := me_entries month @ [entry]\<rparr>) months)"

definition all_entries :: "(int \<times> monthly_entries) list \<Rightarrow> time_entry list" where
  "all_entries months = concat (map (\<lambda>(_, m). me_entries m) months)"

definition FindEntry :: "int \<Rightarrow> 's time_tracker \<Rightarrow> time_entry option" where
  "FindEntry sql_id st = find (\<lambda>entry. te_sql_id entry = sql_id) (all_entries (m_Entries st))"

text \<open>The months with the first entry of an identifier changed or taken out, the entry's month
  with it when it was the last one.\<close>

fun update_found :: "int \<Rightarrow> (time_entry \<Rightarrow> time_entry) \<Rightarrow> time_entry list \<Rightarrow> time_entry list" where
  "update_found sql_id f [] = []"
| "update_found sql_id f (e # es) = (if te_sql_id e = sql_id then f e # es else e # update_found sql_id f es)"

fun remove_first :: "int \<Rightarrow> time_entry list \<Rightarrow> time_entry list" where
  "remove_first sql_id [] = []"
| "remove_first sql_id (e # es) = (if te_sql_id e = sql_id then es else e # remove_first sql_id es)"

definition month_has :: "int \<Rightarrow> monthly_entries \<Rightarrow> bool" where
  "month_has sql_id m \<longleftrightarrow> list_ex (\<lambda>e. te_sql_id e = sql_id) (me_entries m)"

fun update_entry_in :: "int \<Rightarrow> (time_entry \<Rightarrow> time_entry) \<Rightarrow> (int \<times> monthly_entries) list \<Rightarrow> (int \<times> monthly_entries) list" where
  "update_entry_in sql_id f [] = []"
| "update_entry_in sql_id f ((k, m) # months) =
     (if month_has sql_id m then (k, m\<lparr>me_entries := update_found sql_id f (me_entries m)\<rparr>) # months
      else (k, m) # update_entry_in sql_id f months)"

fun erase_entry :: "int \<Rightarrow> (int \<times> monthly_entries) list \<Rightarrow> (int \<times> monthly_entries) list" where
  "erase_entry sql_id [] = []"
| "erase_entry sql_id ((k, m) # months) =
     (if month_has sql_id m then
        let es = remove_first sql_id (me_entries m)
        in if es = [] then months else (k, m\<lparr>me_entries := es\<rparr>) # months
      else (k, m) # erase_entry sql_id months)"

section \<open>The view of a month\<close>

record day_view =
  dv_processed :: "int list"
  dv_is_white :: bool
  dv_current_date :: "int option"
  dv_total :: int
  dv_serialized :: "int \<Rightarrow> time_entry_serialized list"

definition day_totals :: "calendar \<Rightarrow> time_entry list \<Rightarrow> int \<Rightarrow> int" where
  "day_totals cal es =
     fold (\<lambda>e totals.
       let duration = te_end e - te_start e; day = cal_day cal (date_of (te_start e))
       in if \<not> te_is_overlap e \<and> 0 < duration then totals(day := totals day + duration) else totals) es (\<lambda>_. 0)"

definition serialize_entry :: "calendar \<Rightarrow> (int \<Rightarrow> int) \<Rightarrow> nat \<times> time_entry \<Rightarrow> day_view \<Rightarrow> day_view" where
  "serialize_entry cal totals ie v =
     (let (index, e) = ie;
          entry_date = date_of (te_start e);
          is_set_date = (dv_current_date v \<noteq> Some entry_date);
          is_white = (if is_set_date then \<not> dv_is_white v else dv_is_white v);
          day_number = cal_day cal entry_date;
          first = (day_number \<notin> set (dv_processed v) \<and> \<not> te_is_overlap e);
          line = \<lparr>ser_date = (if is_set_date then Some entry_date else None),
            ser_start = time_of_day (te_start e), ser_end = time_of_day (te_end e),
            ser_work_duration = te_end e - te_start e,
            ser_total_duration_per_day = (if first then totals day_number else 0), ser_entry = index,
            ser_is_time_bad = (time_of_day (te_end e) < time_of_day (te_start e)), ser_is_white = is_white\<rparr>
      in \<lparr>dv_processed = (if first then day_number # dv_processed v else dv_processed v),
          dv_is_white = is_white,
          dv_current_date = Some entry_date,
          dv_total = dv_total v + (if first then totals day_number else 0),
          dv_serialized = (dv_serialized v)(day_number := dv_serialized v day_number @ [line])\<rparr>)"

definition serialize_month :: "calendar \<Rightarrow> monthly_entries \<Rightarrow> monthly_entries" where
  "serialize_month cal m =
     (let overlaps = DetectOverlaps (map (\<lambda>e. \<lparr>iv_start = te_start e, iv_end = te_end e\<rparr>) (me_entries m));
          es = map2 (\<lambda>e overlap. e\<lparr>te_is_overlap := overlap\<rparr>) (me_entries m) overlaps;
          v = fold (serialize_entry cal (day_totals cal es)) (zip [0..<length es] es)
            \<lparr>dv_processed = [], dv_is_white = True, dv_current_date = None, dv_total = 0, dv_serialized = (\<lambda>_. [])\<rparr>
      in \<lparr>me_total_worktime = dv_total v, me_entries = es, me_serialized = dv_serialized v\<rparr>)"

definition valid_month :: "int \<Rightarrow> int \<Rightarrow> bool" where
  "valid_month year month \<longleftrightarrow> \<not> (year < 1400 \<or> 9999 < year \<or> month < 1 \<or> 12 < month)"

definition SerializeEntriesForOneMonth :: "calendar \<Rightarrow> int \<Rightarrow> int \<Rightarrow> 's time_tracker \<Rightarrow> 's time_tracker" where
  "SerializeEntriesForOneMonth cal year month st =
     (if \<not> valid_month year month
      then ReportError ''Failed to serialize time entries: invalid year or month'' st
      else
        let offset = CalculateMapDateOffset cal (cal_date cal year month 1 * SecondsPerDay)
        in case map_of (m_Entries st) offset of
             None \<Rightarrow> st
           | Some m \<Rightarrow> st\<lparr>m_Entries := month_put offset (serialize_month cal m) (m_Entries st)\<rparr>)"

section \<open>Operations\<close>

definition AddEntry :: "calendar \<Rightarrow> 's time_storage \<Rightarrow> int \<Rightarrow> int \<Rightarrow> string \<Rightarrow> int \<Rightarrow> 's time_tracker \<Rightarrow> time_entry option \<times> 's time_tracker" where
  "AddEntry cal ops start end comment sqlid st =
     (case storage_open ops st of
        None \<Rightarrow> (None, ReportError ''Failed to add time entry: storage is not open'' st)
      | Some s \<Rightarrow>
          let add = (\<lambda>ident st. let entry = \<lparr>te_start = start, te_end = end, te_desc = comment, te_sql_id = ident, te_is_overlap = False\<rparr>
                in (Some entry, st\<lparr>m_Entries := month_append (CalculateMapDateOffset cal start) entry (m_Entries st)\<rparr>))
          in if sqlid = 0 then
               (case ts_insert ops start end comment s of
                  (None, s') \<Rightarrow> (None, ReportError (''Failed to insert time entry: '' @ ts_last_error ops s') (st\<lparr>m_storage := Some s'\<rparr>))
                | (Some inserted_id, s') \<Rightarrow> add inserted_id (st\<lparr>m_storage := Some s', m_LastId := inserted_id\<rparr>))
             else add sqlid st)"

text \<open>The entry moves to the end of its new month; a month it leaves empty goes.\<close>

definition MoveEntryToMonth :: "int \<Rightarrow> int \<Rightarrow> 's time_tracker \<Rightarrow> bool \<times> 's time_tracker" where
  "MoveEntryToMonth sql_id new_map_key st =
     (case find (\<lambda>(_, m). month_has sql_id m) (m_Entries st) of
        None \<Rightarrow> (False, st)
      | Some (k, m) \<Rightarrow>
          if k = new_map_key then (True, st)
          else case FindEntry sql_id st of
            None \<Rightarrow> (False, st)
          | Some entry \<Rightarrow> (True, st\<lparr>m_Entries := month_append new_map_key entry (erase_entry sql_id (m_Entries st))\<rparr>))"

definition EditEntry :: "calendar \<Rightarrow> 's time_storage \<Rightarrow> int \<Rightarrow> int \<Rightarrow> int \<Rightarrow> string \<Rightarrow> 's time_tracker \<Rightarrow> bool \<times> 's time_tracker" where
  "EditEntry cal ops sql_id start end comment st =
     (case FindEntry sql_id st of
        None \<Rightarrow> (False, ReportError ''Failed to edit time entry: entry is no longer available'' st)
      | Some _ \<Rightarrow>
          (case storage_open ops st of
             None \<Rightarrow> (False, ReportError ''Failed to edit time entry: storage is not open'' st)
           | Some s \<Rightarrow>
               (case ts_update ops sql_id start end comment s of
                  (False, s') \<Rightarrow> (False, ReportError (''Failed to edit time entry: '' @ ts_last_error ops s') (st\<lparr>m_storage := Some s'\<rparr>))
                | (True, s') \<Rightarrow>
                    let st1 = st\<lparr>m_storage := Some s',
                          m_Entries := update_entry_in sql_id (\<lambda>e. e\<lparr>te_start := start, te_end := end, te_desc := comment\<rparr>) (m_Entries st)\<rparr>;
                        (moved, st2) = MoveEntryToMonth sql_id (CalculateMapDateOffset cal start) st1
                    in if moved then (True, st2)
                       else (False, ReportError ''Failed to edit time entry: entry ownership was lost'' st2))))"

definition SaveEntry :: "'s time_storage \<Rightarrow> int \<Rightarrow> 's time_tracker \<Rightarrow> bool \<times> 's time_tracker" where
  "SaveEntry ops sql_id st =
     (case FindEntry sql_id st of
        None \<Rightarrow> (False, ReportError ''Failed to save time entry: entry is no longer available'' st)
      | Some entry \<Rightarrow>
          (case storage_open ops st of
             None \<Rightarrow> (False, ReportError ''Failed to save time entry: storage is not open'' st)
           | Some s \<Rightarrow>
               (case ts_update ops sql_id (te_start entry) (te_end entry) (te_desc entry) s of
                  (False, s') \<Rightarrow> (False, ReportError (''Failed to save time entry: '' @ ts_last_error ops s') (st\<lparr>m_storage := Some s'\<rparr>))
                | (True, s') \<Rightarrow> (True, st\<lparr>m_storage := Some s'\<rparr>))))"

definition RemoveEntry :: "'s time_storage \<Rightarrow> int \<Rightarrow> 's time_tracker \<Rightarrow> bool \<times> 's time_tracker" where
  "RemoveEntry ops sql_id st =
     (case FindEntry sql_id st of
        None \<Rightarrow> (False, ReportError ''Failed to remove time entry: entry is no longer available'' st)
      | Some _ \<Rightarrow>
          (case storage_open ops st of
             None \<Rightarrow> (False, ReportError ''Failed to remove time entry: storage is not open'' st)
           | Some s \<Rightarrow>
               (case ts_remove ops sql_id s of
                  (False, s') \<Rightarrow> (False, ReportError (''Failed to remove time entry: '' @ ts_last_error ops s') (st\<lparr>m_storage := Some s'\<rparr>))
                | (True, s') \<Rightarrow> (True, st\<lparr>m_storage := Some s', m_Entries := erase_entry sql_id (m_Entries st)\<rparr>))))"

definition LoadEntriesForOneMonth :: "calendar \<Rightarrow> 's time_storage \<Rightarrow> int \<Rightarrow> int \<Rightarrow> 's time_tracker \<Rightarrow> 's time_tracker" where
  "LoadEntriesForOneMonth cal ops year month st =
     (if \<not> valid_month year month
      then ReportError ''Failed to load time entries: invalid year or month'' st
      else
        let first_day = cal_date cal year month 1;
            last_day = cal_end_of_month cal first_day;
            first_timestamp = first_day * SecondsPerDay;
            last_timestamp = last_day * SecondsPerDay + (SecondsPerDay - 1)
        in case storage_open ops st of
             None \<Rightarrow> ReportError ''Failed to load time entries: storage is not open'' st
           | Some s \<Rightarrow>
               let (rows, s') = ts_load_range ops first_timestamp last_timestamp s;
                   st1 = fold (\<lambda>row st. snd (AddEntry cal ops (st_start row) (st_end row) (st_comment row) (st_id row) st)) rows
                     (st\<lparr>m_storage := Some s'\<rparr>)
               in SerializeEntriesForOneMonth cal year month st1)"

definition LoadEntries :: "calendar \<Rightarrow> 's time_storage \<Rightarrow> int \<Rightarrow> int \<Rightarrow> 's time_tracker \<Rightarrow> 's time_tracker" where
  "LoadEntries cal ops year month st =
     SerializeEntriesForOneMonth cal year month (LoadEntriesForOneMonth cal ops year month (st\<lparr>m_Entries := []\<rparr>))"

definition UpdateEntries :: "calendar \<Rightarrow> 's time_tracker \<Rightarrow> 's time_tracker" where
  "UpdateEntries cal st = SerializeEntriesForOneMonth cal (m_Year st) (m_Month st) st"

definition SetActualYearMonth :: "int \<Rightarrow> int \<Rightarrow> 's time_tracker \<Rightarrow> 's time_tracker" where
  "SetActualYearMonth year month st = st\<lparr>m_Year := year, m_Month := month\<rparr>"

text \<open>\<open>Init\<close> on the day \<open>today\<close>.\<close>

definition TimeTrackerInit :: "calendar \<Rightarrow> 's time_storage \<Rightarrow> int \<Rightarrow> 's time_tracker \<Rightarrow> 's time_tracker" where
  "TimeTrackerInit cal ops today st =
     (case storage_open ops st of
        None \<Rightarrow> ReportError (''Failed to open the time tracker database: '' @
          (case m_storage st of Some s \<Rightarrow> ts_last_error ops s | None \<Rightarrow> ''storage dependency is missing'')) st
      | Some _ \<Rightarrow> LoadEntries cal ops (cal_year cal today) (cal_month cal today)
          (SetActualYearMonth (cal_year cal today) (cal_month cal today) st))"

section \<open>The entries mirror the storage\<close>

definition te_key :: "time_entry \<Rightarrow> int \<times> int \<times> int \<times> string" where
  "te_key e = (te_sql_id e, te_start e, te_end e, te_desc e)"

text \<open>The entries as the month they are kept in, identifier, start, end and comment.\<close>

definition cells :: "(int \<times> monthly_entries) list \<Rightarrow> (int \<times> int \<times> int \<times> int \<times> string) list" where
  "cells months = concat (map (\<lambda>(k, m). map (\<lambda>e. (k, te_key e)) (me_entries m)) months)"

definition months_sound :: "(int \<times> monthly_entries) list \<Rightarrow> bool" where
  "months_sound months \<longleftrightarrow>
     sorted_wrt (<) (map fst months) \<and> list_all (\<lambda>(k, m). me_entries m \<noteq> []) months \<and>
     distinct (map (\<lambda>(k, i, s). i) (cells months))"

lemma cells_Cons: "cells ((k, m) # months) = map (\<lambda>e. (k, te_key e)) (me_entries m) @ cells months"
  by (simp add: cells_def)

lemma cells_Nil [simp]: "cells [] = []"
  by (simp add: cells_def)

lemma month_append_Cons:
  assumes "sorted_wrt (<) (map fst ((k, m) # months))"
  shows "month_append key e ((k, m) # months) =
    (if key < k then (key, new_month\<lparr>me_entries := [e]\<rparr>) # (k, m) # months
     else if key = k then (k, m\<lparr>me_entries := me_entries m @ [e]\<rparr>) # months
     else (k, m) # month_append key e months)"
proof -
  have "key < k \<Longrightarrow> map_of months key = None"
    using assms by (force simp: map_of_eq_None_iff)
  then show ?thesis by (auto simp: month_append_def new_month_def Let_def)
qed

lemma month_append_Nil: "month_append key e [] = [(key, new_month\<lparr>me_entries := [e]\<rparr>)]"
  by (simp add: month_append_def new_month_def)

lemma month_append_cells:
  "sorted_wrt (<) (map fst months) \<Longrightarrow>
   mset (cells (month_append key e months)) = add_mset (key, te_key e) (mset (cells months)) \<and>
   sorted_wrt (<) (map fst (month_append key e months)) \<and>
   set (map fst (month_append key e months)) = insert key (set (map fst months)) \<and>
   (list_all (\<lambda>(k, m). me_entries m \<noteq> []) months \<longrightarrow> list_all (\<lambda>(k, m). me_entries m \<noteq> []) (month_append key e months))"
proof (induction months)
  case Nil
  then show ?case by (simp add: month_append_Nil cells_Cons)
next
  case (Cons km months)
  obtain k m where km: "km = (k, m)" by (cases km)
  have "sorted_wrt (<) (map fst months)" using Cons.prems by (simp add: km)
  note IH = Cons.IH [OF this]
  show ?case
    using IH Cons.prems month_append_Cons [OF Cons.prems [unfolded km], of key e]
    by (auto simp: km cells_Cons new_month_def)
qed

lemma month_has_cells: "month_has sql_id m \<longleftrightarrow> sql_id \<in> set (map te_sql_id (me_entries m))"
  by (auto simp: month_has_def list_ex_iff)

lemma remove_first_mset:
  "sql_id \<in> set (map te_sql_id es) \<Longrightarrow>
   \<exists>e. find (\<lambda>e. te_sql_id e = sql_id) es = Some e \<and> te_sql_id e = sql_id \<and> mset es = add_mset e (mset (remove_first sql_id es))"
  by (induction es) auto

lemma update_found_mset:
  "find (\<lambda>e. te_sql_id e = sql_id) es = Some e \<Longrightarrow>
   mset (update_found sql_id f es) = add_mset (f e) (mset (remove_first sql_id es))"
  by (induction es) (auto split: if_splits)

lemma find_append: "find P (xs @ ys) = (case find P xs of None \<Rightarrow> find P ys | Some x \<Rightarrow> Some x)"
  by (induction xs) auto

lemma all_entries_Cons: "all_entries ((k, m) # months) = me_entries m @ all_entries months"
  by (simp add: all_entries_def)

text \<open>The entry found: where it is, and the months without it.\<close>

lemma erase_entry_cells:
  assumes "find (\<lambda>e. te_sql_id e = sql_id) (all_entries months) = Some e"
  shows "\<exists>k m. find (\<lambda>(_, m). month_has sql_id m) months = Some (k, m) \<and> k \<in> fst ` set months \<and> te_sql_id e = sql_id \<and>
    mset (cells months) = add_mset (k, te_key e) (mset (cells (erase_entry sql_id months))) \<and>
    mset (cells (update_entry_in sql_id f months)) = add_mset (k, te_key (f e)) (mset (cells (erase_entry sql_id months)))"
  using assms
proof (induction months)
  case Nil
  then show ?case by (simp add: all_entries_def)
next
  case (Cons km months)
  obtain k m where km: "km = (k, m)" by (cases km)
  show ?case
  proof (cases "month_has sql_id m")
    case True
    then obtain e' where e': "find (\<lambda>e. te_sql_id e = sql_id) (me_entries m) = Some e'" "te_sql_id e' = sql_id"
        "mset (me_entries m) = add_mset e' (mset (remove_first sql_id (me_entries m)))"
      using remove_first_mset by (auto simp: month_has_cells)
    then have "e' = e" using Cons.prems by (simp add: km all_entries_Cons find_append)
    note u = update_found_mset [OF e'(1), of f]
    have "mset (map (\<lambda>e. (k, te_key e)) (me_entries m)) =
        add_mset (k, te_key e) (mset (map (\<lambda>e. (k, te_key e)) (remove_first sql_id (me_entries m))))"
      using arg_cong [OF e'(3), of "image_mset (\<lambda>e. (k, te_key e))"] \<open>e' = e\<close> by (simp only: mset_map image_mset_add_mset)
    moreover have "mset (map (\<lambda>e. (k, te_key e)) (update_found sql_id f (me_entries m))) =
        add_mset (k, te_key (f e)) (mset (map (\<lambda>e. (k, te_key e)) (remove_first sql_id (me_entries m))))"
      using arg_cong [OF u, of "image_mset (\<lambda>e. (k, te_key e))"] \<open>e' = e\<close> by (simp only: mset_map image_mset_add_mset)
    ultimately show ?thesis using True e'(2) \<open>e' = e\<close> by (auto simp: km cells_Cons Let_def)
  next
    case False
    then have "find (\<lambda>e. te_sql_id e = sql_id) (me_entries m) = None"
      by (auto simp: month_has_cells find_None_iff)
    then have "find (\<lambda>e. te_sql_id e = sql_id) (all_entries months) = Some e"
      using Cons.prems by (simp add: km all_entries_Cons find_append)
    from Cons.IH [OF this] obtain k' m' where IH: "find (\<lambda>(_, m). month_has sql_id m) months = Some (k', m')" "k' \<in> fst ` set months"
      "te_sql_id e = sql_id" "mset (cells months) = add_mset (k', te_key e) (mset (cells (erase_entry sql_id months)))"
      "mset (cells (update_entry_in sql_id f months)) = add_mset (k', te_key (f e)) (mset (cells (erase_entry sql_id months)))"
      by blast
    then show ?thesis using False by (auto simp: km cells_Cons)
  qed
qed

lemma erase_entry_sound:
  "sorted_wrt (<) (map fst months) \<and> list_all (\<lambda>(k, m). me_entries m \<noteq> []) months \<Longrightarrow>
   sorted_wrt (<) (map fst (erase_entry sql_id months)) \<and> list_all (\<lambda>(k, m). me_entries m \<noteq> []) (erase_entry sql_id months) \<and>
   fst ` set (erase_entry sql_id months) \<subseteq> fst ` set months"
proof (induction months)
  case (Cons km months)
  obtain k m where km: "km = (k, m)" by (cases km)
  show ?case
  proof (cases "month_has sql_id m")
    case True
    with Cons.prems show ?thesis by (auto simp: km Let_def)
  next
    case False
    have IH: "sorted_wrt (<) (map fst (erase_entry sql_id months))" "list_all (\<lambda>(k, m). me_entries m \<noteq> []) (erase_entry sql_id months)"
      "fst ` set (erase_entry sql_id months) \<subseteq> fst ` set months"
      using Cons by (simp_all add: km)
    have "\<forall>k'\<in>fst ` set months. k < k'" using Cons.prems by (simp add: km)
    then have "\<forall>k'\<in>fst ` set (erase_entry sql_id months). k < k'" using IH(3) by blast
    with IH Cons.prems False show ?thesis by (auto simp: km)
  qed
qed simp

lemma update_entry_in_sound:
  "map fst (update_entry_in sql_id f months) = map fst months \<and>
   (list_all (\<lambda>(k, m). me_entries m \<noteq> []) months \<longrightarrow> list_all (\<lambda>(k, m). me_entries m \<noteq> []) (update_entry_in sql_id f months))"
proof (induction months)
  case (Cons km months)
  have "update_found sql_id f es = [] \<longleftrightarrow> es = []" for es by (cases es) auto
  then show ?case using Cons by (cases km) auto
qed simp

lemma update_entry_in_found:
  assumes "\<And>e. te_sql_id (f e) = te_sql_id e"
  shows "erase_entry sql_id (update_entry_in sql_id f months) = erase_entry sql_id months"
    and "find (\<lambda>(_, m). month_has sql_id m) (update_entry_in sql_id f months) =
      map_option (\<lambda>(k, m). (k, m\<lparr>me_entries := update_found sql_id f (me_entries m)\<rparr>)) (find (\<lambda>(_, m). month_has sql_id m) months)"
    and "find (\<lambda>e. te_sql_id e = sql_id) (all_entries (update_entry_in sql_id f months)) =
      map_option f (find (\<lambda>e. te_sql_id e = sql_id) (all_entries months))"
proof -
  have r: "remove_first sql_id (update_found sql_id f es) = remove_first sql_id es" for es
    by (induction es) (auto simp: assms)
  have has: "month_has sql_id (m\<lparr>me_entries := update_found sql_id f (me_entries m)\<rparr>) = month_has sql_id m" for m
  proof -
    have "map te_sql_id (update_found sql_id f es) = map te_sql_id es" for es by (induction es) (auto simp: assms)
    then show ?thesis by (simp add: month_has_cells del: set_map)
  qed
  have fnd: "find (\<lambda>e. te_sql_id e = sql_id) (update_found sql_id f es) = map_option f (find (\<lambda>e. te_sql_id e = sql_id) es)" for es
    by (induction es) (auto simp: assms)
  have none: "\<not> month_has sql_id m \<Longrightarrow> find (\<lambda>e. te_sql_id e = sql_id) (me_entries m) = None" for m
    by (auto simp: month_has_cells find_None_iff)
  have some: "month_has sql_id m \<Longrightarrow> \<exists>e. find (\<lambda>e. te_sql_id e = sql_id) (me_entries m) = Some e" for m
    using remove_first_mset [of sql_id "me_entries m"] by (auto simp: month_has_cells)
  show "erase_entry sql_id (update_entry_in sql_id f months) = erase_entry sql_id months"
    by (induction months) (auto simp: r has Let_def)
  show "find (\<lambda>(_, m). month_has sql_id m) (update_entry_in sql_id f months) =
      map_option (\<lambda>(k, m). (k, m\<lparr>me_entries := update_found sql_id f (me_entries m)\<rparr>)) (find (\<lambda>(_, m). month_has sql_id m) months)"
    by (induction months) (auto simp: has)
  show "find (\<lambda>e. te_sql_id e = sql_id) (all_entries (update_entry_in sql_id f months)) =
      map_option f (find (\<lambda>e. te_sql_id e = sql_id) (all_entries months))"
  proof (induction months)
    case (Cons km months)
    obtain k m where km: "km = (k, m)" by (cases km)
    show ?case
      using Cons none [of m] some [of m] by (cases "month_has sql_id m") (auto simp: km all_entries_Cons find_append fnd)
  qed (simp add: all_entries_def)
qed

text \<open>What the storage promises, for its table \<open>rows\<close> of start, end and comment by identifier: a new row
  has a new positive identifier, a change or removal that reports success changes just that
  row, one that reports failure changes nothing, and a range gives each of its rows once.\<close>

definition storage_contract :: "'s time_storage \<Rightarrow> ('s \<Rightarrow> int \<Rightarrow> (int \<times> int \<times> string) option) \<Rightarrow> bool" where
  "storage_contract ops rows \<longleftrightarrow>
     (\<forall>a b c s s' i. ts_insert ops a b c s = (Some i, s') \<longrightarrow> i \<noteq> 0 \<and> rows s i = None \<and> rows s' = (rows s)(i \<mapsto> (a, b, c))) \<and>
     (\<forall>a b c s s'. ts_insert ops a b c s = (None, s') \<longrightarrow> rows s' = rows s) \<and>
     (\<forall>i a b c s s'. ts_update ops i a b c s = (True, s') \<longrightarrow> rows s' = (rows s)(i \<mapsto> (a, b, c))) \<and>
     (\<forall>i a b c s s'. ts_update ops i a b c s = (False, s') \<longrightarrow> rows s' = rows s) \<and>
     (\<forall>i s s'. ts_remove ops i s = (True, s') \<longrightarrow> rows s' = (rows s)(i := None)) \<and>
     (\<forall>i s s'. ts_remove ops i s = (False, s') \<longrightarrow> rows s' = rows s) \<and>
     (\<forall>a b s s' l. ts_load_range ops a b s = (l, s') \<longrightarrow> rows s' = rows s \<and> distinct (map st_id l) \<and>
        (\<forall>r\<in>set l. st_id r \<noteq> 0 \<and> rows s (st_id r) = Some (st_start r, st_end r, st_comment r)))"

definition cell_ok :: "calendar \<Rightarrow> (int \<Rightarrow> (int \<times> int \<times> string) option) \<Rightarrow> int \<times> int \<times> int \<times> int \<times> string \<Rightarrow> bool" where
  "cell_ok cal table c = (case c of (k, i, s, e, d) \<Rightarrow> k = CalculateMapDateOffset cal s \<and> table i = Some (s, e, d))"

text \<open>Every entry kept is the row of its identifier, in the month of its start; no identifier is
  kept twice, no month is empty, and the months are in order.\<close>

definition mirrors :: "calendar \<Rightarrow> ('s \<Rightarrow> int \<Rightarrow> (int \<times> int \<times> string) option) \<Rightarrow> 's time_tracker \<Rightarrow> bool" where
  "mirrors cal rows st \<longleftrightarrow>
     months_sound (m_Entries st) \<and>
     (case m_storage st of
        None \<Rightarrow> m_Entries st = []
      | Some db \<Rightarrow> list_all (cell_ok cal (rows db)) (cells (m_Entries st)))"

definition cell_id :: "int \<times> int \<times> int \<times> int \<times> string \<Rightarrow> int" where
  "cell_id = (\<lambda>(k, i, s). i)"

lemma months_sound_cells:
  assumes "sorted_wrt (<) (map fst months)" and "list_all (\<lambda>(k, m). me_entries m \<noteq> []) months"
    and "mset (cells months) = mset cs" and "distinct (map cell_id cs)"
  shows "months_sound months"
proof -
  have "mset (map cell_id (cells months)) = mset (map cell_id cs)" using assms(3) by simp
  with assms show ?thesis unfolding months_sound_def cell_id_def using mset_eq_imp_distinct_iff by blast
qed

lemma list_all_mset: "mset xs = mset ys \<Longrightarrow> list_all P xs = list_all P ys"
  by (auto simp: list_all_iff dest: mset_eq_setD)

lemma cell_ok_other: "cell_id c \<noteq> i \<Longrightarrow> cell_ok cal (table(i := x)) c = cell_ok cal table c"
  by (cases c) (simp add: cell_ok_def cell_id_def)

lemma cells_ok_other:
  "i \<notin> set (map cell_id cs) \<Longrightarrow> list_all (cell_ok cal (table(i := x))) cs = list_all (cell_ok cal table) cs"
  by (induction cs) (auto simp: cell_ok_other)

lemma mirrors_unchanged:
  "mirrors cal rows st \<Longrightarrow> m_storage st = Some s \<Longrightarrow> rows s' = rows s \<Longrightarrow> m_storage st' = Some s' \<Longrightarrow> m_Entries st' = m_Entries st \<Longrightarrow>
   mirrors cal rows st'"
  by (simp add: mirrors_def)

lemma mirrors_ReportError [simp]: "mirrors cal rows (ReportError msg st) = mirrors cal rows st"
  by (simp add: mirrors_def ReportError_def split: option.split)

lemma storage_contractD:
  assumes "storage_contract ops rows"
  shows "ts_insert ops a b c s = (Some i, s') \<Longrightarrow> i \<noteq> 0 \<and> rows s i = None \<and> rows s' = (rows s)(i \<mapsto> (a, b, c))"
    and "ts_insert ops a b c s = (None, s') \<Longrightarrow> rows s' = rows s"
    and "ts_update ops i a b c s = (True, s') \<Longrightarrow> rows s' = (rows s)(i \<mapsto> (a, b, c))"
    and "ts_update ops i a b c s = (False, s') \<Longrightarrow> rows s' = rows s"
    and "ts_remove ops i s = (True, s') \<Longrightarrow> rows s' = (rows s)(i := None)"
    and "ts_remove ops i s = (False, s') \<Longrightarrow> rows s' = rows s"
    and "ts_load_range ops a b s = (l, s') \<Longrightarrow> rows s' = rows s \<and> distinct (map st_id l) \<and>
        (\<forall>r\<in>set l. st_id r \<noteq> 0 \<and> rows s (st_id r) = Some (st_start r, st_end r, st_comment r))"
  using assms by (simp_all add: storage_contract_def)

lemma mirrors_append:
  assumes "mirrors cal rows st" and "m_storage st = Some s" and "m_storage st' = Some s'"
    and "m_Entries st' = month_append (CalculateMapDateOffset cal a) e (m_Entries st)"
    and "te_key e = (i, a, b, c)" and "i \<notin> set (map cell_id (cells (m_Entries st)))"
    and "rows s' i = Some (a, b, c)" and "rows s' = rows s \<or> rows s' = (rows s)(i \<mapsto> (a, b, c))"
  shows "mirrors cal rows st'"
proof -
  let ?k = "CalculateMapDateOffset cal a" and ?cs = "cells (m_Entries st)"
  have sound: "sorted_wrt (<) (map fst (m_Entries st))" "list_all (\<lambda>(k, m). me_entries m \<noteq> []) (m_Entries st)"
    "distinct (map cell_id ?cs)" and ok: "list_all (cell_ok cal (rows s)) ?cs"
    using assms(1,2) by (simp_all add: mirrors_def months_sound_def cell_id_def)
  have m: "mset (cells (m_Entries st')) = mset ((?k, i, a, b, c) # ?cs)"
    "sorted_wrt (<) (map fst (m_Entries st'))" "list_all (\<lambda>(k, m). me_entries m \<noteq> []) (m_Entries st')"
    using month_append_cells [OF sound(1), of ?k e] sound(2) by (simp_all add: assms(4,5))
  have "months_sound (m_Entries st')"
    by (rule months_sound_cells [OF m(2,3,1)]) (use sound(3) assms(6) in \<open>simp add: cell_id_def\<close>)
  moreover have "list_all (cell_ok cal (rows s')) ((?k, i, a, b, c) # ?cs)"
    using ok assms(6-8) cells_ok_other [OF assms(6)] by (auto simp: cell_ok_def)
  ultimately show ?thesis using list_all_mset [OF m(1)] by (simp add: mirrors_def assms(3))
qed

lemma cells_all_entries: "map cell_id (cells months) = map te_sql_id (all_entries months)"
  by (induction months) (auto simp: cells_Cons all_entries_Cons all_entries_def cell_id_def te_key_def)

lemma storage_open_Some: "storage_open ops st = Some s \<Longrightarrow> m_storage st = Some s"
  by (auto simp: storage_open_def split: option.splits if_splits)

lemma AddEntry_mirrors:
  assumes "storage_contract ops rows" and "mirrors cal rows st"
  shows "mirrors cal rows (snd (AddEntry cal ops a b c 0 st))"
proof (cases "storage_open ops st")
  case None
  with assms show ?thesis by (simp add: AddEntry_def)
next
  case (Some s)
  note s = storage_open_Some [OF Some]
  obtain r s' where i: "ts_insert ops a b c s = (r, s')" by fastforce
  show ?thesis
  proof (cases r)
    case None
    with i have "rows s' = rows s" using storage_contractD(2) [OF assms(1)] by blast
    then have "mirrors cal rows (st\<lparr>m_storage := Some s'\<rparr>)" by (intro mirrors_unchanged [OF assms(2) s]) simp_all
    with i None Some show ?thesis by (simp add: AddEntry_def)
  next
    case (Some ident)
    with i have new: "rows s ident = None" "rows s' = (rows s)(ident \<mapsto> (a, b, c))"
      using storage_contractD(1) [OF assms(1)] by blast+
    have "ident \<notin> set (map cell_id (cells (m_Entries st)))"
      using assms(2) new(1) s by (auto simp: mirrors_def list_all_iff cell_ok_def cell_id_def)
    with new have "mirrors cal rows (st\<lparr>m_storage := Some s', m_LastId := ident,
        m_Entries := month_append (CalculateMapDateOffset cal a)
          \<lparr>te_start = a, te_end = b, te_desc = c, te_sql_id = ident, te_is_overlap = False\<rparr> (m_Entries st)\<rparr>)"
      by (intro mirrors_append [OF assms(2) s, where i = ident and b = b and c = c]) (auto simp: te_key_def)
    with i Some \<open>storage_open ops st = Some s\<close> show ?thesis by (simp add: AddEntry_def Let_def)
  qed
qed

lemma AddEntry_loaded:
  assumes "mirrors cal rows st" and "m_storage st = Some s" and "rows s i = Some (a, b, c)" and "i \<noteq> 0"
    and "i \<notin> set (map cell_id (cells (m_Entries st)))"
  shows "mirrors cal rows (snd (AddEntry cal ops a b c i st)) \<and> m_storage (snd (AddEntry cal ops a b c i st)) = Some s \<and>
    set (map cell_id (cells (m_Entries (snd (AddEntry cal ops a b c i st))))) \<subseteq> insert i (set (map cell_id (cells (m_Entries st))))"
proof (cases "storage_open ops st")
  case None
  with assms show ?thesis by (auto simp: AddEntry_def ReportError_def mirrors_def)
next
  case (Some s0)
  let ?e = "\<lparr>te_start = a, te_end = b, te_desc = c, te_sql_id = i, te_is_overlap = False\<rparr>"
  let ?st = "st\<lparr>m_Entries := month_append (CalculateMapDateOffset cal a) ?e (m_Entries st)\<rparr>"
  have add: "snd (AddEntry cal ops a b c i st) = ?st" using Some assms(4) by (simp add: AddEntry_def Let_def)
  have "mirrors cal rows ?st"
    by (rule mirrors_append [OF assms(1,2), where i = i and b = b and c = c]) (use assms in \<open>auto simp: te_key_def\<close>)
  moreover have m: "mset (cells (m_Entries ?st)) = mset ((CalculateMapDateOffset cal a, te_key ?e) # cells (m_Entries st))"
    using month_append_cells [of "m_Entries st"] assms(1) by (simp add: mirrors_def months_sound_def)
  have "set (cells (m_Entries ?st)) = insert (CalculateMapDateOffset cal a, te_key ?e) (set (cells (m_Entries st)))"
    using mset_eq_setD [OF m] by simp
  then have "set (map cell_id (cells (m_Entries ?st))) = insert i (set (map cell_id (cells (m_Entries st))))"
    by (simp add: cell_id_def te_key_def)
  ultimately show ?thesis unfolding add using assms(2) by simp
qed

lemma FindEntry_cell:
  assumes "mirrors cal rows st" and "FindEntry sql_id st = Some e"
  shows "\<exists>k m. find (\<lambda>(_, m). month_has sql_id m) (m_Entries st) = Some (k, m) \<and> te_sql_id e = sql_id \<and>
    mset (cells (m_Entries st)) = add_mset (k, te_key e) (mset (cells (erase_entry sql_id (m_Entries st)))) \<and>
    mset (cells (update_entry_in sql_id f (m_Entries st))) = add_mset (k, te_key (f e)) (mset (cells (erase_entry sql_id (m_Entries st))))"
  using erase_entry_cells assms(2) unfolding FindEntry_def by blast

text \<open>The months without an entry: sound, and without its identifier.\<close>

lemma erased_sound:
  assumes "mirrors cal rows st" and "m_storage st = Some s" and "FindEntry sql_id st = Some e"
  shows "sorted_wrt (<) (map fst (erase_entry sql_id (m_Entries st)))"
    and "list_all (\<lambda>(k, m). me_entries m \<noteq> []) (erase_entry sql_id (m_Entries st))"
    and "distinct (map cell_id (cells (erase_entry sql_id (m_Entries st))))"
    and "sql_id \<notin> set (map cell_id (cells (erase_entry sql_id (m_Entries st))))"
    and "list_all (cell_ok cal (rows s)) (cells (erase_entry sql_id (m_Entries st)))"
proof -
  let ?es = "erase_entry sql_id (m_Entries st)"
  have sound: "sorted_wrt (<) (map fst (m_Entries st))" "list_all (\<lambda>(k, m). me_entries m \<noteq> []) (m_Entries st)"
    "distinct (map cell_id (cells (m_Entries st)))" and ok: "list_all (cell_ok cal (rows s)) (cells (m_Entries st))"
    using assms(1,2) by (simp_all add: mirrors_def months_sound_def cell_id_def)
  show "sorted_wrt (<) (map fst ?es)" "list_all (\<lambda>(k, m). me_entries m \<noteq> []) ?es"
    using erase_entry_sound [of "m_Entries st" sql_id] sound by blast+
  obtain k m where e: "te_sql_id e = sql_id" "mset (cells (m_Entries st)) = mset ((k, te_key e) # cells ?es)"
    using FindEntry_cell [OF assms(1,3), of id] by auto
  have "mset (map cell_id (cells (m_Entries st))) = mset (map cell_id ((k, te_key e) # cells ?es))"
    using arg_cong [OF e(2), of "image_mset cell_id"] by (simp only: mset_map)
  then have "distinct (map cell_id ((k, te_key e) # cells ?es))" using sound(3) mset_eq_imp_distinct_iff by blast
  then show "distinct (map cell_id (cells ?es))" "sql_id \<notin> set (map cell_id (cells ?es))"
    using e(1) by (auto simp: cell_id_def te_key_def)
  show "list_all (cell_ok cal (rows s)) (cells ?es)" using ok list_all_mset [OF e(2)] by simp
qed

lemma RemoveEntry_mirrors:
  assumes "storage_contract ops rows" and "mirrors cal rows st"
  shows "mirrors cal rows (snd (RemoveEntry ops sql_id st))"
proof (cases "FindEntry sql_id st = None \<or> storage_open ops st = None")
  case True
  with assms show ?thesis by (auto simp: RemoveEntry_def split: option.split)
next
  case False
  then obtain e s where e: "FindEntry sql_id st = Some e" and s: "storage_open ops st = Some s" by auto
  note s' = storage_open_Some [OF s]
  obtain r db where rm: "ts_remove ops sql_id s = (r, db)" by fastforce
  show ?thesis
  proof (cases r)
    case False
    with rm have "mirrors cal rows (st\<lparr>m_storage := Some db\<rparr>)"
      using storage_contractD(6) [OF assms(1)] by (intro mirrors_unchanged [OF assms(2) s']) auto
    with False rm e s show ?thesis by (simp add: RemoveEntry_def)
  next
    case True
    note es = erased_sound [OF assms(2) s' e]
    have "rows db = (rows s)(sql_id := None)" using rm True storage_contractD(5) [OF assms(1)] by auto
    then have "list_all (cell_ok cal (rows db)) (cells (erase_entry sql_id (m_Entries st)))"
      using es(5) cells_ok_other [OF es(4)] by simp
    with es(1-3) True rm e s show ?thesis
      by (simp add: RemoveEntry_def mirrors_def months_sound_def cell_id_def)
  qed
qed

lemma EditEntry_mirrors:
  assumes "storage_contract ops rows" and "mirrors cal rows st"
  shows "mirrors cal rows (snd (EditEntry cal ops sql_id a b c st))"
proof (cases "FindEntry sql_id st = None \<or> storage_open ops st = None")
  case True
  with assms show ?thesis by (auto simp: EditEntry_def split: option.split)
next
  case False
  then obtain e s where e: "FindEntry sql_id st = Some e" and s: "storage_open ops st = Some s" by auto
  note s' = storage_open_Some [OF s]
  obtain r db where up: "ts_update ops sql_id a b c s = (r, db)" by fastforce
  show ?thesis
  proof (cases r)
    case False
    with up have "mirrors cal rows (st\<lparr>m_storage := Some db\<rparr>)"
      using storage_contractD(4) [OF assms(1)] by (intro mirrors_unchanged [OF assms(2) s']) auto
    with False up e s show ?thesis by (simp add: EditEntry_def)
  next
    case True
    define f :: "time_entry \<Rightarrow> time_entry" where "f = (\<lambda>e. e\<lparr>te_start := a, te_end := b, te_desc := c\<rparr>)"
    define st1 where "st1 = st\<lparr>m_storage := Some db, m_Entries := update_entry_in sql_id f (m_Entries st)\<rparr>"
    let ?es = "erase_entry sql_id (m_Entries st)" and ?k = "CalculateMapDateOffset cal a"
    note es = erased_sound [OF assms(2) s' e]
    have f: "te_sql_id (f e) = te_sql_id e" for e by (simp add: f_def)
    obtain k m where cell: "find (\<lambda>(_, m). month_has sql_id m) (m_Entries st) = Some (k, m)" "te_sql_id e = sql_id"
      "mset (cells (update_entry_in sql_id f (m_Entries st))) = mset ((k, te_key (f e)) # cells ?es)"
      using FindEntry_cell [OF assms(2) e, of f] by auto
    have key: "te_key (f e) = (sql_id, a, b, c)" using cell(2) by (simp add: f_def te_key_def)
    have rows: "rows db = (rows s)(sql_id \<mapsto> (a, b, c))" using up True storage_contractD(3) [OF assms(1)] by auto
    have ok: "list_all (cell_ok cal (rows db)) ((?k, te_key (f e)) # cells ?es)"
      using es(5) cells_ok_other [OF es(4)] by (simp add: rows key cell_ok_def)
    have distinct: "distinct (map cell_id ((?k, te_key (f e)) # cells ?es))"
      using es(3,4) by (simp add: key cell_id_def)
    have m1: "find (\<lambda>(_, m). month_has sql_id m) (m_Entries st1) = Some (k, m\<lparr>me_entries := update_found sql_id f (me_entries m)\<rparr>)"
      using update_entry_in_found(2) [of f sql_id "m_Entries st"] cell(1) f by (simp add: st1_def)
    have F1: "FindEntry sql_id st1 = Some (f e)"
      using update_entry_in_found(3) [of f sql_id "m_Entries st"] e f by (simp add: st1_def FindEntry_def)
    define st2 where "st2 = (if k = ?k then st1 else st1\<lparr>m_Entries := month_append ?k (f e) ?es\<rparr>)"
    have move: "MoveEntryToMonth sql_id ?k st1 = (True, st2)"
      using m1 F1 update_entry_in_found(1) [of f sql_id "m_Entries st"] f by (simp add: MoveEntryToMonth_def st1_def st2_def)
    have edit: "snd (EditEntry cal ops sql_id a b c st) = st2"
      using e s up True move by (simp add: EditEntry_def st1_def f_def Let_def)
    have "mset (cells (m_Entries st2)) = mset ((?k, te_key (f e)) # cells ?es) \<and>
      sorted_wrt (<) (map fst (m_Entries st2)) \<and> list_all (\<lambda>(k, m). me_entries m \<noteq> []) (m_Entries st2)"
    proof (cases "k = ?k")
      case True
      then show ?thesis
        using cell(3) update_entry_in_sound [of sql_id f "m_Entries st"] assms(2)
        by (simp add: st2_def st1_def mirrors_def months_sound_def)
    next
      case False
      then show ?thesis using month_append_cells [OF es(1), of ?k "f e"] es(2) by (simp add: st2_def)
    qed
    then have "months_sound (m_Entries st2)" "list_all (cell_ok cal (rows db)) (cells (m_Entries st2))"
      using months_sound_cells distinct ok list_all_mset by blast+
    moreover have "m_storage st2 = Some db" by (simp add: st2_def st1_def)
    ultimately show ?thesis by (simp add: edit mirrors_def)
  qed
qed

lemma SaveEntry_mirrors:
  assumes "storage_contract ops rows" and "mirrors cal rows st"
  shows "mirrors cal rows (snd (SaveEntry ops sql_id st))"
proof (cases "FindEntry sql_id st = None \<or> storage_open ops st = None")
  case True
  with assms show ?thesis by (auto simp: SaveEntry_def split: option.split)
next
  case False
  then obtain e s where e: "FindEntry sql_id st = Some e" and s: "storage_open ops st = Some s" by auto
  note s' = storage_open_Some [OF s]
  obtain r db where up: "ts_update ops sql_id (te_start e) (te_end e) (te_desc e) s = (r, db)" by fastforce
  obtain k m where cell: "te_sql_id e = sql_id" "mset (cells (m_Entries st)) = mset ((k, te_key e) # cells (erase_entry sql_id (m_Entries st)))"
    using FindEntry_cell [OF assms(2) e, of id] by auto
  have "list_all (cell_ok cal (rows s)) (cells (m_Entries st))" using assms(2) s' by (simp add: mirrors_def)
  then have "rows s sql_id = Some (te_start e, te_end e, te_desc e)"
    using list_all_mset [OF cell(2), of "cell_ok cal (rows s)"] cell(1) by (simp add: cell_ok_def te_key_def)
  then have "rows db = rows s"
    using up storage_contractD(3,4) [OF assms(1)] by (cases r) auto
  then have "mirrors cal rows (st\<lparr>m_storage := Some db\<rparr>)" by (intro mirrors_unchanged [OF assms(2) s']) simp_all
  with up e s show ?thesis by (cases r) (simp_all add: SaveEntry_def)
qed

lemma length_DetectOverlaps [simp]: "length (DetectOverlaps intervals) = length intervals"
  by (simp add: DetectOverlaps_def DetectOverlaps_in_def)

lemma serialize_month_keys: "map te_key (me_entries (serialize_month cal m)) = map te_key (me_entries m)"
  by (rule nth_equalityI) (auto simp: serialize_month_def Let_def te_key_def)

lemma month_put_same:
  assumes "map te_key (me_entries m') = map te_key (me_entries m)"
  shows "sorted_wrt (<) (map fst months) \<Longrightarrow> map_of months key = Some m \<Longrightarrow>
    cells (month_put key m' months) = cells months \<and> map fst (month_put key m' months) = map fst months \<and>
    list_all (\<lambda>(k, m). me_entries m \<noteq> []) (month_put key m' months) = list_all (\<lambda>(k, m). me_entries m \<noteq> []) months"
proof (induction months)
  case (Cons km months)
  obtain k m0 where km: "km = (k, m0)" by (cases km)
  show ?case
  proof (cases "key = k")
    case True
    then have "m0 = m" using Cons.prems by (simp add: km)
    have "map (\<lambda>e. (k, te_key e)) (me_entries m') = map (\<lambda>e. (k, te_key e)) (me_entries m)"
      using arg_cong [OF assms, of "map (Pair k)"] by (simp add: comp_def)
    moreover have "me_entries m' = [] \<longleftrightarrow> me_entries m = []" using assms by (metis map_is_Nil_conv)
    ultimately show ?thesis using True \<open>m0 = m\<close> by (simp add: km cells_Cons)
  next
    case False
    then have "map_of months key = Some m" using Cons.prems by (simp add: km)
    then have "k < key" using Cons.prems by (auto simp: km dest!: map_of_SomeD)
    then show ?thesis using Cons False \<open>map_of months key = Some m\<close> by (simp add: km cells_Cons)
  qed
qed simp

lemma Serialize_mirrors:
  assumes "mirrors cal rows st"
  shows "mirrors cal rows (SerializeEntriesForOneMonth cal' year month st)"
proof -
  let ?key = "CalculateMapDateOffset cal' (cal_date cal' year month 1 * SecondsPerDay)"
  have "mirrors cal rows (st\<lparr>m_Entries := month_put ?key (serialize_month cal' m) (m_Entries st)\<rparr>)"
    if "map_of (m_Entries st) ?key = Some m" for m
    using month_put_same [OF serialize_month_keys _ that] assms that
    by (cases "m_storage st") (simp_all add: mirrors_def months_sound_def)
  with assms show ?thesis by (simp add: SerializeEntriesForOneMonth_def Let_def split: option.split)
qed

lemma load_rows_mirrors:
  assumes "distinct (map st_id l)" and "\<forall>r\<in>set l. st_id r \<noteq> 0 \<and> rows s (st_id r) = Some (st_start r, st_end r, st_comment r)"
    and "mirrors cal rows st" and "m_storage st = Some s"
    and "set (map st_id l) \<inter> set (map cell_id (cells (m_Entries st))) = {}"
  shows "mirrors cal rows (fold (\<lambda>row st. snd (AddEntry cal ops (st_start row) (st_end row) (st_comment row) (st_id row) st)) l st)"
  using assms
proof (induction l arbitrary: st)
  case (Cons r l)
  let ?st = "snd (AddEntry cal ops (st_start r) (st_end r) (st_comment r) (st_id r) st)"
  have "mirrors cal rows ?st \<and> m_storage ?st = Some s \<and>
    set (map cell_id (cells (m_Entries ?st))) \<subseteq> insert (st_id r) (set (map cell_id (cells (m_Entries st))))"
    using Cons.prems by (intro AddEntry_loaded) auto
  moreover from this have "set (map st_id l) \<inter> set (map cell_id (cells (m_Entries ?st))) = {}"
    using Cons.prems(1,5) unfolding list.map(2) list.set(2) distinct.simps by blast
  ultimately have "mirrors cal rows (fold (\<lambda>row st. snd (AddEntry cal ops (st_start row) (st_end row) (st_comment row) (st_id row) st)) l ?st)"
    using Cons.prems(1,2) by (intro Cons.IH) simp_all
  then show ?case by simp
qed simp

lemma LoadEntries_mirrors:
  assumes "storage_contract ops rows" and "mirrors cal rows st"
  shows "mirrors cal rows (LoadEntries cal ops year month st)"
proof -
  let ?st = "st\<lparr>m_Entries := []\<rparr>"
  have empty: "mirrors cal rows (st'\<lparr>m_Entries := []\<rparr>)" for st'
    by (simp add: mirrors_def months_sound_def split: option.split)
  have "mirrors cal rows (LoadEntriesForOneMonth cal ops year month ?st)"
  proof (cases "storage_open ops ?st")
    case None
    with empty show ?thesis by (simp add: LoadEntriesForOneMonth_def Let_def)
  next
    case (Some s)
    let ?a = "cal_date cal year month 1 * SecondsPerDay"
    let ?b = "cal_end_of_month cal (cal_date cal year month 1) * SecondsPerDay + (SecondsPerDay - 1)"
    obtain l s' where l: "ts_load_range ops ?a ?b s = (l, s')" by fastforce
    note c = storage_contractD(7) [OF assms(1) l]
    have e: "mirrors cal rows (?st\<lparr>m_storage := Some s'\<rparr>)" by (simp add: mirrors_def months_sound_def)
    have "mirrors cal rows (fold (\<lambda>row st. snd (AddEntry cal ops (st_start row) (st_end row) (st_comment row) (st_id row) st)) l
        (?st\<lparr>m_storage := Some s'\<rparr>))"
      by (rule load_rows_mirrors [where s = s']) (use c e in auto)
    then show ?thesis
      using Some l empty by (auto simp: LoadEntriesForOneMonth_def Let_def intro: Serialize_mirrors)
  qed
  then show ?thesis by (simp add: LoadEntries_def Serialize_mirrors)
qed

text \<open>The calls of the panel.\<close>

datatype tracker_call =
    CallAdd int int string
  | CallEdit int int int string
  | CallSave int
  | CallRemove int
  | CallLoad int int
  | CallUpdate
  | CallSetMonth int int
  | CallInit int

fun tracker_do :: "calendar \<Rightarrow> 's time_storage \<Rightarrow> tracker_call \<Rightarrow> 's time_tracker \<Rightarrow> 's time_tracker" where
  "tracker_do cal ops (CallAdd start end comment) st = snd (AddEntry cal ops start end comment 0 st)"
| "tracker_do cal ops (CallEdit ident start end comment) st = snd (EditEntry cal ops ident start end comment st)"
| "tracker_do cal ops (CallSave ident) st = snd (SaveEntry ops ident st)"
| "tracker_do cal ops (CallRemove ident) st = snd (RemoveEntry ops ident st)"
| "tracker_do cal ops (CallLoad year month) st = LoadEntries cal ops year month st"
| "tracker_do cal ops CallUpdate st = UpdateEntries cal st"
| "tracker_do cal ops (CallSetMonth year month) st = SetActualYearMonth year month st"
| "tracker_do cal ops (CallInit today) st = TimeTrackerInit cal ops today st"

text \<open>C21: The entries mirror the storage.  Over a storage that keeps its promises, after any calls of the
  panel on a new tracker, failed ones included, every entry kept is exactly the stored row of
  its identifier, in the month of its start; no identifier is kept twice, no month is empty,
  and the months are in order.\<close>

theorem tracker_mirrors_storage:
  assumes "storage_contract ops rows" and "m_Entries st = []"
  shows "mirrors cal rows (fold (tracker_do cal ops) calls st)"
proof -
  have "mirrors cal rows st" using assms(2) by (simp add: mirrors_def months_sound_def split: option.split)
  moreover have "mirrors cal rows (tracker_do cal ops call st)" if "mirrors cal rows st" for call st
  proof -
    have set: "mirrors cal rows (SetActualYearMonth y m st)" for y m
      using that by (auto simp: mirrors_def SetActualYearMonth_def split: option.splits)
    with that assms(1) show ?thesis
      by (cases call) (auto intro: AddEntry_mirrors EditEntry_mirrors SaveEntry_mirrors RemoveEntry_mirrors LoadEntries_mirrors
          Serialize_mirrors set LoadEntries_mirrors [OF _ set] simp: UpdateEntries_def TimeTrackerInit_def split: option.split)
  qed
  ultimately show ?thesis by (induction calls arbitrary: st) simp_all
qed

text \<open>A storage in memory: the number of rows ever made, and the rows.\<close>

type_synonym mem_table = "nat \<times> (int \<Rightarrow> (int \<times> int \<times> string) option)"

definition mem_rows :: "mem_table \<Rightarrow> int \<Rightarrow> (int \<times> int \<times> string) option" where
  "mem_rows t i = (if 1 \<le> i \<and> i \<le> int (fst t) then snd t i else None)"

definition mem_storage :: "mem_table time_storage" where
  "mem_storage =
     \<lparr>ts_is_open = (\<lambda>_. True), ts_last_error = (\<lambda>_. ''no such row''),
      ts_insert = (\<lambda>a b c t. (Some (int (fst t) + 1), (fst t + 1, (snd t)(int (fst t) + 1 \<mapsto> (a, b, c))))),
      ts_update = (\<lambda>i a b c t. if mem_rows t i = None then (False, t) else (True, (fst t, (snd t)(i \<mapsto> (a, b, c))))),
      ts_remove = (\<lambda>i t. if mem_rows t i = None then (False, t) else (True, (fst t, (snd t)(i := None)))),
      ts_load_range = (\<lambda>a b t.
        (concat (map (\<lambda>n. case mem_rows t (int n) of
             Some (s, e, d) \<Rightarrow> if a \<le> s \<and> s \<le> b then [\<lparr>st_id = int n, st_start = s, st_end = e, st_comment = d\<rparr>] else []
           | None \<Rightarrow> []) [1..<fst t + 1]), t))\<rparr>"

text \<open>A calendar of twelve months of thirty days.\<close>

definition even_calendar :: calendar where
  "even_calendar =
     \<lparr>cal_year = (\<lambda>d. 1970 + d div 360), cal_month = (\<lambda>d. d mod 360 div 30 + 1), cal_day = (\<lambda>d. d mod 30 + 1),
      cal_date = (\<lambda>y m d. (y - 1970) * 360 + (m - 1) * 30 + (d - 1)), cal_end_of_month = (\<lambda>d. d div 30 * 30 + 29)\<rparr>"

definition new_tracker :: "mem_table time_tracker" where
  "new_tracker = \<lparr>m_Year = 0, m_Month = 0, m_Entries = [], m_storage = Some (0, \<lambda>_. None), m_last_error = [], m_LastId = 0, reported = []\<rparr>"

lemma mem_contract: "storage_contract mem_storage mem_rows"
proof -
  have "distinct (map st_id (concat (map (\<lambda>n. case mem_rows t (int n) of
             Some (s, e, d) \<Rightarrow> if a \<le> s \<and> s \<le> b then [\<lparr>st_id = int n, st_start = s, st_end = e, st_comment = d\<rparr>] else []
           | None \<Rightarrow> []) ns)))" if "distinct ns" for t a b ns
    using that by (induction ns) (auto split: option.splits if_splits)
  then show ?thesis
    by (auto simp: storage_contract_def mem_storage_def mem_rows_def fun_eq_iff split: option.splits if_splits)
qed

theorem tracker_mirrors_storage_witness:
  "let st = fold (tracker_do even_calendar mem_storage)
        [CallInit 0, CallAdd 100 200 ''a'', CallAdd 300 400 ''b'', CallEdit 1 3000000 3000100 ''c'', CallRemove 7, CallUpdate] new_tracker
   in mirrors even_calendar mem_rows st \<and> cells (m_Entries st) = [(197001, 2, 300, 400, ''b''), (197002, 1, 3000000, 3000100, ''c'')] \<and>
      reported st = [''Failed to remove time entry: entry is no longer available'']"
  unfolding Let_def
proof (rule conjI)
  show "mirrors even_calendar mem_rows (fold (tracker_do even_calendar mem_storage)
        [CallInit 0, CallAdd 100 200 ''a'', CallAdd 300 400 ''b'', CallEdit 1 3000000 3000100 ''c'', CallRemove 7, CallUpdate] new_tracker)"
    by (rule tracker_mirrors_storage [OF mem_contract]) (simp add: new_tracker_def)
next
  show "cells (m_Entries (fold (tracker_do even_calendar mem_storage)
        [CallInit 0, CallAdd 100 200 ''a'', CallAdd 300 400 ''b'', CallEdit 1 3000000 3000100 ''c'', CallRemove 7, CallUpdate] new_tracker))
     = [(197001, 2, 300, 400, ''b''), (197002, 1, 3000000, 3000100, ''c'')] \<and>
     reported (fold (tracker_do even_calendar mem_storage)
        [CallInit 0, CallAdd 100 200 ''a'', CallAdd 300 400 ''b'', CallEdit 1 3000000 3000100 ''c'', CallRemove 7, CallUpdate] new_tracker)
     = [''Failed to remove time entry: entry is no longer available'']"
    by code_simp
qed

section \<open>The total of a month\<close>

lemma day_totals_eq:
  "day_totals cal es day = sum_list (map (\<lambda>e. if \<not> te_is_overlap e \<and> cal_day cal (date_of (te_start e)) = day
     then max 0 (te_end e - te_start e) else 0) es)"
proof -
  have "fold (\<lambda>e totals.
       let duration = te_end e - te_start e; day = cal_day cal (date_of (te_start e))
       in if \<not> te_is_overlap e \<and> 0 < duration then totals(day := totals day + duration) else totals) es t day =
     t day + sum_list (map (\<lambda>e. if \<not> te_is_overlap e \<and> cal_day cal (date_of (te_start e)) = day
     then max 0 (te_end e - te_start e) else 0) es)" for t
    by (induction es arbitrary: t) (auto simp: Let_def)
  then show ?thesis by (simp add: day_totals_def)
qed

text \<open>The total of the month counts the time of the entries that overlap no other, once each.\<close>

lemma total_worktime:
  "me_total_worktime (serialize_month cal m) =
     sum_list (map (\<lambda>e. if te_is_overlap e then 0 else max 0 (te_end e - te_start e)) (me_entries (serialize_month cal m)))"
proof -
  define es where "es = me_entries (serialize_month cal m)"
  let ?day = "\<lambda>e. cal_day cal (date_of (te_start e))"
  let ?time = "\<lambda>e. if te_is_overlap e then 0 else max 0 (te_end e - te_start e)"
  have inv: "dv_total (fold (serialize_entry cal totals) ies v) = dv_total v + sum totals ((?day \<circ> snd) ` {ie \<in> set ies. \<not> te_is_overlap (snd ie)} - set (dv_processed v))"
    for totals ies v
  proof (induction ies arbitrary: v)
    case (Cons ie ies)
    obtain i e where ie: "ie = (i, e)" by (cases ie)
    let ?v = "serialize_entry cal totals ie v"
    define A where "A = (?day \<circ> snd) ` {ie \<in> set ies. \<not> te_is_overlap (snd ie)}"
    have IH: "dv_total (fold (serialize_entry cal totals) ies ?v) = dv_total ?v + sum totals (A - set (dv_processed ?v))"
      using Cons.IH [of ?v] by (simp add: A_def)
    have A': "(?day \<circ> snd) ` {x \<in> set (ie # ies). \<not> te_is_overlap (snd x)} = (if te_is_overlap e then A else insert (?day e) A)"
      by (force simp: A_def ie)
    have F: "fold (serialize_entry cal totals) (ie # ies) v = fold (serialize_entry cal totals) ies ?v" by simp
    show ?case
    proof (cases "\<not> te_is_overlap e \<and> ?day e \<notin> set (dv_processed v)")
      case True
      have "finite A" by (simp add: A_def)
      then have "sum totals (insert (?day e) A - set (dv_processed v)) = totals (?day e) + sum totals (A - insert (?day e) (set (dv_processed v)))"
        using True by (subst sum.remove [of _ "?day e"]) (auto intro!: arg_cong [where f = "sum totals"])
      moreover have "dv_processed ?v = ?day e # dv_processed v" "dv_total ?v = dv_total v + totals (?day e)"
        using True by (simp_all add: serialize_entry_def ie Let_def)
      ultimately show ?thesis unfolding A' F IH using True by simp
    next
      case False
      then have "dv_processed ?v = dv_processed v" "dv_total ?v = dv_total v"
        by (auto simp: serialize_entry_def ie Let_def)
      moreover have "(if te_is_overlap e then A else insert (?day e) A) - set (dv_processed v) = A - set (dv_processed v)"
        using False by auto
      ultimately show ?thesis unfolding A' F IH by simp
    qed
  qed simp
  have swap: "finite D \<Longrightarrow> \<forall>e\<in>set es. \<not> te_is_overlap e \<longrightarrow> ?day e \<in> D \<Longrightarrow>
      sum (day_totals cal es) D = sum_list (map ?time es)" for D es
  proof (induction es)
    case Nil
    then show ?case by (simp add: day_totals_eq)
  next
    case (Cons e es)
    have "sum (day_totals cal (e # es)) D =
        (\<Sum>d\<in>D. if \<not> te_is_overlap e \<and> ?day e = d then max 0 (te_end e - te_start e) else 0) + sum (day_totals cal es) D"
      by (simp add: day_totals_eq sum.distrib)
    also have "(\<Sum>d\<in>D. if \<not> te_is_overlap e \<and> ?day e = d then max 0 (te_end e - te_start e) else 0) = ?time e"
      using Cons.prems by (cases "te_is_overlap e") (simp_all add: sum.delta)
    finally show ?case using Cons by simp
  qed
  let ?ies = "zip [0..<length es] es"
  have len: "length es = length (me_entries m)" using arg_cong [OF serialize_month_keys, of length] by (simp add: es_def)
  have sn: "snd ` set ?ies = set es" by (metis length_map map_nth map_snd_zip list.set_map diff_zero length_upt)
  have D: "(?day \<circ> snd) ` {ie \<in> set ?ies. \<not> te_is_overlap (snd ie)} = ?day ` {e \<in> set es. \<not> te_is_overlap e}"
  proof -
    have "(?day \<circ> snd) ` {x \<in> set ?ies. \<not> te_is_overlap (snd x)} = ?day ` {y \<in> snd ` set ?ies. \<not> te_is_overlap y}"
      by force
    then show ?thesis unfolding sn .
  qed
  have "me_total_worktime (serialize_month cal m) =
    dv_total (fold (serialize_entry cal (day_totals cal es)) ?ies
      \<lparr>dv_processed = [], dv_is_white = True, dv_current_date = None, dv_total = 0, dv_serialized = (\<lambda>_. [])\<rparr>)"
    by (simp add: serialize_month_def es_def Let_def)
  also have "\<dots> = sum (day_totals cal es) (?day ` {e \<in> set es. \<not> te_is_overlap e})"
    using inv [of "day_totals cal es" ?ies] by (simp add: D [simplified comp_def] comp_def)
  also have "\<dots> = sum_list (map ?time es)" by (rule swap) auto
  finally show ?thesis by (simp add: es_def)
qed

end
