(* ===== verification/BackupNames.thy ===== *)
theory BackupNames
  imports TcpMessages "HOL-Library.Char_ord" "HOL-Library.List_Lexorder"
begin

text \<open>
  The names of backups and their rotation.  Source: \<open>src/DirectoryBackupCore.cpp\<close>,
  \<open>src/DirectoryBackupCore.hpp\<close>.  A directory is the list of the names in it, or nothing
  when it cannot be read; \<open>stuck\<close> tells the names that cannot be removed.  The hash of a
  file is that of its bytes.
\<close>

section \<open>Names\<close>

definition default_time_format :: string where
  "default_time_format = ''_%Y_%m_%d %H_%M_%S''"

definition isdigit :: "char \<Rightarrow> bool" where
  "isdigit c \<longleftrightarrow> (let n = of_char c :: nat in 48 \<le> n \<and> n \<le> 57)"

definition DigitsForSpecifier :: "char \<Rightarrow> nat" where
  "DigitsForSpecifier specifier =
     (if specifier = CHR ''Y'' then 4
      else if specifier = CHR ''j'' then 3
      else if specifier \<in> set ''CdeHImMSUWy'' then 2
      else 0)"

fun MatchesTimeFormat :: "string \<Rightarrow> string \<Rightarrow> bool" where
  "MatchesTimeFormat text [] = (text = [])"
| "MatchesTimeFormat text (f # format) =
     (if f \<noteq> CHR ''%'' then (case text of [] \<Rightarrow> False | c # text' \<Rightarrow> c = f \<and> MatchesTimeFormat text' format)
      else case format of
        [] \<Rightarrow> False
      | specifier # format' \<Rightarrow>
          if specifier = CHR ''%''
          then (case text of [] \<Rightarrow> False | c # text' \<Rightarrow> c = CHR ''%'' \<and> MatchesTimeFormat text' format')
          else
            let digits = DigitsForSpecifier specifier
            in digits \<noteq> 0 \<and> digits \<le> length text \<and> list_all isdigit (take digits text) \<and>
               MatchesTimeFormat (drop digits text) format')"

fun rotatable_from :: "bool \<Rightarrow> string \<Rightarrow> bool" where
  "rotatable_from has_specifier [] = has_specifier"
| "rotatable_from has_specifier (f # format) =
     (if f \<noteq> CHR ''%'' then rotatable_from has_specifier format
      else case format of
        [] \<Rightarrow> False
      | specifier # format' \<Rightarrow>
          if specifier = CHR ''%'' then rotatable_from has_specifier format'
          else if DigitsForSpecifier specifier = 0 then False
          else rotatable_from True format')"

definition IsRotatableTimeFormat :: "string \<Rightarrow> bool" where
  "IsRotatableTimeFormat time_format = rotatable_from False time_format"

definition IsOwnedBackupName :: "string \<Rightarrow> string \<Rightarrow> string \<Rightarrow> bool" where
  "IsOwnedBackupName source_name candidate_name time_format =
     (if \<not> IsRotatableTimeFormat time_format then False
      else
        let name = (if ends_with candidate_name ''.7z'' then take (length candidate_name - 3) candidate_name else candidate_name)
        in if \<not> starts_with name source_name then False
           else MatchesTimeFormat (drop (length source_name) name) time_format)"

definition ShouldIgnore :: "string \<Rightarrow> string list \<Rightarrow> bool" where
  "ShouldIgnore text rules =
     list_ex (\<lambda>rule. rule \<noteq> [] \<and> list_ex (\<lambda>i. starts_with (drop i text) rule) [0..<length text + 1]) rules"

definition FileHash :: "bytes \<Rightarrow> u64" where
  "FileHash data = fold (\<lambda>b hash. (hash XOR ucast b) * 1099511628211) data 14695981039346656037"

text \<open>Each step of the hash can be undone, so files that differ in one byte have different hashes.\<close>

lemma FileHash_step_inj:
  fixes x y :: u64
  assumes "x * 1099511628211 = y * 1099511628211"
  shows "x = y"
proof -
  have inverse: "(1099511628211 :: u64) * 0xCE965057AFF6957B = 1" by code_simp
  have "x * (1099511628211 * 0xCE965057AFF6957B) = y * (1099511628211 * 0xCE965057AFF6957B)"
    using arg_cong [OF assms, of "\<lambda>z. z * 0xCE965057AFF6957B"] by (simp only: mult.assoc)
  then show ?thesis by (simp only: inverse mult_1_right)
qed

lemma xor_cancel: "(h :: u64) XOR c = h' XOR c \<longleftrightarrow> h = h'" "(h :: u64) XOR c = h XOR c' \<longleftrightarrow> c = c'"
  by (auto simp: bit_eq_iff bit_xor_iff)

lemma FileHash_one_byte:
  assumes "a \<noteq> b"
  shows "FileHash (xs @ a # ys) \<noteq> FileHash (xs @ b # ys)"
proof -
  let ?step = "\<lambda>b hash. (hash XOR ucast b) * 1099511628211 :: u64"
  have inj: "?step c h = ?step c h' \<longleftrightarrow> h = h'" for c :: u8 and h h'
    using FileHash_step_inj [of "h XOR ucast c" "h' XOR ucast c"] xor_cancel(1) by blast
  have rest: "fold ?step ys h = fold ?step ys h' \<longleftrightarrow> h = h'" for h h'
    by (induction ys arbitrary: h h') (simp_all only: fold_simps inj)
  have "?step a h \<noteq> ?step b h" for h
  proof
    assume "?step a h = ?step b h"
    then have "h XOR ucast a = h XOR ucast b" by (rule FileHash_step_inj)
    then have u: "(ucast a :: u64) = ucast b" using xor_cancel(2) by blast
    have "bit a k = bit b k" if "k < 8" for k
      using arg_cong [OF u, of "\<lambda>w. bit w k"] that by (simp add: bit_simps)
    then have "a = b" by (intro bit_word_eqI) simp
    with assms show False by simp
  qed
  then show ?thesis by (simp only: FileHash_def fold_append fold_simps comp_def rest not_False_eq_True)
qed

section \<open>Rotation\<close>


definition RotationCandidates :: "string list option \<Rightarrow> string \<Rightarrow> int \<Rightarrow> string \<Rightarrow> string list" where
  "RotationCandidates directory source_name max_backups time_format =
     (if max_backups \<le> 0 then []
      else case directory of
        None \<Rightarrow> []
      | Some names \<Rightarrow>
          let owned = sort (filter (\<lambda>n. IsOwnedBackupName source_name n time_format) names);
              keep_before_new = nat (max_backups - 1)
          in if length owned \<le> keep_before_new then [] else take (length owned - keep_before_new) owned)"




subsection \<open>What rotation removes and keeps\<close>





subsection \<open>Whose backup a name is\<close>








lemma percent_digits [simp]: "DigitsForSpecifier (CHR ''%'') = 0"
  by (simp add: DigitsForSpecifier_def)

















text \<open>The order of the names is not the order of time for every format accepted: with the day
  first, the backup of the first of February goes before that of the thirty-first of January.\<close>

lemma rotation_by_name:
  "IsRotatableTimeFormat ''_%d_%m_%Y'' \<and>
   RotationCandidates (Some [''x_31_01_2025'', ''x_01_02_2025'']) ''x'' 2 ''_%d_%m_%Y'' = [''x_01_02_2025'']"
  by code_simp

end
