(* ===== verification/BackupCopy.thy ===== *)
theory BackupCopy
  imports BackupNames
begin

text \<open>
  Measuring a source and copying it to the destinations.  Source:
  \<open>src/DirectoryBackupCore.cpp\<close>, \<open>src/DirectoryBackupCore.hpp\<close>.  The source is a tree in the order the
  recursive iterator visits it; the file system is an argument that decides the outcome of
  every operation, with a state of its own that the cancel flag is read from too.  The run
  keeps the operations done, with whether each succeeded.  A path is relative to the source,
  to a destination's staging directory or to its final one.
\<close>

section \<open>The source and the file system\<close>

datatype item_kind = Symlink string | Directory | RegularFile nat | OtherKind

datatype source_item = Item string item_kind "source_item list"

fun item_weight :: "source_item \<Rightarrow> nat" where
  "item_weight (Item name kind children) = 1 + sum_list (map item_weight children)"

type_synonym rel_path = "string list"

datatype fs_op =
    OpenSource
  | Advance
  | RemoveAll bool rel_path
  | CreateDirectories rel_path
  | CreateSymlink string rel_path
  | CopyFile rel_path
  | RenameToFinal
  | AfterCreateDirectory rel_path
  | AfterCopyFile rel_path
  | Compress
  | ReadHashes rel_path "bytes option" "bytes option"

text \<open>\<open>RemoveAll final path\<close> is under the final or the staging directory.  \<open>ReadHashes path a b\<close> is the
  reading of a file in the source and in the staging directory with what was read there, none
  when it cannot be read; the two hashes are those of these bytes.\<close>

record 's backup_env =
  fs_do :: "fs_op \<Rightarrow> 's \<Rightarrow> string option \<times> 's"
  fs_cancelled :: "'s \<Rightarrow> bool"
  fs_inside_source :: bool
  fs_exists :: "'s \<Rightarrow> bool"
  fs_size :: "rel_path \<Rightarrow> 's \<Rightarrow> nat option"
  fs_source_bytes :: "rel_path \<Rightarrow> 's \<Rightarrow> bytes option"
  fs_target_bytes :: "rel_path \<Rightarrow> 's \<Rightarrow> bytes option"

record backup_options =
  ignore_rules :: "string list"
  verify_hash :: bool
  has_after_copy_file :: bool
  has_after_create_directory :: bool
  has_compressor :: bool

record destination_result =
  dr_success :: bool
  dr_cancelled :: bool
  dr_hash_mismatch :: bool
  dr_compressed :: bool
  dr_error :: string
  dr_file_count :: nat
  dr_bytes :: nat

record source_metrics =
  sm_file_count :: nat
  sm_bytes :: nat
  sm_success :: bool
  sm_error :: string

definition new_result :: destination_result where
  "new_result =
     \<lparr>dr_success = False, dr_cancelled = False, dr_hash_mismatch = False, dr_compressed = False, dr_error = [],
      dr_file_count = 0, dr_bytes = 0\<rparr>"

record 's copy_run =
  cr_fs :: 's
  cr_log :: "(fs_op \<times> bool) list"
  cr_result :: destination_result

definition perform :: "'s backup_env \<Rightarrow> fs_op \<Rightarrow> 's copy_run \<Rightarrow> string option \<times> 's copy_run" where
  "perform env op run =
     (let (error, s') = fs_do env op (cr_fs run)
      in (error, run\<lparr>cr_fs := s', cr_log := cr_log run @ [(op, error = None)]\<rparr>))"

text \<open>One operation after another, the rest only when it succeeds.\<close>

definition and_then ::
  "string option \<times> 's copy_run \<Rightarrow> ('s copy_run \<Rightarrow> string option \<times> 's copy_run) \<Rightarrow> string option \<times> 's copy_run" where
  "and_then r next = (case r of (None, run) \<Rightarrow> next run | (Some error, run) \<Rightarrow> (Some error, run))"

definition generic_string :: "rel_path \<Rightarrow> string" where
  "generic_string path = (case path of [] \<Rightarrow> [] | p # ps \<Rightarrow> p @ concat (map (Cons CHR ''/'') ps))"

section \<open>Measuring\<close>

text \<open>Sizes come from the tree; the iteration reports \<open>failure\<close>, if any, when it ends.\<close>

function measure_walk :: "string list \<Rightarrow> (rel_path \<times> source_item) list \<Rightarrow> source_metrics \<Rightarrow> source_metrics" where
  "measure_walk rules [] metrics = metrics"
| "measure_walk rules ((prefix, Item name kind children) # rest) metrics =
     (let relative = prefix @ [name] in
      if ShouldIgnore (generic_string relative) rules then measure_walk rules rest metrics
      else measure_walk rules (map (Pair relative) children @ rest)
        (case kind of
           RegularFile n \<Rightarrow> metrics\<lparr>sm_file_count := sm_file_count metrics + 1, sm_bytes := sm_bytes metrics + n\<rparr>
         | _ \<Rightarrow> metrics))"
  by pat_completeness auto
termination
  by (relation "measure (\<lambda>(_, items, _). sum_list (map (item_weight \<circ> snd) items))") (auto simp: comp_def)

definition MeasureSource :: "string list \<Rightarrow> source_item list \<Rightarrow> string option \<Rightarrow> source_metrics" where
  "MeasureSource rules source failure =
     (let metrics = measure_walk rules (map (Pair []) source) \<lparr>sm_file_count = 0, sm_bytes = 0, sm_success = False, sm_error = []\<rparr>
      in case failure of None \<Rightarrow> metrics\<lparr>sm_success := True\<rparr> | Some e \<Rightarrow> metrics\<lparr>sm_error := e\<rparr>)"

section \<open>Copying\<close>

definition set_result :: "(destination_result \<Rightarrow> destination_result) \<Rightarrow> 's copy_run \<Rightarrow> 's copy_run" where
  "set_result f run = run\<lparr>cr_result := f (cr_result run)\<rparr>"

definition when_set :: "bool \<Rightarrow> fs_op \<Rightarrow> 's backup_env \<Rightarrow> 's copy_run \<Rightarrow> string option \<times> 's copy_run" where
  "when_set flag op env run = (if flag then (None, snd (perform env op run)) else (None, run))"

definition io_error :: string where "io_error = ''io error''"

definition verify :: "'s backup_env \<Rightarrow> backup_options \<Rightarrow> rel_path \<Rightarrow> 's copy_run \<Rightarrow> string option \<times> 's copy_run" where
  "verify env options path run =
     (if \<not> verify_hash options then (None, run)
      else
        let source = fs_source_bytes env path (cr_fs run);
            target = fs_target_bytes env path (cr_fs run);
            run1 = run\<lparr>cr_log := cr_log run @ [(ReadHashes path source target, source \<noteq> None \<and> target \<noteq> None)]\<rparr>
        in case (source, target) of
          (Some a, Some b) \<Rightarrow>
            if FileHash a = FileHash b then (None, run1)
            else (Some io_error, set_result (\<lambda>r. r\<lparr>dr_hash_mismatch := True\<rparr>) run1)
        | _ \<Rightarrow> (Some io_error, set_result (\<lambda>r. r\<lparr>dr_hash_mismatch := True\<rparr>) run1))"

definition count_file :: "'s backup_env \<Rightarrow> rel_path \<Rightarrow> 's copy_run \<Rightarrow> string option \<times> 's copy_run" where
  "count_file env path run =
     (None, set_result (\<lambda>r. r\<lparr>dr_file_count := dr_file_count r + 1,
        dr_bytes := dr_bytes r + (case fs_size env path (cr_fs run) of Some n \<Rightarrow> n | None \<Rightarrow> 0)\<rparr>) run)"

definition copy_item :: "'s backup_env \<Rightarrow> backup_options \<Rightarrow> rel_path \<Rightarrow> item_kind \<Rightarrow> 's copy_run \<Rightarrow> string option \<times> 's copy_run" where
  "copy_item env options target kind run =
     (case kind of
        Symlink link_target \<Rightarrow>
          and_then (perform env (CreateDirectories (butlast target)) run) (perform env (CreateSymlink link_target target))
      | Directory \<Rightarrow>
          and_then (perform env (CreateDirectories target) run)
            (when_set (has_after_create_directory options) (AfterCreateDirectory target) env)
      | RegularFile _ \<Rightarrow>
          and_then (and_then (and_then (and_then (perform env (CreateDirectories (butlast target)) run)
            (perform env (CopyFile target)))
            (count_file env target))
            (when_set (has_after_copy_file options) (AfterCopyFile target) env))
            (verify env options target)
      | OtherKind \<Rightarrow> (None, run))"

text \<open>The loop over the source: the error it ends with, if any.  A cancelled run ends without one.\<close>

function copy_walk ::
  "'s backup_env \<Rightarrow> backup_options \<Rightarrow> (rel_path \<times> source_item) list \<Rightarrow> 's copy_run \<Rightarrow> string option \<times> 's copy_run" where
  "copy_walk env options [] run = (None, run)"
| "copy_walk env options ((prefix, Item name kind children) # rest) run =
     (if fs_cancelled env (cr_fs run)
      then (None, set_result (\<lambda>r. r\<lparr>dr_cancelled := True, dr_error := ''cancelled''\<rparr>) run)
      else
        let relative = prefix @ [name] in
        if ShouldIgnore (generic_string relative) (ignore_rules options)
        then and_then (perform env Advance run) (copy_walk env options rest)
        else and_then (and_then (copy_item env options relative kind run) (perform env Advance))
          (copy_walk env options (map (Pair relative) children @ rest)))"
  by pat_completeness auto
termination
  by (relation "measure (\<lambda>(_, _, items, _). sum_list (map (item_weight \<circ> snd) items))") (auto simp: comp_def)

definition fail_with :: "string \<Rightarrow> 's copy_run \<Rightarrow> 's copy_run" where
  "fail_with message run = set_result (\<lambda>r. r\<lparr>dr_error := message\<rparr>) run"

definition compress_step :: "'s backup_env \<Rightarrow> backup_options \<Rightarrow> 's copy_run \<Rightarrow> 's copy_run" where
  "compress_step env options run =
     (if \<not> has_compressor options then run
      else case perform env Compress run of
        (None, run1) \<Rightarrow>
          (case perform env (RemoveAll True []) run1 of
             (None, run2) \<Rightarrow> set_result (\<lambda>r. r\<lparr>dr_compressed := True, dr_success := True\<rparr>) run2
           | (Some error, run2) \<Rightarrow>
               set_result (\<lambda>r. r\<lparr>dr_compressed := False, dr_success := False, dr_error := error\<rparr>) run2)
      | (Some _, run1) \<Rightarrow> set_result (\<lambda>r. r\<lparr>dr_success := False, dr_error := ''compression failed''\<rparr>) run1)"

text \<open>What follows the loop, and the clean-up.\<close>

definition finish_copy :: "'s backup_env \<Rightarrow> backup_options \<Rightarrow> string option \<times> 's copy_run \<Rightarrow> 's copy_run" where
  "finish_copy env options outcome =
     (let (error, run) = outcome;
          run1 = (case error of
              None \<Rightarrow> run
            | Some e \<Rightarrow> if dr_error (cr_result run) = []
                then fail_with (if dr_hash_mismatch (cr_result run) then ''hash mismatch'' else e) run else run);
          run2 = (if error = None \<and> \<not> dr_cancelled (cr_result run1) then
                    (case perform env RenameToFinal run1 of
                       (Some e, r) \<Rightarrow> fail_with e r
                     | (None, r) \<Rightarrow> compress_step env options (set_result (\<lambda>r. r\<lparr>dr_success := True\<rparr>) r))
                  else run1)
      in snd (perform env (RemoveAll False []) run2))"

definition copy_to_destination ::
  "'s backup_env \<Rightarrow> backup_options \<Rightarrow> source_item list \<Rightarrow> 's \<Rightarrow> 's copy_run" where
  "copy_to_destination env options source s =
     (let run = \<lparr>cr_fs = s, cr_log = [], cr_result = new_result\<rparr> in
      if fs_cancelled env s then set_result (\<lambda>r. r\<lparr>dr_cancelled := True, dr_error := ''cancelled''\<rparr>) run
      else if fs_inside_source env then fail_with ''destination is inside the source'' run
      else if fs_exists env s then fail_with ''a backup of this name already exists'' run
      else
        let run1 = snd (perform env (RemoveAll False []) run)
        in case perform env (CreateDirectories []) run1 of
             (Some e, run2) \<Rightarrow> fail_with e run2
           | (None, run2) \<Rightarrow>
               finish_copy env options
                 (and_then (perform env OpenSource run2) (copy_walk env options (map (Pair []) source))))"

text \<open>The destinations one after the other, each with the file system as the one before leaves it.\<close>

fun CopyToDestinations ::
  "'s backup_env list \<Rightarrow> backup_options \<Rightarrow> source_item list \<Rightarrow> 's \<Rightarrow> destination_result list" where
  "CopyToDestinations [] options source s = []"
| "CopyToDestinations (env # envs) options source s =
     (let run = copy_to_destination env options source s
      in cr_result run # CopyToDestinations envs options source (cr_fs run))"

section \<open>A final name means a complete copy\<close>



fun is_content :: "fs_op \<Rightarrow> bool" where
  "is_content (CreateDirectories path) = True"
| "is_content (CreateSymlink t path) = True"
| "is_content (CopyFile path) = True"
| "is_content _ = False"

definition content :: "(fs_op \<times> bool) list \<Rightarrow> (fs_op \<times> bool) list" where
  "content log = filter (\<lambda>(op, ok). is_content op) log"

definition done_ops :: "fs_op list \<Rightarrow> (fs_op \<times> bool) list" where
  "done_ops ops = map (\<lambda>op. (op, True)) ops"

definition is_file :: "item_kind \<Rightarrow> bool" where
  "is_file kind = (case kind of RegularFile n \<Rightarrow> True | _ \<Rightarrow> False)"


text \<open>The files that were read for their hashes, and that the hashes of one are equal.\<close>

definition hashed :: "(fs_op \<times> bool) list \<Rightarrow> (rel_path \<times> bytes option \<times> bytes option) list" where
  "hashed log = List.map_filter (\<lambda>(op, ok). case op of ReadHashes path a b \<Rightarrow> Some (path, a, b) | _ \<Rightarrow> None) log"


definition files_of :: "(rel_path \<times> item_kind) list \<Rightarrow> rel_path list" where
  "files_of items = map fst (filter (is_file \<circ> snd) items)"


lemma content_append [simp]: "content (xs @ ys) = content xs @ content ys"
  by (simp add: content_def)

lemma hashed_append [simp]: "hashed (xs @ ys) = hashed xs @ hashed ys"
  by (simp add: hashed_def List.map_filter_def)

lemma hashed_Nil [simp]: "hashed [] = []"
  by (simp add: hashed_def List.map_filter_def)


lemma done_ops_append [simp]: "done_ops (xs @ ys) = done_ops xs @ done_ops ys"
  by (simp add: done_ops_def)






definition checks_of :: "backup_options \<Rightarrow> (rel_path \<times> item_kind) list \<Rightarrow> rel_path list" where
  "checks_of options items = (if verify_hash options then files_of items else [])"

lemma checks_simps [simp]:
  "checks_of options [] = []"
  "checks_of options ((path, kind) # items) = (if is_file kind \<and> verify_hash options then [path] else []) @ checks_of options items"
  by (simp_all add: checks_of_def files_of_def)
















end
