(* ===== verification/MacroKeys.thy ===== *)
theory MacroKeys
  imports NumberText "HOL-Library.Char_ord" "HOL-Library.List_Lexorder"
begin

text \<open>
  The macro language.  Source: \<open>src/CustomMacro.hpp\<close> (the actions and the table of keywords),
  \<open>src/MacroActions.cpp\<close> (what each keyword's text means and how an action is written back),
  \<open>src/KeyScanCodes.cpp\<close> (the key names), \<open>CustomMacro::ParseMacroKeys\<close> of \<open>src/CustomMacro.cpp\<close>,
  and the loading and saving of macros in \<open>src/MacroSettings.cpp\<close>.  The three text functions
  the code takes from Boost are an argument of the model.  A section of the ini file is the
  list of its keys and values; what turns the file into sections is not modelled.
\<close>

section \<open>Key names\<close>

definition scan_codes :: "(string \<times> u16) list" where
  "scan_codes =
     [(''LCTRL'', 0x1D), (''RCTRL'', 0xE01D), (''LALT'', 0x38), (''RALT'', 0xE038), (''LSHIFT'', 0x2A),
      (''RSHIFT'', 0x36), (''BACKSPACE'', 0xE), (''TAB'', 0x0F), (''ENTER'', 0x1C), (''ESC'', 0x01),
      (''SPACE'', 0x39), (''PAGEUP'', 0xE049), (''PAGEDOWN'', 0xE051), (''END'', 0xE04F),
      (''HOME'', 0xE047), (''PRINT'', 0x0), (''INSERT'', 0xE052), (''DELETE'', 0xE053),
      (''NUM_1'', 0x4F), (''NUM_2'', 0x50), (''NUM_3'', 0x51), (''NUM_4'', 0x4B), (''NUM_5'', 0x4C),
      (''NUM_6'', 0x4D), (''NUM_7'', 0x47), (''NUM_8'', 0x48), (''NUM_9'', 0x49), (''NUM_0'', 0x52),
      (''NUM_MUL'', 0x37), (''NUM_DOT'', 0x53), (''NUM_PLUS'', 0x4E), (''NUM_MINUS'', 0x4A),
      (''NUM_DIV'', 0xE035), (''A'', 0x1E), (''B'', 0x30), (''C'', 0x2E), (''D'', 0x20), (''E'', 0x12),
      (''F'', 0x21), (''G'', 0x22), (''H'', 0x23), (''I'', 0x17), (''J'', 0x24), (''K'', 0x25),
      (''L'', 0x26), (''M'', 0x32), (''N'', 0x31), (''O'', 0x18), (''P'', 0x19), (''Q'', 0x10),
      (''R'', 0x13), (''S'', 0x1F), (''T'', 0x14), (''U'', 0x16), (''V'', 0x2F), (''W'', 0x11),
      (''X'', 0x2D), (''Y'', 0x15), (''Z'', 0x2C), (''1'', 0x02), (''2'', 0x03), (''F1'', 0x3B),
      (''F2'', 0x3C), (''F3'', 0x3D), (''F4'', 0x3E), (''F5'', 0x3F), (''F6'', 0x40), (''F7'', 0x41),
      (''F8'', 0x42), (''F9'', 0x43), (''F10'', 0x44), (''F11'', 0x59), (''F12'', 0x58),
      (''LEFT'', 0xE04B), (''RIGHT'', 0xE04D), (''UP'', 0xE048), (''DOWN'', 0xE050),
      (''AFTERBURNER'', 0xFFFE)]"

definition hid_scan_codes :: "(u8 \<times> string) list" where
  "hid_scan_codes =
     [(0x04, ''A''), (0x05, ''B''), (0x06, ''C''), (0x07, ''D''), (0x08, ''E''), (0x09, ''F''),
      (0x0A, ''G''), (0x0B, ''H''), (0x0C, ''I''), (0x0D, ''J''), (0x0E, ''K''), (0x0F, ''L''),
      (0x10, ''M''), (0x11, ''N''), (0x12, ''O''), (0x13, ''P''), (0x14, ''Q''), (0x15, ''R''),
      (0x16, ''S''), (0x17, ''T''), (0x18, ''U''), (0x19, ''V''), (0x1A, ''W''), (0x1B, ''X''),
      (0x1C, ''Y''), (0x1D, ''Z''), (0x1E, ''1''), (0x1F, ''2''), (0x20, ''3''), (0x21, ''4''),
      (0x22, ''5''), (0x23, ''6''), (0x24, ''7''), (0x25, ''8''), (0x26, ''9''), (0x27, ''0''),
      (0x2A, ''NUM_BACKSPACE''), (0x3A, ''F1''), (0x3B, ''F2''), (0x3C, ''F3''), (0x3D, ''F4''),
      (0x3E, ''F5''), (0x3F, ''F6''), (0x40, ''F7''), (0x41, ''F8''), (0x42, ''F9''), (0x43, ''F10''),
      (0x44, ''F11''), (0x45, ''F12''), (0x46, ''PRINT''), (0x47, ''SCROLL''), (0x48, ''PUASE''),
      (0x49, ''INSERT''), (0x4A, ''HOME''), (0x4B, ''PAGEUP''), (0x4C, ''DELETE''), (0x4D, ''END''),
      (0x4E, ''PAGEDOWN''), (0x4F, ''RIGHT''), (0x50, ''LEFT''), (0x51, ''DOWN''), (0x52, ''UP''),
      (0x53, ''NUM_LOCK''), (0x54, ''NUM_DIV''), (0x55, ''NUM_MUL''), (0x56, ''NUM_MINUS''),
      (0x57, ''NUM_PLUS''), (0x58, ''ENTER''), (0x59, ''NUM_1''), (0x5A, ''NUM_2''), (0x5B, ''NUM_3''),
      (0x5C, ''NUM_4''), (0x5D, ''NUM_5''), (0x5E, ''NUM_6''), (0x5F, ''NUM_7''), (0x60, ''NUM_8''),
      (0x61, ''NUM_9''), (0x62, ''NUM_0''), (0x63, ''NUM_DEL''), (0xF0, ''LCTRL''), (0xF1, ''LSHIFT''),
      (0xF2, ''LALT''), (0xF3, ''LGUI''), (0xF4, ''RCTRL''), (0xF5, ''RSHIFT''), (0xF6, ''RALT''),
      (0xF7, ''RGUI'')]"

definition GetKeyScanCode :: "string \<Rightarrow> u16" where
  "GetKeyScanCode str = (case map_of scan_codes str of Some code \<Rightarrow> code | None \<Rightarrow> 0xFFFF)"

definition GetKeyStringFromScanCode :: "u16 \<Rightarrow> string" where
  "GetKeyStringFromScanCode scancode =
     (case find (\<lambda>pair. snd pair = scancode) scan_codes of Some pair \<Rightarrow> fst pair | None \<Rightarrow> ''INVALID'')"

section \<open>Text functions of Boost\<close>

text \<open>
  \<open>boost::erase_all\<close> of a one-character string, \<open>boost::split\<close> at any of one character, and
  \<open>boost::tokenizer\<close> with a \<open>char_separator\<close> of one character.
\<close>

record text_lib =
  tl_erase_all :: "string \<Rightarrow> char \<Rightarrow> string"
  tl_split :: "char \<Rightarrow> string \<Rightarrow> string list"
  tl_tokens :: "char \<Rightarrow> string \<Rightarrow> string list"

fun joined :: "char \<Rightarrow> string list \<Rightarrow> string" where
  "joined c [] = []"
| "joined c [p] = p"
| "joined c (p # q # ps) = p @ c # joined c (q # ps)"

text \<open>
  What the code relies on: erasing removes every occurrence and nothing else; the parts of a
  split are free of the separator and joined by it give the text back; a tokenizer
  drops the empty parts.
\<close>

definition documented_text_lib :: "text_lib \<Rightarrow> bool" where
  "documented_text_lib lib \<longleftrightarrow>
     (\<forall>s c. tl_erase_all lib s c = filter (\<lambda>x. x \<noteq> c) s) \<and>
     (\<forall>s c. tl_split lib c s \<noteq> [] \<and> (\<forall>p \<in> set (tl_split lib c s). c \<notin> set p) \<and>
            joined c (tl_split lib c s) = s) \<and>
     (\<forall>s c. tl_tokens lib c s = filter (\<lambda>p. p \<noteq> []) (tl_split lib c s))"

section \<open>Actions\<close>

datatype IKey =
    KeyText string
  | KeyCombination "u16 list"
  | KeyDelay u32
  | KeyDelayRandom u32 u32
  | MouseMovement u32 u32
  | MouseInterpolate u32 u32
  | MousePress u16
  | MouseRelease u16
  | MouseClick u16
  | BashCommand string
  | CommandExecute string
  | CommandXml string
  | KeyBringAppToForeground string string
  | KeyFindImageOnScreen string u32 u32

datatype macro_keyword =
  BIND_NAME | KEY_TYPE | KEY_SEQ | DELAY | MOUSE_MOVE | MOUSE_INTERPOLATE | MOUSE_PRESS | MOUSE_RELEASE |
  MOUSE_CLICK | BASH | CMD | CMD_XML | CMD_FG | CMD_IMG

fun token :: "macro_keyword \<Rightarrow> string" where
  "token BIND_NAME = ''BIND_NAME[''"
| "token KEY_TYPE = ''KEY_TYPE[''"
| "token KEY_SEQ = ''KEY_SEQ[''"
| "token DELAY = ''DELAY[''"
| "token MOUSE_MOVE = ''MOUSE_MOVE[''"
| "token MOUSE_INTERPOLATE = ''MOUSE_INTERPOLATE[''"
| "token MOUSE_PRESS = ''MOUSE_PRESS[''"
| "token MOUSE_RELEASE = ''MOUSE_RELEASE[''"
| "token MOUSE_CLICK = ''MOUSE_CLICK[''"
| "token BASH = ''BASH[''"
| "token CMD = ''CMD[''"
| "token CMD_XML = ''CMD_XML[''"
| "token CMD_FG = ''CMD_FG[''"
| "token CMD_IMG = ''CMD_IMG[''"

definition kAll :: "macro_keyword list" where
  "kAll = [BIND_NAME, KEY_TYPE, KEY_SEQ, DELAY, MOUSE_MOVE, MOUSE_INTERPOLATE, MOUSE_PRESS, MOUSE_RELEASE,
           MOUSE_CLICK, BASH, CMD, CMD_XML, CMD_FG, CMD_IMG]"

text \<open>The values of \<open>uint32_t\<close>, and of \<open>LONG\<close> and \<open>int\<close>.\<close>

definition stoi_u32 :: "string \<Rightarrow> string + u32" where
  "stoi_u32 text = (case stoi 0 (2 ^ 32 - 1) text of
     Some n \<Rightarrow> Inr (word_of_int n) | None \<Rightarrow> Inl (''Bad stoi input ('' @ text @ '')''))"

definition stoi_s32 :: "string \<Rightarrow> string + u32" where
  "stoi_s32 text = (case stoi (- (2 ^ 31)) (2 ^ 31 - 1) text of
     Some n \<Rightarrow> Inr (word_of_int n) | None \<Rightarrow> Inl (''Bad stoi input ('' @ text @ '')''))"

text \<open>Two numbers, the first thrown error winning.\<close>

definition both :: "('a \<Rightarrow> 'a \<Rightarrow> 'b) \<Rightarrow> string + 'a \<Rightarrow> string + 'a \<Rightarrow> string + 'b" where
  "both f x y = (case x of Inl e \<Rightarrow> Inl e | Inr a \<Rightarrow> (case y of Inl e \<Rightarrow> Inl e | Inr b \<Rightarrow> Inr (f a b)))"

text \<open>\<open>MOUSEEVENTF_LEFTDOWN\<close>, \<open>MOUSEEVENTF_RIGHTDOWN\<close> and \<open>MOUSEEVENTF_MIDDLEDOWN\<close> of Windows.\<close>

definition mouse_button :: "(u16 \<Rightarrow> IKey) \<Rightarrow> string \<Rightarrow> string + IKey" where
  "mouse_button mk str =
     (if str = ''L'' \<or> str = ''LEFT'' then Inr (mk 0x02)
      else if str = ''R'' \<or> str = ''RIGHT'' then Inr (mk 0x08)
      else if str = ''M'' \<or> str = ''MIDDLE'' then Inr (mk 0x20)
      else Inl (''Invalid mouse button input: '' @ str))"

definition mouse_position :: "text_lib \<Rightarrow> (u32 \<Rightarrow> u32 \<Rightarrow> IKey) \<Rightarrow> string \<Rightarrow> string + IKey" where
  "mouse_position lib mk text =
     (let str = tl_erase_all lib text (CHR '' '') in
      case str_find str '','' 0 of
        None \<Rightarrow> Inl (''Invalid mouse position input: '' @ str)
      | Some separator_pos \<Rightarrow>
          if separator_pos + 1 < length str
          then both mk (stoi_s32 (take separator_pos str)) (stoi_s32 (drop (separator_pos + 1) str))
          else Inl (''Invalid mouse position input: '' @ str))"

definition key_delay :: "text_lib \<Rightarrow> string \<Rightarrow> string + IKey" where
  "key_delay lib text =
     (let str = tl_erase_all lib text (CHR '' '') in
      case str_find str ''-'' 0 of
        None \<Rightarrow> map_sum id KeyDelay (stoi_u32 str)
      | Some separator_pos \<Rightarrow>
          if separator_pos + 1 < length str
          then both KeyDelayRandom (stoi_u32 (take separator_pos str)) (stoi_u32 (drop (separator_pos + 1) str))
          else map_sum id KeyDelay (stoi_u32 str))"

definition key_combination :: "text_lib \<Rightarrow> string \<Rightarrow> IKey" where
  "key_combination lib text =
     KeyCombination (map GetKeyScanCode (tl_tokens lib (CHR ''+'') (tl_erase_all lib text (CHR '' ''))))"

definition bring_app :: "text_lib \<Rightarrow> string \<Rightarrow> IKey" where
  "bring_app lib str =
     (case tl_split lib (CHR '','') str of
        [app, title] \<Rightarrow> KeyBringAppToForeground app title
      | _ \<Rightarrow> KeyBringAppToForeground [] [])"

definition find_image :: "text_lib \<Rightarrow> string \<Rightarrow> IKey" where
  "find_image lib str =
     (case tl_split lib (CHR '','') str of
        [image_path, px, py] \<Rightarrow>
          (case (TryParse (- (2 ^ 31)) (2 ^ 31 - 1) Whole 10 px, TryParse (- (2 ^ 31)) (2 ^ 31 - 1) Whole 10 py) of
             (Some x, Some y) \<Rightarrow> KeyFindImageOnScreen image_path (word_of_int x) (word_of_int y)
           | _ \<Rightarrow> KeyFindImageOnScreen image_path 0 0)
      | _ \<Rightarrow> KeyFindImageOnScreen [] 0 0)"

text \<open>\<open>Keyword::create\<close>; \<open>Inl\<close> is the text of the exception thrown.  \<open>BIND_NAME\<close> has none.\<close>

fun create :: "text_lib \<Rightarrow> macro_keyword \<Rightarrow> string \<Rightarrow> string + IKey" where
  "create lib BIND_NAME s = Inl ''''"
| "create lib KEY_TYPE s = Inr (KeyText s)"
| "create lib KEY_SEQ s = Inr (key_combination lib s)"
| "create lib DELAY s = key_delay lib s"
| "create lib MOUSE_MOVE s = mouse_position lib MouseMovement s"
| "create lib MOUSE_INTERPOLATE s = mouse_position lib MouseInterpolate s"
| "create lib MOUSE_PRESS s = mouse_button MousePress s"
| "create lib MOUSE_RELEASE s = mouse_button MouseRelease s"
| "create lib MOUSE_CLICK s = mouse_button MouseClick s"
| "create lib BASH s = Inr (BashCommand s)"
| "create lib CMD s = Inr (CommandExecute s)"
| "create lib CMD_XML s = Inr (CommandXml s)"
| "create lib CMD_FG s = Inr (bring_app lib s)"
| "create lib CMD_IMG s = Inr (find_image lib s)"

section \<open>Writing actions\<close>

datatype TextFormat = Plain | Ini

definition ButtonToString :: "u16 \<Rightarrow> string" where
  "ButtonToString key = (if key = 0x02 then ''LEFT'' else if key = 0x08 then ''RIGHT''
     else if key = 0x20 then ''MIDDLE'' else ''INVALID'')"

text \<open>\<open>path::generic_path_text\<close> on Windows.\<close>

definition generic_path_text :: "string \<Rightarrow> string" where
  "generic_path_text path = map (\<lambda>c. if c = CHR 0x5C then CHR ''/'' else c) path"

fun keyword_of :: "IKey \<Rightarrow> macro_keyword" where
  "keyword_of (KeyText _) = KEY_TYPE"
| "keyword_of (KeyCombination _) = KEY_SEQ"
| "keyword_of (KeyDelay _) = DELAY"
| "keyword_of (KeyDelayRandom _ _) = DELAY"
| "keyword_of (MouseMovement _ _) = MOUSE_MOVE"
| "keyword_of (MouseInterpolate _ _) = MOUSE_INTERPOLATE"
| "keyword_of (MousePress _) = MOUSE_PRESS"
| "keyword_of (MouseRelease _) = MOUSE_RELEASE"
| "keyword_of (MouseClick _) = MOUSE_CLICK"
| "keyword_of (BashCommand _) = BASH"
| "keyword_of (CommandExecute _) = CMD"
| "keyword_of (CommandXml _) = CMD_XML"
| "keyword_of (KeyBringAppToForeground _ _) = CMD_FG"
| "keyword_of (KeyFindImageOnScreen _ _ _) = CMD_IMG"

definition combination_text :: "u16 list \<Rightarrow> string" where
  "combination_text seq =
     foldl (\<lambda>text key. (if text \<noteq> [] then text @ ''+'' else text) @ GetKeyStringFromScanCode key) [] seq"

fun plain_text :: "IKey \<Rightarrow> string" where
  "plain_text (KeyText s) = s"
| "plain_text (KeyCombination ks) = combination_text ks"
| "plain_text (KeyDelay d) = decimal (unat d)"
| "plain_text (KeyDelayRandom a b) = decimal (unat a) @ ''-'' @ decimal (unat b)"
| "plain_text (MouseMovement x y) = int_decimal (sint x) @ '','' @ int_decimal (sint y)"
| "plain_text (MouseInterpolate x y) = int_decimal (sint x) @ '','' @ int_decimal (sint y)"
| "plain_text (MousePress k) = ButtonToString k"
| "plain_text (MouseRelease k) = ButtonToString k"
| "plain_text (MouseClick k) = ButtonToString k"
| "plain_text (BashCommand s) = s"
| "plain_text (CommandExecute s) = s"
| "plain_text (CommandXml s) = s"
| "plain_text (KeyBringAppToForeground app title) = app @ '','' @ title"
| "plain_text (KeyFindImageOnScreen path x y) =
     generic_path_text path @ '','' @ int_decimal (sint x) @ '','' @ int_decimal (sint y)"

definition GenerateText :: "TextFormat \<Rightarrow> IKey \<Rightarrow> string" where
  "GenerateText fmt action =
     (if fmt = Ini then CHR '' '' # token (keyword_of action) @ plain_text action @ '']'' else plain_text action)"


section \<open>Hotkeys\<close>

text \<open>One feature of the global hotkey chain; the chain asks them in this order.\<close>

record hotkey_handler =
  HotkeyBinding :: string
  HotkeyOwner :: string
  IsHotkeyEnabled :: bool
  HotkeyNeedsUiThread :: bool

definition OwnerOfBinding :: "hotkey_handler list \<Rightarrow> string \<Rightarrow> string" where
  "OwnerOfBinding handlers key =
     (if key = [] then []
      else case find (\<lambda>h. HotkeyBinding h = key) handlers of Some h \<Rightarrow> HotkeyOwner h | None \<Rightarrow> [])"

text \<open>
  The handler that consumes a press, and whether its action is handed to the user interface's
  thread.
\<close>

definition Dispatch :: "hotkey_handler list \<Rightarrow> bool \<Rightarrow> string \<Rightarrow> (hotkey_handler \<times> bool) option" where
  "Dispatch handlers has_marshaller key =
     (if key = [] then None
      else case find (\<lambda>h. IsHotkeyEnabled h \<and> HotkeyBinding h = key) handlers of
        None \<Rightarrow> None
      | Some matched \<Rightarrow> Some (matched, HotkeyNeedsUiThread matched \<and> has_marshaller))"

section \<open>Profiles\<close>

datatype MacroFlags = NoFlag | Alarm

text \<open>The \<open>std::map\<close> that is written back is kept in the order of its keys.\<close>

record macro_profile =
  key_vec :: "(string \<times> IKey list) list"
  bind_name :: "string \<rightharpoonup> string"
  flags :: "string \<rightharpoonup> MacroFlags"
  app_name :: string

definition empty_profile :: macro_profile where
  "empty_profile = \<lparr>key_vec = [], bind_name = Map.empty, flags = Map.empty, app_name = []\<rparr>"

text \<open>\<open>key_vec[key]\<close>, updated by \<open>f\<close>: an absent key gets an empty vector first.\<close>

fun at_key :: "string \<Rightarrow> ('v list \<Rightarrow> 'v list) \<Rightarrow> (string \<times> 'v list) list \<Rightarrow> (string \<times> 'v list) list" where
  "at_key key f [] = [(key, f [])]"
| "at_key key f ((k, v) # m) =
     (if k = key then (k, f v) # m
      else if key < k then (key, f []) # (k, v) # m
      else (k, v) # at_key key f m)"

text \<open>
  The vector of the key is looked up, and so made, before the action is created; an action
  whose constructor throws is left out.
\<close>

definition apply_keyword :: "text_lib \<Rightarrow> string \<Rightarrow> macro_keyword \<Rightarrow> string \<Rightarrow> macro_profile \<Rightarrow> macro_profile" where
  "apply_keyword lib key matched sequence c =
     (if matched = BIND_NAME then c\<lparr>bind_name := (bind_name c)(key \<mapsto> sequence)\<rparr>
      else case create lib matched sequence of
        Inl what \<Rightarrow> c\<lparr>key_vec := at_key key id (key_vec c)\<rparr>
      | Inr action \<Rightarrow> c\<lparr>key_vec := at_key key (\<lambda>v. v @ [action]) (key_vec c)\<rparr>)"

text \<open>The keywords found in the head of the line from a position on, with their places.\<close>

definition keywords_in :: "string \<Rightarrow> nat \<Rightarrow> (macro_keyword \<times> nat) list" where
  "keywords_in head from = List.map_filter (\<lambda>k. map_option (Pair k) (str_find head (token k) from)) kAll"

text \<open>
  The loop over the elements of a line: whether it ended without an error, and the profile.
  \<open>str.length() - 1\<close> is the largest \<open>size_t\<close> for an empty line.  After an element without a
  closing bracket the position is \<open>npos\<close>, which ends the loop.
\<close>

function ParseElements :: "text_lib \<Rightarrow> string \<Rightarrow> string \<Rightarrow> nat \<Rightarrow> macro_profile \<Rightarrow> bool \<times> macro_profile" where
  "ParseElements lib key str pos c =
     (if str \<noteq> [] \<and> \<not> pos < length str - 1 then (True, c)
      else
        (let first_end = str_find str '']'' (pos + 1);
             head = (case first_end of None \<Rightarrow> str | Some e \<Rightarrow> take e str)
         in case keywords_in head (pos - 1) of
              [(matched, matched_pos)] \<Rightarrow>
                let c' = apply_keyword lib key matched (drop (matched_pos + length (token matched)) head) c
                in (case first_end of
                      None \<Rightarrow> (True, c')
                    | Some e \<Rightarrow> ParseElements lib key str e c')
            | _ \<Rightarrow> (False, c)))"
  by pat_completeness auto

termination
  by (relation "measure (\<lambda>(lib, key, str, pos, c). length str - pos)")
    (auto simp: str_find_eq_Some dest!: sym [of "Some _"])

declare ParseElements.simps [simp del]

definition IsKeyReserved :: "string \<Rightarrow> hotkey_handler list option \<Rightarrow> string \<Rightarrow> bool" where
  "IsKeyReserved bring_to_foreground_key hotkeys key_code \<longleftrightarrow>
     key_code = bring_to_foreground_key \<or>
     (case hotkeys of None \<Rightarrow> False | Some handlers \<Rightarrow> OwnerOfBinding handlers key_code \<noteq> [])"

definition ParseMacroKeys :: "text_lib \<Rightarrow> (string \<Rightarrow> bool) \<Rightarrow> string \<Rightarrow> string \<Rightarrow> MacroFlags \<Rightarrow> macro_profile \<Rightarrow> macro_profile" where
  "ParseMacroKeys lib reserved key_code str flag c =
     (if reserved key_code then c
      else case ParseElements lib key_code str 1 c of
        (False, c') \<Rightarrow> c'
      | (True, c') \<Rightarrow>
          let c'' = c'\<lparr>flags := (flags c')(key_code \<mapsto> flag)\<rparr>
          in if (case bind_name c'' key_code of None \<Rightarrow> True | Some name \<Rightarrow> name = [])
             then c''\<lparr>bind_name := (bind_name c'')(key_code \<mapsto> ''Unknown macro'')\<rparr>
             else c'')"

section \<open>Loading and saving\<close>

text \<open>A section of the ini file: its keys and their values in order.\<close>

definition LoadGlobalMacros :: "text_lib \<Rightarrow> (string \<Rightarrow> bool) \<Rightarrow> (string \<times> string) list \<Rightarrow> macro_profile" where
  "LoadGlobalMacros lib reserved section =
     (foldl (\<lambda>c (key, str). ParseMacroKeys lib reserved key str NoFlag c) empty_profile section)
       \<lparr>app_name := ''Global''\<rparr>"

definition LoadAppMacros :: "text_lib \<Rightarrow> (string \<Rightarrow> bool) \<Rightarrow> (string \<times> string) list \<Rightarrow> macro_profile" where
  "LoadAppMacros lib reserved section =
     foldl (\<lambda>c (key, str). if key = ''AppName'' then c\<lparr>app_name := str\<rparr>
                          else ParseMacroKeys lib reserved key str NoFlag c) empty_profile section"

text \<open>\<open>key = BIND_NAME[name] ...\<close> for each key; reading the name makes an absent one empty.\<close>

definition macro_line :: "macro_profile \<Rightarrow> string \<Rightarrow> IKey list \<Rightarrow> string" where
  "macro_line profile key actions =
     ''BIND_NAME['' @ (case bind_name profile key of Some name \<Rightarrow> name | None \<Rightarrow> []) @ '']'' @
     concat (map (GenerateText Ini) actions)"

definition SaveGlobalMacros :: "macro_profile \<Rightarrow> (string \<times> string) list" where
  "SaveGlobalMacros profile = map (\<lambda>(key, actions). (key, macro_line profile key actions)) (key_vec profile)"

definition SaveAppMacros :: "macro_profile \<Rightarrow> (string \<times> string) list" where
  "SaveAppMacros profile =
     (''AppName'', app_name profile) #
     map (\<lambda>(key, actions). (key, macro_line profile key actions)) (key_vec profile)"


section \<open>Facts of the keywords\<close>

lemma in_kAll [simp]: "k \<in> set kAll"
  by (cases k) (simp_all add: kAll_def)

lemma token_not_Nil [simp]: "token k \<noteq> []"
  by (cases k) simp_all

lemma token_no_close [simp]: "CHR '']'' \<notin> set (token k)" "CHR '' '' \<notin> set (token k)"
  by (cases k; simp)+

text \<open>A keyword is a name of at least two letters and the opening bracket.\<close>

definition token_name :: "macro_keyword \<Rightarrow> string" where
  "token_name k = butlast (token k)"

lemma token_split: "token k = token_name k @ ''[''"
  by (cases k) (simp_all add: token_name_def)

lemma token_name_props:
  "2 \<le> length (token_name k)"
  "CHR ''['' \<notin> set (token_name k)" "CHR '']'' \<notin> set (token_name k)" "CHR '' '' \<notin> set (token_name k)"
  "CHR ''/'' \<notin> set (token_name k)"
  by (cases k; simp add: token_name_def)+

lemma length_token: "3 \<le> length (token k)"
  using token_name_props(1) [of k] by (simp add: token_split)

lemma token_name_not_suffix: "k \<noteq> k' \<Longrightarrow> \<not> suffix (token_name k) (token_name k')"
  by (cases k; cases k'; simp add: token_name_def suffix_to_prefix)

lemma keywords_in_single:
  assumes "\<And>k'. str_find head (token k') from = (if k' = k then Some p else None)"
  shows "keywords_in head from = [(k, p)]"
  by (cases k) (simp_all add: keywords_in_def kAll_def List.map_filter_simps assms)

lemma keywords_in_singleD:
  assumes "keywords_in head from = [(k, p)]"
  shows "str_find head (token k) from = Some p"
    and "k' \<noteq> k \<Longrightarrow> str_find head (token k') from = None"
proof -
  have m: "(k', q) \<in> set (keywords_in head from) \<longleftrightarrow> str_find head (token k') from = Some q" for k' q
    by (auto simp: keywords_in_def List.map_filter_def image_iff intro: bexI [of _ k'])
  show "str_find head (token k) from = Some p" using m [of k p] assms by simp
  show "str_find head (token k') from = None" if "k' \<noteq> k"
  proof (cases "str_find head (token k') from")
    case (Some q)
    then show ?thesis using m [of k' q] assms that by simp
  qed
qed

text \<open>An occurrence of a keyword ends at an opening bracket.\<close>

lemma sublist_bracket:
  assumes "c \<notin> set t" and "sublist (t @ [c]) (a @ c # b)"
  shows "suffix t a \<or> sublist (t @ [c]) a \<or> sublist (t @ [c]) b"
proof -
  from assms(2) obtain ps ss where e: "a @ c # b = ps @ t @ c # ss" by (auto simp: sublist_def)
  consider (eq) "a = ps @ t" | (left) us where "a = ps @ t @ c # us" | (right) us where "b = us @ t @ c # ss"
  proof -
    from e consider (i) w where "a = ps @ w" "w @ c # b = t @ c # ss" | (ii) w where "ps = a @ w" "c # b = w @ t @ c # ss"
      by (auto simp: append_eq_append_conv2)
    then show thesis
    proof cases
      case i
      then show thesis using that(1,2) assms(1) by (auto simp: append_eq_append_conv2 Cons_eq_append_conv append_eq_Cons_conv)
    next
      case ii
      show thesis
      proof (cases w)
        case Nil
        then have "t = []" using ii(2) assms(1) by (cases t) auto
        then show thesis using that(1) ii Nil by simp
      next
        case (Cons d w')
        then show thesis using that(3) ii(2) by simp
      qed
    qed
  qed
  then show ?thesis
  proof cases
    case left
    then show ?thesis by (metis append.assoc append_Cons append_Nil sublist_appendI)
  next
    case right
    then show ?thesis by (metis append.assoc append_Cons append_Nil sublist_appendI)
  qed (simp add: suffix_def)
qed

lemma token_sublist_no_bracket: "CHR ''['' \<notin> set s \<Longrightarrow> \<not> sublist (token k) s"
  by (auto simp: token_split sublist_def)

text \<open>The text of an element: what may stand between the brackets of a keyword.\<close>

definition text_ok :: "macro_keyword \<Rightarrow> string \<Rightarrow> bool" where
  "text_ok k s \<longleftrightarrow> CHR '']'' \<notin> set s \<and> list_all (\<lambda>k'. k' = k \<or> \<not> sublist (token k') s) kAll"

lemma text_okD: "text_ok k s \<Longrightarrow> CHR '']'' \<notin> set s" "text_ok k s \<Longrightarrow> k' \<noteq> k \<Longrightarrow> \<not> sublist (token k') s"
  by (auto simp: text_ok_def list_all_iff)

lemma text_ok_plain: "CHR ''['' \<notin> set s \<Longrightarrow> CHR '']'' \<notin> set s \<Longrightarrow> text_ok k s"
  by (simp add: text_ok_def list_all_iff token_sublist_no_bracket)


section \<open>Reading one element\<close>

text \<open>
  Where the search of an element starts: at the start of the line, or at the character before
  the closing bracket of the element before it, which a space follows.
\<close>

definition element_start :: "string \<Rightarrow> nat \<Rightarrow> bool" where
  "element_start u pos \<longleftrightarrow>
     u = [] \<and> pos = 1 \<or> (\<exists>v x. u = v @ [x, CHR '']'', CHR '' ''] \<and> pos = Suc (length v))"

lemma keywords_in_element:
  assumes "element_start u pos" and "text_ok k s"
  shows "keywords_in (u @ token k @ s) (pos - 1) = [(k, length u)]"
proof (rule keywords_in_single)
  fix k'
  from assms(1) obtain lead where
    lead: "lead = [] \<or> (\<exists>x. lead = [x, CHR '']'', CHR '' ''])" and d: "drop (pos - 1) u = lead" "pos - 1 \<le> length u"
    by (fastforce simp: element_start_def)
  show "str_find (u @ token k @ s) (token k') (pos - 1) = (if k' = k then Some (length u) else None)"
  proof (cases "k' = k")
    case True
    have "\<not> prefix (token k) (drop j (u @ token k @ s))" if j: "pos - 1 \<le> j" "j < length u" for j
    proof -
      obtain a b ts where t: "token k = a # b # ts"
        using length_token [of k] by (cases "token k"; cases "tl (token k)") auto
      have "a \<notin> {CHR '']'', CHR '' ''}" "b \<notin> {CHR '']'', CHR '' ''}"
        using token_no_close [of k] by (auto simp: t)
      moreover have "drop j (u @ token k @ s) = drop (j - (pos - 1)) lead @ token k @ s" "j - (pos - 1) < length lead"
        using j d by auto
      ultimately show ?thesis using lead
        by (auto simp: t less_Suc_eq numeral_3_eq_3)
    qed
    then show ?thesis using str_find_at [of "pos - 1" u "token k" s] d(2) True by simp
  next
    case False
    have "\<not> sublist (token k') (lead @ token_name k @ CHR ''['' # s)"
    proof
      assume "sublist (token k') (lead @ token_name k @ CHR ''['' # s)"
      then have "suffix (token_name k') (lead @ token_name k) \<or> sublist (token k') (lead @ token_name k) \<or> sublist (token k') s"
        using sublist_bracket [of "CHR ''[''" "token_name k'" "lead @ token_name k" s] token_name_props(2) [of k']
        by (simp add: token_split)
      moreover have "\<not> sublist (token k') s" using text_okD(2) [OF assms(2) False] .
      moreover have "\<not> suffix (token_name k') (lead @ token_name k)"
      proof
        assume sf: "suffix (token_name k') (lead @ token_name k)"
        then consider "suffix (token_name k') (token_name k)" | w where "token_name k' = w @ token_name k" "suffix w lead"
          by (auto simp: suffix_append)
        then show False
        proof cases
          case 1
          then show False using token_name_not_suffix [OF False] by simp
        next
          case 2
          then have "w \<noteq> []" using token_name_not_suffix [OF False] by auto
          moreover obtain zs where "lead = zs @ w" using 2(2) by (auto simp: suffix_def)
          ultimately have "last lead = last w" "lead \<noteq> []" by auto
          then have "CHR '' '' \<in> set w" using lead last_in_set [OF \<open>w \<noteq> []\<close>] by auto
          then show False using token_name_props(4) [of k'] 2(1) by simp
        qed
      qed
      moreover have "\<not> sublist (token k') (lead @ token_name k)"
      proof
        assume "sublist (token k') (lead @ token_name k)"
        then obtain ps ss where e: "lead @ token_name k = ps @ token_name k' @ CHR ''['' # ss"
          by (auto simp: sublist_def token_split)
        obtain a as where n: "token_name k' = a # as" using token_name_props(1) [of k'] by (cases "token_name k'") auto
        have "CHR ''['' \<in> set (tl (ps @ token_name k' @ CHR ''['' # ss))" by (cases ps) (auto simp: n)
        then have "CHR ''['' \<in> set (tl (lead @ token_name k))" using e by metis
        then show False using lead token_name_props(2) [of k] by (cases "token_name k") auto
      qed
      ultimately show False by blast
    qed
    then show ?thesis using False d by (simp add: str_find_eq_None token_split)
  qed
qed

lemma str_find_element:
  assumes "element_start u pos" and "CHR '']'' \<notin> set s"
  shows "str_find (u @ token k @ s @ CHR '']'' # rest) '']'' (pos + 1) = Some (length u + length (token k) + length s)"
proof -
  from assms(1) have p: "pos + 1 \<le> length u + 2" "CHR '']'' \<notin> set (drop (pos + 1) u)"
    by (auto simp: element_start_def)
  have "CHR '']'' \<notin> set (drop (pos + 1) (u @ token k @ s))"
    using p(2) assms(2) token_no_close [of k] by (auto dest: in_set_dropD)
  then show ?thesis
    using str_find_char [of "pos + 1" "u @ token k @ s" "CHR '']''" rest] p(1) length_token [of k] by simp
qed

lemma ParseElements_element:
  assumes "element_start u pos" and "text_ok k s"
  shows "ParseElements lib key (u @ token k @ s @ CHR '']'' # rest) pos c =
         ParseElements lib key (u @ token k @ s @ CHR '']'' # rest) (length u + length (token k) + length s)
           (apply_keyword lib key k s c)"
proof -
  let ?str = "u @ token k @ s @ CHR '']'' # rest"
  have "pos < length ?str - 1"
    using assms(1) length_token [of k] by (auto simp: element_start_def)
  then show ?thesis
    by (subst ParseElements.simps)
      (simp add: str_find_element [OF assms(1) text_okD(1) [OF assms(2)], simplified] keywords_in_element [OF assms, simplified])
qed

lemma ParseElements_end: "w \<noteq> [] \<Longrightarrow> ParseElements lib key w (length w - 1) c = (True, c)"
  by (subst ParseElements.simps) simp


text \<open>What an element read from any line has between its brackets.\<close>

lemma sublist_drop: "sublist t (drop n s) \<Longrightarrow> m \<le> n \<Longrightarrow> sublist t (drop m s)"
proof -
  assume t: "sublist t (drop n s)" and le: "m \<le> n"
  have "drop m s = take (n - m) (drop m s) @ drop n s"
    using append_take_drop_id [of "n - m" "drop m s"] le by simp
  then show "sublist t (drop m s)" using t by (metis sublist_append)
qed

lemma found_text_ok:
  assumes "head = (case str_find str '']'' (pos + 1) of None \<Rightarrow> str | Some e \<Rightarrow> take e str)"
    and "keywords_in head (pos - 1) = [(k, p)]"
  shows "text_ok k (drop (p + length (token k)) head)"
proof -
  have p: "pos - 1 \<le> p" using keywords_in_singleD(1) [OF assms(2)] by (simp add: str_find_eq_Some)
  have from_p: "pos + 1 \<le> p + length (token k)" using p length_token [of k] by simp
  have c: "CHR '']'' \<notin> set (drop (pos + 1) head)"
  proof (cases "str_find str '']'' (pos + 1)")
    case None
    then have "\<not> sublist '']'' (drop (pos + 1) str)" by (subst (asm) str_find_eq_None) simp_all
    then have "CHR '']'' \<notin> set (drop (pos + 1) str)" by (metis append_Cons append_Nil split_list sublist_appendI)
    then show ?thesis using None assms(1) by simp
  next
    case (Some e)
    then have e: "\<And>j. pos + 1 \<le> j \<Longrightarrow> j < e \<Longrightarrow> \<not> prefix '']'' (drop j str)" "e < length str"
      by (auto simp: str_find_eq_Some)
    have "str ! j \<noteq> CHR '']''" if "pos + 1 \<le> j" "j < e" for j
      using e(1) [OF that] that e(2) by (auto simp: Cons_nth_drop_Suc [symmetric])
    then show ?thesis using Some assms(1) e(2) by (auto simp: in_set_conv_nth)
  qed
  have "\<not> sublist (token k') (drop (p + length (token k)) head)" if "k' \<noteq> k" for k'
  proof -
    have "\<not> sublist (token k') (drop (pos - 1) head)"
      using keywords_in_singleD(2) [OF assms(2) that] by (simp add: str_find_eq_None)
    then show ?thesis using sublist_drop [of "token k'"] p by (meson le_add1 order.trans)
  qed
  moreover have "CHR '']'' \<notin> set (drop (p + length (token k)) head)"
    using c from_p by (meson set_drop_subset_set_drop subsetD)
  ultimately show ?thesis by (auto simp: text_ok_def list_all_iff)
qed

section \<open>Writing and reading one action\<close>

text \<open>What the code's own constructors give, besides clean text.\<close>

fun canonical :: "IKey \<Rightarrow> bool" where
  "canonical (KeyCombination ks) \<longleftrightarrow> list_all (\<lambda>k. k = 0xFFFF \<or> k \<in> snd ` set scan_codes) ks"
| "canonical (MousePress k) \<longleftrightarrow> k \<in> {0x02, 0x08, 0x20}"
| "canonical (MouseRelease k) \<longleftrightarrow> k \<in> {0x02, 0x08, 0x20}"
| "canonical (MouseClick k) \<longleftrightarrow> k \<in> {0x02, 0x08, 0x20}"
| "canonical (KeyBringAppToForeground app title) \<longleftrightarrow> CHR '','' \<notin> set app \<and> CHR '','' \<notin> set title"
| "canonical (KeyFindImageOnScreen path x y) \<longleftrightarrow> CHR '','' \<notin> set path"
| "canonical _ \<longleftrightarrow> True"

text \<open>An image path comes back with forward slashes.\<close>

fun generic :: "IKey \<Rightarrow> IKey" where
  "generic (KeyFindImageOnScreen path x y) = KeyFindImageOnScreen (generic_path_text path) x y"
| "generic a = a"

definition action_ok :: "IKey \<Rightarrow> bool" where
  "action_ok a \<longleftrightarrow> canonical a \<and> text_ok (keyword_of a) (plain_text a)"

lemma keyword_of_not_BIND_NAME [simp]: "keyword_of a \<noteq> BIND_NAME"
  by (cases a) simp_all

subsection \<open>Text functions\<close>

lemma joined_snoc: "ps \<noteq> [] \<Longrightarrow> joined c (ps @ [q]) = joined c ps @ c # q"
  by (induction ps rule: joined.induct) auto

lemma joined_Cons: "ps \<noteq> [] \<Longrightarrow> joined c (p # ps) = p @ c # joined c ps"
  by (cases ps) auto

lemma joined_part_unique:
  assumes "c \<notin> set p" "c \<notin> set q" "p @ c # xs = q @ c # ys"
  shows "p = q \<and> xs = ys"
  using assms by (auto simp: append_eq_append_conv2 Cons_eq_append_conv append_eq_Cons_conv)

lemma joined_free: "c \<notin> set (joined c ps) \<Longrightarrow> ps \<noteq> [] \<Longrightarrow> ps = [joined c ps]"
  by (cases "(c, ps)" rule: joined.cases) auto

lemma joined_inj:
  assumes "ps \<noteq> []" "qs \<noteq> []" "\<forall>p \<in> set ps. c \<notin> set p" "\<forall>q \<in> set qs. c \<notin> set q" "joined c ps = joined c qs"
  shows "ps = qs"
  using assms
proof (induction c ps arbitrary: qs rule: joined.induct)
  case (2 c p)
  then show ?case using joined_free [of c qs] by (auto simp flip: 2(5))
next
  case (3 c p p' ps)
  obtain q qs' where qs: "qs = q # qs'" using 3(3) by (cases qs) auto
  have "qs' \<noteq> []" using 3(5,6) by (cases qs') (auto simp: qs dest!: arg_cong [of _ _ set])
  then have "p = q \<and> joined c (p' # ps) = joined c qs'"
    using 3 by (intro joined_part_unique) (auto simp: qs joined_Cons)
  then show ?case using 3 \<open>qs' \<noteq> []\<close> by (auto simp: qs)
qed simp

lemma tl_split_joined:
  assumes "documented_text_lib lib" "ps \<noteq> []" "\<forall>p \<in> set ps. c \<notin> set p"
  shows "tl_split lib c (joined c ps) = ps"
  using assms by (intro joined_inj [of _ _ c]) (auto simp: documented_text_lib_def)

lemma tl_split_parts:
  assumes "documented_text_lib lib" "tl_split lib c s = ps"
  shows "joined c ps = s" "\<And>p. p \<in> set ps \<Longrightarrow> c \<notin> set p" "ps \<noteq> []"
  using assms by (auto simp: documented_text_lib_def)

lemma tl_erase_all_id: "documented_text_lib lib \<Longrightarrow> c \<notin> set s \<Longrightarrow> tl_erase_all lib s c = s"
  by (auto simp: documented_text_lib_def filter_id_conv)

lemma tl_tokens_joined:
  assumes "documented_text_lib lib" "\<forall>p \<in> set ps. c \<notin> set p \<and> p \<noteq> []"
  shows "tl_tokens lib c (joined c ps) = ps"
proof (cases "ps = []")
  case True
  have "tl_split lib c [] = [[]]"
    using tl_split_joined [OF assms(1), of "[[]]" c] by simp
  then show ?thesis using True assms(1) by (simp add: documented_text_lib_def)
next
  case False
  then show ?thesis using tl_split_joined [OF assms(1) False] assms by (simp add: documented_text_lib_def)
qed


subsection \<open>Key combinations\<close>

definition clean_name :: "string \<Rightarrow> bool" where
  "clean_name n \<longleftrightarrow> n \<noteq> [] \<and> list_all (\<lambda>c. c \<noteq> CHR ''+'' \<and> c \<noteq> CHR '' '' \<and> c \<noteq> CHR ''['' \<and> c \<noteq> CHR '']'') n"

lemma scan_codes_two_way:
  "list_all (\<lambda>p. GetKeyScanCode (fst p) = snd p \<and> GetKeyStringFromScanCode (snd p) = fst p \<and> clean_name (fst p)) scan_codes"
  by code_simp

lemma scan_code_name:
  assumes "k = 0xFFFF \<or> k \<in> snd ` set scan_codes"
  shows "GetKeyScanCode (GetKeyStringFromScanCode k) = k" and "clean_name (GetKeyStringFromScanCode k)"
proof -
  have inv: "GetKeyScanCode (GetKeyStringFromScanCode 0xFFFF) = 0xFFFF" "clean_name (GetKeyStringFromScanCode 0xFFFF)"
    by code_simp+
  show "GetKeyScanCode (GetKeyStringFromScanCode k) = k" "clean_name (GetKeyStringFromScanCode k)"
    using assms inv scan_codes_two_way by (auto simp: list_all_iff)
qed

lemma GetKeyScanCode_range: "GetKeyScanCode n = 0xFFFF \<or> GetKeyScanCode n \<in> snd ` set scan_codes"
  by (force simp: GetKeyScanCode_def split: option.splits dest: map_of_SomeD)

lemma clean_nameD: "clean_name n \<Longrightarrow> n \<noteq> [] \<and> CHR ''+'' \<notin> set n \<and> CHR '' '' \<notin> set n \<and> CHR ''['' \<notin> set n \<and> CHR '']'' \<notin> set n"
  by (auto simp: clean_name_def list_all_iff)

lemma combination_text_joined:
  assumes "list_all (\<lambda>k. clean_name (GetKeyStringFromScanCode k)) ks"
  shows "combination_text ks = joined (CHR ''+'') (map GetKeyStringFromScanCode ks)"
  using assms
proof (induction ks rule: rev_induct)
  case (snoc k ks)
  then have IH: "combination_text ks = joined (CHR ''+'') (map GetKeyStringFromScanCode ks)" by simp
  show ?case
  proof (cases ks)
    case (Cons k' ks')
    then have "joined (CHR ''+'') (map GetKeyStringFromScanCode ks) \<noteq> []"
      using snoc.prems by (cases ks') (auto dest: clean_nameD)
    moreover have "map GetKeyStringFromScanCode ks \<noteq> []" using Cons by simp
    ultimately show ?thesis using IH unfolding map_append list.map joined_snoc [OF \<open>map GetKeyStringFromScanCode ks \<noteq> []\<close>]
      by (simp add: combination_text_def)
  qed (simp add: combination_text_def)
qed (simp add: combination_text_def)

lemma set_joined: "set (joined c ps) \<subseteq> insert c (\<Union> (set ` set ps))"
  by (induction c ps rule: joined.induct) auto

lemma canonical_names:
  assumes "canonical (KeyCombination ks)"
  shows "list_all (\<lambda>k. clean_name (GetKeyStringFromScanCode k)) ks"
  using assms scan_code_name(2) by (auto simp: list_all_iff)

lemma combination_chars:
  assumes "canonical (KeyCombination ks)" "c \<in> set (combination_text ks)"
  shows "c \<noteq> CHR '' '' \<and> c \<noteq> CHR ''['' \<and> c \<noteq> CHR '']''"
proof -
  have "c = CHR ''+'' \<or> (\<exists>k \<in> set ks. c \<in> set (GetKeyStringFromScanCode k))"
    using assms(2) set_joined [of "CHR ''+''" "map GetKeyStringFromScanCode ks"]
    by (auto simp: combination_text_joined [OF canonical_names [OF assms(1)]])
  then show ?thesis using canonical_names [OF assms(1)] by (auto simp: list_all_iff dest: clean_nameD)
qed

lemma create_combination:
  assumes "documented_text_lib lib" "canonical (KeyCombination ks)"
  shows "key_combination lib (combination_text ks) = KeyCombination ks"
proof -
  note names = canonical_names [OF assms(2)]
  have "tl_erase_all lib (combination_text ks) (CHR '' '') = combination_text ks"
    using combination_chars [OF assms(2)] by (intro tl_erase_all_id [OF assms(1)]) blast
  moreover have "tl_tokens lib (CHR ''+'') (combination_text ks) = map GetKeyStringFromScanCode ks"
    using names unfolding combination_text_joined [OF names]
    by (intro tl_tokens_joined [OF assms(1)]) (auto simp: list_all_iff dest: clean_nameD)
  ultimately show ?thesis
    using assms(2) scan_code_name(1) by (auto simp: key_combination_def list_all_iff intro!: map_idI)
qed

subsection \<open>Numbers\<close>

lemma stoi_u32_decimal [simp]: "stoi_u32 (decimal (unat d)) = Inr d"
proof -
  have "decimal (unat d) = int_decimal (uint d)" by (simp add: int_decimal_def)
  moreover have "uint d \<le> 2 ^ 32 - 1" using uint_bounded [of d] by simp
  ultimately show ?thesis by (simp add: stoi_u32_def)
qed

lemma sint_range32: "- (2 ^ 31) \<le> sint (x :: u32)" "sint (x :: u32) \<le> 2 ^ 31 - 1"
  using sint_ge [of x] sint_lt [of x] by simp_all

lemma stoi_s32_decimal [simp]: "stoi_s32 (int_decimal (sint x)) = Inr x"
  using sint_range32 [of x] by (simp add: stoi_s32_def)

lemma decimal_chars: "c \<in> set (decimal n) \<Longrightarrow> c \<notin> {CHR '' '', CHR '','', CHR ''-'', CHR ''['', CHR '']''}"
  using decimal_digits [of n] by fastforce

lemma int_decimal_chars': "c \<in> set (int_decimal n) \<Longrightarrow> c \<notin> {CHR '' '', CHR '','', CHR ''['', CHR '']''}"
  using int_decimal_chars [of c n] by auto

lemma str_find_sep: "c \<notin> set u \<Longrightarrow> str_find (u @ c # v) [c] 0 = Some (length u)"
  by (rule str_find_char) simp_all

lemma position_text:
  assumes "documented_text_lib lib"
  shows "mouse_position lib mk (int_decimal (sint x) @ '','' @ int_decimal (sint y)) = Inr (mk x y)"
proof -
  let ?s = "int_decimal (sint x) @ '','' @ int_decimal (sint y)"
  have "tl_erase_all lib ?s (CHR '' '') = ?s"
    using int_decimal_chars' by (intro tl_erase_all_id [OF assms]) fastforce
  moreover have "str_find ?s '','' 0 = Some (length (int_decimal (sint x)))"
    using int_decimal_chars' str_find_sep [of "CHR '',''" "int_decimal (sint x)" "int_decimal (sint y)"] by fastforce
  ultimately show ?thesis by (simp add: mouse_position_def both_def)
qed

lemma delay_text:
  assumes "documented_text_lib lib"
  shows "key_delay lib (decimal (unat d)) = Inr (KeyDelay d)"
    and "key_delay lib (decimal (unat a) @ ''-'' @ decimal (unat b)) = Inr (KeyDelayRandom a b)"
proof -
  have "tl_erase_all lib (decimal (unat d)) (CHR '' '') = decimal (unat d)"
    using decimal_chars by (intro tl_erase_all_id [OF assms]) fastforce
  moreover have "str_find (decimal (unat d)) ''-'' 0 = None"
  proof -
    have "CHR ''-'' \<notin> set (decimal (unat d))" using decimal_chars by fastforce
    then show ?thesis by (subst str_find_eq_None) (auto simp: sublist_def)
  qed
  ultimately show "key_delay lib (decimal (unat d)) = Inr (KeyDelay d)" by (simp add: key_delay_def)
  let ?s = "decimal (unat a) @ ''-'' @ decimal (unat b)"
  have "tl_erase_all lib ?s (CHR '' '') = ?s"
    using decimal_chars by (intro tl_erase_all_id [OF assms]) fastforce
  moreover have "str_find ?s ''-'' 0 = Some (length (decimal (unat a)))"
    using decimal_chars str_find_sep [of "CHR ''-''" "decimal (unat a)" "decimal (unat b)"] by fastforce
  ultimately show "key_delay lib ?s = Inr (KeyDelayRandom a b)" by (simp add: key_delay_def both_def)
qed

subsection \<open>Applications and images\<close>

lemma generic_path_text_mem: "c \<in> set (generic_path_text p) \<Longrightarrow> c \<in> set p \<or> c = CHR ''/''"
  by (auto simp: generic_path_text_def)

lemma bring_app_text:
  assumes "documented_text_lib lib" "canonical (KeyBringAppToForeground app title)"
  shows "bring_app lib (app @ '','' @ title) = KeyBringAppToForeground app title"
  using tl_split_joined [OF assms(1), of "[app, title]" "CHR '',''"] assms(2) by (simp add: bring_app_def)

lemma find_image_text:
  assumes "documented_text_lib lib" "canonical (KeyFindImageOnScreen path x y)"
  shows "find_image lib (generic_path_text path @ '','' @ int_decimal (sint x) @ '','' @ int_decimal (sint y)) =
         KeyFindImageOnScreen (generic_path_text path) x y"
proof -
  have "CHR '','' \<notin> set (generic_path_text path)" using assms(2) by (auto dest: generic_path_text_mem)
  moreover have "CHR '','' \<notin> set (int_decimal n)" for n using int_decimal_chars' by fastforce
  ultimately have "tl_split lib (CHR '','') (generic_path_text path @ '','' @ int_decimal (sint x) @ '','' @ int_decimal (sint y)) =
      [generic_path_text path, int_decimal (sint x), int_decimal (sint y)]"
    using tl_split_joined [OF assms(1), of "[generic_path_text path, int_decimal (sint x), int_decimal (sint y)]" "CHR '',''"]
    by simp
  then show ?thesis
    using sint_range32 [of x] sint_range32 [of y]
    by (simp add: find_image_def TryParse_int_decimal)
qed

text \<open>Every action the code makes is read back from what it writes.\<close>

lemma create_plain_text:
  assumes "documented_text_lib lib" "canonical a"
  shows "create lib (keyword_of a) (plain_text a) = Inr (generic a)"
  using assms position_text [OF assms(1)] delay_text [OF assms(1)]
  by (cases a) (auto simp: create_combination bring_app_text [simplified] find_image_text [simplified] mouse_button_def ButtonToString_def)


subsection \<open>What is read can be written\<close>

lemma sublist_map_generic: "sublist (token k) (generic_path_text p) \<Longrightarrow> sublist (token k) p"
proof -
  assume "sublist (token k) (generic_path_text p)"
  then obtain us vs where e: "map (\<lambda>c. if c = CHR 0x5C then CHR ''/'' else c) p = us @ token k @ vs"
    by (auto simp: sublist_def generic_path_text_def)
  then obtain us' q where q: "p = us' @ q" "token k @ vs = map (\<lambda>c. if c = CHR 0x5C then CHR ''/'' else c) q"
    by (auto simp: map_eq_append_conv)
  from q(2) [symmetric] obtain w vs' where "q = w @ vs'" and w: "map (\<lambda>c. if c = CHR 0x5C then CHR ''/'' else c) w = token k"
    by (auto simp: map_eq_append_conv)
  then have p: "p = us' @ w @ vs'" using q(1) by simp
  have "CHR ''/'' \<notin> set (token k)" using token_name_props(5) [of k] by (simp add: token_split)
  then have "CHR 0x5C \<notin> set w" unfolding w [symmetric] by auto
  then have "map (\<lambda>c. if c = CHR 0x5C then CHR ''/'' else c) w = w" by (intro map_idI) auto
  then have "w = token k" using w by simp
  then show ?thesis by (auto simp: p)
qed

lemma text_ok_sublist: "text_ok k s \<Longrightarrow> sublist t s \<Longrightarrow> text_ok k t"
  by (auto simp: text_ok_def list_all_iff dest: set_mono_sublist sublist_order.order.trans)

lemma text_ok_append:
  assumes "text_ok k s" "CHR ''['' \<notin> set t" "CHR '']'' \<notin> set t"
  shows "text_ok k (s @ t)"
proof -
  have "\<not> sublist (token k') (s @ t)" if "k' \<noteq> k" for k'
  proof
    assume "sublist (token k') (s @ t)"
    then consider "sublist (token k') s" | "sublist (token k') t"
      | xs ys where "token k' = xs @ ys" "suffix xs s" "prefix ys t"
      by (auto simp: sublist_append)
    then show False
    proof cases
      case 3
      show False
      proof (cases "ys = []")
        case True
        then show False using 3 text_okD(2) [OF assms(1) that] by (auto dest: suffix_imp_sublist)
      next
        case False
        then have "last (token k') \<in> set t"
          using 3 by (metis in_mono last_appendR last_in_set set_mono_prefix)
        then show False using assms(2) by (simp add: token_split)
      qed
    qed (use text_okD(2) [OF assms(1) that] token_sublist_no_bracket assms(2) in auto)
  qed
  then show ?thesis using text_okD(1) [OF assms(1)] assms(3) by (auto simp: text_ok_def list_all_iff)
qed

lemma number_chars [simp]:
  "CHR ''['' \<notin> set (decimal n)" "CHR '']'' \<notin> set (decimal n)"
  "CHR ''['' \<notin> set (int_decimal i)" "CHR '']'' \<notin> set (int_decimal i)"
  using decimal_chars [of _ n] int_decimal_chars' [of _ i] by auto

lemma text_ok_ButtonToString: "text_ok k (ButtonToString b)"
  by (rule text_ok_plain) (simp_all add: ButtonToString_def)

lemma mouse_button_ok:
  assumes "mouse_button mk s = Inr a"
  shows "\<exists>b. a = mk b \<and> b \<in> {0x02, 0x08, 0x20}"
proof -
  have "mouse_button mk s \<in> {Inr (mk 0x02), Inr (mk 0x08), Inr (mk 0x20), Inl (''Invalid mouse button input: '' @ s)}"
    unfolding mouse_button_def by simp
  then have "a = mk 0x02 \<or> a = mk 0x08 \<or> a = mk 0x20" using assms by simp
  then show ?thesis by blast
qed

lemma key_delay_ok:
  "key_delay lib s = Inr a \<Longrightarrow> (\<exists>d. a = KeyDelay d) \<or> (\<exists>d e. a = KeyDelayRandom d e)"
  by (auto simp: key_delay_def both_def Let_def map_sum_def split: option.splits if_splits sum.splits)

lemma mouse_position_ok:
  "mouse_position lib mk s = Inr a \<Longrightarrow> \<exists>x y. a = mk x y"
  by (auto simp: mouse_position_def both_def Let_def split: option.splits if_splits sum.splits)

lemma bring_app_ok:
  assumes "documented_text_lib lib" "text_ok CMD_FG s"
  shows "action_ok (bring_app lib s)"
proof (cases "\<exists>app title. tl_split lib (CHR '','') s = [app, title]")
  case True
  then obtain app title where sp: "tl_split lib (CHR '','') s = [app, title]" by blast
  then show ?thesis using tl_split_parts [OF assms(1) sp] assms(2) by (auto simp: action_ok_def bring_app_def)
next
  case False
  then have "bring_app lib s = KeyBringAppToForeground [] []"
    by (auto simp: bring_app_def split: list.splits)
  then show ?thesis by (simp add: action_ok_def text_ok_plain)
qed

lemma image_ok:
  assumes "CHR '','' \<notin> set path" "text_ok CMD_IMG path"
  shows "action_ok (KeyFindImageOnScreen path x y)"
proof -
  have "text_ok CMD_IMG (generic_path_text path)"
    using text_okD [OF assms(2)] by (auto simp: text_ok_def list_all_iff dest: generic_path_text_mem sublist_map_generic)
  moreover have "CHR ''['' \<notin> set ('','' @ int_decimal (sint x) @ '','' @ int_decimal (sint y))"
      "CHR '']'' \<notin> set ('','' @ int_decimal (sint x) @ '','' @ int_decimal (sint y))"
    using int_decimal_chars' by fastforce+
  ultimately have "text_ok CMD_IMG (generic_path_text path @ '','' @ int_decimal (sint x) @ '','' @ int_decimal (sint y))"
    by (rule text_ok_append)
  then show ?thesis using assms(1) by (simp add: action_ok_def)
qed

lemma find_image_ok:
  assumes "documented_text_lib lib" "text_ok CMD_IMG s"
  shows "action_ok (find_image lib s)"
proof (cases "\<exists>path px py. tl_split lib (CHR '','') s = [path, px, py]")
  case True
  then obtain path px py where sp: "tl_split lib (CHR '','') s = [path, px, py]" by blast
  note parts = tl_split_parts [OF assms(1) sp]
  have "text_ok CMD_IMG path" using parts(1) by (intro text_ok_sublist [OF assms(2)]) auto
  then have "action_ok (KeyFindImageOnScreen path x y)" for x y using parts(2) by (intro image_ok) auto
  then show ?thesis by (auto simp: find_image_def sp split: option.splits)
next
  case False
  then have "find_image lib s = KeyFindImageOnScreen [] 0 0"
    by (auto simp: find_image_def split: list.splits)
  then show ?thesis using image_ok [of "[]" 0 0] by (simp add: text_ok_plain)
qed

lemma create_ok:
  assumes "documented_text_lib lib" "text_ok k s" "create lib k s = Inr a"
  shows "keyword_of a = k \<and> action_ok a"
proof -
  have combi: "action_ok (KeyCombination (map GetKeyScanCode ts))" for ts
  proof -
    have c: "canonical (KeyCombination (map GetKeyScanCode ts))"
      using GetKeyScanCode_range by (simp add: list_all_iff)
    have "CHR ''['' \<notin> set (combination_text (map GetKeyScanCode ts))"
         "CHR '']'' \<notin> set (combination_text (map GetKeyScanCode ts))"
      using combination_chars [OF c] by blast+
    with c show ?thesis by (simp add: action_ok_def text_ok_plain)
  qed
  show ?thesis
    using assms(2,3) combi bring_app_ok [OF assms(1), of s] find_image_ok [OF assms(1), of s]
    by (cases k)
      (auto simp: key_combination_def action_ok_def bring_app_def find_image_def
        text_ok_ButtonToString text_ok_plain
        dest!: mouse_button_ok mouse_position_ok key_delay_ok split: list.splits option.splits)
qed

end
