(* ===== verification/MacroProfiles.thy ===== *)
theory MacroProfiles
  imports MacroKeys
begin

text \<open>
  Loading and saving whole sections of macros: what \<open>ParseMacroKeys\<close> leaves in a profile
  is of a form \<open>MacroSettings::SaveSettings\<close> can write and the loader reads back.
\<close>

section \<open>The map of a profile\<close>

lemma at_key_compose: "at_key key f (at_key key g m) = at_key key (f \<circ> g) m"
  by (induction key g m rule: at_key.induct) auto

lemma set_at_key_keys: "fst ` set (at_key key f m) = insert key (fst ` set m)"
  by (induction key f m rule: at_key.induct) auto

lemma sorted_at_key:
  "sorted_wrt (<) (map fst m) \<Longrightarrow> sorted_wrt (<) (map fst (at_key key f m))"
proof (induction key f m rule: at_key.induct)
  case (2 key f k v m)
  have "k < k'" if "k' \<in> fst ` set (at_key key f m)" "\<not> key < k" "k \<noteq> key" for k'
    using that 2(2) by (auto simp: set_at_key_keys)
  with 2 show ?case by (auto simp: image_iff)
qed simp

lemma at_key_elems:
  "(k, v) \<in> set (at_key key f m) \<Longrightarrow> (k, v) \<in> set m \<or> k = key \<and> (v = f [] \<or> (\<exists>w. (key, w) \<in> set m \<and> v = f w))"
  by (induction key f m rule: at_key.induct) (auto split: if_splits)

lemma at_key_last:
  "(\<And>k. k \<in> fst ` set m \<Longrightarrow> k < key) \<Longrightarrow> at_key key f m = m @ [(key, f [])]"
  by (induction key f m rule: at_key.induct) force+

section \<open>What loading keeps\<close>

text \<open>
  The keys of the map are in order and none of them is reserved, its actions and names can
  be written.
\<close>

definition profile_ok :: "(string \<Rightarrow> bool) \<Rightarrow> macro_profile \<Rightarrow> bool" where
  "profile_ok reserved c \<longleftrightarrow>
     sorted_wrt (<) (map fst (key_vec c)) \<and>
     (\<forall>(k, v) \<in> set (key_vec c). \<not> reserved k \<and> list_all action_ok v) \<and>
     (\<forall>k n. bind_name c k = Some n \<longrightarrow> text_ok BIND_NAME n)"

lemma profile_okI:
  assumes "sorted_wrt (<) (map fst (key_vec c))"
    and "\<And>k v. (k, v) \<in> set (key_vec c) \<Longrightarrow> \<not> reserved k \<and> list_all action_ok v"
    and "\<And>k n. bind_name c k = Some n \<Longrightarrow> text_ok BIND_NAME n"
  shows "profile_ok reserved c"
  using assms by (auto simp: profile_ok_def)

lemma profile_okD:
  assumes "profile_ok reserved c"
  shows "sorted_wrt (<) (map fst (key_vec c))"
    and "(k, v) \<in> set (key_vec c) \<Longrightarrow> \<not> reserved k \<and> list_all action_ok v"
    and "bind_name c k = Some n \<Longrightarrow> text_ok BIND_NAME n"
  using assms by (auto simp: profile_ok_def)

lemma apply_keyword_ok:
  assumes "documented_text_lib lib" "profile_ok reserved c" "\<not> reserved key" "text_ok k s"
  shows "profile_ok reserved (apply_keyword lib key k s c)"
proof (cases "k = BIND_NAME")
  case True
  then show ?thesis using assms profile_okD [OF assms(2)]
    by (intro profile_okI) (auto simp: apply_keyword_def split: if_splits)
next
  case False
  have extend: "profile_ok reserved (c\<lparr>key_vec := at_key key f (key_vec c)\<rparr>)"
    if "\<And>v. list_all action_ok v \<Longrightarrow> list_all action_ok (f v)" for f
    using that [of "[]"] that profile_okD [OF assms(2)] assms(3)
    by (intro profile_okI) (auto simp: sorted_at_key dest!: at_key_elems)
  show ?thesis
  proof (cases "create lib k s")
    case (Inl e)
    then show ?thesis using extend [of id] False by (simp add: apply_keyword_def)
  next
    case (Inr a)
    then show ?thesis using extend [of "\<lambda>v. v @ [a]"] create_ok [OF assms(1,4) Inr] False
      by (simp add: apply_keyword_def)
  qed
qed

text \<open>What every element keeps, the loop keeps.\<close>

lemma ParseElements_invariant:
  assumes step: "\<And>k s c. text_ok k s \<Longrightarrow> P c \<Longrightarrow> P (apply_keyword lib key k s c)"
  shows "P c \<Longrightarrow> P (snd (ParseElements lib key str pos c))"
proof (induction "length str - pos" arbitrary: pos c rule: less_induct)
  case less
  define first_end where "first_end = str_find str '']'' (pos + 1)"
  define head where "head = (case first_end of None \<Rightarrow> str | Some e \<Rightarrow> take e str)"
  have unf: "ParseElements lib key str pos c =
     (if str \<noteq> [] \<and> \<not> pos < length str - 1 then (True, c)
      else case keywords_in head (pos - 1) of
              [(matched, matched_pos)] \<Rightarrow>
                (case first_end of
                      None \<Rightarrow> (True, apply_keyword lib key matched (drop (matched_pos + length (token matched)) head) c)
                    | Some e \<Rightarrow> ParseElements lib key str e
                        (apply_keyword lib key matched (drop (matched_pos + length (token matched)) head) c))
            | _ \<Rightarrow> (False, c))"
    by (subst ParseElements.simps) (simp only: Let_def first_end_def head_def)
  have ok: "P (apply_keyword lib key k (drop (p + length (token k)) head) c)"
    if "keywords_in head (pos - 1) = [(k, p)]" for k p
    using step [OF found_text_ok [OF _ that] less.prems] by (simp add: head_def first_end_def)
  have later: "length str - e < length str - pos" if "first_end = Some e" for e
    using that by (auto simp: first_end_def str_find_eq_Some)
  show ?case unfolding unf using ok less.prems less.hyps [OF later]
    by (auto split: list.splits prod.splits option.splits)
qed

lemma ParseMacroKeys_ok:
  assumes "documented_text_lib lib" "profile_ok reserved c"
  shows "profile_ok reserved (ParseMacroKeys lib reserved key str flag c)"
proof (cases "reserved key")
  case False
  have "profile_ok reserved (snd (ParseElements lib key str 1 c))"
    by (rule ParseElements_invariant) (use assms False apply_keyword_ok in auto)
  moreover have "text_ok BIND_NAME ''Unknown macro''" by (rule text_ok_plain) simp_all
  ultimately show ?thesis using False
    by (auto simp: ParseMacroKeys_def profile_ok_def Let_def split: prod.splits bool.splits option.splits)
qed (simp add: ParseMacroKeys_def assms(2))

lemma empty_profile_ok [simp]: "profile_ok reserved empty_profile"
  by (simp add: profile_ok_def empty_profile_def)

lemma profile_ok_app_name [simp]: "profile_ok reserved (c\<lparr>app_name := n\<rparr>) = profile_ok reserved c"
  by (simp add: profile_ok_def)

lemma LoadGlobalMacros_ok:
  assumes "documented_text_lib lib"
  shows "profile_ok reserved (LoadGlobalMacros lib reserved section)"
proof -
  have "profile_ok reserved (foldl (\<lambda>c (key, str). ParseMacroKeys lib reserved key str NoFlag c) c section)"
    if "profile_ok reserved c" for c
    using that by (induction "section" arbitrary: c) (auto simp: ParseMacroKeys_ok [OF assms])
  then show ?thesis by (simp add: LoadGlobalMacros_def)
qed

lemma LoadAppMacros_ok:
  assumes "documented_text_lib lib"
  shows "profile_ok reserved (LoadAppMacros lib reserved section)"
proof -
  have "profile_ok reserved (foldl (\<lambda>c (key, str). if key = ''AppName'' then c\<lparr>app_name := str\<rparr>
      else ParseMacroKeys lib reserved key str NoFlag c) c section)" if "profile_ok reserved c" for c
    using that by (induction "section" arbitrary: c) (auto simp: ParseMacroKeys_ok [OF assms])
  then show ?thesis by (simp add: LoadAppMacros_def)
qed

section \<open>Reading back what was written\<close>

lemma plain_text_generic [simp]: "plain_text (generic a) = plain_text a"
  by (cases a) (auto simp: generic_path_text_def)

lemma GenerateText_Ini: "GenerateText Ini a = CHR '' '' # token (keyword_of a) @ plain_text a @ '']''"
  by (simp add: GenerateText_def)

lemma apply_action:
  assumes "documented_text_lib lib" "action_ok a"
  shows "apply_keyword lib key (keyword_of a) (plain_text a) c =
         c\<lparr>key_vec := at_key key (\<lambda>v. v @ [generic a]) (key_vec c)\<rparr>"
  using create_plain_text [OF assms(1)] assms(2) by (simp add: apply_keyword_def action_ok_def)

text \<open>All the actions of a key, appended one by one.\<close>

definition add_actions :: "string \<Rightarrow> IKey list \<Rightarrow> macro_profile \<Rightarrow> macro_profile" where
  "add_actions key as c = foldl (\<lambda>c a. c\<lparr>key_vec := at_key key (\<lambda>v. v @ [generic a]) (key_vec c)\<rparr>) c as"

lemma ParseElements_actions:
  assumes "documented_text_lib lib" "list_all action_ok as" "w = v @ [x, CHR '']'']"
  shows "ParseElements lib key (w @ concat (map (GenerateText Ini) as)) (length w - 1) c = (True, add_actions key as c)"
  using assms(2,3)
proof (induction as arbitrary: w v x c)
  case Nil
  then have "w \<noteq> []" by simp
  from ParseElements_end [OF this] show ?case by (simp add: add_actions_def)
next
  case (Cons a as)
  let ?rest = "concat (map (GenerateText Ini) as)"
  let ?w = "w @ CHR '' '' # token (keyword_of a) @ plain_text a @ '']''"
  have start: "element_start (w @ '' '') (length w - 1)" using Cons.prems by (simp add: element_start_def)
  have ok: "text_ok (keyword_of a) (plain_text a)" "action_ok a" using Cons.prems(1) by (simp_all add: action_ok_def)
  have str: "w @ concat (map (GenerateText Ini) (a # as)) = ?w @ ?rest" by (simp add: GenerateText_Ini)
  have "ParseElements lib key (?w @ ?rest) (length w - 1) c =
        ParseElements lib key (?w @ ?rest) (length ?w - 1)
          (c\<lparr>key_vec := at_key key (\<lambda>v. v @ [generic a]) (key_vec c)\<rparr>)"
    using ParseElements_element [OF start ok(1), of lib key ?rest c] by (simp add: apply_action [OF assms(1) ok(2)] add.assoc)
  moreover have "\<exists>v x. ?w = v @ [x, CHR '']'']"
    by (cases "plain_text a" rule: rev_cases) (auto simp: token_split)
  ultimately show ?case unfolding str using Cons.IH [of ?w] Cons.prems(1) by (auto simp: add_actions_def)
qed

lemma ParseElements_line:
  assumes "documented_text_lib lib" "list_all action_ok as" "text_ok BIND_NAME n"
  shows "ParseElements lib key (''BIND_NAME['' @ n @ '']'' @ concat (map (GenerateText Ini) as)) 1 c =
         (True, add_actions key as (c\<lparr>bind_name := (bind_name c)(key \<mapsto> n)\<rparr>))"
proof -
  let ?rest = "concat (map (GenerateText Ini) as)"
  let ?w = "''BIND_NAME['' @ n @ '']''"
  have "ParseElements lib key (?w @ ?rest) 1 c =
        ParseElements lib key (?w @ ?rest) (length ?w - 1) (c\<lparr>bind_name := (bind_name c)(key \<mapsto> n)\<rparr>)"
    using ParseElements_element [of "[]" 1 BIND_NAME n lib key ?rest c] assms(3)
    by (simp add: element_start_def apply_keyword_def)
  moreover obtain v x where "?w = v @ [x, CHR '']'']"
    by (cases n rule: rev_cases) (auto intro: that [of "butlast ''BIND_NAME[''"])
  note ParseElements_actions [OF assms(1,2) this, of key "c\<lparr>bind_name := (bind_name c)(key \<mapsto> n)\<rparr>"]
  ultimately show ?thesis by (simp only: append_assoc)
qed

lemma add_actions_eq:
  "add_actions key as c =
   c\<lparr>key_vec := (if as = [] then key_vec c else at_key key (\<lambda>v. v @ map generic as) (key_vec c))\<rparr>"
proof (induction as arbitrary: c)
  case (Cons a as)
  have "add_actions key (a # as) c =
        add_actions key as (c\<lparr>key_vec := at_key key (\<lambda>v. v @ [generic a]) (key_vec c)\<rparr>)"
    by (simp add: add_actions_def)
  then show ?case by (auto simp: Cons.IH at_key_compose comp_def)
qed (simp add: add_actions_def)

text \<open>The name an entry shows once it is read back.\<close>

definition shown_name :: "macro_profile \<Rightarrow> string \<Rightarrow> string" where
  "shown_name c key = (case bind_name c key of
     None \<Rightarrow> ''Unknown macro'' | Some n \<Rightarrow> if n = [] then ''Unknown macro'' else n)"

lemma ParseMacroKeys_line:
  assumes "documented_text_lib lib" "profile_ok reserved' p" "list_all action_ok as" "\<not> reserved key"
  shows "ParseMacroKeys lib reserved key (macro_line p key as) flag c =
    c\<lparr>key_vec := (if as = [] then key_vec c else at_key key (\<lambda>v. v @ map generic as) (key_vec c)),
      bind_name := (bind_name c)(key \<mapsto> shown_name p key), flags := (flags c)(key \<mapsto> flag)\<rparr>"
proof -
  let ?n = "case bind_name p key of Some name \<Rightarrow> name | None \<Rightarrow> []"
  have n: "text_ok BIND_NAME ?n"
    using profile_okD(3) [OF assms(2), of key] by (auto simp: text_ok_plain split: option.splits)
  have "ParseElements lib key (macro_line p key as) 1 c =
        (True, add_actions key as (c\<lparr>bind_name := (bind_name c)(key \<mapsto> ?n)\<rparr>))"
    using ParseElements_line [OF assms(1,3) n] by (simp add: macro_line_def)
  then show ?thesis using assms(4)
    by (simp add: ParseMacroKeys_def add_actions_eq shown_name_def Let_def split: option.splits)
qed

text \<open>The lines of a profile read one after the other into a profile with smaller keys.\<close>

definition load_lines :: "text_lib \<Rightarrow> (string \<Rightarrow> bool) \<Rightarrow> macro_profile \<Rightarrow> (string \<times> string) list \<Rightarrow> macro_profile" where
  "load_lines lib reserved = foldl (\<lambda>c (key, str). ParseMacroKeys lib reserved key str NoFlag c)"

lemma load_lines_saved:
  assumes "documented_text_lib lib" "profile_ok reserved' p"
    and "\<forall>(k, as) \<in> set m. \<not> reserved k \<and> list_all action_ok as" "sorted_wrt (<) (map fst m)"
    and "\<forall>k \<in> fst ` set (key_vec c). \<forall>k' \<in> fst ` set m. k < k'"
  shows "load_lines lib reserved c (map (\<lambda>(key, as). (key, macro_line p key as)) m) =
    c\<lparr>key_vec := key_vec c @ map (\<lambda>(k, as). (k, map generic as)) (filter (\<lambda>(k, as). as \<noteq> []) m),
      bind_name := bind_name c ++ map_of (rev (map (\<lambda>(k, as). (k, shown_name p k)) m)),
      flags := flags c ++ map_of (rev (map (\<lambda>(k, as). (k, NoFlag)) m))\<rparr>"
  using assms(3-5)
proof (induction m arbitrary: c)
  case (Cons e m)
  obtain k as where e: "e = (k, as)" by (cases e)
  let ?c = "ParseMacroKeys lib reserved k (macro_line p k as) NoFlag c"
  have ok: "list_all action_ok as" "\<not> reserved k" using Cons.prems(1) by (auto simp: e)
  note c = ParseMacroKeys_line [where flag = NoFlag and c = c and reserved = reserved and key = k, OF assms(1,2) ok]
  have kv: "key_vec ?c = key_vec c @ (if as = [] then [] else [(k, map generic as)])"
    using Cons.prems(3) at_key_last [of "key_vec c" k "\<lambda>v. v @ map generic as"] by (auto simp: c e)
  have "load_lines lib reserved ?c (map (\<lambda>(key, as). (key, macro_line p key as)) m) =
    ?c\<lparr>key_vec := key_vec ?c @ map (\<lambda>(k, as). (k, map generic as)) (filter (\<lambda>(k, as). as \<noteq> []) m),
      bind_name := bind_name ?c ++ map_of (rev (map (\<lambda>(k, as). (k, shown_name p k)) m)),
      flags := flags ?c ++ map_of (rev (map (\<lambda>(k, as). (k, NoFlag)) m))\<rparr>"
    by (rule Cons.IH) (use Cons.prems in \<open>auto simp: kv e\<close>)
  then show ?case unfolding kv by (simp add: load_lines_def e c)
qed (simp add: load_lines_def)

text \<open>
  What saving and loading again keeps: every key with an action, its actions with image paths
  in generic form, its name, and the window title.
\<close>

definition reloads :: "macro_profile \<Rightarrow> macro_profile \<Rightarrow> bool" where
  "reloads p q \<longleftrightarrow>
     key_vec q = map (\<lambda>(k, as). (k, map generic as)) (filter (\<lambda>(k, as). as \<noteq> []) (key_vec p)) \<and>
     (\<forall>k \<in> fst ` set (key_vec p). bind_name q k = Some (shown_name p k) \<and> flags q k = Some NoFlag) \<and>
     app_name q = app_name p"

lemma map_of_rev_fun:
  "map_of (rev (map (\<lambda>(k, as). (k, f k)) m)) k = (if k \<in> fst ` set m then Some (f k) else None)"
  by (induction m) (auto simp: map_add_def)

lemma load_lines_reloads:
  assumes "documented_text_lib lib" "profile_ok reserved p" "\<And>k. reserved' k \<Longrightarrow> reserved k" "key_vec c = []"
  shows "reloads p ((load_lines lib reserved' c (map (\<lambda>(key, as). (key, macro_line p key as)) (key_vec p)))
           \<lparr>app_name := app_name p\<rparr>)"
    and "app_name (load_lines lib reserved' c (map (\<lambda>(key, as). (key, macro_line p key as)) (key_vec p))) = app_name c"
proof -
  have ok: "\<forall>(k, as) \<in> set (key_vec p). \<not> reserved' k \<and> list_all action_ok as"
    using profile_okD(2) [OF assms(2)] assms(3) by blast
  have l: "load_lines lib reserved' c (map (\<lambda>(key, as). (key, macro_line p key as)) (key_vec p)) =
    c\<lparr>key_vec := key_vec c @ map (\<lambda>(k, as). (k, map generic as)) (filter (\<lambda>(k, as). as \<noteq> []) (key_vec p)),
      bind_name := bind_name c ++ map_of (rev (map (\<lambda>(k, as). (k, shown_name p k)) (key_vec p))),
      flags := flags c ++ map_of (rev (map (\<lambda>(k, as). (k, NoFlag)) (key_vec p)))\<rparr>"
    by (rule load_lines_saved [OF assms(1,2) ok profile_okD(1) [OF assms(2)]]) (simp add: assms(4))
  show "reloads p ((load_lines lib reserved' c (map (\<lambda>(key, as). (key, macro_line p key as)) (key_vec p)))
           \<lparr>app_name := app_name p\<rparr>)"
    unfolding l using assms(4)
    by (simp add: reloads_def map_add_def map_of_rev_fun [of "shown_name p"] map_of_rev_fun [of "\<lambda>_. NoFlag"])
  show "app_name (load_lines lib reserved' c (map (\<lambda>(key, as). (key, macro_line p key as)) (key_vec p))) = app_name c"
    unfolding l by simp
qed

lemma LoadAppMacros_no_name_key:
  assumes "documented_text_lib lib"
  shows "profile_ok (\<lambda>k. reserved k \<or> k = ''AppName'') (LoadAppMacros lib reserved entries)"
proof -
  have "ParseMacroKeys lib reserved k s f c = ParseMacroKeys lib (\<lambda>k. reserved k \<or> k = ''AppName'') k s f c"
    if "k \<noteq> ''AppName''" for k s f c using that by (simp add: ParseMacroKeys_def)
  then have "LoadAppMacros lib reserved entries = LoadAppMacros lib (\<lambda>k. reserved k \<or> k = ''AppName'') entries"
    unfolding LoadAppMacros_def by (intro foldl_cong) auto
  then show ?thesis using LoadAppMacros_ok [OF assms] by metis
qed

lemma SaveAppMacros_load:
  assumes "\<forall>k \<in> fst ` set (key_vec p). k \<noteq> ''AppName''"
  shows "LoadAppMacros lib reserved (SaveAppMacros p) =
    load_lines lib reserved (empty_profile\<lparr>app_name := app_name p\<rparr>) (map (\<lambda>(key, as). (key, macro_line p key as)) (key_vec p))"
  unfolding LoadAppMacros_def SaveAppMacros_def load_lines_def
  using assms by (simp, intro foldl_cong) auto

section \<open>A text library\<close>

text \<open>One that does what the documentation of Boost says, to run the model with.\<close>

fun split_on :: "char \<Rightarrow> string \<Rightarrow> string list" where
  "split_on c [] = [[]]"
| "split_on c (x # xs) =
     (if x = c then [] # split_on c xs
      else case split_on c xs of [] \<Rightarrow> [[x]] | p # ps \<Rightarrow> (x # p) # ps)"

definition text_lib_on :: text_lib where
  "text_lib_on = \<lparr>tl_erase_all = (\<lambda>s c. filter (\<lambda>x. x \<noteq> c) s), tl_split = split_on,
     tl_tokens = (\<lambda>c s. filter (\<lambda>p. p \<noteq> []) (split_on c s))\<rparr>"

lemma split_on_joined: "split_on c s \<noteq> [] \<and> (\<forall>p \<in> set (split_on c s). c \<notin> set p) \<and> joined c (split_on c s) = s"
proof (induction s)
  case (Cons x xs)
  then obtain p ps where "split_on c xs = p # ps" by (cases "split_on c xs") auto
  with Cons show ?case by (cases ps) auto
qed simp

lemma text_lib_on_documented: "documented_text_lib text_lib_on"
  using split_on_joined by (simp add: documented_text_lib_def text_lib_on_def)

definition sample_macros :: "(string \<times> string) list" where
  "sample_macros =
     [(''NUM_1'', ''BIND_NAME[close] KEY_TYPE[bye] DELAY[100-3000] KEY_SEQ[LALT + F4] CMD_FG[a.exe,A]''),
      (''A'', ''MOUSE_MOVE[10, -20] DELAY[x] MOUSE_CLICK[L]''), (''B'', ''BIND_NAME[none] DELAY[x]'')]"

text \<open>
  C23: Macros survive saving and loading.  Whatever the ini file held, once it is loaded, saving
  the global profile or the profile of an application and loading it again gives the same
  profile: each key with at least one accepted action keeps all its actions in order, its
  name and its flag, and no other key appears.
\<close>

theorem macros_survive_reload:
  assumes "documented_text_lib lib"
  shows "reloads (LoadGlobalMacros lib reserved entries)
           (LoadGlobalMacros lib reserved (SaveGlobalMacros (LoadGlobalMacros lib reserved entries))) \<and>
         reloads (LoadAppMacros lib reserved entries)
           (LoadAppMacros lib reserved (SaveAppMacros (LoadAppMacros lib reserved entries)))"
proof
  let ?p = "LoadGlobalMacros lib reserved entries"
  have "LoadGlobalMacros lib reserved (SaveGlobalMacros ?p) =
      (load_lines lib reserved empty_profile (map (\<lambda>(key, as). (key, macro_line ?p key as)) (key_vec ?p)))
        \<lparr>app_name := app_name ?p\<rparr>"
    by (simp add: LoadGlobalMacros_def SaveGlobalMacros_def load_lines_def)
  then show "reloads ?p (LoadGlobalMacros lib reserved (SaveGlobalMacros ?p))"
    using load_lines_reloads(1) [OF assms LoadGlobalMacros_ok [OF assms]] by (simp add: empty_profile_def)
next
  let ?p = "LoadAppMacros lib reserved entries"
  let ?c = "empty_profile\<lparr>app_name := app_name ?p\<rparr>"
  let ?q = "load_lines lib reserved ?c (map (\<lambda>(key, as). (key, macro_line ?p key as)) (key_vec ?p))"
  have ok: "profile_ok (\<lambda>k. reserved k \<or> k = ''AppName'') ?p" by (rule LoadAppMacros_no_name_key [OF assms])
  then have "\<forall>k \<in> fst ` set (key_vec ?p). k \<noteq> ''AppName''" by (auto dest: profile_okD(2))
  then have q: "LoadAppMacros lib reserved (SaveAppMacros ?p) = ?q" by (rule SaveAppMacros_load)
  have "reloads ?p (?q\<lparr>app_name := app_name ?p\<rparr>)"
    by (rule load_lines_reloads(1) [OF assms ok]) (simp_all add: empty_profile_def)
  moreover have "app_name ?q = app_name ?p"
    by (subst load_lines_reloads(2) [OF assms ok]) (simp_all add: empty_profile_def)
  ultimately show "reloads ?p (LoadAppMacros lib reserved (SaveAppMacros ?p))" by (simp add: q reloads_def)
qed

theorem macros_survive_reload_witness:
  "key_vec (LoadGlobalMacros text_lib_on (\<lambda>_. False)
     (SaveGlobalMacros (LoadGlobalMacros text_lib_on (\<lambda>_. False) sample_macros))) =
   [(''A'', [MouseMovement 10 (- 20), MouseClick 2]),
    (''NUM_1'', [KeyText ''bye'', KeyDelayRandom 100 3000, KeyCombination [0x38, 0x3E],
                KeyBringAppToForeground ''a.exe'' ''A''])]"
proof -
  have "key_vec (LoadGlobalMacros text_lib_on (\<lambda>_. False) sample_macros) =
   [(''A'', [MouseMovement 10 (- 20), MouseClick 2]), (''B'', []),
    (''NUM_1'', [KeyText ''bye'', KeyDelayRandom 100 3000, KeyCombination [0x38, 0x3E],
                KeyBringAppToForeground ''a.exe'' ''A''])]"
    by code_simp
  then show ?thesis
    using macros_survive_reload [OF text_lib_on_documented, of "\<lambda>_. False" sample_macros]
    by (simp add: reloads_def)
qed

end
