(* ===== verification/MacroKeypad.thy ===== *)
theory MacroKeypad
  imports MacroKeys Crc16
begin

text \<open>
  The macro keypad.  Source: \<open>src/MacroKeyFrame.cpp\<close> and \<open>src/MacroKeyFrame.hpp\<close> (the 17-byte
  frame of the keypad's firmware) and \<open>src/CustomMacro.cpp\<close> (\<open>ProcessReceivedData\<close>,
  \<open>SimulateKeypress\<close>, \<open>ExecuteKeypresses\<close>): which keys are held, what a frame runs, and who gets
  a key first.  Actions, hotkeys and the window toggle are the effects of the model; the
  foreground window is an input.  Frames are processed one after the other: the lock of the
  accumulator is held while a frame changes it.
\<close>

section \<open>Frames\<close>

definition frame_size :: nat where "frame_size = 17"

definition measurement_prefix :: bytes where
  "measurement_prefix = map of_char ''MEAS_DATA''"

definition reset_prefix :: bytes where
  "reset_prefix = map of_char ''reset''"

definition reset_crc :: u16 where "reset_crc = 0x6bd8"

datatype ParseError = NoError | WrongLength | CrcError

record key_frame =
  kf_state :: u8
  lctrl :: bool
  lshift :: bool
  lalt :: bool
  lgui :: bool
  rctrl :: bool
  rshift :: bool
  ralt :: bool
  rgui :: bool
  kf_keys :: bytes

definition empty_frame :: key_frame where
  "empty_frame = \<lparr>kf_state = 0, lctrl = False, lshift = False, lalt = False, lgui = False,
     rctrl = False, rshift = False, ralt = False, rgui = False, kf_keys = replicate 6 0\<rparr>"

record key_parse_result =
  pr_error :: ParseError
  pr_frame :: key_frame
  received_crc :: u16
  computed_crc :: u16

definition IsMeasurementFrame :: "bytes \<Rightarrow> bool" where
  "IsMeasurementFrame data \<longleftrightarrow> take (length measurement_prefix) data = measurement_prefix"

definition IsResetFrame :: "bytes \<Rightarrow> bool" where
  "IsResetFrame data \<longleftrightarrow>
     length data = frame_size \<and> take (length reset_prefix) data = reset_prefix \<and>
     Crc16Modbus (take (frame_size - 2) data) = reset_crc"

definition ParseFrame :: "bytes \<Rightarrow> key_parse_result" where
  "ParseFrame data =
     (if length data \<noteq> frame_size
      then \<lparr>pr_error = WrongLength, pr_frame = empty_frame, received_crc = 0, computed_crc = 0\<rparr>
      else
        let crc_offset = frame_size - 2;
            computed = Crc16Modbus (take crc_offset data);
            received = be16 (data ! (crc_offset + 1)) (data ! crc_offset)
        in if received \<noteq> computed
           then \<lparr>pr_error = CrcError, pr_frame = empty_frame, received_crc = received, computed_crc = computed\<rparr>
           else \<lparr>pr_error = NoError,
                 pr_frame = \<lparr>kf_state = data ! 0, lctrl = data ! 1 \<noteq> 0, lshift = data ! 2 \<noteq> 0, lalt = data ! 3 \<noteq> 0,
                   lgui = data ! 4 \<noteq> 0, rctrl = data ! 5 \<noteq> 0, rshift = data ! 6 \<noteq> 0, ralt = data ! 7 \<noteq> 0,
                   rgui = data ! 8 \<noteq> 0, kf_keys = map (\<lambda>i. data ! (9 + i)) [0..<6]\<rparr>,
                 received_crc = received, computed_crc = computed\<rparr>)"

definition IsAllReleased :: "key_frame \<Rightarrow> bool" where
  "IsAllReleased f \<longleftrightarrow>
     \<not> lctrl f \<and> \<not> lshift f \<and> \<not> lalt f \<and> \<not> lgui f \<and> \<not> rctrl f \<and> \<not> rshift f \<and> \<not> ralt f \<and> \<not> rgui f \<and>
     list_all (\<lambda>key. key = 0) (kf_keys f)"

section \<open>The macro engine\<close>

record custom_macro =
  pressed_keys :: string
  macros :: "macro_profile list"
  use_per_app_macro :: bool
  advanced_key_binding :: bool
  bring_to_foreground_key :: string
  m_Hotkeys :: "hotkey_handler list option"

text \<open>
  What surrounds the engine: which collaborators are set, and the foreground window's title,
  \<open>None\<close> without a window.
\<close>

record macro_env =
  has_measurements :: bool
  has_alarm_handler :: bool
  has_foreground_toggle :: bool
  has_marshaller :: bool
  foreground :: "string option"

text \<open>What a press does outside, in order.\<close>

datatype macro_effect =
    Hotkey hotkey_handler bool
  | ForegroundToggle
  | Execute IKey
  | ArmAlarm string
  | IncomingMeasurements bytes

text \<open>\<open>title.find(name) != npos\<close>, for names of more than two characters.\<close>

definition profile_matches :: "string \<Rightarrow> macro_profile \<Rightarrow> bool" where
  "profile_matches title m \<longleftrightarrow> 2 < length (app_name m) \<and> str_find title (app_name m) 0 \<noteq> None"

definition RunPerAppMacro :: "macro_env \<Rightarrow> string \<Rightarrow> custom_macro \<Rightarrow> bool \<times> macro_effect list" where
  "RunPerAppMacro env keys st =
     (if \<not> use_per_app_macro st then (False, [])
      else case foreground env of
        None \<Rightarrow> (False, [])
      | Some title \<Rightarrow>
          (case find (profile_matches title) (macros st) of
             None \<Rightarrow> (False, [])
           | Some m \<Rightarrow> (True, case map_of (key_vec m) keys of Some as \<Rightarrow> map Execute as | None \<Rightarrow> [])))"

text \<open>\<open>flags[keys]\<close> makes a missing flag.\<close>

definition flag_access :: "string \<Rightarrow> macro_profile \<Rightarrow> macro_profile" where
  "flag_access keys m = (case flags m keys of None \<Rightarrow> m\<lparr>flags := (flags m)(keys \<mapsto> NoFlag)\<rparr> | Some f \<Rightarrow> m)"

definition ExecuteGlobalMacro ::
  "string \<Rightarrow> bool \<Rightarrow> custom_macro \<Rightarrow> custom_macro \<times> macro_effect list \<times> string" where
  "ExecuteGlobalMacro keys directly_execute_alarm st =
     (case macros st of
        [] \<Rightarrow> (st, [], [])
      | global # rest \<Rightarrow>
          (case map_of (key_vec global) keys of
             None \<Rightarrow> (st, [], [])
           | Some as \<Rightarrow>
               let global' = flag_access keys global; st' = st\<lparr>macros := global' # rest\<rparr>
               in if flags global' keys = Some Alarm \<and> \<not> directly_execute_alarm then (st', [], keys)
                  else (st', map Execute as, [])))"

text \<open>The state after it, the effects, and the key whose alarm the caller arms.\<close>

definition ExecuteKeypresses ::
  "macro_env \<Rightarrow> string \<Rightarrow> bool \<Rightarrow> custom_macro \<Rightarrow> custom_macro \<times> macro_effect list \<times> string" where
  "ExecuteKeypresses env keys directly_execute_alarm st =
     (case (case m_Hotkeys st of None \<Rightarrow> None | Some handlers \<Rightarrow> Dispatch handlers (has_marshaller env) keys) of
        Some (handler, marshalled) \<Rightarrow> (st, [Hotkey handler marshalled], [])
      | None \<Rightarrow>
          if keys = bring_to_foreground_key st then (st, if has_foreground_toggle env then [ForegroundToggle] else [], [])
          else case RunPerAppMacro env keys st of
            (True, effects) \<Rightarrow> (st, effects, [])
          | (False, _) \<Rightarrow> ExecuteGlobalMacro keys directly_execute_alarm st)"

definition run_keys ::
  "macro_env \<Rightarrow> string \<Rightarrow> bool \<Rightarrow> custom_macro \<Rightarrow> custom_macro \<times> macro_effect list" where
  "run_keys env keys directly_execute_alarm st =
     (case ExecuteKeypresses env keys directly_execute_alarm st of
        (st', effects, alarm_key) \<Rightarrow> (st', if alarm_key \<noteq> [] \<and> has_alarm_handler env then effects @ [ArmAlarm alarm_key] else effects))"

definition SimulateKeypress ::
  "macro_env \<Rightarrow> string \<Rightarrow> bool \<Rightarrow> custom_macro \<Rightarrow> custom_macro \<times> macro_effect list" where
  "SimulateKeypress env key directly_execute_alarm st =
     run_keys env key directly_execute_alarm st"

section \<open>Held keys\<close>

definition AppendKeyToken :: "string \<Rightarrow> string \<Rightarrow> string" where
  "AppendKeyToken keys name = (if keys \<noteq> [] \<and> last keys \<noteq> CHR ''+'' then keys @ ''+'' else keys) @ name"

definition kModifierNames :: "((key_frame \<Rightarrow> bool) \<times> string) list" where
  "kModifierNames =
     [(lshift, ''LSHIFT''), (lalt, ''LALT''), (lgui, ''LGUI''), (lctrl, ''LCTRL''),
      (rshift, ''RSHIFT''), (ralt, ''RALT''), (rgui, ''RGUI''), (rctrl, ''RCTRL'')]"

text \<open>
  The critical section of \<open>ProcessReceivedData\<close>: the new accumulator, and the keys to run,
  if any.
\<close>

definition accumulate :: "bool \<Rightarrow> bytes \<Rightarrow> string \<Rightarrow> string \<times> string option" where
  "accumulate advanced data pressed =
     (let parsed = ParseFrame data;
          pressed1 = (if IsResetFrame data then [] else pressed)
      in if pr_error parsed = CrcError then (pressed1, None)
         else
           let k = pr_frame parsed in
           if IsAllReleased k then ([], None)
           else
             let pressed2 = (if pressed1 \<noteq> [] \<and> last pressed1 \<noteq> CHR ''+'' then pressed1 @ ''+'' else pressed1)
             in if advanced \<and> list_all (\<lambda>key. key = 0) (kf_keys k) then (pressed2, None)
                else
                  let pressed3 = foldl (\<lambda>keys (flag, name). if flag k then AppendKeyToken keys name else keys)
                                   pressed2 kModifierNames;
                      pressed4 = (case map_of hid_scan_codes (kf_keys k ! 0) of
                                    Some name \<Rightarrow> AppendKeyToken pressed3 name | None \<Rightarrow> pressed3)
                  in (pressed4, Some pressed4))"

definition ProcessReceivedData ::
  "macro_env \<Rightarrow> bytes \<Rightarrow> custom_macro \<Rightarrow> custom_macro \<times> macro_effect list" where
  "ProcessReceivedData env data st =
     (if IsMeasurementFrame data then (st, if has_measurements env then [IncomingMeasurements data] else [])
      else if pr_error (ParseFrame data) = WrongLength then (st, [])
      else case accumulate (advanced_key_binding st) data (pressed_keys st) of
        (pressed, None) \<Rightarrow> (st\<lparr>pressed_keys := pressed\<rparr>, [])
      | (pressed, Some keys) \<Rightarrow>
          run_keys env keys False (st\<lparr>pressed_keys := pressed\<rparr>))"

section \<open>The reset frame\<close>

text \<open>
  The constant is the checksum of the five letters alone, while the frame's first fifteen
  bytes are checked against it: the letters padded with zeros are not a reset frame.
\<close>

lemma reset_crc_steps:
  "crc_byte 0xFFFF 0x72 = 0x653F"
  "crc_byte 0x653F 0x65 = 0x3BE5"
  "crc_byte 0x3BE5 0x73 = 0x6EBB"
  "crc_byte 0x6EBB 0x65 = 0x58EE"
  "crc_byte 0x58EE 0x74 = 0x6BD8"
  "crc_byte 0x6BD8 0x00 = 0x5A6B"
  "crc_byte 0x5A6B 0x00 = 0xEF1B"
  "crc_byte 0xEF1B 0x00 = 0x0BAF"
  "crc_byte 0x0BAF 0x00 = 0x7C4B"
  "crc_byte 0x7C4B 0x00 = 0x373C"
  "crc_byte 0x373C 0x00 = 0x1137"
  "crc_byte 0x1137 0x00 = 0xD650"
  "crc_byte 0xD650 0x00 = 0x3CD6"
  "crc_byte 0x3CD6 0x00 = 0x9EBD"
  "crc_byte 0x9EBD 0x00 = 0x715E"
  by code_simp+

lemma reset_prefix_bytes: "reset_prefix = [0x72, 0x65, 0x73, 0x65, 0x74]"
  by code_simp

lemma reset_crc_of_letters: "Crc16Modbus reset_prefix = reset_crc"
  by (simp only: Crc16Modbus_def reset_prefix_bytes foldl.simps reset_crc_steps reset_crc_def)

lemma zero_padded_reset_not_recognised: "\<not> IsResetFrame (reset_prefix @ replicate 10 0 @ [lo, hi])"
proof -
  have z: "replicate 10 (0 :: u8) = [0x00, 0x00, 0x00, 0x00, 0x00, 0x00, 0x00, 0x00, 0x00, 0x00]" by code_simp
  have "Crc16Modbus (reset_prefix @ replicate 10 0) = 0x715E"
    by (simp only: Crc16Modbus_def reset_prefix_bytes z append.simps foldl.simps reset_crc_steps)
  then show ?thesis by (simp add: IsResetFrame_def frame_size_def reset_prefix_bytes reset_crc_def)
qed

section \<open>Frames a line error touched\<close>

lemma ParseFrame_NoError:
  "pr_error (ParseFrame data) = NoError \<longleftrightarrow>
     length data = 17 \<and> be16 (data ! 16) (data ! 15) = Crc16Modbus (take 15 data)"
  by (simp add: ParseFrame_def frame_size_def Let_def)

lemma ParseFrame_WrongLength: "pr_error (ParseFrame data) = WrongLength \<longleftrightarrow> length data \<noteq> 17"
  by (simp add: ParseFrame_def frame_size_def Let_def)

lemma Crc16Modbus_update:
  assumes "i < length xs" "Crc16Modbus (xs[i := b]) = Crc16Modbus xs"
  shows "xs ! i = b"
proof -
  have "xs = take i xs @ (xs ! i) # drop (Suc i) xs" "xs[i := b] = take i xs @ b # drop (Suc i) xs"
    using assms(1) by (simp_all add: id_take_nth_drop upd_conv_take_nth_drop)
  then show ?thesis using assms(2) Crc16Modbus_single_byte by metis
qed

lemma corrupted_frame_rejected:
  assumes "pr_error (ParseFrame data) = NoError" "i < 17" "b \<noteq> data ! i"
  shows "pr_error (ParseFrame (data[i := b])) = CrcError"
proof -
  have len: "length data = 17" and crc: "be16 (data ! 16) (data ! 15) = Crc16Modbus (take 15 data)"
    using assms(1) by (simp_all add: ParseFrame_NoError)
  have "pr_error (ParseFrame (data[i := b])) \<noteq> NoError"
  proof (cases "i < 15")
    case True
    have "Crc16Modbus ((take 15 data)[i := b]) \<noteq> Crc16Modbus (take 15 data)"
      using Crc16Modbus_update [of i "take 15 data" b] True len assms(3) by auto
    then show ?thesis using True crc by (simp add: ParseFrame_NoError take_update_swap)
  next
    case False
    then have "i = 15 \<or> i = 16" using assms(2) by linarith
    then show ?thesis using crc assms(3) by (auto simp: ParseFrame_NoError simp flip: crc)
  qed
  moreover have "pr_error (ParseFrame (data[i := b])) \<noteq> WrongLength" by (simp add: ParseFrame_WrongLength len)
  ultimately show ?thesis by (cases "pr_error (ParseFrame (data[i := b]))") auto
qed

section \<open>What the accumulator holds\<close>

text \<open>
  The specification: the names of the keys of every frame since all were released, and
  whether a frame without a key followed.  A frame gives its modifiers in a fixed order and
  then its first key, if the key has a name.
\<close>

definition frame_names :: "key_frame \<Rightarrow> string list" where
  "frame_names f =
     map snd (filter (\<lambda>(flag, name). flag f) kModifierNames) @
     (case map_of hid_scan_codes (kf_keys f ! 0) of Some name \<Rightarrow> [name] | None \<Rightarrow> [])"

definition held_text :: "string list \<Rightarrow> bool \<Rightarrow> string" where
  "held_text names open_end = joined (CHR ''+'') names @ (if open_end then ''+'' else [])"

definition held_step :: "bool \<Rightarrow> bytes \<Rightarrow> string list \<times> bool \<Rightarrow> (string list \<times> bool) \<times> string option" where
  "held_step advanced data held =
     (let (names, open_end) = (if IsResetFrame data then ([], False) else held);
          f = pr_frame (ParseFrame data)
      in if pr_error (ParseFrame data) \<noteq> NoError then ((names, open_end), None)
         else if IsAllReleased f then (([], False), None)
         else if advanced \<and> list_all (\<lambda>key. key = 0) (kf_keys f) then ((names, names \<noteq> []), None)
         else if frame_names f = [] then ((names, names \<noteq> []), Some (held_text names (names \<noteq> [])))
         else ((names @ frame_names f, False), Some (held_text (names @ frame_names f) False)))"

definition key_name :: "string \<Rightarrow> bool" where
  "key_name n \<longleftrightarrow> n \<noteq> [] \<and> last n \<noteq> CHR ''+''"

lemma hid_key_names: "list_all (\<lambda>p. key_name (snd p)) hid_scan_codes"
  by code_simp

lemma modifier_names: "list_all key_name (map snd kModifierNames)"
  by (simp add: kModifierNames_def key_name_def)

lemma frame_names_key_names: "list_all key_name (frame_names f)"
proof -
  have "list_all key_name (map snd (filter (\<lambda>(flag, name). flag f) kModifierNames))"
    using modifier_names by (auto simp: list_all_iff)
  moreover have "map_of hid_scan_codes k = Some name \<Longrightarrow> key_name name" for k name
    using hid_key_names by (auto simp: list_all_iff dest!: map_of_SomeD)
  ultimately show ?thesis by (auto simp: frame_names_def split: option.splits)
qed

lemma held_text_Nil [simp]: "held_text [] False = []"
  by (simp add: held_text_def)

lemma joined_last: "list_all key_name names \<Longrightarrow> names \<noteq> [] \<Longrightarrow> joined c names \<noteq> [] \<and> last (joined c names) \<noteq> CHR ''+''"
  by (induction c names rule: joined.induct) (auto simp: key_name_def)

text \<open>With the separator due, the text ends in it.\<close>

definition with_separator :: "string \<Rightarrow> string" where
  "with_separator keys = (if keys \<noteq> [] \<and> last keys \<noteq> CHR ''+'' then keys @ ''+'' else keys)"

lemma with_separator_held:
  assumes "list_all key_name names" "open_end \<longrightarrow> names \<noteq> []"
  shows "with_separator (held_text names open_end) = held_text names (names \<noteq> [])"
  using joined_last [OF assms(1)] assms(2) by (cases open_end) (auto simp: with_separator_def held_text_def)

lemma AppendKeyToken_held:
  assumes "list_all key_name names" "open_end \<longrightarrow> names \<noteq> []"
  shows "AppendKeyToken (held_text names open_end) n = held_text (names @ [n]) False"
proof -
  have "AppendKeyToken (held_text names open_end) n = with_separator (held_text names open_end) @ n"
    by (simp add: AppendKeyToken_def with_separator_def)
  then show ?thesis using joined_snoc [of names "CHR ''+''" n]
    using assms(2) by (cases "names = []") (simp_all add: with_separator_held [OF assms], simp_all add: held_text_def with_separator_def)
qed

lemma fold_AppendKeyToken:
  assumes "list_all key_name names" "list_all key_name new" "open_end \<longrightarrow> names \<noteq> []"
  shows "foldl AppendKeyToken (held_text names open_end) new =
         held_text (names @ new) (open_end \<and> new = [])"
  using assms
proof (induction new arbitrary: names open_end)
  case (Cons n new)
  then show ?case using Cons.IH [of "names @ [n]" False]
    by (simp add: AppendKeyToken_held)
qed simp

lemma fold_modifiers:
  "foldl (\<lambda>keys (flag, name). if flag k then AppendKeyToken keys name else keys) s ms =
   foldl AppendKeyToken s (map snd (filter (\<lambda>(flag, name). flag k) ms))"
  by (induction ms arbitrary: s) auto

lemma accumulate_held:
  assumes names: "list_all key_name names" "open_end \<longrightarrow> names \<noteq> []" and len: "length data = 17"
  shows "accumulate advanced data (held_text names open_end) =
    (case held_step advanced data (names, open_end) of ((names', open_end'), run) \<Rightarrow> (held_text names' open_end', run))"
proof -
  define held where "held = (if IsResetFrame data then ([], False) else (names, open_end))"
  obtain names1 open1 where h: "held = (names1, open1)" by (cases held)
  have ok: "list_all key_name names1" "open1 \<longrightarrow> names1 \<noteq> []"
    using names h by (auto simp: held_def split: if_splits)
  have p1: "(if IsResetFrame data then [] else held_text names open_end) = held_text names1 open1"
    using h by (auto simp: held_def split: if_splits)
  let ?k = "pr_frame (ParseFrame data)"
  have err: "pr_error (ParseFrame data) = CrcError \<longleftrightarrow> pr_error (ParseFrame data) \<noteq> NoError"
    using len ParseFrame_WrongLength [of data] by (cases "pr_error (ParseFrame data)") auto
  have sep: "(if held_text names1 open1 \<noteq> [] \<and> last (held_text names1 open1) \<noteq> CHR ''+''
      then held_text names1 open1 @ ''+'' else held_text names1 open1) = held_text names1 (names1 \<noteq> [])"
    using with_separator_held [OF ok] by (simp add: with_separator_def)
  have new: "(case map_of hid_scan_codes (kf_keys ?k ! 0) of
        Some name \<Rightarrow> AppendKeyToken (foldl AppendKeyToken s (map snd (filter (\<lambda>(flag, name). flag ?k) kModifierNames))) name
      | None \<Rightarrow> foldl AppendKeyToken s (map snd (filter (\<lambda>(flag, name). flag ?k) kModifierNames))) =
      foldl AppendKeyToken s (frame_names ?k)" for s
    by (simp add: frame_names_def split: option.splits)
  have all: "foldl AppendKeyToken (held_text names1 (names1 \<noteq> [])) (frame_names ?k) =
      held_text (names1 @ frame_names ?k) (names1 \<noteq> [] \<and> frame_names ?k = [])"
    by (rule fold_AppendKeyToken [OF ok(1) frame_names_key_names]) simp
  show ?thesis
    unfolding accumulate_def held_step_def Let_def fold_modifiers p1 held_def [symmetric] h prod.case sep new all err
    by simp
qed

lemma held_step_ok:
  assumes "list_all key_name names" "open_end \<longrightarrow> names \<noteq> []" "held_step advanced data (names, open_end) = ((names', open_end'), run)"
  shows "list_all key_name names' \<and> (open_end' \<longrightarrow> names' \<noteq> [])"
  using assms frame_names_key_names [of "pr_frame (ParseFrame data)"]
  by (auto simp: held_step_def Let_def split: if_splits)

section \<open>A session of the keypad\<close>

text \<open>The frames of a session, each with what surrounds the engine when it arrives.\<close>

fun keypad_run :: "(macro_env \<times> bytes) list \<Rightarrow> custom_macro \<Rightarrow> custom_macro \<times> macro_effect list" where
  "keypad_run [] st = (st, [])"
| "keypad_run ((env, data) # inputs) st =
     (let (st', effects) = ProcessReceivedData env data st; (st'', more_effects) = keypad_run inputs st'
      in (st'', effects @ more_effects))"

text \<open>What is held after it: measurements and frames of another length are passed over.\<close>

definition is_key_data :: "bytes \<Rightarrow> bool" where
  "is_key_data data \<longleftrightarrow> \<not> IsMeasurementFrame data \<and> length data = frame_size"

definition held_after :: "bool \<Rightarrow> bytes list \<Rightarrow> string list \<times> bool" where
  "held_after advanced history =
     foldl (\<lambda>held data. if is_key_data data then fst (held_step advanced data held) else held) ([], False) history"

lemma ExecuteKeypresses_keeps:
  "ExecuteKeypresses env keys directly st = (st', effects, alarm_key) \<Longrightarrow>
   pressed_keys st' = pressed_keys st \<and> advanced_key_binding st' = advanced_key_binding st"
  by (auto simp: ExecuteKeypresses_def ExecuteGlobalMacro_def Let_def split: option.splits prod.splits if_splits list.splits bool.splits)

lemma run_keys_keeps [simp]:
  "pressed_keys (fst (run_keys env keys directly st)) = pressed_keys st"
  "advanced_key_binding (fst (run_keys env keys directly st)) = advanced_key_binding st"
  using ExecuteKeypresses_keeps by (auto simp: run_keys_def split: prod.splits)

lemma run_keys_pressed_keys [simp]:
  "snd (run_keys env keys directly (st\<lparr>pressed_keys := p\<rparr>)) = snd (run_keys env keys directly st)"
  by (auto simp: run_keys_def ExecuteKeypresses_def ExecuteGlobalMacro_def RunPerAppMacro_def Let_def
    split: option.splits prod.splits list.splits bool.splits)

lemma ProcessReceivedData_step:
  assumes "list_all key_name names" "open_end \<longrightarrow> names \<noteq> []" "pressed_keys st = held_text names open_end"
    and "is_key_data data"
  shows "pressed_keys (fst (ProcessReceivedData env data st)) =
           (case fst (held_step (advanced_key_binding st) data (names, open_end)) of (ns, oe) \<Rightarrow> held_text ns oe)"
    and "snd (ProcessReceivedData env data st) =
           (case snd (held_step (advanced_key_binding st) data (names, open_end)) of
              None \<Rightarrow> [] | Some keys \<Rightarrow> snd (run_keys env keys False st))"
  using assms(4) unfolding ProcessReceivedData_def assms(3)
  by (simp_all add: is_key_data_def frame_size_def ParseFrame_WrongLength accumulate_held [OF assms(1,2)]
      split: prod.splits option.splits)

lemma ProcessReceivedData_other:
  "\<not> is_key_data data \<Longrightarrow> fst (ProcessReceivedData env data st) = st"
  by (auto simp: ProcessReceivedData_def is_key_data_def frame_size_def ParseFrame_WrongLength)

lemma ProcessReceivedData_advanced [simp]:
  "advanced_key_binding (fst (ProcessReceivedData env data st)) = advanced_key_binding st"
  by (simp add: ProcessReceivedData_def split: prod.splits option.splits)

lemma keypad_run_held:
  assumes "list_all key_name names" "open_end \<longrightarrow> names \<noteq> []" "pressed_keys st = held_text names open_end"
  shows "\<exists>names' open_end'. foldl (\<lambda>held data. if is_key_data data then fst (held_step (advanced_key_binding st) data held) else held)
            (names, open_end) (map snd inputs) = (names', open_end') \<and>
          list_all key_name names' \<and> (open_end' \<longrightarrow> names' \<noteq> []) \<and>
          pressed_keys (fst (keypad_run inputs st)) = held_text names' open_end' \<and>
          advanced_key_binding (fst (keypad_run inputs st)) = advanced_key_binding st"
  using assms
proof (induction inputs arbitrary: names open_end st)
  case (Cons e inputs)
  obtain env data where e: "e = (env, data)" by (cases e)
  let ?st = "fst (ProcessReceivedData env data st)"
  have run: "fst (keypad_run (e # inputs) st) = fst (keypad_run inputs ?st)"
    by (simp add: e split: prod.splits)
  obtain ns oe where no: "(if is_key_data data then fst (held_step (advanced_key_binding st) data (names, open_end)) else (names, open_end)) = (ns, oe)"
    by (cases "if is_key_data data then fst (held_step (advanced_key_binding st) data (names, open_end)) else (names, open_end)")
  have ok: "list_all key_name ns" "oe \<longrightarrow> ns \<noteq> []" "pressed_keys ?st = held_text ns oe"
    using no Cons.prems ProcessReceivedData_step(1) [OF Cons.prems, of data env] ProcessReceivedData_other [of data env st]
      held_step_ok [OF Cons.prems(1,2), of "advanced_key_binding st" data ns oe]
    by (auto split: if_splits prod.splits simp: prod_eq_iff)
  from Cons.IH [OF ok, unfolded ProcessReceivedData_advanced] no show ?case unfolding run by (simp add: e)
qed simp

text \<open>
  C24: What a keypad frame runs.  After any history of received data, the accumulator is the
  text of the keys of every genuine frame since all keys were released, and the next frame
  runs exactly what is bound to that text with its own keys added, or nothing: the features
  holding the key come first, then the window's own macros, then the global ones.
\<close>

theorem keypad_runs_held_keys:
  assumes "pressed_keys st = []" and "is_key_data data"
  shows "let st' = fst (keypad_run history st); held = held_after (advanced_key_binding st) (map snd history);
             (held', run) = held_step (advanced_key_binding st) data held
         in pressed_keys st' = held_text (fst held) (snd held) \<and>
            pressed_keys (fst (ProcessReceivedData env data st')) = held_text (fst held') (snd held') \<and>
            snd (ProcessReceivedData env data st') =
              (case run of None \<Rightarrow> [] | Some keys \<Rightarrow> snd (run_keys env keys False st'))"
proof -
  let ?st = "fst (keypad_run history st)"
  from keypad_run_held [of "[]" False st history] assms(1) obtain names open_end where
    h: "held_after (advanced_key_binding st) (map snd history) = (names, open_end)"
       "list_all key_name names" "open_end \<longrightarrow> names \<noteq> []" "pressed_keys ?st = held_text names open_end"
       "advanced_key_binding ?st = advanced_key_binding st"
    by (auto simp: held_after_def)
  show ?thesis
    using ProcessReceivedData_step [OF h(2-4) assms(2), of env] h
    by (auto simp: Let_def split: prod.splits)
qed

definition sample_profile :: macro_profile where
  "sample_profile = empty_profile\<lparr>key_vec := [(''LSHIFT+A'', [KeyText ''x''])]\<rparr>"

definition sample_engine :: custom_macro where
  "sample_engine = \<lparr>pressed_keys = [], macros = [sample_profile], use_per_app_macro = False,
     advanced_key_binding = True, bring_to_foreground_key = ''N/A'', m_Hotkeys = None\<rparr>"

definition sample_env :: macro_env where
  "sample_env = \<lparr>has_measurements = False, has_alarm_handler = False, has_foreground_toggle = False,
     has_marshaller = False, foreground = None\<rparr>"

text \<open>
  C25: A damaged frame runs nothing.  When one byte of a genuine key frame arrives changed, the
  frame runs no macro, hotkey or window action, whatever the engine holds; what is held
  changes only if it has become a reset frame.
\<close>

theorem damaged_frame_runs_nothing:
  assumes "pr_error (ParseFrame data) = NoError" "i < 17" "b \<noteq> data ! i"
  shows "snd (ProcessReceivedData env (data[i := b]) st) \<in> {[], [IncomingMeasurements (data[i := b])]} \<and>
         pressed_keys (fst (ProcessReceivedData env (data[i := b]) st)) \<in>
           {pressed_keys st} \<union> (if IsResetFrame (data[i := b]) then {[]} else {})"
  using corrupted_frame_rejected [OF assms]
  by (auto simp: ProcessReceivedData_def accumulate_def Let_def)

text \<open>The genuine frame of LSHIFT and A.\<close>

definition sample_frame :: bytes where
  "sample_frame =
     [0x01, 0x00, 0x01, 0x00, 0x00, 0x00, 0x00, 0x00, 0x00, 0x04, 0x00, 0x00, 0x00, 0x00, 0x00, 0x82, 0xBA]"

lemma sample_crc_steps:
  "crc_byte 0xFFFF 0x01 = 0x807E"
  "crc_byte 0x807E 0x00 = 0x2000"
  "crc_byte 0x2000 0x01 = 0xC0E1"
  "crc_byte 0xC0E1 0x00 = 0x4800"
  "crc_byte 0x4800 0x00 = 0x0048"
  "crc_byte 0x0048 0x00 = 0x3600"
  "crc_byte 0x3600 0x00 = 0x0036"
  "crc_byte 0x0036 0x00 = 0x1680"
  "crc_byte 0x1680 0x00 = 0xA017"
  "crc_byte 0xA017 0x04 = 0xCDE1"
  "crc_byte 0xCDE1 0x00 = 0x480D"
  "crc_byte 0x480D 0x00 = 0xC589"
  "crc_byte 0xC589 0x00 = 0xA604"
  "crc_byte 0xA604 0x00 = 0xC3A7"
  "crc_byte 0xC3A7 0x00 = 0xBA82"
  by code_simp+

lemma sample_frame_crc:
  "Crc16Modbus [0x01, 0x00, 0x01, 0x00, 0x00, 0x00, 0x00, 0x00, 0x00, 0x04, 0x00, 0x00, 0x00, 0x00, 0x00] = 0xBA82"
  by (simp only: Crc16Modbus_def foldl.simps sample_crc_steps)

lemma sample_frame_genuine:
  "pr_error (ParseFrame sample_frame) = NoError" "is_key_data sample_frame" "\<not> IsResetFrame sample_frame"
proof -
  have "take 15 sample_frame = [0x01, 0x00, 0x01, 0x00, 0x00, 0x00, 0x00, 0x00, 0x00, 0x04, 0x00, 0x00, 0x00, 0x00, 0x00]"
    "be16 (sample_frame ! 16) (sample_frame ! 15) = 0xBA82" "length sample_frame = 17"
    by (simp_all add: sample_frame_def be16_def)
  then show "pr_error (ParseFrame sample_frame) = NoError" by (simp only: ParseFrame_NoError sample_frame_crc)
  show "is_key_data sample_frame" "\<not> IsResetFrame sample_frame" 
    by (simp_all add: is_key_data_def frame_size_def IsMeasurementFrame_def measurement_prefix_def IsResetFrame_def
      reset_prefix_bytes sample_frame_def)
qed

lemma sample_frame_run:
  "held_step True sample_frame ([], False) = (([''LSHIFT'', ''A''], False), Some ''LSHIFT+A'')"
proof -
  have k: "pr_frame (ParseFrame sample_frame) =
    \<lparr>kf_state = 1, lctrl = False, lshift = True, lalt = False, lgui = False, rctrl = False, rshift = False,
     ralt = False, rgui = False, kf_keys = [4, 0, 0, 0, 0, 0]\<rparr>"
    using sample_frame_genuine(1)
    by (auto simp: ParseFrame_def frame_size_def Let_def sample_frame_def upt_rec split: if_splits)
  have "map_of hid_scan_codes 4 = Some ''A''" by code_simp
  then have "frame_names (pr_frame (ParseFrame sample_frame)) = [''LSHIFT'', ''A'']"
    by (simp add: k frame_names_def kModifierNames_def)
  then show ?thesis by (simp add: held_step_def sample_frame_genuine IsAllReleased_def k held_text_def)
qed

theorem keypad_runs_held_keys_witness:
  "snd (ProcessReceivedData sample_env sample_frame (fst (keypad_run [(sample_env, [])] sample_engine))) =
     [Execute (KeyText ''x'')]"
proof -
  have "held_after True [[]] = ([], False)"
    by (simp add: held_after_def is_key_data_def frame_size_def)
  moreover have "fst (keypad_run [(sample_env, [])] sample_engine) = sample_engine"
    by (simp add: ProcessReceivedData_def IsMeasurementFrame_def measurement_prefix_def ParseFrame_WrongLength)
  moreover have "snd (run_keys sample_env ''LSHIFT+A'' False sample_engine) = [Execute (KeyText ''x'')]"
    by code_simp
  ultimately show ?thesis
    using keypad_runs_held_keys [of sample_engine sample_frame "[(sample_env, [])]" sample_env] sample_frame_genuine(2)
    by (simp add: sample_frame_run sample_engine_def Let_def)
qed

theorem damaged_frame_runs_nothing_witness:
  "snd (ProcessReceivedData sample_env (sample_frame[9 := 5]) sample_engine) \<in>
     {[], [IncomingMeasurements (sample_frame[9 := 5])]}"
  using damaged_frame_runs_nothing [OF sample_frame_genuine(1), of 9 5 sample_env sample_engine]
  by (simp add: sample_frame_def)

end
