(* ===== verification/CanFields.thy ===== *)
theory CanFields
  imports CanHandler FieldEditing
begin

text \<open>
  The mapping of CAN frames to named bit fields, and editing a frame's payload by its fields.
  Source: \<open>src/CanModels.hpp\<close>, \<open>src/interface/ICanEntry.hpp\<close> and the bit field part of
  \<open>src/CanEntryHandler.cpp\<close>.  A \<open>std::map\<close> is the list of its entries in the order of the
  keys.  The colours and the font of a field are not modelled.  A result \<open>None\<close> is undefined
  behaviour.
\<close>

section \<open>The mapping\<close>

datatype can_field_type =
  CBT_BOOL | CBT_UI8 | CBT_I8 | CBT_UI16 | CBT_I16 | CBT_UI32 | CBT_I32 | CBT_UI64 | CBT_I64 | CBT_FLOAT | CBT_DOUBLE | CBT_INVALID

fun ScalarTypeOf :: "can_field_type \<Rightarrow> scalar_type" where
  "ScalarTypeOf CBT_BOOL = ST_U8"
| "ScalarTypeOf CBT_UI8 = ST_U8"
| "ScalarTypeOf CBT_I8 = ST_I8"
| "ScalarTypeOf CBT_UI16 = ST_U16"
| "ScalarTypeOf CBT_I16 = ST_I16"
| "ScalarTypeOf CBT_UI32 = ST_U32"
| "ScalarTypeOf CBT_I32 = ST_I32"
| "ScalarTypeOf CBT_UI64 = ST_U64"
| "ScalarTypeOf CBT_I64 = ST_I64"
| "ScalarTypeOf CBT_FLOAT = ST_Float"
| "ScalarTypeOf CBT_DOUBLE = ST_Double"
| "ScalarTypeOf CBT_INVALID = ST_None"

record can_map =
  cm_type :: can_field_type
  cm_name :: string
  cm_size :: u8
  cm_min :: int
  cm_max :: int
  cm_description :: string

type_synonym frame_fields = "(u8 \<times> can_map) list"
type_synonym can_mapping = "(u32 \<times> frame_fields) list"

definition bits_of_field :: "u8 \<times> can_map \<Rightarrow> bit_field" where
  "bits_of_field = (\<lambda>(off, m). \<lparr>bf_offset = off, bf_size = cm_size m, bf_scalar = ScalarTypeOf (cm_type m)\<rparr>)"

section \<open>Reading and editing\<close>

definition field_label :: "u8 \<times> can_map \<Rightarrow> string" where
  "field_label = (\<lambda>(off, m).
     cm_name m @ ''         (offset: '' @ decimal (unat off) @ '', size: '' @ decimal (unat (cm_size m)) @
     '', range: '' @ int_decimal (cm_min m) @ '' - '' @ int_decimal (cm_max m) @ '')'')"

definition frame_data :: "u32 \<Rightarrow> bool \<Rightarrow> 'l can_handler \<Rightarrow> bytes option" where
  "frame_data fid is_rx h =
     (if is_rx then map_option rx_bytes (ch_rx h fid)
      else map_option te_data (FindTxCanEntryByFrame fid h))"

text \<open>The rows of the editor: a label, the value's text and the field.\<close>

fun field_rows :: "bytes \<Rightarrow> frame_fields \<Rightarrow> (string \<times> string \<times> can_map) list option" where
  "field_rows data [] = Some []"
| "field_rows data (f # fs) =
     (if bf_scalar (bits_of_field f) = ST_None then field_rows data fs
      else do {
        shown \<leftarrow> HandleBitReading data (bits_of_field f);
        rows \<leftarrow> field_rows data fs;
        Some ((field_label f, shown, snd f) # rows)
      })"

definition GetMapForFrameId ::
    "can_mapping \<Rightarrow> u32 \<Rightarrow> bool \<Rightarrow> 'l can_handler \<Rightarrow> (string \<times> string \<times> can_map) list option" where
  "GetMapForFrameId mapping fid is_rx h =
     (case map_of mapping fid of
        None \<Rightarrow> Some []
      | Some fs \<Rightarrow> (case frame_data fid is_rx h of None \<Rightarrow> Some [] | Some data \<Rightarrow> field_rows data fs))"

text \<open>\<open>uint8_t byte_array[8] = {}\<close> with the data copied into it.\<close>

definition byte_array_of :: "bytes \<Rightarrow> bytes" where
  "byte_array_of data = take 8 data @ replicate (8 - length data) 0"

definition ApplyEditingOnFrameId ::
    "can_mapping \<Rightarrow> u32 \<Rightarrow> string list \<Rightarrow> 'l can_handler \<Rightarrow> 'l can_handler option" where
  "ApplyEditingOnFrameId mapping fid new_data h =
     (let byte_array = byte_array_of (case FindTxCanEntryByFrame fid h of Some tx \<Rightarrow> te_data tx | None \<Rightarrow> [])
      in case map_of mapping fid of
           None \<Rightarrow> Some h
         | Some fs \<Rightarrow>
             map_option (\<lambda>buffer. AssignNewBufferToTxEntry fid buffer h)
               (apply_texts (map bits_of_field fs) new_data 0 byte_array))"

section \<open>Lemmas\<close>

lemma length_byte_array [simp]: "length (byte_array_of data) = 8"
  by (auto simp: byte_array_of_def)

lemma byte_array_of_short: "length data \<le> 8 \<Longrightarrow> byte_array_of data = data @ replicate (8 - length data) 0"
  by (simp add: byte_array_of_def)

lemma field_rows_texts:
  "map_option (map (fst \<circ> snd)) (field_rows data fs) = shown_texts data (map bits_of_field fs)"
proof (induction fs)
  case (Cons f fs)
  note IH = Cons [symmetric, unfolded shown_texts_def]
  show ?case
    by (cases "HandleBitReading data (bits_of_field f)"; cases "field_rows data fs") (auto simp: shown_texts_def IH)
qed (simp add: shown_texts_def)

lemma Find_update_first:
  "find (\<lambda>e. te_id e = fid) es = Some e \<Longrightarrow>
   find (\<lambda>e. te_id e = fid) (update_first (\<lambda>e. te_id e = fid) (\<lambda>e. e\<lparr>te_data := b\<rparr>) es) = Some (e\<lparr>te_data := b\<rparr>)"
  by (induction es) (auto split: if_splits)

lemma Find_after_assign:
  "FindTxCanEntryByFrame fid h = Some e \<Longrightarrow>
   FindTxCanEntryByFrame fid (AssignNewBufferToTxEntry fid b h) = Some (e\<lparr>te_data := b\<rparr>)"
  by (simp add: FindTxCanEntryByFrame_def AssignNewBufferToTxEntry_def Find_update_first)

lemma update_first_same:
  "find (\<lambda>e. te_id e = fid) es = Some e \<Longrightarrow> te_data e = b \<Longrightarrow>
   update_first (\<lambda>e. te_id e = fid) (\<lambda>e. e\<lparr>te_data := b\<rparr>) es = es"
  by (induction es) (auto split: if_splits)


lemma AssignNew_same:
  "FindTxCanEntryByFrame fid h = Some e \<Longrightarrow> te_data e = b \<Longrightarrow> AssignNewBufferToTxEntry fid b h = h"
  by (simp add: AssignNewBufferToTxEntry_def FindTxCanEntryByFrame_def update_first_same)

lemma field_rows_total: "\<exists>rows. field_rows data fs = Some rows"
  using shown_texts_total [of data "map bits_of_field fs"] field_rows_texts [of data fs] by auto

lemma those_Some_map: "those (map (Some \<circ> f) xs) = Some (map f xs)"
  by (induction xs) simp_all

lemma sint_word_of_int_small:
  "- (2 ^ (LENGTH('a) - 1)) \<le> k \<Longrightarrow> k < 2 ^ (LENGTH('a) - 1) \<Longrightarrow> sint (word_of_int k :: 'a::len word) = k"
  by (simp add: sint_sbintrunc' signed_take_bit_int_eq_self)

lemma zdiv_eq_minus_one: "- n \<le> k \<Longrightarrow> k < 0 \<Longrightarrow> k div n = - 1" for n :: int
  by (rule int_div_pos_eq [of _ _ _ "k + n"]) simp_all

section \<open>Editing and showing\<close>

text \<open>
  C27: What is typed into the bit editor is what it shows next.  For a frame whose fields lie
  in its eight bytes and do not overlap, applying one number per field that the field's type
  and size hold stores all of them: reading the frame back gives the same texts, whatever the
  frame held before and wherever the fields lie.  Only this transmit entry's data changes.
\<close>

theorem can_edit_is_shown:
  assumes "map_of mapping fid = Some fs" "FindTxCanEntryByFrame fid h = Some tx"
    and "\<forall>f \<in> set fs. inside 8 (bits_of_field f)" "sorted_wrt apart (map bits_of_field fs)" "length fs < 256"
    and "list_all2 (\<lambda>f k. holds_number (bits_of_field f) k) fs ks"
  shows "\<exists>buffer rows. length buffer = 8 \<and>
    ApplyEditingOnFrameId mapping fid (map int_decimal ks) h = Some (AssignNewBufferToTxEntry fid buffer h) \<and>
    GetMapForFrameId mapping fid False (AssignNewBufferToTxEntry fid buffer h) = Some rows \<and>
    map (fst \<circ> snd) rows = map int_decimal ks"
proof -
  have holds: "list_all2 holds_number (map bits_of_field fs) ks" using assms(6) by (simp add: list_all2_map1)
  obtain buffer where buffer: "apply_texts (map bits_of_field fs) (map int_decimal ks) 0 (byte_array_of (te_data tx)) = Some buffer"
      "length buffer = 8" "map (HandleBitReading buffer) (map bits_of_field fs) = map (Some \<circ> int_decimal) ks"
    using apply_numbers [OF holds, of "byte_array_of (te_data tx)" 0 "map int_decimal ks"] assms(3-5) by auto
  obtain rows where rows: "field_rows buffer fs = Some rows" using field_rows_total by blast
  have scalar: "filter (\<lambda>f. bf_scalar f \<noteq> ST_None) (map bits_of_field fs) = map bits_of_field fs"
    using holds by (induction rule: list_all2_induct) (auto simp: holds_number_def representable_def)
  have "Some (map (fst \<circ> snd) rows) = those (map (Some \<circ> int_decimal) ks)"
    using field_rows_texts [of buffer fs] rows buffer(3) unfolding shown_texts_def scalar by simp
  then have "map (fst \<circ> snd) rows = map int_decimal ks" unfolding those_Some_map by simp
  then show ?thesis
    using assms(1,2) buffer rows
    by (auto simp: ApplyEditingOnFrameId_def GetMapForFrameId_def frame_data_def Find_after_assign)
qed

definition shown_entry :: tx_entry where
  "shown_entry = new_tx_entry\<lparr>te_id := 0x123, te_data := [1, 2]\<rparr>"

definition shown_fields :: frame_fields where
  "shown_fields =
     [(0, \<lparr>cm_type = CBT_UI8, cm_name = ''gear'', cm_size = 8, cm_min = 0, cm_max = 255, cm_description = []\<rparr>),
      (8, \<lparr>cm_type = CBT_I16, cm_name = ''torque'', cm_size = 8, cm_min = 0, cm_max = 255, cm_description = []\<rparr>)]"

lemma shown_frame:
  "map_of [(0x123, shown_fields)] 0x123 = Some shown_fields"
  "FindTxCanEntryByFrame 0x123 (empty_can_handler\<lparr>ch_entries := [shown_entry]\<rparr>) = Some shown_entry"
  "te_data shown_entry = [1, 2]" "length shown_fields < 256"
  "\<forall>f \<in> set shown_fields. inside 8 (bits_of_field f)" "sorted_wrt apart (map bits_of_field shown_fields)"
  "list_all2 (\<lambda>f k. holds_number (bits_of_field f) k) shown_fields [200, 100]"
  "\<forall>f \<in> set shown_fields. unat (bf_size (bits_of_field f)) \<le> type_bits (bf_scalar (bits_of_field f)) \<and>
     whole_or_absent 2 (bits_of_field f)"
  by (simp_all add: shown_fields_def shown_entry_def new_tx_entry_def FindTxCanEntryByFrame_def bits_of_field_def
      inside_def apart_def holds_number_def representable_def whole_or_absent_def)

lemma can_edit_is_shown_witness:
  "\<exists>buffer rows. length buffer = 8 \<and>
    ApplyEditingOnFrameId [(0x123, shown_fields)] 0x123 [int_decimal 200, int_decimal 100]
        (empty_can_handler\<lparr>ch_entries := [shown_entry]\<rparr>) =
      Some (AssignNewBufferToTxEntry 0x123 buffer (empty_can_handler\<lparr>ch_entries := [shown_entry]\<rparr>)) \<and>
    GetMapForFrameId [(0x123, shown_fields)] 0x123 False
      (AssignNewBufferToTxEntry 0x123 buffer (empty_can_handler\<lparr>ch_entries := [shown_entry]\<rparr>)) = Some rows \<and>
    map (fst \<circ> snd) rows = [int_decimal 200, int_decimal 100]"
  using can_edit_is_shown [OF shown_frame(1,2,5,6,4,7)] by simp

text \<open>
  C28: Confirming the bit editor without a change keeps the frame.  For a payload of at most
  eight bytes and fields none of which is wider than its type and each of which lies wholly in
  the payload or wholly behind it, applying the texts that are shown, negative numbers, floating
  point numbers and numbers the parser refuses included, leaves every bit of the payload as it
  is.  A payload of less than eight bytes comes back padded with zeros to eight, so its length
  does change.  The loader also accepts a field that is wider than its type; such a field is
  shown narrowed and loses its upper bits.
\<close>

theorem can_reapply_keeps_frame:
  assumes "map_of mapping fid = Some fs" "FindTxCanEntryByFrame fid h = Some tx" "length (te_data tx) \<le> 8"
    and "\<forall>f \<in> set fs. unat (bf_size (bits_of_field f)) \<le> type_bits (bf_scalar (bits_of_field f)) \<and>
          whole_or_absent (length (te_data tx)) (bits_of_field f)"
    and "length fs < 256"
  shows "\<exists>rows. GetMapForFrameId mapping fid False h = Some rows \<and>
    ApplyEditingOnFrameId mapping fid (map (fst \<circ> snd) rows) h =
      Some (AssignNewBufferToTxEntry fid (te_data tx @ replicate (8 - length (te_data tx)) 0) h) \<and>
    (length (te_data tx) = 8 \<longrightarrow> ApplyEditingOnFrameId mapping fid (map (fst \<circ> snd) rows) h = Some h)"
proof -
  obtain rows where rows: "field_rows (te_data tx) fs = Some rows" using field_rows_total by blast
  then have texts: "shown_texts (te_data tx) (map bits_of_field fs) = Some (map (fst \<circ> snd) rows)"
    using field_rows_texts [of "te_data tx" fs] by simp
  have "apply_texts (map bits_of_field fs) (map (fst \<circ> snd) rows) 0 (byte_array_of (te_data tx)) =
      Some (te_data tx @ replicate (8 - length (te_data tx)) 0)"
    unfolding byte_array_of_short [OF assms(3)] using assms(4,5) texts by (intro apply_shown) auto
  then have "ApplyEditingOnFrameId mapping fid (map (fst \<circ> snd) rows) h =
      Some (AssignNewBufferToTxEntry fid (te_data tx @ replicate (8 - length (te_data tx)) 0) h)"
    using assms(1,2) by (simp add: ApplyEditingOnFrameId_def)
  moreover have "GetMapForFrameId mapping fid False h = Some rows"
    using assms(1,2) rows by (simp add: GetMapForFrameId_def frame_data_def)
  ultimately show ?thesis using AssignNew_same [OF assms(2)] by auto
qed

lemma can_reapply_keeps_frame_witness:
  "\<exists>rows. GetMapForFrameId [(0x123, shown_fields)] 0x123 False (empty_can_handler\<lparr>ch_entries := [shown_entry]\<rparr>) = Some rows \<and>
    ApplyEditingOnFrameId [(0x123, shown_fields)] 0x123 (map (fst \<circ> snd) rows) (empty_can_handler\<lparr>ch_entries := [shown_entry]\<rparr>) =
      Some (AssignNewBufferToTxEntry 0x123 [1, 2, 0, 0, 0, 0, 0, 0] (empty_can_handler\<lparr>ch_entries := [shown_entry]\<rparr>))"
proof -
  have "length (te_data shown_entry) \<le> 8" by (simp add: shown_frame(3))
  from can_reapply_keeps_frame [OF shown_frame(1,2) this _ shown_frame(4)] shown_frame(3,8)
  show ?thesis by (auto simp: eval_nat_numeral)
qed

text \<open>
  A signed field never takes a negative number.  Whatever the frame holds and wherever
  the field lies, a negative number of the field's signed type is widened with its sign to 64
  bits, is larger than every field of less than 64 bits and is refused without a message; the
  frame is as before, although the editor shows such fields as negative numbers.
\<close>

theorem negative_number_refused:
  assumes "cm_type m \<in> {CBT_I8, CBT_I16, CBT_I32, CBT_I64}" "unat (cm_size m) < 64"
    and "- (2 ^ (type_bits (ScalarTypeOf (cm_type m)) - 1)) \<le> k" "k < 0"
  shows "write_text 10 (bits_of_field (off, m)) byte_array (int_decimal k) = Some byte_array"
proof -
  let ?f = "bits_of_field (off, m)"
  have low: "- (2 ^ 63) \<le> k" using assms(1,3,4) by auto
  have cast: "cast_scalar (bf_scalar ?f) k = Some (word_of_int k)"
    using assms(1,3,4) by (auto simp: bits_of_field_def scast_eq sint_word_of_int_small)
  have "bit k 63" using low assms(4) by (simp add: bit_iff_odd zdiv_eq_minus_one)
  then have "bit (word_of_int k :: u64) 63" by (simp add: bit_word_of_int_iff)
  then have "\<not> (word_of_int k :: u64) \<le> bitmask (word_of_nat (unat (bf_size ?f)))"
    using bitmask_less [of "unat (bf_size ?f)" "word_of_int k" 63] assms(2) by (auto simp: bits_of_field_def)
  then have "set_bitfield (word_of_int k) (unat (bf_offset ?f)) (unat (bf_size ?f)) byte_array = Some (False, byte_array)"
    by (simp add: set_bitfield_def not_le)
  moreover have "TryParse (- (2 ^ 63)) (2 ^ 63 - 1) Whole 10 (int_decimal k) = Some k"
    using low assms(4) by (intro TryParse_int_decimal) simp_all
  ultimately show ?thesis by (simp add: write_text_def cast)
qed

lemma negative_number_refused_witness:
  "write_text 10 (bits_of_field (8, \<lparr>cm_type = CBT_I8, cm_name = ''torque'', cm_size = 8, cm_min = - 128,
     cm_max = 127, cm_description = []\<rparr>)) [1, 2] (int_decimal (- 5)) = Some [1, 2]"
  by (rule negative_number_refused) simp_all


section \<open>The dialog\<close>

text \<open>The bit editor has a fixed number of rows; further rows are dropped, and so are their texts.\<close>

definition kMaxBitFieldRows :: nat where
  "kMaxBitFieldRows = 32"

datatype number_base = NB_Decimal | NB_Hex | NB_Binary

definition output_text :: "number_base \<Rightarrow> string \<Rightarrow> string" where
  "output_text base t =
     (if base = NB_Decimal then t
      else case TryParse (- (2 ^ 63)) (2 ^ 63 - 1) Whole (if base = NB_Hex then 16 else 2) t of
             Some parsed \<Rightarrow> int_decimal parsed
           | None \<Rightarrow> t)"

definition GetOutput :: "number_base \<Rightarrow> string list \<Rightarrow> string list" where
  "GetOutput base inputs = map (output_text base) (take kMaxBitFieldRows inputs)"

text \<open>
  C29: A frame with more fields than the dialog has rows is edited outside of the texts.  The
  dialog shows 32 fields and returns their texts, in whatever base they are shown; the handler takes one text per field of the
  mapping without looking at how many there are, and reads past the end of the vector.  Flags
  of one bit, of which 64 fit into a frame, are enough.
\<close>

theorem too_many_fields_read_outside:
  assumes "map_of mapping fid = Some fs" "kMaxBitFieldRows < length fs" "length fs < 256"
    and "\<forall>f \<in> set fs. cm_type (snd f) \<noteq> CBT_INVALID"
  shows "ApplyEditingOnFrameId mapping fid (GetOutput base inputs) h = None"
proof -
  have "bf_scalar (bits_of_field f) \<noteq> ST_None" if "f \<in> set fs" for f
    using assms(4) that by (cases "cm_type (snd f)") (auto simp: bits_of_field_def case_prod_beta)
  then have "apply_texts (map bits_of_field fs) (GetOutput base inputs) 0 byte_array = None" for byte_array
    using assms(2,3) by (intro too_few_texts) (auto simp: GetOutput_def)
  then show ?thesis using assms(1) by (simp add: ApplyEditingOnFrameId_def)
qed

definition flag_fields :: frame_fields where
  "flag_fields = map (\<lambda>i. (word_of_nat i, \<lparr>cm_type = CBT_BOOL, cm_name = ''flag'', cm_size = 1, cm_min = 0, cm_max = 1,
     cm_description = []\<rparr>)) [0..<33]"

lemma too_many_fields_read_outside_witness:
  "ApplyEditingOnFrameId [(0x123, flag_fields)] 0x123 (GetOutput NB_Hex (replicate 33 ''1'')) (empty_can_handler\<lparr>ch_entries := [shown_entry]\<rparr>) = None"
proof (rule too_many_fields_read_outside)
  show "map_of [(0x123, flag_fields)] 0x123 = Some flag_fields" by simp
  show "kMaxBitFieldRows < length flag_fields" "length flag_fields < 256"
    by (simp_all add: flag_fields_def kMaxBitFieldRows_def)
  show "\<forall>f \<in> set flag_fields. cm_type (snd f) \<noteq> CBT_INVALID" by (auto simp: flag_fields_def)
qed

end
