(* ===== verification/CanScript.thy ===== *)
theory CanScript
  imports CanFields HexText
begin

text \<open>
  The scripts of the CAN panel.  Source: \<open>src/CanScriptHandler.cpp\<close> and
  \<open>src/CanScriptHandler.hpp\<close>.  What happens on other threads while a line of a script runs,
  frames on the bus and the abort button, is an argument: for each line the list of events, in
  order.  A line that blocks returns after the last of them, and waiting has succeeded if its
  condition holds then.  Each event is one step: the abort button clears the two maps of blocks
  without a lock while the script's thread may be using them, and such an overlap, a data race
  in the source, is not modelled.  The functions of Boost on texts are an argument; the lines written to
  the result panel are recorded with their fields, their wording is not modelled.  A result
  \<open>None\<close> is undefined behaviour.
\<close>

section \<open>The state\<close>

record can_frame_metadata =
  fm_name :: string
  fm_size :: u8
  fm_direction :: char

record script_lib =
  sl_trim_right :: "string \<Rightarrow> string"
  sl_split :: "string \<Rightarrow> string list"
  sl_unhex :: "string \<Rightarrow> bytes option"

text \<open>\<open>boost::split\<close> always stores at least one token.\<close>

definition split_documented :: "script_lib \<Rightarrow> bool" where
  "split_documented lib \<longleftrightarrow> (\<forall>line. sl_split lib line \<noteq> [])"

datatype script_line =
    UnknownFunction string
  | FieldSet string u32 nat bytes
  | RawSet string u32 bytes
  | FrameNotFound string
  | NothingSet
  | FrameSent string u32 nat bytes
  | WaitStart string nat u32
  | WaitOk string u32
  | WaitInvalid bytes bytes string u32
  | WaitAborted string u32
  | WaitTimeout string u32
  | SleepStart nat
  | SleepDone bool
  | Finished bool

record 'l script =
  sc_handler :: "'l can_handler"
  sc_mapping :: can_mapping
  sc_meta :: "(u32 \<times> can_frame_metadata) list"
  sc_frame_data :: "u32 \<Rightarrow> bytes option"
  sc_raw :: "u32 \<Rightarrow> bytes option"
  sc_aborted :: bool
  sc_waiting :: u32
  sc_received :: bool
  sc_waiting_data :: bytes
  sc_sent :: "(u32 \<times> bytes) list"
  sc_updated :: "(u32 \<times> bytes) list"
  sc_log :: "script_line list"

definition no_frame :: u32 where
  "no_frame = 0xFFFFFFFF"

definition AddToLog :: "script_line \<Rightarrow> 'l script \<Rightarrow> 'l script" where
  "AddToLog l s = s\<lparr>sc_log := sc_log s @ [l]\<rparr>"

section \<open>Other threads\<close>

datatype bus_event = BusFrame u32 bytes | BusAbort

definition OnFrameOnBus :: "u32 \<Rightarrow> bytes \<Rightarrow> 'l script \<Rightarrow> 'l script" where
  "OnFrameOnBus fid data s =
     (if sc_waiting s = fid \<and> sc_waiting s \<noteq> no_frame \<and> \<not> sc_received s
      then s\<lparr>sc_received := True, sc_waiting_data := data\<rparr> else s)"

definition AbortRunningScript :: "'l script \<Rightarrow> 'l script" where
  "AbortRunningScript s =
     s\<lparr>sc_aborted := True, sc_waiting := no_frame, sc_received := True, sc_raw := Map.empty, sc_frame_data := Map.empty\<rparr>"

fun happen :: "bus_event list \<Rightarrow> 'l script \<Rightarrow> 'l script" where
  "happen [] s = s"
| "happen (BusFrame fid data # evs) s = happen evs (OnFrameOnBus fid data s)"
| "happen (BusAbort # evs) s = happen evs (AbortRunningScript s)"

section \<open>The functions of a script\<close>

text \<open>\<open>params[n]\<close> and \<open>first(n)\<close> of a block: behind the end they are undefined.\<close>

definition param :: "string list \<Rightarrow> nat \<Rightarrow> string option" where
  "param params n = (if n < length params then Some (params ! n) else None)"

definition first_bytes :: "nat \<Rightarrow> bytes \<Rightarrow> bytes option" where
  "first_bytes n block = (if n \<le> length block then Some (take n block) else None)"

lemma param_inside [simp]: "n < length params \<Longrightarrow> param params n = Some (params ! n)"
  by (simp add: param_def)

lemma first_bytes_inside [simp]: "n \<le> length block \<Longrightarrow> first_bytes n block = Some (take n block)"
  by (simp add: first_bytes_def)

fun FindFrameIdByFieldName :: "can_mapping \<Rightarrow> string \<Rightarrow> u32" where
  "FindFrameIdByFieldName [] field_name = 0"
| "FindFrameIdByFieldName ((fid, fs) # mapping) field_name =
     (if \<exists>f \<in> set fs. cm_name (snd f) = field_name then fid else FindFrameIdByFieldName mapping field_name)"

definition FindFrameIdOnMapByName :: "(u32 \<times> can_frame_metadata) list \<Rightarrow> string \<Rightarrow> u32" where
  "FindFrameIdOnMapByName meta name =
     (case find (\<lambda>kv. fm_name (snd kv) = name) meta of Some kv \<Rightarrow> fst kv | None \<Rightarrow> 0)"

definition size_in_bytes :: "'l script \<Rightarrow> u32 \<Rightarrow> nat" where
  "size_in_bytes s fid =
     (case map_of (sc_meta s) fid of Some m \<Rightarrow> min (unat (fm_size m)) 8 | None \<Rightarrow> 8)"

text \<open>The loop over the fields of that name; the text is hexadecimal.\<close>

fun write_named :: "frame_fields \<Rightarrow> string \<Rightarrow> string \<Rightarrow> bytes \<Rightarrow> bytes option" where
  "write_named [] field_name new_data byte_array = Some byte_array"
| "write_named (f # fs) field_name new_data byte_array =
     (if cm_name (snd f) \<noteq> field_name \<or> bf_scalar (bits_of_field f) = ST_None
      then write_named fs field_name new_data byte_array
      else do {
        byte_array \<leftarrow> write_text 16 (bits_of_field f) byte_array new_data;
        write_named fs field_name new_data byte_array
      })"

definition ScriptApplyEditing :: "u32 \<Rightarrow> string \<Rightarrow> string \<Rightarrow> 'l script \<Rightarrow> 'l script option" where
  "ScriptApplyEditing fid field_name new_data s =
     (let byte_array = (case sc_frame_data s fid of Some a \<Rightarrow> a | None \<Rightarrow> replicate 8 0)
      in case map_of (sc_mapping s) fid of
           None \<Rightarrow> Some s
         | Some fs \<Rightarrow>
             map_option (\<lambda>a. s\<lparr>sc_frame_data := (sc_frame_data s)(fid \<mapsto> a),
                               sc_handler := AssignNewBufferToTxEntry fid a (sc_handler s),
                               sc_updated := sc_updated s @ [(fid, a)]\<rparr>)
               (write_named fs field_name new_data byte_array))"

definition SetFrameField :: "string list \<Rightarrow> 'l script \<Rightarrow> 'l script option" where
  "SetFrameField params s =
     (if length params \<noteq> 3 then Some s
      else do {
        field_name \<leftarrow> param params 1;
        frame_value \<leftarrow> param params 2;
        let fid = FindFrameIdByFieldName (sc_mapping s) field_name
        in if fid = 0 then Some s
           else do {
             s \<leftarrow> ScriptApplyEditing fid field_name frame_value s;
             let size = size_in_bytes s fid;
                 array_to_send = (case sc_frame_data s fid of Some a \<Rightarrow> a | None \<Rightarrow> replicate 8 0)
             in do {
                  shown \<leftarrow> first_bytes size array_to_send;
                  Some (AddToLog (FieldSet field_name fid size shown)
                    (s\<lparr>sc_frame_data := (sc_frame_data s)(fid \<mapsto> array_to_send)\<rparr>))
                }
           }
      })"

text \<open>\<open>ConvertHexStringToBuffer\<close> into an array of eight zeros.\<close>

definition hex_block :: "script_lib \<Rightarrow> string \<Rightarrow> bytes option" where
  "hex_block lib text =
     (case sl_unhex lib text of
        None \<Rightarrow> None
      | Some hash \<Rightarrow> if 8 < length hash then None else Some (hash @ replicate (8 - length hash) 0))"

definition SetFrameFieldRaw :: "script_lib \<Rightarrow> string list \<Rightarrow> 'l script \<Rightarrow> 'l script option" where
  "SetFrameFieldRaw lib params s =
     (if length params \<noteq> 3 then Some s
      else do {
        field_name \<leftarrow> param params 1;
        given \<leftarrow> param params 2;
        let frame_value = (if starts_with given ''0x'' then drop 2 given else given);
            fid = FindFrameIdByFieldName (sc_mapping s) field_name
        in if fid = 0 then Some s
           else if 16 < length frame_value then Some s
           else
             case hex_block lib (if odd (length frame_value) then frame_value @ ''0'' else frame_value) of
               None \<Rightarrow> Some s
             | Some array_to_send \<Rightarrow>
                 Some (AddToLog (RawSet field_name fid array_to_send)
                   (s\<lparr>sc_raw := (sc_raw s)(fid \<mapsto> array_to_send)\<rparr>))
      })"

definition SendFrame :: "string list \<Rightarrow> 'l script \<Rightarrow> 'l script option" where
  "SendFrame params s =
     (if length params \<noteq> 2 then Some s
      else do {
        frame_name \<leftarrow> param params 1;
        let fid = FindFrameIdOnMapByName (sc_meta s) frame_name; size = size_in_bytes s fid
        in if fid = 0 then Some (AddToLog (FrameNotFound frame_name) s)
           else case sc_frame_data s fid of
             Some data \<Rightarrow> do {
               to_send \<leftarrow> first_bytes size data;
               Some (AddToLog (FrameSent frame_name fid size to_send) (s\<lparr>sc_sent := sc_sent s @ [(fid, to_send)]\<rparr>))
             }
           | None \<Rightarrow>
               (case sc_raw s fid of
                  Some data \<Rightarrow>
                    Some (AddToLog (FrameSent frame_name fid size data) (s\<lparr>sc_sent := sc_sent s @ [(fid, data)]\<rparr>))
                | None \<Rightarrow> Some (AddToLog NothingSet s))
      })"

definition TryParse_u32 :: "string \<Rightarrow> int option" where
  "TryParse_u32 text = TryParse 0 (2 ^ 32 - 1) Whole 10 text"

text \<open>What follows the wait: the verdict, and nothing is waited for or expected any more.\<close>

definition finish_wait :: "string \<Rightarrow> u32 \<Rightarrow> 'l script \<Rightarrow> 'l script" where
  "finish_wait field_name fid s =
     (let ret = (sc_received s \<or> sc_aborted s);
          expected = (case sc_raw s fid of Some b \<Rightarrow> b | None \<Rightarrow> []);
          verdict =
            (if ret \<and> sc_received s \<and> \<not> sc_aborted s then
               (if expected = sc_waiting_data s then WaitOk field_name fid
                else WaitInvalid (sc_waiting_data s) expected field_name fid)
             else if ret then WaitAborted field_name fid
             else WaitTimeout field_name fid)
      in (AddToLog verdict s)\<lparr>sc_waiting := no_frame, sc_received := False, sc_raw := (sc_raw s)(fid := None)\<rparr>)"

definition WaitForFrame :: "string list \<Rightarrow> bus_event list \<Rightarrow> 'l script \<Rightarrow> 'l script option" where
  "WaitForFrame params evs s =
     (if length params \<noteq> 3 then Some (happen evs s)
      else do {
        field_name \<leftarrow> param params 1;
        timeout \<leftarrow> param params 2;
        case TryParse_u32 timeout of
          None \<Rightarrow> Some (happen evs s)
        | Some wait_ms \<Rightarrow>
            let fid = FindFrameIdByFieldName (sc_mapping s) field_name
            in if fid = 0 then Some (happen evs s)
               else
                 let s = AddToLog (WaitStart field_name (nat wait_ms) fid) s
                 in Some (finish_wait field_name fid (happen evs (s\<lparr>sc_waiting := fid, sc_received := False\<rparr>)))
      })"

definition Sleep :: "string list \<Rightarrow> bus_event list \<Rightarrow> 'l script \<Rightarrow> 'l script option" where
  "Sleep params evs s =
     (if length params \<noteq> 2 then Some (happen evs s)
      else do {
        duration \<leftarrow> param params 1;
        case TryParse_u32 duration of
          None \<Rightarrow> Some (happen evs s)
        | Some sleep_ms \<Rightarrow>
            let s = happen evs (AddToLog (SleepStart (nat sleep_ms)) s)
            in Some (AddToLog (SleepDone (sc_aborted s)) s)
      })"

section \<open>Running a script\<close>

text \<open>The lines \<open>std::getline\<close> reads.\<close>

function getlines :: "string \<Rightarrow> string list" where
  "getlines text =
     (if text = [] then []
      else takeWhile (\<lambda>c. c \<noteq> CHR 0x0A) text # getlines (drop 1 (dropWhile (\<lambda>c. c \<noteq> CHR 0x0A) text)))"
  by pat_completeness auto
termination
proof (relation "measure length")
  fix t :: string assume "t \<noteq> []"
  moreover have "length (dropWhile (\<lambda>c. c \<noteq> CHR 0x0A) t) \<le> length t" by (rule length_dropWhile_le)
  ultimately show "(drop 1 (dropWhile (\<lambda>c. c \<noteq> CHR 0x0A) t), t) \<in> measure length"
    by (cases t) (auto simp: le_Suc_eq)
qed simp

declare getlines.simps [simp del]

definition execute_line :: "script_lib \<Rightarrow> string \<Rightarrow> bus_event list \<Rightarrow> 'l script \<Rightarrow> 'l script option" where
  "execute_line lib line evs s =
     (let params = sl_split lib (sl_trim_right lib line)
      in case params of
           [] \<Rightarrow> None
         | operand # _ \<Rightarrow>
             if starts_with operand ''#'' \<or> operand = [] then Some (happen evs s)
             else if operand = ''SetFrameField'' then map_option (happen evs) (SetFrameField params s)
             else if operand = ''SetFrameFieldRaw'' then map_option (happen evs) (SetFrameFieldRaw lib params s)
             else if operand = ''SendFrame'' then map_option (happen evs) (SendFrame params s)
             else if operand = ''WaitForFrame'' then WaitForFrame params evs s
             else if operand = ''Sleep'' then Sleep params evs s
             else Some (happen evs (AddToLog (UnknownFunction operand) s)))"

fun execute_lines :: "script_lib \<Rightarrow> string list \<Rightarrow> bus_event list list \<Rightarrow> 'l script \<Rightarrow> 'l script option" where
  "execute_lines lib [] env s = Some s"
| "execute_lines lib (line # rest) env s =
     (if sc_aborted s then Some s
      else do {
        s \<leftarrow> execute_line lib line (case env of [] \<Rightarrow> [] | evs # _ \<Rightarrow> evs) s;
        execute_lines lib rest (drop 1 env) s
      })"

definition ExecuteScript :: "script_lib \<Rightarrow> string \<Rightarrow> bus_event list list \<Rightarrow> 'l script \<Rightarrow> 'l script option" where
  "ExecuteScript lib text env s =
     map_option (\<lambda>s. (AddToLog (Finished (sc_aborted s)) s)\<lparr>sc_aborted := False\<rparr>)
       (execute_lines lib (getlines text) env s)"


section \<open>Every script runs to its end\<close>

lemma set_bitfield_total:
  "n < 65536 \<Longrightarrow> \<exists>ok dst'. set_bitfield v off n dst = Some (ok, dst') \<and> length dst' = length dst"
proof (cases "0 < n \<and> n \<le> 64 \<and> v \<le> bitmask (word_of_nat n) \<and> off + n \<le> 8 * length dst")
  case True
  then show ?thesis using set_bitfield_fits [of n v off dst] copied_length by blast
next
  case False
  then show "n < 65536 \<Longrightarrow> ?thesis" using set_bitfield_refused by blast
qed

definition no_float :: "u8 \<times> can_map \<Rightarrow> bool" where
  "no_float f \<longleftrightarrow> cm_type (snd f) \<noteq> CBT_FLOAT \<and> cm_type (snd f) \<noteq> CBT_DOUBLE"

lemma write_text_total:
  assumes "no_float f" "bf_scalar (bits_of_field f) \<noteq> ST_None"
  shows "\<exists>a'. write_text base (bits_of_field f) a t = Some a' \<and> length a' = length a"
proof -
  have "\<exists>v. cast_scalar (bf_scalar (bits_of_field f)) k = Some v" for k
    using assms by (cases "cm_type (snd f)") (auto simp: no_float_def bits_of_field_def case_prod_beta)
  then show ?thesis
  proof (cases "TryParse (- (2 ^ 63)) (2 ^ 63 - 1) Whole base t")
    case (Some k)
    obtain v ok a' where "cast_scalar (bf_scalar (bits_of_field f)) k = Some v"
        "set_bitfield v (unat (bf_offset (bits_of_field f))) (unat (bf_size (bits_of_field f))) a = Some (ok, a')" "length a' = length a"
      using \<open>\<And>k. \<exists>v. cast_scalar (bf_scalar (bits_of_field f)) k = Some v\<close> set_bitfield_total [OF size_less] by metis
    then show ?thesis using Some by (simp add: write_text_def)
  qed (simp add: write_text_def)
qed

lemma write_named_total:
  "\<forall>f \<in> set fs. no_float f \<Longrightarrow> \<exists>a'. write_named fs field_name t a = Some a' \<and> length a' = length a"
proof (induction fs arbitrary: a)
  case (Cons f fs)
  then show ?case using write_text_total [of f 16 a t] by (cases "bf_scalar (bits_of_field f) = ST_None") force+
qed simp

text \<open>
  The blocks have eight bytes, what was sent was the frame of a named id with at most eight
  bytes, nothing is waited for, and no field is a floating point number.
\<close>

definition blocks_ok :: "'l script \<Rightarrow> bool" where
  "blocks_ok s \<longleftrightarrow>
     (\<forall>fid a. sc_frame_data s fid = Some a \<longrightarrow> length a = 8) \<and> (\<forall>fid a. sc_raw s fid = Some a \<longrightarrow> length a = 8)"

definition sent_ok :: "'l script \<Rightarrow> bool" where
  "sent_ok s \<longleftrightarrow> (\<forall>x \<in> set (sc_sent s). fst x \<in> fst ` set (sc_meta s) \<and> fst x \<noteq> 0 \<and> length (snd x) \<le> 8)"

definition mapping_ok :: "can_mapping \<Rightarrow> bool" where
  "mapping_ok mapping \<longleftrightarrow> (\<forall>m \<in> set mapping. \<forall>f \<in> set (snd m). no_float f)"

definition script_inv :: "'l script \<Rightarrow> bool" where
  "script_inv s \<longleftrightarrow> blocks_ok s \<and> sent_ok s \<and> mapping_ok (sc_mapping s) \<and> sc_waiting s = no_frame"

lemma OnFrameOnBus_idle [simp]: "sc_waiting s = no_frame \<Longrightarrow> OnFrameOnBus fid data s = s"
  by (simp add: OnFrameOnBus_def)

lemma blocks_ok_event [simp]:
  "blocks_ok s \<Longrightarrow> blocks_ok (OnFrameOnBus fid data s)" "blocks_ok (AbortRunningScript s)"
  by (auto simp: OnFrameOnBus_def AbortRunningScript_def blocks_ok_def)

lemma event_keeps [simp]:
  "sc_sent (OnFrameOnBus fid data s) = sc_sent s" "sc_sent (AbortRunningScript s) = sc_sent s"
  "sc_meta (OnFrameOnBus fid data s) = sc_meta s" "sc_meta (AbortRunningScript s) = sc_meta s"
  "sc_mapping (OnFrameOnBus fid data s) = sc_mapping s" "sc_mapping (AbortRunningScript s) = sc_mapping s"
  "sc_log (OnFrameOnBus fid data s) = sc_log s" "sc_log (AbortRunningScript s) = sc_log s"
  by (simp_all add: OnFrameOnBus_def AbortRunningScript_def)

lemma blocks_ok_happen: "blocks_ok s \<Longrightarrow> blocks_ok (happen evs s)"
  by (induction evs s rule: happen.induct) simp_all

lemma happen_keeps [simp]:
  "sc_sent (happen evs s) = sc_sent s" "sc_meta (happen evs s) = sc_meta s"
  "sc_mapping (happen evs s) = sc_mapping s" "sc_log (happen evs s) = sc_log s"
  by (induction evs s rule: happen.induct) simp_all

lemma happen_idle: "sc_waiting s = no_frame \<Longrightarrow> sc_waiting (happen evs s) = no_frame"
  by (induction evs s rule: happen.induct) (simp_all add: AbortRunningScript_def)

lemma script_inv_happen [simp]: "script_inv s \<Longrightarrow> script_inv (happen evs s)"
  by (simp add: script_inv_def sent_ok_def blocks_ok_happen happen_idle)

lemma script_inv_log [simp]: "script_inv (AddToLog l s) = script_inv s"
  by (simp add: script_inv_def blocks_ok_def sent_ok_def AddToLog_def)

lemma find_in: "find P xs = Some x \<Longrightarrow> x \<in> set xs"
  by (induction xs) (auto split: if_splits)

lemma named_frame: "FindFrameIdOnMapByName meta name \<noteq> 0 \<Longrightarrow> FindFrameIdOnMapByName meta name \<in> fst ` set meta"
  by (force simp: FindFrameIdOnMapByName_def dest: find_in split: option.splits)

lemma size_in_bytes_le: "size_in_bytes s fid \<le> 8"
  by (simp add: size_in_bytes_def split: option.splits)

lemma SendFrame_inv:
  assumes "script_inv s"
  shows "\<exists>s'. SendFrame params s = Some s' \<and> script_inv s'"
proof -
  let ?fid = "FindFrameIdOnMapByName (sc_meta s) (params ! 1)"
  have blocks: "length a = 8" if "sc_frame_data s fid = Some a \<or> sc_raw s fid = Some a" for fid a
    using that assms by (auto simp: script_inv_def blocks_ok_def)
  have sent: "script_inv (s\<lparr>sc_sent := sc_sent s @ [(?fid, data)]\<rparr>)" if "?fid \<noteq> 0" "length data \<le> 8" for data
    using that assms named_frame by (auto simp: script_inv_def blocks_ok_def sent_ok_def)
  have "script_inv (s\<lparr>sc_sent := sc_sent s @ [(?fid, take (size_in_bytes s ?fid) data)]\<rparr>)" if "?fid \<noteq> 0" for data
    using that size_in_bytes_le [of s ?fid] by (intro sent) auto
  moreover have "first_bytes (size_in_bytes s ?fid) data = Some (take (size_in_bytes s ?fid) data)" if "sc_frame_data s ?fid = Some data" for data
    using blocks [of ?fid data] that size_in_bytes_le [of s ?fid] by simp
  moreover have "script_inv (s\<lparr>sc_sent := sc_sent s @ [(?fid, data)]\<rparr>)" if "?fid \<noteq> 0" "sc_raw s ?fid = Some data" for data
    using that blocks [of ?fid data] by (intro sent) auto
  ultimately show ?thesis using assms
    by (simp add: SendFrame_def Let_def split: option.splits)
qed

lemma SetFrameFieldRaw_inv:
  assumes "script_inv s"
  shows "\<exists>s'. SetFrameFieldRaw lib params s = Some s' \<and> script_inv s'"
proof -
  have "length b = 8" if "hex_block lib t = Some b" for t b
    using that by (auto simp: hex_block_def split: option.splits if_splits)
  then show ?thesis using assms
    by (auto simp: SetFrameFieldRaw_def Let_def script_inv_def blocks_ok_def sent_ok_def AddToLog_def split: option.splits)
qed

lemma mapping_ok_fields: "mapping_ok mapping \<Longrightarrow> map_of mapping fid = Some fs \<Longrightarrow> \<forall>f \<in> set fs. no_float f"
  by (force simp: mapping_ok_def dest: map_of_SomeD)

lemma ScriptApplyEditing_inv:
  assumes "script_inv s"
  shows "\<exists>s'. ScriptApplyEditing fid field_name t s = Some s' \<and> script_inv s'"
proof (cases "map_of (sc_mapping s) fid")
  case (Some fs)
  let ?a = "case sc_frame_data s fid of Some a \<Rightarrow> a | None \<Rightarrow> replicate 8 0"
  have "length ?a = 8" using assms by (auto simp: script_inv_def blocks_ok_def split: option.splits)
  moreover have "\<forall>f \<in> set fs. no_float f" using mapping_ok_fields [OF _ Some] assms by (simp add: script_inv_def)
  ultimately obtain a' where a': "write_named fs field_name t ?a = Some a'" "length a' = 8"
    using write_named_total [of fs field_name t ?a] by auto
  then show ?thesis using Some assms
    by (auto simp: ScriptApplyEditing_def Let_def script_inv_def blocks_ok_def sent_ok_def)
qed (use assms in \<open>simp add: ScriptApplyEditing_def\<close>)

lemma SetFrameField_inv:
  assumes "script_inv s"
  shows "\<exists>s'. SetFrameField params s = Some s' \<and> script_inv s'"
proof (cases "length params = 3 \<and> FindFrameIdByFieldName (sc_mapping s) (params ! 1) \<noteq> 0")
  case True
  define fid where "fid = FindFrameIdByFieldName (sc_mapping s) (params ! 1)"
  obtain s1 where s1: "ScriptApplyEditing fid (params ! 1) (params ! 2) s = Some s1" "script_inv s1"
    using ScriptApplyEditing_inv [OF assms] by blast
  let ?a = "case sc_frame_data s1 fid of Some a \<Rightarrow> a | None \<Rightarrow> replicate 8 0"
  have a: "length ?a = 8" using s1(2) by (auto simp: script_inv_def blocks_ok_def split: option.splits)
  then have "first_bytes (size_in_bytes s1 fid) ?a = Some (take (size_in_bytes s1 fid) ?a)"
    using size_in_bytes_le [of s1 fid] by simp
  then have "SetFrameField params s = Some (AddToLog (FieldSet (params ! 1) fid (size_in_bytes s1 fid) (take (size_in_bytes s1 fid) ?a))
      (s1\<lparr>sc_frame_data := (sc_frame_data s1)(fid \<mapsto> ?a)\<rparr>))"
    using True s1(1) by (simp add: SetFrameField_def Let_def fid_def)
  moreover have "script_inv (s1\<lparr>sc_frame_data := (sc_frame_data s1)(fid \<mapsto> ?a)\<rparr>)"
    using s1(2) a by (auto simp: script_inv_def blocks_ok_def sent_ok_def)
  ultimately show ?thesis by simp
qed (use assms in \<open>auto simp: SetFrameField_def\<close>)

lemma AddToLog_keeps [simp]:
  "sc_sent (AddToLog l s) = sc_sent s" "sc_meta (AddToLog l s) = sc_meta s" "sc_mapping (AddToLog l s) = sc_mapping s"
  "sc_raw (AddToLog l s) = sc_raw s" "sc_frame_data (AddToLog l s) = sc_frame_data s"
  "sc_aborted (AddToLog l s) = sc_aborted s" "sc_waiting (AddToLog l s) = sc_waiting s"
  "sc_received (AddToLog l s) = sc_received s" "sc_waiting_data (AddToLog l s) = sc_waiting_data s" "sc_log (AddToLog l s) = sc_log s @ [l]"
  by (simp_all add: AddToLog_def)

lemma script_inv_wait [simp]:
  assumes "script_inv s"
  shows "script_inv (finish_wait field_name fid (happen evs (AddToLog l s\<lparr>sc_waiting := fid', sc_received := False\<rparr>)))"
proof -
  have "blocks_ok (happen evs (AddToLog l s\<lparr>sc_waiting := fid', sc_received := False\<rparr>))"
    using assms by (intro blocks_ok_happen) (simp add: script_inv_def blocks_ok_def)
  then show ?thesis using assms by (simp add: finish_wait_def Let_def script_inv_def sent_ok_def blocks_ok_def)
qed

text \<open>A line does not fail and keeps the invariant.\<close>

definition runs :: "'l script option \<Rightarrow> bool" where
  "runs r \<longleftrightarrow> (\<exists>s'. r = Some s' \<and> script_inv s')"

lemma runs_Some [simp]: "runs (Some s) = script_inv s"
  by (simp add: runs_def)

lemma runs_happen: "runs r \<Longrightarrow> runs (map_option (happen evs) r)"
  by (auto simp: runs_def)

lemma WaitForFrame_runs: "script_inv s \<Longrightarrow> runs (WaitForFrame params evs s)"
  by (simp add: WaitForFrame_def Let_def split: option.splits)

lemma Sleep_runs: "script_inv s \<Longrightarrow> runs (Sleep params evs s)"
  by (simp add: Sleep_def Let_def split: option.splits)

lemma execute_line_runs:
  assumes "script_inv s" "split_documented lib"
  shows "runs (execute_line lib line evs s)"
proof -
  obtain operand rest where params: "sl_split lib (sl_trim_right lib line) = operand # rest"
    using assms(2) by (cases "sl_split lib (sl_trim_right lib line)") (auto simp: split_documented_def)
  note ops = SetFrameField_inv [OF assms(1), folded runs_def] SetFrameFieldRaw_inv [OF assms(1), folded runs_def]
    SendFrame_inv [OF assms(1), folded runs_def] WaitForFrame_runs [OF assms(1)] Sleep_runs [OF assms(1)]
  show ?thesis unfolding execute_line_def params Let_def list.case
    by (simp add: ops assms(1) runs_happen)
qed

lemma execute_lines_inv:
  assumes "split_documented lib"
  shows "script_inv s \<Longrightarrow> \<exists>s'. execute_lines lib lines env s = Some s' \<and> script_inv s'"
proof (induction lines arbitrary: env s)
  case (Cons line lines)
  obtain s' where "execute_line lib line (case env of [] \<Rightarrow> [] | evs # _ \<Rightarrow> evs) s = Some s'" "script_inv s'"
    using execute_line_runs [OF Cons.prems assms] unfolding runs_def by blast
  then show ?case using Cons.IH [of s' "drop 1 env"] Cons.prems by auto
qed simp

text \<open>
  C31: A script always runs to its end, whatever it says and whatever happens on the bus
  meanwhile, frames and aborts one after the other.  No line reads outside of its parameters or
  of a block (either would be \<open>None\<close>); every frame that is sent is one the metadata name, with
  at most eight bytes; and afterwards nothing is waited for and the abort flag is down, so the
  next script can run.  The mapping has no floating point fields, whose negative values have no
  conversion, and the splitting of a line gives at least one token, as documented.
\<close>

theorem script_runs_to_its_end:
  assumes "script_inv s" "split_documented lib"
  shows "\<exists>s'. ExecuteScript lib t env s = Some s' \<and> script_inv s' \<and> \<not> sc_aborted s'"
proof -
  obtain s' where s': "execute_lines lib (getlines t) env s = Some s'" "script_inv s'"
    using execute_lines_inv [OF assms(2,1)] by blast
  have "script_inv (AddToLog l s'\<lparr>sc_aborted := False\<rparr>)" for l
    using s'(2) by (simp add: script_inv_def blocks_ok_def sent_ok_def)
  then show ?thesis using s'(1) by (simp add: ExecuteScript_def)
qed


section \<open>Waiting for a frame\<close>

fun arrivals :: "u32 \<Rightarrow> bus_event list \<Rightarrow> bytes list" where
  "arrivals fid [] = []"
| "arrivals fid (BusFrame f d # evs) = (if f = fid then d # arrivals fid evs else arrivals fid evs)"
| "arrivals fid (BusAbort # evs) = arrivals fid evs"

lemma happen_received: "sc_received s \<Longrightarrow> BusAbort \<notin> set evs \<Longrightarrow> happen evs s = s"
  by (induction evs s rule: happen.induct) (simp_all add: OnFrameOnBus_def)

lemma OnFrameOnBus_other: "fid \<noteq> sc_waiting s \<Longrightarrow> OnFrameOnBus fid d s = s"
  by (simp add: OnFrameOnBus_def)

lemma happen_waiting:
  "sc_waiting s = fid \<Longrightarrow> fid \<noteq> no_frame \<Longrightarrow> \<not> sc_received s \<Longrightarrow> BusAbort \<notin> set evs \<Longrightarrow>
   happen evs s = (case arrivals fid evs of [] \<Rightarrow> s | d # _ \<Rightarrow> s\<lparr>sc_received := True, sc_waiting_data := d\<rparr>)"
proof (induction evs s rule: happen.induct)
  case (2 f d evs s)
  show ?case
  proof (cases "f = fid")
    case True
    then have "OnFrameOnBus f d s = s\<lparr>sc_received := True, sc_waiting_data := d\<rparr>"
      using "2.prems" by (simp add: OnFrameOnBus_def)
    then show ?thesis using True "2.prems" by (simp add: happen_received)
  next
    case False
    then have "OnFrameOnBus f d s = s" using "2.prems" by (intro OnFrameOnBus_other) simp
    then show ?thesis using False 2 by (simp split: list.splits)
  qed
qed simp_all

text \<open>
  C32: The verdict of \<open>WaitForFrame\<close>.  Without an abort it is decided by the first frame of
  the awaited id that is on the bus while the line waits: none gives a time-out, one that
  equals the block \<open>SetFrameFieldRaw\<close> prepared is accepted, any other is reported with both
  payloads.  The block has eight bytes, so a shorter frame is never accepted.  Other frames,
  and later ones, play no part, and the block is used up.  The documentation says that the line
  waits until a frame with the given data appears; a later frame with that data is not waited
  for.
\<close>

theorem wait_for_frame_verdict:
  assumes "script_inv s" "\<not> sc_aborted s" "BusAbort \<notin> set evs"
    and "length params = 3" "TryParse_u32 (params ! 2) = Some ms"
    and "FindFrameIdByFieldName (sc_mapping s) (params ! 1) = fid" "fid \<noteq> 0" "fid \<noteq> no_frame"
    and "sc_raw s fid = Some expected"
  shows "\<exists>s'. WaitForFrame params evs s = Some s' \<and>
    sc_log s' = sc_log s @ [WaitStart (params ! 1) (nat ms) fid,
      (case arrivals fid evs of
         [] \<Rightarrow> WaitTimeout (params ! 1) fid
       | d # _ \<Rightarrow> if d = expected then WaitOk (params ! 1) fid else WaitInvalid d expected (params ! 1) fid)] \<and>
    (\<forall>d ds. arrivals fid evs = d # ds \<and> length d < 8 \<longrightarrow> last (sc_log s') = WaitInvalid d expected (params ! 1) fid) \<and>
    sc_raw s' = (sc_raw s)(fid := None) \<and> sc_waiting s' = no_frame"
proof -
  let ?u = "AddToLog (WaitStart (params ! 1) (nat ms) fid) s\<lparr>sc_waiting := fid, sc_received := False\<rparr>"
  have h: "happen evs ?u = (case arrivals fid evs of [] \<Rightarrow> ?u | d # _ \<Rightarrow> ?u\<lparr>sc_received := True, sc_waiting_data := d\<rparr>)"
    using assms(3,8) by (intro happen_waiting) simp_all
  have w: "WaitForFrame params evs s = Some (finish_wait (params ! 1) fid (happen evs ?u))"
    using assms(4-7) by (simp add: WaitForFrame_def Let_def)
  have "length expected = 8" using assms(1,9) by (simp add: script_inv_def blocks_ok_def)
  then show ?thesis using assms(2,9) unfolding w h
    by (cases "arrivals fid evs") (auto simp: finish_wait_def)
qed

section \<open>The abort button\<close>

text \<open>
  An abort while no script runs stops the next one.  The flag that the button sets is
  lowered only at the end of a script, so the script started next executes none of its lines,
  sends nothing and reports that it was aborted; only the script after it runs.
\<close>

theorem idle_abort_stops_the_next_script:
  "\<exists>s'. ExecuteScript lib t env (AbortRunningScript s) = Some s' \<and>
    sc_sent s' = sc_sent s \<and> sc_log s' = sc_log s @ [Finished True] \<and> \<not> sc_aborted s'"
proof -
  have "execute_lines lib (getlines t) env (AbortRunningScript s) = Some (AbortRunningScript s)"
    by (cases "getlines t") (simp_all add: AbortRunningScript_def)
  then show ?thesis by (simp add: ExecuteScript_def) (simp add: AbortRunningScript_def)
qed

section \<open>Setting a field and sending the frame\<close>

lemma FindFrameIdByFieldName_fields:
  assumes "FindFrameIdByFieldName mapping field_name = fid" "fid \<noteq> 0"
  shows "\<exists>fs. map_of mapping fid = Some fs"
  using assms by (induction mapping field_name rule: FindFrameIdByFieldName.induct) (auto split: if_splits)

lemma write_named_none: "\<forall>f \<in> set fs. cm_name (snd f) \<noteq> field_name \<Longrightarrow> write_named fs field_name t a = Some a"
  by (induction fs) auto

lemma write_named_one:
  assumes "filter (\<lambda>f. cm_name (snd f) = field_name) fs = [f]" "bf_scalar (bits_of_field f) \<noteq> ST_None"
  shows "write_named fs field_name t a = write_text 16 (bits_of_field f) a t"
  using assms(1)
proof (induction fs)
  case (Cons g fs)
  show ?case
  proof (cases "cm_name (snd g) = field_name")
    case True
    then have "g = f" "\<forall>f \<in> set fs. cm_name (snd f) \<noteq> field_name" using Cons.prems by (auto simp: filter_empty_conv)
    then show ?thesis using True assms(2) by (cases "write_text 16 (bits_of_field f) a t") (auto simp: write_named_none)
  next
    case False
    then show ?thesis using Cons by simp
  qed
qed simp

text \<open>The block that a script has prepared for a frame.\<close>

definition block_of :: "'l script \<Rightarrow> u32 \<Rightarrow> bytes" where
  "block_of s fid = (case sc_frame_data s fid of Some a \<Rightarrow> a | None \<Rightarrow> replicate 8 0)"

lemma SetFrameField_block:
  assumes "length params = 3" "FindFrameIdByFieldName (sc_mapping s) (params ! 1) = fid" "fid \<noteq> 0"
    and "map_of (sc_mapping s) fid = Some fs" "write_named fs (params ! 1) (params ! 2) (block_of s fid) = Some a"
    and "8 \<le> length a"
  shows "\<exists>s'. SetFrameField params s = Some s' \<and> sc_frame_data s' = (sc_frame_data s)(fid \<mapsto> a) \<and>
    sc_meta s' = sc_meta s \<and> sc_sent s' = sc_sent s \<and>
    sc_handler s' = AssignNewBufferToTxEntry fid a (sc_handler s) \<and> sc_updated s' = sc_updated s @ [(fid, a)]"
proof -
  have "ScriptApplyEditing fid (params ! 1) (params ! 2) s =
      Some (s\<lparr>sc_frame_data := (sc_frame_data s)(fid \<mapsto> a), sc_handler := AssignNewBufferToTxEntry fid a (sc_handler s),
              sc_updated := sc_updated s @ [(fid, a)]\<rparr>)"
    using assms(4,5) by (simp add: ScriptApplyEditing_def block_of_def Let_def)
  moreover have "size_in_bytes s' fid \<le> length a" for s' :: "'a script"
    using assms(6) size_in_bytes_le [of s' fid] by simp
  ultimately show ?thesis using assms(1-3) by (simp add: SetFrameField_def Let_def AddToLog_def)
qed

text \<open>
  C30: A script sends what it sets.  \<open>SetFrameField\<close> with a hexadecimal number that the named
  field holds, followed by \<open>SendFrame\<close> of its frame, sends one frame: the block of that frame
  with the number in the field and every other field as the script left it before, cut to the
  size the metadata give.  The transmit entry and the panel get the same block.
\<close>

theorem script_field_is_sent:
  assumes "script_inv s" "FindFrameIdByFieldName (sc_mapping s) field_name = fid" "fid \<noteq> 0"
    and "map_of (sc_mapping s) fid = Some fs" "filter (\<lambda>f. cm_name (snd f) = field_name) fs = [f]"
    and "inside 8 (bits_of_field f)" "holds_number (bits_of_field f) k"
    and "TryParse (- (2 ^ 63)) (2 ^ 63 - 1) Whole 16 hex = Some k"
    and "FindFrameIdOnMapByName (sc_meta s) frame_name = fid"
  shows "\<exists>a s1 s2. SetFrameField [''SetFrameField'', field_name, hex] s = Some s1 \<and>
    SendFrame [''SendFrame'', frame_name] s1 = Some s2 \<and>
    sc_sent s2 = sc_sent s @ [(fid, take (size_in_bytes s fid) a)] \<and> length a = 8 \<and>
    HandleBitReading a (bits_of_field f) = Some (int_decimal k) \<and>
    (\<forall>g. inside 8 g \<and> apart (bits_of_field f) g \<longrightarrow> HandleBitReading a g = HandleBitReading (block_of s fid) g) \<and>
    sc_handler s1 = AssignNewBufferToTxEntry fid a (sc_handler s) \<and> sc_updated s1 = sc_updated s @ [(fid, a)]"
proof -
  have len: "length (block_of s fid) = 8"
    using assms(1) by (auto simp: block_of_def script_inv_def blocks_ok_def split: option.splits)
  have scalar: "bf_scalar (bits_of_field f) \<noteq> ST_None"
    using assms(7) by (auto simp: holds_number_def representable_def)
  obtain a where a: "write_text 16 (bits_of_field f) (block_of s fid) hex = Some a" "length a = 8"
      "HandleBitReading a (bits_of_field f) = Some (int_decimal k)"
      "\<forall>g. inside 8 g \<and> apart (bits_of_field f) g \<longrightarrow> HandleBitReading a g = HandleBitReading (block_of s fid) g"
    using write_parsed [of "block_of s fid" "bits_of_field f" k 16 hex] assms(6-8) len by auto
  have written: "write_named fs field_name hex (block_of s fid) = Some a"
    using write_named_one [OF assms(5) scalar] a(1) by simp
  obtain s1 where s1: "SetFrameField [''SetFrameField'', field_name, hex] s = Some s1" "sc_frame_data s1 = (sc_frame_data s)(fid \<mapsto> a)"
      "sc_meta s1 = sc_meta s" "sc_sent s1 = sc_sent s" "sc_handler s1 = AssignNewBufferToTxEntry fid a (sc_handler s)"
      "sc_updated s1 = sc_updated s @ [(fid, a)]"
    using SetFrameField_block [of "[''SetFrameField'', field_name, hex]" s fid fs a] assms(2-4) written a(2) by auto
  have "size_in_bytes s1 fid = size_in_bytes s fid" by (simp add: size_in_bytes_def s1(3))
  then have "\<exists>s2. SendFrame [''SendFrame'', frame_name] s1 = Some s2 \<and> sc_sent s2 = sc_sent s @ [(fid, take (size_in_bytes s fid) a)]"
    using assms(3,9) s1(2-4) a(2) size_in_bytes_le [of s fid] by (simp add: SendFrame_def Let_def AddToLog_def)
  then show ?thesis using s1 a by blast
qed

section \<open>Numbers with a prefix\<close>

lemma hex_prefix_refused: "TryParse lo hi Whole 16 (''0x'' @ digits) = None"
proof -
  have "\<exists>rest. TrimView (''0x'' @ digits) = ''0x'' @ rest"
  proof (cases "\<exists>c \<in> set (rev digits). \<not> is_blank c")
    case True
    then have "dropWhile is_blank (rev digits @ ''x0'') = dropWhile is_blank (rev digits) @ ''x0''"
      by (auto intro: dropWhile_append1)
    then show ?thesis by (simp add: TrimView_def is_blank_def)
  next
    case False
    then have "dropWhile is_blank (rev digits @ ''x0'') = dropWhile is_blank ''x0''"
      by (intro dropWhile_append2) auto
    then show ?thesis by (simp add: TrimView_def is_blank_def)
  qed
  then obtain rest where "TrimView (''0x'' @ digits) = ''0x'' @ rest" by blast
  then show ?thesis
    by (auto simp: TryParse_def from_chars_def Let_def starts_with_def char_value_def split: option.splits if_splits)
qed

text \<open>
  \<open>SetFrameField\<close> does not take the numbers the manual gives it.  A number written with
  the prefix \<open>0x\<close>, as in the manual's own example, is not a number to the parser: the block of
  the frame stays what it was, zeros if nothing was set before, and \<open>SendFrame\<close> sends that.
\<close>

theorem documented_number_is_ignored:
  assumes "script_inv s" "length params = 3" "params ! 2 = ''0x'' @ digits"
    and "FindFrameIdByFieldName (sc_mapping s) (params ! 1) = fid" "fid \<noteq> 0"
  shows "\<exists>s'. SetFrameField params s = Some s' \<and> sc_frame_data s' = (sc_frame_data s)(fid \<mapsto> block_of s fid)"
proof -
  have block: "8 \<le> length (block_of s fid)"
    using assms(1) by (auto simp: block_of_def script_inv_def blocks_ok_def split: option.splits)
  obtain fs where fs: "map_of (sc_mapping s) fid = Some fs"
    using FindFrameIdByFieldName_fields [OF assms(4,5)] by blast
  have "write_text 16 f a (params ! 2) = Some a" for f a
    unfolding assms(3) by (simp only: write_text_def hex_prefix_refused option.case)
  then have "write_named fs (params ! 1) (params ! 2) (block_of s fid) = Some (block_of s fid)"
    by (induction fs) auto
  then show ?thesis using SetFrameField_block [OF assms(2,4,5) fs] block by blast
qed

section \<open>Witnesses\<close>

definition vehicle_fields :: frame_fields where
  "vehicle_fields =
     [(0, \<lparr>cm_type = CBT_UI8, cm_name = ''VehicleHasClutch'', cm_size = 1, cm_min = 0, cm_max = 1, cm_description = []\<rparr>),
      (1, \<lparr>cm_type = CBT_UI8, cm_name = ''Gear'', cm_size = 7, cm_min = 0, cm_max = 100, cm_description = []\<rparr>)]"

definition script_ready :: "unit script" where
  "script_ready =
     \<lparr>sc_handler = empty_can_handler, sc_mapping = [(0x123, vehicle_fields)],
      sc_meta = [(0x123, \<lparr>fm_name = ''VEHICLE_INFO'', fm_size = 2, fm_direction = CHR ''T''\<rparr>)],
      sc_frame_data = Map.empty, sc_raw = [0x123 \<mapsto> [0, 0, 0, 0, 0, 0, 0, 1]], sc_aborted = False, sc_waiting = no_frame,
      sc_received = False, sc_waiting_data = [], sc_sent = [], sc_updated = [], sc_log = []\<rparr>"

text \<open>Functions that do what the documentation of Boost says.\<close>

fun split_at_spaces :: "string \<Rightarrow> string list" where
  "split_at_spaces [] = [[]]"
| "split_at_spaces (c # s) =
     (if c = CHR '' '' then [] # split_at_spaces s
      else case split_at_spaces s of [] \<Rightarrow> [[c]] | p # ps \<Rightarrow> (c # p) # ps)"

definition script_lib_on :: script_lib where
  "script_lib_on =
     \<lparr>sl_trim_right = (\<lambda>s. rev (dropWhile is_blank (rev s))), sl_split = split_at_spaces,
      sl_unhex = (\<lambda>s. if odd (length s) then None else decode_pairs s)\<rparr>"

lemma script_lib_on_documented: "split_documented script_lib_on"
proof -
  have "split_at_spaces s \<noteq> []" for s by (induction s) (simp_all split: list.splits)
  then show ?thesis by (simp add: split_documented_def script_lib_on_def)
qed

lemma script_ready_inv: "script_inv script_ready"
  by (simp add: script_inv_def script_ready_def blocks_ok_def sent_ok_def mapping_ok_def no_float_def vehicle_fields_def)

lemma script_runs_to_its_end_witness:
  "\<exists>s'. ExecuteScript script_lib_on ''SendFrame VEHICLE_INFO'' [] script_ready = Some s' \<and> script_inv s' \<and> \<not> sc_aborted s'"
  by (rule script_runs_to_its_end [OF script_ready_inv script_lib_on_documented])

lemma wait_for_frame_verdict_witness:
  "\<exists>s'. WaitForFrame [''WaitForFrame'', ''Gear'', ''500''] [BusFrame 0x124 [1], BusFrame 0x123 [0, 1]] script_ready = Some s' \<and>
    sc_log s' = [WaitStart ''Gear'' 500 0x123, WaitInvalid [0, 1] [0, 0, 0, 0, 0, 0, 0, 1] ''Gear'' 0x123] \<and>
    sc_raw s' = (sc_raw script_ready)(0x123 := None) \<and> sc_waiting s' = no_frame"
proof -
  have number: "TryParse_u32 ''500'' = Some 500" by (simp add: TryParse_u32_def, code_simp)
  have "FindFrameIdByFieldName (sc_mapping script_ready) ''Gear'' = 0x123"
    by (simp add: script_ready_def vehicle_fields_def)
  then show ?thesis
    using wait_for_frame_verdict [OF script_ready_inv, of "[BusFrame 0x124 [1], BusFrame 0x123 [0, 1]]"
        "[''WaitForFrame'', ''Gear'', ''500'']" 500 "0x123" "[0, 0, 0, 0, 0, 0, 0, 1]"] number
    by (auto simp: script_ready_def no_frame_def)
qed

lemma script_field_is_sent_witness:
  "\<exists>a s1 s2. SetFrameField [''SetFrameField'', ''Gear'', ''1F''] script_ready = Some s1 \<and>
    SendFrame [''SendFrame'', ''VEHICLE_INFO''] s1 = Some s2 \<and> sc_sent s2 = [(0x123, take 2 a)] \<and>
    HandleBitReading a \<lparr>bf_offset = 1, bf_size = 7, bf_scalar = ST_U8\<rparr> = Some (int_decimal 31)"
proof -
  let ?f = "(1 :: u8, \<lparr>cm_type = CBT_UI8, cm_name = ''Gear'', cm_size = 7, cm_min = 0, cm_max = 100, cm_description = []\<rparr>)"
  have number: "TryParse (- (2 ^ 63)) (2 ^ 63 - 1) Whole 16 ''1F'' = Some 31" by code_simp
  have find: "FindFrameIdByFieldName (sc_mapping script_ready) ''Gear'' = 0x123" "(0x123 :: u32) \<noteq> 0"
      "map_of (sc_mapping script_ready) 0x123 = Some vehicle_fields"
      "filter (\<lambda>f. cm_name (snd f) = ''Gear'') vehicle_fields = [?f]"
      "inside 8 (bits_of_field ?f)" "holds_number (bits_of_field ?f) 31"
      "FindFrameIdOnMapByName (sc_meta script_ready) ''VEHICLE_INFO'' = 0x123"
    by (simp_all add: script_ready_def vehicle_fields_def FindFrameIdOnMapByName_def inside_def holds_number_def
        representable_def bits_of_field_def)
  have size: "size_in_bytes script_ready 0x123 = 2" by (simp add: size_in_bytes_def script_ready_def)
  have ready: "bits_of_field ?f = \<lparr>bf_offset = 1, bf_size = 7, bf_scalar = ST_U8\<rparr>" "sc_sent script_ready = []"
    by (simp_all add: bits_of_field_def script_ready_def)
  show ?thesis
    using script_field_is_sent [OF script_ready_inv find(1-6) number find(7)] unfolding ready size append_Nil by blast
qed

lemma documented_number_is_ignored_witness:
  "\<exists>s'. SetFrameField [''SetFrameField'', ''VehicleHasClutch'', ''0x1''] script_ready = Some s' \<and>
    sc_frame_data s' = [0x123 \<mapsto> [0, 0, 0, 0, 0, 0, 0, 0]]"
proof -
  have find: "FindFrameIdByFieldName (sc_mapping script_ready) ''VehicleHasClutch'' = 0x123"
    by (simp add: script_ready_def vehicle_fields_def)
  have block: "block_of script_ready 0x123 = [0, 0, 0, 0, 0, 0, 0, 0]"
    by (simp add: block_of_def script_ready_def eval_nat_numeral)
  show ?thesis
    using documented_number_is_ignored [OF script_ready_inv, of "[''SetFrameField'', ''VehicleHasClutch'', ''0x1'']" "''1''" "0x123"] find
    by (simp add: block) (simp add: script_ready_def)
qed

end
