(* ===== verification/CanFiles.thy ===== *)
theory CanFiles
  imports CanScript "HOL-Library.Sublist"
begin

text \<open>
  The CAN panel's files: the transmit list and the mapping of frames to fields.  Source:
  \<open>src/CanXmlLoaders.cpp\<close>, \<open>src/CanXmlLoaders.hpp\<close> and \<open>src/utils/XmlDocument.cpp\<close>.  The
  XML library is outside of the program: an element is the record of the texts and the numbers
  it is read for, a number that does not fit the type it is read as throws.  The functions of
  Boost on texts are an argument.  Colours and fonts are not modelled.
\<close>

section \<open>Texts\<close>

record text_functions =
  tf_unhex :: "string \<Rightarrow> bytes option"
  tf_hex :: "bytes \<Rightarrow> string"
  tf_erase :: "string \<Rightarrow> char \<Rightarrow> string"
  tf_replace :: "string \<Rightarrow> string \<Rightarrow> string \<Rightarrow> string"

text \<open>Replacing a line feed by a backslash and an \<open>n\<close>, and back, each from the left.\<close>

fun escape_lines :: "string \<Rightarrow> string" where
  "escape_lines [] = []"
| "escape_lines (c # s) = (if c = CHR 0x0A then CHR 0x5C # CHR ''n'' # escape_lines s else c # escape_lines s)"

fun unescape_lines :: "string \<Rightarrow> string" where
  "unescape_lines [] = []"
| "unescape_lines [c] = [c]"
| "unescape_lines (a # b # s) =
     (if a = CHR 0x5C \<and> b = CHR ''n'' then CHR 0x0A # unescape_lines s else a # unescape_lines (b # s))"

definition line_feed :: string where "line_feed = [CHR 0x0A]"
definition escaped_feed :: string where "escaped_feed = [CHR 0x5C, CHR ''n'']"

definition text_functions_documented :: "text_functions \<Rightarrow> bool" where
  "text_functions_documented lib \<longleftrightarrow>
     (\<forall>data. tf_hex lib data = concat (map hex_pair data)) \<and>
     (\<forall>s. tf_unhex lib s = (if odd (length s) then None else decode_pairs s)) \<and>
     (\<forall>s c. tf_erase lib s c = filter (\<lambda>x. x \<noteq> c) s) \<and>
     (\<forall>s. tf_replace lib s line_feed escaped_feed = escape_lines s) \<and>
     (\<forall>s. tf_replace lib s escaped_feed line_feed = unescape_lines s)"

text \<open>\<open>std::format("{:X}", n)\<close>\<close>

fun hex_text :: "nat \<Rightarrow> string" where
  "hex_text n = (if n < 16 then [hex_digits ! n] else hex_text (n div 16) @ [hex_digits ! (n mod 16)])"

declare hex_text.simps [simp del]

text \<open>\<open>ReadHexChild<uint32_t>\<close>\<close>

definition ReadHexChild :: "string \<Rightarrow> u32 option" where
  "ReadHexChild raw = map_option word_of_int (TryParse 0 (2 ^ 32 - 1) Whole 16 raw)"

lemma char_value_hex: "d < 16 \<Longrightarrow> char_value (hex_digits ! d) = d"
  by (elim less16E) (simp_all add: char_value_def hex_digits_def Let_def)

lemma hex_digit_plain: "d < 16 \<Longrightarrow> \<not> is_blank (hex_digits ! d)"
  by (elim less16E) (simp_all add: is_blank_def hex_digits_def)

lemma hex_text_value: "digits_value 16 (hex_text n) = n"
proof (induction n rule: hex_text.induct)
  case (1 n)
  show ?case
  proof (cases "n < 16")
    case True
    have "digits_value 16 [hex_digits ! n] = n"
      using digits_value_snoc [of 16 "[]" "hex_digits ! n"] True by (simp add: char_value_hex digits_value_def)
    then show ?thesis using True by (subst hex_text.simps) simp
  next
    case False
    then show ?thesis using 1 by (subst hex_text.simps) (simp add: digits_value_snoc char_value_hex)
  qed
qed

lemma hex_text_chars: "c \<in> set (hex_text n) \<Longrightarrow> char_value c < 16 \<and> \<not> is_blank c"
  by (induction n rule: hex_text.induct)
    (subst (asm) hex_text.simps, auto split: if_splits simp: char_value_hex hex_digit_plain)

lemma hex_text_not_Nil [simp]: "hex_text n \<noteq> []"
  by (subst hex_text.simps) simp

lemma ReadHexChild_hex_text [simp]: "ReadHexChild (hex_text (unat w)) = Some w"
proof -
  have keep: "dropWhile is_blank xs = xs" if "\<And>c. c \<in> set xs \<Longrightarrow> \<not> is_blank c" for xs
    using that by (cases xs) simp_all
  have "dropWhile is_blank (hex_text (unat w)) = hex_text (unat w)" by (rule keep) (simp add: hex_text_chars)
  moreover have "dropWhile is_blank (rev (hex_text (unat w))) = rev (hex_text (unat w))"
    by (rule keep) (simp add: hex_text_chars)
  ultimately have trim: "TrimView (hex_text (unat w)) = hex_text (unat w)" by (simp add: TrimView_def)
  have digits: "takeWhile (\<lambda>c. char_value c < 16) (hex_text (unat w)) = hex_text (unat w)"
      "dropWhile (\<lambda>c. char_value c < 16) (hex_text (unat w)) = []"
    by (simp_all add: hex_text_chars)
  have "uint w < 2 ^ LENGTH(32)" by (rule unsigned_less)
  then have "TryParse 0 (2 ^ 32 - 1) Whole 16 (hex_text (unat w)) = Some (int (unat w))"
    by (simp add: TryParse_def trim from_chars_def Let_def digits hex_text_value del: takeWhile_eq_all_conv)
  then show ?thesis by (simp add: ReadHexChild_def)
qed

section \<open>The transmit list\<close>

record tx_node =
  xt_id :: string
  xt_data :: string
  xt_period :: int
  xt_log_level :: int
  xt_favourite :: int
  xt_comment :: string

definition in_range :: "int \<Rightarrow> int \<Rightarrow> int \<Rightarrow> bool" where
  "in_range lo hi n \<longleftrightarrow> lo \<le> n \<and> n \<le> hi"

text \<open>
  One element: whether reading it threw, and the entries.  The data's text is cut to sixteen
  digits; the buffer has 128 bytes.
\<close>

definition load_tx_node :: "text_functions \<Rightarrow> tx_node \<Rightarrow> tx_entry list \<Rightarrow> bool \<times> tx_entry list" where
  "load_tx_node lib v e =
     (case ReadHexChild (xt_id v) of
        None \<Rightarrow> (False, e)
      | Some fid \<Rightarrow>
          if fid \<in> te_id ` set e then (False, e)
          else
            let hex_str = tf_erase lib (xt_data v) CHR '' '';
                hex_str = (if 16 < length hex_str then take 16 hex_str else hex_str)
            in case tf_unhex lib hex_str of
                 None \<Rightarrow> (False, e)
               | Some hash \<Rightarrow>
                   if 128 < length hash then (False, e)
                   else if \<not> (in_range (- (2 ^ 31)) (2 ^ 31 - 1) (xt_period v) \<and> in_range 0 255 (xt_log_level v) \<and>
                               in_range 0 255 (xt_favourite v))
                   then (True, e)
                   else (False, e @ [new_tx_entry\<lparr>te_id := fid, te_data := take (length hex_str div 2) (hash @ replicate 128 0),
                           te_period := word_of_int (xt_period v), te_log_level := word_of_int (xt_log_level v),
                           te_favourite_level := word_of_int (xt_favourite v), te_comment := xt_comment v\<rparr>]))"

text \<open>\<open>LoadEntries\<close>: the first element that throws ends the load.\<close>

fun LoadTxEntries :: "text_functions \<Rightarrow> tx_node list \<Rightarrow> tx_entry list \<Rightarrow> bool \<times> tx_entry list" where
  "LoadTxEntries lib [] e = (True, e)"
| "LoadTxEntries lib (v # vs) e =
     (case load_tx_node lib v e of (threw, e') \<Rightarrow> if threw then (False, e') else LoadTxEntries lib vs e')"

definition SaveTxEntries :: "text_functions \<Rightarrow> tx_entry list \<Rightarrow> tx_node list" where
  "SaveTxEntries lib e =
     map (\<lambda>i. \<lparr>xt_id = hex_text (unat (te_id i)), xt_data = ConvertHexBufferToString (tf_hex lib) (te_data i),
               xt_period = uint (te_period i), xt_log_level = uint (te_log_level i),
               xt_favourite = uint (te_favourite_level i), xt_comment = te_comment i\<rparr>) e"

text \<open>An entry as a new session has it: its settings, and no runtime state.\<close>

definition tx_settings :: "tx_entry \<Rightarrow> tx_entry" where
  "tx_settings i = new_tx_entry\<lparr>te_id := te_id i, te_data := te_data i, te_period := te_period i,
     te_log_level := te_log_level i, te_favourite_level := te_favourite_level i, te_comment := te_comment i\<rparr>"

lemma pair_has_no_space: "filter (\<lambda>x. x \<noteq> CHR '' '') (hex_pair b) = hex_pair b"
  by (simp add: hex_pair_def hex_digits_not_sep unat_nibble_high unat_nibble_low)

lemma erase_separated:
  "filter (\<lambda>x. x \<noteq> CHR '' '') (separate 2 CHR '' '' (concat (map hex_pair data))) = concat (map hex_pair data)"
  unfolding separate_pairs by (cases data) (simp_all add: filter_concat comp_def pair_has_no_space)

lemma load_saved_node:
  assumes "text_functions_documented lib" "te_id i \<notin> te_id ` set e" "length (te_data i) \<le> 8"
  shows "load_tx_node lib (hd (SaveTxEntries lib [i])) e =
    (if uint (te_period i) < 2 ^ 31 then (False, e @ [tx_settings i]) else (True, e))"
proof -
  let ?h = "concat (map hex_pair (te_data i))"
  have erase: "tf_erase lib (ConvertHexBufferToString (tf_hex lib) (te_data i)) CHR '' '' = ?h"
    using assms(1) by (simp add: text_functions_documented_def ConvertHexBufferToString_def erase_separated)
  have "even (length ?h)" by (simp add: length_hex_pairs)
  then have unhex: "tf_unhex lib ?h = Some (te_data i)"
    using assms(1) decode_hex_pairs [of "te_data i"] by (simp add: text_functions_documented_def)
  have range: "in_range 0 255 (uint w)" for w :: u8
  proof -
    have "uint w < 2 ^ LENGTH(8)" by (rule unsigned_less)
    then show ?thesis by (simp add: in_range_def)
  qed
  have nonneg: "0 \<le> uint (te_period i)" by simp
  have period: "in_range (- (2 ^ 31)) (2 ^ 31 - 1) (uint (te_period i)) = (uint (te_period i) < 2 ^ 31)"
    unfolding in_range_def using nonneg by linarith
  have len: "length ?h div 2 = length (te_data i)" "\<not> 16 < length ?h" using assms(3) by (simp_all add: length_hex_pairs)
  show ?thesis unfolding load_tx_node_def SaveTxEntries_def Let_def
    using assms(2,3) by (simp add: erase unhex len range period [simplified] tx_settings_def)
qed

text \<open>
  The transmit list survives a restart.  A list with distinct ids and payloads of at most
  eight bytes, saved and loaded again, is the same list with the runtime state cleared, as long
  as no period reaches 2147483648 milliseconds.  The first entry with a longer period ends the
  load of the file it was saved to: it and every entry after it are gone.
\<close>

theorem tx_list_survives_reload:
  assumes "text_functions_documented lib" "distinct (map te_id es)" "\<forall>i \<in> set es. length (te_data i) \<le> 8"
  shows "LoadTxEntries lib (SaveTxEntries lib es) [] =
    ((\<forall>i \<in> set es. uint (te_period i) < 2 ^ 31), map tx_settings (takeWhile (\<lambda>i. uint (te_period i) < 2 ^ 31) es))"
proof -
  have "LoadTxEntries lib (SaveTxEntries lib es) e =
      ((\<forall>i \<in> set es. uint (te_period i) < 2 ^ 31), e @ map tx_settings (takeWhile (\<lambda>i. uint (te_period i) < 2 ^ 31) es))"
    if "\<forall>i \<in> set es. te_id i \<notin> te_id ` set e" for e
    using assms(2,3) that
  proof (induction es arbitrary: e)
    case (Cons i es)
    have saved: "SaveTxEntries lib (i # es) = hd (SaveTxEntries lib [i]) # SaveTxEntries lib es"
      by (simp add: SaveTxEntries_def)
    have fresh: "\<forall>j \<in> set es. te_id j \<notin> te_id ` set (e @ [tx_settings i])"
    proof
      fix j assume j: "j \<in> set es"
      then have "te_id j \<in> te_id ` set es" by (rule imageI)
      then have "te_id j \<noteq> te_id i" using Cons.prems(1) by auto
      then show "te_id j \<notin> te_id ` set (e @ [tx_settings i])"
        using Cons.prems(3) j by (auto simp: tx_settings_def)
    qed
    show ?case unfolding saved using load_saved_node [OF assms(1), of i e] Cons.IH [OF _ _ fresh] Cons.prems by auto
  qed (simp add: SaveTxEntries_def)
  from this [of "[]"] show ?thesis by simp
qed


definition text_functions_on :: text_functions where
  "text_functions_on =
     \<lparr>tf_unhex = (\<lambda>s. if odd (length s) then None else decode_pairs s), tf_hex = (\<lambda>data. concat (map hex_pair data)),
      tf_erase = (\<lambda>s c. filter (\<lambda>x. x \<noteq> c) s),
      tf_replace = (\<lambda>s search fmt. if search = line_feed then escape_lines s else unescape_lines s)\<rparr>"

lemma text_functions_on_documented: "text_functions_documented text_functions_on"
  by (simp add: text_functions_documented_def text_functions_on_def line_feed_def escaped_feed_def)

lemma tx_list_survives_reload_witness:
  "LoadTxEntries text_functions_on (SaveTxEntries text_functions_on
      [shown_entry, new_tx_entry\<lparr>te_id := 7, te_data := [255], te_period := 0x80000000\<rparr>]) [] = (False, [tx_settings shown_entry])"
  using tx_list_survives_reload [OF text_functions_on_documented, of "[shown_entry, new_tx_entry\<lparr>te_id := 7, te_data := [255], te_period := 0x80000000\<rparr>]"]
  by (simp add: shown_entry_def new_tx_entry_def)

section \<open>The mapping\<close>

definition m_CanBitfieldTypeMap :: "(can_field_type \<times> string) list" where
  "m_CanBitfieldTypeMap =
     [(CBT_INVALID, ''invalid''), (CBT_BOOL, ''bool''), (CBT_UI8, ''uint8_t''), (CBT_I8, ''int8_t''),
      (CBT_UI16, ''uint16_t''), (CBT_I16, ''int16_t''), (CBT_UI32, ''uint32_t''), (CBT_I32, ''int32_t''),
      (CBT_UI64, ''uint64_t''), (CBT_I64, ''int64_t''), (CBT_FLOAT, ''float''), (CBT_DOUBLE, ''double'')]"

definition CanTypeFromString :: "string \<Rightarrow> can_field_type" where
  "CanTypeFromString = enum_FromName CBT_INVALID m_CanBitfieldTypeMap"

definition CanStringFromType :: "can_field_type \<Rightarrow> string" where
  "CanStringFromType = enum_NameOf CBT_INVALID m_CanBitfieldTypeMap"

text \<open>The table has no row for \<open>uint64_t\<close>, \<open>float\<close> and \<open>double\<close>.\<close>

definition m_CanTypeSizes :: "(can_field_type \<times> int \<times> int) list" where
  "m_CanTypeSizes =
     [(CBT_BOOL, 0, 1), (CBT_UI8, 0, 255), (CBT_I8, - 128, 127), (CBT_UI16, 0, 65535), (CBT_I16, - 32768, 32767),
      (CBT_UI32, 0, 4294967295), (CBT_I32, - 2147483648, 2147483647),
      (CBT_I64, - 9223372036854775808, 9223372036854775807), (CBT_INVALID, 0, 0)]"

definition GetMinMaxForType :: "can_field_type \<Rightarrow> int \<times> int" where
  "GetMinMaxForType t = (case map_of m_CanTypeSizes t of Some r \<Rightarrow> r | None \<Rightarrow> (0, 0))"

lemma ranges_missing:
  "GetMinMaxForType CBT_UI64 = (0, 0)" "GetMinMaxForType CBT_FLOAT = (0, 0)" "GetMinMaxForType CBT_DOUBLE = (0, 0)"
  by (simp_all add: GetMinMaxForType_def m_CanTypeSizes_def)

record mapping_node =
  mn_offset :: u8
  mn_len :: u8
  mn_type :: string
  mn_name :: string
  mn_min :: "int option"
  mn_max :: "int option"
  mn_desc :: "string option"

record frame_node =
  fn_id :: string
  fn_name :: string
  fn_size :: u8
  fn_direction :: char
  fn_mappings :: "mapping_node list"

text \<open>\<open>std::map\<close>, the list of its entries in the order of the keys.\<close>

fun map_put :: "'k::linorder \<Rightarrow> 'v \<Rightarrow> ('k \<times> 'v) list \<Rightarrow> ('k \<times> 'v) list" where
  "map_put k v [] = [(k, v)]"
| "map_put k v ((k', v') # xs) =
     (if k = k' then (k, v) # xs else if k < k' then (k, v) # (k', v') # xs else (k', v') # map_put k v xs)"

definition fields_of :: "can_mapping \<Rightarrow> u32 \<Rightarrow> frame_fields" where
  "fields_of mapping fid = (case map_of mapping fid of Some fs \<Rightarrow> fs | None \<Rightarrow> [])"

definition field_of_node :: "text_functions \<Rightarrow> mapping_node \<Rightarrow> can_map" where
  "field_of_node lib m =
     (let t = CanTypeFromString (mn_type m); range = GetMinMaxForType t
      in \<lparr>cm_type = t, cm_name = mn_name m, cm_size = mn_len m,
          cm_min = (case mn_min m of Some v \<Rightarrow> max v (fst range) | None \<Rightarrow> fst range),
          cm_max = (case mn_max m of Some v \<Rightarrow> min v (snd range) | None \<Rightarrow> snd range),
          cm_description = (case mn_desc m of Some d \<Rightarrow> tf_replace lib d escaped_feed line_feed | None \<Rightarrow> [])\<rparr>)"

definition load_field :: "text_functions \<Rightarrow> u32 \<Rightarrow> mapping_node \<Rightarrow> can_mapping \<Rightarrow> can_mapping" where
  "load_field lib fid m mapping =
     (if CanTypeFromString (mn_type m) = CBT_INVALID then mapping
      else if mn_offset m \<in> fst ` set (fields_of mapping fid) then mapping
      else map_put fid (map_put (mn_offset m) (field_of_node lib m) (fields_of mapping fid)) mapping)"

type_synonym frame_metadata = "(u32 \<times> can_frame_metadata) list"

definition load_frame :: "text_functions \<Rightarrow> frame_node \<Rightarrow> can_mapping \<times> frame_metadata \<Rightarrow> can_mapping \<times> frame_metadata" where
  "load_frame lib v = (\<lambda>(mapping, metadata).
     case ReadHexChild (fn_id v) of
       None \<Rightarrow> (mapping, metadata)
     | Some fid \<Rightarrow>
         (fold (load_field lib fid) (fn_mappings v) mapping,
          map_put fid \<lparr>fm_name = fn_name v, fm_size = fn_size v, fm_direction = fn_direction v\<rparr> metadata))"

definition LoadMapping :: "text_functions \<Rightarrow> frame_node list \<Rightarrow> can_mapping \<times> frame_metadata \<Rightarrow> can_mapping \<times> frame_metadata" where
  "LoadMapping lib nodes = fold (load_frame lib) nodes"

definition save_field :: "text_functions \<Rightarrow> u8 \<times> can_map \<Rightarrow> mapping_node" where
  "save_field lib = (\<lambda>(off, m).
     \<lparr>mn_offset = off, mn_len = cm_size m, mn_type = CanStringFromType (cm_type m), mn_name = cm_name m,
      mn_min = Some (cm_min m), mn_max = Some (cm_max m),
      mn_desc = (if cm_description m = [] then None else Some (tf_replace lib (cm_description m) line_feed escaped_feed))\<rparr>)"

definition save_frame :: "text_functions \<Rightarrow> frame_metadata \<Rightarrow> u32 \<times> frame_fields \<Rightarrow> frame_node" where
  "save_frame lib metadata = (\<lambda>(fid, fs).
     let meta = map_of metadata fid
     in \<lparr>fn_id = hex_text (unat fid),
         fn_name = (case meta of Some m \<Rightarrow> fm_name m | None \<Rightarrow> []),
         fn_size = (case meta of Some m \<Rightarrow> fm_size m | None \<Rightarrow> 0),
         fn_direction = (case meta of Some m \<Rightarrow> fm_direction m | None \<Rightarrow> CHR ''T''),
         fn_mappings = map (save_field lib) fs\<rparr>)"

definition SaveMapping :: "text_functions \<Rightarrow> can_mapping \<Rightarrow> frame_metadata \<Rightarrow> frame_node list" where
  "SaveMapping lib mapping metadata = map (save_frame lib metadata) mapping"

section \<open>The mapping survives a restart\<close>

subsection \<open>Ordered lists of entries\<close>

definition ordered :: "('k::linorder \<times> 'v) list \<Rightarrow> bool" where
  "ordered xs \<longleftrightarrow> sorted_wrt (<) (map fst xs)"

lemma ordered_simps [simp]: "ordered []" "ordered (x # xs) = ((\<forall>y \<in> set xs. fst x < fst y) \<and> ordered xs)"
  by (auto simp: ordered_def)

lemma map_put_keys: "fst ` set (map_put k v xs) = insert k (fst ` set xs)"
  by (induction k v xs rule: map_put.induct) (simp_all add: insert_commute)

lemma map_put_in: "x \<in> set (map_put k v xs) \<Longrightarrow> x = (k, v) \<or> x \<in> set xs"
  by (induction xs) (auto split: if_splits)

lemma ordered_put: "ordered xs \<Longrightarrow> ordered (map_put k v xs)"
  by (induction xs) (force dest: map_put_in)+

lemma map_put_last: "\<forall>x \<in> set xs. fst x < k \<Longrightarrow> map_put k v xs = xs @ [(k, v)]"
  by (induction xs) force+

lemma map_put_replace_last: "\<forall>x \<in> set xs. fst x < k \<Longrightarrow> map_put k v (xs @ [(k, u)]) = xs @ [(k, v)]"
  by (induction xs) force+

lemma map_of_put: "map_of (map_put k v xs) k = Some v"
  by (induction xs) auto

lemma map_of_last: "\<forall>x \<in> set xs. fst x < (k :: 'k::linorder) \<Longrightarrow> map_of (xs @ [(k, v)]) k = Some v"
  by (induction xs) force+

lemma map_of_before: "\<forall>x \<in> set xs. fst x < (k :: 'k::linorder) \<Longrightarrow> map_of xs k = None"
  by (induction xs) force+


subsection \<open>Texts of descriptions\<close>

lemma unescape_no_escape: "\<not> sublist escaped_feed (unescape_lines s)"
proof (induction s rule: unescape_lines.induct)
  case (3 a b s)
  then show ?case
  proof (cases "a = CHR 0x5C \<and> b = CHR ''n''")
    case False
    have "\<not> prefix escaped_feed (a # unescape_lines (b # s))"
    proof
      assume p: "prefix escaped_feed (a # unescape_lines (b # s))"
      then have "a = CHR 0x5C" "prefix [CHR ''n''] (unescape_lines (b # s))" by (auto simp: escaped_feed_def)
      moreover have "b = CHR ''n'' \<or> unescape_lines (b # s) = [] \<or> hd (unescape_lines (b # s)) \<noteq> CHR ''n''"
        by (cases s) auto
      ultimately show False using False by (cases "unescape_lines (b # s)") auto
    qed
    then show ?thesis using False 3(2) by (auto simp: sublist_Cons_right)
  qed (auto simp: sublist_Cons_right escaped_feed_def)
qed (auto simp: sublist_Cons_right escaped_feed_def)

lemma unescape_escape:
  "\<not> sublist escaped_feed s \<Longrightarrow> unescape_lines (escape_lines s) = s"
proof (induction s)
  case (Cons c s)
  then have IH: "unescape_lines (escape_lines s) = s" by (simp add: sublist_Cons_right)
  show ?case
  proof (cases "c = CHR 0x0A")
    case False
    show ?thesis
    proof (cases s)
      case s: (Cons d s')
      have "\<not> (c = CHR 0x5C \<and> d = CHR ''n'')"
        using Cons.prems s by (auto simp: sublist_Cons_right escaped_feed_def)
      then show ?thesis using False IH s by (cases "d = CHR 0x0A") auto
    qed (use False in simp)
  qed (use IH in simp)
qed simp

lemma escape_Nil [simp]: "escape_lines s = [] \<longleftrightarrow> s = []"
  by (cases s) auto

subsection \<open>One field\<close>

text \<open>What the loader makes: a known type, a range within the table's and a description without escapes.\<close>

definition loaded_field :: "can_map \<Rightarrow> bool" where
  "loaded_field m \<longleftrightarrow> cm_type m \<noteq> CBT_INVALID \<and> fst (GetMinMaxForType (cm_type m)) \<le> cm_min m \<and>
     cm_max m \<le> snd (GetMinMaxForType (cm_type m)) \<and> \<not> sublist escaped_feed (cm_description m)"

definition loaded_mapping :: "can_mapping \<Rightarrow> bool" where
  "loaded_mapping mapping \<longleftrightarrow> ordered mapping \<and>
     (\<forall>fr \<in> set mapping. snd fr \<noteq> [] \<and> ordered (snd fr) \<and> (\<forall>f \<in> set (snd fr). loaded_field (snd f)))"

lemma type_text [simp]: "CanTypeFromString (CanStringFromType t) = t"
  unfolding CanTypeFromString_def CanStringFromType_def
  by (intro enum_FromName_NameOf) (cases t; simp add: m_CanBitfieldTypeMap_def)+

lemma load_saved_field:
  assumes "text_functions_documented lib" "loaded_field m" "off \<notin> fst ` set (fields_of mapping fid)"
  shows "load_field lib fid (save_field lib (off, m)) mapping = map_put fid (map_put off m (fields_of mapping fid)) mapping"
proof -
  have d: "unescape_lines (escape_lines (cm_description m)) = cm_description m"
    using assms(2) by (intro unescape_escape) (simp add: loaded_field_def)
  have l: "tf_replace lib s line_feed escaped_feed = escape_lines s" "tf_replace lib s escaped_feed line_feed = unescape_lines s" for s
    using assms(1) by (simp_all add: text_functions_documented_def)
  have "field_of_node lib (save_field lib (off, m)) = m"
    using assms(2) d by (cases m) (auto simp: field_of_node_def save_field_def loaded_field_def Let_def l max_absorb1 min_absorb1)
  then show ?thesis using assms(2,3) by (simp add: load_field_def save_field_def loaded_field_def)
qed

lemma load_field_loaded:
  assumes "text_functions_documented lib" "loaded_mapping mapping"
  shows "loaded_mapping (load_field lib fid m mapping)"
proof -
  let ?t = "CanTypeFromString (mn_type m)"
  have l: "tf_replace lib s escaped_feed line_feed = unescape_lines s" for s
    using assms(1) by (simp add: text_functions_documented_def)
  have fs: "ordered (fields_of mapping fid)" "\<forall>f \<in> set (fields_of mapping fid). loaded_field (snd f)"
  proof -
    have "ordered fs \<and> (\<forall>f \<in> set fs. loaded_field (snd f))" if "map_of mapping fid = Some fs" for fs
      using map_of_SomeD [OF that] assms(2) by (force simp: loaded_mapping_def)
    then show "ordered (fields_of mapping fid)" "\<forall>f \<in> set (fields_of mapping fid). loaded_field (snd f)"
      by (cases "map_of mapping fid"; simp add: fields_of_def)+
  qed
  show ?thesis
  proof (cases "?t = CBT_INVALID \<or> mn_offset m \<in> fst ` set (fields_of mapping fid)")
    case False
    let ?f = "field_of_node lib m"
    have f: "load_field lib fid m mapping = map_put fid (map_put (mn_offset m) ?f (fields_of mapping fid)) mapping"
      using False by (simp add: load_field_def)
    have loaded: "loaded_field ?f" using False unescape_no_escape
      by (auto simp: loaded_field_def field_of_node_def Let_def l split: option.splits)
    have put: "map_put k v xs \<noteq> []" for k :: u8 and v :: can_map and xs
      by (induction k v xs rule: map_put.induct) auto
    have "ordered (map_put (mn_offset m) ?f (fields_of mapping fid))" by (rule ordered_put [OF fs(1)])
    moreover have "\<forall>g \<in> set (map_put (mn_offset m) ?f (fields_of mapping fid)). loaded_field (snd g)"
      using fs(2) loaded by (auto dest: map_put_in)
    ultimately show ?thesis using assms(2) unfolding f
      by (auto simp: loaded_mapping_def put ordered_put dest!: map_put_in)
  qed (use assms(2) in \<open>auto simp: load_field_def Let_def\<close>)
qed

lemma load_fields_loaded:
  "text_functions_documented lib \<Longrightarrow> loaded_mapping mapping \<Longrightarrow> loaded_mapping (fold (load_field lib fid) ms mapping)"
  by (induction ms arbitrary: mapping) (simp_all add: load_field_loaded)

subsection \<open>One frame and all frames\<close>

text \<open>The fields of the last frame are added one by one.\<close>

lemma load_saved_fields:
  assumes "text_functions_documented lib" "\<forall>fr \<in> set before. fst fr < fid"
    and "ordered (done @ fs)" "\<forall>f \<in> set fs. loaded_field (snd f)" "done \<noteq> []"
  shows "fold (load_field lib fid) (map (save_field lib) fs) (before @ [(fid, done)]) = before @ [(fid, done @ fs)]"
  using assms(3-5)
proof (induction fs arbitrary: "done")
  case (Cons f fs)
  have f: "f = (fst f, snd f)" by simp
  have less: "\<forall>x \<in> set done. fst x < fst f" using Cons.prems(1) by (auto simp: ordered_def sorted_wrt_append)
  have now: "fields_of (before @ [(fid, done)]) fid = done" using map_of_last [OF assms(2)] by (simp add: fields_of_def)
  have "load_field lib fid (save_field lib (fst f, snd f)) (before @ [(fid, done)]) =
      map_put fid (map_put (fst f) (snd f) done) (before @ [(fid, done)])"
    using load_saved_field [OF assms(1), of "snd f" "fst f" "before @ [(fid, done)]" fid] Cons.prems(2) less unfolding now by fastforce
  also have "\<dots> = before @ [(fid, done @ [f])]" using map_put_last [OF less] map_put_replace_last [OF assms(2)] by simp
  finally show ?case using Cons.IH [of "done @ [f]"] Cons.prems by simp
qed simp

lemma load_saved_frame_fields:
  assumes "text_functions_documented lib" "\<forall>fr \<in> set before. fst fr < fid"
    and "ordered fs" "\<forall>f \<in> set fs. loaded_field (snd f)" "fs \<noteq> []"
  shows "fold (load_field lib fid) (map (save_field lib) fs) before = before @ [(fid, fs)]"
proof -
  obtain f gs where fs: "fs = f # gs" using assms(5) by (cases fs) auto
  have now: "fields_of before fid = []" using map_of_before [OF assms(2)] by (simp add: fields_of_def)
  have "load_field lib fid (save_field lib (fst f, snd f)) before = map_put fid (map_put (fst f) (snd f) []) before"
    using load_saved_field [OF assms(1), of "snd f" "fst f" before fid] assms(4) fs unfolding now by simp
  also have "\<dots> = before @ [(fid, [f])]" using map_put_last [OF assms(2)] by simp
  finally show ?thesis using load_saved_fields [OF assms(1,2), of "[f]" gs] assms(3,4) by (simp add: fs)
qed

lemma put_metadata:
  assumes "ordered metadata" "map_of metadata fid = Some m" "\<forall>k \<in> B. k < (fid :: 'k::linorder)"
  shows "map_put fid m (filter (\<lambda>x. fst x \<in> B) metadata) = filter (\<lambda>x. fst x \<in> insert fid B) metadata"
proof -
  have "filter (\<lambda>x. fst x \<in> insert fid B) metadata = filter (\<lambda>x. fst x \<in> B) metadata @ [(fid, m)]"
    using assms(1,2)
  proof (induction metadata)
    case (Cons x xs)
    show ?case
    proof (cases "fst x = fid")
      case True
      have "fst y \<notin> insert fid B" if "y \<in> set xs" for y
        using that Cons.prems(1) True assms(3) by fastforce
      then have "filter (\<lambda>x. fst x \<in> insert fid B) xs = []" "filter (\<lambda>x. fst x \<in> B) xs = []"
        by (auto simp: filter_empty_conv)
      then show ?thesis using True Cons.prems(2) assms(3) by (cases x) auto
    next
      case False
      then show ?thesis using Cons by (cases x) auto
    qed
  qed simp
  moreover have "\<forall>x \<in> set (filter (\<lambda>x. fst x \<in> B) metadata). fst x < fid" using assms(3) by auto
  ultimately show ?thesis using map_put_last by metis
qed

lemma load_field_keys: "fst ` set (load_field lib fid m mapping) \<subseteq> insert fid (fst ` set mapping)"
  by (auto simp: load_field_def map_put_keys)

lemma load_fields_keys: "fst ` set (fold (load_field lib fid) ms mapping) \<subseteq> insert fid (fst ` set mapping)"
proof (induction ms arbitrary: mapping)
  case (Cons m ms)
  have keys: "insert fid (fst ` set (load_field lib fid m mapping)) \<subseteq> insert fid (fst ` set mapping)"
    by (simp add: load_field_keys)
  have "fst ` set (fold (load_field lib fid) (m # ms) mapping) \<subseteq> insert fid (fst ` set (load_field lib fid m mapping))"
    using Cons [of "load_field lib fid m mapping"] by simp
  then show ?case using keys by (rule order_trans)
qed auto

lemma LoadMapping_loaded:
  assumes "text_functions_documented lib" "loaded_mapping mapping" "ordered metadata" "fst ` set mapping \<subseteq> fst ` set metadata"
  shows "loaded_mapping (fst (LoadMapping lib nodes (mapping, metadata))) \<and>
    ordered (snd (LoadMapping lib nodes (mapping, metadata))) \<and>
    fst ` set (fst (LoadMapping lib nodes (mapping, metadata))) \<subseteq> fst ` set (snd (LoadMapping lib nodes (mapping, metadata)))"
  using assms(2-4)
proof (induction nodes arbitrary: mapping metadata)
  case (Cons v nodes)
  show ?case
  proof (cases "ReadHexChild (fn_id v)")
    case None
    then show ?thesis using Cons by (simp add: LoadMapping_def load_frame_def)
  next
    case (Some fid)
    let ?mapping = "fold (load_field lib fid) (fn_mappings v) mapping"
    let ?metadata = "map_put fid \<lparr>fm_name = fn_name v, fm_size = fn_size v, fm_direction = fn_direction v\<rparr> metadata"
    have "loaded_mapping ?mapping" "ordered ?metadata" "fst ` set ?mapping \<subseteq> fst ` set ?metadata"
    proof -
      show "loaded_mapping ?mapping" by (rule load_fields_loaded [OF assms(1) Cons.prems(1)])
      show "ordered ?metadata" by (rule ordered_put [OF Cons.prems(2)])
      show "fst ` set ?mapping \<subseteq> fst ` set ?metadata" unfolding map_put_keys
        using load_fields_keys [of lib fid "fn_mappings v" mapping] Cons.prems(3) by (meson insert_mono order_trans)
    qed
    from Cons.IH [OF this] show ?thesis using Some by (simp add: LoadMapping_def load_frame_def)
  qed
qed (simp add: LoadMapping_def)

text \<open>
  C33: The mapping of frames to fields survives a restart.  Whatever file was loaded, saving
  and loading again gives the same frames, the same fields at the same offsets with their
  types, sizes, ranges and descriptions, line breaks included.  The metadata of every mapped
  frame are kept; a frame without fields is not saved, so its name and size are gone.
\<close>

theorem mapping_survives_reload:
  assumes "text_functions_documented lib"
    and "LoadMapping lib nodes ([], []) = (mapping, metadata)"
  shows "LoadMapping lib (SaveMapping lib mapping metadata) ([], []) =
    (mapping, filter (\<lambda>m. fst m \<in> fst ` set mapping) metadata)"
proof -
  have inv: "loaded_mapping mapping" "ordered metadata" "fst ` set mapping \<subseteq> fst ` set metadata"
    using LoadMapping_loaded [OF assms(1), of "[]" "[]" nodes] assms(2) by (simp_all add: loaded_mapping_def)
  have "LoadMapping lib (SaveMapping lib rest metadata) (before, filter (\<lambda>m. fst m \<in> fst ` set before) metadata) =
      (mapping, filter (\<lambda>m. fst m \<in> fst ` set mapping) metadata)" if "mapping = before @ rest" for before rest
    using that
  proof (induction rest arbitrary: before)
    case (Cons fr rest)
    obtain fid fs where fr: "fr = (fid, fs)" by (cases fr)
    obtain m where m: "map_of metadata fid = Some m"
      using inv(3) Cons.prems fr by (cases "map_of metadata fid") (auto simp: map_of_eq_None_iff)
    have less: "\<forall>x \<in> set before. fst x < fid"
      using inv(1) Cons.prems fr by (auto simp: loaded_mapping_def ordered_def sorted_wrt_append)
    have fields: "ordered fs" "\<forall>f \<in> set fs. loaded_field (snd f)" "fs \<noteq> []"
      using inv(1) Cons.prems fr by (auto simp: loaded_mapping_def)
    have meta: "map_put fid m (filter (\<lambda>x. fst x \<in> fst ` set before) metadata) =
        filter (\<lambda>x. fst x \<in> fst ` set (before @ [fr])) metadata"
      using put_metadata [OF inv(2) m, of "fst ` set before"] less by (simp add: fr)
    have eta: "\<lparr>fm_name = fm_name m, fm_size = fm_size m, fm_direction = fm_direction m\<rparr> = m" by simp
    have "load_frame lib (save_frame lib metadata fr) (before, filter (\<lambda>m. fst m \<in> fst ` set before) metadata) =
        (before @ [fr], filter (\<lambda>x. fst x \<in> fst ` set (before @ [fr])) metadata)"
      using load_saved_frame_fields [OF assms(1) less fields] m meta
      by (simp add: load_frame_def save_frame_def fr Let_def eta)
    then show ?case using Cons.IH [of "before @ [fr]"] Cons.prems by (simp add: LoadMapping_def SaveMapping_def)
  qed (simp add: LoadMapping_def SaveMapping_def)
  from this [of "[]" mapping] show ?thesis by simp
qed

lemma mapping_survives_reload_witness:
  "LoadMapping text_functions_on (SaveMapping text_functions_on [(0x123, vehicle_fields)] (sc_meta script_ready)) ([], []) =
    ([(0x123, vehicle_fields)], sc_meta script_ready)"
proof -
  let ?nodes = "SaveMapping text_functions_on [(0x123, vehicle_fields)] (sc_meta script_ready)"
  have "loaded_mapping [(0x123, vehicle_fields)]"
    by (simp add: loaded_mapping_def vehicle_fields_def loaded_field_def GetMinMaxForType_def m_CanTypeSizes_def escaped_feed_def)
  then have "fold (load_field text_functions_on 0x123) (map (save_field text_functions_on) vehicle_fields) [] = [(0x123, vehicle_fields)]"
    by (intro load_saved_frame_fields [of _ "[]", simplified] text_functions_on_documented) (simp_all add: loaded_mapping_def)
  then have load: "LoadMapping text_functions_on ?nodes ([], []) = ([(0x123, vehicle_fields)], sc_meta script_ready)"
    using ReadHexChild_hex_text [of "0x123"]
    by (simp add: LoadMapping_def SaveMapping_def load_frame_def save_frame_def script_ready_def Let_def)
  from mapping_survives_reload [OF text_functions_on_documented this]
  show ?thesis by (simp only: load)
qed

end
