(* ===== verification/SettingsIni.thy ===== *)
theory SettingsIni
  imports NumberText
begin

text \<open>
  The document behind the settings dialog.  Source: \<open>src/SettingsIniDocument.cpp\<close> and
  \<open>src/SettingsIniDocument.hpp\<close>: the settings file as its lines, and the entries that the
  dialog may edit with the place of each value in its line.  Positions are numbers; a missing
  \<open>entry_index\<close> is \<open>None\<close>.  The classification of characters is that of the C locale.
\<close>

section \<open>Characters and texts\<close>

definition is_space :: "char \<Rightarrow> bool" where
  "is_space c \<longleftrightarrow> (let n = of_char c :: nat in n = 32 \<or> 9 \<le> n \<and> n \<le> 13)"

definition to_lower :: "char \<Rightarrow> char" where
  "to_lower c = (let n = of_char c :: nat in if 65 \<le> n \<and> n \<le> 90 then char_of (n + 32) else c)"

definition IniTrim :: "string \<Rightarrow> string" where
  "IniTrim v = rev (dropWhile is_space (rev (dropWhile is_space v)))"

definition Normalize :: "string \<Rightarrow> string" where
  "Normalize v = map to_lower (filter (\<lambda>c. \<not> (c = CHR ''_'' \<or> c = CHR ''-'' \<or> is_space c)) v)"

definition begins :: "string \<Rightarrow> string \<Rightarrow> bool" where
  "begins s t \<longleftrightarrow> take (length t) s = t"

definition IsEditableSection :: "string \<Rightarrow> bool" where
  "IsEditableSection sec =
     (let normalized = Normalize sec
      in if normalized = ''macroconfig'' \<or> normalized = ''keysglobal'' \<or> begins normalized ''keysmacro'' then False
         else if normalized = ''backupsettings'' \<or> begins normalized ''backup'' then False
         else if normalized = ''cmdexecutor'' \<or> normalized = ''commandexecutor'' then False
         else normalized \<noteq> [])"

text \<open>The loop of \<open>FindInlineComment\<close>, from \<open>index\<close>.\<close>

definition comment_at :: "string \<Rightarrow> nat \<Rightarrow> nat \<Rightarrow> bool" where
  "comment_at line start i \<longleftrightarrow>
     (line ! i = CHR ''#'' \<or> line ! i = CHR '';'') \<and> (i = start \<or> is_space (line ! (i - 1)))"

definition FindInlineComment :: "string \<Rightarrow> nat \<Rightarrow> nat option" where
  "FindInlineComment line start = find (comment_at line start) [start..<length line]"

section \<open>Lines\<close>

record ini_line =
  il_content :: string
  il_ending :: string
  il_entry :: "nat option"

definition is_eol :: "char \<Rightarrow> bool" where
  "is_eol c \<longleftrightarrow> c = CHR 0x0D \<or> c = CHR 0x0A"

text \<open>The ending at the start of a text, which is empty or starts with a line end.\<close>

definition ending_of :: "string \<Rightarrow> string" where
  "ending_of s =
     (case s of [] \<Rightarrow> []
      | [c] \<Rightarrow> [c]
      | c # d # _ \<Rightarrow> if c = CHR 0x0D \<and> d = CHR 0x0A then [c, d] else [c])"

function split_lines :: "string \<Rightarrow> ini_line list" where
  "split_lines content =
     (if content = [] then []
      else
        let line = takeWhile (\<lambda>c. \<not> is_eol c) content;
            rest = dropWhile (\<lambda>c. \<not> is_eol c) content
        in \<lparr>il_content = line, il_ending = ending_of rest, il_entry = None\<rparr> #
           split_lines (drop (length (ending_of rest)) rest))"
  by pat_completeness auto
termination
proof (relation "measure length")
  fix content line rest :: string
  assume a: "content \<noteq> []" "line = takeWhile (\<lambda>c. \<not> is_eol c) content" "rest = dropWhile (\<lambda>c. \<not> is_eol c) content"
  have "length rest \<le> length content" using a(3) length_dropWhile_le by simp
  moreover have "0 < length (ending_of rest)" if "rest \<noteq> []"
    using that by (cases rest) (auto simp: ending_of_def split: list.splits)
  moreover have "length rest < length content" if "rest = []" using a(1) that by simp
  moreover have "length (ending_of rest) \<le> length rest" by (auto simp: ending_of_def split: list.splits)
  ultimately show "(drop (length (ending_of rest)) rest, content) \<in> measure length" using a(1) by (cases "rest = []") (auto simp: less_diff_conv2 le_less_trans diff_less)
qed simp

declare split_lines.simps [simp del]

lemma split_lines_Nil [simp]: "split_lines [] = []"
  by (simp add: split_lines.simps)

section \<open>Entries\<close>

record ini_entry =
  ie_section :: string
  ie_key :: string
  ie_value :: string
  ie_comment :: string
  ie_line :: nat
  ie_begin :: nat
  ie_end :: nat

text \<open>The end of the value: spaces before the comment, or the end of the line, do not belong to it.\<close>

fun trim_back :: "string \<Rightarrow> nat \<Rightarrow> nat \<Rightarrow> nat" where
  "trim_back line start 0 = 0"
| "trim_back line start (Suc stop) =
     (if start < Suc stop \<and> is_space (line ! stop) then trim_back line start stop else Suc stop)"

fun skip_spaces :: "string \<Rightarrow> nat \<Rightarrow> nat" where
  "skip_spaces s i = (case drop i s of [] \<Rightarrow> i | rest \<Rightarrow> i + length (takeWhile is_space rest))"

definition position :: "char \<Rightarrow> string \<Rightarrow> nat option" where
  "position c s = (if c \<in> set s then Some (length (takeWhile (\<lambda>x. x \<noteq> c) s)) else None)"

definition parse_entry :: "string \<Rightarrow> nat \<Rightarrow> string \<Rightarrow> ini_entry option" where
  "parse_entry sec line_index line =
     (case position CHR ''='' line of
        None \<Rightarrow> None
      | Some equals \<Rightarrow>
          let key = IniTrim (take equals line);
              value_begin = skip_spaces line (equals + 1);
              comment_begin = FindInlineComment line value_begin;
              value_end = trim_back line value_begin (case comment_begin of None \<Rightarrow> length line | Some c \<Rightarrow> c)
          in if key = [] then None
             else Some \<lparr>ie_section = sec, ie_key = key,
               ie_value = take (value_end - value_begin) (drop value_begin line),
               ie_comment = (case comment_begin of None \<Rightarrow> [] | Some c \<Rightarrow> IniTrim (drop (c + 1) line)),
               ie_line = line_index, ie_begin = value_begin, ie_end = value_end\<rparr>)"

datatype line_kind = Skipped | Malformed | Section_Header string | Setting

definition kind_of_line :: "string \<Rightarrow> line_kind" where
  "kind_of_line line =
     (case IniTrim line of
        [] \<Rightarrow> Skipped
      | c # rest \<Rightarrow>
          if c = CHR ''#'' \<or> c = CHR '';'' then Skipped
          else if c = CHR ''['' then
            (case position CHR '']'' (c # rest) of
               None \<Rightarrow> Malformed
             | Some closing \<Rightarrow> Section_Header (IniTrim (take (closing - 1) rest)))
          else Setting)"

text \<open>The loop over the lines: the line that is malformed, the lines with their entries, and the entries.\<close>

fun scan_lines :: "nat \<Rightarrow> string \<Rightarrow> nat \<Rightarrow> ini_line list \<Rightarrow> nat option \<times> ini_line list \<times> ini_entry list" where
  "scan_lines i sec n [] = (None, [], [])"
| "scan_lines i sec n (l # ls) =
     (case kind_of_line (il_content l) of
        Malformed \<Rightarrow> (Some i, l # ls, [])
      | Section_Header s \<Rightarrow> (case scan_lines (i + 1) s n ls of (e, ls', es) \<Rightarrow> (e, l # ls', es))
      | Skipped \<Rightarrow> (case scan_lines (i + 1) sec n ls of (e, ls', es) \<Rightarrow> (e, l # ls', es))
      | Setting \<Rightarrow>
          if sec = [] \<or> \<not> IsEditableSection sec
          then (case scan_lines (i + 1) sec n ls of (e, ls', es) \<Rightarrow> (e, l # ls', es))
          else (case parse_entry sec i (il_content l) of
                  None \<Rightarrow> (case scan_lines (i + 1) sec n ls of (e, ls', es) \<Rightarrow> (e, l # ls', es))
                | Some entry \<Rightarrow>
                    (case scan_lines (i + 1) sec (n + 1) ls of
                       (e, ls', es) \<Rightarrow> (e, l\<lparr>il_entry := Some n\<rparr> # ls', entry # es))))"

datatype ini_error = EmptyFile | MalformedHeader nat | NoEditableSettings

record ini_document =
  id_lines :: "ini_line list"
  id_entries :: "ini_entry list"

definition IniParse :: "string \<Rightarrow> ini_error option \<times> ini_document" where
  "IniParse content =
     (let ls = split_lines content
      in if content = [] then (Some EmptyFile, \<lparr>id_lines = ls, id_entries = []\<rparr>)
         else case scan_lines 0 [] 0 ls of
           (Some i, ls', es) \<Rightarrow> (Some (MalformedHeader (i + 1)), \<lparr>id_lines = ls', id_entries = es\<rparr>)
         | (None, ls', es) \<Rightarrow>
             (if es = [] then Some NoEditableSettings else None, \<lparr>id_lines = ls', id_entries = es\<rparr>))"

definition render_line :: "ini_entry list \<Rightarrow> ini_line \<Rightarrow> string" where
  "render_line es l =
     (case il_entry l of
        None \<Rightarrow> il_content l
      | Some k \<Rightarrow> take (ie_begin (es ! k)) (il_content l) @ ie_value (es ! k) @ drop (ie_end (es ! k)) (il_content l)) @
     il_ending l"

definition IniRender :: "ini_document \<Rightarrow> string" where
  "IniRender doc = concat (map (render_line (id_entries doc)) (id_lines doc))"


section \<open>Rendering restores the text\<close>

lemma ending_of_take: "ending_of rest @ drop (length (ending_of rest)) rest = rest"
  by (auto simp: ending_of_def split: list.splits)

lemma concat_split_lines: "concat (map (\<lambda>l. il_content l @ il_ending l) (split_lines content)) = content"
proof (induction content rule: split_lines.induct)
  case (1 content)
  show ?case
  proof (cases "content = []")
    case False
    let ?line = "takeWhile (\<lambda>c. \<not> is_eol c) content" and ?rest = "dropWhile (\<lambda>c. \<not> is_eol c) content"
    have "split_lines content = \<lparr>il_content = ?line, il_ending = ending_of ?rest, il_entry = None\<rparr> #
        split_lines (drop (length (ending_of ?rest)) ?rest)"
      using False by (subst split_lines.simps) (simp add: Let_def)
    then show ?thesis using 1 [OF False refl refl] ending_of_take [of ?rest] by simp
  qed (simp add: split_lines.simps)
qed

lemma skip_spaces_le: "i \<le> length s \<Longrightarrow> skip_spaces s i \<le> length s"
proof -
  assume "i \<le> length s"
  have "length (takeWhile is_space (drop i s)) \<le> length (drop i s)" by (rule length_takeWhile_le)
  then show ?thesis using \<open>i \<le> length s\<close> by (auto split: list.splits)
qed

lemma trim_back_le: "trim_back line start stop \<le> stop"
  by (induction line start stop rule: trim_back.induct) (auto intro: le_SucI)

lemma trim_back_ge: "start \<le> stop \<Longrightarrow> start \<le> trim_back line start stop"
  by (induction line start stop rule: trim_back.induct) auto

lemma FindInlineComment_Some:
  "FindInlineComment line start = Some c \<Longrightarrow> start \<le> c \<and> c < length line \<and> comment_at line start c"
  by (auto simp: FindInlineComment_def find_Some_iff)

text \<open>An entry's value is the part of its line between its positions.\<close>

definition in_line :: "ini_entry \<Rightarrow> string \<Rightarrow> bool" where
  "in_line e line \<longleftrightarrow> ie_begin e \<le> ie_end e \<and> ie_end e \<le> length line \<and>
     ie_value e = take (ie_end e - ie_begin e) (drop (ie_begin e) line)"

lemma position_append: "c \<notin> set ys \<Longrightarrow> position c (ys @ c # zs) = Some (length ys)"
proof -
  assume "c \<notin> set ys"
  then have "\<forall>x \<in> set ys. x \<noteq> c" by auto
  then show ?thesis by (simp add: position_def takeWhile_append2)
qed

lemma position_Some:
  "position c s = Some p \<Longrightarrow> \<exists>ys zs. s = ys @ c # zs \<and> c \<notin> set ys \<and> p = length ys"
proof -
  assume p: "position c s = Some p"
  then have "c \<in> set s" by (auto simp: position_def split: if_splits)
  from split_list_first [OF this] obtain ys zs where "s = ys @ c # zs" "c \<notin> set ys" by blast
  then show ?thesis using p by (auto simp: position_append)
qed

lemma position_less: "position c s = Some p \<Longrightarrow> p < length s"
  by (drule position_Some) auto

lemma parse_entry_in_line: "parse_entry sec i line = Some e \<Longrightarrow> in_line e line"
proof -
  assume e: "parse_entry sec i line = Some e"
  then obtain equals where eq: "position CHR ''='' line = Some equals"
    by (auto simp: parse_entry_def split: option.splits)
  let ?b = "skip_spaces line (equals + 1)"
  let ?stop = "case FindInlineComment line ?b of None \<Rightarrow> length line | Some c \<Rightarrow> c"
  have b: "?b \<le> length line" using position_less [OF eq] by (intro skip_spaces_le) simp
  have stop: "?b \<le> ?stop \<and> ?stop \<le> length line"
  proof (cases "FindInlineComment line ?b")
    case (Some c)
    then show ?thesis using FindInlineComment_Some [OF Some] by (simp del: skip_spaces.simps)
  qed (use b in \<open>simp del: skip_spaces.simps\<close>)
  show ?thesis using e eq stop trim_back_le [of line ?b ?stop] trim_back_ge [of ?b ?stop line]
    by (auto simp: parse_entry_def Let_def in_line_def simp del: skip_spaces.simps split: if_splits)
qed

lemma value_in_place: "in_line e line \<Longrightarrow> take (ie_begin e) line @ ie_value e @ drop (ie_end e) line = line"
proof -
  assume e: "in_line e line"
  then have "ie_value e @ drop (ie_end e) line = drop (ie_begin e) line"
    using append_take_drop_id [of "ie_end e - ie_begin e" "drop (ie_begin e) line"] by (auto simp: in_line_def)
  then show ?thesis by simp
qed

subsection \<open>A scan, line by line\<close>

definition next_section :: "string \<Rightarrow> string \<Rightarrow> string" where
  "next_section sec line = (case kind_of_line line of Section_Header s \<Rightarrow> s | _ \<Rightarrow> sec)"

definition entry_of :: "string \<Rightarrow> nat \<Rightarrow> string \<Rightarrow> ini_entry option" where
  "entry_of sec i line =
     (if kind_of_line line = Setting \<and> sec \<noteq> [] \<and> IsEditableSection sec then parse_entry sec i line else None)"

lemma scan_step:
  assumes "kind_of_line (il_content l) \<noteq> Malformed"
  shows "scan_lines i sec n (l # ls) =
    (case entry_of sec i (il_content l) of
       None \<Rightarrow> (case scan_lines (i + 1) (next_section sec (il_content l)) n ls of (err, ls', es) \<Rightarrow> (err, l # ls', es))
     | Some e \<Rightarrow> (case scan_lines (i + 1) (next_section sec (il_content l)) (n + 1) ls of
         (err, ls', es) \<Rightarrow> (err, l\<lparr>il_entry := Some n\<rparr> # ls', e # es)))"
  using assms by (auto simp: entry_of_def next_section_def split: line_kind.splits option.splits)

text \<open>The lines with new values for the entries, in order.\<close>

definition edit_line :: "ini_entry \<Rightarrow> string \<Rightarrow> string \<Rightarrow> string" where
  "edit_line e v line = take (ie_begin e) line @ v @ drop (ie_end e) line"

fun edit_lines :: "nat \<Rightarrow> string \<Rightarrow> ini_line list \<Rightarrow> string list \<Rightarrow> ini_line list" where
  "edit_lines i sec [] vs = []"
| "edit_lines i sec (l # ls) vs =
     (if kind_of_line (il_content l) = Malformed then l # ls
      else case entry_of sec i (il_content l) of
        None \<Rightarrow> l # edit_lines (i + 1) (next_section sec (il_content l)) ls vs
      | Some e \<Rightarrow> l\<lparr>il_content := edit_line e (hd vs) (il_content l)\<rparr> #
          edit_lines (i + 1) (next_section sec (il_content l)) ls (tl vs))"

definition with_values :: "ini_entry list \<Rightarrow> string list \<Rightarrow> ini_entry list" where
  "with_values es vs = map2 (\<lambda>e v. e\<lparr>ie_value := v\<rparr>) es vs"

lemma with_values_simps [simp]:
  "with_values [] vs = []" "with_values (e # es) (v # vs) = e\<lparr>ie_value := v\<rparr> # with_values es vs"
  by (simp_all add: with_values_def)

lemma with_values_same [simp]: "with_values es (map ie_value es) = es"
  by (induction es) simp_all

lemma render_edited:
  assumes "scan_lines i sec n ls = (err, ls', es)" "\<forall>l \<in> set ls. il_entry l = None" "length before = n" "length vs = length es"
  shows "map (render_line (before @ with_values es vs)) ls' = map (\<lambda>l. il_content l @ il_ending l) (edit_lines i sec ls vs)"
  using assms
proof (induction ls arbitrary: i sec n ls' es before vs)
  case (Cons l ls)
  have plain: "render_line xs l = il_content l @ il_ending l" for xs using Cons.prems(2) by (simp add: render_line_def)
  show ?case
  proof (cases "kind_of_line (il_content l) = Malformed")
    case True
    then show ?thesis using Cons.prems by (auto simp: render_line_def)
  next
    case False
    show ?thesis
    proof (cases "entry_of sec i (il_content l)")
      case None
      obtain ls1 where "scan_lines (i + 1) (next_section sec (il_content l)) n ls = (err, ls1, es)" "ls' = l # ls1"
        using Cons.prems(1) unfolding scan_step [OF False] None by (auto split: prod.splits)
      then show ?thesis using Cons.IH [of "i + 1" _ n ls1 es before vs] Cons.prems False None plain by simp
    next
      case (Some e)
      obtain ls1 es1 where tail: "scan_lines (i + 1) (next_section sec (il_content l)) (n + 1) ls = (err, ls1, es1)"
          "ls' = l\<lparr>il_entry := Some n\<rparr> # ls1" "es = e # es1"
        using Cons.prems(1) unfolding scan_step [OF False] Some by (auto split: prod.splits)
      obtain v vs1 where vs: "vs = v # vs1" "length vs1 = length es1"
        using Cons.prems(4) tail(3) by (cases vs) auto
      have "map (render_line ((before @ [e\<lparr>ie_value := v\<rparr>]) @ with_values es1 vs1)) ls1 =
          map (\<lambda>l. il_content l @ il_ending l) (edit_lines (i + 1) (next_section sec (il_content l)) ls vs1)"
        using Cons.prems by (intro Cons.IH [OF tail(1)]) (simp_all add: vs)
      moreover have "render_line ((before @ [e\<lparr>ie_value := v\<rparr>]) @ with_values es1 vs1) (l\<lparr>il_entry := Some n\<rparr>) =
          edit_line e v (il_content l) @ il_ending l"
        by (simp add: render_line_def edit_line_def flip: Cons.prems(3))
      ultimately show ?thesis using False Some by (simp add: tail(2,3) vs(1))
    qed
  qed
qed simp

lemma entry_of_in_line: "entry_of sec i line = Some e \<Longrightarrow> in_line e line"
  by (auto simp: entry_of_def intro: parse_entry_in_line split: if_splits)

lemma edit_with_own_values:
  "scan_lines i sec n ls = (err, ls', es) \<Longrightarrow> edit_lines i sec ls (map ie_value es) = ls"
proof (induction ls arbitrary: i sec n ls' es)
  case (Cons l ls)
  show ?case
  proof (cases "kind_of_line (il_content l) = Malformed")
    case False
    show ?thesis
    proof (cases "entry_of sec i (il_content l)")
      case None
      obtain ls1 where "scan_lines (i + 1) (next_section sec (il_content l)) n ls = (err, ls1, es)"
        using Cons.prems(1) unfolding scan_step [OF False] None by (auto split: prod.splits)
      then show ?thesis using Cons.IH False None by simp
    next
      case (Some e)
      obtain ls1 es1 where "scan_lines (i + 1) (next_section sec (il_content l)) (n + 1) ls = (err, ls1, es1)" "es = e # es1"
        using Cons.prems(1) unfolding scan_step [OF False] Some by (auto split: prod.splits)
      then show ?thesis using Cons.IH False Some value_in_place [OF entry_of_in_line [OF Some]] by (simp add: edit_line_def)
    qed
  qed simp
qed simp

lemma split_lines_entry: "l \<in> set (split_lines content) \<Longrightarrow> il_entry l = None"
proof (induction content rule: split_lines.induct)
  case (1 content)
  then show ?case by (cases "content = []") (auto simp: split_lines.simps [of content] Let_def)
qed


section \<open>The shape of an entry's line\<close>

text \<open>
  Everything up to the equals sign, spaces, the value, spaces, and a comment or nothing.  An
  empty value has its spaces before it.
\<close>

definition clean_value :: "string \<Rightarrow> bool" where
  "clean_value v \<longleftrightarrow> (v \<noteq> [] \<longrightarrow> \<not> is_space (hd v) \<and> \<not> is_space (last v)) \<and> FindInlineComment v 0 = None"

definition spaces :: "string \<Rightarrow> bool" where
  "spaces s \<longleftrightarrow> (\<forall>c \<in> set s. is_space c)"

definition comment_text :: "string \<Rightarrow> bool" where
  "comment_text t \<longleftrightarrow> t = [] \<or> hd t = CHR ''#'' \<or> hd t = CHR '';''"

lemma comment_text_Nil [simp]: "comment_text []"
  by (simp add: comment_text_def)

definition line_shape :: "string \<Rightarrow> string \<Rightarrow> string \<Rightarrow> string \<Rightarrow> string \<Rightarrow> bool" where
  "line_shape key_part before v after comment \<longleftrightarrow>
     (\<exists>k. key_part = k @ [CHR ''=''] \<and> CHR ''='' \<notin> set k \<and> IniTrim k \<noteq> []) \<and>
     spaces before \<and> spaces after \<and> clean_value v \<and> (v = [] \<longrightarrow> after = []) \<and>
     comment_text comment \<and> (comment \<noteq> [] \<and> after = [] \<longrightarrow> v = [])"

lemma FindInlineComment_eq_Some:
  "FindInlineComment s 0 = Some c \<longleftrightarrow> c < length s \<and> comment_at s 0 c \<and> (\<forall>j < c. \<not> comment_at s 0 j)"
  by (simp add: FindInlineComment_def find_upt_eq_Some)

lemma FindInlineComment_eq_None: "FindInlineComment s 0 = None \<longleftrightarrow> (\<forall>j < length s. \<not> comment_at s 0 j)"
  by (auto simp: FindInlineComment_def find_None_iff)

lemma comment_at_drop: "b + j < length s \<Longrightarrow> comment_at s b (b + j) = comment_at (drop b s) 0 j"
  by (cases j) (auto simp: comment_at_def)

lemma FindInlineComment_drop:
  assumes "b \<le> length s"
  shows "FindInlineComment s b = map_option ((+) b) (FindInlineComment (drop b s) 0)"
proof (cases "FindInlineComment (drop b s) 0")
  case None
  have "\<not> comment_at s b i" if "b \<le> i" "i < length s" for i
    using None comment_at_drop [of b "i - b" s] that by (auto simp: FindInlineComment_eq_None)
  then have "FindInlineComment s b = None" by (auto simp: FindInlineComment_def find_None_iff)
  then show ?thesis using None by simp
next
  case (Some c)
  then have c: "c < length s - b" "comment_at (drop b s) 0 c" "\<And>j. j < c \<Longrightarrow> \<not> comment_at (drop b s) 0 j"
    by (auto simp: FindInlineComment_eq_Some)
  have "\<not> comment_at s b j" if "b \<le> j" "j < b + c" for j
    using c(3) [of "j - b"] comment_at_drop [of b "j - b" s] that c(1) by auto
  then have "FindInlineComment s b = Some (b + c)"
    using c(1,2) comment_at_drop [of b c s] by (auto simp: FindInlineComment_def find_upt_eq_Some)
  then show ?thesis using Some by simp
qed

lemma space_no_comment: "is_space c \<Longrightarrow> c \<noteq> CHR ''#'' \<and> c \<noteq> CHR '';''"
  by (auto simp: is_space_def)

lemma comment_at_append: "j < length v \<Longrightarrow> comment_at (v @ w) 0 j = comment_at v 0 j"
  by (auto simp: comment_at_def nth_append)

lemma comment_in_shape:
  assumes "line_shape a b v after comment"
  shows "FindInlineComment (v @ after @ comment) 0 = (if comment = [] then None else Some (length v + length after))"
proof -
  have quiet: "\<not> comment_at (v @ after @ comment) 0 j" if "j < length v + length after" for j
  proof (cases "j < length v")
    case True
    have "\<not> comment_at v 0 j"
      using assms True unfolding line_shape_def clean_value_def FindInlineComment_eq_None by blast
    then show ?thesis by (simp only: comment_at_append [OF True] not_False_eq_True)
  next
    case False
    then have "(v @ after @ comment) ! j \<in> set after" using that by (auto simp: nth_append)
    moreover have "spaces after" using assms unfolding line_shape_def by (elim conjE)
    ultimately have "is_space ((v @ after @ comment) ! j)" unfolding spaces_def by blast
    from space_no_comment [OF this] show ?thesis by (simp add: comment_at_def)
  qed
  show ?thesis
  proof (cases "comment = []")
    case True
    then show ?thesis using quiet by (auto simp: FindInlineComment_eq_None)
  next
    case False
    have head: "(v @ after @ comment) ! (length v + length after) = hd comment"
      using False by (simp add: nth_append hd_conv_nth)
    have "length v + length after = 0 \<or> is_space ((v @ after @ comment) ! (length v + length after - 1))"
    proof (cases "after = []")
      case True
      then show ?thesis using assms False by (auto simp: line_shape_def)
    next
      case n: False
      then have "(v @ after @ comment) ! (length v + (length after - 1)) = last after"
        by (simp add: nth_append last_conv_nth)
      moreover have "length v + length after - 1 = length v + (length after - 1)" using n by (cases after) simp_all
      ultimately have "(v @ after @ comment) ! (length v + length after - 1) = last after" by (simp only:)
      then show ?thesis using assms n by (auto simp: line_shape_def spaces_def)
    qed
    moreover have "hd comment = CHR ''#'' \<or> hd comment = CHR '';''" using assms False unfolding line_shape_def comment_text_def by blast
    ultimately have "comment_at (v @ after @ comment) 0 (length v + length after)"
      unfolding comment_at_def head by blast
    then show ?thesis using quiet False by (auto simp: FindInlineComment_eq_Some)
  qed
qed

lemma trim_back_eq:
  "start \<le> t \<Longrightarrow> t \<le> stop \<Longrightarrow> \<forall>j. t \<le> j \<and> j < stop \<longrightarrow> is_space (line ! j) \<Longrightarrow>
   t = start \<or> \<not> is_space (line ! (t - 1)) \<Longrightarrow> trim_back line start stop = t"
proof (induction stop)
  case (Suc stop)
  show ?case
  proof (cases "t = Suc stop")
    case False
    then show ?thesis using Suc by auto
  qed (use Suc in auto)
qed simp

lemma parse_entry_shape:
  assumes "line_shape a b v after comment"
  shows "parse_entry sec i (a @ b @ v @ after @ comment) = Some \<lparr>ie_section = sec, ie_key = IniTrim (butlast a),
    ie_value = v, ie_comment = (if comment = [] then [] else IniTrim (tl comment)), ie_line = i,
    ie_begin = length a + length b, ie_end = length a + length b + length v\<rparr>"
proof -
  let ?line = "a @ b @ v @ after @ comment" and ?vb = "length a + length b"
  obtain k where k: "a = k @ [CHR ''='']" "CHR ''='' \<notin> set k" "IniTrim k \<noteq> []"
    using assms by (auto simp: line_shape_def)
  have eq: "position CHR ''='' ?line = Some (length k)" using position_append [OF k(2)] by (simp add: k(1))
  have stop_space: "v @ after @ comment = [] \<or> \<not> is_space (hd (v @ after @ comment))"
  proof (cases "v = []")
    case True
    then have "after = []" using assms by (simp add: line_shape_def)
    moreover have "comment_text comment" using assms unfolding line_shape_def by (elim conjE)
    then have "comment = [] \<or> \<not> is_space (hd comment)"
      using space_no_comment [of "hd comment"] unfolding comment_text_def by blast
    ultimately have "after = []" "comment = [] \<or> \<not> is_space (hd comment)" .
    then show ?thesis using True by auto
  qed (use assms in \<open>simp add: line_shape_def clean_value_def\<close>)
  have "takeWhile is_space (b @ v @ after @ comment) = b"
  proof -
    have "takeWhile is_space u = []" if "u = [] \<or> \<not> is_space (hd u)" for u
      using that by (cases u) auto
    moreover have "spaces b" using assms unfolding line_shape_def by (elim conjE)
    then have "takeWhile is_space (b @ u) = b @ takeWhile is_space u" for u
      unfolding spaces_def by (intro takeWhile_append2) blast
    ultimately show ?thesis using stop_space by simp
  qed
  moreover have "drop (length k + 1) ?line = b @ v @ after @ comment" by (simp add: k(1))
  ultimately have vb: "skip_spaces ?line (length k + 1) = ?vb"
    unfolding skip_spaces.simps by (cases "b @ v @ after @ comment") (auto simp: k(1))
  have tail: "drop ?vb ?line = v @ after @ comment" by simp
  have found: "FindInlineComment ?line ?vb = (if comment = [] then None else Some (?vb + (length v + length after)))"
    using FindInlineComment_drop [of ?vb ?line] comment_in_shape [OF assms] unfolding tail by auto
  then have stop: "(case FindInlineComment ?line ?vb of None \<Rightarrow> length ?line | Some c \<Rightarrow> c) = ?vb + (length v + length after)"
    by simp
  have ve: "trim_back ?line ?vb (?vb + (length v + length after)) = ?vb + length v"
  proof (rule trim_back_eq)
    show "\<forall>j. ?vb + length v \<le> j \<and> j < ?vb + (length v + length after) \<longrightarrow> is_space (?line ! j)"
    proof (intro allI impI)
      fix j assume j: "?vb + length v \<le> j \<and> j < ?vb + (length v + length after)"
      define m where "m = j - (?vb + length v)"
      have m: "j = length a + (length b + (length v + m))" "m < length after" using j unfolding m_def by linarith+
      have "?line ! j = after ! m" using m(2) unfolding m(1) by (simp add: nth_append_length_plus nth_append)
      moreover have "spaces after" using assms unfolding line_shape_def by (elim conjE)
      ultimately show "is_space (?line ! j)" using m(2) unfolding spaces_def by simp
    qed
    show "?vb + length v = ?vb \<or> \<not> is_space (?line ! (?vb + length v - 1))"
    proof (cases "v = []")
      case False
      then have i: "?vb + length v - 1 = length a + (length b + (length v - 1))" by (cases v) simp_all
      have "?line ! (?vb + length v - 1) = v ! (length v - 1)"
        using False unfolding i by (simp add: nth_append_length_plus nth_append)
      then have "?line ! (?vb + length v - 1) = last v" using False by (simp add: last_conv_nth)
      then show ?thesis using assms False by (simp add: line_shape_def clean_value_def)
    qed simp
  qed simp_all
  have comment: "comment \<noteq> [] \<Longrightarrow> drop (Suc (?vb + (length v + length after))) ?line = tl comment"
    by (cases comment) simp_all
  have key: "IniTrim (take (length k) ?line) = IniTrim (butlast a)" by (simp add: k(1))
  have named: "IniTrim (butlast a) \<noteq> []" using k(3) by (simp add: k(1))
  have val: "take (?vb + length v - ?vb) (drop ?vb ?line) = v" by simp
  have com: "(case FindInlineComment ?line ?vb of None \<Rightarrow> [] | Some c \<Rightarrow> IniTrim (drop (c + 1) ?line)) =
      (if comment = [] then [] else IniTrim (tl comment))"
  proof (cases "comment = []")
    case False
    then show ?thesis unfolding found using comment [OF False] by (simp only: if_False option.case add_Suc_right Suc_eq_plus1 [symmetric])
  qed (unfold found, simp)
  show ?thesis unfolding parse_entry_def eq option.case Let_def vb stop ve key val com
    by (simp only: named if_False)
qed

section \<open>Rendering restores what was parsed\<close>

lemma scan_none: "\<forall>l \<in> set (split_lines content). il_entry l = None"
  by (blast intro: split_lines_entry)

lemma IniParse_scan:
  "scan_lines 0 [] 0 (split_lines content) = (err, id_lines (snd (IniParse content)), id_entries (snd (IniParse content))) \<or>
   content = []" if "err = fst (scan_lines 0 [] 0 (split_lines content))"
  using that by (auto simp: IniParse_def Let_def split: prod.splits option.splits)

text \<open>C39: rendering a document that was just parsed restores the file's text, whatever the text.\<close>

theorem render_restores: "IniRender (snd (IniParse content)) = content"
proof (cases "content = []")
  case False
  let ?doc = "snd (IniParse content)"
  obtain err where s: "scan_lines 0 [] 0 (split_lines content) = (err, id_lines ?doc, id_entries ?doc)"
    using IniParse_scan [OF refl] False by blast
  have "map (render_line (id_entries ?doc)) (id_lines ?doc) = map (\<lambda>l. il_content l @ il_ending l) (split_lines content)"
    using render_edited [OF s scan_none, of "[]" "map ie_value (id_entries ?doc)"] edit_with_own_values [OF s] by simp
  then show ?thesis by (simp add: IniRender_def concat_split_lines)
qed (simp add: IniParse_def IniRender_def)

section \<open>Every entry's line has the shape\<close>

lemma spaces_takeWhile [simp]: "spaces (takeWhile is_space s)"
  by (auto simp: spaces_def dest: set_takeWhileD)

lemma spaces_rev [simp]: "spaces (rev s) = spaces s"
  by (simp add: spaces_def)

lemma spaces_append [simp]: "spaces (s @ t) \<longleftrightarrow> spaces s \<and> spaces t"
  by (auto simp: spaces_def)

lemma spaces_dropWhile: "dropWhile is_space s = [] \<longleftrightarrow> spaces s"
  by (auto simp: spaces_def)

text \<open>The value and what follows it: \<open>u\<close> starts at the value.\<close>

definition value_shape :: "string \<Rightarrow> string \<Rightarrow> string \<Rightarrow> bool" where
  "value_shape v after comment \<longleftrightarrow>
     spaces after \<and> clean_value v \<and> (v = [] \<longrightarrow> after = []) \<and>
     comment_text comment \<and> (comment \<noteq> [] \<and> after = [] \<longrightarrow> v = [])"

lemma line_shape_value:
  "line_shape a b v after comment \<longleftrightarrow>
     (\<exists>k. a = k @ [CHR ''=''] \<and> CHR ''='' \<notin> set k \<and> IniTrim k \<noteq> []) \<and> spaces b \<and> value_shape v after comment"
  by (simp add: line_shape_def value_shape_def)

lemma value_shape_exists:
  assumes u: "u = [] \<or> \<not> is_space (hd u)"
  shows "\<exists>v after comment. u = v @ after @ comment \<and> value_shape v after comment"
proof -
  define n where "n = (case FindInlineComment u 0 of None \<Rightarrow> length u | Some c \<Rightarrow> c)"
  define comment where "comment = drop n u"
  define v where "v = rev (dropWhile is_space (rev (take n u)))"
  define after where "after = rev (takeWhile is_space (rev (take n u)))"
  have body: "v @ after = take n u"
    unfolding v_def after_def rev_append [symmetric] takeWhile_dropWhile_id by simp
  then have parts: "u = v @ after @ comment" by (simp add: comment_def flip: append_assoc)
  have quiet: "\<not> comment_at u 0 j" if "j < length (v @ after)" for j
    using that unfolding body by (cases "FindInlineComment u 0")
      (auto simp: n_def FindInlineComment_eq_None FindInlineComment_eq_Some)
  have last: "\<not> is_space (last v)" if "v \<noteq> []"
    using that hd_dropWhile [of is_space "rev (take n u)"] by (simp add: v_def last_rev)
  have first: "\<not> is_space (hd v)" if "v \<noteq> []" using that u parts by auto
  have "clean_value v" using first last quiet comment_at_append [of _ v "after @ comment"] parts
    by (simp add: clean_value_def FindInlineComment_eq_None)
  moreover have "spaces after" by (simp add: after_def)
  moreover have "after = []" if "v = []"
  proof (rule ccontr)
    assume "after \<noteq> []"
    then have "is_space (hd u)" "u \<noteq> []" using \<open>spaces after\<close> that parts by (auto simp: spaces_def)
    then show False using u by simp
  qed
  moreover have "comment = [] \<or> (comment_at u 0 (length (v @ after)) \<and> u ! length (v @ after) = hd comment)"
  proof (cases "FindInlineComment u 0")
    case None
    then show ?thesis by (simp add: comment_def n_def)
  next
    case (Some c)
    have "n = c" by (simp add: n_def Some)
    moreover have "c < length u" "comment_at u 0 c" using Some by (auto simp: FindInlineComment_eq_Some)
    ultimately have "n = c" "c < length u" "comment_at u 0 c" .
    then show ?thesis unfolding body by (simp add: comment_def hd_drop_conv_nth)
  qed
  then have mark: "comment = [] \<or> comment_at u 0 (length (v @ after)) \<and> u ! length (v @ after) = hd comment" .
  moreover have "v = []" if "comment \<noteq> []" "after = []"
  proof (rule ccontr)
    assume "v \<noteq> []"
    then have "is_space (u ! (length v - 1))" using mark that by (auto simp: comment_at_def)
    moreover have "u ! (length v - 1) = last v" using \<open>v \<noteq> []\<close> parts by (simp add: nth_append last_conv_nth)
    ultimately show False using last \<open>v \<noteq> []\<close> by simp
  qed
  moreover have "comment_text comment" using mark unfolding comment_at_def comment_text_def by auto
  ultimately have "value_shape v after comment" unfolding value_shape_def by blast
  then show ?thesis using parts by blast
qed

lemma parse_entry_has_shape:
  assumes "parse_entry sec i line = Some e"
  shows "\<exists>a b v after comment. line = a @ b @ v @ after @ comment \<and> line_shape a b v after comment"
proof -
  obtain p where p: "position CHR ''='' line = Some p" "IniTrim (take p line) \<noteq> []"
    using assms by (auto simp: parse_entry_def Let_def split: option.splits if_splits)
  obtain k r where k: "line = k @ CHR ''='' # r" "CHR ''='' \<notin> set k" "p = length k"
    using position_Some [OF p(1)] by blast
  have "dropWhile is_space r = [] \<or> \<not> is_space (hd (dropWhile is_space r))" using hd_dropWhile by blast
  from value_shape_exists [OF this] obtain v after comment where
    v: "dropWhile is_space r = v @ after @ comment" "value_shape v after comment" by blast
  have "line = (k @ [CHR ''='']) @ takeWhile is_space r @ v @ after @ comment"
    unfolding k(1) v(1) [symmetric] by simp
  moreover have "line_shape (k @ [CHR ''='']) (takeWhile is_space r) v after comment"
    using k p(2) v(2) by (simp add: line_shape_value)
  ultimately show ?thesis by blast
qed

section \<open>An edited line\<close>

lemma trim_start: "dropWhile is_space k \<noteq> [] \<Longrightarrow> dropWhile is_space (k @ r) = dropWhile is_space k @ r"
  by (induction k) auto

lemma trim_end_hd: "w \<noteq> [] \<Longrightarrow> \<not> is_space (hd w) \<Longrightarrow> \<exists>r. rev (dropWhile is_space (rev w)) = hd w # r"
proof -
  assume w: "w \<noteq> []" "\<not> is_space (hd w)"
  then obtain c r where c: "w = c # r" "\<not> is_space c" by (cases w) auto
  then have "rev (dropWhile is_space (rev w)) = c # rev (dropWhile is_space (rev r))"
    by (simp add: dropWhile_append3 dropWhile_append)
  then show ?thesis by (simp add: c(1))
qed

text \<open>What kind a line has is decided before its equals sign.\<close>

lemma kind_of_setting:
  assumes "IniTrim k \<noteq> []"
  shows "kind_of_line (k @ r) = Setting \<longleftrightarrow> hd (dropWhile is_space k) \<notin> {CHR ''#'', CHR '';'', CHR ''[''}"
proof -
  let ?w = "dropWhile is_space k"
  have ne: "?w \<noteq> []"
  proof
    assume "?w = []"
    then show False using assms by (simp only: IniTrim_def rev.simps dropWhile.simps not_True_eq_False)
  qed
  then have "dropWhile is_space (k @ r) = ?w @ r" "hd (?w @ r) = hd ?w" by (auto simp: trim_start)
  then obtain t where t: "IniTrim (k @ r) = hd ?w # t"
    using trim_end_hd [of "?w @ r"] hd_dropWhile [OF ne] ne by (auto simp: IniTrim_def)
  show ?thesis unfolding kind_of_line_def t by (auto split: option.splits)
qed

text \<open>What the dialog shows of an entry.\<close>

definition shown :: "ini_entry \<Rightarrow> string \<times> string \<times> string \<times> string" where
  "shown e = (ie_section e, ie_key e, ie_value e, ie_comment e)"

text \<open>
  A value that its line can carry: no space around it, no comment and no line end in it, and
  when it replaces an empty value, nothing after that value in the line.
\<close>

definition settable :: "string \<Rightarrow> ini_entry \<Rightarrow> string \<Rightarrow> bool" where
  "settable line e v \<longleftrightarrow>
     clean_value v \<and> list_all (\<lambda>c. \<not> is_eol c) v \<and> (v = [] \<or> ie_value e \<noteq> [] \<or> ie_end e = length line)"

lemma edit_shape:
  assumes "line_shape a b v after comment" "clean_value w" "w = [] \<or> v \<noteq> [] \<or> comment = []"
  shows "\<exists>b' after'. a @ b @ w @ after @ comment = a @ b' @ w @ after' @ comment \<and> line_shape a b' w after' comment"
proof (cases "w = []")
  case True
  have "clean_value []" by (simp add: clean_value_def FindInlineComment_def)
  moreover obtain "\<exists>k. a = k @ [CHR ''=''] \<and> CHR ''='' \<notin> set k \<and> IniTrim k \<noteq> []" "spaces (b @ after)" "comment_text comment"
    using assms(1) unfolding line_shape_def spaces_append by blast
  moreover have "spaces []" by (simp add: spaces_def)
  ultimately have "line_shape a (b @ after) [] [] comment" unfolding line_shape_def by blast
  then show ?thesis using True by (intro exI [of _ "b @ after"] exI [of _ "[]"]) simp
next
  case False
  have "after \<noteq> [] \<or> comment = []" using assms False unfolding line_shape_def by blast
  then have "line_shape a b w after comment" using assms(1,2) False unfolding line_shape_def by blast
  then show ?thesis by blast
qed

lemma edited_entry:
  assumes "entry_of sec i line = Some e" "settable line e w"
  shows "\<exists>e'. entry_of sec i (edit_line e w line) = Some e' \<and> shown e' = shown (e\<lparr>ie_value := w\<rparr>)"
proof -
  have e: "parse_entry sec i line = Some e" "kind_of_line line = Setting" "sec \<noteq> []" "IsEditableSection sec"
    using assms(1) by (auto simp: entry_of_def split: if_splits)
  obtain a b v after comment where line: "line = a @ b @ v @ after @ comment" and shape: "line_shape a b v after comment"
    using parse_entry_has_shape [OF e(1)] by blast
  note parsed = parse_entry_shape [OF shape, of sec i, folded line, unfolded e(1), simplified]
  have tail: "ie_end e = length line \<Longrightarrow> v = [] \<Longrightarrow> comment = []" by (simp add: parsed line)
  have "ie_value e = v" by (simp add: parsed)
  then have "w = [] \<or> v \<noteq> [] \<or> comment = []" using assms(2) tail unfolding settable_def by blast
  then obtain b' after' where new: "a @ b @ w @ after @ comment = a @ b' @ w @ after' @ comment"
      "line_shape a b' w after' comment"
    using edit_shape [OF shape, of w] assms(2) unfolding settable_def by blast
  have edit: "edit_line e w line = a @ b' @ w @ after' @ comment"
    unfolding new(1) [symmetric] by (simp add: edit_line_def parsed line)
  obtain k where k: "a = k @ [CHR ''='']" "IniTrim k \<noteq> []" using shape by (auto simp: line_shape_def)
  have "kind_of_line (k @ [CHR ''=''] @ b' @ w @ after' @ comment) = kind_of_line (k @ [CHR ''=''] @ b @ v @ after @ comment)"
    using kind_of_setting [OF k(2)] e(2) by (simp add: line k(1))
  moreover have "kind_of_line (edit_line e w line) = kind_of_line (k @ [CHR ''=''] @ b' @ w @ after' @ comment)"
    by (simp only: edit k(1) append_assoc)
  moreover have "kind_of_line line = kind_of_line (k @ [CHR ''=''] @ b @ v @ after @ comment)"
    by (simp only: line k(1) append_assoc)
  ultimately have "kind_of_line (edit_line e w line) = Setting" using e(2) by simp
  then show ?thesis using e parse_entry_shape [OF new(2), of sec i] unfolding edit
    by (simp add: entry_of_def shown_def parsed)
qed

section \<open>Splitting what was put together\<close>

abbreviation one_line :: "string \<Rightarrow> bool" where
  "one_line s \<equiv> list_all (\<lambda>c. \<not> is_eol c) s"

definition line_text :: "ini_line \<Rightarrow> string" where
  "line_text l = il_content l @ il_ending l"

text \<open>
  Lines as they are split: a line end that is only the first half of a longer one is not there,
  and only the last line has no end.
\<close>

definition ends_before :: "string \<Rightarrow> ini_line list \<Rightarrow> bool" where
  "ends_before ending ls \<longleftrightarrow>
     ending = [CHR 0x0D, CHR 0x0A] \<or> ending = [CHR 0x0A] \<or>
     (ending = [CHR 0x0D] \<and> (ls = [] \<or> il_content (hd ls) \<noteq> [] \<or> hd (il_ending (hd ls)) \<noteq> CHR 0x0A)) \<or>
     (ending = [] \<and> ls = [])"

fun well_split :: "ini_line list \<Rightarrow> bool" where
  "well_split [] = True"
| "well_split (l # ls) \<longleftrightarrow>
     one_line (il_content l) \<and> il_entry l = None \<and> ends_before (il_ending l) ls \<and>
     (il_content l = [] \<longrightarrow> il_ending l \<noteq> []) \<and> well_split ls"

lemma one_line_takeWhile [simp]: "one_line (takeWhile (\<lambda>c. \<not> is_eol c) s)"
  by (auto simp: list_all_iff dest: set_takeWhileD)

lemma is_eol_cases: "is_eol c \<longleftrightarrow> c = CHR 0x0D \<or> c = CHR 0x0A"
  by (simp add: is_eol_def)

lemma split_lines_unfold:
  assumes "content \<noteq> []"
  shows "split_lines content = \<lparr>il_content = takeWhile (\<lambda>c. \<not> is_eol c) content,
      il_ending = ending_of (dropWhile (\<lambda>c. \<not> is_eol c) content), il_entry = None\<rparr> #
    split_lines (drop (length (ending_of (dropWhile (\<lambda>c. \<not> is_eol c) content))) (dropWhile (\<lambda>c. \<not> is_eol c) content))"
  using assms by (subst split_lines.simps) (simp add: Let_def)

lemma ending_of_eq_Nil: "ending_of s = [] \<longleftrightarrow> s = []"
  by (simp add: ending_of_def split: list.split)

lemma hd_ending_of: "hd (ending_of (c # u)) = c"
  by (auto simp: ending_of_def split: list.splits)

lemma split_lines_first:
  "split_lines (d # u) \<noteq> []"
  "is_eol d \<Longrightarrow> il_content (hd (split_lines (d # u))) = [] \<and> hd (il_ending (hd (split_lines (d # u)))) = d"
  "\<not> is_eol d \<Longrightarrow> il_content (hd (split_lines (d # u))) \<noteq> []"
  using split_lines_unfold [of "d # u"] by (simp_all add: hd_ending_of)

lemma split_lines_eq_Nil [simp]: "split_lines s = [] \<longleftrightarrow> s = []"
  by (cases s) (simp_all add: split_lines_first)

lemma ending_of_ends:
  assumes "rest = [] \<or> is_eol (hd rest)"
  shows "ends_before (ending_of rest) (split_lines (drop (length (ending_of rest)) rest))"
proof (cases rest)
  case (Cons c t)
  have c: "c = CHR 0x0D \<or> c = CHR 0x0A" using assms Cons by (simp add: is_eol_def)
  show ?thesis
  proof (cases t)
    case Nil
    then show ?thesis using c Cons by (auto simp: ending_of_def ends_before_def)
  next
    case t: (Cons d u)
    have "il_content (hd (split_lines (d # u))) \<noteq> [] \<or> hd (il_ending (hd (split_lines (d # u)))) = d"
      using split_lines_first [of d u] by blast
    note first = this
    show ?thesis
    proof (cases "c = CHR 0x0D \<and> d = CHR 0x0A")
      case True
      then have e: "ending_of rest = [CHR 0x0D, CHR 0x0A]" by (simp add: Cons t ending_of_def)
      show ?thesis unfolding e ends_before_def by blast
    next
      case False
      then have e: "ending_of rest = [c]" by (auto simp: Cons t ending_of_def)
      have r: "drop (length [c]) rest = d # u" by (simp add: Cons t)
      have "c = CHR 0x0D \<Longrightarrow> il_content (hd (split_lines (d # u))) \<noteq> [] \<or> hd (il_ending (hd (split_lines (d # u)))) \<noteq> CHR 0x0A"
        using first False by metis
      then show ?thesis unfolding e r ends_before_def using c by blast
    qed
  qed
qed (simp add: ending_of_def ends_before_def)

lemma split_lines_well_split: "well_split (split_lines content)"
proof (induction content rule: split_lines.induct)
  case (1 content)
  show ?case
  proof (cases "content = []")
    case False
    let ?rest = "dropWhile (\<lambda>c. \<not> is_eol c) content"
    have "?rest = [] \<or> is_eol (hd ?rest)" using hd_dropWhile by blast
    note ends = ending_of_ends [OF this]
    have "takeWhile (\<lambda>c. \<not> is_eol c) content = [] \<Longrightarrow> ending_of ?rest \<noteq> []"
      using False takeWhile_dropWhile_id [of "\<lambda>c. \<not> is_eol c" content] unfolding ending_of_eq_Nil by auto
    then show ?thesis using 1 [OF False refl refl] ends one_line_takeWhile [of content]
      unfolding split_lines_unfold [OF False] well_split.simps ini_line.simps by blast
  qed simp
qed

lemma split_lines_append:
  assumes "one_line s" "ends_before ending (split_lines rest)" "s @ ending \<noteq> []"
  shows "split_lines (s @ ending @ rest) = \<lparr>il_content = s, il_ending = ending, il_entry = None\<rparr> # split_lines rest"
proof -
  let ?t = "ending @ rest"
  have start: "?t = [] \<or> is_eol (hd ?t)"
  proof (cases "ending = []")
    case True
    then have "split_lines rest = []" using assms(2) by (simp add: ends_before_def)
    then have "rest = []" by simp
    then show ?thesis using True by simp
  qed (use assms(2) in \<open>auto simp: ends_before_def is_eol_def\<close>)
  then have stop: "takeWhile (\<lambda>c. \<not> is_eol c) ?t = []" "dropWhile (\<lambda>c. \<not> is_eol c) ?t = ?t"
    by (cases ?t; simp)+
  have s: "\<And>x. x \<in> set s \<Longrightarrow> \<not> is_eol x" using assms(1) by (auto simp: list_all_iff)
  have split: "takeWhile (\<lambda>c. \<not> is_eol c) (s @ ?t) = s" "dropWhile (\<lambda>c. \<not> is_eol c) (s @ ?t) = ?t"
    using s stop by (simp_all add: takeWhile_append2 dropWhile_append2)
  have "ending_of ?t = ending"
  proof (cases "ending = [CHR 0x0D]")
    case True
    have "rest = [] \<or> hd rest \<noteq> CHR 0x0A"
    proof (rule ccontr)
      assume "\<not> (rest = [] \<or> hd rest \<noteq> CHR 0x0A)"
      then obtain u where u: "rest = CHR 0x0A # u" by (cases rest) auto
      then have "split_lines rest \<noteq> []" "il_content (hd (split_lines rest)) = []"
          "hd (il_ending (hd (split_lines rest))) = CHR 0x0A"
        using split_lines_first [of "CHR 0x0A" u] by (simp_all add: is_eol_def)
      then show False using assms(2) True by (simp add: ends_before_def)
    qed
    then show ?thesis using True by (auto simp: ending_of_def split: list.splits)
  next
    case False
    then show ?thesis using assms(2) start
      by (auto simp: ends_before_def ending_of_def split: list.splits)
  qed
  then show ?thesis proof -
    assume e: "ending_of ?t = ending"
    have ne: "s @ ?t \<noteq> []" using assms(3) by auto
    have "drop (length ending) ?t = rest" by simp
    then show ?thesis using split_lines_unfold [OF ne] unfolding split e by simp
  qed
qed

lemma split_join: "well_split ls \<Longrightarrow> split_lines (concat (map line_text ls)) = ls"
proof (induction ls)
  case (Cons l ls)
  then have rest: "split_lines (concat (map line_text ls)) = ls" by simp
  have "l = \<lparr>il_content = il_content l, il_ending = il_ending l, il_entry = None\<rparr>" using Cons.prems by simp
  then show ?case
    using split_lines_append [of "il_content l" "il_ending l" "concat (map line_text ls)", unfolded rest] Cons.prems
    by (auto simp: line_text_def [of l])
qed simp

section \<open>Reading an edited document again\<close>

text \<open>An edited line keeps its end, stays one line and stays empty or not.\<close>

definition same_break :: "ini_line \<Rightarrow> ini_line \<Rightarrow> bool" where
  "same_break l l' \<longleftrightarrow> il_ending l' = il_ending l \<and> il_entry l' = None \<and>
     (il_content l' = [] \<longleftrightarrow> il_content l = []) \<and> one_line (il_content l')"

lemma well_split_same_break: "list_all2 same_break ls ls' \<Longrightarrow> well_split ls \<Longrightarrow> well_split ls'"
proof (induction rule: list_all2_induct)
  case (Cons l ls l' ls')
  have "ends_before e ls = ends_before e ls'" for e
    using Cons(2) by (cases ls; cases ls') (auto simp: ends_before_def same_break_def)
  then show ?case using Cons by (simp add: same_break_def)
qed simp

lemma same_break_refl: "well_split ls \<Longrightarrow> list_all2 same_break ls ls"
  by (induction ls) (simp_all add: same_break_def)

lemma parse_entry_nonempty: "parse_entry sec i line = Some e \<Longrightarrow> line \<noteq> []"
  by (auto simp: parse_entry_def position_def)

lemma entry_of_parse: "entry_of sec i line = Some e \<Longrightarrow> kind_of_line line = Setting \<and> parse_entry sec i line = Some e"
  by (simp add: entry_of_def split: if_splits)

lemma entry_of_line: "entry_of sec i line = Some e \<Longrightarrow> ie_line e = i"
  by (auto simp: entry_of_def parse_entry_def Let_def split: if_splits option.splits)

lemma edit_line_one_line:
  assumes "one_line line" "one_line v"
  shows "one_line (edit_line e v line)"
  using assms by (auto simp: edit_line_def list_all_iff dest: in_set_takeD in_set_dropD)

text \<open>The lines are given with the number of the first one.\<close>

lemma edited_lines_scan:
  assumes "scan_lines i sec n ls = (err, ls1, es)" "well_split ls" "drop i xs = map il_content ls"
    "list_all2 (\<lambda>e v. settable (xs ! ie_line e) e v) es vs"
  shows "list_all2 same_break ls (edit_lines i sec ls vs) \<and>
    (\<exists>ls2 es2. scan_lines i sec n (edit_lines i sec ls vs) = (err, ls2, es2) \<and> map shown es2 = map shown (with_values es vs))"
  using assms
proof (induction ls arbitrary: i sec n ls1 es vs)
  case (Cons l ls)
  have here: "xs ! i = il_content l" and rest: "drop (i + 1) xs = map il_content ls"
    using Cons.prems(3) by (auto simp: nth_via_drop drop_Suc simp flip: tl_drop)
  have same: "same_break l l" "list_all2 same_break ls ls"
    using Cons.prems(2) same_break_refl [of "l # ls"] by simp_all
  show ?case
  proof (cases "kind_of_line (il_content l) = Malformed")
    case True
    then show ?thesis using Cons.prems(1,4) same by auto
  next
    case False
    show ?thesis
    proof (cases "entry_of sec i (il_content l)")
      case None
      let ?sec = "next_section sec (il_content l)"
      obtain ls2 where tail: "scan_lines (i + 1) ?sec n ls = (err, ls2, es)"
        using Cons.prems(1) unfolding scan_step [OF False] None by (auto split: prod.splits)
      have "well_split ls" using Cons.prems(2) by simp
      from Cons.IH [OF tail this rest Cons.prems(4)] same(1) show ?thesis
        using False None by (auto simp: scan_step simp del: scan_lines.simps(2))
    next
      case (Some e)
      let ?sec = "next_section sec (il_content l)"
      obtain ls2 es1 where tail: "scan_lines (i + 1) ?sec (n + 1) ls = (err, ls2, es1)" "es = e # es1"
        using Cons.prems(1) unfolding scan_step [OF False] Some by (auto split: prod.splits)
      obtain v vs1 where v: "vs = v # vs1" "settable (il_content l) e v"
          "list_all2 (\<lambda>e v. settable (xs ! ie_line e) e v) es1 vs1"
        using Cons.prems(4) tail(2) here entry_of_line [OF Some] by (cases vs) auto
      obtain e' where e': "entry_of sec i (edit_line e v (il_content l)) = Some e'" "shown e' = shown (e\<lparr>ie_value := v\<rparr>)"
        using edited_entry [OF Some v(2)] by blast
      let ?l = "l\<lparr>il_content := edit_line e v (il_content l)\<rparr>"
      have kinds: "kind_of_line (il_content ?l) = Setting" "kind_of_line (il_content l) = Setting"
        using entry_of_parse [OF e'(1)] entry_of_parse [OF Some] by simp_all
      then have sec: "next_section sec (il_content ?l) = ?sec" by (simp add: next_section_def)
      have "same_break l ?l"
        using same(1) v(2) edit_line_one_line [of "il_content l" v e] entry_of_parse [OF e'(1)] entry_of_parse [OF Some]
          parse_entry_nonempty [of sec i] by (auto simp: same_break_def settable_def)
      moreover have "well_split ls" using Cons.prems(2) by simp
      note Cons.IH [OF tail(1) this rest v(3)]
      ultimately show ?thesis using False Some kinds e' sec unfolding v(1) tail(2)
        by (auto simp: scan_step simp del: scan_lines.simps(2))
    qed
  qed
qed simp

lemma scan_contents: "scan_lines i sec n ls = (err, ls', es) \<Longrightarrow> map il_content ls' = map il_content ls"
proof (induction ls arbitrary: i sec n ls' es)
  case (Cons l ls)
  show ?case
  proof (cases "kind_of_line (il_content l) = Malformed")
    case False
    show ?thesis
    proof (cases "entry_of sec i (il_content l)")
      case None
      obtain ls1 where "scan_lines (i + 1) (next_section sec (il_content l)) n ls = (err, ls1, es)" "ls' = l # ls1"
        using Cons.prems unfolding scan_step [OF False] None by (auto split: prod.splits)
      then show ?thesis using Cons.IH by simp
    next
      case (Some e)
      obtain ls1 es1 where "scan_lines (i + 1) (next_section sec (il_content l)) (n + 1) ls = (err, ls1, es1)"
          "ls' = l\<lparr>il_entry := Some n\<rparr> # ls1"
        using Cons.prems unfolding scan_step [OF False] Some by (auto split: prod.splits)
      then show ?thesis using Cons.IH by simp
    qed
  qed (use Cons.prems in auto)
qed simp

definition line_of :: "ini_document \<Rightarrow> ini_entry \<Rightarrow> string" where
  "line_of doc e = map il_content (id_lines doc) ! ie_line e"

definition set_values :: "ini_document \<Rightarrow> string list \<Rightarrow> ini_document" where
  "set_values doc vs = doc\<lparr>id_entries := with_values (id_entries doc) vs\<rparr>"

lemma edit_lines_text:
  assumes "scan_lines 0 [] 0 (split_lines content) = (err, id_lines doc, id_entries doc)"
    "length vs = length (id_entries doc)"
  shows "IniRender (set_values doc vs) = concat (map line_text (edit_lines 0 [] (split_lines content) vs))"
  using render_edited [OF assms(1) scan_none, of "[]" vs] assms(2)
  by (simp add: IniRender_def set_values_def line_text_def [abs_def])

text \<open>
  C40: a document with new values that their lines can carry is read back as the same sections,
  keys and comments in the same order with the new values, and with the same verdict.
\<close>

theorem edited_settings_reload:
  assumes "doc = snd (IniParse content)" "list_all2 (\<lambda>e v. settable (line_of doc e) e v) (id_entries doc) vs"
  shows "fst (IniParse (IniRender (set_values doc vs))) = fst (IniParse content) \<and>
    map shown (id_entries (snd (IniParse (IniRender (set_values doc vs))))) = map shown (with_values (id_entries doc) vs)"
proof (cases "content = []")
  case True
  then show ?thesis using assms by (auto simp: IniParse_def IniRender_def set_values_def with_values_def)
next
  case False
  obtain err where s: "scan_lines 0 [] 0 (split_lines content) = (err, id_lines doc, id_entries doc)"
    using IniParse_scan [OF refl] False unfolding assms(1) by blast
  let ?new = "edit_lines 0 [] (split_lines content) vs"
  have "drop 0 (map il_content (id_lines doc)) = map il_content (split_lines content)"
    using scan_contents [OF s] by simp
  note edited_lines_scan [OF s split_lines_well_split this, folded line_of_def, OF assms(2)]
  then obtain ls2 es2 where new: "list_all2 same_break (split_lines content) ?new"
      "scan_lines 0 [] 0 ?new = (err, ls2, es2)" "map shown es2 = map shown (with_values (id_entries doc) vs)"
    by blast
  have len: "length vs = length (id_entries doc)" using assms(2) list_all2_lengthD by fastforce
  let ?text = "IniRender (set_values doc vs)"
  have again: "split_lines ?text = ?new"
    using edit_lines_text [OF s len] split_join [OF well_split_same_break [OF new(1) split_lines_well_split]] by simp
  have "?new \<noteq> []" using new(1) False by auto
  then have ne: "?text \<noteq> []" using again by auto
  have "es2 = [] \<longleftrightarrow> id_entries doc = []" using arg_cong [OF new(3), of length] len by (auto simp: with_values_def)
  then show ?thesis using new(2,3) s ne False unfolding IniParse_def again
    by (auto simp: Let_def split: option.splits)
qed

theorem edited_settings_reload_witness:
  "map shown (id_entries (snd (IniParse (IniRender (set_values (snd (IniParse
      (''[Sensors]'' @ [CHR 0x0A] @ ''Port = 80 # of the server'' @ [CHR 0x0A] @ ''Host =''))) [''8080'', ''localhost'']))))) =
   [(''Sensors'', ''Port'', ''8080'', ''of the server''), (''Sensors'', ''Host'', ''localhost'', [])]"
proof -
  let ?doc = "snd (IniParse (''[Sensors]'' @ [CHR 0x0A] @ ''Port = 80 # of the server'' @ [CHR 0x0A] @ ''Host =''))"
  have "list_all2 (\<lambda>e v. settable (line_of ?doc e) e v) (id_entries ?doc) [''8080'', ''localhost'']"
    by code_simp
  moreover have "map shown (with_values (id_entries ?doc) [''8080'', ''localhost'']) =
      [(''Sensors'', ''Port'', ''8080'', ''of the server''), (''Sensors'', ''Host'', ''localhost'', [])]"
    by code_simp
  ultimately show ?thesis using edited_settings_reload [OF refl] by simp
qed

text \<open>What a value may not be: with a comment mark after a space it is cut, and an empty value before a comment takes it.\<close>

lemma value_with_mark_is_cut:
  "map shown (id_entries (snd (IniParse (IniRender (set_values (snd (IniParse (''[A]'' @ [CHR 0x0A] @ ''K = v''))) [''a #b'']))))) =
   [(''A'', ''K'', ''a'', ''b'')]"
  by code_simp

lemma empty_value_takes_comment:
  "map shown (id_entries (snd (IniParse (IniRender (set_values (snd (IniParse
      (''[COM_Backend]'' @ [CHR 0x0A] @ ''RemoteTcpIp =   ; optional destination''))) [''host.example'']))))) =
   [(''COM_Backend'', ''RemoteTcpIp'', ''host.example; optional destination'', [])]"
  by code_simp

end
