(* ===== verification/IsoTp.thy ===== *)
theory IsoTp
  imports Addon_Prelude
begin

text \<open>
  Segmented transfers over a CAN bus: one link of the bundled ISO-TP library.  Source:
  \<open>libs/isotp/isotp.c\<close>, \<open>libs/isotp/isotp.h\<close>, \<open>libs/isotp/isotp_defines.h\<close> and
  \<open>libs/isotp/isotp_config.h\<close>, with padding of frames on and the bit fields in the order of a
  little-endian machine.  A buffer is the list of its bytes and its size is the list's length;
  sizes and offsets into a buffer are numbers, which the invariant bounds by 4096, so that
  their 16 bits do not wrap.  A copy that runs past the end of a buffer makes the list longer.
  The frames handed to the callback \<open>send_can\<close> are collected in order.  Every reading of the
  clock in a call has its own value, named by the place that reads.
\<close>

section \<open>Frames\<close>

definition ISO_TP_DEFAULT_BLOCK_SIZE :: u8 where "ISO_TP_DEFAULT_BLOCK_SIZE = 8"
definition ISO_TP_DEFAULT_ST_MIN :: u8 where "ISO_TP_DEFAULT_ST_MIN = 0"
definition ISO_TP_MAX_WFT_NUMBER :: nat where "ISO_TP_MAX_WFT_NUMBER = 1"
definition ISO_TP_DEFAULT_RESPONSE_TIMEOUT :: u32 where "ISO_TP_DEFAULT_RESPONSE_TIMEOUT = 10000"
definition ISOTP_INVALID_BS :: nat where "ISOTP_INVALID_BS = 0xFFFF"

text \<open>The first byte of a frame: its type in the high half.\<close>

definition pci :: "u8 \<Rightarrow> u8 \<Rightarrow> u8" where
  "pci kind low = push_bit 4 kind OR (low AND 0x0F)"

definition pci_type :: "bytes \<Rightarrow> u8" where
  "pci_type m = drop_bit 4 (m ! 0)"

definition pci_low :: "bytes \<Rightarrow> u8" where
  "pci_low m = m ! 0 AND 0x0F"

definition ISOTP_PCI_TYPE_SINGLE :: u8 where "ISOTP_PCI_TYPE_SINGLE = 0"
definition ISOTP_PCI_TYPE_FIRST_FRAME :: u8 where "ISOTP_PCI_TYPE_FIRST_FRAME = 1"
definition TSOTP_PCI_TYPE_CONSECUTIVE_FRAME :: u8 where "TSOTP_PCI_TYPE_CONSECUTIVE_FRAME = 2"
definition ISOTP_PCI_TYPE_FLOW_CONTROL_FRAME :: u8 where "ISOTP_PCI_TYPE_FLOW_CONTROL_FRAME = 3"

definition PCI_FLOW_STATUS_CONTINUE :: u8 where "PCI_FLOW_STATUS_CONTINUE = 0"
definition PCI_FLOW_STATUS_WAIT :: u8 where "PCI_FLOW_STATUS_WAIT = 1"
definition PCI_FLOW_STATUS_OVERFLOW :: u8 where "PCI_FLOW_STATUS_OVERFLOW = 2"

lemmas pci_types = ISOTP_PCI_TYPE_SINGLE_def ISOTP_PCI_TYPE_FIRST_FRAME_def
  TSOTP_PCI_TYPE_CONSECUTIVE_FRAME_def ISOTP_PCI_TYPE_FLOW_CONTROL_FRAME_def

lemmas flow_statuses = PCI_FLOW_STATUS_CONTINUE_def PCI_FLOW_STATUS_WAIT_def PCI_FLOW_STATUS_OVERFLOW_def

section \<open>The link\<close>

datatype isotp_ret =
  RET_OK | RET_ERROR | RET_INPROGRESS | RET_OVERFLOW | RET_WRONG_SN | RET_NO_DATA | RET_TIMEOUT | RET_LENGTH

datatype IsoTpSendStatusTypes = SEND_IDLE | SEND_INPROGRESS | SEND_ERROR
datatype IsoTpReceiveStatusTypes = RECEIVE_IDLE | RECEIVE_INPROGRESS | RECEIVE_FULL

datatype isotp_result =
  RESULT_OK | RESULT_TIMEOUT_A | RESULT_TIMEOUT_BS | RESULT_TIMEOUT_CR | RESULT_WRONG_SN
| RESULT_INVALID_FS | RESULT_UNEXP_PDU | RESULT_WFT_OVRN | RESULT_BUFFER_OVFLW | RESULT_ERROR

record isotp_link =
  send_arbitration_id :: u32
  send_buffer :: bytes
  send_size :: nat
  send_offset :: nat
  send_sn :: u8
  send_bs_remain :: nat
  send_st_min :: u8
  send_wtf_count :: nat
  send_timer_st :: u32
  send_timer_bs :: u32
  send_protocol_result :: isotp_result
  send_status :: IsoTpSendStatusTypes
  receive_buffer :: bytes
  receive_size :: nat
  receive_offset :: nat
  receive_sn :: u8
  receive_bs_count :: u8
  receive_timer_cr :: u32
  receive_protocol_result :: isotp_result
  receive_status :: IsoTpReceiveStatusTypes
  link_sent :: "(u32 \<times> bytes) list"

definition isotp_init_link :: "u32 \<Rightarrow> bytes \<Rightarrow> bytes \<Rightarrow> isotp_link" where
  "isotp_init_link sendid sendbuf recvbuf =
     \<lparr>send_arbitration_id = sendid, send_buffer = sendbuf, send_size = 0, send_offset = 0, send_sn = 0,
      send_bs_remain = 0, send_st_min = 0, send_wtf_count = 0, send_timer_st = 0, send_timer_bs = 0,
      send_protocol_result = RESULT_OK, send_status = SEND_IDLE,
      receive_buffer = recvbuf, receive_size = 0, receive_offset = 0, receive_sn = 0, receive_bs_count = 0,
      receive_timer_cr = 0, receive_protocol_result = RESULT_OK, receive_status = RECEIVE_IDLE, link_sent = []\<rparr>"

datatype reading = Timer_St | Timer_Bs | Timer_Cr | Check_St | Check_Bs | Check_Cr | Received_At

definition IsoTpTimeAfter :: "u32 \<Rightarrow> u32 \<Rightarrow> bool" where
  "IsoTpTimeAfter a b \<longleftrightarrow> sint (b - a) < 0"

definition isotp_ms_to_st_min :: "u8 \<Rightarrow> u8" where
  "isotp_ms_to_st_min ms = (if ms > 0x7F then 0x7F else ms)"

definition isotp_st_min_to_ms :: "u8 \<Rightarrow> u8" where
  "isotp_st_min_to_ms st_min =
     (if st_min \<ge> 0xF1 \<and> st_min \<le> 0xF9 then 1 else if st_min \<le> 0x7F then st_min else 0)"

text \<open>\<open>memcpy(buffer + offset, data, length of data)\<close>\<close>

definition put :: "nat \<Rightarrow> bytes \<Rightarrow> bytes \<Rightarrow> bytes" where
  "put offset data buffer = take offset buffer @ data @ drop (offset + length data) buffer"

text \<open>The callback of the program, which always succeeds.\<close>

definition isotp_send_can :: "u32 \<Rightarrow> bytes \<Rightarrow> isotp_link \<Rightarrow> isotp_ret \<times> isotp_link" where
  "isotp_send_can arbitration_id data link = (RET_OK, link\<lparr>link_sent := link_sent link @ [(arbitration_id, data)]\<rparr>)"

section \<open>Sending\<close>

definition isotp_send_flow_control :: "u8 \<Rightarrow> u8 \<Rightarrow> u8 \<Rightarrow> isotp_link \<Rightarrow> isotp_ret \<times> isotp_link" where
  "isotp_send_flow_control flow_status block_size st_min_ms link =
     isotp_send_can (send_arbitration_id link)
       ([pci ISOTP_PCI_TYPE_FLOW_CONTROL_FRAME flow_status, block_size, isotp_ms_to_st_min st_min_ms] @ replicate 5 0) link"

definition isotp_send_single_frame :: "u32 \<Rightarrow> isotp_link \<Rightarrow> isotp_ret \<times> isotp_link" where
  "isotp_send_single_frame aid link =
     isotp_send_can aid (pci ISOTP_PCI_TYPE_SINGLE (word_of_nat (send_size link)) #
       take (send_size link) (send_buffer link) @ replicate (7 - send_size link) 0) link"

definition isotp_send_first_frame :: "u32 \<Rightarrow> isotp_link \<Rightarrow> isotp_ret \<times> isotp_link" where
  "isotp_send_first_frame aid link =
     (let (ret, l) = isotp_send_can aid (pci ISOTP_PCI_TYPE_FIRST_FRAME (0x0F AND word_of_nat (send_size link div 256)) #
            word_of_nat (send_size link) # take 6 (send_buffer link)) link
      in if ret = RET_OK then (ret, l\<lparr>send_offset := send_offset l + 6, send_sn := 1\<rparr>) else (ret, l))"

definition next_sn :: "u8 \<Rightarrow> u8" where
  "next_sn sn = (if sn + 1 > 0x0F then 0 else sn + 1)"

definition isotp_send_consecutive_frame :: "isotp_link \<Rightarrow> isotp_ret \<times> isotp_link" where
  "isotp_send_consecutive_frame link =
     (let data_length = min (send_size link - send_offset link) 7;
          (ret, l) = isotp_send_can (send_arbitration_id link) (pci TSOTP_PCI_TYPE_CONSECUTIVE_FRAME (send_sn link) #
            take data_length (drop (send_offset link) (send_buffer link)) @ replicate (7 - data_length) 0) link
      in if ret = RET_OK then (ret, l\<lparr>send_offset := send_offset l + data_length, send_sn := next_sn (send_sn l)\<rparr>)
         else (ret, l))"

definition isotp_send_with_id :: "(reading \<Rightarrow> u32) \<Rightarrow> u32 \<Rightarrow> bytes \<Rightarrow> isotp_link \<Rightarrow> isotp_ret \<times> isotp_link" where
  "isotp_send_with_id ms aid payload link =
     (if length payload > length (send_buffer link) then (RET_OVERFLOW, link)
      else if send_status link = SEND_INPROGRESS then (RET_INPROGRESS, link)
      else
        let l = link\<lparr>send_size := length payload, send_offset := 0, send_buffer := put 0 payload (send_buffer link)\<rparr>
        in if send_size l < 8 then isotp_send_single_frame aid l
           else
             let (ret, l1) = isotp_send_first_frame aid l
             in if ret = RET_OK
                then (ret, l1\<lparr>send_bs_remain := 0, send_st_min := 0, send_wtf_count := 0, send_timer_st := ms Timer_St,
                        send_timer_bs := ms Timer_Bs + ISO_TP_DEFAULT_RESPONSE_TIMEOUT,
                        send_protocol_result := RESULT_OK, send_status := SEND_INPROGRESS\<rparr>)
                else (ret, l1))"

text \<open>The four steps of a poll: sending one frame, the two timeouts.\<close>

definition poll_send :: "(reading \<Rightarrow> u32) \<Rightarrow> isotp_link \<Rightarrow> isotp_link" where
  "poll_send ms link =
     (if (send_bs_remain link = ISOTP_INVALID_BS \<or> send_bs_remain link > 0) \<and>
         (send_st_min link = 0 \<or> IsoTpTimeAfter (ms Check_St) (send_timer_st link))
      then
        let (ret, l) = isotp_send_consecutive_frame link
        in if ret = RET_OK
           then
             let l1 = (if send_bs_remain l \<noteq> ISOTP_INVALID_BS then l\<lparr>send_bs_remain := send_bs_remain l - 1\<rparr> else l);
                 l2 = l1\<lparr>send_timer_bs := ms Timer_Bs + ISO_TP_DEFAULT_RESPONSE_TIMEOUT,
                         send_timer_st := ms Timer_St + ucast (send_st_min l1)\<rparr>
             in if send_offset l2 \<ge> send_size l2 then l2\<lparr>send_status := SEND_IDLE\<rparr> else l2
           else l\<lparr>send_status := SEND_ERROR\<rparr>
      else link)"

definition isotp_poll :: "(reading \<Rightarrow> u32) \<Rightarrow> isotp_link \<Rightarrow> isotp_link" where
  "isotp_poll ms link =
     (let l = (if send_status link = SEND_INPROGRESS
               then
                 let l1 = poll_send ms link
                 in if IsoTpTimeAfter (ms Check_Bs) (send_timer_bs l1)
                    then l1\<lparr>send_protocol_result := RESULT_TIMEOUT_BS, send_status := SEND_ERROR\<rparr> else l1
               else link)
      in if receive_status l = RECEIVE_INPROGRESS \<and> IsoTpTimeAfter (ms Check_Cr) (receive_timer_cr l)
         then l\<lparr>receive_protocol_result := RESULT_TIMEOUT_CR, receive_status := RECEIVE_IDLE\<rparr> else l)"

section \<open>Receiving\<close>

definition isotp_receive_single_frame :: "bytes \<Rightarrow> nat \<Rightarrow> isotp_link \<Rightarrow> isotp_ret \<times> isotp_link" where
  "isotp_receive_single_frame m len link =
     (let SF_DL = unat (pci_low m)
      in if SF_DL = 0 \<or> SF_DL > len - 1 then (RET_LENGTH, link)
         else (RET_OK, link\<lparr>receive_buffer := put 0 (take SF_DL (drop 1 m)) (receive_buffer link), receive_size := SF_DL\<rparr>))"

definition isotp_receive_first_frame :: "bytes \<Rightarrow> nat \<Rightarrow> isotp_link \<Rightarrow> isotp_ret \<times> isotp_link" where
  "isotp_receive_first_frame m len link =
     (if len \<noteq> 8 then (RET_LENGTH, link)
      else
        let payload_length = unat (pci_low m) * 256 + unat (m ! 1)
        in if payload_length \<le> 7 then (RET_LENGTH, link)
           else if payload_length > length (receive_buffer link) then (RET_OVERFLOW, link)
           else (RET_OK, link\<lparr>receive_buffer := put 0 (take 6 (drop 2 m)) (receive_buffer link),
                   receive_size := payload_length, receive_offset := 6, receive_sn := 1\<rparr>))"

definition isotp_receive_consecutive_frame :: "bytes \<Rightarrow> nat \<Rightarrow> isotp_link \<Rightarrow> isotp_ret \<times> isotp_link" where
  "isotp_receive_consecutive_frame m len link =
     (if receive_sn link \<noteq> pci_low m then (RET_WRONG_SN, link)
      else
        let remaining_bytes = min (receive_size link - receive_offset link) 7
        in if remaining_bytes > len - 1 then (RET_LENGTH, link)
           else (RET_OK, link\<lparr>
             receive_buffer := put (receive_offset link) (take remaining_bytes (drop 1 m)) (receive_buffer link),
             receive_offset := receive_offset link + remaining_bytes, receive_sn := next_sn (receive_sn link)\<rparr>))"

definition isotp_receive_flow_control_frame :: "nat \<Rightarrow> isotp_ret" where
  "isotp_receive_flow_control_frame len = (if len < 3 then RET_LENGTH else RET_OK)"

definition begin_message :: "isotp_link \<Rightarrow> isotp_link" where
  "begin_message link = link\<lparr>receive_protocol_result :=
     if receive_status link = RECEIVE_INPROGRESS then RESULT_UNEXP_PDU else RESULT_OK\<rparr>"

definition on_single_frame :: "bytes \<Rightarrow> nat \<Rightarrow> isotp_link \<Rightarrow> isotp_link" where
  "on_single_frame m len link =
     (let (ret, l) = isotp_receive_single_frame m len (begin_message link)
      in if ret = RET_OK then l\<lparr>receive_status := RECEIVE_FULL\<rparr> else l)"

definition on_first_frame :: "(reading \<Rightarrow> u32) \<Rightarrow> bytes \<Rightarrow> nat \<Rightarrow> isotp_link \<Rightarrow> isotp_link" where
  "on_first_frame ms m len link =
     (let (ret, l) = isotp_receive_first_frame m len (begin_message link)
      in if ret = RET_OVERFLOW
         then snd (isotp_send_flow_control PCI_FLOW_STATUS_OVERFLOW 0 0
                (l\<lparr>receive_protocol_result := RESULT_BUFFER_OVFLW, receive_status := RECEIVE_IDLE\<rparr>))
         else if ret = RET_OK
         then
           let l1 = l\<lparr>receive_status := RECEIVE_INPROGRESS, receive_bs_count := ISO_TP_DEFAULT_BLOCK_SIZE\<rparr>;
               l2 = snd (isotp_send_flow_control PCI_FLOW_STATUS_CONTINUE (receive_bs_count l1) ISO_TP_DEFAULT_ST_MIN l1)
           in l2\<lparr>receive_timer_cr := ms Timer_Cr + ISO_TP_DEFAULT_RESPONSE_TIMEOUT\<rparr>
         else l)"

definition on_consecutive_frame :: "(reading \<Rightarrow> u32) \<Rightarrow> bytes \<Rightarrow> nat \<Rightarrow> isotp_link \<Rightarrow> isotp_link" where
  "on_consecutive_frame ms m len link =
     (if receive_status link \<noteq> RECEIVE_INPROGRESS then link\<lparr>receive_protocol_result := RESULT_UNEXP_PDU\<rparr>
      else
        let (ret, l) = isotp_receive_consecutive_frame m len link
        in if ret = RET_WRONG_SN then l\<lparr>receive_protocol_result := RESULT_WRONG_SN, receive_status := RECEIVE_IDLE\<rparr>
           else if ret = RET_OK
           then
             let l1 = l\<lparr>receive_timer_cr := ms Timer_Cr + ISO_TP_DEFAULT_RESPONSE_TIMEOUT\<rparr>
             in if receive_offset l1 \<ge> receive_size l1 then l1\<lparr>receive_status := RECEIVE_FULL\<rparr>
                else
                  let l2 = l1\<lparr>receive_bs_count := receive_bs_count l1 - 1\<rparr>
                  in if receive_bs_count l2 = 0
                     then
                       let l3 = l2\<lparr>receive_bs_count := ISO_TP_DEFAULT_BLOCK_SIZE\<rparr>
                       in snd (isotp_send_flow_control PCI_FLOW_STATUS_CONTINUE (receive_bs_count l3) ISO_TP_DEFAULT_ST_MIN l3)
                     else l2
           else l)"

definition on_flow_control :: "(reading \<Rightarrow> u32) \<Rightarrow> bytes \<Rightarrow> nat \<Rightarrow> isotp_link \<Rightarrow> isotp_link" where
  "on_flow_control ms m len link =
     (if send_status link \<noteq> SEND_INPROGRESS then link
      else if isotp_receive_flow_control_frame len \<noteq> RET_OK then link
      else
        let l = link\<lparr>send_timer_bs := ms Timer_Bs + ISO_TP_DEFAULT_RESPONSE_TIMEOUT\<rparr>; FS = pci_low m
        in if FS = PCI_FLOW_STATUS_OVERFLOW
           then l\<lparr>send_protocol_result := RESULT_BUFFER_OVFLW, send_status := SEND_ERROR\<rparr>
           else if FS = PCI_FLOW_STATUS_WAIT
           then
             let l1 = l\<lparr>send_wtf_count := send_wtf_count l + 1\<rparr>
             in if send_wtf_count l1 > ISO_TP_MAX_WFT_NUMBER
                then l1\<lparr>send_protocol_result := RESULT_WFT_OVRN, send_status := SEND_ERROR\<rparr> else l1
           else if FS = PCI_FLOW_STATUS_CONTINUE
           then l\<lparr>send_bs_remain := (if m ! 1 = 0 then ISOTP_INVALID_BS else unat (m ! 1)),
                  send_st_min := isotp_st_min_to_ms (m ! 2), send_wtf_count := 0\<rparr>
           else l)"

definition isotp_on_can_message :: "(reading \<Rightarrow> u32) \<Rightarrow> bytes \<Rightarrow> isotp_link \<Rightarrow> isotp_link" where
  "isotp_on_can_message ms data link =
     (let len = length data
      in if len < 2 \<or> len > 8 then link
         else
           let m = data @ replicate (8 - len) 0; kind = pci_type m
           in if kind = ISOTP_PCI_TYPE_SINGLE then on_single_frame m len link
              else if kind = ISOTP_PCI_TYPE_FIRST_FRAME then on_first_frame ms m len link
              else if kind = TSOTP_PCI_TYPE_CONSECUTIVE_FRAME then on_consecutive_frame ms m len link
              else if kind = ISOTP_PCI_TYPE_FLOW_CONTROL_FRAME then on_flow_control ms m len link
              else link)"

definition isotp_receive :: "nat \<Rightarrow> isotp_link \<Rightarrow> bytes option \<times> isotp_link" where
  "isotp_receive payload_size link =
     (if receive_status link \<noteq> RECEIVE_FULL then (None, link)
      else (Some (take (min (receive_size link) payload_size) (receive_buffer link)), link\<lparr>receive_status := RECEIVE_IDLE\<rparr>))"

section \<open>The first byte\<close>

lemma low_nibble: "b AND 0x0F = take_bit 4 (b :: u8)"
proof -
  have e: "(0x0F :: u8) = mask 4" by (simp add: mask_eq_exp_minus_1)
  show ?thesis unfolding e by (simp add: take_bit_eq_mask)
qed

lemma bit_u8_value: "bit (w :: u8) n \<Longrightarrow> 2 ^ n \<le> unat w"
proof -
  assume "bit w n"
  then have "odd (unat w div 2 ^ n)" by (simp flip: bit_iff_odd add: bit_unsigned_iff)
  then have "unat w div 2 ^ n \<noteq> 0" by (metis even_zero)
  then show ?thesis by (meson div_less not_le)
qed

lemma nibble_bits: "unat (w :: u8) < 16 \<Longrightarrow> bit w n \<Longrightarrow> n < 4"
proof (rule ccontr)
  assume "unat w < 16" "bit w n" "\<not> n < 4"
  then have "2 ^ 4 \<le> (2 :: nat) ^ n" by (intro power_increasing) auto
  then show False using bit_u8_value [OF \<open>bit w n\<close>] \<open>unat w < 16\<close> by simp
qed

lemma pci_low_less [simp]: "unat (pci_low m) < 16"
proof -
  have "unat (take_bit 4 (m ! 0)) = take_bit 4 (unat (m ! 0))" by (simp add: unsigned_take_bit_eq)
  then show ?thesis using take_bit_nat_less_exp [of 4 "unat (m ! 0)"] by (simp add: pci_low_def low_nibble)
qed

lemma pci_low_pci [simp]: "pci_low (pci kind low # m) = take_bit 4 low"
  unfolding pci_low_def pci_def low_nibble by (rule bit_word_eqI) (auto simp: bit_simps)

lemma pci_type_pci: "unat kind < 16 \<Longrightarrow> pci_type (pci kind low # m) = kind"
  unfolding pci_type_def pci_def low_nibble by (rule bit_word_eqI) (auto simp: bit_simps dest: nibble_bits)

lemma pci_type_kinds [simp]:
  "pci_type (pci ISOTP_PCI_TYPE_SINGLE low # m) = ISOTP_PCI_TYPE_SINGLE"
  "pci_type (pci ISOTP_PCI_TYPE_FIRST_FRAME low # m) = ISOTP_PCI_TYPE_FIRST_FRAME"
  "pci_type (pci TSOTP_PCI_TYPE_CONSECUTIVE_FRAME low # m) = TSOTP_PCI_TYPE_CONSECUTIVE_FRAME"
  "pci_type (pci ISOTP_PCI_TYPE_FLOW_CONTROL_FRAME low # m) = ISOTP_PCI_TYPE_FLOW_CONTROL_FRAME"
  by (rule pci_type_pci, simp add: pci_types)+

lemma nibble_same: "unat (w :: u8) < 16 \<Longrightarrow> take_bit 4 w = w"
  by (rule bit_word_eqI) (auto simp: bit_simps dest: nibble_bits)

lemma next_sn_less: "unat sn < 16 \<Longrightarrow> unat (next_sn sn) < 16"
  by (auto simp: next_sn_def word_less_nat_alt)

section \<open>The buffers\<close>

text \<open>No buffer changes its size, so no copy leaves one, and every offset is inside.\<close>

lemma length_put [simp]: "offset + length data \<le> length buffer \<Longrightarrow> length (put offset data buffer) = length buffer"
  by (simp add: put_def)

definition isotp_ok :: "isotp_link \<Rightarrow> bool" where
  "isotp_ok l \<longleftrightarrow>
     length (send_buffer l) = 4096 \<and> length (receive_buffer l) = 4096 \<and>
     send_offset l \<le> send_size l \<and> send_size l \<le> 4096 \<and>
     (send_status l = SEND_INPROGRESS \<longrightarrow> send_offset l < send_size l) \<and>
     receive_size l \<le> 4095 \<and>
     (receive_status l = RECEIVE_INPROGRESS \<longrightarrow> 6 \<le> receive_offset l \<and> receive_offset l < receive_size l) \<and>
     (receive_status l = RECEIVE_FULL \<longrightarrow> 1 \<le> receive_size l) \<and>
     list_all (\<lambda>f. length (snd f) = 8) (link_sent l)"

lemma init_ok: "length sendbuf = 4096 \<Longrightarrow> length recvbuf = 4096 \<Longrightarrow> isotp_ok (isotp_init_link sendid sendbuf recvbuf)"
  by (simp add: isotp_ok_def isotp_init_link_def)

lemma send_can_ok: "isotp_ok l \<Longrightarrow> length data = 8 \<Longrightarrow> isotp_ok (snd (isotp_send_can aid data l))"
  by (simp add: isotp_ok_def isotp_send_can_def)

lemma send_can_ret [simp]: "fst (isotp_send_can aid data l) = RET_OK"
  by (simp add: isotp_send_can_def)

lemma flow_control_ok: "isotp_ok l \<Longrightarrow> isotp_ok (snd (isotp_send_flow_control fs bs st l))"
  by (simp add: isotp_send_flow_control_def send_can_ok)

lemma send_with_id_ok:
  assumes "isotp_ok l"
  shows "isotp_ok (snd (isotp_send_with_id ms aid payload l))"
proof (cases "length payload \<le> length (send_buffer l) \<and> send_status l \<noteq> SEND_INPROGRESS")
  case False
  then show ?thesis using assms unfolding isotp_send_with_id_def
    by (cases "length payload > length (send_buffer l)") simp_all
next
  case True
  let ?l = "l\<lparr>send_size := length payload, send_offset := 0, send_buffer := put 0 payload (send_buffer l)\<rparr>"
  have big: "length payload \<le> 4096" "length (put 0 payload (send_buffer l)) = 4096"
    using True assms by (simp_all add: isotp_ok_def)
  have ok: "isotp_ok ?l" using big assms True by (simp add: isotp_ok_def)
  show ?thesis
  proof (cases "length payload < 8")
    case small: True
    have "length (pci k w # take (length payload) (put 0 payload (send_buffer l)) @ replicate (7 - length payload) 0) = 8" for k w
      using small big by simp
    then show ?thesis using True small send_can_ok [OF ok]
      by (simp add: isotp_send_with_id_def isotp_send_single_frame_def)
  next
    case False
    have "length (pci k w # v # take 6 (put 0 payload (send_buffer l))) = 8" for k w v using big by simp
    note sent = send_can_ok [OF ok this]
    show ?thesis using True False sent big
      by (simp add: isotp_send_with_id_def isotp_send_first_frame_def isotp_send_can_def isotp_ok_def)
  qed
qed

definition next_chunk :: "isotp_link \<Rightarrow> nat" where
  "next_chunk l = min (send_size l - send_offset l) 7"

definition next_frame :: "isotp_link \<Rightarrow> bytes" where
  "next_frame l = pci TSOTP_PCI_TYPE_CONSECUTIVE_FRAME (send_sn l) #
     take (next_chunk l) (drop (send_offset l) (send_buffer l)) @ replicate (7 - next_chunk l) 0"

definition consecutive_sent :: "isotp_link \<Rightarrow> isotp_link" where
  "consecutive_sent l = l\<lparr>link_sent := link_sent l @ [(send_arbitration_id l, next_frame l)],
     send_offset := send_offset l + next_chunk l, send_sn := next_sn (send_sn l)\<rparr>"

lemma isotp_send_consecutive_frame_eq: "isotp_send_consecutive_frame l = (RET_OK, consecutive_sent l)"
  by (simp add: isotp_send_consecutive_frame_def isotp_send_can_def consecutive_sent_def next_frame_def next_chunk_def Let_def)

lemma next_chunk_bounds:
  "next_chunk l \<le> 7" "next_chunk l \<le> send_size l - send_offset l"
  "isotp_ok l \<Longrightarrow> send_offset l + next_chunk l \<le> send_size l"
  by (auto simp: next_chunk_def isotp_ok_def)

lemma next_frame_length: "isotp_ok l \<Longrightarrow> length (next_frame l) = 8"
proof -
  assume l: "isotp_ok l"
  have "length (take n xs @ replicate (7 - n) 0) = 7" if "n \<le> 7" "n \<le> length xs" for n and xs :: bytes
    using that by simp
  moreover have "length (send_buffer l) = 4096" "send_size l \<le> 4096" using l by (simp_all add: isotp_ok_def)
  then have "next_chunk l \<le> length (drop (send_offset l) (send_buffer l))"
    using next_chunk_bounds(3) [OF l] unfolding length_drop by linarith
  ultimately show ?thesis using next_chunk_bounds(1) [of l] by (simp add: next_frame_def del: length_append)
qed

lemma consecutive_sent_ok:
  assumes "isotp_ok l"
  shows "isotp_ok ((consecutive_sent l)\<lparr>send_status := SEND_IDLE\<rparr>)" "send_offset (consecutive_sent l) \<le> send_size (consecutive_sent l)"
  using assms next_chunk_bounds(3) [OF assms] next_frame_length [OF assms]
  unfolding isotp_ok_def consecutive_sent_def by simp_all

lemma isotp_ok_timers:
  "isotp_ok (l\<lparr>send_bs_remain := a\<rparr>) = isotp_ok l"
  "isotp_ok (l\<lparr>send_timer_bs := t\<rparr>) = isotp_ok l"
  "isotp_ok (l\<lparr>send_timer_st := t\<rparr>) = isotp_ok l"
  "isotp_ok (l\<lparr>receive_timer_cr := t\<rparr>) = isotp_ok l"
  "isotp_ok (l\<lparr>send_protocol_result := r\<rparr>) = isotp_ok l"
  "isotp_ok (l\<lparr>receive_protocol_result := r\<rparr>) = isotp_ok l"
  "isotp_ok (l\<lparr>receive_bs_count := c\<rparr>) = isotp_ok l"
  "isotp_ok (l\<lparr>send_wtf_count := n\<rparr>) = isotp_ok l"
  "isotp_ok (l\<lparr>send_st_min := b\<rparr>) = isotp_ok l"
  by (simp_all add: isotp_ok_def)

lemma isotp_ok_status:
  "isotp_ok l \<Longrightarrow> isotp_ok (l\<lparr>send_status := SEND_ERROR\<rparr>)"
  "isotp_ok l \<Longrightarrow> isotp_ok (l\<lparr>receive_status := RECEIVE_IDLE\<rparr>)"
  by (simp_all add: isotp_ok_def)

lemma poll_send_eq:
  "poll_send ms l =
     (if (send_bs_remain l = ISOTP_INVALID_BS \<or> send_bs_remain l > 0) \<and>
         (send_st_min l = 0 \<or> IsoTpTimeAfter (ms Check_St) (send_timer_st l))
      then (consecutive_sent l)\<lparr>
        send_bs_remain := (if send_bs_remain l \<noteq> ISOTP_INVALID_BS then send_bs_remain l - 1 else send_bs_remain l),
        send_timer_bs := ms Timer_Bs + ISO_TP_DEFAULT_RESPONSE_TIMEOUT,
        send_timer_st := ms Timer_St + ucast (send_st_min l),
        send_status := (if send_offset (consecutive_sent l) \<ge> send_size l then SEND_IDLE else send_status l)\<rparr>
      else l)"
  unfolding poll_send_def isotp_send_consecutive_frame_eq by (simp add: consecutive_sent_def Let_def)

lemma poll_send_ok:
  assumes "isotp_ok l"
  shows "isotp_ok (poll_send ms l)"
proof -
  let ?st = "if send_offset (consecutive_sent l) \<ge> send_size l then SEND_IDLE else send_status l"
  have "isotp_ok ((consecutive_sent l)\<lparr>send_status := ?st\<rparr>)"
  proof (cases "send_offset (consecutive_sent l) \<ge> send_size l")
    case False
    have "send_size (consecutive_sent l) = send_size l" by (simp add: consecutive_sent_def)
    then show ?thesis using consecutive_sent_ok [OF assms] False by (simp add: isotp_ok_def)
  qed (use consecutive_sent_ok(1) [OF assms] in simp)
  then have "isotp_ok ((consecutive_sent l)\<lparr>send_bs_remain := a, send_timer_bs := b, send_timer_st := c, send_status := ?st\<rparr>)"
    for a b c by (simp add: isotp_ok_def)
  then show ?thesis using assms unfolding poll_send_eq by (simp only: if_True if_False split: if_splits) simp
qed

lemma poll_ok:
  assumes "isotp_ok l"
  shows "isotp_ok (isotp_poll ms l)"
proof -
  define l1 where "l1 = (if send_status l = SEND_INPROGRESS then poll_send ms l else l)"
  have "isotp_ok l1" using poll_send_ok assms by (simp add: l1_def)
  moreover have "isotp_poll ms l =
      (let l2 = (if send_status l = SEND_INPROGRESS \<and> IsoTpTimeAfter (ms Check_Bs) (send_timer_bs l1)
                 then l1\<lparr>send_protocol_result := RESULT_TIMEOUT_BS, send_status := SEND_ERROR\<rparr> else l1)
       in if receive_status l2 = RECEIVE_INPROGRESS \<and> IsoTpTimeAfter (ms Check_Cr) (receive_timer_cr l2)
          then l2\<lparr>receive_protocol_result := RESULT_TIMEOUT_CR, receive_status := RECEIVE_IDLE\<rparr> else l2)"
    by (simp add: isotp_poll_def l1_def Let_def)
  ultimately show ?thesis by (simp add: Let_def isotp_ok_timers isotp_ok_status)
qed

lemma begin_message_ok: "isotp_ok l \<Longrightarrow> isotp_ok (begin_message l)"
  by (simp add: isotp_ok_def begin_message_def)

lemma single_frame_ok: "isotp_ok l \<Longrightarrow> length m = 8 \<Longrightarrow> len \<le> 8 \<Longrightarrow> isotp_ok (on_single_frame m len l)"
  using pci_low_less [of m]
  by (auto simp: on_single_frame_def isotp_receive_single_frame_def begin_message_def isotp_ok_def Let_def)

lemma first_frame_ok: "isotp_ok l \<Longrightarrow> length m = 8 \<Longrightarrow> isotp_ok (on_first_frame ms m len l)"
proof -
  assume l: "isotp_ok l" and m: "length m = 8"
  have "unat (pci_low m) * 256 + unat (m ! 1) \<le> 4095" using pci_low_less [of m] unat_u8_less [of "m ! 1"] by linarith
  then show ?thesis using l m
    by (auto simp: on_first_frame_def isotp_receive_first_frame_def begin_message_def isotp_send_flow_control_def
      isotp_send_can_def isotp_ok_def Let_def)
qed

lemma consecutive_frame_ok: "isotp_ok l \<Longrightarrow> length m = 8 \<Longrightarrow> isotp_ok (on_consecutive_frame ms m len l)"
  by (auto simp: on_consecutive_frame_def isotp_receive_consecutive_frame_def isotp_send_flow_control_def
      isotp_send_can_def isotp_ok_def Let_def)

lemma flow_frame_ok: "isotp_ok l \<Longrightarrow> isotp_ok (on_flow_control ms m len l)"
  by (auto simp: on_flow_control_def isotp_ok_def Let_def)

lemma on_can_message_ok: "isotp_ok l \<Longrightarrow> isotp_ok (isotp_on_can_message ms data l)"
  by (auto simp: isotp_on_can_message_def Let_def intro!: single_frame_ok first_frame_ok consecutive_frame_ok flow_frame_ok)

end
