(* ===== verification/IsoTpEndpoint.thy ===== *)
theory IsoTpEndpoint
  imports IsoTp CanHandler
begin

text \<open>
  The program's end of a segmented transfer.  Source: \<open>src/CanIsoTpEndpoint.cpp\<close> and
  \<open>src/CanIsoTpEndpoint.hpp\<close>.  A call runs under the endpoint's lock and is one step; the frames
  it hands to the transport are collected in its link.  Time points are integers in
  nanoseconds since the start of the clock.
\<close>

section \<open>The endpoint\<close>

definition MAX_ISOTP_FRAME_LEN :: nat where "MAX_ISOTP_FRAME_LEN = 4096"

record isotp_endpoint =
  m_Link :: isotp_link
  m_ResponseId :: u32
  m_Received :: "bytes list"
  m_LastReceived :: int

definition new_endpoint :: "u32 \<Rightarrow> isotp_endpoint" where
  "new_endpoint request_id =
     \<lparr>m_Link = isotp_init_link request_id (replicate MAX_ISOTP_FRAME_LEN 0) (replicate MAX_ISOTP_FRAME_LEN 0),
      m_ResponseId = 0x7DA, m_Received = [], m_LastReceived = 0\<rparr>"

definition Milliseconds :: "(reading \<Rightarrow> int) \<Rightarrow> reading \<Rightarrow> u32" where
  "Milliseconds now r = word_of_int (now r div 1000000)"

definition SetRequestId :: "u32 \<Rightarrow> isotp_endpoint \<Rightarrow> isotp_endpoint" where
  "SetRequestId fid ep = ep\<lparr>m_Link := (m_Link ep)\<lparr>send_arbitration_id := fid\<rparr>\<rparr>"

definition SetResponseId :: "u32 \<Rightarrow> isotp_endpoint \<Rightarrow> isotp_endpoint" where
  "SetResponseId fid ep = ep\<lparr>m_ResponseId := fid\<rparr>"

definition EndpointSend :: "(reading \<Rightarrow> int) \<Rightarrow> u32 \<Rightarrow> bytes \<Rightarrow> isotp_endpoint \<Rightarrow> isotp_endpoint" where
  "EndpointSend now fid data ep = ep\<lparr>m_Link := snd (isotp_send_with_id (Milliseconds now) fid data (m_Link ep))\<rparr>"

definition Poll :: "(reading \<Rightarrow> int) \<Rightarrow> isotp_endpoint \<Rightarrow> isotp_endpoint" where
  "Poll now ep = ep\<lparr>m_Link := isotp_poll (Milliseconds now) (m_Link ep)\<rparr>"

definition OnCanFrame :: "(reading \<Rightarrow> int) \<Rightarrow> bytes \<Rightarrow> isotp_endpoint \<Rightarrow> bytes option \<times> isotp_endpoint" where
  "OnCanFrame now data ep =
     (let l = isotp_on_can_message (Milliseconds now) data (m_Link ep)
      in case isotp_receive MAX_ISOTP_FRAME_LEN l of
           (None, l1) \<Rightarrow> (None, ep\<lparr>m_Link := l1\<rparr>)
         | (Some message, l1) \<Rightarrow>
             (Some message, ep\<lparr>m_Link := l1, m_Received := m_Received ep @ [message], m_LastReceived := now Received_At\<rparr>))"

definition TakeReceivedFrames :: "isotp_endpoint \<Rightarrow> bytes list \<times> isotp_endpoint" where
  "TakeReceivedFrames ep = (m_Received ep, ep\<lparr>m_Received := []\<rparr>)"

definition ClearReceivedFrames :: "isotp_endpoint \<Rightarrow> isotp_endpoint" where
  "ClearReceivedFrames ep = ep\<lparr>m_Received := []\<rparr>"

definition MillisecondsSinceLastFrame :: "int \<Rightarrow> isotp_endpoint \<Rightarrow> u32" where
  "MillisecondsSinceLastFrame now ep = word_of_int (max 0 (min (ms_between now (m_LastReceived ep)) (2 ^ 32 - 1)))"

section \<open>Putting a message together\<close>

text \<open>
  The receiver of the protocol: what of a message there is, and what a frame does to it.  It
  has no buffers, offsets or status.
\<close>

datatype assembly = Waiting | Collecting nat bytes u8

definition assemble :: "bytes \<Rightarrow> assembly \<Rightarrow> bytes option \<times> assembly" where
  "assemble data s =
     (if length data < 2 \<or> length data > 8 then (None, s)
      else if pci_type data = ISOTP_PCI_TYPE_SINGLE
      then if pci_low data = 0 \<or> unat (pci_low data) > length data - 1 then (None, s)
           else (Some (take (unat (pci_low data)) (tl data)), Waiting)
      else if pci_type data = ISOTP_PCI_TYPE_FIRST_FRAME
      then let whole = unat (pci_low data) * 256 + unat (data ! 1)
           in if length data \<noteq> 8 \<or> whole \<le> 7 then (None, s) else (None, Collecting whole (drop 2 data) 1)
      else if pci_type data = TSOTP_PCI_TYPE_CONSECUTIVE_FRAME
      then case s of
             Waiting \<Rightarrow> (None, Waiting)
           | Collecting whole got sn \<Rightarrow>
               let n = min (whole - length got) 7
               in if sn \<noteq> pci_low data then (None, Waiting)
                  else if n > length data - 1 then (None, s)
                  else if length got + n \<ge> whole then (Some (got @ take n (tl data)), Waiting)
                  else (None, Collecting whole (got @ take n (tl data)) (next_sn sn))
      else (None, s))"

definition assembly_of :: "isotp_link \<Rightarrow> assembly" where
  "assembly_of l =
     (if receive_status l = RECEIVE_INPROGRESS
      then Collecting (receive_size l) (take (receive_offset l) (receive_buffer l)) (receive_sn l) else Waiting)"

text \<open>What a handler leaves of a frame: the message, if it completed one, and the rest.\<close>

definition outcome :: "isotp_link \<Rightarrow> bytes option \<times> assembly" where
  "outcome l = (let (message, l1) = isotp_receive MAX_ISOTP_FRAME_LEN l in (message, assembly_of l1))"

lemma outcome_cases:
  "receive_status l \<noteq> RECEIVE_FULL \<Longrightarrow> outcome l = (None, assembly_of l)"
  "receive_status l = RECEIVE_FULL \<Longrightarrow> receive_size l \<le> 4096 \<Longrightarrow> outcome l = (Some (take (receive_size l) (receive_buffer l)), Waiting)"
  by (simp_all add: outcome_def isotp_receive_def assembly_of_def MAX_ISOTP_FRAME_LEN_def Let_def)

lemma take_put: "offset \<le> length buffer \<Longrightarrow> n = offset + length data \<Longrightarrow> take n (put offset data buffer) = take offset buffer @ data"
  by (simp add: put_def)

lemma padded_take: "1 \<le> length data \<Longrightarrow> n \<le> length data - 1 \<Longrightarrow> take n (drop 1 (data @ pad)) = take n (tl data)"
  by (cases data) simp_all

lemma single_frame_outcome:
  assumes "receive_status l \<noteq> RECEIVE_FULL" "2 \<le> length data" "pci_type data = ISOTP_PCI_TYPE_SINGLE" "length data \<le> 8"
    "pci_low m = pci_low data" "m = data @ replicate (8 - length data) 0"
  shows "outcome (on_single_frame m (length data) l) = assemble data (assembly_of l)"
proof (cases "pci_low data = 0 \<or> unat (pci_low data) > length data - 1")
  case True
  have "on_single_frame m (length data) l = begin_message l"
    using True assms(5) unfolding on_single_frame_def isotp_receive_single_frame_def by (auto simp: Let_def)
  then show ?thesis using True assms by (simp add: outcome_cases assemble_def assembly_of_def begin_message_def)
next
  case False
  let ?n = "unat (pci_low data)"
  have n: "take ?n (drop 1 m) = take ?n (tl data)" "length (take ?n (tl data)) = ?n" "?n \<le> 7"
    using False assms padded_take [of data ?n] by auto
  have "on_single_frame m (length data) l =
      (begin_message l)\<lparr>receive_buffer := put 0 (take ?n (tl data)) (receive_buffer l), receive_size := ?n, receive_status := RECEIVE_FULL\<rparr>"
  proof -
    have "\<not> (?n = 0 \<or> ?n > length data - 1)" using False by (simp add: unat_gt_0)
    then show ?thesis unfolding on_single_frame_def isotp_receive_single_frame_def Let_def assms(5) n(1)
      by (simp only: if_False prod.case if_True refl) (simp add: begin_message_def)
  qed
  moreover have "take ?n (put 0 (take ?n (tl data)) (receive_buffer l)) = take ?n (tl data)"
    using take_put [of 0 "receive_buffer l" ?n "take ?n (tl data)"] n by simp
  ultimately show ?thesis using False assms n by (simp add: outcome_cases assemble_def)
qed

lemma first_frame_outcome:
  assumes "receive_status l \<noteq> RECEIVE_FULL" "2 \<le> length data" "length data \<le> 8" "pci_type data = ISOTP_PCI_TYPE_FIRST_FRAME"
    "pci_low m = pci_low data" "m = data @ replicate (8 - length data) 0" "isotp_ok l"
  shows "outcome (on_first_frame ms m (length data) l) = assemble data (assembly_of l)"
proof -
  let ?total = "unat (pci_low data) * 256 + unat (data ! 1)"
  have second: "m ! 1 = data ! 1" using assms by (simp add: nth_append)
  have small: "?total \<le> 4095" using pci_low_less [of data] unat_u8_less [of "data ! 1"] by linarith
  have kinds: "pci_type data \<noteq> ISOTP_PCI_TYPE_SINGLE" using assms(4) by (simp add: pci_types)
  show ?thesis
  proof (cases "length data \<noteq> 8 \<or> ?total \<le> 7")
    case True
    have "on_first_frame ms m (length data) l = begin_message l"
      using True second assms(5) unfolding on_first_frame_def isotp_receive_first_frame_def by (auto simp: Let_def)
    then show ?thesis using True assms kinds by (auto simp: outcome_cases assemble_def assembly_of_def begin_message_def Let_def)
  next
    case False
    have m: "m = data" "length (drop 2 data) = 6" using False assms by simp_all
    have "length (receive_buffer l) = 4096" using assms(7) by (simp add: isotp_ok_def)
    then have buffers: "take 6 (put 0 (drop 2 data) (receive_buffer l)) = drop 2 data" "\<not> ?total > length (receive_buffer l)"
      using take_put [of 0 "receive_buffer l" 6 "drop 2 data"] m small by simp_all
    have "assembly_of (on_first_frame ms m (length data) l) = Collecting ?total (drop 2 data) 1"
      "receive_status (on_first_frame ms m (length data) l) = RECEIVE_INPROGRESS"
      using False m buffers unfolding on_first_frame_def isotp_receive_first_frame_def
      by (simp_all add: begin_message_def Let_def isotp_send_flow_control_def isotp_send_can_def assembly_of_def)
    then show ?thesis using False assms kinds by (simp add: outcome_cases assemble_def Let_def)
  qed
qed

definition chunk_stored :: "(reading \<Rightarrow> u32) \<Rightarrow> bytes \<Rightarrow> isotp_link \<Rightarrow> isotp_link" where
  "chunk_stored ms d l = l\<lparr>receive_buffer := put (receive_offset l) d (receive_buffer l),
     receive_offset := receive_offset l + length d, receive_sn := next_sn (receive_sn l),
     receive_timer_cr := ms Timer_Cr + ISO_TP_DEFAULT_RESPONSE_TIMEOUT\<rparr>"

definition permission :: bytes where
  "permission = [pci ISOTP_PCI_TYPE_FLOW_CONTROL_FRAME PCI_FLOW_STATUS_CONTINUE, ISO_TP_DEFAULT_BLOCK_SIZE,
     isotp_ms_to_st_min ISO_TP_DEFAULT_ST_MIN] @ replicate 5 0"

lemma on_fitting_chunk:
  assumes "receive_status l = RECEIVE_INPROGRESS" "2 \<le> length data" "pci_low m = pci_low data"
    "m = data @ replicate (8 - length data) 0" "receive_sn l = pci_low data"
    "min (receive_size l - receive_offset l) 7 \<le> length data - 1"
    "d = take (min (receive_size l - receive_offset l) 7) (tl data)"
  shows "on_consecutive_frame ms m (length data) l =
    (let l1 = chunk_stored ms d l
     in if receive_offset l + length d \<ge> receive_size l then l1\<lparr>receive_status := RECEIVE_FULL\<rparr>
        else if receive_bs_count l - 1 = 0
        then l1\<lparr>receive_bs_count := ISO_TP_DEFAULT_BLOCK_SIZE, link_sent := link_sent l @ [(send_arbitration_id l, permission)]\<rparr>
        else l1\<lparr>receive_bs_count := receive_bs_count l - 1\<rparr>)"
proof -
  let ?n = "min (receive_size l - receive_offset l) 7"
  have d: "take ?n (drop 1 m) = d" "length d = ?n"
    using assms(2,4,6) padded_take [of data ?n] by (simp_all add: assms(7))
  have r: "isotp_receive_consecutive_frame m (length data) l = (RET_OK, l\<lparr>
      receive_buffer := put (receive_offset l) d (receive_buffer l),
      receive_offset := receive_offset l + length d, receive_sn := next_sn (receive_sn l)\<rparr>)"
    using assms(5,6) unfolding isotp_receive_consecutive_frame_def Let_def d(1) d(2) assms(3)
    by (simp only: not_le [symmetric] not_True_eq_False if_False simp_thms)
  show ?thesis using assms(1) unfolding on_consecutive_frame_def r
    by (simp add: Let_def chunk_stored_def permission_def isotp_send_flow_control_def isotp_send_can_def)
qed

lemma fitting_chunk_outcome:
  assumes "receive_status l = RECEIVE_INPROGRESS" "2 \<le> length data" "length data \<le> 8"
    "pci_type data = TSOTP_PCI_TYPE_CONSECUTIVE_FRAME" "pci_low m = pci_low data"
    "m = data @ replicate (8 - length data) 0" "isotp_ok l" "receive_sn l = pci_low data"
    "min (receive_size l - receive_offset l) 7 \<le> length data - 1"
  shows "outcome (on_consecutive_frame ms m (length data) l) = assemble data (assembly_of l)"
proof -
  let ?got = "take (receive_offset l) (receive_buffer l)" and ?n = "min (receive_size l - receive_offset l) 7"
  have kinds: "pci_type data \<noteq> ISOTP_PCI_TYPE_SINGLE" "pci_type data \<noteq> ISOTP_PCI_TYPE_FIRST_FRAME"
    using assms(4) by (simp_all add: pci_types)
  have b: "receive_offset l < receive_size l" "receive_size l \<le> 4095" "length (receive_buffer l) = 4096"
    using assms(1,7) by (auto simp: isotp_ok_def)
  have got: "length ?got = receive_offset l" using b by simp
  have a: "assembly_of l = Collecting (receive_size l) ?got (receive_sn l)" using assms(1) by (simp add: assembly_of_def)
  define d where "d = take ?n (tl data)"
  have d: "length d = ?n" using assms(2,9) by (simp add: d_def)
  have joined: "take (receive_offset l + ?n) (put (receive_offset l) d (receive_buffer l)) = ?got @ d"
    using b d by (intro take_put) simp_all
  note on = on_fitting_chunk [OF assms(1,2,5,6,8,9) d_def, unfolded d]
  show ?thesis
  proof (cases "receive_offset l + ?n \<ge> receive_size l")
    case last: True
    then have e: "receive_offset l + ?n = receive_size l" using b(1) by linarith
    have "outcome (on_consecutive_frame ms m (length data) l) = (Some (?got @ d), Waiting)"
      using b joined last e unfolding on by (simp add: outcome_cases chunk_stored_def)
    moreover have "assemble data (assembly_of l) = (Some (?got @ d), Waiting)"
      using assms(2-4,8,9) last kinds got unfolding a assemble_def d_def by (simp add: Let_def)
    ultimately show ?thesis by simp
  next
    case False
    have "receive_status (on_consecutive_frame ms m (length data) l) = RECEIVE_INPROGRESS"
      "assembly_of (on_consecutive_frame ms m (length data) l) = Collecting (receive_size l) (?got @ d) (next_sn (receive_sn l))"
      using assms(1) False joined d unfolding on by (simp_all add: Let_def chunk_stored_def assembly_of_def)
    then have "outcome (on_consecutive_frame ms m (length data) l) = (None, Collecting (receive_size l) (?got @ d) (next_sn (receive_sn l)))"
      by (simp add: outcome_cases)
    moreover have "assemble data (assembly_of l) = (None, Collecting (receive_size l) (?got @ d) (next_sn (receive_sn l)))"
      using assms(2-4,8,9) False kinds got unfolding a assemble_def d_def by (simp add: Let_def)
    ultimately show ?thesis by simp
  qed
qed

lemma consecutive_frame_outcome:
  assumes "receive_status l \<noteq> RECEIVE_FULL" "2 \<le> length data" "length data \<le> 8"
    "pci_type data = TSOTP_PCI_TYPE_CONSECUTIVE_FRAME" "pci_low m = pci_low data"
    "m = data @ replicate (8 - length data) 0" "isotp_ok l"
  shows "outcome (on_consecutive_frame ms m (length data) l) = assemble data (assembly_of l)"
proof -
  have kinds: "pci_type data \<noteq> ISOTP_PCI_TYPE_SINGLE" "pci_type data \<noteq> ISOTP_PCI_TYPE_FIRST_FRAME"
    using assms(4) by (simp_all add: pci_types)
  let ?got = "take (receive_offset l) (receive_buffer l)" and ?n = "min (receive_size l - receive_offset l) 7"
  show ?thesis
  proof (cases "receive_status l = RECEIVE_INPROGRESS")
    case False
    then show ?thesis using assms(1-4) kinds
      by (simp add: on_consecutive_frame_def outcome_cases assemble_def assembly_of_def)
  next
    case True
    have b: "receive_offset l < receive_size l" "receive_size l \<le> 4095" "length (receive_buffer l) = 4096"
      using assms(7) True by (auto simp: isotp_ok_def)
    have got: "length ?got = receive_offset l" using b by simp
    have a: "assembly_of l = Collecting (receive_size l) ?got (receive_sn l)" using True by (simp add: assembly_of_def)
    consider "receive_sn l \<noteq> pci_low data" | "receive_sn l = pci_low data" "?n > length data - 1" |
      "receive_sn l = pci_low data" "?n \<le> length data - 1" by linarith
    then show ?thesis
    proof cases
      case 1
      then have "on_consecutive_frame ms m (length data) l =
          l\<lparr>receive_protocol_result := RESULT_WRONG_SN, receive_status := RECEIVE_IDLE\<rparr>"
        using True assms(5) by (simp add: on_consecutive_frame_def isotp_receive_consecutive_frame_def)
      then show ?thesis using 1 assms(2-4) kinds unfolding a assemble_def
        by (simp add: outcome_cases Let_def) (simp add: assembly_of_def)
    next
      case 2
      then have "on_consecutive_frame ms m (length data) l = l"
        using True assms(5) by (simp add: on_consecutive_frame_def isotp_receive_consecutive_frame_def Let_def)
      then have "outcome (on_consecutive_frame ms m (length data) l) = (None, assembly_of l)"
        using assms(1) by (simp add: outcome_cases)
      then show ?thesis using 2 assms(2-4) kinds got unfolding a assemble_def by (simp add: Let_def)
    next
      case 3
      then show ?thesis using fitting_chunk_outcome [OF True assms(2-7)] by simp
    qed
  qed
qed

lemma flow_control_outcome:
  "receive_status l \<noteq> RECEIVE_FULL \<Longrightarrow> outcome (on_flow_control ms m len l) = (None, assembly_of l)"
proof -
  assume l: "receive_status l \<noteq> RECEIVE_FULL"
  have "receive_status (on_flow_control ms m len l) = receive_status l" "assembly_of (on_flow_control ms m len l) = assembly_of l"
    by (simp_all add: on_flow_control_def Let_def assembly_of_def)
  then show ?thesis using l by (simp add: outcome_cases)
qed

lemma on_can_message_outcome:
  assumes "receive_status l \<noteq> RECEIVE_FULL" "isotp_ok l"
  shows "outcome (isotp_on_can_message ms data l) = assemble data (assembly_of l)"
proof (cases "length data < 2 \<or> length data > 8")
  case True
  then show ?thesis using assms(1) by (auto simp: isotp_on_can_message_def outcome_cases assemble_def)
next
  case False
  define m where "m = data @ replicate (8 - length data) 0"
  have len: "2 \<le> length data" "length data \<le> 8" using False by simp_all
  have first: "m ! 0 = data ! 0" using len by (cases data) (simp_all add: m_def)
  then have low: "pci_low m = pci_low data" and kind: "pci_type m = pci_type data"
    by (simp_all add: pci_low_def pci_type_def)
  have step: "isotp_on_can_message ms data l =
      (if pci_type data = ISOTP_PCI_TYPE_SINGLE then on_single_frame m (length data) l
       else if pci_type data = ISOTP_PCI_TYPE_FIRST_FRAME then on_first_frame ms m (length data) l
       else if pci_type data = TSOTP_PCI_TYPE_CONSECUTIVE_FRAME then on_consecutive_frame ms m (length data) l
       else if pci_type data = ISOTP_PCI_TYPE_FLOW_CONTROL_FRAME then on_flow_control ms m (length data) l else l)"
    unfolding isotp_on_can_message_def Let_def m_def [symmetric] kind using False by simp
  consider "pci_type data = ISOTP_PCI_TYPE_SINGLE" | "pci_type data = ISOTP_PCI_TYPE_FIRST_FRAME" |
    "pci_type data = TSOTP_PCI_TYPE_CONSECUTIVE_FRAME" |
    "pci_type data \<noteq> ISOTP_PCI_TYPE_SINGLE \<and> pci_type data \<noteq> ISOTP_PCI_TYPE_FIRST_FRAME \<and>
     pci_type data \<noteq> TSOTP_PCI_TYPE_CONSECUTIVE_FRAME" by blast
  then show ?thesis
  proof cases
    case 1
    then show ?thesis unfolding step using single_frame_outcome [OF assms(1) len(1) 1 len(2) low m_def] by simp
  next
    case 2
    then show ?thesis unfolding step
      using first_frame_outcome [OF assms(1) len 2 low m_def assms(2)] by (simp add: pci_types)
  next
    case 3
    then show ?thesis unfolding step
      using consecutive_frame_outcome [OF assms(1) len 3 low m_def assms(2)] by (simp add: pci_types)
  next
    case 4
    then have "assemble data (assembly_of l) = (None, assembly_of l)" using False by (simp add: assemble_def)
    then show ?thesis unfolding step using 4 flow_control_outcome [OF assms(1)] assms(1) by (simp add: outcome_cases)
  qed
qed

section \<open>The endpoint under any traffic\<close>

definition endpoint_ok :: "isotp_endpoint \<Rightarrow> bool" where
  "endpoint_ok ep \<longleftrightarrow>
     isotp_ok (m_Link ep) \<and> receive_status (m_Link ep) \<noteq> RECEIVE_FULL \<and>
     list_all (\<lambda>m. 1 \<le> length m \<and> length m \<le> 4095) (m_Received ep)"

lemma new_endpoint_ok: "endpoint_ok (new_endpoint request_id)"
  by (simp add: endpoint_ok_def new_endpoint_def init_ok MAX_ISOTP_FRAME_LEN_def) (simp add: isotp_init_link_def)

lemma isotp_receive_ok:
  assumes "isotp_ok l" "isotp_receive MAX_ISOTP_FRAME_LEN l = (message, l1)"
  shows "isotp_ok l1 \<and> receive_status l1 \<noteq> RECEIVE_FULL \<and> (\<forall>m. message = Some m \<longrightarrow> 1 \<le> length m \<and> length m \<le> 4095)"
  using assms by (auto simp: isotp_receive_def isotp_ok_def MAX_ISOTP_FRAME_LEN_def split: if_splits)

lemma OnCanFrame_ok: "endpoint_ok ep \<Longrightarrow> endpoint_ok (snd (OnCanFrame now data ep))"
proof -
  assume ep: "endpoint_ok ep"
  obtain message l1 where r: "isotp_receive MAX_ISOTP_FRAME_LEN (isotp_on_can_message (Milliseconds now) data (m_Link ep)) = (message, l1)"
    by (cases "isotp_receive MAX_ISOTP_FRAME_LEN (isotp_on_can_message (Milliseconds now) data (m_Link ep))")
  have "isotp_ok (isotp_on_can_message (Milliseconds now) data (m_Link ep))"
    using ep by (simp add: endpoint_ok_def on_can_message_ok)
  from isotp_receive_ok [OF this r] show ?thesis
    using ep unfolding OnCanFrame_def Let_def r by (cases message) (auto simp: endpoint_ok_def)
qed

lemma send_keeps_receive_status:
  "receive_status (snd (isotp_send_with_id ms aid payload l)) = receive_status l"
  by (simp add: isotp_send_with_id_def isotp_send_single_frame_def isotp_send_first_frame_def isotp_send_can_def Let_def)

lemma poll_receive_status: "receive_status l \<noteq> RECEIVE_FULL \<Longrightarrow> receive_status (isotp_poll ms l) \<noteq> RECEIVE_FULL"
  by (simp add: isotp_poll_def poll_send_eq consecutive_sent_def Let_def)

datatype endpoint_call =
  Call_Send u32 bytes | Call_Poll | Call_OnCanFrame bytes | Call_SetRequestId u32 | Call_SetResponseId u32
| Call_TakeReceivedFrames | Call_ClearReceivedFrames

fun endpoint_step :: "(reading \<Rightarrow> int) \<times> endpoint_call \<Rightarrow> isotp_endpoint \<Rightarrow> isotp_endpoint" where
  "endpoint_step (now, Call_Send fid data) ep = EndpointSend now fid data ep"
| "endpoint_step (now, Call_Poll) ep = Poll now ep"
| "endpoint_step (now, Call_OnCanFrame data) ep = snd (OnCanFrame now data ep)"
| "endpoint_step (now, Call_SetRequestId fid) ep = SetRequestId fid ep"
| "endpoint_step (now, Call_SetResponseId fid) ep = SetResponseId fid ep"
| "endpoint_step (now, Call_TakeReceivedFrames) ep = snd (TakeReceivedFrames ep)"
| "endpoint_step (now, Call_ClearReceivedFrames) ep = ClearReceivedFrames ep"

lemma endpoint_step_ok: "endpoint_ok ep \<Longrightarrow> endpoint_ok (endpoint_step c ep)"
proof (induction c ep rule: endpoint_step.induct)
  case (3 now data ep)
  then show ?case by (simp add: OnCanFrame_ok)
next
  case (4 now fid ep)
  then show ?case by (simp add: endpoint_ok_def SetRequestId_def isotp_ok_def)
qed (simp_all add: endpoint_ok_def EndpointSend_def Poll_def SetResponseId_def TakeReceivedFrames_def ClearReceivedFrames_def
      send_with_id_ok send_keeps_receive_status poll_ok poll_receive_status)

text \<open>
  C34: whatever is called and whatever frames arrive, from a new endpoint no buffer is overrun,
  every frame sent has eight bytes and every message received has 1 to 4095 bytes.
\<close>

theorem endpoint_keeps_its_buffers:
  "endpoint_ok (fold endpoint_step calls (new_endpoint request_id))"
proof -
  have "endpoint_ok ep \<Longrightarrow> endpoint_ok (fold endpoint_step calls ep)" for ep
    by (induction calls arbitrary: ep) (simp_all add: endpoint_step_ok)
  then show ?thesis using new_endpoint_ok by blast
qed

lemma endpoint_assembles:
  assumes "endpoint_ok ep"
  shows "(fst (OnCanFrame now data ep), assembly_of (m_Link (snd (OnCanFrame now data ep)))) = assemble data (assembly_of (m_Link ep))"
proof -
  let ?l = "isotp_on_can_message (Milliseconds now) data (m_Link ep)"
  have "outcome ?l = assemble data (assembly_of (m_Link ep))"
    using assms by (intro on_can_message_outcome) (simp_all add: endpoint_ok_def)
  moreover have "outcome ?l = (fst (OnCanFrame now data ep), assembly_of (m_Link (snd (OnCanFrame now data ep))))"
    by (auto simp: outcome_def OnCanFrame_def Let_def split: prod.splits option.splits)
  ultimately show ?thesis by simp
qed

text \<open>
  C35: a frame that arrives does to the endpoint what it does to the receiver without buffers.
\<close>

theorem OnCanFrame_assembles:
  assumes "endpoint_ok ep"
  shows "(fst (OnCanFrame now data ep), assembly_of (m_Link (snd (OnCanFrame now data ep)))) = assemble data (assembly_of (m_Link ep))"
  using assms by (rule endpoint_assembles)

theorem OnCanFrame_assembles_witness:
  "(fst (OnCanFrame (\<lambda>r. 0) [2, 8, 9, 0] (new_endpoint 0x7E0)),
    assembly_of (m_Link (snd (OnCanFrame (\<lambda>r. 0) [2, 8, 9, 0] (new_endpoint 0x7E0))))) = (Some [8, 9], Waiting)"
proof -
  have "assembly_of (m_Link (new_endpoint 0x7E0)) = Waiting"
    by (simp add: new_endpoint_def isotp_init_link_def assembly_of_def)
  moreover have "assemble [2, 8, 9, 0] Waiting = (Some [8, 9], Waiting)" by code_simp
  ultimately show ?thesis using OnCanFrame_assembles [OF new_endpoint_ok [of "0x7E0"], of "\<lambda>r. 0" "[2, 8, 9, 0]"] by simp
qed

section \<open>A message as frames\<close>

definition chunk_frame :: "u8 \<Rightarrow> bytes \<Rightarrow> bytes" where
  "chunk_frame sn chunk = pci TSOTP_PCI_TYPE_CONSECUTIVE_FRAME sn # take 7 chunk @ replicate (7 - length chunk) 0"

function chunk_frames :: "u8 \<Rightarrow> bytes \<Rightarrow> bytes list" where
  "chunk_frames sn data = (if data = [] then [] else chunk_frame sn data # chunk_frames (next_sn sn) (drop 7 data))"
  by pat_completeness auto
termination by (relation "measure (\<lambda>(sn, data). length data)") (auto simp: length_greater_0_conv)

declare chunk_frames.simps [simp del]

definition single_segment :: "bytes \<Rightarrow> bytes" where
  "single_segment msg = pci ISOTP_PCI_TYPE_SINGLE (word_of_nat (length msg)) # msg @ replicate (7 - length msg) 0"

definition first_segment :: "bytes \<Rightarrow> bytes" where
  "first_segment msg = pci ISOTP_PCI_TYPE_FIRST_FRAME (word_of_nat (length msg div 256)) # word_of_nat (length msg) # take 6 msg"

definition segments :: "bytes \<Rightarrow> bytes list" where
  "segments msg =
     (if length msg < 8 then [single_segment msg] else first_segment msg # chunk_frames 1 (drop 6 msg))"

fun assemble_all :: "bytes list \<Rightarrow> assembly \<Rightarrow> bytes list \<times> assembly" where
  "assemble_all [] s = ([], s)"
| "assemble_all (f # fs) s =
     (let (message, s1) = assemble f s; (rest, s2) = assemble_all fs s1 in (case message of None \<Rightarrow> rest | Some m \<Rightarrow> m # rest, s2))"

lemma chunk_frame_length: "length (chunk_frame sn data) = 8"
  by (simp add: chunk_frame_def)

lemma assemble_chunk:
  assumes "unat sn < 16" "data \<noteq> []" "whole = length got + length data"
  shows "assemble (chunk_frame sn data) (Collecting whole got sn) =
    (if length data \<le> 7 then (Some (got @ data), Waiting) else (None, Collecting whole (got @ take 7 data) (next_sn sn)))"
proof -
  let ?f = "chunk_frame sn data"
  have f: "pci_type ?f = TSOTP_PCI_TYPE_CONSECUTIVE_FRAME" "pci_low ?f = sn" "length ?f = 8"
    "tl ?f = take 7 data @ replicate (7 - length data) 0"
    using assms(1) chunk_frame_length by (simp_all add: chunk_frame_def nibble_same)
  have "take (min (length data) 7) (tl ?f) = take 7 data" by (simp add: f(4) min_def)
  then show ?thesis using f(1-3) assms(2,3) unfolding assemble_def by (auto simp: pci_types Let_def min_def)
qed

lemma assemble_chunks:
  "unat sn < 16 \<Longrightarrow> data \<noteq> [] \<Longrightarrow> whole = length got + length data \<Longrightarrow>
   assemble_all (chunk_frames sn data) (Collecting whole got sn) = ([got @ data], Waiting)"
proof (induction sn data arbitrary: got rule: chunk_frames.induct)
  case (1 sn data)
  note step = assemble_chunk [OF 1(2-4)]
  show ?case
  proof (cases "length data \<le> 7")
    case True
    then show ?thesis using 1(3) step by (simp add: chunk_frames.simps)
  next
    case False
    have "assemble_all (chunk_frames (next_sn sn) (drop 7 data)) (Collecting whole (got @ take 7 data) (next_sn sn)) =
        ([(got @ take 7 data) @ drop 7 data], Waiting)"
      using False 1(2-4) by (intro 1(1)) (simp_all add: next_sn_less)
    then show ?thesis using False 1(3) step by (simp add: chunk_frames.simps [of sn data])
  qed
qed

lemma single_assembles:
  assumes "1 \<le> length msg" "length msg < 8"
  shows "assemble (single_segment msg) s = (Some msg, Waiting)"
proof -
  let ?f = "single_segment msg"
  have n: "unat (word_of_nat (length msg) :: u8) = length msg" using assms(2) by (simp add: unat_of_nat)
  then have "pci_low ?f = word_of_nat (length msg)" using assms(2) by (simp add: nibble_same single_segment_def)
  then have low: "unat (pci_low ?f) = length msg" by (simp only: n)
  then have "pci_low ?f \<noteq> 0" using assms(1) by auto
  moreover have "pci_type ?f = ISOTP_PCI_TYPE_SINGLE" "length ?f = 8" "take (length msg) (tl ?f) = msg"
    using assms(2) by (simp_all add: single_segment_def)
  ultimately show ?thesis using assms(2) low unfolding assemble_def by simp
qed

lemma first_segment_length:
  assumes "length msg \<le> 4095"
  shows "unat (pci_low (first_segment msg)) * 256 + unat (first_segment msg ! 1) = length msg"
proof -
  have "length msg div 256 < 16" using assms by linarith
  then have high: "unat (pci_low (first_segment msg)) = length msg div 256"
    by (simp add: first_segment_def unat_of_nat nibble_same)
  have low: "unat (first_segment msg ! 1) = length msg mod 256" by (simp add: first_segment_def unat_of_nat)
  show ?thesis unfolding high low by (rule div_mult_mod_eq)
qed

lemma first_assembles:
  assumes "8 \<le> length msg" "length msg \<le> 4095"
  shows "assemble (first_segment msg) s = (None, Collecting (length msg) (take 6 msg) 1)"
proof -
  have kind: "pci_type (first_segment msg) = ISOTP_PCI_TYPE_FIRST_FRAME" "ISOTP_PCI_TYPE_FIRST_FRAME \<noteq> ISOTP_PCI_TYPE_SINGLE"
    by (simp add: first_segment_def) (simp add: pci_types)
  have parts: "length (first_segment msg) = 8" "drop 2 (first_segment msg) = take 6 msg"
    using assms(1) by (simp_all add: first_segment_def)
  show ?thesis
    unfolding assemble_def Let_def kind(1) first_segment_length [OF assms(2)] parts using kind(2) assms(1) by simp
qed

text \<open>The frames of a message of 1 to 4095 bytes are put together to the message, whatever was collected before.\<close>

lemma segments_assemble:
  assumes "1 \<le> length msg" "length msg \<le> 4095"
  shows "assemble_all (segments msg) s = ([msg], Waiting)"
proof (cases "length msg < 8")
  case True
  then show ?thesis using single_assembles [OF assms(1)] by (simp add: segments_def)
next
  case False
  have parts: "unat (1 :: u8) < 16" "drop 6 msg \<noteq> []" "length msg = length (take 6 msg) + length (drop 6 msg)"
    using False by (simp_all flip: length_append)
  have "assemble_all (chunk_frames 1 (drop 6 msg)) (Collecting (length msg) (take 6 msg) 1) = ([msg], Waiting)"
    unfolding assemble_chunks [OF parts] append_take_drop_id by (rule refl)
  then show ?thesis using False first_assembles [of msg s] assms(2) by (simp add: segments_def)
qed

end
