(* ===== verification/IsoTpTransfer.thy ===== *)
theory IsoTpTransfer
  imports IsoTpEndpoint
begin

text \<open>
  Two endpoints on one bus: how a message that one of them sends reaches the other, and how
  it reaches the observers of the CAN handler.  Source: \<open>src/CanIsoTpEndpoint.cpp\<close> and
  \<open>src/CanEntryHandler.cpp\<close>, whose worker polls the endpoint and whose receive path hands it
  the frames of its response identifier.
\<close>

section \<open>The sender\<close>

text \<open>What is left to send.\<close>

definition unsent :: "isotp_link \<Rightarrow> bytes" where
  "unsent l = drop (send_offset l) (take (send_size l) (send_buffer l))"

lemma next_frame_chunk:
  assumes "isotp_ok l"
  shows "next_frame l = chunk_frame (send_sn l) (unsent l)"
proof -
  have n: "length (unsent l) = send_size l - send_offset l" using assms by (simp add: unsent_def isotp_ok_def)
  have "take (next_chunk l) (drop (send_offset l) (send_buffer l)) = take 7 (unsent l)"
    by (simp add: unsent_def next_chunk_def drop_take min.commute)
  moreover have "7 - next_chunk l = 7 - length (unsent l)" by (simp add: n next_chunk_def)
  ultimately show ?thesis by (simp add: next_frame_def chunk_frame_def)
qed

lemma consecutive_sent_fields [simp]:
  "send_size (consecutive_sent l) = send_size l" "send_buffer (consecutive_sent l) = send_buffer l"
  "send_offset (consecutive_sent l) = send_offset l + next_chunk l" "send_sn (consecutive_sent l) = next_sn (send_sn l)"
  "send_arbitration_id (consecutive_sent l) = send_arbitration_id l" "send_status (consecutive_sent l) = send_status l"
  "receive_status (consecutive_sent l) = receive_status l" "receive_timer_cr (consecutive_sent l) = receive_timer_cr l"
  "send_st_min (consecutive_sent l) = send_st_min l" "send_bs_remain (consecutive_sent l) = send_bs_remain l"
  "link_sent (consecutive_sent l) = link_sent l @ [(send_arbitration_id l, next_frame l)]"
  by (simp_all add: consecutive_sent_def)

section \<open>Two endpoints\<close>

definition take_sent :: "isotp_endpoint \<Rightarrow> (u32 \<times> bytes) list \<times> isotp_endpoint" where
  "take_sent ep = (link_sent (m_Link ep), ep\<lparr>m_Link := (m_Link ep)\<lparr>link_sent := []\<rparr>\<rparr>)"

text \<open>The frames on the bus, as the handler passes them to its endpoint.\<close>

fun receive_frames :: "(reading \<Rightarrow> int) \<Rightarrow> (u32 \<times> bytes) list \<Rightarrow> isotp_endpoint \<Rightarrow> bytes list \<times> isotp_endpoint" where
  "receive_frames now [] ep = ([], ep)"
| "receive_frames now (f # fs) ep =
     (if fst f = m_ResponseId ep
      then let (message, ep1) = OnCanFrame now (snd f) ep; (rest, ep2) = receive_frames now fs ep1
           in (case message of None \<Rightarrow> rest | Some m \<Rightarrow> m # rest, ep2)
      else receive_frames now fs ep)"

type_synonym clocks = "nat \<Rightarrow> reading \<Rightarrow> int"

definition exchange_frames ::
    "(reading \<Rightarrow> int) \<Rightarrow> (reading \<Rightarrow> int) \<Rightarrow> isotp_endpoint \<times> isotp_endpoint \<Rightarrow> bytes list \<times> isotp_endpoint \<times> isotp_endpoint" where
  "exchange_frames nowA nowB AB =
     (let (A, B) = AB; (fs, A1) = take_sent A; (messages, B1) = receive_frames nowB fs B;
          (gs, B2) = take_sent B1; (replies, A2) = receive_frames nowA gs A1
      in (messages, A2, B2))"

definition bus_round ::
    "(reading \<Rightarrow> int) \<Rightarrow> (reading \<Rightarrow> int) \<Rightarrow> isotp_endpoint \<times> isotp_endpoint \<Rightarrow> bytes list \<times> isotp_endpoint \<times> isotp_endpoint" where
  "bus_round nowA nowB AB = (let (A, B) = AB in exchange_frames nowA nowB (Poll nowA A, Poll nowB B))"

fun transfer :: "clocks \<Rightarrow> clocks \<Rightarrow> bytes \<Rightarrow> nat \<Rightarrow> isotp_endpoint \<times> isotp_endpoint \<Rightarrow> bytes list \<times> isotp_endpoint \<times> isotp_endpoint" where
  "transfer nowA nowB msg 0 AB =
     (let (A, B) = AB in exchange_frames (nowA 0) (nowB 0) (EndpointSend (nowA 0) (send_arbitration_id (m_Link A)) msg A, B))"
| "transfer nowA nowB msg (Suc n) AB =
     (let (messages, AB1) = transfer nowA nowB msg n AB; (more_messages, AB2) = bus_round (nowA (Suc n)) (nowB (Suc n)) AB1
      in (messages @ more_messages, AB2))"

text \<open>No call comes later than the response timeout after the one before it.\<close>

definition deadline :: "(reading \<Rightarrow> int) \<Rightarrow> reading \<Rightarrow> u32" where
  "deadline now r = Milliseconds now r + ISO_TP_DEFAULT_RESPONSE_TIMEOUT"

definition in_time :: "(reading \<Rightarrow> int) \<Rightarrow> (reading \<Rightarrow> int) \<Rightarrow> bool" where
  "in_time earlier now \<longleftrightarrow> (\<forall>r r'. \<not> IsoTpTimeAfter (Milliseconds now r) (deadline earlier r'))"

definition punctual :: "clocks \<Rightarrow> bool" where
  "punctual now \<longleftrightarrow> (\<forall>n. in_time (now n) (now n) \<and> in_time (now n) (now (Suc n)))"

definition facing :: "isotp_endpoint \<Rightarrow> isotp_endpoint \<Rightarrow> bool" where
  "facing A B \<longleftrightarrow> endpoint_ok A \<and> endpoint_ok B \<and>
     link_sent (m_Link A) = [] \<and> link_sent (m_Link B) = [] \<and>
     m_ResponseId B = send_arbitration_id (m_Link A) \<and> m_ResponseId A = send_arbitration_id (m_Link B) \<and>
     send_status (m_Link B) \<noteq> SEND_INPROGRESS \<and> receive_status (m_Link A) = RECEIVE_IDLE"

definition at_rest :: "isotp_endpoint \<Rightarrow> isotp_endpoint \<Rightarrow> bool" where
  "at_rest A B \<longleftrightarrow> facing A B \<and> send_status (m_Link A) \<noteq> SEND_INPROGRESS \<and> assembly_of (m_Link B) = Waiting"

definition mid_transfer :: "bytes \<Rightarrow> (reading \<Rightarrow> int) \<Rightarrow> (reading \<Rightarrow> int) \<Rightarrow> isotp_endpoint \<Rightarrow> isotp_endpoint \<Rightarrow> bool" where
  "mid_transfer msg tA tB A B \<longleftrightarrow> facing A B \<and>
     send_status (m_Link A) = SEND_INPROGRESS \<and> send_size (m_Link A) = length msg \<and>
     take (length msg) (send_buffer (m_Link A)) = msg \<and> unat (send_sn (m_Link A)) < 16 \<and>
     assembly_of (m_Link B) = Collecting (length msg) (take (send_offset (m_Link A)) msg) (send_sn (m_Link A)) \<and>
     send_st_min (m_Link A) = 0 \<and> send_bs_remain (m_Link A) = unat (receive_bs_count (m_Link B)) \<and>
     receive_bs_count (m_Link B) \<noteq> 0 \<and>
     (\<exists>r. send_timer_bs (m_Link A) = deadline tA r) \<and> (\<exists>r. receive_timer_cr (m_Link B) = deadline tB r)"

lemma bus_round_at_rest:
  assumes "at_rest A B"
  shows "bus_round nowA nowB (A, B) = ([], A, B)"
proof -
  have "Poll nowA A = A" "Poll nowB B = B"
    using assms by (auto simp: at_rest_def facing_def Poll_def isotp_poll_def Let_def assembly_of_def endpoint_ok_def split: if_splits)
  moreover have "take_sent A = ([], A)" "take_sent B = ([], B)"
    using assms by (simp_all add: at_rest_def facing_def take_sent_def)
  ultimately show ?thesis by (simp add: bus_round_def exchange_frames_def)
qed

lemma poll_send_step:
  assumes "send_status l = SEND_INPROGRESS" "receive_status l = RECEIVE_IDLE" "send_st_min l = 0"
    "0 < send_bs_remain l" "send_bs_remain l < 256" "in_time now now"
  shows "isotp_poll (Milliseconds now) l = (consecutive_sent l)\<lparr>
    send_bs_remain := send_bs_remain l - 1, send_timer_bs := deadline now Timer_Bs,
    send_timer_st := Milliseconds now Timer_St,
    send_status := (if send_offset l + next_chunk l \<ge> send_size l then SEND_IDLE else SEND_INPROGRESS)\<rparr>"
proof -
  let ?l1 = "poll_send (Milliseconds now) l"
  have "send_bs_remain l \<noteq> ISOTP_INVALID_BS" using assms(5) by (simp add: ISOTP_INVALID_BS_def)
  then have l1: "?l1 = (consecutive_sent l)\<lparr>send_bs_remain := send_bs_remain l - 1, send_timer_bs := deadline now Timer_Bs,
      send_timer_st := Milliseconds now Timer_St,
      send_status := (if send_offset l + next_chunk l \<ge> send_size l then SEND_IDLE else SEND_INPROGRESS)\<rparr>"
    using assms unfolding poll_send_eq by (simp add: deadline_def)
  have "\<not> IsoTpTimeAfter (Milliseconds now Check_Bs) (send_timer_bs ?l1)"
    using assms(6) unfolding l1 by (simp add: in_time_def)
  moreover have "receive_status ?l1 \<noteq> RECEIVE_INPROGRESS" using assms(2) unfolding l1 by simp
  ultimately have "isotp_poll (Milliseconds now) l = ?l1" using assms(1) by (simp add: isotp_poll_def Let_def)
  then show ?thesis by (simp only: l1)
qed

lemma poll_waits:
  assumes "send_status l \<noteq> SEND_INPROGRESS" "\<not> IsoTpTimeAfter (Milliseconds now Check_Cr) (receive_timer_cr l)"
  shows "isotp_poll (Milliseconds now) l = l"
  using assms by (simp add: isotp_poll_def)

text \<open>A frame of the message, at the receiver.\<close>

lemma collecting_link:
  "assembly_of l = Collecting whole got sn \<Longrightarrow>
   receive_status l = RECEIVE_INPROGRESS \<and> receive_size l = whole \<and> take (receive_offset l) (receive_buffer l) = got \<and> receive_sn l = sn"
  by (simp add: assembly_of_def split: if_splits)

lemma chunk_at_receiver:
  assumes "isotp_ok l" "assembly_of l = Collecting whole got sn" "unat sn < 16" "whole = length got + length rest" "rest \<noteq> []"
  shows "isotp_on_can_message ms (chunk_frame sn rest) l =
    (let l1 = chunk_stored ms (take 7 rest) l
     in if length rest \<le> 7 then l1\<lparr>receive_status := RECEIVE_FULL\<rparr>
        else if receive_bs_count l - 1 = 0
        then l1\<lparr>receive_bs_count := ISO_TP_DEFAULT_BLOCK_SIZE, link_sent := link_sent l @ [(send_arbitration_id l, permission)]\<rparr>
        else l1\<lparr>receive_bs_count := receive_bs_count l - 1\<rparr>)"
proof -
  let ?f = "chunk_frame sn rest"
  note c = collecting_link [OF assms(2)]
  have f: "pci_type ?f = TSOTP_PCI_TYPE_CONSECUTIVE_FRAME" "pci_low ?f = sn" "length ?f = 8"
    "tl ?f = take 7 rest @ replicate (7 - length rest) 0" "?f = ?f @ replicate (8 - length ?f) 0"
    using assms(3) chunk_frame_length by (simp_all add: chunk_frame_def nibble_same)
  have off: "receive_offset l = length got" using c assms(1) by (auto simp: isotp_ok_def min_def split: if_splits)
  have n: "min (receive_size l - receive_offset l) 7 = length (take 7 rest)" using c off assms(4) by simp
  have chunk: "take 7 rest = take (min (receive_size l - receive_offset l) 7) (tl ?f)" unfolding n f(4) by (simp add: min_def)
  have kinds: "TSOTP_PCI_TYPE_CONSECUTIVE_FRAME \<noteq> ISOTP_PCI_TYPE_SINGLE" "TSOTP_PCI_TYPE_CONSECUTIVE_FRAME \<noteq> ISOTP_PCI_TYPE_FIRST_FRAME"
    by (simp_all add: pci_types)
  have "isotp_on_can_message ms ?f l = on_consecutive_frame ms ?f (length ?f) l"
    unfolding isotp_on_can_message_def Let_def using f(1,3) kinds by simp
  also have "\<dots> = (let l1 = chunk_stored ms (take 7 rest) l
      in if receive_offset l + length (take 7 rest) \<ge> receive_size l then l1\<lparr>receive_status := RECEIVE_FULL\<rparr>
         else if receive_bs_count l - 1 = 0
         then l1\<lparr>receive_bs_count := ISO_TP_DEFAULT_BLOCK_SIZE, link_sent := link_sent l @ [(send_arbitration_id l, permission)]\<rparr>
         else l1\<lparr>receive_bs_count := receive_bs_count l - 1\<rparr>)"
    using c f(2,3) n by (intro on_fitting_chunk [OF _ _ refl f(5) _ _ chunk]) simp_all
  also have "(receive_offset l + length (take 7 rest) \<ge> receive_size l) = (length rest \<le> 7)"
    using c off assms(4) by auto
  finally show ?thesis .
qed

lemma last_chunk_received:
  assumes "endpoint_ok B" "assembly_of (m_Link B) = Collecting whole got sn" "unat sn < 16"
    "whole = length got + length rest" "rest \<noteq> []" "length rest \<le> 7"
  shows "\<exists>B1. OnCanFrame now (chunk_frame sn rest) B = (Some (got @ rest), B1) \<and> endpoint_ok B1 \<and> assembly_of (m_Link B1) = Waiting \<and>
    link_sent (m_Link B1) = link_sent (m_Link B) \<and> send_status (m_Link B1) = send_status (m_Link B) \<and>
    send_arbitration_id (m_Link B1) = send_arbitration_id (m_Link B) \<and> m_ResponseId B1 = m_ResponseId B"
proof -
  have ok: "isotp_ok (m_Link B)" using assms(1) by (simp add: endpoint_ok_def)
  obtain message B1 where r: "OnCanFrame now (chunk_frame sn rest) B = (message, B1)"
    by (cases "OnCanFrame now (chunk_frame sn rest) B")
  have out: "message = Some (got @ rest)" "assembly_of (m_Link B1) = Waiting"
    using endpoint_assembles [OF assms(1), of now "chunk_frame sn rest"] assemble_chunk [OF assms(3,5,4)] assms(2,6) r by simp_all
  have "endpoint_ok B1" using OnCanFrame_ok [OF assms(1), of now "chunk_frame sn rest"] r by simp
  moreover have "link_sent (m_Link B1) = link_sent (m_Link B) \<and> send_status (m_Link B1) = send_status (m_Link B) \<and>
    send_arbitration_id (m_Link B1) = send_arbitration_id (m_Link B) \<and> m_ResponseId B1 = m_ResponseId B"
    using r assms(6) unfolding OnCanFrame_def chunk_at_receiver [OF ok assms(2-5)]
    by (auto simp: isotp_receive_def chunk_stored_def Let_def)
  ultimately show ?thesis using r out by simp
qed

lemma chunk_received:
  assumes "endpoint_ok B" "assembly_of (m_Link B) = Collecting whole got sn" "unat sn < 16"
    "whole = length got + length rest" "rest \<noteq> []" "7 < length rest"
  shows "\<exists>B1. OnCanFrame now (chunk_frame sn rest) B = (None, B1) \<and> endpoint_ok B1 \<and>
    assembly_of (m_Link B1) = Collecting whole (got @ take 7 rest) (next_sn sn) \<and>
    receive_timer_cr (m_Link B1) = deadline now Timer_Cr \<and>
    receive_bs_count (m_Link B1) =
      (if receive_bs_count (m_Link B) = 1 then ISO_TP_DEFAULT_BLOCK_SIZE else receive_bs_count (m_Link B) - 1) \<and>
    link_sent (m_Link B1) = link_sent (m_Link B) @
      (if receive_bs_count (m_Link B) = 1 then [(send_arbitration_id (m_Link B), permission)] else []) \<and>
    send_status (m_Link B1) = send_status (m_Link B) \<and>
    send_arbitration_id (m_Link B1) = send_arbitration_id (m_Link B) \<and> m_ResponseId B1 = m_ResponseId B"
proof -
  have ok: "isotp_ok (m_Link B)" using assms(1) by (simp add: endpoint_ok_def)
  have st: "receive_status (m_Link B) = RECEIVE_INPROGRESS" using collecting_link [OF assms(2)] by simp
  have one: "receive_bs_count (m_Link B) - 1 = 0 \<longleftrightarrow> receive_bs_count (m_Link B) = 1" by simp
  obtain message B1 where r: "OnCanFrame now (chunk_frame sn rest) B = (message, B1)"
    by (cases "OnCanFrame now (chunk_frame sn rest) B")
  have out: "message = None" "assembly_of (m_Link B1) = Collecting whole (got @ take 7 rest) (next_sn sn)"
    using endpoint_assembles [OF assms(1), of now "chunk_frame sn rest"] assemble_chunk [OF assms(3,5,4)] assms(2,6) r by simp_all
  have "endpoint_ok B1" using OnCanFrame_ok [OF assms(1), of now "chunk_frame sn rest"] r by simp
  then show ?thesis using r out st assms(6) unfolding OnCanFrame_def chunk_at_receiver [OF ok assms(2-5)] one
    by (auto simp: isotp_receive_def chunk_stored_def deadline_def Let_def)
qed

text \<open>The receiver's permission, at the sender.\<close>

lemma permission_received:
  assumes "send_status (m_Link A) = SEND_INPROGRESS" "receive_status (m_Link A) = RECEIVE_IDLE"
  shows "OnCanFrame now permission A = (None, A\<lparr>m_Link := (m_Link A)\<lparr>send_timer_bs := deadline now Timer_Bs,
    send_bs_remain := 8, send_st_min := 0, send_wtf_count := 0\<rparr>\<rparr>)"
proof -
  let ?l = "(m_Link A)\<lparr>send_timer_bs := deadline now Timer_Bs, send_bs_remain := 8, send_st_min := 0, send_wtf_count := 0\<rparr>"
  have p: "pci_type permission = ISOTP_PCI_TYPE_FLOW_CONTROL_FRAME" "pci_low permission = PCI_FLOW_STATUS_CONTINUE"
    "length permission = 8" "permission ! 1 = 8" "permission ! 2 = 0" "isotp_st_min_to_ms 0 = 0"
    by (simp_all add: permission_def flow_statuses ISO_TP_DEFAULT_BLOCK_SIZE_def ISO_TP_DEFAULT_ST_MIN_def
        isotp_ms_to_st_min_def isotp_st_min_to_ms_def)
  have "on_flow_control (Milliseconds now) permission 8 (m_Link A) = ?l"
    using assms(1) p by (simp add: on_flow_control_def isotp_receive_flow_control_frame_def flow_statuses deadline_def Let_def)
  moreover have "ISOTP_PCI_TYPE_FLOW_CONTROL_FRAME \<noteq> ISOTP_PCI_TYPE_SINGLE" "ISOTP_PCI_TYPE_FLOW_CONTROL_FRAME \<noteq> ISOTP_PCI_TYPE_FIRST_FRAME"
    "ISOTP_PCI_TYPE_FLOW_CONTROL_FRAME \<noteq> TSOTP_PCI_TYPE_CONSECUTIVE_FRAME" by (simp_all add: pci_types)
  ultimately have "isotp_on_can_message (Milliseconds now) permission (m_Link A) = ?l"
    using p by (simp add: isotp_on_can_message_def Let_def)
  then show ?thesis using assms(2) by (simp add: OnCanFrame_def isotp_receive_def)
qed

section \<open>One round\<close>

lemma endpoint_ok_taken: "endpoint_ok ep \<Longrightarrow> endpoint_ok (ep\<lparr>m_Link := (m_Link ep)\<lparr>link_sent := []\<rparr>\<rparr>)"
  by (simp add: endpoint_ok_def isotp_ok_def)

lemma assembly_of_taken [simp]: "assembly_of (l\<lparr>link_sent := fs\<rparr>) = assembly_of l"
  by (simp add: assembly_of_def)

lemma mid_unsent:
  assumes "mid_transfer msg tA tB A B"
  shows "unsent (m_Link A) = drop (send_offset (m_Link A)) msg" "drop (send_offset (m_Link A)) msg \<noteq> []"
    "length msg = length (take (send_offset (m_Link A)) msg) + length (drop (send_offset (m_Link A)) msg)"
    "next_chunk (m_Link A) = min (length (drop (send_offset (m_Link A)) msg)) 7"
  using assms by (auto simp: mid_transfer_def facing_def endpoint_ok_def isotp_ok_def unsent_def next_chunk_def)

text \<open>The sender's poll puts the next frame on the bus; the receiver's poll does nothing.\<close>

definition polled :: "(reading \<Rightarrow> int) \<Rightarrow> isotp_link \<Rightarrow> isotp_link" where
  "polled now l = (consecutive_sent l)\<lparr>send_bs_remain := send_bs_remain l - 1, send_timer_bs := deadline now Timer_Bs,
     send_timer_st := Milliseconds now Timer_St,
     send_status := (if send_offset l + next_chunk l \<ge> send_size l then SEND_IDLE else SEND_INPROGRESS), link_sent := []\<rparr>"

lemma mid_polls:
  assumes "mid_transfer msg tA tB A B" "in_time nowA nowA" "in_time tB nowB"
  shows "take_sent (Poll nowA A) = ([(send_arbitration_id (m_Link A),
      chunk_frame (send_sn (m_Link A)) (drop (send_offset (m_Link A)) msg))], A\<lparr>m_Link := polled nowA (m_Link A)\<rparr>)"
    "Poll nowB B = B" "endpoint_ok (A\<lparr>m_Link := polled nowA (m_Link A)\<rparr>)"
proof -
  let ?l = "m_Link A"
  have m: "send_status ?l = SEND_INPROGRESS" "receive_status ?l = RECEIVE_IDLE" "send_st_min ?l = 0" "0 < send_bs_remain ?l"
    "send_bs_remain ?l < 256" "link_sent ?l = []" "isotp_ok ?l" "endpoint_ok A"
    using assms(1) by (auto simp: mid_transfer_def facing_def endpoint_ok_def unat_gt_0)
  have p: "Poll nowA A = A\<lparr>m_Link := (polled nowA ?l)\<lparr>link_sent := [(send_arbitration_id ?l, next_frame ?l)]\<rparr>\<rparr>"
    unfolding Poll_def poll_send_step [OF m(1-5) assms(2)] polled_def using m(6) by (simp add: consecutive_sent_def)
  then show sent: "take_sent (Poll nowA A) = ([(send_arbitration_id ?l,
      chunk_frame (send_sn ?l) (drop (send_offset ?l) msg))], A\<lparr>m_Link := polled nowA ?l\<rparr>)"
    using next_frame_chunk [OF m(7)] mid_unsent(1) [OF assms(1)] by (simp add: take_sent_def polled_def)
  have "endpoint_ok (Poll nowA A)" using endpoint_step_ok [OF m(8), of "(nowA, Call_Poll)"] by simp
  from endpoint_ok_taken [OF this] show "endpoint_ok (A\<lparr>m_Link := polled nowA ?l\<rparr>)"
    using sent by (simp add: take_sent_def)
  have "\<not> IsoTpTimeAfter (Milliseconds nowB Check_Cr) (receive_timer_cr (m_Link B))"
    using assms(1,3) by (auto simp: mid_transfer_def in_time_def)
  then show "Poll nowB B = B" using assms(1) poll_waits by (simp add: Poll_def mid_transfer_def facing_def)
qed

lemma round_eval:
  assumes "take_sent (Poll nowA A) = (fs, A1)" "receive_frames nowB fs (Poll nowB B) = (messages, B1)"
    "take_sent B1 = (gs, B2)" "receive_frames nowA gs A1 = (replies, A2)"
  shows "bus_round nowA nowB (A, B) = (messages, A2, B2)"
  by (simp add: bus_round_def exchange_frames_def assms)

lemma receive_one: "fid = m_ResponseId ep \<Longrightarrow> OnCanFrame now f ep = (message, ep1) \<Longrightarrow>
  receive_frames now [(fid, f)] ep = (case message of None \<Rightarrow> [] | Some m \<Rightarrow> [m], ep1)"
  by simp

lemma last_round:
  assumes "mid_transfer msg tA tB A B" "in_time nowA nowA" "in_time tB nowB" "length msg \<le> send_offset (m_Link A) + 7"
  shows "\<exists>A1 B1. bus_round nowA nowB (A, B) = ([msg], A1, B1) \<and> at_rest A1 B1"
proof -
  let ?off = "send_offset (m_Link A)" and ?A = "A\<lparr>m_Link := polled nowA (m_Link A)\<rparr>"
  note u = mid_unsent [OF assms(1)] and polls = mid_polls [OF assms(1-3)]
  have B: "endpoint_ok B" "assembly_of (m_Link B) = Collecting (length msg) (take ?off msg) (send_sn (m_Link A))"
    "unat (send_sn (m_Link A)) < 16" "send_arbitration_id (m_Link A) = m_ResponseId B" "link_sent (m_Link B) = []"
    using assms(1) by (simp_all add: mid_transfer_def facing_def)
  have short: "length (drop ?off msg) \<le> 7" using assms(4) by simp
  obtain B1 where B1: "OnCanFrame nowB (chunk_frame (send_sn (m_Link A)) (drop ?off msg)) B = (Some (take ?off msg @ drop ?off msg), B1)"
    "endpoint_ok B1" "assembly_of (m_Link B1) = Waiting" "link_sent (m_Link B1) = []"
    "send_status (m_Link B1) = send_status (m_Link B)" "send_arbitration_id (m_Link B1) = send_arbitration_id (m_Link B)"
    "m_ResponseId B1 = m_ResponseId B"
    using last_chunk_received [OF B(1-3) u(3,2) short, of nowB] B(5) by auto
  have "take_sent B1 = ([], B1)" using B1(4) by (simp add: take_sent_def)
  moreover have "receive_frames nowB [(send_arbitration_id (m_Link A), chunk_frame (send_sn (m_Link A)) (drop ?off msg))] (Poll nowB B) = ([msg], B1)"
    unfolding polls(2) receive_one [OF B(4) B1(1)] by simp
  moreover have "receive_frames nowA [] ?A = ([], ?A)" by simp
  ultimately have "bus_round nowA nowB (A, B) = ([msg], ?A, B1)" by (intro round_eval [OF polls(1)])
  moreover
  have "?off + next_chunk (m_Link A) \<ge> send_size (m_Link A)"
    using u(2,4) short assms(1) by (simp add: mid_transfer_def)
  then have "send_status (polled nowA (m_Link A)) = SEND_IDLE" by (simp add: polled_def)
  then have "at_rest ?A B1" using assms(1) B1 polls(3)
    unfolding at_rest_def facing_def mid_transfer_def by (simp add: polled_def)
  ultimately show ?thesis by blast
qed

lemma stays_mid:
  assumes "mid_transfer msg tA tB A B" "next_chunk (m_Link A) = 7"
  shows "send_size (polled now (m_Link A)) = length msg" "take (length msg) (send_buffer (polled now (m_Link A))) = msg"
    "unat (send_sn (polled now (m_Link A))) < 16" "send_sn (polled now (m_Link A)) = next_sn (send_sn (m_Link A))"
    "take (send_offset (m_Link A)) msg @ take 7 (drop (send_offset (m_Link A)) msg) = take (send_offset (polled now (m_Link A))) msg"
    "send_st_min (polled now (m_Link A)) = 0" "send_timer_bs (polled now (m_Link A)) = deadline now Timer_Bs"
    "send_offset (polled now (m_Link A)) = send_offset (m_Link A) + 7"
    "receive_bs_count (m_Link B) \<noteq> 1 \<Longrightarrow> send_bs_remain (polled now (m_Link A)) = unat (receive_bs_count (m_Link B) - 1)"
    "receive_bs_count (m_Link B) \<noteq> 1 \<Longrightarrow> receive_bs_count (m_Link B) - 1 \<noteq> 0"
    "unat ISO_TP_DEFAULT_BLOCK_SIZE = 8" "ISO_TP_DEFAULT_BLOCK_SIZE \<noteq> 0"
  using assms by (simp_all add: mid_transfer_def polled_def next_sn_less take_add unat_minus_one ISO_TP_DEFAULT_BLOCK_SIZE_def)

lemma middle_round:
  assumes "mid_transfer msg tA tB A B" "in_time nowA nowA" "in_time tB nowB" "send_offset (m_Link A) + 7 < length msg"
  shows "\<exists>A1 B1. bus_round nowA nowB (A, B) = ([], A1, B1) \<and> mid_transfer msg nowA nowB A1 B1 \<and>
    send_offset (m_Link A1) = send_offset (m_Link A) + 7"
proof -
  let ?l = "m_Link A" and ?off = "send_offset (m_Link A)" and ?A = "A\<lparr>m_Link := polled nowA (m_Link A)\<rparr>"
  let ?full = "receive_bs_count (m_Link B) = 1"
  note u = mid_unsent [OF assms(1)] and polls = mid_polls [OF assms(1-3)]
  have m: "endpoint_ok B" "assembly_of (m_Link B) = Collecting (length msg) (take ?off msg) (send_sn ?l)"
    "unat (send_sn ?l) < 16" "send_arbitration_id ?l = m_ResponseId B" "link_sent (m_Link B) = []"
    "send_size ?l = length msg" "send_arbitration_id (m_Link B) = m_ResponseId A" "receive_status ?l = RECEIVE_IDLE"
    using assms(1) by (simp_all add: mid_transfer_def facing_def)
  have long: "7 < length (drop ?off msg)" using assms(4) by simp
  obtain B1 where B1: "OnCanFrame nowB (chunk_frame (send_sn ?l) (drop ?off msg)) B = (None, B1)" "endpoint_ok B1"
    "assembly_of (m_Link B1) = Collecting (length msg) (take ?off msg @ take 7 (drop ?off msg)) (next_sn (send_sn ?l))"
    "receive_timer_cr (m_Link B1) = deadline nowB Timer_Cr"
    "receive_bs_count (m_Link B1) = (if ?full then ISO_TP_DEFAULT_BLOCK_SIZE else receive_bs_count (m_Link B) - 1)"
    "link_sent (m_Link B1) = (if ?full then [(m_ResponseId A, permission)] else [])"
    "send_status (m_Link B1) = send_status (m_Link B)" "send_arbitration_id (m_Link B1) = m_ResponseId A"
    "m_ResponseId B1 = m_ResponseId B"
    using chunk_received [OF m(1-3) u(3,2) long, of nowB] m(5,7) by auto
  let ?B = "B1\<lparr>m_Link := (m_Link B1)\<lparr>link_sent := []\<rparr>\<rparr>"
  let ?A1 = "if ?full then ?A\<lparr>m_Link := (m_Link ?A)\<lparr>send_timer_bs := deadline nowA Timer_Bs,
    send_bs_remain := 8, send_st_min := 0, send_wtf_count := 0\<rparr>\<rparr> else ?A"
  have chunk: "next_chunk ?l = 7" using u(4) long by simp
  then have running: "send_status (m_Link ?A) = SEND_INPROGRESS" "receive_status (m_Link ?A) = RECEIVE_IDLE"
    using assms(4) m(6,8) by (simp_all add: polled_def)
  have "take_sent B1 = (link_sent (m_Link B1), ?B)" by (simp add: take_sent_def)
  moreover have "receive_frames nowA (link_sent (m_Link B1)) ?A = ([], ?A1)"
    using permission_received [OF running] B1(6) by simp
  moreover have "receive_frames nowB [(send_arbitration_id ?l, chunk_frame (send_sn ?l) (drop ?off msg))] (Poll nowB B) = ([], B1)"
    unfolding polls(2) receive_one [OF m(4) B1(1)] by simp
  ultimately have "bus_round nowA nowB (A, B) = ([], ?A1, ?B)" by (intro round_eval [OF polls(1)])
  moreover have "endpoint_ok ?A1" using polls(3) OnCanFrame_ok [OF polls(3), of nowA permission] permission_received [OF running]
    by simp
  then have "facing ?A1 ?B" using assms(1) B1(7-9) running endpoint_ok_taken [OF B1(2)]
    unfolding facing_def mid_transfer_def by (simp add: polled_def)
  then have "mid_transfer msg nowA nowB ?A1 ?B"
    unfolding mid_transfer_def using stays_mid(1-9) [OF assms(1) chunk, of nowA] stays_mid(10-12) [OF assms(1) chunk] B1(3-5) running by auto
  moreover have "send_offset (m_Link ?A1) = ?off + 7" using chunk by (simp add: polled_def)
  ultimately show ?thesis by blast
qed

section \<open>The first frame\<close>

lemma put_whole: "length data \<le> length buffer \<Longrightarrow> take (length data) (put 0 data buffer) = data"
  by (simp add: put_def)

lemma low_first: "0x0F AND (b :: u8) = take_bit 4 b"
  by (simp add: low_nibble flip: and.commute [of _ "0x0F"])

lemma pci_take_bit: "pci k (take_bit 4 b) = pci k b"
  unfolding pci_def low_nibble by simp

lemma send_small:
  assumes "length msg < 8" "send_status l \<noteq> SEND_INPROGRESS" "length (send_buffer l) = 4096"
  shows "snd (isotp_send_with_id ms aid msg l) = l\<lparr>send_size := length msg, send_offset := 0,
    send_buffer := put 0 msg (send_buffer l), link_sent := link_sent l @ [(aid, single_segment msg)]\<rparr>"
  using assms put_whole [of msg "send_buffer l"]
  by (simp add: isotp_send_with_id_def isotp_send_single_frame_def isotp_send_can_def single_segment_def Let_def)

lemma send_large:
  assumes "8 \<le> length msg" "length msg \<le> 4096" "send_status l \<noteq> SEND_INPROGRESS" "length (send_buffer l) = 4096"
  shows "snd (isotp_send_with_id ms aid msg l) = l\<lparr>send_size := length msg, send_offset := 6,
    send_buffer := put 0 msg (send_buffer l), link_sent := link_sent l @ [(aid, first_segment msg)], send_sn := 1,
    send_bs_remain := 0, send_st_min := 0, send_wtf_count := 0, send_timer_st := ms Timer_St,
    send_timer_bs := ms Timer_Bs + ISO_TP_DEFAULT_RESPONSE_TIMEOUT,
    send_protocol_result := RESULT_OK, send_status := SEND_INPROGRESS\<rparr>"
proof -
  have "take 6 (put 0 msg (send_buffer l)) = take 6 msg"
    using arg_cong [OF put_whole [of msg "send_buffer l"], of "take 6"] assms by (simp add: min_def)
  then have "pci ISOTP_PCI_TYPE_FIRST_FRAME (0x0F AND word_of_nat (length msg div 256)) # word_of_nat (length msg) #
      take 6 (put 0 msg (send_buffer l)) = first_segment msg"
    unfolding low_first pci_take_bit first_segment_def by simp
  then show ?thesis using assms
    by (simp add: isotp_send_with_id_def isotp_send_first_frame_def isotp_send_can_def Let_def)
qed

lemma single_keeps_sender:
  "link_sent (on_single_frame m len l) = link_sent l" "send_status (on_single_frame m len l) = send_status l"
  "send_arbitration_id (on_single_frame m len l) = send_arbitration_id l"
  by (simp_all add: on_single_frame_def isotp_receive_single_frame_def begin_message_def Let_def)

lemma single_received:
  assumes "endpoint_ok B" "1 \<le> length msg" "length msg < 8"
  shows "\<exists>B1. OnCanFrame now (single_segment msg) B = (Some msg, B1) \<and> endpoint_ok B1 \<and> assembly_of (m_Link B1) = Waiting \<and>
    link_sent (m_Link B1) = link_sent (m_Link B) \<and> send_status (m_Link B1) = send_status (m_Link B) \<and>
    send_arbitration_id (m_Link B1) = send_arbitration_id (m_Link B) \<and> m_ResponseId B1 = m_ResponseId B"
proof -
  obtain message B1 where r: "OnCanFrame now (single_segment msg) B = (message, B1)"
    by (cases "OnCanFrame now (single_segment msg) B")
  have out: "message = Some msg" "assembly_of (m_Link B1) = Waiting"
    using endpoint_assembles [OF assms(1), of now "single_segment msg"] single_assembles [OF assms(2,3)] r by simp_all
  have f: "pci_type (single_segment msg) = ISOTP_PCI_TYPE_SINGLE" "length (single_segment msg) = 8"
    using assms(3) by (simp_all add: single_segment_def)
  have "isotp_on_can_message ms (single_segment msg) l = on_single_frame (single_segment msg) 8 l" for ms l
    using f by (simp add: isotp_on_can_message_def)
  moreover have "endpoint_ok B1" using OnCanFrame_ok [OF assms(1), of now "single_segment msg"] r by simp
  ultimately show ?thesis using r out unfolding OnCanFrame_def
    by (auto simp: isotp_receive_def Let_def single_keeps_sender split: if_splits)
qed

lemma first_received:
  assumes "endpoint_ok B" "8 \<le> length msg" "length msg \<le> 4095"
  shows "\<exists>B1. OnCanFrame now (first_segment msg) B = (None, B1) \<and> endpoint_ok B1 \<and>
    assembly_of (m_Link B1) = Collecting (length msg) (take 6 msg) 1 \<and>
    receive_timer_cr (m_Link B1) = deadline now Timer_Cr \<and> receive_bs_count (m_Link B1) = ISO_TP_DEFAULT_BLOCK_SIZE \<and>
    link_sent (m_Link B1) = link_sent (m_Link B) @ [(send_arbitration_id (m_Link B), permission)] \<and>
    send_status (m_Link B1) = send_status (m_Link B) \<and>
    send_arbitration_id (m_Link B1) = send_arbitration_id (m_Link B) \<and> m_ResponseId B1 = m_ResponseId B"
proof -
  let ?l = "isotp_on_can_message (Milliseconds now) (first_segment msg) (m_Link B)"
  obtain message B1 where r: "OnCanFrame now (first_segment msg) B = (message, B1)"
    by (cases "OnCanFrame now (first_segment msg) B")
  have out: "message = None" "assembly_of (m_Link B1) = Collecting (length msg) (take 6 msg) 1"
    using endpoint_assembles [OF assms(1), of now "first_segment msg"] first_assembles [OF assms(2,3)] r by simp_all
  have link: "m_Link B1 = ?l" "m_ResponseId B1 = m_ResponseId B" using r out(1) unfolding OnCanFrame_def
    by (auto simp: isotp_receive_def Let_def split: if_splits)
  have f: "pci_type (first_segment msg) = ISOTP_PCI_TYPE_FIRST_FRAME" "length (first_segment msg) = 8"
    using assms(2) by (simp_all add: first_segment_def)
  have on: "?l = on_first_frame (Milliseconds now) (first_segment msg) 8 (m_Link B)"
    using f by (simp add: isotp_on_can_message_def pci_types)
  obtain ret l1 where first: "isotp_receive_first_frame (first_segment msg) 8 (begin_message (m_Link B)) = (ret, l1)"
    by (cases "isotp_receive_first_frame (first_segment msg) 8 (begin_message (m_Link B))")
  have "length (receive_buffer (begin_message (m_Link B))) = 4096"
    using assms(1) by (simp add: endpoint_ok_def isotp_ok_def begin_message_def)
  then have "ret = RET_OK" using first first_segment_length [OF assms(3)] assms(2,3)
    by (simp add: isotp_receive_first_frame_def Let_def)
  then have "receive_timer_cr ?l = deadline now Timer_Cr \<and> receive_bs_count ?l = ISO_TP_DEFAULT_BLOCK_SIZE \<and>
    link_sent ?l = link_sent l1 @ [(send_arbitration_id l1, permission)] \<and>
    send_status ?l = send_status l1 \<and> send_arbitration_id ?l = send_arbitration_id l1"
    unfolding on on_first_frame_def first
    by (simp add: Let_def deadline_def isotp_send_flow_control_def isotp_send_can_def permission_def)
  moreover have "send_status l1 = send_status (m_Link B)" "send_arbitration_id l1 = send_arbitration_id (m_Link B)"
    "link_sent l1 = link_sent (m_Link B)"
    using first by (auto simp: isotp_receive_first_frame_def begin_message_def Let_def split: if_splits)
  moreover have "endpoint_ok B1" using OnCanFrame_ok [OF assms(1), of now "first_segment msg"] r by simp
  ultimately show ?thesis using r out link by simp
qed

section \<open>The whole transfer\<close>

lemma exchange_eval:
  assumes "take_sent A = (fs, A1)" "receive_frames nowB fs B = (messages, B1)"
    "take_sent B1 = (gs, B2)" "receive_frames nowA gs A1 = (replies, A2)"
  shows "exchange_frames nowA nowB (A, B) = (messages, A2, B2)"
  by (simp add: exchange_frames_def assms)

lemma single_transfer:
  assumes "facing A B" "send_status (m_Link A) \<noteq> SEND_INPROGRESS" "1 \<le> length msg" "length msg < 8"
  shows "\<exists>A1 B1. transfer nowA nowB msg 0 (A, B) = ([msg], A1, B1) \<and> at_rest A1 B1"
proof -
  let ?aid = "send_arbitration_id (m_Link A)" and ?A = "EndpointSend (nowA 0) (send_arbitration_id (m_Link A)) msg A"
  have f: "endpoint_ok B" "m_ResponseId B = ?aid" "link_sent (m_Link A) = []" "link_sent (m_Link B) = []"
    "length (send_buffer (m_Link A)) = 4096" "endpoint_ok A"
    using assms(1) by (simp_all add: facing_def endpoint_ok_def isotp_ok_def)
  let ?A1 = "?A\<lparr>m_Link := (m_Link ?A)\<lparr>link_sent := []\<rparr>\<rparr>"
  note sent = send_small [OF assms(4,2) f(5), of "Milliseconds (nowA 0)" ?aid]
  have A: "take_sent ?A = ([(?aid, single_segment msg)], ?A1)"
    using f(3) by (simp add: take_sent_def EndpointSend_def sent)
  obtain B1 where B1: "OnCanFrame (nowB 0) (single_segment msg) B = (Some msg, B1)" "endpoint_ok B1"
    "assembly_of (m_Link B1) = Waiting" "link_sent (m_Link B1) = []" "send_status (m_Link B1) = send_status (m_Link B)"
    "send_arbitration_id (m_Link B1) = send_arbitration_id (m_Link B)" "m_ResponseId B1 = m_ResponseId B"
    using single_received [OF f(1) assms(3,4), of "nowB 0"] f(4) by auto
  have "transfer nowA nowB msg 0 (A, B) = ([msg], ?A1, B1)"
    unfolding transfer.simps Let_def prod.case
  proof (rule exchange_eval [OF A])
    show "receive_frames (nowB 0) [(?aid, single_segment msg)] B = ([msg], B1)"
      using receive_one [OF f(2) [symmetric] B1(1)] by simp
    show "take_sent B1 = ([], B1)" using B1(4) by (simp add: take_sent_def)
  qed simp
  moreover have "endpoint_ok ?A" using endpoint_step_ok [OF f(6), of "(nowA 0, Call_Send ?aid msg)"] by simp
  then have "endpoint_ok ?A1" by (rule endpoint_ok_taken)
  then have "at_rest ?A1 B1" using assms(1,2) B1 unfolding at_rest_def facing_def
    by (simp add: EndpointSend_def sent)
  ultimately show ?thesis by blast
qed

lemma first_transfer:
  assumes "facing A B" "send_status (m_Link A) \<noteq> SEND_INPROGRESS" "8 \<le> length msg" "length msg \<le> 4095"
  shows "\<exists>A1 B1. transfer nowA nowB msg 0 (A, B) = ([], A1, B1) \<and> mid_transfer msg (nowA 0) (nowB 0) A1 B1 \<and>
    send_offset (m_Link A1) = 6"
proof -
  let ?aid = "send_arbitration_id (m_Link A)" and ?A = "EndpointSend (nowA 0) (send_arbitration_id (m_Link A)) msg A"
  have f: "endpoint_ok B" "m_ResponseId B = ?aid" "link_sent (m_Link A) = []" "link_sent (m_Link B) = []"
    "length (send_buffer (m_Link A)) = 4096" "endpoint_ok A" "receive_status (m_Link A) = RECEIVE_IDLE"
    "send_arbitration_id (m_Link B) = m_ResponseId A"
    using assms(1) by (simp_all add: facing_def endpoint_ok_def isotp_ok_def)
  let ?A1 = "?A\<lparr>m_Link := (m_Link ?A)\<lparr>link_sent := []\<rparr>\<rparr>"
  have small: "length msg \<le> 4096" using assms(4) by simp
  note sent = send_large [OF assms(3) small assms(2) f(5), of "Milliseconds (nowA 0)" ?aid]
  have A: "take_sent ?A = ([(?aid, first_segment msg)], ?A1)"
    using f(3) by (simp add: take_sent_def EndpointSend_def sent)
  obtain B1 where B1: "OnCanFrame (nowB 0) (first_segment msg) B = (None, B1)" "endpoint_ok B1"
    "assembly_of (m_Link B1) = Collecting (length msg) (take 6 msg) 1"
    "receive_timer_cr (m_Link B1) = deadline (nowB 0) Timer_Cr" "receive_bs_count (m_Link B1) = ISO_TP_DEFAULT_BLOCK_SIZE"
    "link_sent (m_Link B1) = [(m_ResponseId A, permission)]" "send_status (m_Link B1) = send_status (m_Link B)"
    "send_arbitration_id (m_Link B1) = send_arbitration_id (m_Link B)" "m_ResponseId B1 = m_ResponseId B"
    using first_received [OF f(1) assms(3,4), of "nowB 0"] f(4,8) by auto
  let ?B1 = "B1\<lparr>m_Link := (m_Link B1)\<lparr>link_sent := []\<rparr>\<rparr>"
  let ?A2 = "?A1\<lparr>m_Link := (m_Link ?A1)\<lparr>send_timer_bs := deadline (nowA 0) Timer_Bs, send_bs_remain := 8,
    send_st_min := 0, send_wtf_count := 0\<rparr>\<rparr>"
  have running: "send_status (m_Link ?A1) = SEND_INPROGRESS" "receive_status (m_Link ?A1) = RECEIVE_IDLE"
    using f(7) by (simp_all add: EndpointSend_def sent)
  have id: "m_ResponseId A = m_ResponseId ?A1" by (simp add: EndpointSend_def)
  have "transfer nowA nowB msg 0 (A, B) = ([], ?A2, ?B1)"
    unfolding transfer.simps Let_def prod.case
  proof (rule exchange_eval [OF A])
    show "receive_frames (nowB 0) [(?aid, first_segment msg)] B = ([], B1)"
      using receive_one [OF f(2) [symmetric] B1(1)] by simp
    show "take_sent B1 = ([(m_ResponseId A, permission)], ?B1)" using B1(6) by (simp add: take_sent_def)
    show "receive_frames (nowA 0) [(m_ResponseId A, permission)] ?A1 = ([], ?A2)"
      using receive_one [OF id permission_received [OF running]] by simp
  qed
  moreover have "endpoint_ok ?A" using endpoint_step_ok [OF f(6), of "(nowA 0, Call_Send ?aid msg)"] by simp
  then have ok: "endpoint_ok ?A1" by (rule endpoint_ok_taken)
  then have "endpoint_ok ?A2" using OnCanFrame_ok [OF ok, of "nowA 0" permission] permission_received [OF running] by simp
  then have facing: "facing ?A2 ?B1" using assms(1) B1 endpoint_ok_taken [OF B1(2)] unfolding facing_def
    by (simp add: EndpointSend_def sent)
  have "take (length msg) (put 0 msg (send_buffer (m_Link A))) = msg" using put_whole f(5) small by simp
  then have "mid_transfer msg (nowA 0) (nowB 0) ?A2 ?B1"
    unfolding mid_transfer_def using facing B1(3-5)
    by (auto simp: EndpointSend_def sent ISO_TP_DEFAULT_BLOCK_SIZE_def)
  moreover have "send_offset (m_Link ?A2) = 6" by (simp add: EndpointSend_def sent)
  ultimately show ?thesis by blast
qed

lemma transfer_Suc:
  assumes "transfer nowA nowB msg n AB = (ms, A1, B1)" "bus_round (nowA (Suc n)) (nowB (Suc n)) (A1, B1) = (ms', A2, B2)"
  shows "transfer nowA nowB msg (Suc n) AB = (ms @ ms', A2, B2)"
  by (simp add: assms)

lemma transfer_in_the_middle:
  assumes "facing A B" "send_status (m_Link A) \<noteq> SEND_INPROGRESS" "8 \<le> length msg" "length msg \<le> 4095"
    "punctual nowA" "punctual nowB"
  shows "6 + 7 * n < length msg \<Longrightarrow> \<exists>A1 B1. transfer nowA nowB msg n (A, B) = ([], A1, B1) \<and>
    mid_transfer msg (nowA n) (nowB n) A1 B1 \<and> send_offset (m_Link A1) = 6 + 7 * n"
proof (induction n)
  case 0
  then show ?case using first_transfer [OF assms(1-4)] by simp
next
  case (Suc n)
  then obtain A1 B1 where t: "transfer nowA nowB msg n (A, B) = ([], A1, B1)"
    "mid_transfer msg (nowA n) (nowB n) A1 B1" "send_offset (m_Link A1) = 6 + 7 * n" by auto
  have "in_time (nowA (Suc n)) (nowA (Suc n))" "in_time (nowB n) (nowB (Suc n))"
    "send_offset (m_Link A1) + 7 < length msg"
    using assms(5,6) Suc.prems t(3) by (simp_all add: punctual_def)
  from middle_round [OF t(2) this] obtain A2 B2 where
    r: "bus_round (nowA (Suc n)) (nowB (Suc n)) (A1, B1) = ([], A2, B2)"
      "mid_transfer msg (nowA (Suc n)) (nowB (Suc n)) A2 B2" "send_offset (m_Link A2) = send_offset (m_Link A1) + 7" by blast
  show ?case using transfer_Suc [OF t(1) r(1)] r(2,3) t(3) by (intro exI [of _ A2] exI [of _ B2]) simp
qed

lemma rest_is_kept:
  assumes "transfer nowA nowB msg k AB = ([msg], A1, B1)" "at_rest A1 B1"
  shows "transfer nowA nowB msg (k + n) AB = ([msg], A1, B1)"
proof (induction n)
  case (Suc n)
  then show ?case using transfer_Suc [OF Suc bus_round_at_rest [OF assms(2)]] by simp
qed (use assms(1) in simp)

text \<open>
  C36: between two endpoints at rest, a message of 1 to 4095 bytes that one of them sends reaches
  the other once and unchanged after one round of the bus per seven bytes, if no round takes
  longer than the response timeout; then both are at rest again.
\<close>

theorem message_is_delivered:
  assumes "facing A B" "send_status (m_Link A) \<noteq> SEND_INPROGRESS" "1 \<le> length msg" "length msg \<le> 4095"
    "punctual nowA" "punctual nowB" "length msg div 7 \<le> n"
  shows "\<exists>A1 B1. transfer nowA nowB msg n (A, B) = ([msg], A1, B1) \<and> at_rest A1 B1"
proof (cases "length msg < 8")
  case True
  then show ?thesis using single_transfer [OF assms(1,2,3), of nowA nowB] rest_is_kept [where k = 0] by fastforce
next
  case False
  let ?k = "length msg div 7 - 1"
  have k: "6 + 7 * ?k < length msg" "length msg \<le> 6 + 7 * ?k + 7" "Suc ?k \<le> n" using False assms(7) by linarith+
  have "8 \<le> length msg" using False by simp
  from transfer_in_the_middle [OF assms(1,2) this assms(4-6) k(1)]
  obtain A1 B1 where t: "transfer nowA nowB msg ?k (A, B) = ([], A1, B1)"
    "mid_transfer msg (nowA ?k) (nowB ?k) A1 B1" "send_offset (m_Link A1) = 6 + 7 * ?k" by blast
  have "in_time (nowA (Suc ?k)) (nowA (Suc ?k))" "in_time (nowB ?k) (nowB (Suc ?k))"
    "length msg \<le> send_offset (m_Link A1) + 7"
    using assms(5,6) k(2) t(3) unfolding punctual_def by (blast, blast, simp)
  from last_round [OF t(2) this] obtain A2 B2 where
    r: "bus_round (nowA (Suc ?k)) (nowB (Suc ?k)) (A1, B1) = ([msg], A2, B2)" "at_rest A2 B2" by blast
  have "transfer nowA nowB msg (Suc ?k) (A, B) = ([msg], A2, B2)" using transfer_Suc [OF t(1) r(1)] by simp
  from rest_is_kept [OF this r(2), of "n - Suc ?k"] show ?thesis using k(3) r(2) by auto
qed

definition example_ends :: "isotp_endpoint \<times> isotp_endpoint" where
  "example_ends = (SetResponseId 0x701 (new_endpoint 0x700), SetResponseId 0x700 (new_endpoint 0x701))"

lemma still_clock: "punctual (\<lambda>n r. 0)"
  by (simp add: punctual_def in_time_def IsoTpTimeAfter_def deadline_def Milliseconds_def ISO_TP_DEFAULT_RESPONSE_TIMEOUT_def)

lemma example_facing: "facing (fst example_ends) (snd example_ends)" "send_status (m_Link (fst example_ends)) \<noteq> SEND_INPROGRESS"
  using new_endpoint_ok [of "0x700"] new_endpoint_ok [of "0x701"]
  by (simp_all add: facing_def example_ends_def SetResponseId_def endpoint_ok_def)
    (simp_all add: new_endpoint_def isotp_init_link_def)

theorem message_is_delivered_witness:
  "\<exists>A1 B1. transfer (\<lambda>n r. 0) (\<lambda>n r. 0) (replicate 20 7) 2 (fst example_ends, snd example_ends) = ([replicate 20 7], A1, B1) \<and>
     at_rest A1 B1"
  using message_is_delivered [OF example_facing, of "replicate 20 7" "\<lambda>n r. 0" "\<lambda>n r. 0" 2] still_clock by simp

section \<open>At the observers of the handler\<close>

definition isotp_notices :: "can_notice list \<Rightarrow> can_notice list" where
  "isotp_notices ns = filter (\<lambda>n. case n of IsoTpData _ _ _ \<Rightarrow> True | _ \<Rightarrow> False) ns"

lemma isotp_notices_simps [simp]:
  "isotp_notices (xs @ ys) = isotp_notices xs @ isotp_notices ys"
  "isotp_notices (map (\<lambda>ob. OnBus ob i d) obs) = []"
  "isotp_notices (map (\<lambda>ob. IsoTpData ob i d) obs) = map (\<lambda>ob. IsoTpData ob i d) obs"
  by (simp_all add: isotp_notices_def filter_map comp_def)

text \<open>
  What happens to the handler, whose link is the endpoint: a frame arrives, the worker polls the
  endpoint at the end of one of its turns, or a request is sent.
\<close>

datatype link_event =
    Arrives "reading \<Rightarrow> int" rx_event
  | Polls "reading \<Rightarrow> int"
  | Requests "reading \<Rightarrow> int" u32 bytes

fun endpoint_event :: "link_event \<Rightarrow> isotp_endpoint can_handler \<Rightarrow> isotp_endpoint can_handler" where
  "endpoint_event (Arrives now ev) h = receive_event (\<lambda>ep data. OnCanFrame now data ep) ev h"
| "endpoint_event (Polls now) h = h\<lparr>ch_link := Poll now (ch_link h)\<rparr>"
| "endpoint_event (Requests now fid data) h = h\<lparr>ch_link := EndpointSend now fid data (ch_link h)\<rparr>"

lemma arrival_fields:
  "ch_response_id (endpoint_event (Arrives now (t, i, d)) h) = ch_response_id h"
  "ch_observers (endpoint_event (Arrives now (t, i, d)) h) = ch_observers h"
  "ch_link (endpoint_event (Arrives now (t, i, d)) h) = (if i = ch_response_id h then snd (OnCanFrame now d (ch_link h)) else ch_link h)"
  "isotp_notices (ch_notices (endpoint_event (Arrives now (t, i, d)) h)) = isotp_notices (ch_notices h) @
     (if i = ch_response_id h
      then case fst (OnCanFrame now d (ch_link h)) of None \<Rightarrow> [] | Some m \<Rightarrow> map (\<lambda>ob. IsoTpData ob i m) (ch_observers h)
      else [])"
  by (auto simp: receive_event_def OnFrameReceived_def NotifyFrameOnBus_def NotifyIsoTpData_def
      append_log_def Let_def case_prod_unfold split: option.splits)

text \<open>
  The frames with the response identifier; and that, while more of them are to come, no poll is
  later than the response timeout of 10 seconds after the last of them.
\<close>

fun frames_of :: "u32 \<Rightarrow> link_event list \<Rightarrow> bytes list" where
  "frames_of rid [] = []"
| "frames_of rid (Arrives now (t, i, d) # evs) = (if i = rid then d # frames_of rid evs else frames_of rid evs)"
| "frames_of rid (_ # evs) = frames_of rid evs"

fun polls_in_time :: "u32 \<Rightarrow> (reading \<Rightarrow> int) option \<Rightarrow> link_event list \<Rightarrow> bool" where
  "polls_in_time rid before [] = True"
| "polls_in_time rid before (Arrives now (t, i, d) # evs) = polls_in_time rid (if i = rid then Some now else before) evs"
| "polls_in_time rid before (Polls now # evs) =
     ((case before of Some earlier \<Rightarrow> frames_of rid evs = [] \<or> in_time earlier now | None \<Rightarrow> True) \<and> polls_in_time rid before evs)"
| "polls_in_time rid before (Requests now fid data # evs) = polls_in_time rid before evs"

lemma ten_seconds_in_time:
  assumes "\<And>r r'. 0 \<le> now r - earlier r' \<and> now r - earlier r' \<le> 10 * 1000000000"
  shows "in_time earlier now"
  unfolding in_time_def
proof (intro allI)
  fix r r'
  define a b where "a = earlier r' div 1000000" and "b = now r div 1000000"
  have "now r div 1000000 \<le> (earlier r' + 10000 * 1000000) div 1000000" "earlier r' div 1000000 \<le> now r div 1000000"
    using assms [of r r'] by (intro zdiv_mono1; simp)+
  then have ab: "0 \<le> b - a" "b - a \<le> 10000" by (simp_all add: a_def b_def)
  have wait: "deadline earlier r' - Milliseconds now r = (word_of_int (a + 10000 - b) :: u32)"
    by (simp add: deadline_def Milliseconds_def ISO_TP_DEFAULT_RESPONSE_TIMEOUT_def a_def b_def)
  have small: "sint (word_of_int k :: u32) = k" if "0 \<le> k" "k \<le> 10000" for k
    using that by (simp add: sint_sbintrunc' signed_take_bit_int_eq_self)
  have "sint (word_of_int (a + 10000 - b) :: u32) = a + 10000 - b" by (rule small) (use ab in simp_all)
  then show "\<not> IsoTpTimeAfter (Milliseconds now r) (deadline earlier r')"
    using ab by (simp only: IsoTpTimeAfter_def wait)
qed

lemma poll_send_receiver:
  "receive_status (poll_send ms l) = receive_status l" "receive_timer_cr (poll_send ms l) = receive_timer_cr l"
  "receive_size (poll_send ms l) = receive_size l" "receive_offset (poll_send ms l) = receive_offset l"
  "receive_buffer (poll_send ms l) = receive_buffer l" "receive_sn (poll_send ms l) = receive_sn l"
  by (simp_all add: poll_send_eq consecutive_sent_def)

lemma poll_keeps_assembly:
  assumes "\<not> IsoTpTimeAfter (Milliseconds now Check_Cr) (receive_timer_cr (m_Link ep))"
  shows "assembly_of (m_Link (Poll now ep)) = assembly_of (m_Link ep)"
    "receive_timer_cr (m_Link (Poll now ep)) = receive_timer_cr (m_Link ep)"
  using assms by (simp_all add: Poll_def isotp_poll_def assembly_of_def poll_send_receiver Let_def)

lemma request_keeps_assembly:
  "assembly_of (m_Link (EndpointSend now fid data ep)) = assembly_of (m_Link ep)"
  "receive_timer_cr (m_Link (EndpointSend now fid data ep)) = receive_timer_cr (m_Link ep)"
  by (simp_all add: EndpointSend_def isotp_send_with_id_def isotp_send_single_frame_def isotp_send_first_frame_def
      isotp_send_can_def assembly_of_def Let_def)

lemma link_event_ok:
  assumes "endpoint_ok (ch_link h)"
  shows "endpoint_ok (ch_link (endpoint_event ev h))"
proof (cases ev)
  case (Arrives now e)
  obtain t i d where "e = (t, i, d)" by (cases e)
  then show ?thesis using assms OnCanFrame_ok by (simp only: Arrives arrival_fields) simp
next
  case (Polls now)
  then show ?thesis using endpoint_step_ok [OF assms, of "(now, Call_Poll)"] by simp
next
  case (Requests now fid data)
  then show ?thesis using endpoint_step_ok [OF assms, of "(now, Call_Send fid data)"] by simp
qed

text \<open>Without a frame of the response identifier nobody is told of a message.\<close>

lemma no_frames_no_notices:
  "frames_of (ch_response_id h) evs = [] \<Longrightarrow> isotp_notices (ch_notices (fold endpoint_event evs h)) = isotp_notices (ch_notices h)"
proof (induction evs arbitrary: h)
  case (Cons ev evs)
  show ?case
  proof (cases ev)
    case (Arrives now e)
    obtain t i d where "e = (t, i, d)" by (cases e)
    then show ?thesis using Cons by (auto simp: Arrives arrival_fields simp del: endpoint_event.simps split: if_splits)
  qed (use Cons in simp_all)
qed simp

text \<open>The handler while it has a part of the message: \<open>before\<close> is when the last frame of it came.\<close>

definition collecting :: "(reading \<Rightarrow> int) \<Rightarrow> nat \<Rightarrow> bytes \<Rightarrow> u8 \<Rightarrow> isotp_endpoint can_handler \<Rightarrow> bool" where
  "collecting before whole got sn h \<longleftrightarrow> endpoint_ok (ch_link h) \<and>
     assembly_of (m_Link (ch_link h)) = Collecting whole got sn \<and>
     receive_timer_cr (m_Link (ch_link h)) = deadline before Timer_Cr"

definition told :: "bytes \<Rightarrow> isotp_endpoint can_handler \<Rightarrow> can_notice list" where
  "told msg h = map (\<lambda>ob. IsoTpData ob (ch_response_id h) msg) (ch_observers h)"

lemma rest_is_told:
  assumes "collecting before whole got sn h" "unat sn < 16" "whole = length got + length rest" "rest \<noteq> []"
    and "frames_of (ch_response_id h) evs = chunk_frames sn rest" "polls_in_time (ch_response_id h) (Some before) evs"
  shows "isotp_notices (ch_notices (fold endpoint_event evs h)) = isotp_notices (ch_notices h) @ told (got @ rest) h"
  using assms
proof (induction evs arbitrary: h before got sn rest)
  case Nil
  then show ?case by (simp add: chunk_frames.simps [of sn rest])
next
  case (Cons ev evs)
  note c = Cons.prems(1) [unfolded collecting_def]
  show ?case
  proof (cases ev)
    case (Requests now fid data)
    have "collecting before whole got sn (endpoint_event ev h)"
      using c link_event_ok [of h ev] by (simp add: collecting_def Requests request_keeps_assembly)
    from Cons.IH [OF this Cons.prems(2-4)] Cons.prems(5,6) show ?thesis by (simp add: Requests told_def)
  next
    case (Polls now)
    have "frames_of (ch_response_id h) evs \<noteq> []"
      using Cons.prems(4,5) by (simp add: Polls chunk_frames.simps [of sn rest])
    then have "in_time before now" using Cons.prems(6) by (simp add: Polls)
    then have late: "\<not> IsoTpTimeAfter (Milliseconds now Check_Cr) (receive_timer_cr (m_Link (ch_link h)))"
      using c by (simp add: in_time_def)
    have "collecting before whole got sn (endpoint_event ev h)"
      using c link_event_ok [of h ev] by (simp add: collecting_def Polls poll_keeps_assembly [OF late])
    from Cons.IH [OF this Cons.prems(2-4)] Cons.prems(5,6) show ?thesis by (simp add: Polls told_def)
  next
    case (Arrives now e)
    obtain t i d where e: "e = (t, i, d)" by (cases e)
    let ?h = "endpoint_event ev h"
    note fields = arrival_fields [of now t i d h, folded e, folded Arrives]
    show ?thesis
    proof (cases "i = ch_response_id h")
      case False
      then have "collecting before whole got sn ?h" using c link_event_ok [of h ev] by (simp add: collecting_def fields)
      moreover have "frames_of (ch_response_id h) evs = chunk_frames sn rest" "polls_in_time (ch_response_id h) (Some before) evs"
        using Cons.prems(5,6) False by (simp_all add: Arrives e)
      ultimately show ?thesis using Cons.IH [of before got sn ?h rest] Cons.prems(2-4) False by (simp add: fields told_def)
    next
      case True
      have d: "d = chunk_frame sn rest" "frames_of (ch_response_id h) evs = chunk_frames (next_sn sn) (drop 7 rest)"
        using Cons.prems(4,5) True by (simp_all add: Arrives e chunk_frames.simps [of sn rest])
      show ?thesis
      proof (cases "length rest \<le> 7")
        case last: True
        obtain B1 where r: "OnCanFrame now d (ch_link h) = (Some (got @ rest), B1)"
          using last_chunk_received [OF _ _ Cons.prems(2-4) last, of "ch_link h" now] c d(1) by blast
        have "frames_of (ch_response_id ?h) evs = []" using d(2) last by (simp add: fields chunk_frames.simps)
        from no_frames_no_notices [OF this] show ?thesis
          using True r by (simp add: fields told_def)
      next
        case more: False
        obtain B1 where r: "OnCanFrame now d (ch_link h) = (None, B1)" "endpoint_ok B1"
            "assembly_of (m_Link B1) = Collecting whole (got @ take 7 rest) (next_sn sn)"
            "receive_timer_cr (m_Link B1) = deadline now Timer_Cr"
          using chunk_received [OF _ _ Cons.prems(2-4), of "ch_link h" now] c d(1) more by force
        have "collecting now whole (got @ take 7 rest) (next_sn sn) ?h"
          using r True by (simp add: collecting_def fields)
        moreover have "polls_in_time (ch_response_id h) (Some now) evs" using Cons.prems(6) True by (simp add: Arrives e)
        ultimately show ?thesis using Cons.IH [of now "got @ take 7 rest" "next_sn sn" ?h "drop 7 rest"] next_sn_less [OF Cons.prems(2)]
            Cons.prems(3) d(2) more True r
          by (simp add: fields told_def)
      qed
    qed
  qed
qed

text \<open>The first frame, when the whole of the message is still to come.\<close>

lemma message_starts:
  assumes "endpoint_ok (ch_link h)" "d # frames_of (ch_response_id h) evs = segments msg" "1 \<le> length msg" "length msg \<le> 4095"
    and "polls_in_time (ch_response_id h) (Some now) evs"
  shows "isotp_notices (ch_notices (fold endpoint_event evs (endpoint_event (Arrives now (t, ch_response_id h, d)) h))) =
    isotp_notices (ch_notices h) @ told msg h"
proof (cases "length msg < 8")
  case True
  let ?h = "endpoint_event (Arrives now (t, ch_response_id h, d)) h"
  have d: "d = single_segment msg" "frames_of (ch_response_id ?h) evs = []"
    using assms(2) True by (simp_all add: segments_def arrival_fields del: endpoint_event.simps)
  obtain B1 where "OnCanFrame now d (ch_link h) = (Some msg, B1)"
    using single_received [OF assms(1,3) True, of now] d(1) by blast
  then show ?thesis using no_frames_no_notices [OF d(2)] by (simp add: arrival_fields told_def del: endpoint_event.simps)
next
  case False
  let ?h = "endpoint_event (Arrives now (t, ch_response_id h, d)) h"
  have d: "d = first_segment msg" "frames_of (ch_response_id h) evs = chunk_frames 1 (drop 6 msg)"
    using assms(2) False by (simp_all add: segments_def)
  obtain B1 where r: "OnCanFrame now d (ch_link h) = (None, B1)" "endpoint_ok B1"
      "assembly_of (m_Link B1) = Collecting (length msg) (take 6 msg) 1"
      "receive_timer_cr (m_Link B1) = deadline now Timer_Cr"
    using first_received [OF assms(1) _ assms(4), of now] d(1) False by force
  have "collecting now (length msg) (take 6 msg) 1 ?h" using r by (simp add: collecting_def arrival_fields del: endpoint_event.simps)
  from rest_is_told [OF this, of "drop 6 msg" evs] show ?thesis
    using False assms(5) d(2) r by (simp add: arrival_fields told_def del: endpoint_event.simps)
qed

text \<open>
  C37: when the frames of a message arrive at the handler under its response identifier, in order
  and with anything between them, other frames, requests and polls of the worker, every
  observer is told of the message once, and of no other, provided that between two of the
  frames no poll comes later than the response timeout of 10 seconds after the first of them.
\<close>

theorem observers_get_the_message:
  assumes "endpoint_ok (ch_link h)" "frames_of (ch_response_id h) evs = segments msg" "1 \<le> length msg" "length msg \<le> 4095"
    and "polls_in_time (ch_response_id h) None evs"
  shows "isotp_notices (ch_notices (fold endpoint_event evs h)) =
    isotp_notices (ch_notices h) @ map (\<lambda>ob. IsoTpData ob (ch_response_id h) msg) (ch_observers h)"
  using assms(1,2,5)
proof (induction evs arbitrary: h)
  case Nil
  then show ?case by (simp add: segments_def split: if_splits)
next
  case (Cons ev evs)
  note ok = link_event_ok [OF Cons.prems(1), of ev]
  show ?case
  proof (cases ev)
    case (Arrives now e)
    obtain t i d where e: "e = (t, i, d)" by (cases e)
    let ?h = "endpoint_event ev h"
    note fields = arrival_fields [of now t i d h, folded e, folded Arrives]
    show ?thesis
    proof (cases "i = ch_response_id h")
      case False
      then have "frames_of (ch_response_id h) evs = segments msg" "polls_in_time (ch_response_id h) None evs"
        using Cons.prems(2,3) by (simp_all add: Arrives e)
      then show ?thesis using Cons.IH [OF ok] False by (simp add: fields)
    next
      case True
      then show ?thesis
        using message_starts [OF Cons.prems(1) _ assms(3,4), of d evs now t] Cons.prems(2,3) by (simp add: Arrives e told_def)
    qed
  next
    case (Polls now)
    then show ?thesis using Cons.IH [OF ok] Cons.prems(2,3) by simp
  next
    case (Requests now fid data)
    then show ?thesis using Cons.IH [OF ok] Cons.prems(2,3) by simp
  qed
qed

text \<open>A poll after the timeout forgets what there is of the message; no observer is told.\<close>

lemma late_poll_forgets:
  "IsoTpTimeAfter (Milliseconds now Check_Cr) (receive_timer_cr (m_Link (ch_link h))) \<Longrightarrow>
   assembly_of (m_Link (ch_link (endpoint_event (Polls now) h))) = Waiting \<and>
   ch_notices (endpoint_event (Polls now) h) = ch_notices h"
  by (auto simp: Poll_def isotp_poll_def assembly_of_def poll_send_receiver Let_def)

section \<open>What is not delivered\<close>

text \<open>
  A message longer than one frame that is sent under another identifier than the request's: its
  first frame has that identifier, and the one that follows the receiver's permission and the
  next poll has the request's.
\<close>

lemma other_id_splits_message:
  assumes "endpoint_ok A" "send_status (m_Link A) \<noteq> SEND_INPROGRESS" "receive_status (m_Link A) = RECEIVE_IDLE"
    "8 \<le> length msg" "length msg \<le> 4096" "in_time now now"
  shows "link_sent (m_Link (Poll now (snd (OnCanFrame now permission (EndpointSend now fid msg A))))) =
    link_sent (m_Link A) @ [(fid, first_segment msg), (send_arbitration_id (m_Link A), chunk_frame 1 (drop 6 msg))]"
proof -
  have len: "length (send_buffer (m_Link A)) = 4096" using assms(1) by (simp add: endpoint_ok_def isotp_ok_def)
  note sent = send_large [OF assms(4,5,2) len, of "Milliseconds now" fid]
  let ?A = "EndpointSend now fid msg A"
  have running: "send_status (m_Link ?A) = SEND_INPROGRESS" "receive_status (m_Link ?A) = RECEIVE_IDLE"
    using assms(3) by (simp_all add: EndpointSend_def sent)
  let ?A1 = "snd (OnCanFrame now permission ?A)"
  have A1: "?A1 = ?A\<lparr>m_Link := (m_Link ?A)\<lparr>send_timer_bs := deadline now Timer_Bs, send_bs_remain := 8, send_st_min := 0,
      send_wtf_count := 0\<rparr>\<rparr>"
    by (simp add: permission_received [OF running])
  have "endpoint_ok ?A1" using endpoint_step_ok [OF endpoint_step_ok [OF assms(1)], of "(now, Call_OnCanFrame permission)" "(now, Call_Send fid msg)"]
    by simp
  then have ok: "isotp_ok (m_Link ?A1)" by (simp add: endpoint_ok_def)
  have "unsent (m_Link ?A1) = drop 6 msg" "send_sn (m_Link ?A1) = 1"
    using put_whole [of msg "send_buffer (m_Link A)"] len assms(5) unfolding A1 by (simp_all add: unsent_def EndpointSend_def sent)
  then have frame: "next_frame (m_Link ?A1) = chunk_frame 1 (drop 6 msg)" using next_frame_chunk [OF ok] by simp
  have "isotp_poll (Milliseconds now) (m_Link ?A1) = (consecutive_sent (m_Link ?A1))\<lparr>
      send_bs_remain := send_bs_remain (m_Link ?A1) - 1, send_timer_bs := deadline now Timer_Bs,
      send_timer_st := Milliseconds now Timer_St,
      send_status := (if send_offset (m_Link ?A1) + next_chunk (m_Link ?A1) \<ge> send_size (m_Link ?A1) then SEND_IDLE else SEND_INPROGRESS)\<rparr>"
    using running by (intro poll_send_step assms(6)) (simp_all add: A1)
  then have "link_sent (m_Link (Poll now ?A1)) = link_sent (m_Link ?A1) @ [(send_arbitration_id (m_Link ?A1), next_frame (m_Link ?A1))]"
    by (simp add: Poll_def)
  also have "\<dots> = link_sent (m_Link A) @ [(fid, first_segment msg), (send_arbitration_id (m_Link A), chunk_frame 1 (drop 6 msg))]"
    unfolding frame unfolding A1 by (simp add: EndpointSend_def sent)
  finally show ?thesis .
qed

text \<open>A message of 4096 bytes is accepted, announced with length 0 and put together by nobody.\<close>

lemma largest_message_is_lost:
  assumes "length msg = 4096"
  shows "fst (isotp_send_with_id ms fid msg (m_Link (new_endpoint request_id))) = RET_OK"
    "assemble_all (segments msg) Waiting = ([], Waiting)"
proof -
  show "fst (isotp_send_with_id ms fid msg (m_Link (new_endpoint request_id))) = RET_OK"
    using assms by (simp add: isotp_send_with_id_def isotp_send_first_frame_def isotp_send_can_def new_endpoint_def
        isotp_init_link_def MAX_ISOTP_FRAME_LEN_def Let_def)
  have "unat (pci_low (first_segment msg)) = 0" using assms by (simp add: first_segment_def)
  moreover have "unat (first_segment msg ! 1) = 0" using assms by (simp add: first_segment_def)
  moreover have "pci_type (first_segment msg) = ISOTP_PCI_TYPE_FIRST_FRAME" "ISOTP_PCI_TYPE_FIRST_FRAME \<noteq> ISOTP_PCI_TYPE_SINGLE"
    by (simp add: first_segment_def) (simp add: pci_types)
  ultimately have first: "assemble (first_segment msg) Waiting = (None, Waiting)" by (simp add: assemble_def Let_def)
  have "assemble_all (chunk_frames sn data) Waiting = ([], Waiting)" for sn data
  proof (induction sn data rule: chunk_frames.induct)
    case (1 sn data)
    have "pci_type (chunk_frame sn data) = TSOTP_PCI_TYPE_CONSECUTIVE_FRAME" by (simp add: chunk_frame_def)
    then have "assemble (chunk_frame sn data) Waiting = (None, Waiting)" by (simp add: assemble_def pci_types)
    then show ?case using 1 unfolding chunk_frames.simps [of sn data] by (simp add: Let_def)
  qed
  then show "assemble_all (segments msg) Waiting = ([], Waiting)" using assms first by (simp add: segments_def Let_def)
qed

text \<open>A message that is sent while another is on its way is dropped.\<close>

lemma busy_endpoint_drops: "send_status (m_Link ep) = SEND_INPROGRESS \<Longrightarrow> EndpointSend now fid msg ep = ep"
  by (simp add: EndpointSend_def isotp_send_with_id_def)

section \<open>Instances\<close>

definition example_handler :: "isotp_endpoint can_handler" where
  "example_handler = \<lparr>ch_entries = [], ch_rx = Map.empty, ch_comments = Map.empty, ch_log_levels = Map.empty,
     ch_log = \<lparr>fl_entries = [], fl_start = 0, fl_recording = False\<rparr>, ch_tx_count = 0, ch_rx_count = 0, ch_recording_level = 0,
     ch_auto_send = False, ch_auto_record = False, ch_response_id = 0x7DA, ch_link = new_endpoint 0x7E0,
     ch_observers = [3], ch_notices = []\<rparr>"

theorem observers_get_the_message_witness:
  "isotp_notices (ch_notices (fold endpoint_event (Arrives (\<lambda>r. 0) (0, 5, [1]) # Polls (\<lambda>r. 0) #
     concat (map (\<lambda>f. [Arrives (\<lambda>r. 0) (0, 0x7DA, f), Polls (\<lambda>r. 5000000000)]) (segments (replicate 20 7)))) example_handler)) =
   [IsoTpData 3 0x7DA (replicate 20 7)]"
proof -
  let ?fs = "segments (replicate 20 7) :: bytes list"
  let ?evs = "Arrives (\<lambda>r. 0) (0, 5, [1]) # Polls (\<lambda>r. 0) #
     concat (map (\<lambda>f. [Arrives (\<lambda>r. 0) (0, 0x7DA, f), Polls (\<lambda>r. 5000000000)]) ?fs)"
  have fr: "frames_of 0x7DA (concat (map (\<lambda>f. [Arrives (\<lambda>r. 0) (0, 0x7DA, f), Polls (\<lambda>r. 5000000000)]) fs)) = fs" for fs
    by (induction fs) simp_all
  have pit: "polls_in_time 0x7DA before (concat (map (\<lambda>f. [Arrives (\<lambda>r. 0) (0, 0x7DA, f), Polls (\<lambda>r. 5000000000)]) fs))" for before fs
    using ten_seconds_in_time [of "\<lambda>r. 5000000000" "\<lambda>r. 0"] by (induction fs arbitrary: before) simp_all
  have h: "ch_response_id example_handler = 0x7DA" "ch_link example_handler = new_endpoint 0x7E0"
    "ch_observers example_handler = [3]" "ch_notices example_handler = []"
    by (simp_all add: example_handler_def)
  have "frames_of (ch_response_id example_handler) ?evs = ?fs" "polls_in_time (ch_response_id example_handler) None ?evs"
    using fr pit by (simp_all add: h)
  then show ?thesis
    using observers_get_the_message [of example_handler ?evs "replicate 20 7"] new_endpoint_ok
    by (simp add: h isotp_notices_def)
qed

end
