(* ===== verification/ScanText.thy ===== *)
theory ScanText
  imports SettingsIni
begin

text \<open>
  \<open>std::sscanf\<close>, as far as the program uses it: \<open>%d\<close>, \<open>%c\<close>, white space and literal
  characters.  Used by \<open>src/Alarms.cpp\<close> and \<open>src/gui/SettingsDialog.cpp\<close>.
\<close>

section \<open>Scanning\<close>

datatype directive = Int_Field | Char_Field | Blanks | Literally char

datatype scanned = Number int | Character char

definition is_decimal :: "char \<Rightarrow> bool" where
  "is_decimal c \<longleftrightarrow> char_value c < 10"

text \<open>\<open>%d\<close>: white space, a sign, digits.\<close>

definition scan_int :: "string \<Rightarrow> (int \<times> string) option" where
  "scan_int s =
     (let t = dropWhile is_space s; u = (if t \<noteq> [] \<and> hd t \<in> {CHR ''-'', CHR ''+''} then tl t else t);
          n = int (digits_value 10 (takeWhile is_decimal u))
      in if takeWhile is_decimal u = [] then None
         else Some (if t \<noteq> u \<and> hd t = CHR ''-'' then - n else n, dropWhile is_decimal u))"

text \<open>The fields that were read; their number is what \<open>sscanf\<close> returns.\<close>

fun sscanf :: "directive list \<Rightarrow> string \<Rightarrow> scanned list" where
  "sscanf [] s = []"
| "sscanf (Int_Field # f) s = (case scan_int s of None \<Rightarrow> [] | Some (n, r) \<Rightarrow> Number n # sscanf f r)"
| "sscanf (Char_Field # f) [] = []"
| "sscanf (Char_Field # f) (c # s) = Character c # sscanf f s"
| "sscanf (Blanks # f) s = sscanf f (dropWhile is_space s)"
| "sscanf (Literally c # f) [] = []"
| "sscanf (Literally c # f) (d # s) = (if c = d then sscanf f s else [])"

text \<open>A number that does not fit \<open>int\<close> is undefined behaviour.\<close>

definition fits_int :: "scanned \<Rightarrow> bool" where
  "fits_int x = (case x of Number n \<Rightarrow> - (2 ^ 31) \<le> n \<and> n < 2 ^ 31 | Character _ \<Rightarrow> True)"

definition scan :: "directive list \<Rightarrow> string \<Rightarrow> scanned list option" where
  "scan f s = (if list_all fits_int (sscanf f s) then Some (sscanf f s) else None)"

section \<open>Scanning decimal numbers\<close>

lemma decimal_head: "\<exists>c cs. decimal n = c # cs \<and> \<not> is_space c \<and> c \<noteq> CHR ''-'' \<and> c \<noteq> CHR ''+''"
proof (cases "decimal n")
  case (Cons c cs)
  then have "48 \<le> (of_char c :: nat)" using decimal_digits [of n] by simp
  then have "\<not> is_space c" "c \<noteq> CHR ''-''" "c \<noteq> CHR ''+''" by (auto simp: is_space_def)
  then show ?thesis using Cons by blast
qed simp

lemma scan_int_decimal:
  assumes "rest = [] \<or> \<not> is_decimal (hd rest)"
  shows "scan_int (decimal n @ rest) = Some (int n, rest)"
proof -
  obtain c cs where c: "decimal n = c # cs" "\<not> is_space c" "c \<noteq> CHR ''-''" "c \<noteq> CHR ''+''"
    using decimal_head by blast
  have t: "dropWhile is_space (decimal n @ rest) = decimal n @ rest" by (simp add: c)
  have h: "hd (decimal n @ rest) = c" by (simp add: c(1))
  have rest: "rest = [] \<or> 10 \<le> char_value (hd rest)" using assms by (auto simp: is_decimal_def)
  have d: "takeWhile is_decimal (decimal n @ rest) = decimal n" "dropWhile is_decimal (decimal n @ rest) = rest"
    using takeWhile_decimal [OF rest, of n] by (simp_all add: is_decimal_def [abs_def])
  show ?thesis unfolding scan_int_def Let_def t h using c(3,4) d by simp
qed

lemma scan_int_end [simp]: "scan_int (decimal n) = Some (int n, [])"
  using scan_int_decimal [of "[]" n] by simp

lemma scan_int_next [simp]: "\<not> is_decimal c \<Longrightarrow> scan_int (decimal n @ c # rest) = Some (int n, c # rest)"
  using scan_int_decimal [of "c # rest" n] by simp

lemma scan_int_none: "\<not> is_decimal c \<Longrightarrow> \<not> is_space c \<Longrightarrow> c \<noteq> CHR ''-'' \<Longrightarrow> c \<noteq> CHR ''+'' \<Longrightarrow> scan_int (c # rest) = None"
  by (simp add: scan_int_def)

lemma scan_int_Nil [simp]: "scan_int [] = None"
  by (simp add: scan_int_def)

lemma is_decimal_units [simp]:
  "\<not> is_decimal CHR '':''" "\<not> is_decimal CHR ''h''" "\<not> is_decimal CHR ''m''" "\<not> is_decimal CHR ''s''" "\<not> is_decimal CHR '' ''"
  "\<not> is_decimal CHR '',''"
  by (simp_all add: is_decimal_def char_value_def Let_def)

end
