(* ===== verification/Alarms.thy ===== *)
theory Alarms
  imports ScanText HexText
begin

text \<open>
  Alarms: the duration a user types, the list of alarms with its file, and the handler that
  arms them and counts them down.  Source: \<open>src/Alarms.cpp\<close>, \<open>src/Alarms.hpp\<close>,
  \<open>src/interface/IAlarmPrompt.hpp\<close>, \<open>src/interface/IAlarmEventSink.hpp\<close>, the dialog in
  \<open>src/gui/AlarmPanel.cpp\<close> and \<open>AskForDuration\<close> in \<open>src/WindowsAddon.cpp\<close>.  Durations are
  numbers of seconds.  What the handler announces is collected in order.
\<close>

section \<open>Durations\<close>

definition contains :: "string \<Rightarrow> string \<Rightarrow> bool" where
  "contains hay needle \<longleftrightarrow> str_find hay needle 0 \<noteq> None"

text \<open>
  What the fields read make: \<open>None\<close> when they do not apply, so that the next format is tried.  Hours and
  minutes are added as a 32-bit number of minutes; a sum that does not fit has no value.
\<close>

definition clock :: "int \<Rightarrow> int \<Rightarrow> int \<Rightarrow> int option" where
  "clock h m s =
     (if fits_int (Number (60 * h)) \<and> fits_int (Number (60 * h + m)) then Some (3600 * h + 60 * m + s) else None)"

definition hours_minutes :: "scanned list \<Rightarrow> int option option" where
  "hours_minutes r = (case r of [Number h, Number m] \<Rightarrow> Some (clock h m 0) | _ \<Rightarrow> None)"

definition hours_minutes_seconds :: "scanned list \<Rightarrow> int option option" where
  "hours_minutes_seconds r = (case r of [Number h, Number m, Number s] \<Rightarrow> Some (clock h m s) | _ \<Rightarrow> None)"

definition minutes_seconds :: "scanned list \<Rightarrow> int option option" where
  "minutes_seconds r = (case r of [Number m, Number s] \<Rightarrow> Some (Some (60 * m + s)) | _ \<Rightarrow> None)"

definition one_count :: "int \<Rightarrow> scanned list \<Rightarrow> int option option" where
  "one_count w r = (case r of [Number n] \<Rightarrow> Some (Some (w * n)) | _ \<Rightarrow> None)"

definition unit_seconds :: "scanned list \<Rightarrow> int option option" where
  "unit_seconds r =
     (case r of
        [Number n, Character u] \<Rightarrow>
          if u = CHR ''h'' \<or> u = CHR ''H'' then Some (Some (3600 * n))
          else if u = CHR ''m'' \<or> u = CHR ''M'' then Some (Some (60 * n))
          else if u = CHR ''s'' \<or> u = CHR ''S'' then Some (Some n) else None
      | _ \<Rightarrow> None)"

text \<open>One attempt: what the fields make, else the next attempt.\<close>

definition try_scan :: "directive list \<Rightarrow> string \<Rightarrow> (scanned list \<Rightarrow> int option option) \<Rightarrow> int option \<Rightarrow> int option" where
  "try_scan f input use otherwise =
     (case scan f input of
        None \<Rightarrow> None
      | Some r \<Rightarrow> (case use r of Some result \<Rightarrow> result | None \<Rightarrow> otherwise))"

definition ParseAlarmDuration :: "string \<Rightarrow> int option" where
  "ParseAlarmDuration input =
     (let d = Int_Field; colon = Literally CHR '':''; h = Literally CHR ''h''; m = Literally CHR ''m''; s = Literally CHR ''s'' in
      try_scan [d, colon, d, colon, d] input hours_minutes_seconds (
      try_scan [d, colon, d] input hours_minutes (
      try_scan [d, h, d, m, d, s] input hours_minutes_seconds (
      try_scan [d, h, d, m] input hours_minutes (
      try_scan [d, m, d, s] input minutes_seconds (
      try_scan [d] input (\<lambda>r. if contains input ''hour'' then one_count 3600 r else None) (
      try_scan [d] input (\<lambda>r. if contains input ''min'' then one_count 60 r else None) (
      try_scan [d] input (\<lambda>r. if contains input ''sec'' then one_count 1 r else None) (
      try_scan [d, Char_Field] input unit_seconds (
      Some 0))))))))))"

section \<open>The alarms and their file\<close>

datatype AlarmTrigger = Trigger_Macro | Trigger_Gui | Trigger_Invalid

definition kAlarmTriggerNames :: "(AlarmTrigger \<times> string) list" where
  "kAlarmTriggerNames = [(Trigger_Invalid, ''Invalid''), (Trigger_Macro, ''macro''), (Trigger_Gui, ''gui'')]"

definition AlarmStringToTrigger :: "string \<Rightarrow> AlarmTrigger" where
  "AlarmStringToTrigger name = enum_FromName Trigger_Invalid kAlarmTriggerNames name"

definition AlarmTriggerToString :: "AlarmTrigger \<Rightarrow> string" where
  "AlarmTriggerToString trigger = enum_NameOf Trigger_Invalid kAlarmTriggerNames trigger"

record alarm_entry =
  al_name :: string
  al_trigger :: AlarmTrigger
  al_trigger_key :: string
  al_execute :: string
  al_show_dialog :: bool
  al_is_armed :: bool
  al_duration :: int

definition new_alarm :: "string \<Rightarrow> AlarmTrigger \<Rightarrow> string \<Rightarrow> string \<Rightarrow> bool \<Rightarrow> alarm_entry" where
  "new_alarm name trigger trigger_key execute show_dialog =
     \<lparr>al_name = name, al_trigger = trigger, al_trigger_key = trigger_key, al_execute = execute,
      al_show_dialog = show_dialog, al_is_armed = False, al_duration = 0\<rparr>"

text \<open>An element of the file: a child that is missing, or not readable as its type, is \<open>None\<close> and throws.\<close>

record alarm_node =
  an_name :: "string option"
  an_trigger :: "string option"
  an_key :: "string option"
  an_execute :: "string option"
  an_show_dialog :: "bool option"

definition load_alarm :: "alarm_node \<Rightarrow> alarm_entry list \<Rightarrow> bool \<times> alarm_entry list" where
  "load_alarm v e =
     (case an_name v of
        None \<Rightarrow> (True, e)
      | Some name \<Rightarrow>
          if name \<in> al_name ` set e then (False, e)
          else case (an_trigger v, an_key v, an_execute v, an_show_dialog v) of
            (Some trigger_str, Some key, Some execute, Some show_dialog) \<Rightarrow>
              (False, e @ [new_alarm name (AlarmStringToTrigger trigger_str) key execute show_dialog])
          | _ \<Rightarrow> (True, e))"

fun load_alarms :: "alarm_node list \<Rightarrow> alarm_entry list \<Rightarrow> bool \<times> alarm_entry list" where
  "load_alarms [] e = (True, e)"
| "load_alarms (v # vs) e = (case load_alarm v e of (threw, e') \<Rightarrow> if threw then (False, e') else load_alarms vs e')"

definition save_alarms :: "alarm_entry list \<Rightarrow> alarm_node list" where
  "save_alarms e = map (\<lambda>a. \<lparr>an_name = Some (al_name a), an_trigger = Some (AlarmTriggerToString (al_trigger a)),
     an_key = Some (al_trigger_key a), an_execute = Some (al_execute a), an_show_dialog = Some (al_show_dialog a)\<rparr>) e"

section \<open>The handler\<close>

datatype alarm_event =
  Alarm_Loaded alarm_entry | Alarm_Armed string int | Alarm_Macro_Requested string | Alarm_Triggered string

text \<open>\<open>ah_prompt\<close> and \<open>ah_sink\<close>: whether there is one.\<close>

record alarm_handler =
  ah_entries :: "alarm_entry list"
  ah_prompt :: bool
  ah_sink :: bool
  ah_events :: "alarm_event list"

definition announce :: "alarm_event list \<Rightarrow> alarm_handler \<Rightarrow> alarm_handler" where
  "announce es h = (if ah_sink h then h\<lparr>ah_events := ah_events h @ es\<rparr> else h)"

text \<open>The file is \<open>None\<close> when it cannot be read.\<close>

definition LoadAlarms :: "alarm_node list option \<Rightarrow> alarm_handler \<Rightarrow> bool \<times> alarm_handler" where
  "LoadAlarms file h =
     (let (ret, e) = (case file of None \<Rightarrow> (False, []) | Some nodes \<Rightarrow> load_alarms nodes []); g = h\<lparr>ah_entries := e\<rparr>
      in (ret, if ret then announce (map Alarm_Loaded e) g else g))"

text \<open>
  What the dialog leaves: a text when the user accepts it; when it is cancelled, the text of the
  last time stays.  Without a panel there is no dialog.
\<close>

definition AskForDuration :: "bool \<Rightarrow> string option \<Rightarrow> string \<Rightarrow> string" where
  "AskForDuration has_panel answer m_DurationText =
     (if \<not> has_panel then [] else case answer of Some input \<Rightarrow> input | None \<Rightarrow> m_DurationText)"

text \<open>\<open>None\<close> when the duration has none (a number that does not fit \<open>int\<close>).\<close>

definition ArmFromPrompt :: "nat \<Rightarrow> string \<Rightarrow> alarm_handler \<Rightarrow> alarm_handler option" where
  "ArmFromPrompt i typed h =
     (if \<not> ah_prompt h then Some h
      else case ParseAlarmDuration typed of
        None \<Rightarrow> None
      | Some duration \<Rightarrow>
          let entry = (ah_entries h ! i)\<lparr>al_is_armed := True, al_duration := duration\<rparr>
          in Some (announce [Alarm_Armed (al_name entry) duration] (h\<lparr>ah_entries := (ah_entries h)[i := entry]\<rparr>)))"

definition SetupAlarm :: "nat \<Rightarrow> string \<Rightarrow> alarm_handler \<Rightarrow> alarm_handler option" where
  "SetupAlarm i typed h = (if i \<ge> length (ah_entries h) then Some h else ArmFromPrompt i typed h)"

definition CancelAlarm :: "nat \<Rightarrow> alarm_handler \<Rightarrow> alarm_handler" where
  "CancelAlarm i h = h\<lparr>ah_entries := (ah_entries h)[i := (ah_entries h ! i)\<lparr>al_duration := 0, al_is_armed := False\<rparr>]\<rparr>"


definition tick_entry :: "alarm_entry \<Rightarrow> (string \<times> string) list \<times> alarm_entry" where
  "tick_entry a =
     (if \<not> al_is_armed a then ([], a)
      else
        let a1 = a\<lparr>al_duration := al_duration a - 1\<rparr>
        in if al_duration a1 > 0 then ([], a1)
           else (if al_trigger a1 = Trigger_Macro then [(al_trigger_key a1, al_name a1)] else [], a1\<lparr>al_is_armed := False\<rparr>))"

definition Tick :: "alarm_handler \<Rightarrow> alarm_handler" where
  "Tick h =
     (let fired = concat (map (fst \<circ> tick_entry) (ah_entries h)); g = h\<lparr>ah_entries := map (snd \<circ> tick_entry) (ah_entries h)\<rparr>
      in announce (concat (map (\<lambda>(key, name). [Alarm_Macro_Requested key, Alarm_Triggered name]) fired)) g)"

section \<open>What the durations mean\<close>

lemma contains_not: "c \<in> set needle \<Longrightarrow> c \<notin> set hay \<Longrightarrow> \<not> contains hay needle"
proof
  assume c: "c \<in> set needle" "c \<notin> set hay" and "contains hay needle"
  then obtain i where "str_find hay needle 0 = Some i" by (auto simp: contains_def)
  then have "prefix needle (drop i hay)" by (simp add: str_find_eq_Some)
  then have "set needle \<subseteq> set hay" by (metis prefixE set_append Un_upper1 set_drop_subset subset_trans)
  then show False using c by blast
qed

lemma contains_middle: "contains (a @ needle @ b) needle"
proof -
  have "prefix needle (drop (length a) (a @ needle @ b))" by simp
  moreover have "length a \<in> set [0..<Suc (length (a @ needle @ b) - length needle)]" by simp
  ultimately have "find (\<lambda>i. starts_with (drop i (a @ needle @ b)) needle) [0..<Suc (length (a @ needle @ b) - length needle)] \<noteq> None"
    unfolding find_None_iff starts_with_prefix by blast
  then show ?thesis by (auto simp: contains_def str_find_def)
qed

definition int_range :: "nat \<Rightarrow> bool" where
  "int_range n \<longleftrightarrow> n < 2 ^ 31"

lemma fits_decimal [simp]: "fits_int (Number (int n)) \<longleftrightarrow> int_range n"
proof -
  have "int n < 2 ^ 31 \<longleftrightarrow> n < 2 ^ 31" by (metis of_nat_less_iff of_nat_numeral of_nat_power)
  then show ?thesis by (simp add: fits_int_def int_range_def)
qed

lemma fits_character [simp]: "fits_int (Character c)"
  by (simp add: fits_int_def)

text \<open>Hours and minutes whose number of minutes fits.\<close>

lemma clock_fits [simp]: "int_range (60 * h + m) \<Longrightarrow> clock (int h) (int m) s = Some (3600 * int h + 60 * int m + s)"
proof -
  assume r: "int_range (60 * h + m)"
  then have "int_range (60 * h)" by (simp add: int_range_def)
  then have "fits_int (Number (int (60 * h)))" "fits_int (Number (int (60 * h + m)))" using r by (simp_all only: fits_decimal)
  then show ?thesis by (simp add: clock_def)
qed

lemma int_range_parts: "int_range (60 * h + m) \<Longrightarrow> int_range h \<and> int_range m"
  by (simp add: int_range_def)

lemmas scanning = ParseAlarmDuration_def try_scan_def scan_def hours_minutes_def hours_minutes_seconds_def minutes_seconds_def
  one_count_def unit_seconds_def Let_def

lemma decimal_clean: "x \<in> set (decimal n) \<Longrightarrow> 48 \<le> (of_char x :: nat) \<and> (of_char x :: nat) \<le> 57"
  using decimal_digits by blast

lemma letters_not_decimal [simp]:
  "CHR ''o'' \<notin> set (decimal n)" "CHR ''i'' \<notin> set (decimal n)" "CHR ''e'' \<notin> set (decimal n)" "CHR ''u'' \<notin> set (decimal n)"
  by (auto dest: decimal_clean)

lemma colon_durations:
  assumes "int_range (60 * h + m)" "int_range s"
  shows "ParseAlarmDuration (decimal h @ '':'' @ decimal m @ '':'' @ decimal s) = Some (3600 * int h + 60 * int m + int s)"
    "ParseAlarmDuration (decimal h @ '':'' @ decimal m) = Some (3600 * int h + 60 * int m)"
  using assms int_range_parts [OF assms(1)] by (simp_all add: scanning)

lemma lettered_durations:
  assumes "int_range (60 * h + m)" "int_range s"
  shows "ParseAlarmDuration (decimal h @ ''h'' @ decimal m @ ''m'' @ decimal s @ ''s'') = Some (3600 * int h + 60 * int m + int s)"
    "ParseAlarmDuration (decimal h @ ''h'' @ decimal m @ ''m'') = Some (3600 * int h + 60 * int m)"
    "ParseAlarmDuration (decimal m @ ''m'' @ decimal s @ ''s'') = Some (60 * int m + int s)"
  using assms int_range_parts [OF assms(1)] by (simp_all add: scanning)

lemma worded_durations:
  assumes "int_range n"
  shows "ParseAlarmDuration (decimal n @ '' hours'') = Some (3600 * int n)"
    "ParseAlarmDuration (decimal n @ '' minutes'') = Some (60 * int n)"
    "ParseAlarmDuration (decimal n @ '' sec'') = Some (int n)"
proof -
  have hour: "contains (decimal n @ '' hours'') ''hour''"
    using contains_middle [of "decimal n @ '' ''" "''hour''" "''s''"] by simp
  have minutes: "contains (decimal n @ '' minutes'') ''min''" "\<not> contains (decimal n @ '' minutes'') ''hour''"
    using contains_middle [of "decimal n @ '' ''" "''min''" "''utes''"] contains_not [of "CHR ''o''" "''hour''" "decimal n @ '' minutes''"]
    by simp_all
  have secs: "contains (decimal n @ '' sec'') ''sec''" "\<not> contains (decimal n @ '' sec'') ''hour''" "\<not> contains (decimal n @ '' sec'') ''min''"
    using contains_middle [of "decimal n @ '' ''" "''sec''" "[]"] contains_not [of "CHR ''o''" "''hour''" "decimal n @ '' sec''"]
      contains_not [of "CHR ''i''" "''min''" "decimal n @ '' sec''"] by simp_all
  show "ParseAlarmDuration (decimal n @ '' hours'') = Some (3600 * int n)"
    "ParseAlarmDuration (decimal n @ '' minutes'') = Some (60 * int n)"
    "ParseAlarmDuration (decimal n @ '' sec'') = Some (int n)"
    using assms hour minutes secs by (simp_all add: scanning)
qed

lemma unit_durations:
  assumes "int_range n"
  shows "ParseAlarmDuration (decimal n @ ''h'') = Some (3600 * int n)"
    "ParseAlarmDuration (decimal n @ ''m'') = Some (60 * int n)"
    "ParseAlarmDuration (decimal n @ ''s'') = Some (int n)"
proof -
  have no: "\<not> contains (decimal n @ [u]) ''hour''" "\<not> contains (decimal n @ [u]) ''min''" "\<not> contains (decimal n @ [u]) ''sec''"
    if "u \<in> {CHR ''h'', CHR ''m'', CHR ''s''}" for u
    using that contains_not [of "CHR ''o''" "''hour''" "decimal n @ [u]"] contains_not [of "CHR ''i''" "''min''" "decimal n @ [u]"]
      contains_not [of "CHR ''e''" "''sec''" "decimal n @ [u]"] by auto
  show "ParseAlarmDuration (decimal n @ ''h'') = Some (3600 * int n)"
    "ParseAlarmDuration (decimal n @ ''m'') = Some (60 * int n)"
    "ParseAlarmDuration (decimal n @ ''s'') = Some (int n)"
    using assms no by (simp_all add: scanning)
qed

text \<open>
  Every format that the code and its header name is read as they say, whatever the numbers.
\<close>

theorem documented_durations:
  assumes "int_range (60 * h + m)" "int_range s"
  shows "ParseAlarmDuration (decimal h @ '':'' @ decimal m @ '':'' @ decimal s) = Some (3600 * int h + 60 * int m + int s) \<and>
    ParseAlarmDuration (decimal h @ '':'' @ decimal m) = Some (3600 * int h + 60 * int m) \<and>
    ParseAlarmDuration (decimal h @ ''h'' @ decimal m @ ''m'' @ decimal s @ ''s'') = Some (3600 * int h + 60 * int m + int s) \<and>
    ParseAlarmDuration (decimal h @ ''h'' @ decimal m @ ''m'') = Some (3600 * int h + 60 * int m) \<and>
    ParseAlarmDuration (decimal m @ ''m'' @ decimal s @ ''s'') = Some (60 * int m + int s) \<and>
    ParseAlarmDuration (decimal h @ '' hours'') = Some (3600 * int h) \<and>
    ParseAlarmDuration (decimal m @ '' minutes'') = Some (60 * int m) \<and>
    ParseAlarmDuration (decimal s @ '' sec'') = Some (int s) \<and>
    ParseAlarmDuration (decimal h @ ''h'') = Some (3600 * int h) \<and>
    ParseAlarmDuration (decimal m @ ''m'') = Some (60 * int m) \<and>
    ParseAlarmDuration (decimal s @ ''s'') = Some (int s)"
proof -
  have "int_range h" "int_range m" using int_range_parts [OF assms(1)] by simp_all
  note counts = worded_durations [OF this(1)] worded_durations [OF this(2)] unit_durations [OF this(1)] unit_durations [OF this(2)]
  show ?thesis using colon_durations [OF assms] lettered_durations [OF assms] counts worded_durations [OF assms(2)]
      unit_durations [OF assms(2)] by blast
qed

theorem documented_durations_witness:
  "ParseAlarmDuration (decimal 1 @ '':'' @ decimal 30 @ '':'' @ decimal 15) = Some 5415 \<and>
   ParseAlarmDuration (decimal 90 @ ''s'') = Some 90"
  using documented_durations [of 1 30 15] documented_durations [of 1 30 90] by (simp add: int_range_def)

text \<open>What they do not say: an hour part with seconds is read with the seconds as minutes, a second unit in words is dropped.\<close>

lemma seconds_read_as_minutes:
  "int_range (60 * h + s) \<Longrightarrow> ParseAlarmDuration (decimal h @ ''h'' @ decimal s @ ''s'') = Some (3600 * int h + 60 * int s)"
  using int_range_parts [of h s] by (simp add: scanning)

lemma second_unit_dropped:
  "int_range h \<Longrightarrow> ParseAlarmDuration (decimal h @ '' hours '' @ rest) = Some (3600 * int h)"
  using contains_middle [of "decimal h @ '' ''" "''hour''" "''s '' @ rest"] by (simp add: scanning)

section \<open>Saving and loading\<close>

lemma AlarmTrigger_roundtrip [simp]: "AlarmStringToTrigger (AlarmTriggerToString t) = t"
  by (cases t) (simp_all add: AlarmStringToTrigger_def AlarmTriggerToString_def enum_FromName_def enum_NameOf_def
      kAlarmTriggerNames_def)

text \<open>Alarms as a file holds them: names differ, nothing is armed.\<close>

definition at_load :: "alarm_entry \<Rightarrow> bool" where
  "at_load a \<longleftrightarrow> \<not> al_is_armed a \<and> al_duration a = 0"

lemma load_alarm_keeps:
  "load_alarm v e = (threw, e') \<Longrightarrow> distinct (map al_name e) \<and> list_all at_load e \<Longrightarrow> distinct (map al_name e') \<and> list_all at_load e'"
  by (auto simp: load_alarm_def new_alarm_def at_load_def split: option.splits if_splits)

lemma load_alarms_keeps:
  "load_alarms vs e = (ret, e') \<Longrightarrow> distinct (map al_name e) \<and> list_all at_load e \<Longrightarrow> distinct (map al_name e') \<and> list_all at_load e'"
proof (induction vs arbitrary: e)
  case (Cons v vs)
  obtain threw e1 where v: "load_alarm v e = (threw, e1)" by (cases "load_alarm v e")
  show ?case using Cons.IH [of e1] Cons.prems load_alarm_keeps [OF v] v by (cases threw) auto
qed simp

lemma reload:
  "distinct (map al_name (e @ es)) \<Longrightarrow> list_all at_load es \<Longrightarrow> load_alarms (save_alarms es) e = (True, e @ es)"
proof (induction es arbitrary: e)
  case (Cons a es)
  have "a = new_alarm (al_name a) (al_trigger a) (al_trigger_key a) (al_execute a) (al_show_dialog a)"
    using Cons.prems(2) by (simp add: new_alarm_def at_load_def)
  then have "load_alarms (save_alarms (a # es)) e = load_alarms (save_alarms es) (e @ [a])"
    using Cons.prems(1) by (auto simp: save_alarms_def load_alarm_def)
  then show ?case using Cons.IH [of "e @ [a]"] Cons.prems by simp
qed (simp add: save_alarms_def)

theorem alarms_survive_reload:
  assumes "load_alarms nodes [] = (ret, e)"
  shows "load_alarms (save_alarms e) [] = (True, e)"
  using reload [of "[]" e] load_alarms_keeps [OF assms] by simp

section \<open>Counting down\<close>

definition fires :: "alarm_entry \<Rightarrow> bool" where
  "fires a \<longleftrightarrow> al_is_armed a \<and> al_duration a \<le> 1 \<and> al_trigger a = Trigger_Macro"

lemma tick_entry_fires: "fst (tick_entry a) = (if fires a then [(al_trigger_key a, al_name a)] else [])"
  by (simp add: tick_entry_def fires_def Let_def)

lemma tick_entry_fields [simp]:
  "al_name (snd (tick_entry a)) = al_name a" "al_trigger_key (snd (tick_entry a)) = al_trigger_key a"
  by (simp_all add: tick_entry_def Let_def)

lemma Tick_fields [simp]:
  "ah_entries (Tick h) = map (snd \<circ> tick_entry) (ah_entries h)" "ah_sink (Tick h) = ah_sink h"
  by (simp_all add: Tick_def announce_def Let_def)

lemma ticks_sink [simp]: "ah_sink ((Tick ^^ n) h) = ah_sink h"
  by (induction n) simp_all

text \<open>
  The alarms whose time was over in the first \<open>n\<close> ticks, each with its key and name, and what
  is announced of them: the macro's request, and then the alarm.
\<close>

definition announcements :: "(string \<times> string) list \<Rightarrow> alarm_event list" where
  "announcements fired = concat (map (\<lambda>(key, name). [Alarm_Macro_Requested key, Alarm_Triggered name]) fired)"

fun fired :: "nat \<Rightarrow> alarm_handler \<Rightarrow> (string \<times> string) list" where
  "fired 0 h = []"
| "fired (Suc n) h = fired n h @ concat (map (fst \<circ> tick_entry) (ah_entries ((Tick ^^ n) h)))"

definition runs_of :: "string \<Rightarrow> (string \<times> string) list \<Rightarrow> (string \<times> string) list" where
  "runs_of name fs = filter (\<lambda>f. snd f = name) fs"

lemma events_after: "ah_sink h \<Longrightarrow> ah_events ((Tick ^^ n) h) = ah_events h @ announcements (fired n h)"
proof (induction n)
  case (Suc n)
  have "ah_events ((Tick ^^ Suc n) h) = ah_events ((Tick ^^ n) h) @ announcements (concat (map (fst \<circ> tick_entry) (ah_entries ((Tick ^^ n) h))))"
    using Suc.prems by (simp add: Tick_def announce_def announcements_def Let_def)
  then show ?case using Suc by (simp add: announcements_def)
qed (simp add: announcements_def)

lemma runs_of_tick: "runs_of name (concat (map (fst \<circ> tick_entry) es)) = map (\<lambda>a. (al_trigger_key a, name)) (filter (\<lambda>a. fires a \<and> al_name a = name) es)"
  by (induction es) (auto simp: tick_entry_fires runs_of_def)

lemma filter_same_name: "distinct (map f xs) \<Longrightarrow> x \<in> set xs \<Longrightarrow> filter (\<lambda>a. f a = f x) xs = [x]"
proof (induction xs)
  case (Cons y ys)
  have "filter (\<lambda>a. f a = f y) ys = []" if "f y \<notin> f ` set ys"
    using that unfolding filter_empty_conv by (metis image_eqI)
  then show ?case using Cons by auto
qed simp

lemma distinct_filter_name:
  assumes "distinct (map al_name es)" "i < length es"
  shows "filter (\<lambda>a. P a \<and> al_name a = al_name (es ! i)) es = (if P (es ! i) then [es ! i] else [])"
proof -
  have "filter (\<lambda>a. P a \<and> al_name a = al_name (es ! i)) es = filter P (filter (\<lambda>a. al_name a = al_name (es ! i)) es)"
    by (simp add: conj_commute)
  then show ?thesis using filter_same_name [OF assms(1) nth_mem [OF assms(2)]] by simp
qed

text \<open>An armed alarm: how it runs down, and when it fires.\<close>

definition ticks_of :: "alarm_entry \<Rightarrow> nat" where
  "ticks_of a = nat (max 1 (al_duration a))"

definition after_ticks :: "nat \<Rightarrow> alarm_entry \<Rightarrow> alarm_entry" where
  "after_ticks n a = ((snd \<circ> tick_entry) ^^ n) a"

lemma after_ticks_Suc [simp]: "after_ticks 0 a = a" "after_ticks (Suc n) a = snd (tick_entry (after_ticks n a))"
  by (simp_all add: after_ticks_def)

lemma entries_after: "ah_entries ((Tick ^^ n) h) = map (after_ticks n) (ah_entries h)"
  by (induction n) (auto simp: comp_def)

lemma running:
  assumes "al_is_armed a" "n < ticks_of a"
  shows "after_ticks n a = a\<lparr>al_duration := al_duration a - int n\<rparr>"
  using assms(2)
proof (induction n)
  case (Suc n)
  then have "after_ticks n a = a\<lparr>al_duration := al_duration a - int n\<rparr>" "1 < al_duration a - int n"
    by (auto simp: ticks_of_def)
  then show ?case using assms(1) by (simp add: tick_entry_def Let_def)
qed simp

lemma fires_running:
  assumes "al_is_armed a" "al_trigger a = Trigger_Macro" "n < ticks_of a"
  shows "fires (after_ticks n a) \<longleftrightarrow> Suc n = ticks_of a"
  unfolding running [OF assms(1,3)] using assms by (auto simp: fires_def ticks_of_def)

lemma stopped:
  assumes "al_is_armed a" "ticks_of a \<le> n"
  shows "\<not> al_is_armed (after_ticks n a)"
  using assms(2)
proof (induction n rule: dec_induct)
  case base
  obtain k where k: "ticks_of a = Suc k" by (cases "ticks_of a") (auto simp: ticks_of_def)
  then have "after_ticks k a = a\<lparr>al_duration := al_duration a - int k\<rparr>" "al_duration a - int k \<le> 1"
    using running [OF assms(1), of k] by (auto simp: ticks_of_def)
  then show ?case unfolding k using assms(1) by (simp add: tick_entry_def Let_def)
qed (simp add: tick_entry_def)

lemma names_after: "map al_name (ah_entries ((Tick ^^ n) h)) = map al_name (ah_entries h)"
  by (induction n) (simp_all add: comp_def)

lemma key_after: "al_trigger_key (after_ticks n a) = al_trigger_key a"
  by (induction n) simp_all

lemma runs_of_fired:
  assumes "distinct (map al_name (ah_entries h))" "i < length (ah_entries h)" "a = ah_entries h ! i"
  shows "runs_of (al_name a) (fired (Suc n) h) =
    runs_of (al_name a) (fired n h) @ (if fires (after_ticks n a) then [(al_trigger_key a, al_name a)] else [])"
proof -
  let ?es = "ah_entries ((Tick ^^ n) h)"
  have i: "i < length ?es" "?es ! i = after_ticks n a" using assms(2,3) by (simp_all add: entries_after)
  moreover have "al_name a = al_name (?es ! i)" using names_after [of n h] i(1) assms(2,3) by (metis nth_map)
  moreover have "distinct (map al_name ?es)" using assms(1) unfolding names_after .
  ultimately have "runs_of (al_name a) (concat (map (fst \<circ> tick_entry) ?es)) =
      (if fires (after_ticks n a) then [(al_trigger_key a, al_name a)] else [])"
    unfolding runs_of_tick using distinct_filter_name [of ?es i fires] by (simp add: key_after)
  then show ?thesis by (simp add: runs_of_def)
qed

text \<open>The macro of the alarm at \<open>i\<close> is run once, at the tick at which its time is over.\<close>

lemma countdown:
  assumes "distinct (map al_name (ah_entries h))" "i < length (ah_entries h)"
    and a: "a = ah_entries h ! i" "al_is_armed a" "al_trigger a = Trigger_Macro"
  shows "runs_of (al_name a) (fired n h) = (if ticks_of a \<le> n then [(al_trigger_key a, al_name a)] else [])"
proof (induction n)
  case 0
  then show ?case by (simp add: ticks_of_def runs_of_def)
next
  case (Suc n)
  note step = runs_of_fired [OF assms(1,2) a(1), of n]
  show ?case
  proof (cases "n < ticks_of a")
    case True
    then show ?thesis using Suc fires_running [OF a(2,3) True] unfolding step by simp
  next
    case False
    then have "\<not> fires (after_ticks n a)" using stopped [OF a(2), of n] by (simp add: fires_def)
    then show ?thesis using Suc False unfolding step by simp
  qed
qed

section \<open>From the prompt to the macro\<close>

text \<open>What the sink hears of an alarm that is armed, and then in \<open>n\<close> ticks.\<close>

definition heard_from :: "alarm_handler \<Rightarrow> alarm_entry \<Rightarrow> int \<Rightarrow> nat \<Rightarrow> alarm_handler \<Rightarrow> bool" where
  "heard_from h a d n g \<longleftrightarrow>
     (\<exists>fs. ah_events ((Tick ^^ n) g) = ah_events h @ Alarm_Armed (al_name a) d # announcements fs \<and>
       runs_of (al_name a) fs = (if max 1 d \<le> int n then [(al_trigger_key a, al_name a)] else []))"

lemma ArmFromPrompt_heard:
  assumes "distinct (map al_name (ah_entries h))" "ah_prompt h" "ah_sink h" "i < length (ah_entries h)"
    and a: "a = ah_entries h ! i" "al_trigger a = Trigger_Macro" and d: "ParseAlarmDuration typed = Some d"
  shows "\<exists>g. ArmFromPrompt i typed h = Some g \<and> (\<forall>n. heard_from h a d n g)"
proof -
  let ?a = "a\<lparr>al_is_armed := True, al_duration := d\<rparr>"
  define g where "g = announce [Alarm_Armed (al_name a) d] (h\<lparr>ah_entries := (ah_entries h)[i := ?a]\<rparr>)"
  have g: "ArmFromPrompt i typed h = Some g" using assms(2) a(1) d by (simp add: ArmFromPrompt_def g_def Let_def)
  have e: "ah_entries g = (ah_entries h)[i := ?a]" "ah_sink g"
    and events: "ah_events g = ah_events h @ [Alarm_Armed (al_name a) d]"
    using assms(3) by (simp_all add: g_def announce_def)
  have "map al_name (ah_entries g) = (map al_name (ah_entries h))[i := al_name a]" unfolding e by (simp add: map_update)
  also have "\<dots> = map al_name (ah_entries h)" using assms(4) a(1) by (metis list_update_id nth_map)
  finally have "distinct (map al_name (ah_entries g))" using assms(1) by (simp only:)
  moreover have "i < length (ah_entries g)" "?a = ah_entries g ! i" using assms(4) unfolding e by simp_all
  moreover have "al_is_armed ?a" "al_trigger ?a = Trigger_Macro" using a(2) by simp_all
  ultimately have "runs_of (al_name ?a) (fired n g) = (if ticks_of ?a \<le> n then [(al_trigger_key ?a, al_name ?a)] else [])" for n
    by (rule countdown)
  moreover have "ticks_of ?a \<le> n \<longleftrightarrow> max 1 d \<le> int n" for n by (auto simp: ticks_of_def)
  ultimately have "heard_from h a d n g" for n
    unfolding heard_from_def events_after [OF e(2)] events by (intro exI [of _ "fired n g"]) simp
  then show ?thesis using g by blast
qed


lemma LoadAlarms_distinct:
  assumes "LoadAlarms xml h0 = (ret, h)"
  shows "distinct (map al_name (ah_entries h))"
proof (cases xml)
  case (Some nodes)
  obtain r e where e: "load_alarms nodes [] = (r, e)" by (cases "load_alarms nodes []")
  have "ah_entries h = e" using assms Some e by (auto simp: LoadAlarms_def announce_def Let_def split: if_splits)
  then show ?thesis using load_alarms_keeps [OF e] by simp
qed (use assms in \<open>auto simp: LoadAlarms_def Let_def\<close>)








text \<open>
  Cancelling the first prompt does not leave the alarm alone: the text is empty, the
  alarm is armed for no time, and the next tick runs its macro.
\<close>

theorem cancelled_prompt_runs_macro:
  assumes "LoadAlarms xml h0 = (ret, h)" "ah_prompt h" "ah_sink h"
    and "i < length (ah_entries h)" "a = ah_entries h ! i" "al_trigger a = Trigger_Macro"
  shows "\<exists>g fs. SetupAlarm i (AskForDuration True None []) h = Some g \<and>
    ah_events (Tick g) = ah_events h @ Alarm_Armed (al_name a) 0 # announcements fs \<and> runs_of (al_name a) fs = [(al_trigger_key a, al_name a)]"
proof -
  have "ParseAlarmDuration [] = Some 0" by (simp add: scanning contains_def str_find_def)
  from ArmFromPrompt_heard [OF LoadAlarms_distinct [OF assms(1)] assms(2-6) this]
  obtain g where g: "ArmFromPrompt i [] h = Some g" "heard_from h a 0 1 g" by blast
  then show ?thesis using assms(4) by (auto simp: SetupAlarm_def AskForDuration_def heard_from_def)
qed

text \<open>What the sink does not hear: an alarm for the panel that is over.\<close>

lemma gui_alarm_is_silent: "al_trigger a = Trigger_Gui \<Longrightarrow> fst (tick_entry a) = []"
  by (simp add: tick_entry_fires fires_def)

text \<open>An alarm that is cancelled in time is not heard of again.\<close>

lemma CancelAlarm_silent:
  assumes "distinct (map al_name (ah_entries h))" "i < length (ah_entries h)"
  shows "runs_of (al_name (ah_entries h ! i)) (fired n (CancelAlarm i h)) = []"
proof -
  let ?a = "(ah_entries h ! i)\<lparr>al_duration := 0, al_is_armed := False\<rparr>" and ?g = "CancelAlarm i h"
  have g: "ah_entries ?g = (ah_entries h)[i := ?a]" by (simp add: CancelAlarm_def)
  have "map al_name (ah_entries ?g) = (map al_name (ah_entries h))[i := al_name (ah_entries h ! i)]" unfolding g by (simp add: map_update)
  also have "\<dots> = map al_name (ah_entries h)" using assms(2) by (metis list_update_id nth_map)
  finally have distinct: "distinct (map al_name (ah_entries ?g))" using assms(1) by (simp only:)
  have at: "i < length (ah_entries ?g)" "?a = ah_entries ?g ! i" using assms(2) unfolding g by simp_all
  have step: "runs_of (al_name ?a) (fired (Suc n) ?g) = runs_of (al_name ?a) (fired n ?g) @
      (if fires (after_ticks n ?a) then [(al_trigger_key ?a, al_name ?a)] else [])" for n
    by (rule runs_of_fired [OF distinct at])
  have still: "after_ticks n ?a = ?a" for n by (induction n) (simp_all add: tick_entry_def)
  have "runs_of (al_name ?a) (fired n ?g) = []"
  proof (induction n)
    case (Suc n)
    then show ?case unfolding step still by (simp add: fires_def)
  qed (simp add: runs_of_def)
  then show ?thesis by simp
qed

end
