(* ===== verification/CommandParams.thy ===== *)
theory CommandParams
  imports NumberText
begin

text \<open>
  The placeholders \<open>[({PARAM:default})]\<close> of a command: substituting values when the command is run,
  collecting the defaults, and writing values back as the new defaults.  Source:
  \<open>src/CommandParams.hpp\<close> and \<open>Command\<close> in \<open>src/CmdExecutor.cpp\<close>.
\<close>

section \<open>Placeholders\<close>

definition kOpen :: string where
  "kOpen = ''[({PARAM:''"

definition kClose :: string where
  "kClose = ''})]''"

record placeholder =
  ph_begin :: nat
  ph_value_begin :: nat
  ph_value_end :: nat

definition ph_end :: "placeholder \<Rightarrow> nat" where
  "ph_end p = ph_value_end p + length kClose"

definition value_length :: "placeholder \<Rightarrow> nat" where
  "value_length p = ph_value_end p - ph_value_begin p"

definition Next :: "string \<Rightarrow> nat \<Rightarrow> placeholder option" where
  "Next text pos =
     (case str_find text kClose (pos + 3) of
        None \<Rightarrow> None
      | Some close \<Rightarrow>
          (let from = (if pos = 0 then 0 else pos - 1) in
           case str_find (take close text) kOpen from of
             None \<Rightarrow> None
           | Some begin \<Rightarrow> Some \<lparr>ph_begin = begin, ph_value_begin = begin + length kOpen, ph_value_end = close\<rparr>))"

lemma Next_bounds:
  assumes "Next text pos = Some p"
  shows "pos - 1 \<le> ph_begin p" "ph_begin p + length kOpen = ph_value_begin p" "ph_value_begin p \<le> ph_value_end p"
    "pos + 3 \<le> ph_value_end p" "ph_end p \<le> length text"
  using assms
  by (auto simp: Next_def ph_end_def str_find_eq_Some Let_def split: option.splits if_splits)

section \<open>The three walks\<close>

text \<open>\<open>pos < m_cmd.length() - 1\<close>; the difference of an empty text wraps around.\<close>

definition in_command :: "string \<Rightarrow> nat \<Rightarrow> bool" where
  "in_command m_cmd pos \<longleftrightarrow> m_cmd = [] \<or> pos < length m_cmd - 1"

text \<open>\<open>erase\<close> and \<open>insert\<close> at the same place.\<close>

definition replace_at :: "nat \<Rightarrow> nat \<Rightarrow> string \<Rightarrow> string \<Rightarrow> string" where
  "replace_at from to new text = take from text @ new @ drop to text"

definition default_text :: "placeholder \<Rightarrow> string \<Rightarrow> string" where
  "default_text p text = take (value_length p) (drop (ph_value_begin p) text)"

function substitute :: "string \<Rightarrow> string list \<Rightarrow> string \<Rightarrow> nat \<Rightarrow> nat \<Rightarrow> string" where
  "substitute m_cmd m_params new_cmd pos param_count =
     (if \<not> in_command m_cmd pos then new_cmd
      else case Next new_cmd pos of
        None \<Rightarrow> new_cmd
      | Some found \<Rightarrow>
          (let fallback = default_text found new_cmd;
               value = (if length m_params \<le> param_count then fallback else m_params ! param_count)
           in substitute m_cmd m_params (replace_at (ph_begin found) (ph_end found) value new_cmd)
                (ph_begin found + length value) (param_count + 1)))"
  by pat_completeness auto

termination
proof (relation "measure (\<lambda>(m_cmd, m_params, new_cmd, pos, param_count). length new_cmd - pos)")
  fix m_cmd :: string and m_params new_cmd pos param_count found fallback and "value" :: string
  assume found: "Next new_cmd pos = Some found"
  have b: "ph_begin found \<le> length new_cmd" "pos < ph_end found" "ph_end found \<le> length new_cmd"
    using Next_bounds [OF found] by (simp_all add: ph_end_def kClose_def)
  then show "((m_cmd, m_params, replace_at (ph_begin found) (ph_end found) value new_cmd, ph_begin found + length value, param_count + 1),
      m_cmd, m_params, new_cmd, pos, param_count) \<in> measure (\<lambda>(m_cmd, m_params, new_cmd, pos, param_count). length new_cmd - pos)"
    by (simp add: replace_at_def)
qed simp

definition HandleParameters :: "string \<Rightarrow> string list \<Rightarrow> string" where
  "HandleParameters m_cmd m_params = substitute m_cmd m_params m_cmd 1 0"

function defaults_from :: "string \<Rightarrow> nat \<Rightarrow> string list" where
  "defaults_from m_cmd pos =
     (if \<not> in_command m_cmd pos then []
      else case Next m_cmd pos of
        None \<Rightarrow> []
      | Some found \<Rightarrow> default_text found m_cmd # defaults_from m_cmd (ph_value_end found))"
  by pat_completeness auto

termination
proof (relation "measure (\<lambda>(m_cmd, pos). length m_cmd - pos)")
  fix m_cmd pos found
  assume found: "Next m_cmd pos = Some found"
  then show "((m_cmd, ph_value_end found), m_cmd, pos) \<in> measure (\<lambda>(m_cmd, pos). length m_cmd - pos)"
    using Next_bounds [OF found] by (simp add: ph_end_def kClose_def)
qed simp

text \<open>The values that \<open>LoadParametersFromString\<close> adds.\<close>

definition LoadParametersFromString :: "string \<Rightarrow> string list" where
  "LoadParametersFromString m_cmd = defaults_from m_cmd 1"

function write_back :: "string \<Rightarrow> string list \<Rightarrow> string \<Rightarrow> nat \<Rightarrow> nat \<Rightarrow> string" where
  "write_back m_cmd m_params new_cmd pos param_count =
     (if \<not> in_command m_cmd pos then new_cmd
      else case Next new_cmd pos of
        None \<Rightarrow> new_cmd
      | Some found \<Rightarrow>
          if length m_params \<le> param_count then new_cmd
          else write_back m_cmd m_params
            (replace_at (ph_value_begin found) (ph_value_begin found + value_length found) (m_params ! param_count) new_cmd)
            (ph_value_begin found + value_length found) (param_count + 1))"
  by pat_completeness auto

termination
proof (relation "measure (\<lambda>(m_cmd, m_params, new_cmd, pos, param_count). length m_params - param_count)")
qed auto

definition SaveParametersToString :: "string \<Rightarrow> string list \<Rightarrow> string" where
  "SaveParametersToString m_cmd m_params = write_back m_cmd m_params m_cmd 1 0"

declare substitute.simps [simp del] defaults_from.simps [simp del] write_back.simps [simp del]

section \<open>Finding a placeholder\<close>

text \<open>A match does not reach past a character that only begins it.\<close>

lemma prefix_stops:
  assumes "prefix p (s @ c # r)" "p \<noteq> []" "c \<notin> set (tl p)" "s = [] \<Longrightarrow> hd p \<noteq> c"
  shows "prefix p s"
proof (cases "length p \<le> length s")
  case True
  show ?thesis by (rule prefix_length_prefix [OF assms(1) prefixI [OF refl] True])
next
  case False
  then have "prefix s p" "p \<noteq> s" using assms(1) prefix_length_prefix [of s "s @ c # r" p] by auto
  then obtain e where e: "p = s @ e" "e \<noteq> []" by (auto simp: prefix_def)
  then obtain x d where x: "p = s @ x # d" by (cases e) auto
  then have "x = c" using assms(1) by simp
  then show ?thesis using assms(3,4) x by (cases s) auto
qed

lemma kOpen_chars: "kOpen \<noteq> []" "hd kOpen = CHR ''[''" "CHR ''['' \<notin> set (tl kOpen)" "CHR ''}'' \<notin> set kOpen" "length kOpen = 9"
  and kClose_chars: "kClose \<noteq> []" "hd kClose = CHR ''}''" "CHR ''}'' \<notin> set (tl kClose)" "CHR ''['' \<notin> set kClose" "length kClose = 3"
  by (simp_all add: kOpen_def kClose_def)

lemma kOpen_Cons: "kOpen = CHR ''['' # tl kOpen" and kClose_Cons: "kClose = CHR ''}'' # tl kClose"
  by (simp_all add: kOpen_def kClose_def)

lemma prefix_sublist: "prefix p (drop j s) \<Longrightarrow> sublist p s"
  by (metis append_take_drop_id prefixE sublist_appendI)

lemma close_not_in_text:
  assumes "\<not> sublist kClose s"
  shows "\<not> prefix kClose (drop j s @ kOpen @ r)"
proof
  assume "prefix kClose (drop j s @ kOpen @ r)"
  then have "prefix kClose (drop j s @ CHR ''['' # tl kOpen @ r)" by (subst (asm) kOpen_Cons) simp
  then have "prefix kClose (drop j s)" by (rule prefix_stops) (auto simp: kClose_def)
  then show False using assms prefix_sublist by blast
qed

lemma close_not_in_default:
  assumes "\<not> sublist kClose d" "j < length d"
  shows "\<not> prefix kClose (drop j d @ kClose @ r)"
proof
  assume "prefix kClose (drop j d @ kClose @ r)"
  then have "prefix kClose (drop j d @ CHR ''}'' # tl kClose @ r)" by (subst (asm) (2) kClose_Cons) simp
  then have "prefix kClose (drop j d)" by (rule prefix_stops) (use assms(2) in \<open>auto simp: kClose_def\<close>)
  then show False using assms prefix_sublist by blast
qed

lemma close_not_in_open: "j < length kOpen \<Longrightarrow> \<not> prefix kClose (drop j kOpen @ r)"
proof
  assume j: "j < length kOpen" "prefix kClose (drop j kOpen @ r)"
  then obtain c cs where c: "drop j kOpen = c # cs" by (cases "drop j kOpen") auto
  then have "c \<in> set kOpen" by (metis in_set_dropD list.set_intros(1))
  moreover have "c = CHR ''}''" using j(2) unfolding c by (simp add: kClose_def)
  ultimately show False using kOpen_chars(4) by blast
qed

lemma open_not_in_text:
  assumes "\<not> sublist kOpen s" "j < length s"
  shows "\<not> prefix kOpen (drop j s @ kOpen @ r)"
proof
  assume "prefix kOpen (drop j s @ kOpen @ r)"
  then have "prefix kOpen (drop j s @ CHR ''['' # tl kOpen @ r)" by (subst (asm) (2) kOpen_Cons) simp
  then have "prefix kOpen (drop j s)" by (rule prefix_stops) (use assms(2) in \<open>auto simp: kOpen_def\<close>)
  then show False using assms prefix_sublist by blast
qed

text \<open>The texts around placeholders: no marker in them, and none that a last character could complete.\<close>

definition unmarked_text :: "string \<Rightarrow> bool" where
  "unmarked_text s \<longleftrightarrow> \<not> sublist kOpen s \<and> \<not> sublist kClose s \<and> \<not> prefix (tl kOpen) s"

lemma open_not_across:
  assumes "unmarked_text s"
  shows "\<not> prefix kOpen (c # s @ kOpen @ r)"
proof
  assume "prefix kOpen (c # s @ kOpen @ r)"
  then have "prefix (tl kOpen) (s @ kOpen @ r)" by (metis Cons_prefix_Cons kOpen_Cons)
  then have "prefix (tl kOpen) (s @ CHR ''['' # tl kOpen @ r)" by (metis append_Cons kOpen_Cons)
  then have "prefix (tl kOpen) s" by (rule prefix_stops) (auto simp: kOpen_def)
  then show False using assms by (simp add: unmarked_text_def)
qed

text \<open>
  The next placeholder after \<open>v\<close>, a text that is searched no more but for its last three
  characters: the closing marker is looked for from \<open>pos + 3\<close>, the opening one from \<open>pos - 1\<close>.
\<close>

lemma Next_found:
  assumes "pos + 3 \<le> length u + 9 + length d" "pos - 1 \<le> length u"
    and "\<And>j. pos + 3 \<le> j \<Longrightarrow> j < length u \<Longrightarrow> \<not> prefix kClose (drop j (u @ kOpen @ d @ kClose @ r))"
    and "\<And>j. pos - 1 \<le> j \<Longrightarrow> j < length u \<Longrightarrow> \<not> prefix kOpen (drop j (u @ kOpen @ d))"
    and d: "\<not> sublist kClose d"
  shows "Next (u @ kOpen @ d @ kClose @ r) pos =
    Some \<lparr>ph_begin = length u, ph_value_begin = length u + 9, ph_value_end = length u + 9 + length d\<rparr>"
proof -
  let ?text = "u @ kOpen @ d @ kClose @ r" and ?close = "length u + 9 + length d"
  have "\<not> prefix kClose (drop j ?text)" if j: "pos + 3 \<le> j" "j < ?close" for j
  proof -
    consider "j < length u" | i where "j = length u + i" "i < 9" | i where "j = length u + 9 + i" "i < length d"
      using j(2) by (metis add_less_cancel_left less_diff_conv2 linorder_not_less nat_le_iff_add)
    then show ?thesis
    proof cases
      case 1
      then show ?thesis using assms(3) j(1) by blast
    next
      case 2
      then show ?thesis using close_not_in_open [of i "d @ kClose @ r"] by (simp add: kOpen_chars(5))
    next
      case 3
      then show ?thesis using close_not_in_default [OF d 3(2), of r] by (simp add: kOpen_chars(5))
    qed
  qed
  then have close: "str_find ?text kClose (pos + 3) = Some ?close"
    using str_find_at [of "pos + 3" "u @ kOpen @ d" kClose r] assms(1) by (simp add: kOpen_chars(5) add.assoc)
  have "str_find (u @ kOpen @ d) kOpen (pos - 1) = Some (length u)"
    using assms(2,4) by (intro str_find_at) simp_all
  moreover have "take ?close ?text = u @ kOpen @ d" by (simp add: kOpen_chars(5))
  moreover have "(if pos = 0 then 0 else pos - 1) = pos - 1" by simp
  ultimately show ?thesis by (simp only: Next_def close option.case Let_def kOpen_chars(5))
qed

lemma Next_none:
  assumes "\<not> sublist kClose (drop (pos + 3) text)"
  shows "Next text pos = None"
proof -
  have "str_find text kClose (pos + 3) = None" using assms by (subst str_find_eq_None) (simp_all add: kClose_chars)
  then show ?thesis by (simp add: Next_def)
qed

text \<open>After a text \<open>v\<close> that was just written or skipped, over plain text.\<close>

lemma Next_after:
  assumes "unmarked_text t" "\<not> sublist kClose d" "pos = length v \<or> v = [] \<and> pos = 1"
  shows "Next (v @ t @ kOpen @ d @ kClose @ r) pos =
    Some \<lparr>ph_begin = length v + length t, ph_value_begin = length v + length t + 9,
      ph_value_end = length v + length t + 9 + length d\<rparr>"
proof -
  have t: "\<not> sublist kClose t" "\<not> sublist kOpen t" using assms(1) by (simp_all add: unmarked_text_def)
  have "\<not> prefix kClose (drop j ((v @ t) @ kOpen @ d @ kClose @ r))" if "pos + 3 \<le> j" "j < length (v @ t)" for j
    using that assms(3) close_not_in_text [OF t(1), of "j - length v" "d @ kClose @ r"] by auto
  moreover have "\<not> prefix kOpen (drop j ((v @ t) @ kOpen @ d))" if j: "pos - 1 \<le> j" "j < length (v @ t)" for j
  proof (cases "j < length v")
    case True
    then have "v \<noteq> []" "j = length v - 1" using assms(3) j(1) by auto
    then have "drop j v = [last v]" by (metis append_butlast_last_id append_eq_conv_conj length_butlast)
    then show ?thesis using open_not_across [OF assms(1), of "last v" d] True by simp
  next
    case False
    then show ?thesis using open_not_in_text [OF t(2), of "j - length v" d] j(2) by simp
  qed
  moreover have "pos + 3 \<le> length (v @ t) + 9 + length d" "pos - 1 \<le> length (v @ t)" using assms(3) by auto
  ultimately show ?thesis using Next_found [of pos "v @ t" d r] assms(2) by simp
qed

section \<open>Commands as templates\<close>

text \<open>Texts with their defaults, and the text after the last of them.\<close>

fun template_text :: "(string \<times> string) list \<Rightarrow> string \<Rightarrow> string" where
  "template_text [] tail = tail"
| "template_text ((t, d) # ps) tail = t @ kOpen @ d @ kClose @ template_text ps tail"

text \<open>A value for each placeholder, the default where there is none.\<close>

fun filled :: "(string \<times> string) list \<Rightarrow> string list \<Rightarrow> string \<Rightarrow> string" where
  "filled [] vs tail = tail"
| "filled ((t, d) # ps) vs tail = t @ (case vs of [] \<Rightarrow> d | v # _ \<Rightarrow> v) @ filled ps (tl vs) tail"

definition template_ok :: "(string \<times> string) list \<Rightarrow> string \<Rightarrow> bool" where
  "template_ok ps tail \<longleftrightarrow> list_all (\<lambda>(t, d). unmarked_text t \<and> \<not> sublist kClose d \<and> \<not> sublist kOpen d) ps \<and> unmarked_text tail"

lemma template_ok_Cons [simp]:
  "template_ok ((t, d) # ps) tail \<longleftrightarrow> unmarked_text t \<and> \<not> sublist kClose d \<and> \<not> sublist kOpen d \<and> template_ok ps tail"
  "template_ok [] tail \<longleftrightarrow> unmarked_text tail"
  by (auto simp: template_ok_def)

text \<open>No value is longer than the placeholder it replaces, markers included.\<close>

definition values_fit :: "(string \<times> string) list \<Rightarrow> string list \<Rightarrow> bool" where
  "values_fit ps vs \<longleftrightarrow> list_all (\<lambda>((t, d), v). length v \<le> length d + 12) (zip ps vs)"

lemma Next_tail:
  assumes "unmarked_text tail" "pos = length v \<or> v = [] \<and> pos = 1"
  shows "Next (v @ tail) pos = None"
proof (rule Next_none)
  have "suffix (drop (pos + 3) (v @ tail)) tail" using assms(2) by (auto simp: suffix_drop)
  then show "\<not> sublist kClose (drop (pos + 3) (v @ tail))" using assms(1)
    by (metis unmarked_text_def sublist_append_leftI sublist_order.order_trans suffixE)
qed

text \<open>A placeholder that was found: what it marks, and what replacing it or its default gives.\<close>

definition hole :: "string \<Rightarrow> string \<Rightarrow> placeholder" where
  "hole u d = \<lparr>ph_begin = length u, ph_value_begin = length u + 9, ph_value_end = length u + 9 + length d\<rparr>"

lemma hole_at:
  "default_text (hole u d) (u @ kOpen @ d @ r) = d"
  "replace_at (ph_begin (hole u d)) (ph_end (hole u d)) x (u @ kOpen @ d @ kClose @ r) = u @ x @ r"
  "replace_at (ph_value_begin (hole u d)) (ph_value_begin (hole u d) + value_length (hole u d)) x (u @ kOpen @ d @ r) = u @ kOpen @ x @ r"
  "ph_begin (hole u d) = length u" "ph_value_begin (hole u d) + value_length (hole u d) = length (u @ kOpen @ d)"
  "ph_value_end (hole u d) = length (u @ kOpen @ d)"
  by (simp_all add: hole_def default_text_def value_length_def replace_at_def ph_end_def kOpen_chars(5) kClose_chars(5))

text \<open>One round of each walk.\<close>

lemma substitute_step:
  assumes "Next (u @ kOpen @ d @ kClose @ r) pos = Some (hole u d)" "in_command m_cmd pos"
  shows "substitute m_cmd params (u @ kOpen @ d @ kClose @ r) pos k =
    (let x = (if length params \<le> k then d else params ! k) in substitute m_cmd params (u @ x @ r) (length (u @ x)) (Suc k))"
proof -
  have "substitute m_cmd params (u @ kOpen @ d @ kClose @ r) pos k =
    (let x = (if length params \<le> k then d else params ! k)
     in substitute m_cmd params (replace_at (ph_begin (hole u d)) (ph_end (hole u d)) x (u @ kOpen @ d @ kClose @ r))
          (ph_begin (hole u d) + length x) (Suc k))"
    using assms hole_at(1) [of u d "kClose @ r"]
    by (subst substitute.simps) (simp only: option.case Let_def Suc_eq_plus1 simp_thms if_False)
  then show ?thesis unfolding hole_at(2) unfolding hole_at(4) length_append .
qed

lemma defaults_step:
  assumes "Next (u @ kOpen @ d @ kClose @ r) pos = Some (hole u d)" "in_command (u @ kOpen @ d @ kClose @ r) pos"
  shows "defaults_from (u @ kOpen @ d @ kClose @ r) pos = d # defaults_from (u @ kOpen @ d @ kClose @ r) (length (u @ kOpen @ d))"
  using assms by (subst defaults_from.simps) (simp only: option.case simp_thms if_False hole_at(6) hole_at(1) [of u d "kClose @ r"])

lemma write_back_step:
  assumes "Next (u @ kOpen @ d @ kClose @ r) pos = Some (hole u d)" "in_command m_cmd pos" "k < length params"
  shows "write_back m_cmd params (u @ kOpen @ d @ kClose @ r) pos k =
    write_back m_cmd params (u @ kOpen @ params ! k @ kClose @ r) (length (u @ kOpen @ d)) (Suc k)"
proof -
  have "write_back m_cmd params (u @ kOpen @ d @ kClose @ r) pos k =
    write_back m_cmd params (replace_at (ph_value_begin (hole u d)) (ph_value_begin (hole u d) + value_length (hole u d)) (params ! k)
      (u @ kOpen @ d @ kClose @ r)) (ph_value_begin (hole u d) + value_length (hole u d)) (Suc k)"
    using assms by (subst write_back.simps) simp
  then show ?thesis unfolding hole_at(3) unfolding hole_at(5) .
qed

lemma in_command_hole: "in_command (u @ kOpen @ d @ kClose @ r) pos \<longleftrightarrow> pos < length u + 11 + length d + length r"
  by (auto simp: in_command_def kOpen_chars kClose_chars)

lemma substitute_template:
  assumes "template_ok ps tail" "values_fit ps (drop k params)" "pos = length v \<or> v = [] \<and> pos = 1"
    and "length v + length (template_text ps tail) \<le> length m_cmd"
  shows "substitute m_cmd params (v @ template_text ps tail) pos k = v @ filled ps (drop k params) tail"
  using assms
proof (induction ps arbitrary: v pos k)
  case Nil
  then show ?case by (simp add: substitute.simps [of m_cmd params "v @ tail"] Next_tail)
next
  case (Cons p ps)
  obtain t d where p: "p = (t, d)" by (cases p)
  let ?r = "template_text ps tail"
  define x where "x = (if length params \<le> k then d else params ! k)"
  have x: "(case drop k params of [] \<Rightarrow> d | v # _ \<Rightarrow> v) = x"
    by (cases "k < length params") (simp_all add: x_def Cons_nth_drop_Suc [symmetric])
  have tl: "tl (drop k params) = drop (Suc k) params" by (simp add: drop_Suc tl_drop)
  have "length x \<le> length d + 12 \<and> values_fit ps (drop (Suc k) params)"
    using Cons.prems(2) p
    by (cases "k < length params") (auto simp: values_fit_def x_def Cons_nth_drop_Suc [symmetric])
  then have rest: "length (v @ t @ x) + length ?r \<le> length m_cmd" "values_fit ps (drop (Suc k) params)"
    using Cons.prems(4) by (simp_all add: p kOpen_chars kClose_chars)
  have inside: "in_command m_cmd pos" using Cons.prems(3,4) by (auto simp: in_command_def p kOpen_chars kClose_chars)
  have "Next ((v @ t) @ kOpen @ d @ kClose @ ?r) pos = Some (hole (v @ t) d)" using Cons.prems(1,3) p by (simp add: hole_def Next_after)
  from substitute_step [OF this inside, of params k]
  have "substitute m_cmd params (v @ t @ kOpen @ d @ kClose @ ?r) pos k =
      substitute m_cmd params ((v @ t @ x) @ ?r) (length (v @ t @ x)) (Suc k)"
    by (simp add: Let_def x_def add.assoc)
  also have "\<dots> = (v @ t @ x) @ filled ps (drop (Suc k) params) tail"
    using Cons.prems(1) p rest by (intro Cons.IH) simp_all
  finally show ?case by (simp add: p x tl)
qed

text \<open>
  Running a command replaces every placeholder, in order, by its value or, without one, by its
  default, and nothing else, whatever the values are: also if they hold markers themselves.
\<close>

theorem HandleParameters_fills:
  assumes "template_ok ps tail" "values_fit ps m_params"
  shows "HandleParameters (template_text ps tail) m_params = filled ps m_params tail"
  using substitute_template [of ps tail 0 m_params 1 "[]"] assms by (simp add: HandleParameters_def)

lemma sample_template:
  "template_ok [(''ping '', ''host''), ('' -n '', ''3'')] ''''"
  by (simp add: unmarked_text_def kOpen_def kClose_def sublist_Cons_right prefix_Cons)

theorem HandleParameters_fills_witness:
  "HandleParameters ''ping [({PARAM:host})] -n [({PARAM:3})]'' [''[({PARAM:x})]''] = ''ping [({PARAM:x})] -n 3''"
  using HandleParameters_fills [OF sample_template, of "[''[({PARAM:x})]'']"]
  by (simp add: kOpen_def kClose_def values_fit_def)

text \<open>
  The walk ends where the command ended before anything was replaced: after a value that is
  longer than the rest of the command, the other placeholders are run as they stand.
\<close>

lemma long_value_leaves_placeholders:
  assumes "template_ok ((t, d) # ps) tail" "params = x # xs"
    and "length (template_text ((t, d) # ps) tail) \<le> length t + length x + 1"
  shows "HandleParameters (template_text ((t, d) # ps) tail) params = t @ x @ template_text ps tail"
proof -
  let ?r = "template_text ps tail" and ?text = "t @ kOpen @ d @ kClose @ template_text ps tail"
  have "Next ?text 1 = Some (hole t d)" using assms(1) Next_after [of t d 1 "[]" ?r] by (simp add: hole_def)
  moreover have "in_command ?text 1" by (simp add: in_command_hole)
  ultimately have "substitute ?text params ?text 1 0 = substitute ?text params (t @ x @ ?r) (length t + length x) 1"
    using assms(2) substitute_step [of t d ?r 1 ?text params 0] by simp
  also have "\<dots> = t @ x @ ?r"
    using assms(3) by (subst substitute.simps) (auto simp: in_command_def kOpen_def)
  finally show ?thesis by (simp add: HandleParameters_def)
qed

lemma second_placeholder_left:
  "HandleParameters ''cp [({PARAM:a})] [({PARAM:b})]'' [''C:/one/rather/long/file.txt'', ''D:''] = ''cp C:/one/rather/long/file.txt [({PARAM:b})]''"
proof -
  have "template_ok [(''cp '', ''a''), ('' '', ''b'')] ''''"
    by (simp add: unmarked_text_def kOpen_def kClose_def sublist_Cons_right prefix_Cons)
  then show ?thesis
    using long_value_leaves_placeholders [of "''cp ''" "''a''" "[('' '', ''b'')]" "''''" _ "''C:/one/rather/long/file.txt''"]
    by (simp add: kOpen_def kClose_def)
qed

section \<open>Values as defaults\<close>

text \<open>Behind a placeholder with value \<open>x\<close>, searching from inside or just behind the value.\<close>

lemma Next_behind:
  assumes "unmarked_text t" "\<not> sublist kClose d" "\<not> sublist kOpen x" "v = w @ kOpen @ x @ kClose"
    and "length (w @ kOpen) \<le> pos" "length (w @ kOpen @ x) < pos + 3" "pos \<le> length (v @ t) + 1"
  shows "Next (v @ t @ kOpen @ d @ kClose @ r) pos = Some (hole (v @ t) d)"
proof -
  have t: "\<not> sublist kClose t" "\<not> sublist kOpen t" using assms(1) by (simp_all add: unmarked_text_def)
  let ?w = "w @ kOpen"
  have v: "drop j v = drop (j - length w - 9) (x @ kClose)" if "length ?w \<le> j" for j
    using that by (simp add: assms(4) kOpen_chars(5))
  have "\<not> prefix kClose (drop j ((v @ t) @ kOpen @ d @ kClose @ r))" if j: "pos + 3 \<le> j" "j < length (v @ t)" for j
  proof (cases "j < length v")
    case True
    then have "j - length w - 9 - length x \<in> {1, 2}" "length x \<le> j - length w - 9"
      using j(1) assms(6) by (auto simp: assms(4) kOpen_chars(5) kClose_chars(5))
    then have "drop j v = drop 1 kClose \<or> drop j v = drop 2 kClose"
      using v [of j] j(1) assms(5) by (auto simp: )
    then show ?thesis using True by (auto simp: kClose_def)
  next
    case False
    then show ?thesis using close_not_in_text [OF t(1), of "j - length v" "d @ kClose @ r"] j(2) by simp
  qed
  moreover have "\<not> prefix kOpen (drop j ((v @ t) @ kOpen @ d))" if j: "pos - 1 \<le> j" "j < length (v @ t)" for j
  proof (cases "j < length v")
    case True
    show ?thesis
    proof (cases "length ?w \<le> j")
      case False
      then have "j = length w + 8" using j(1) assms(5) by (simp add: kOpen_chars(5))
      then have "drop j v = CHR '':'' # x @ kClose" by (simp add: assms(4) kOpen_def)
      then show ?thesis using True by (simp add: kOpen_def)
    next
      case in_value: True
      let ?i = "j - length w - 9"
      have d: "drop j v = drop ?i x @ drop (?i - length x) kClose" using v [OF in_value] by simp
      have less: "?i - length x < 3" using True in_value by (simp add: assms(4) kOpen_chars(5) kClose_chars(5))
      show ?thesis
      proof
        assume p: "prefix kOpen (drop j ((v @ t) @ kOpen @ d))"
        have "drop j ((v @ t) @ kOpen @ d) = drop ?i x @ drop (?i - length x) kClose @ t @ kOpen @ d" using True d by simp
        moreover obtain c cs where c: "drop (?i - length x) kClose = c # cs" "c \<noteq> CHR ''[''" "c \<notin> set kOpen"
          using less by (cases "?i - length x" rule: nat.exhaust; cases "?i - length x - 1") (auto simp: kClose_def kOpen_def numeral_3_eq_3)
        ultimately have "prefix kOpen (drop ?i x @ c # cs @ t @ kOpen @ d)" using p by simp
        then have "prefix kOpen (drop ?i x)" by (rule prefix_stops) (use c kOpen_chars in \<open>auto dest: list.set_sel(2)\<close>)
        then show False using assms(3) prefix_sublist by blast
      qed
    qed
  next
    case False
    then show ?thesis using open_not_in_text [OF t(2), of "j - length v" d] j(2) by simp
  qed
  moreover have "pos + 3 \<le> length (v @ t) + 9 + length d" "pos - 1 \<le> length (v @ t)" using assms(7) by auto
  ultimately show ?thesis using Next_found [of pos "v @ t" d r] assms(2) by (simp add: hole_def)
qed

text \<open>The defaults, in order.\<close>

lemma defaults_from_behind:
  assumes "template_ok ps tail" "v = w @ kOpen @ x @ kClose" "\<not> sublist kOpen x" "pos = length (w @ kOpen @ x)"
  shows "defaults_from (v @ template_text ps tail) pos = map snd ps"
  using assms
proof (induction ps arbitrary: v w x pos)
  case Nil
  have "drop (pos + 3) (v @ tail) = tail" using Nil.prems(2,4) by (simp add: kClose_chars(5))
  then have "Next (v @ tail) pos = None" using Nil.prems(1) by (intro Next_none) (simp add: unmarked_text_def)
  then show ?case by (simp add: defaults_from.simps [of "v @ tail"])
next
  case (Cons p ps)
  obtain t d where p: "p = (t, d)" by (cases p)
  let ?u = "v @ t" and ?r = "template_text ps tail"
  let ?text = "(v @ t) @ kOpen @ d @ kClose @ ?r"
  have "Next ?text pos = Some (hole ?u d)" using Next_behind [of t d x v w pos ?r] Cons.prems p by simp
  moreover have "in_command ?text pos" using Cons.prems(2,4) unfolding in_command_hole by simp
  ultimately have "defaults_from ?text pos = d # defaults_from ?text (length (?u @ kOpen @ d))" by (rule defaults_step)
  also have "defaults_from ?text (length (?u @ kOpen @ d)) = map snd ps"
    using Cons.IH [of "?u @ kOpen @ d @ kClose" ?u d] Cons.prems(1) p by simp
  finally show ?case by (simp add: p)
qed

theorem LoadParametersFromString_defaults:
  assumes "template_ok ps tail"
  shows "LoadParametersFromString (template_text ps tail) = map snd ps"
proof (cases ps)
  case Nil
  then have "Next tail 1 = None" using assms Next_tail [of tail 1 "[]"] by simp
  then show ?thesis using Nil by (simp add: LoadParametersFromString_def defaults_from.simps [of tail])
next
  case (Cons p qs)
  obtain t d where p: "p = (t, d)" by (cases p)
  let ?r = "template_text qs tail"
  let ?text = "t @ kOpen @ d @ kClose @ ?r"
  have "Next ?text 1 = Some (hole t d)" using assms Cons p Next_after [of t d 1 "[]" ?r] by (simp add: hole_def)
  moreover have "in_command ?text 1" unfolding in_command_hole by simp
  ultimately have "defaults_from ?text 1 = d # defaults_from ?text (length (t @ kOpen @ d))" by (rule defaults_step)
  also have "defaults_from ?text (length (t @ kOpen @ d)) = map snd qs"
    using defaults_from_behind [of qs tail "t @ kOpen @ d @ kClose" t d] assms Cons p by simp
  finally show ?thesis by (simp add: LoadParametersFromString_def Cons p)
qed

text \<open>Values that can be written back: without markers, not longer than the default and not much shorter.\<close>

definition value_ok :: "(string \<times> string) \<times> string \<Rightarrow> bool" where
  "value_ok = (\<lambda>((t, d), v). \<not> sublist kOpen v \<and> \<not> sublist kClose v \<and> length v \<le> length d \<and> length d \<le> length v + 4)"

fun with_defaults :: "(string \<times> string) list \<Rightarrow> string list \<Rightarrow> (string \<times> string) list" where
  "with_defaults [] vs = []"
| "with_defaults ((t, d) # ps) [] = (t, d) # ps"
| "with_defaults ((t, d) # ps) (v # vs) = (t, v) # with_defaults ps vs"

lemma write_back_behind:
  assumes "template_ok ps tail" "list_all value_ok (zip ps (drop k params))" "v = w @ kOpen @ x @ kClose" "\<not> sublist kOpen x"
    and "length (w @ kOpen @ x) \<le> pos" "pos \<le> length v + 1"
    and "length v + length (template_text ps tail) \<le> length m_cmd"
  shows "write_back m_cmd params (v @ template_text ps tail) pos k = v @ template_text (with_defaults ps (drop k params)) tail"
  using assms
proof (induction ps arbitrary: v w x pos k)
  case Nil
  have "suffix (drop (pos + 3) (v @ tail)) tail"
    using Nil.prems(3,5) by (auto simp: kClose_chars(5) suffix_drop)
  then have "\<not> sublist kClose (drop (pos + 3) (v @ tail))" using Nil.prems(1)
    by (metis unmarked_text_def sublist_append_leftI sublist_order.order_trans suffixE template_ok_Cons(2))
  then show ?case by (simp add: write_back.simps [of m_cmd params "v @ tail"] Next_none)
next
  case (Cons p ps)
  obtain t d where p: "p = (t, d)" by (cases p)
  let ?u = "v @ t" and ?r = "template_text ps tail"
  let ?text = "(v @ t) @ kOpen @ d @ kClose @ ?r"
  have found: "Next ?text pos = Some (hole ?u d)"
    using Next_behind [of t d x v w pos ?r] Cons.prems p by simp
  have inside: "in_command m_cmd pos" using Cons.prems(6,7) by (auto simp: p in_command_def kOpen_chars kClose_chars)
  show ?case
  proof (cases "k < length params")
    case False
    then show ?thesis using found inside by (subst write_back.simps) (simp add: p)
  next
    case True
    let ?y = "params ! k"
    have drop: "drop k params = ?y # drop (Suc k) params" using True by (simp add: Cons_nth_drop_Suc)
    have y: "\<not> sublist kOpen ?y" "length ?y \<le> length d" "length d \<le> length ?y + 4"
      and rest: "list_all value_ok (zip ps (drop (Suc k) params))"
      using Cons.prems(2) by (simp_all add: drop p value_ok_def)
    have "write_back m_cmd params ?text pos k =
        write_back m_cmd params (?u @ kOpen @ ?y @ kClose @ ?r) (length (?u @ kOpen @ d)) (Suc k)"
      using write_back_step [OF found inside True] by simp
    also have "\<dots> = (?u @ kOpen @ ?y @ kClose) @ template_text (with_defaults ps (drop (Suc k) params)) tail"
      using Cons.IH [of "Suc k" "?u @ kOpen @ ?y @ kClose" ?u ?y "length (?u @ kOpen @ d)"] Cons.prems(1,7) p y rest
      by (simp add: kClose_chars(5))
    finally show ?thesis by (simp add: p drop)
  qed
qed

lemma write_back_from_start:
  assumes "template_ok ((t, d) # ps) tail" "value_ok ((t, d), y)" "list_all value_ok (zip ps ys)"
  shows "SaveParametersToString (template_text ((t, d) # ps) tail) (y # ys) = template_text ((t, y) # with_defaults ps ys) tail"
proof -
  let ?r = "template_text ps tail"
  let ?text = "t @ kOpen @ d @ kClose @ ?r"
  have y: "\<not> sublist kOpen y" "length y \<le> length d" "length d \<le> length y + 4" using assms(2) by (simp_all add: value_ok_def)
  have "Next ?text 1 = Some (hole t d)" using assms(1) Next_after [of t d 1 "[]" ?r] by (simp add: hole_def)
  moreover have "in_command ?text 1" by (simp add: in_command_hole)
  ultimately have "write_back ?text (y # ys) ?text 1 0 =
      write_back ?text (y # ys) (t @ kOpen @ y @ kClose @ ?r) (length (t @ kOpen @ d)) 1"
    using write_back_step [of t d ?r 1 ?text 0 "y # ys"] by simp
  also have "\<dots> = (t @ kOpen @ y @ kClose) @ template_text (with_defaults ps ys) tail"
    using write_back_behind [of ps tail 1 "y # ys" "t @ kOpen @ y @ kClose" t y "length (t @ kOpen @ d)" ?text] assms y
    by (simp add: kClose_chars(5))
  finally show ?thesis by (simp add: SaveParametersToString_def)
qed

lemma with_defaults_ok:
  "template_ok ps tail \<Longrightarrow> list_all value_ok (zip ps vs) \<Longrightarrow> length vs = length ps \<Longrightarrow>
    template_ok (with_defaults ps vs) tail \<and> map snd (with_defaults ps vs) = vs"
  by (induction ps vs rule: with_defaults.induct) (auto simp: value_ok_def)

text \<open>
  Values of a command that are written into its text when the commands are saved are its
  defaults when that text is loaded, and the text is otherwise unchanged, if no value holds a
  marker, is longer than the default it replaces or more than four characters shorter.
\<close>

theorem saved_parameters_reload:
  assumes "template_ok ps tail" "list_all value_ok (zip ps vs)" "length vs = length ps"
  shows "SaveParametersToString (template_text ps tail) vs = template_text (with_defaults ps vs) tail \<and>
    LoadParametersFromString (SaveParametersToString (template_text ps tail) vs) = vs"
proof -
  have "SaveParametersToString (template_text ps tail) vs = template_text (with_defaults ps vs) tail"
  proof (cases ps)
    case Nil
    then have "Next tail 1 = None" using assms(1) Next_tail [of tail 1 "[]"] by simp
    then show ?thesis using Nil by (simp add: SaveParametersToString_def write_back.simps [of tail])
  next
    case (Cons p qs)
    obtain t d y ys where "p = (t, d)" "vs = y # ys" using assms(3) Cons by (cases p; cases vs) auto
    then show ?thesis using write_back_from_start [of t d qs tail y ys] assms(1,2) Cons by simp
  qed
  then show ?thesis using with_defaults_ok [OF assms] LoadParametersFromString_defaults by simp
qed

theorem saved_parameters_reload_witness:
  "SaveParametersToString ''ping [({PARAM:host})] -n [({PARAM:3})]'' [''dns'', ''5''] = ''ping [({PARAM:dns})] -n [({PARAM:5})]'' \<and>
   LoadParametersFromString ''ping [({PARAM:dns})] -n [({PARAM:5})]'' = [''dns'', ''5'']"
proof -
  have "list_all value_ok (zip [(''ping '', ''host''), ('' -n '', ''3'')] [''dns'', ''5''])"
    by (simp add: kOpen_def kClose_def value_ok_def sublist_Cons_right prefix_Cons)
  from saved_parameters_reload [OF sample_template this]
  show ?thesis by (auto simp: kOpen_def kClose_def)
qed

text \<open>
  The walk goes on where the old value ended: after a value that is three or more characters
  longer it finds the closing marker of the same placeholder again, and stops.  The values
  after it are not saved.
\<close>

lemma longer_value_stops_saving:
  assumes "template_ok ((t, d) # ps) tail" "length d + 3 \<le> length y" "\<not> sublist kOpen y" "\<not> sublist kClose y"
  shows "SaveParametersToString (template_text ((t, d) # ps) tail) (y # ys) = template_text ((t, y) # ps) tail"
proof -
  let ?r = "template_text ps tail" and ?w = "t @ kOpen"
  let ?text = "t @ kOpen @ d @ kClose @ ?r" and ?saved = "t @ kOpen @ y @ kClose @ ?r" and ?pos = "length (t @ kOpen @ d)"
  have first: "Next ?text 1 = Some (hole t d)" using assms(1) Next_after [of t d 1 "[]" ?r] by (simp add: hole_def)
  moreover have "in_command ?text 1" by (simp add: in_command_hole)
  ultimately have "write_back ?text (y # ys) ?text 1 0 = write_back ?text (y # ys) ?saved ?pos 1"
    using write_back_step [of t d ?r 1 ?text 0 "y # ys"] by simp
  also have "Next ?saved ?pos = None"
  proof -
    have "\<not> prefix kClose (drop j ((?w @ y) @ kClose @ ?r))" if "?pos + 3 \<le> j" "j < length (?w @ y)" for j
      using that close_not_in_default [OF assms(4), of "j - length ?w" ?r] by simp
    then have close: "str_find ?saved kClose (?pos + 3) = Some (length (?w @ y))"
      using str_find_at [of "?pos + 3" "?w @ y" kClose ?r] assms(2) by simp
    have "drop (?pos - 1) (?w @ y) = (if d = [] then CHR '':'' # y else drop (length d - 1) y)"
      by (cases d) (simp_all add: kOpen_chars(5), simp add: kOpen_def)
    moreover have "\<not> sublist kOpen (CHR '':'' # y)" using assms(3) by (auto simp: sublist_Cons_right kOpen_def)
    moreover have "\<not> sublist kOpen (drop (length d - 1) y)" using assms(3) by (meson sublist_drop sublist_order.order_trans)
    ultimately have "\<not> sublist kOpen (drop (?pos - 1) (?w @ y))" by presburger
    then have "str_find (?w @ y) kOpen (?pos - 1) = None" by (subst str_find_eq_None) (simp_all add: kOpen_chars)
    moreover have "take (length (?w @ y)) ?saved = ?w @ y" by simp
    moreover have "(if ?pos = 0 then 0 else ?pos - 1) = ?pos - 1" by simp
    ultimately show ?thesis by (simp only: Next_def close option.case Let_def)
  qed
  then have "write_back ?text (y # ys) ?saved ?pos 1 = ?saved" by (subst write_back.simps) simp
  finally show ?thesis by (simp add: SaveParametersToString_def)
qed

end
