(* ===== verification/CmdExecutor.thy ===== *)
theory CmdExecutor
  imports CommandParams ScanText CanFiles
begin

text \<open>
  The command pages: buttons with commands, in columns on named pages, their file, and running
  them.  Source: \<open>src/CmdExecutor.cpp\<close>, \<open>src/CmdExecutor.hpp\<close>, \<open>src/interface/ICmdExecutor.hpp\<close>,
  \<open>src/automation/CommandTextResolver.cpp\<close> and \<open>src/utils/ColorCode.hpp\<close>.  The panel that shows the
  pages is only told of changes, and is not modelled; the resolver of a command's text and the
  starting of processes are its interfaces: the first is an argument, of the second the requests
  are collected in order.  As for the other XML files an element is the record of what is read
  from it.  Page and column numbers are below 256; a scale is the word of a 32-bit float.
\<close>

section \<open>Colours\<close>

definition kColorNames :: "(string \<times> u32) list" where
  "kColorNames =
     [(''red'', 0xFF0000), (''green'', 0x33FF33), (''blue'', 0x6495ED), (''orange'', 0xFF7F50), (''white'', 0xFFFFFF),
      (''black'', 0x000000), (''pink'', 0xFF10F0)]"

definition ParseColor :: "string \<Rightarrow> u32 option" where
  "ParseColor text =
     (case map_of kColorNames text of
        Some value \<Rightarrow> Some value
      | None \<Rightarrow>
          ReadHexChild
            (if starts_with text ''#'' then drop 1 text
             else if starts_with text ''0x'' \<or> starts_with text ''0X'' then drop 2 text else text))"

definition FormatColor :: "u32 \<Rightarrow> string" where
  "FormatColor value =
     (case find (\<lambda>(name, named_value). named_value = value) kColorNames of
        Some (name, _) \<Rightarrow> name
      | None \<Rightarrow> ''0x'' @ hex_text (unat value))"

definition ColorStringToInt :: "string \<Rightarrow> u32" where
  "ColorStringToInt text = (case ParseColor text of None \<Rightarrow> 0 | Some parsed \<Rightarrow> parsed)"

section \<open>Commands\<close>

record command =
  cd_name :: string
  cd_cmd :: string
  cd_icon :: string
  cd_hidden :: bool
  cd_color :: u32
  cd_bg_color :: u32
  cd_bold :: bool
  cd_font_face :: string
  cd_scale :: u32
  cd_min_size :: "int \<times> int"
  cd_use_sizer :: bool
  cd_add_to_prev_sizer :: bool
  cd_params :: "string list"

definition one_scale :: u32 where "one_scale = 0x3F800000"
definition two_scale :: u32 where "two_scale = 0x40000000"

definition no_size :: "int \<times> int" where "no_size = (- 1, - 1)"

definition IsDefault :: "int \<times> int \<Rightarrow> bool" where
  "IsDefault s \<longleftrightarrow> fst s < 0 \<or> snd s < 0"

text \<open>Both constructors collect the defaults of the text, the copying one too: the values of the original are not copied.\<close>

definition with_params :: "command \<Rightarrow> command" where
  "with_params c = c\<lparr>cd_params := LoadParametersFromString (cd_cmd c)\<rparr>"

definition new_command :: command where
  "new_command = with_params
     \<lparr>cd_name = ''New cmd, empty'', cd_cmd = ''& ping 127.0.0.1 -n 3 > nul'', cd_icon = [], cd_hidden = False, cd_color = 0x33FF33,
      cd_bg_color = 0xFFFFFF, cd_bold = False, cd_font_face = [], cd_scale = two_scale, cd_min_size = no_size,
      cd_use_sizer = False, cd_add_to_prev_sizer = False, cd_params = []\<rparr>"

datatype cmd_item = Cmd command | Separator int

fun copy_entry :: "cmd_item \<Rightarrow> cmd_item" where
  "copy_entry (Cmd c) = Cmd (with_params c)"
| "copy_entry (Separator w) = Separator w"

section \<open>The executor\<close>

text \<open>\<open>ce_started\<close>: the processes asked for, with their text and whether they are hidden.\<close>

record cmd_executor =
  ce_commands :: "cmd_item list list list"
  ce_names :: "string list"
  ce_icons :: "string list"
  ce_started :: "(string \<times> bool) list"

definition put_at :: "nat \<Rightarrow> 'a \<Rightarrow> 'a list \<Rightarrow> 'a list" where
  "put_at i x xs = take i xs @ x # drop i xs"

definition drop_at :: "nat \<Rightarrow> 'a list \<Rightarrow> 'a list" where
  "drop_at i xs = take i xs @ drop (Suc i) xs"

text \<open>The rules of \<open>CommandTextResolver\<close>, the last one registered for a name first.\<close>

definition Register :: "string \<Rightarrow> (string \<Rightarrow> string) \<Rightarrow> (string \<times> (string \<Rightarrow> string)) list \<Rightarrow> (string \<times> (string \<Rightarrow> string)) list" where
  "Register command_name rule m_rules = (command_name, rule) # m_rules"

definition Resolve :: "(string \<times> (string \<Rightarrow> string)) list \<Rightarrow> string \<Rightarrow> string \<Rightarrow> string" where
  "Resolve m_rules command_name configured_command =
     (case map_of m_rules command_name of None \<Rightarrow> configured_command | Some rule \<Rightarrow> rule configured_command)"

definition Execute :: "(string \<Rightarrow> string \<Rightarrow> string) \<Rightarrow> command \<Rightarrow> cmd_executor \<Rightarrow> cmd_executor" where
  "Execute resolve c s =
     s\<lparr>ce_started := ce_started s @ [(resolve (cd_name c) (HandleParameters (cd_cmd c) (cd_params c)), cd_hidden c)]\<rparr>"

definition execute_named :: "(string \<Rightarrow> string \<Rightarrow> string) \<Rightarrow> string \<Rightarrow> cmd_item \<Rightarrow> cmd_executor \<Rightarrow> cmd_executor" where
  "execute_named resolve cmd_name x s =
     (case x of Cmd c \<Rightarrow> if cd_name c = cmd_name then Execute resolve c s else s | Separator _ \<Rightarrow> s)"

text \<open>\<open>None\<close>, here and below: an access behind the end of a vector.\<close>

definition ExecuteByName :: "(string \<Rightarrow> string \<Rightarrow> string) \<Rightarrow> string \<Rightarrow> string \<Rightarrow> cmd_executor \<Rightarrow> cmd_executor option" where
  "ExecuteByName resolve page_name cmd_name s =
     (case find (\<lambda>i. ce_names s ! i = page_name) [0..<length (ce_names s)] of
        None \<Rightarrow> Some s
      | Some i \<Rightarrow>
          if i < length (ce_commands s)
          then Some (fold (execute_named resolve cmd_name) (concat (ce_commands s ! i)) s) else None)"

definition AddItem :: "nat \<Rightarrow> nat \<Rightarrow> cmd_item \<Rightarrow> cmd_executor \<Rightarrow> bool \<times> cmd_executor" where
  "AddItem page_number col_number item s =
     (let commands = ce_commands s; page = commands ! (page_number - 1); col = page ! (col_number - 1) in
      if page_number > 0 \<and> page_number \<le> length commands \<and> col_number > 0 \<and> col_number \<le> length page
      then (True, s\<lparr>ce_commands := commands[page_number - 1 := page[col_number - 1 := col @ [item]]]\<rparr>)
      else (False, s))"

definition AddCommand :: "nat \<Rightarrow> nat \<Rightarrow> command \<Rightarrow> cmd_executor \<Rightarrow> cmd_executor" where
  "AddCommand page_number col_number cmd s = snd (AddItem page_number col_number (Cmd (with_params cmd)) s)"

definition AddSeparator :: "nat \<Rightarrow> nat \<Rightarrow> int \<Rightarrow> cmd_executor \<Rightarrow> cmd_executor" where
  "AddSeparator page_number col_number width s = snd (AddItem page_number col_number (Separator width) s)"

definition AddCol :: "nat \<Rightarrow> nat \<Rightarrow> cmd_executor \<Rightarrow> cmd_executor" where
  "AddCol page_index dest_index s =
     (if page_index < length (ce_commands s) \<and> dest_index \<le> length (ce_commands s ! page_index)
      then s\<lparr>ce_commands := (ce_commands s)[page_index := put_at dest_index [] (ce_commands s ! page_index)]\<rparr> else s)"

definition DeleteCol :: "nat \<Rightarrow> nat \<Rightarrow> cmd_executor \<Rightarrow> cmd_executor" where
  "DeleteCol page_index dest_index s =
     (if page_index < length (ce_commands s) \<and> dest_index < length (ce_commands s ! page_index)
      then s\<lparr>ce_commands := (ce_commands s)[page_index := drop_at dest_index (ce_commands s ! page_index)]\<rparr> else s)"

text \<open>A page with its name and icon, put at the same place of the three vectors.\<close>

definition put_page :: "nat \<Rightarrow> cmd_item list list \<Rightarrow> string \<Rightarrow> string \<Rightarrow> cmd_executor \<Rightarrow> cmd_executor option" where
  "put_page dest_index page name icon s =
     (if dest_index \<le> length (ce_names s) \<and> dest_index \<le> length (ce_icons s)
      then Some (s\<lparr>ce_commands := put_at dest_index page (ce_commands s), ce_names := put_at dest_index name (ce_names s),
        ce_icons := put_at dest_index icon (ce_icons s)\<rparr>) else None)"

definition AddPage :: "nat \<Rightarrow> nat \<Rightarrow> cmd_executor \<Rightarrow> cmd_executor option" where
  "AddPage page_index dest_index s =
     (if dest_index > length (ce_commands s) then Some s
      else put_page dest_index [[Cmd new_command]] ''New Page'' ''wxART_HARDDISK'' s)"

definition CopyPage :: "nat \<Rightarrow> nat \<Rightarrow> cmd_executor \<Rightarrow> cmd_executor option" where
  "CopyPage page_index dest_index s =
     (if page_index \<ge> length (ce_commands s) \<or> dest_index > length (ce_commands s) then Some s
      else if page_index < length (ce_names s) \<and> page_index < length (ce_icons s)
      then put_page dest_index (map (map copy_entry) (ce_commands s ! page_index)) (ce_names s ! page_index) (ce_icons s ! page_index) s
      else None)"

definition DeletePage :: "nat \<Rightarrow> cmd_executor \<Rightarrow> cmd_executor option" where
  "DeletePage page_index s =
     (if page_index \<ge> length (ce_commands s) then Some s
      else if page_index < length (ce_names s) \<and> page_index < length (ce_icons s)
      then Some (s\<lparr>ce_commands := drop_at page_index (ce_commands s), ce_names := drop_at page_index (ce_names s),
        ce_icons := drop_at page_index (ce_icons s)\<rparr>)
      else None)"

section \<open>The file\<close>

datatype CmdField =
  Field_Name | Field_Icon | Field_Hidden | Field_Color | Field_BackgroundColor | Field_Bold | Field_FontFace | Field_Scale |
  Field_UseSizer | Field_AddToPrevSizer | Field_MinSize

text \<open>
  A \<open><Cmd>\<close>: its \<open><Execute>\<close> child and the other children, its own text, and its attributes.  What
  cannot be read as the number it stands for is \<open>None\<close>, and throws.
\<close>

record cmd_node =
  cn_execute :: "string option"
  cn_child :: "CmdField \<Rightarrow> string option"
  cn_text :: string
  cn_attribute :: "CmdField \<Rightarrow> string option"

datatype col_entry = Cmd_Node cmd_node | Separator_Node "int option" | Other_Node

record page_node =
  pn_name :: "string option"
  pn_icon :: "string option"
  pn_columns :: "nat option"
  pn_col :: "nat \<Rightarrow> col_entry list option"

record cmd_file =
  cf_pages :: "nat option"
  cf_page :: "nat \<Rightarrow> page_node option"

text \<open>How the XML library writes a flag and a float, and how the standard library reads the float.\<close>

record xml_texts =
  xt_flag :: "bool \<Rightarrow> string"
  xt_float :: "u32 \<Rightarrow> string"
  xt_read_float :: "string \<Rightarrow> u32 option"

text \<open>What a step of loading gives: a result, an exception, or nothing at all (undefined, or never ending).\<close>

datatype 'a outcome = Done 'a | Throws | Undefined

definition FieldOr :: "(CmdField \<Rightarrow> string option) \<Rightarrow> CmdField \<Rightarrow> 'a \<Rightarrow> (string \<Rightarrow> 'a) \<Rightarrow> 'a" where
  "FieldOr given which fallback convert = (case given which of None \<Rightarrow> fallback | Some value \<Rightarrow> convert value)"

definition read_min_size :: "string option \<Rightarrow> (int \<times> int) option" where
  "read_min_size text =
     (case text of
        None \<Rightarrow> Some no_size
      | Some s \<Rightarrow>
          (case scan [Int_Field, Literally CHR '','', Int_Field] s of
             None \<Rightarrow> None
           | Some r \<Rightarrow>
               Some (case r of
                 [Number w, Number h] \<Rightarrow> (w, h)
               | [Number w] \<Rightarrow> (w, snd no_size)
               | _ \<Rightarrow> no_size)))"

definition load_command :: "xml_texts \<Rightarrow> cmd_node \<Rightarrow> command option" where
  "load_command xt v =
     (let (cmd, given) = (case cn_execute v of Some execute \<Rightarrow> (execute, cn_child v) | None \<Rightarrow> (cn_text v, cn_attribute v)) in
      case read_min_size (given Field_MinSize) of
        None \<Rightarrow> None
      | Some minimum_size \<Rightarrow> Some (with_params
          \<lparr>cd_name = FieldOr given Field_Name [] (\<lambda>s. s), cd_cmd = cmd, cd_icon = FieldOr given Field_Icon [] (\<lambda>s. s),
           cd_hidden = FieldOr given Field_Hidden False stob, cd_color = FieldOr given Field_Color 0 ColorStringToInt,
           cd_bg_color = FieldOr given Field_BackgroundColor 0xFFFFFF ColorStringToInt,
           cd_bold = FieldOr given Field_Bold False stob, cd_font_face = FieldOr given Field_FontFace [] (\<lambda>s. s),
           cd_scale = FieldOr given Field_Scale one_scale
             (\<lambda>s. case xt_read_float xt s of None \<Rightarrow> one_scale | Some scale \<Rightarrow> scale),
           cd_min_size = minimum_size, cd_use_sizer = FieldOr given Field_UseSizer False stob,
           cd_add_to_prev_sizer = FieldOr given Field_AddToPrevSizer False stob, cd_params = []\<rparr>))"

fun load_column :: "xml_texts \<Rightarrow> col_entry list \<Rightarrow> cmd_item list outcome" where
  "load_column xt [] = Done []"
| "load_column xt (Cmd_Node v # es) =
     (case load_command xt v of
        None \<Rightarrow> Undefined
      | Some c \<Rightarrow> (case load_column xt es of Done items \<Rightarrow> Done (Cmd c # items) | r \<Rightarrow> r))"
| "load_column xt (Separator_Node width # es) =
     (case width of
        None \<Rightarrow> Throws
      | Some w \<Rightarrow> (case load_column xt es of Done items \<Rightarrow> Done (Separator w # items) | r \<Rightarrow> r))"
| "load_column xt (Other_Node # es) = load_column xt es"

text \<open>
  \<open>for(uint8_t i = 1; i <= declared; i++)\<close>: after 255 comes 0, which is not above any number, and the loop
  starts over, for ever, unless it is left.
\<close>

definition counted :: "nat \<Rightarrow> nat list" where
  "counted declared = [1..<Suc declared] @ (if declared = 255 then [0] else [])"

fun load_columns :: "xml_texts \<Rightarrow> (nat \<Rightarrow> col_entry list option) \<Rightarrow> bool \<Rightarrow> nat list \<Rightarrow> cmd_item list list outcome" where
  "load_columns xt cols endless [] = (if endless then Undefined else Done [])"
| "load_columns xt cols endless (i # rest) =
     (case cols i of
        None \<Rightarrow> Done []
      | Some entries \<Rightarrow>
          (case load_column xt entries of
             Done items \<Rightarrow> (case load_columns xt cols endless rest of Done page \<Rightarrow> Done (items # page) | r \<Rightarrow> r)
           | Throws \<Rightarrow> Throws
           | Undefined \<Rightarrow> Undefined))"

fun load_pages :: "xml_texts \<Rightarrow> (nat \<Rightarrow> page_node option) \<Rightarrow> bool \<Rightarrow> nat list \<Rightarrow> cmd_executor \<Rightarrow> unit outcome \<times> cmd_executor" where
  "load_pages xt pages endless [] s = (if endless then Undefined else Done (), s)"
| "load_pages xt pages endless (p # rest) s =
     (case pages p of
        None \<Rightarrow> (Done (), s)
      | Some page \<Rightarrow>
          (case pn_name page of
             None \<Rightarrow> (Throws, s)
           | Some page_name \<Rightarrow>
               let page_icon = (case pn_icon page of None \<Rightarrow> [] | Some icon \<Rightarrow> icon);
                   s1 = s\<lparr>ce_names := ce_names s @ [page_name],
                     ce_icons := ce_icons s @ [if page_icon = [] then ''wxART_HARDDISK'' else page_icon]\<rparr>
               in case pn_columns page of
                    None \<Rightarrow> (Throws, s1)
                  | Some declared_cols \<Rightarrow>
                      (case load_columns xt (pn_col page) (declared_cols = 255) (counted declared_cols) of
                         Done cols \<Rightarrow> load_pages xt pages endless rest (s1\<lparr>ce_commands := ce_commands s1 @ [cols]\<rparr>)
                       | Throws \<Rightarrow> (Throws, s1)
                       | Undefined \<Rightarrow> (Undefined, s1))))"

text \<open>The document is \<open>None\<close> when there is none that can be read.  Only the commands are cleared before they are loaded.\<close>

definition ReloadCommandsFromFile :: "xml_texts \<Rightarrow> cmd_file option \<Rightarrow> cmd_executor \<Rightarrow> (bool \<times> cmd_executor) option" where
  "ReloadCommandsFromFile xt document s =
     (case document of
        None \<Rightarrow> Some (False, s)
      | Some file \<Rightarrow>
          let s0 = s\<lparr>ce_commands := []\<rparr> in
          case cf_pages file of
            None \<Rightarrow> Some (False, s0)
          | Some declared_pages \<Rightarrow>
              (case load_pages xt (cf_page file) (declared_pages = 255) (counted declared_pages) s0 of
                 (Done _, s1) \<Rightarrow> Some (True, s1)
               | (Throws, s1) \<Rightarrow> Some (False, s1)
               | (Undefined, _) \<Rightarrow> None))"

definition save_command :: "xml_texts \<Rightarrow> command \<Rightarrow> command \<times> cmd_node" where
  "save_command xt c0 =
     (let c = c0\<lparr>cd_cmd := SaveParametersToString (cd_cmd c0) (cd_params c0)\<rparr>; (w, h) = cd_min_size c in
      (c, \<lparr>cn_execute = Some (cd_cmd c),
           cn_child = (\<lambda>f. case f of
             Field_Name \<Rightarrow> if cd_name c \<noteq> cd_cmd c \<and> cd_name c \<noteq> [] then Some (cd_name c) else None
           | Field_Icon \<Rightarrow> if cd_icon c \<noteq> [] then Some (cd_icon c) else None
           | Field_Hidden \<Rightarrow> if cd_hidden c then Some (xt_flag xt True) else None
           | Field_Color \<Rightarrow> Some (FormatColor (cd_color c))
           | Field_BackgroundColor \<Rightarrow> Some (FormatColor (cd_bg_color c))
           | Field_Bold \<Rightarrow> Some (xt_flag xt (cd_bold c))
           | Field_FontFace \<Rightarrow> Some (cd_font_face c)
           | Field_Scale \<Rightarrow> Some (xt_float xt (cd_scale c))
           | Field_UseSizer \<Rightarrow> if cd_use_sizer c then Some (xt_flag xt True) else None
           | Field_AddToPrevSizer \<Rightarrow> if cd_add_to_prev_sizer c then Some (xt_flag xt True) else None
           | Field_MinSize \<Rightarrow> if \<not> IsDefault (w, h) then Some (int_decimal w @ '','' @ int_decimal h) else None),
           cn_text = [], cn_attribute = (\<lambda>f. None)\<rparr>))"

fun save_item :: "xml_texts \<Rightarrow> cmd_item \<Rightarrow> cmd_item \<times> col_entry" where
  "save_item xt (Cmd c0) = (case save_command xt c0 of (c, node) \<Rightarrow> (Cmd c, Cmd_Node node))"
| "save_item xt (Separator width) = (Separator width, Separator_Node (Some width))"

text \<open>The numbers that \<open>page_cnt\<close> and \<open>cnt\<close>, of eight bits, give the elements; of two elements with one number the first is found.\<close>

definition numbered :: "'a list \<Rightarrow> nat \<Rightarrow> 'a option" where
  "numbered xs = map_of (zip (map (\<lambda>i. Suc i mod 256) [0..<length xs]) xs)"

definition as_u8 :: "nat \<Rightarrow> nat option" where
  "as_u8 n = (if n < 256 then Some n else None)"

definition save_page :: "xml_texts \<Rightarrow> cmd_item list list \<Rightarrow> string \<Rightarrow> string \<Rightarrow> page_node" where
  "save_page xt page name icon =
     \<lparr>pn_name = Some name, pn_icon = Some icon, pn_columns = as_u8 (length page),
      pn_col = numbered (map (map (snd \<circ> save_item xt)) page)\<rparr>"

text \<open>
  The document that is written, and what saving leaves: the values are in the texts of the
  commands.  A name or icon that is missing, and the index \<open>0 - 1\<close> of the 256th page, is an
  access outside of the vector.
\<close>

definition SaveCommands :: "xml_texts \<Rightarrow> cmd_executor \<Rightarrow> (cmd_file \<times> cmd_executor) option" where
  "SaveCommands xt s =
     (if length (ce_commands s) \<le> length (ce_names s) \<and> length (ce_commands s) \<le> length (ce_icons s) \<and> length (ce_commands s) < 256
      then Some (\<lparr>cf_pages = Some (length (ce_commands s)),
             cf_page = numbered (map2 (\<lambda>page (name, icon). save_page xt page name icon) (ce_commands s) (zip (ce_names s) (ce_icons s)))\<rparr>,
           s\<lparr>ce_commands := map (map (map (fst \<circ> save_item xt))) (ce_commands s)\<rparr>)
      else None)"

text \<open>\<open>disk\<close>: what is read back of a document, or \<open>None\<close> when it cannot be written.\<close>

definition SaveToTempAndReload ::
  "xml_texts \<Rightarrow> (cmd_file \<Rightarrow> cmd_file option option) \<Rightarrow> cmd_executor \<Rightarrow> (bool \<times> cmd_executor) option" where
  "SaveToTempAndReload xt disk s =
     (case SaveCommands xt s of
        None \<Rightarrow> None
      | Some (file, s1) \<Rightarrow> (case disk file of None \<Rightarrow> Some (False, s1) | Some document \<Rightarrow> ReloadCommandsFromFile xt document s1))"

section \<open>Reading what was written\<close>

text \<open>Every colour is written as a text that is read as it.\<close>

lemma color_roundtrip [simp]: "ParseColor (FormatColor v) = Some v"
proof (cases "find (\<lambda>(name, named_value). named_value = v) kColorNames")
  case None
  have "map_of kColorNames (''0x'' @ hex_text (unat v)) = None" by (simp add: kColorNames_def)
  then show ?thesis using None by (simp add: FormatColor_def ParseColor_def starts_with_def)
next
  case (Some p)
  obtain n w where p: "p = (n, w)" by (cases p)
  have "w = v" "(n, w) \<in> set kColorNames"
    using Some p by (auto simp: find_Some_iff in_set_conv_nth)
  moreover have "distinct (map fst kColorNames)" by (simp add: kColorNames_def)
  ultimately have "map_of kColorNames n = Some v" by simp
  then show ?thesis using Some p by (simp add: FormatColor_def ParseColor_def)
qed

lemma ColorStringToInt_FormatColor [simp]: "ColorStringToInt (FormatColor v) = v"
  by (simp add: ColorStringToInt_def)

text \<open>The library on flags; on a scale; and sizes that \<open>int\<close> holds.\<close>

definition flags_documented :: "xml_texts \<Rightarrow> bool" where
  "flags_documented xt \<longleftrightarrow> stob (xt_flag xt True) \<and> \<not> stob (xt_flag xt False)"

definition can_reload :: "xml_texts \<Rightarrow> cmd_item \<Rightarrow> bool" where
  "can_reload xt x =
     (case x of
        Cmd c \<Rightarrow> xt_read_float xt (xt_float xt (cd_scale c)) = Some (cd_scale c) \<and>
          fst (cd_min_size c) < 2 ^ 31 \<and> snd (cd_min_size c) < 2 ^ 31
      | Separator _ \<Rightarrow> True)"

text \<open>What becomes of a command: a name that is the command's text is not kept, nor a size of which one part is negative.\<close>

fun reloaded :: "cmd_item \<Rightarrow> cmd_item" where
  "reloaded (Cmd c) =
     (let cmd = SaveParametersToString (cd_cmd c) (cd_params c) in
      Cmd (with_params (c\<lparr>cd_cmd := cmd, cd_name := if cd_name c = cmd then [] else cd_name c,
        cd_min_size := if IsDefault (cd_min_size c) then no_size else cd_min_size c\<rparr>)))"
| "reloaded (Separator w) = Separator w"

lemma read_min_size_text:
  assumes "0 \<le> w" "0 \<le> h" "w < 2 ^ 31" "h < 2 ^ 31"
  shows "read_min_size (Some (int_decimal w @ '','' @ int_decimal h)) = Some (w, h)"
proof -
  have "int_decimal w = decimal (nat w)" "int_decimal h = decimal (nat h)" using assms(1,2) by (simp_all add: int_decimal_def)
  then show ?thesis using assms by (simp add: read_min_size_def scan_def fits_int_def)
qed

lemma optional_fields:
  "(case if n \<noteq> m \<and> n \<noteq> [] then Some n else None of None \<Rightarrow> [] | Some v \<Rightarrow> v) = (if n = m then [] else n)"
  "(case if n \<noteq> [] then Some n else None of None \<Rightarrow> [] | Some v \<Rightarrow> v) = n"
  "flags_documented xt \<Longrightarrow> (case if b then Some (xt_flag xt True) else None of None \<Rightarrow> False | Some v \<Rightarrow> stob v) = b"
  "flags_documented xt \<Longrightarrow> stob (xt_flag xt b) = b"
  by (cases b; simp add: flags_documented_def)+

lemma load_saved_command:
  assumes "flags_documented xt" "can_reload xt (Cmd c)"
  shows "map_option Cmd (load_command xt (snd (save_command xt c))) = Some (reloaded (Cmd c))"
proof -
  obtain w h where wh: "cd_min_size c = (w, h)" by (cases "cd_min_size c")
  have size: "read_min_size (if \<not> IsDefault (w, h) then Some (int_decimal w @ '','' @ int_decimal h) else None) =
      Some (if IsDefault (w, h) then no_size else (w, h))"
    using wh assms(2) read_min_size_text [of w h] by (auto simp: can_reload_def IsDefault_def read_min_size_def)
  define cmd where "cmd = SaveParametersToString (cd_cmd c) (cd_params c)"
  define e where "e = with_params (c\<lparr>cd_cmd := cmd, cd_name := if cd_name c = cmd then [] else cd_name c,
    cd_min_size := if IsDefault (w, h) then no_size else (w, h)\<rparr>)"
  define F where "F = cn_child (snd (save_command xt c))"
  have node: "cn_execute (snd (save_command xt c)) = Some cmd" "cn_child (snd (save_command xt c)) = F"
    by (simp_all add: save_command_def Let_def wh cmd_def F_def)
  note F = F_def save_command_def Let_def wh cmd_def [symmetric] FieldOr_def
  have texts: "FieldOr F Field_Name [] (\<lambda>s. s) = (if cd_name c = cmd then [] else cd_name c)"
    "FieldOr F Field_Icon [] (\<lambda>s. s) = cd_icon c" "FieldOr F Field_FontFace [] (\<lambda>s. s) = cd_font_face c"
    by (simp_all add: F optional_fields(1,2) del: not_None_eq)
  have flags: "FieldOr F Field_Hidden False stob = cd_hidden c" "FieldOr F Field_Bold False stob = cd_bold c"
    "FieldOr F Field_UseSizer False stob = cd_use_sizer c" "FieldOr F Field_AddToPrevSizer False stob = cd_add_to_prev_sizer c"
    by (simp_all add: F optional_fields(3,4) [OF assms(1)])
  have numbers: "FieldOr F Field_Color 0 ColorStringToInt = cd_color c"
    "FieldOr F Field_BackgroundColor 0xFFFFFF ColorStringToInt = cd_bg_color c"
    "FieldOr F Field_Scale one_scale (\<lambda>s. case xt_read_float xt s of None \<Rightarrow> one_scale | Some scale \<Rightarrow> scale) = cd_scale c"
    "read_min_size (F Field_MinSize) = Some (if IsDefault (w, h) then no_size else (w, h))"
    using size assms(2) by (simp_all add: F can_reload_def)
  have "load_command xt (snd (save_command xt c)) = Some e"
    unfolding load_command_def node option.case Let_def prod.case texts flags numbers e_def with_params_def
    by (cases c) simp
  moreover have "reloaded (Cmd c) = Cmd e" by (simp add: e_def cmd_def Let_def wh)
  ultimately show ?thesis by simp
qed

lemma load_saved_column:
  assumes "flags_documented xt" "list_all (can_reload xt) col"
  shows "load_column xt (map (snd \<circ> save_item xt) col) = Done (map reloaded col)"
  using assms(2)
proof (induction col)
  case (Cons x col)
  show ?case
  proof (cases x)
    case (Cmd c)
    then obtain d where "load_command xt (snd (save_command xt c)) = Some d" "Cmd d = reloaded (Cmd c)"
      using load_saved_command [OF assms(1), of c] Cons.prems by auto
    then show ?thesis using Cons Cmd by (simp add: case_prod_beta del: reloaded.simps)
  next
    case (Separator w)
    then show ?thesis using Cons by simp
  qed
qed simp

lemma numbered_nth:
  assumes "length xs < 256"
  shows "numbered xs i = (if 0 < i \<and> i \<le> length xs then Some (xs ! (i - 1)) else None)"
proof -
  have "map (\<lambda>i. Suc i mod 256) [0..<length xs] = map Suc [0..<length xs]" using assms by (intro map_cong) auto
  then have n: "numbered xs i = map_of (zip (map Suc [0..<length xs]) xs) i" by (simp only: numbered_def)
  show ?thesis
  proof (cases "0 < i \<and> i \<le> length xs")
    case True
    then have "map_of (zip (map Suc [0..<length xs]) xs) (map Suc [0..<length xs] ! (i - 1)) = Some (xs ! (i - 1))"
      by (intro map_of_zip_nth) (auto simp: distinct_map)
    moreover have "map Suc [0..<length xs] ! (i - 1) = i" using True by (subst nth_map) auto
    ultimately show ?thesis using True n by (simp only: simp_thms if_True)
  next
    case False
    then show ?thesis using n by (auto simp: map_of_eq_None_iff dest!: set_zip_leftD)
  qed
qed

lemma counted_walk:
  "counted n = [Suc 0..<Suc n] @ (if n = 255 then [0] else [])"
  by (simp add: counted_def)

lemma load_columns_walk:
  assumes "length cs < 256" "\<And>es. es \<in> set cs \<Longrightarrow> load_column xt es = Done (f es)" "k \<le> length cs"
  shows "load_columns xt (numbered cs) (length cs = 255) ([Suc k..<Suc (length cs)] @ (if length cs = 255 then [0] else [])) =
    Done (map f (drop k cs))"
  using assms(3)
proof (induction k rule: inc_induct)
  case base
  then show ?case using assms(1) by (auto simp: numbered_nth)
next
  case (step k)
  have "[Suc k..<Suc (length cs)] = Suc k # [Suc (Suc k)..<Suc (length cs)]" "drop k cs = cs ! k # drop (Suc k) cs"
    using step.hyps by (simp_all add: upt_conv_Cons Cons_nth_drop_Suc)
  then show ?case using step assms(1,2) by (simp add: numbered_nth)
qed

lemma load_saved_columns:
  assumes "flags_documented xt" "list_all (list_all (can_reload xt)) page" "length page < 256"
  shows "load_columns xt (numbered (map (map (snd \<circ> save_item xt)) page)) (length page = 255) (counted (length page)) =
    Done (map (map reloaded) page)"
proof -
  define cs where "cs = map (map (snd \<circ> save_item xt)) page"
  have "\<exists>f. \<forall>es \<in> set cs. load_column xt es = Done (f es)"
    using load_saved_column [OF assms(1)] assms(2) unfolding cs_def list_all_iff set_map by (intro bchoice) blast
  then obtain f where f: "\<And>es. es \<in> set cs \<Longrightarrow> load_column xt es = Done (f es)" by blast
  have "map f cs = map (map reloaded) page"
    using f load_saved_column [OF assms(1)] assms(2) unfolding cs_def list_all_iff by fastforce
  then show ?thesis using load_columns_walk [of cs xt f 0, OF _ f] assms(3)
    unfolding counted_walk by (simp add: cs_def)
qed

lemma load_pages_walk:
  assumes "length rows < 256"
    and "\<And>r. r \<in> set rows \<Longrightarrow> pn_name (f r) = Some (nm r) \<and> pn_icon (f r) = Some (ic r) \<and> (\<exists>n. pn_columns (f r) = Some n \<and>
      load_columns xt (pn_col (f r)) (n = 255) (counted n) = Done (cs r))"
    and "k \<le> length rows"
  shows "load_pages xt (numbered (map f rows)) (length rows = 255) ([Suc k..<Suc (length rows)] @ (if length rows = 255 then [0] else [])) s =
    (Done (), s\<lparr>ce_commands := ce_commands s @ map cs (drop k rows), ce_names := ce_names s @ map nm (drop k rows),
      ce_icons := ce_icons s @ map (\<lambda>r. if ic r = [] then ''wxART_HARDDISK'' else ic r) (drop k rows)\<rparr>)"
  using assms(3)
proof (induction k arbitrary: s rule: inc_induct)
  case base
  then show ?case using assms(1) by (auto simp: numbered_nth)
next
  case (step k)
  have upt: "[Suc k..<Suc (length rows)] = Suc k # [Suc (Suc k)..<Suc (length rows)]" and drop: "drop k rows = rows ! k # drop (Suc k) rows"
    using step.hyps by (simp_all add: upt_conv_Cons Cons_nth_drop_Suc)
  have "numbered (map f rows) (Suc k) = Some (f (rows ! k))" using step.hyps assms(1) by (simp add: numbered_nth)
  moreover obtain n where "pn_name (f (rows ! k)) = Some (nm (rows ! k))" "pn_icon (f (rows ! k)) = Some (ic (rows ! k))"
    "pn_columns (f (rows ! k)) = Some n" "load_columns xt (pn_col (f (rows ! k))) (n = 255) (counted n) = Done (cs (rows ! k))"
    using assms(2) [of "rows ! k"] step.hyps by auto
  ultimately show ?case using step.IH unfolding upt drop by (simp add: Let_def)
qed

text \<open>As many pages as the vectors have names and icons.\<close>

definition pages_ok :: "cmd_executor \<Rightarrow> bool" where
  "pages_ok s \<longleftrightarrow> length (ce_names s) = length (ce_commands s) \<and> length (ce_icons s) = length (ce_commands s)"

text \<open>Pages, columns and commands that can be written and read.\<close>

definition storable :: "xml_texts \<Rightarrow> cmd_executor \<Rightarrow> bool" where
  "storable xt s \<longleftrightarrow> length (ce_commands s) < 256 \<and> list_all (\<lambda>page. length page < 256 \<and> list_all (list_all (can_reload xt)) page) (ce_commands s)"

definition shown_icon :: "string \<Rightarrow> string" where
  "shown_icon icon = (if icon = [] then ''wxART_HARDDISK'' else icon)"

text \<open>
  Saving the pages and loading them again gives the same pages, columns and buttons, every
  command with its values as the defaults of its text.  A name that is the text of its command
  and a half-given size are lost.  But the names and icons that were there stay in front of those
  that are loaded.
\<close>

theorem saved_pages_reload:
  assumes "flags_documented xt" "pages_ok s" "storable xt s"
    and "\<And>file. disk file = Some (Some file)"
  shows "\<exists>s'. SaveToTempAndReload xt disk s = Some (True, s') \<and>
    ce_commands s' = map (map (map reloaded)) (ce_commands s) \<and>
    ce_names s' = ce_names s @ ce_names s \<and> ce_icons s' = ce_icons s @ map shown_icon (ce_icons s) \<and> ce_started s' = ce_started s"
proof -
  define rows where "rows = zip (ce_commands s) (zip (ce_names s) (ce_icons s))"
  define f where "f = (\<lambda>(page, name, icon). save_page xt page name icon)"
  have len: "length (ce_names s) = length (ce_commands s)" "length (ce_icons s) = length (ce_commands s)"
    using assms(2) by (simp_all add: pages_ok_def)
  have "map snd rows = zip (ce_names s) (ce_icons s)" by (simp add: rows_def len)
  then have "map (fst \<circ> snd) rows = ce_names s" "map (snd \<circ> snd) rows = ce_icons s" unfolding map_map [symmetric] by (simp_all add: len)
  moreover have "map fst rows = ce_commands s" by (simp add: rows_def len)
  ultimately have rows: "map fst rows = ce_commands s" "map (\<lambda>r. fst (snd r)) rows = ce_names s" "map (\<lambda>r. snd (snd r)) rows = ce_icons s"
    "length rows = length (ce_commands s)"
    by (simp_all add: comp_def rows_def len)
  let ?s0 = "s\<lparr>ce_commands := []\<rparr>" and ?s1 = "s\<lparr>ce_commands := map (map (map (fst \<circ> save_item xt))) (ce_commands s)\<rparr>"
  let ?file = "\<lparr>cf_pages = Some (length (ce_commands s)), cf_page = numbered (map f rows)\<rparr>"
  have "map2 (\<lambda>page (name, icon). save_page xt page name icon) (ce_commands s) (zip (ce_names s) (ce_icons s)) = map f rows"
    by (simp add: f_def rows_def case_prod_beta)
  then have save: "SaveCommands xt s = Some (?file, ?s1)"
    using assms(3) len by (simp add: SaveCommands_def storable_def)
  have entry: "pn_name (f r) = Some (fst (snd r)) \<and> pn_icon (f r) = Some (snd (snd r)) \<and> (\<exists>n. pn_columns (f r) = Some n \<and>
      load_columns xt (pn_col (f r)) (n = 255) (counted n) = Done (map (map reloaded) (fst r)))" if "r \<in> set rows" for r
  proof -
    have "fst r \<in> set (ce_commands s)" using that rows(1) by (metis imageI list.set_map)
    then have "length (fst r) < 256" "list_all (list_all (can_reload xt)) (fst r)"
      using assms(3) by (auto simp: storable_def list_all_iff)
    then show ?thesis using load_saved_columns [OF assms(1)] by (cases r) (simp add: f_def save_page_def as_u8_def)
  qed
  have small: "length rows < 256" using assms(3) rows(4) by (simp add: storable_def)
  have "load_pages xt (numbered (map f rows)) (length rows = 255) (counted (length rows)) ?s0 =
    (Done (), ?s0\<lparr>ce_commands := map (\<lambda>r. map (map reloaded) (fst r)) rows, ce_names := ce_names s @ map (\<lambda>r. fst (snd r)) rows,
      ce_icons := ce_icons s @ map (\<lambda>r. shown_icon (snd (snd r))) rows\<rparr>)"
    using load_pages_walk [where f = f and nm = "\<lambda>r. fst (snd r)" and ic = "\<lambda>r. snd (snd r)"
        and cs = "\<lambda>r. map (map reloaded) (fst r)" and k = 0 and s = ?s0, OF small entry]
    unfolding counted_walk by (simp add: shown_icon_def del: upt_Suc)
  moreover have "map (\<lambda>r. map (map reloaded) (fst r)) rows = map (map (map reloaded)) (ce_commands s)"
    "map (\<lambda>r. shown_icon (snd (snd r))) rows = map shown_icon (ce_icons s)"
    unfolding rows(1,3) [symmetric] by simp_all
  ultimately have "ReloadCommandsFromFile xt (Some ?file) ?s1 = Some (True, ?s0\<lparr>ce_commands := map (map (map reloaded)) (ce_commands s),
      ce_names := ce_names s @ ce_names s, ce_icons := ce_icons s @ map shown_icon (ce_icons s)\<rparr>)"
    using rows(2,4) by (simp add: ReloadCommandsFromFile_def)
  then show ?thesis using save assms(4) by (simp add: SaveToTempAndReload_def)
qed

section \<open>Editing and running\<close>

datatype page_edit =
  Add_Command nat nat command | Add_Separator nat nat int | Add_Col nat nat | Delete_Col nat nat |
  Add_Page nat nat | Copy_Page nat nat | Delete_Page nat

fun apply_edit :: "page_edit \<Rightarrow> cmd_executor \<Rightarrow> cmd_executor option" where
  "apply_edit (Add_Command p c cmd) s = Some (AddCommand p c cmd s)"
| "apply_edit (Add_Separator p c w) s = Some (AddSeparator p c w s)"
| "apply_edit (Add_Col p i) s = Some (AddCol p i s)"
| "apply_edit (Delete_Col p i) s = Some (DeleteCol p i s)"
| "apply_edit (Add_Page p i) s = AddPage p i s"
| "apply_edit (Copy_Page p i) s = CopyPage p i s"
| "apply_edit (Delete_Page p) s = DeletePage p s"

fun apply_edits :: "page_edit list \<Rightarrow> cmd_executor \<Rightarrow> cmd_executor option" where
  "apply_edits [] s = Some s"
| "apply_edits (e # es) s = (case apply_edit e s of None \<Rightarrow> None | Some s' \<Rightarrow> apply_edits es s')"

lemma length_put_at [simp]: "length (put_at i x xs) = Suc (length xs)"
  by (simp add: put_at_def)

lemma length_drop_at [simp]: "i < length xs \<Longrightarrow> length (drop_at i xs) = length xs - 1"
  by (simp add: drop_at_def)

lemma apply_edit_keeps_pages:
  assumes "pages_ok s"
  shows "\<exists>s'. apply_edit e s = Some s' \<and> pages_ok s'"
proof (cases e)
  case (Add_Page p i)
  then show ?thesis using assms by (auto simp: pages_ok_def AddPage_def put_page_def)
next
  case (Copy_Page p i)
  then show ?thesis using assms by (auto simp: pages_ok_def CopyPage_def put_page_def)
next
  case (Delete_Page p)
  then show ?thesis using assms by (auto simp: pages_ok_def DeletePage_def)
qed (use assms in \<open>auto simp: pages_ok_def AddCommand_def AddSeparator_def AddItem_def Let_def AddCol_def DeleteCol_def\<close>)

text \<open>As long as the pages are not loaded again, no edit goes outside of the vectors.\<close>

theorem edits_keep_pages:
  "pages_ok s \<Longrightarrow> \<exists>s'. apply_edits es s = Some s' \<and> pages_ok s'"
proof (induction es arbitrary: s)
  case (Cons e es)
  then show ?case using apply_edit_keeps_pages [OF Cons.prems, of e] by fastforce
qed simp

text \<open>The first load of an executor gives as many names and icons as pages.\<close>

lemma load_pages_keep:
  "load_pages xt pages endless ps s = (Done (), s') \<Longrightarrow> pages_ok s \<Longrightarrow> pages_ok s'"
proof (induction ps arbitrary: s)
  case (Cons p ps)
  then show ?case
    by (auto simp: pages_ok_def Let_def split: option.splits outcome.splits)
qed (auto split: if_splits)

lemma first_load_pages_ok:
  assumes "ReloadCommandsFromFile xt document s = Some (True, s')" "ce_names s = []" "ce_icons s = []"
  shows "pages_ok s'"
proof -
  have "pages_ok (s\<lparr>ce_commands := []\<rparr>)" using assms(2,3) by (simp add: pages_ok_def)
  then show ?thesis using assms(1) load_pages_keep
    by (auto simp: ReloadCommandsFromFile_def Let_def split: option.splits prod.splits outcome.splits)
qed

text \<open>What running by name asks for.\<close>

definition requests :: "(string \<Rightarrow> string \<Rightarrow> string) \<Rightarrow> string \<Rightarrow> cmd_item list \<Rightarrow> (string \<times> bool) list" where
  "requests resolve cmd_name items =
     concat (map (\<lambda>x. case x of
         Cmd c \<Rightarrow> if cd_name c = cmd_name then [(resolve cmd_name (HandleParameters (cd_cmd c) (cd_params c)), cd_hidden c)] else []
       | Separator _ \<Rightarrow> []) items)"

lemma fold_execute_named:
  "fold (execute_named resolve cmd_name) items s = s\<lparr>ce_started := ce_started s @ requests resolve cmd_name items\<rparr>"
proof (induction items arbitrary: s)
  case (Cons x items)
  then show ?case by (cases x) (simp_all add: execute_named_def Execute_def requests_def)
qed (simp add: requests_def)

theorem ExecuteByName_starts:
  assumes "pages_ok s"
  shows "ExecuteByName resolve page_name cmd_name s = Some (s\<lparr>ce_started := ce_started s @
    (case find (\<lambda>i. ce_names s ! i = page_name) [0..<length (ce_names s)] of
       None \<Rightarrow> [] | Some i \<Rightarrow> requests resolve cmd_name (concat (ce_commands s ! i)))\<rparr>)"
proof (cases "find (\<lambda>i. ce_names s ! i = page_name) [0..<length (ce_names s)]")
  case None
  then show ?thesis by (simp add: ExecuteByName_def)
next
  case (Some i)
  then have "i < length (ce_commands s)" using assms by (auto simp: find_Some_iff pages_ok_def)
  then show ?thesis using Some by (simp add: ExecuteByName_def fold_execute_named)
qed

section \<open>A page that was deleted\<close>

text \<open>
  Every edit of the panel ends with saving and loading again, which leaves the old names in
  front of the new ones. When the last page is deleted then, its name is still there, and
  running a command on it, as a macro may, reads behind the end of the pages.
\<close>

theorem deleted_page_reads_outside:
  assumes "flags_documented xt" "pages_ok s" "storable xt s" "\<And>file. disk file = Some (Some file)"
    and "ce_commands s \<noteq> []" "distinct (ce_names s)"
  shows "\<exists>s1 s2. SaveToTempAndReload xt disk s = Some (True, s1) \<and> DeletePage (length (ce_commands s1) - 1) s1 = Some s2 \<and>
    ExecuteByName resolve (last (ce_names s)) cmd_name s2 = None"
proof -
  obtain s1 where s1: "SaveToTempAndReload xt disk s = Some (True, s1)" "length (ce_commands s1) = length (ce_commands s)"
      "ce_names s1 = ce_names s @ ce_names s" "length (ce_icons s1) = 2 * length (ce_icons s)"
    using saved_pages_reload [OF assms(1-4)] by auto
  let ?n = "length (ce_commands s)"
  have len: "length (ce_names s) = ?n" "length (ce_icons s) = ?n" using assms(2) by (simp_all add: pages_ok_def)
  obtain m where m: "?n = Suc m" using assms(5) by (cases "ce_commands s") simp_all
  define s2 where "s2 = s1\<lparr>ce_commands := drop_at m (ce_commands s1), ce_names := drop_at m (ce_names s1), ce_icons := drop_at m (ce_icons s1)\<rparr>"
  have delete: "DeletePage (length (ce_commands s1) - 1) s1 = Some s2"
    using s1 len m by (simp add: DeletePage_def s2_def)
  obtain ns where ns: "ce_names s = ns @ [last (ce_names s)]" using len(1) m by (metis append_butlast_last_id list.size(3) nat.distinct(1))
  have ns_len: "length ns = m" using ns len(1) m by (metis length_append_singleton nat.inject)
  have names: "ce_names s2 = ns @ ce_names s"
  proof -
    have "take m (ce_names s) = ns" by (subst ns) (simp add: ns_len)
    then show ?thesis using s1(3) len(1) m by (simp add: s2_def drop_at_def)
  qed
  have "i < length (ce_names s2)" "i \<ge> m" if "find (\<lambda>i. ce_names s2 ! i = last (ce_names s)) [0..<length (ce_names s2)] = Some i" for i
  proof -
    have i: "i < length (ce_names s2)" "ce_names s2 ! i = last (ce_names s)" using that by (auto simp: find_Some_iff)
    have "last (ce_names s) \<notin> set ns" using assms(6) by (subst (asm) ns) simp
    then show "i < length (ce_names s2)" "i \<ge> m" using i names ns_len by (auto simp: nth_append dest: nth_mem split: if_splits)
  qed
  moreover have "find (\<lambda>i. ce_names s2 ! i = last (ce_names s)) [0..<length (ce_names s2)] \<noteq> None"
  proof -
    have "last (ce_names s) \<in> set (ce_names s2)" unfolding names by (subst ns) simp
    then show ?thesis by (auto simp: find_None_iff in_set_conv_nth)
  qed
  moreover have "length (ce_commands s2) = m" using s1(2) m by (simp add: s2_def)
  ultimately have "ExecuteByName resolve (last (ce_names s)) cmd_name s2 = None"
    by (auto simp: ExecuteByName_def)
  then show ?thesis using s1(1) delete by blast
qed

section \<open>Examples\<close>

definition sample_xml :: xml_texts where
  "sample_xml = \<lparr>xt_flag = (\<lambda>b. if b then ''true'' else ''false''), xt_float = (\<lambda>w. hex_text (unat w)), xt_read_float = ReadHexChild\<rparr>"

definition sample_pages :: cmd_executor where
  "sample_pages =
     \<lparr>ce_commands = [[[Cmd new_command, Separator 4], []], [[Separator 2]]], ce_names = [''Board'', ''Linux''], ce_icons = [[], ''wxART_COPY''],
      ce_started = []\<rparr>"

lemma sample_storable: "flags_documented sample_xml" "pages_ok sample_pages" "storable sample_xml sample_pages"
  by (simp_all add: flags_documented_def sample_xml_def stob_def pages_ok_def sample_pages_def storable_def can_reload_def
      new_command_def with_params_def no_size_def)

theorem saved_pages_reload_witness:
  "\<exists>s'. SaveToTempAndReload sample_xml (\<lambda>file. Some (Some file)) sample_pages = Some (True, s') \<and>
    ce_names s' = [''Board'', ''Linux'', ''Board'', ''Linux'']"
  using saved_pages_reload [OF sample_storable, of "\<lambda>file. Some (Some file)"] by (auto simp: sample_pages_def)

theorem deleted_page_reads_outside_witness:
  "\<exists>s1 s2. SaveToTempAndReload sample_xml (\<lambda>file. Some (Some file)) sample_pages = Some (True, s1) \<and>
    DeletePage (length (ce_commands s1) - 1) s1 = Some s2 \<and> ExecuteByName (\<lambda>name cmd. cmd) ''Linux'' ''Build'' s2 = None"
  using deleted_page_reads_outside [OF sample_storable, of "\<lambda>file. Some (Some file)" "\<lambda>name cmd. cmd" "''Build''"]
  by (simp add: sample_pages_def)

end
