(* ===== verification/Spec2Isabelle.thy ===== *)
theory Spec2Isabelle
  imports ModbusRegisterEditor ModbusTyping ModbusClient CanHandler DidHandler TcpSession TimeTracker BackupCopy MacroProfiles MacroKeypad CanFiles ModbusFields SettingsIni IsoTpTransfer Alarms CmdExecutor
begin

text \<open>
  WindowsAddon: a verification library of the program's own logic.

  The program is a desktop tool.  Its parts are a Modbus master with an editable register
  map, a CAN analyser over serial adapters with UDS diagnostics, bit field editing and scripts
  on top, a small TCP back end, a macro keypad, a time tracker, alarms, pages of commands and a directory
  backup.  Sources are named relative to \<open>src/\<close> of the repository's \<open>src\<close> directory, those of the
  bundled libraries to \<open>libs/\<close> beside it.

  \<^bold>\<open>Theories and the code they model.\<close>

  \<^item> \<open>Addon_Prelude\<close>: the types of bytes and words, \<open>be16\<close>, \<open>hi8\<close>, \<open>lo8\<close> and the lemmas on words and
    lists that the components share.
  \<^item> \<open>Crc16\<close>: \<open>utils/Crc16Modbus.hpp\<close> and the CRC of \<open>ModbusClient.cpp\<close>; the two are equal, and
    short damage is detected.
  \<^item> \<open>ModbusProtocol\<close>: requests and response parsers of \<open>ModbusProtocol.hpp\<close>.  \<open>ModbusWire\<close>: what a
    correct response is, and that the parsers accept exactly it.
  \<^item> \<open>ModbusPort\<close>: \<open>ModbusMasterSerialPort.cpp\<close>.  The device behind the port is a function from a
    request to the chunks it answers.  \<open>ModbusReceive\<close>: the receive buffer over any chunking.
    \<open>ModbusReads\<close>: the laws of a register reader (locale \<open>register_reader\<close>, interpreted for holding
    and input registers) and what reads and writes of a device return.
  \<^item> \<open>ModbusClient\<close>: the retry loop of \<open>ModbusClient.cpp\<close>, a partial function over a transaction.
  \<^item> \<open>ModbusTypes\<close>: \<open>interface/IModbusEntry.hpp\<close>, \<open>ModbusTypeTraits.hpp\<close>, \<open>ModbusRegisterValueCodec.hpp\<close>.
    \<open>ModbusRegisterEditor\<close>: edits of the layout.  \<open>ModbusGrouping\<close>: grouped reads (locale
    \<open>table_reader\<close>).  \<open>ModbusBuffers\<close>: write queue, pending rows, frame log (locales
    \<open>handover_queue\<close>, \<open>generational_buffer\<close>).  \<open>ModbusHandler\<close>: polling and writing of
    \<open>ModbusHandler.cpp\<close>.  \<open>ModbusEndToEnd\<close>: the handler over the port over a slave with a memory.
    \<open>ModbusTyping\<close>: every register's value keeps the kind of its type, whatever is polled,
    edited (bit fields included), cleared or changed in the layout.
  \<^item> \<open>CanCodecs\<close>: the STM32 and Lawicel formats of \<open>CanCodecs.cpp\<close>.  \<open>CanTransport\<close>: the adapters and
    \<open>CanSerialPort.cpp\<close> (locale \<open>can_adapter\<close>).  \<open>CanHandler\<close>: \<open>CanEntryHandler.cpp\<close>, \<open>CanModels.hpp\<close>,
    \<open>CanFrameLog.hpp\<close>, \<open>interface/ICanSubscriber.hpp\<close>.
  \<^item> \<open>IsoTp\<close>: one link of \<open>libs/isotp/isotp.c\<close> as the program configures it.  \<open>IsoTpEndpoint\<close>:
    \<open>CanIsoTpEndpoint.cpp\<close>, and that it refines a receiver without buffers.  \<open>IsoTpTransfer\<close>: two
    endpoints on one bus, and the CAN handler with the endpoint as its link, driven by frames,
    polls and requests in any order.
  \<^item> \<open>BitField\<close>: \<open>libs/bitfield/bitarray.c\<close> and \<open>bitfield.c\<close> with every access checked.
    \<open>FieldEditing\<close>: fields as texts, \<open>utils/ScalarTypeDispatch.hpp\<close> and the templates that CAN,
    scripts and Modbus have copies of.  \<open>CanFields\<close>: the bit editor of a CAN frame
    (\<open>CanEntryHandler.cpp\<close>, \<open>gui/BitFieldEditorDialog.cpp\<close>).  \<open>ModbusFields\<close>: the same for a
    register (\<open>ModbusHandler.cpp\<close>).  \<open>CanScript\<close>: \<open>CanScriptHandler.cpp\<close>, a script against the
    events other threads cause while a line runs.  \<open>CanFiles\<close>: \<open>CanXmlLoaders.cpp\<close>,
    \<open>utils/XmlDocument.cpp\<close>.
  \<^item> \<open>NumberText\<close>: \<open>utils/NumberParsing.hpp\<close>.  \<open>MacroKeys\<close>: the key tables, hotkeys and the macro
    language (\<open>KeyScanCodes.cpp\<close>, \<open>HotkeyRegistry.cpp\<close>, \<open>MacroActions.cpp\<close>, \<open>CustomMacro.cpp\<close>).
    \<open>MacroProfiles\<close>: loading and saving of \<open>MacroSettings.cpp\<close>.  \<open>MacroKeypad\<close>: frames of the
    keypad and who gets a key (\<open>MacroKeyFrame.cpp\<close>, \<open>CustomMacro.cpp\<close>).
  \<^item> \<open>HexText\<close>: \<open>utils/HexBytes.hpp\<close>, \<open>UdsRawScript.hpp\<close>, \<open>utils/EnumNameTable.hpp\<close>.  \<open>DidHandler\<close>:
    \<open>DidHandler.cpp\<close>, \<open>UdsCodes.hpp\<close>, against an environment that answers frames and makes the
    calls of the GUI during the waits.
  \<^item> \<open>TcpMessages\<close>: \<open>TcpMessageParser.cpp\<close>, \<open>TcpMessageExecutor.cpp\<close>.  \<open>TcpSession\<close>: \<open>Session.cpp\<close> as a
    step relation over the completions the network library delivers.
  \<^item> \<open>TimeLogic\<close>: \<open>TimeTrackerLogic.cpp\<close>.  \<open>TimeTracker\<close>: \<open>TimeTracker.cpp\<close> over a storage and a calendar.
  \<^item> \<open>BackupNames\<close>, \<open>BackupCopy\<close>: \<open>DirectoryBackupCore.cpp\<close>, names and rotation, and copying over a file
    system that decides the outcome of every operation and logs it.  What a backup's name and a
    complete copy are is stated apart from the code.
  \<^item> \<open>SettingsIni\<close>: \<open>SettingsIniDocument.cpp\<close>, the document behind the settings dialog.
  \<^item> \<open>ScanText\<close>: the part of \<open>sscanf\<close> that the program uses.  \<open>Alarms\<close>: \<open>Alarms.cpp\<close> with the prompt
    of \<open>gui/AlarmPanel.cpp\<close>.
  \<^item> \<open>CommandParams\<close>: placeholders in commands, \<open>CommandParams.hpp\<close> and \<open>Command\<close> in \<open>CmdExecutor.cpp\<close>.
    \<open>CmdExecutor\<close>: the pages of commands, their file and running them, with
    \<open>automation/CommandTextResolver.cpp\<close> and \<open>utils/ColorCode.hpp\<close>.

  \<^bold>\<open>How state and operations correspond.\<close>  A class is a record of its fields, with the sources'
  names; a method is a function that returns the updated record; a thread is the function of
  one of its turns; an exception, an early return or a null dereference is a value.  Words
  have their width; \<open>std::map\<close> is a list in key order or a function; what the code calls
  outside the repository (the serial line, SQLite, the file system, \<open>boost::algorithm::hex\<close>, the
  calendar) is an argument, with what the code relies on as a named predicate
  (\<open>hex_documented\<close>, \<open>text_functions_documented\<close>, \<open>storage_contract\<close>, \<open>responsive\<close>) and a witness that meets it.

  \<^bold>\<open>What the groups of lemmas show.\<close>  Round trips of every codec, from any chunking of the
  stream; that reads of a Modbus slave return its memory and show it in the table, and that
  nothing but a genuine response is accepted; invariants of the register layout, of the
  queues and logs, of a TCP session's messages and of the time tracker's entries; the exact
  condition under which the loops return, and runs on which they do not; that a copy of bits
  equals a copy bit by bit, that an edited field is what is shown and sent next and that
  nothing else changes; that macros, frame mappings, transmit lists, commands
  and settings survive a restart; that a segmented message is delivered and an alarm runs its macro in time; that
  every script runs to its end and a damaged keypad frame runs nothing; safety of rotation,
  of a backup's final name and of a path received from the network; bounds on buffers,
  queues and rates.

  \<^bold>\<open>Bounds and fuel.\<close>  No model runs on fuel.  Loops that may run for ever are partial functions
  into an option (the client's retries, the CAN send loop, both DID loops), and their
  theorems say when the value is \<open>Some\<close>; all other recursions have termination proofs.

  \<^bold>\<open>Not modelled.\<close>  The wxWidgets interface, threads, locks and data races, sleeps and the clock
  (times are arguments), logging, the JSON files, the syntax of the XML files, the
  reading of settings from their document,
  floating point values other than integers rounded to their precision, the key and mouse
  events that macros inject, the processes that commands start, sensors and measurements, and the vendored
  libraries other than the bit fields and ISO-TP.  Interleaving is modelled where the
  code's meaning depends on it: the GUI's calls during the waits of the DID handler, the
  events during a line of a script (an abort is one step of them), the reads of a serial port between two
  turns of its worker, the polls between two frames of a segmented message, and the completions
  of a TCP session.
\<close>

end
